(* ===== verification/Prelude.thy ===== *)
theory Prelude
  imports Main "HOL-Library.Word"
begin

unbundle bit_operations_syntax

text \<open>
  Shared vocabulary of the development: Go's fixed-width integers, the named fact
  collections of the components, and the generic lemmas on bits and lists that more than one
  component uses.
\<close>

named_theorems wrap_simps \<open>unfolding rules for 64-bit wrap-around\<close>
named_theorems mask_simps \<open>the instruction masks written as bit masks\<close>

type_synonym u8 = "8 word"
type_synonym u32 = "32 word"
type_synonym u64 = "64 word"

section \<open>Signed 64-bit integers\<close>

text \<open>
  A Go \<open>int64\<close> (and, on the 64-bit targets of the program, a Go \<open>int\<close>) is an \<open>int\<close>
  between \<open>MinInt64\<close> and \<open>MaxInt64\<close>; every arithmetic operation wraps its exact
  result back into that range.
\<close>

abbreviation MinInt64 :: int where "MinInt64 \<equiv> - 9223372036854775808"
abbreviation MaxInt64 :: int where "MaxInt64 \<equiv> 9223372036854775807"

definition is_int64 :: "int \<Rightarrow> bool" where
  "is_int64 x \<longleftrightarrow> MinInt64 \<le> x \<and> x \<le> MaxInt64"

definition wrap64 :: "int \<Rightarrow> int" where
  "wrap64 x = (x + 9223372036854775808) mod 18446744073709551616 - 9223372036854775808"

text \<open>
  The bytes that the Go runtime allocates at most for one slice on these targets; \<open>make\<close> panics when
  the capacity asks for more.
\<close>

abbreviation maxAlloc :: int where "maxAlloc \<equiv> 281474976710656"

text \<open>Go's division truncates towards zero and the remainder has the sign of the dividend.\<close>

definition trunc_div :: "int \<Rightarrow> int \<Rightarrow> int" where
  "trunc_div a b = sgn a * sgn b * (\<bar>a\<bar> div \<bar>b\<bar>)"

definition go_quot :: "int \<Rightarrow> int \<Rightarrow> int" where
  "go_quot a b = wrap64 (trunc_div a b)"

definition go_rem :: "int \<Rightarrow> int \<Rightarrow> int" where
  "go_rem a b = sgn a * (\<bar>a\<bar> mod \<bar>b\<bar>)"

lemma wrap64_in_range [simp]: "is_int64 (wrap64 x)"
proof -
  have "0 \<le> (x + 9223372036854775808) mod 18446744073709551616"
    and "(x + 9223372036854775808) mod 18446744073709551616 < 18446744073709551616"
    by (simp_all add: pos_mod_bound)
  then show ?thesis by (simp add: wrap64_def is_int64_def)
qed

lemma wrap64_id [simp]: "is_int64 x \<Longrightarrow> wrap64 x = x"
  by (simp add: wrap64_def is_int64_def)

lemma wrap64_eqE:
  obtains k where "wrap64 x = x + k * 18446744073709551616"
proof
  show "wrap64 x = x + (- ((x + 9223372036854775808) div 18446744073709551616)) * 18446744073709551616"
    unfolding wrap64_def by (simp add: minus_div_mult_eq_mod [symmetric])
qed

lemma wrap64_cong: "wrap64 x mod 18446744073709551616 = x mod 18446744073709551616"
  by (simp add: wrap64_def mod_diff_left_eq)

lemma wrap64_period: "wrap64 (x + k * 18446744073709551616) = wrap64 x"
proof -
  have "x + k * 18446744073709551616 + 9223372036854775808 =
      x + 9223372036854775808 + k * 18446744073709551616" by simp
  then show ?thesis by (simp only: wrap64_def mod_mult_self1)
qed

section \<open>Truncating division\<close>

lemma trunc_div_rem: "b \<noteq> 0 \<Longrightarrow> trunc_div a b * b + go_rem a b = a"
proof -
  assume "b \<noteq> 0"
  have e: "\<bar>a\<bar> div \<bar>b\<bar> * \<bar>b\<bar> + \<bar>a\<bar> mod \<bar>b\<bar> = \<bar>a\<bar>" by simp
  have "trunc_div a b * b + go_rem a b = sgn a * (\<bar>a\<bar> div \<bar>b\<bar> * (sgn b * b) + \<bar>a\<bar> mod \<bar>b\<bar>)"
    by (simp add: trunc_div_def go_rem_def algebra_simps)
  also have "sgn b * b = \<bar>b\<bar>" by (simp add: sgn_mult_self_eq abs_sgn mult.commute)
  also have "sgn a * (\<bar>a\<bar> div \<bar>b\<bar> * \<bar>b\<bar> + \<bar>a\<bar> mod \<bar>b\<bar>) = a"
    by (simp only: e) (simp add: sgn_mult_abs)
  finally show ?thesis .
qed

lemma go_rem_bound: "b \<noteq> 0 \<Longrightarrow> \<bar>go_rem a b\<bar> < \<bar>b\<bar>"
  by (simp add: go_rem_def abs_mult abs_sgn_eq)

lemma trunc_div_abs: "\<bar>trunc_div a b\<bar> \<le> \<bar>a\<bar>"
proof (cases "b = 0")
  case False
  then have "\<bar>a\<bar> div \<bar>b\<bar> \<le> \<bar>a\<bar>" using zdiv_mono2 [of "\<bar>a\<bar>" 1 "\<bar>b\<bar>"] by simp
  moreover have "0 \<le> \<bar>a\<bar> div \<bar>b\<bar>" by (simp add: pos_imp_zdiv_nonneg_iff False)
  ultimately show ?thesis by (simp add: trunc_div_def abs_mult abs_sgn_eq)
qed (simp add: trunc_div_def)

lemma trunc_div_mult [simp]: "a \<noteq> 0 \<Longrightarrow> trunc_div (a * b) a = b"
proof -
  assume "a \<noteq> 0"
  then have "trunc_div (a * b) a = sgn b * \<bar>b\<bar>"
    by (simp add: trunc_div_def abs_mult sgn_mult sgn_mult_self_eq mult.commute mult.left_commute)
  then show ?thesis by (simp add: sgn_mult_abs)
qed

lemma trunc_div_floor:
  assumes "r \<noteq> 0"
  shows "l div r = (if (l < 0) \<noteq> (r < 0) \<and> go_rem l r \<noteq> 0 then trunc_div l r - 1 else trunc_div l r)"
proof -
  consider "0 \<le> l" "0 < r" | "l < 0" "0 < r" | "0 \<le> l" "r < 0" | "l < 0" "r < 0"
    using assms by linarith
  then show ?thesis
  proof cases
    case 2
    then show ?thesis
      using zdiv_zminus1_eq_if [of r "- l"] by (auto simp: trunc_div_def go_rem_def)
  next
    case 3
    then show ?thesis
      using zdiv_zminus2_eq_if [of "- r" l] by (auto simp: trunc_div_def go_rem_def sgn_if)
  qed (auto simp: trunc_div_def go_rem_def sgn_if)
qed

lemma go_rem_floor:
  assumes "r \<noteq> 0"
  shows "l mod r = (if go_rem l r \<noteq> 0 \<and> (go_rem l r < 0) \<noteq> (r < 0) then go_rem l r + r else go_rem l r)"
proof -
  consider "0 \<le> l" "0 < r" | "l < 0" "0 < r" | "0 \<le> l" "r < 0" | "l < 0" "r < 0"
    using assms by linarith
  then show ?thesis
  proof cases
    case 1
    then show ?thesis by (auto simp: go_rem_def sgn_if not_less pos_mod_sign)
  next
    case 2
    then have "- l mod r = 0 \<or> 0 < - l mod r" using pos_mod_sign [of r "- l"] by linarith
    with 2 show ?thesis
      using zmod_zminus1_eq_if [of "- l" r] by (auto simp: go_rem_def)
  next
    case 3
    then have "l mod - r = 0 \<or> 0 < l mod - r" using pos_mod_sign [of "- r" l] by linarith
    with 3 show ?thesis
      using zmod_zminus2_eq_if [of l "- r"] by (auto simp: go_rem_def sgn_if)
  next
    case 4
    then have "- l mod - r = 0 \<or> 0 < - l mod - r"
      using pos_mod_sign [of "- r" "- l"] by linarith
    with 4 show ?thesis by (auto simp: go_rem_def sgn_if)
  qed
qed

end
