(* ===== verification/Opcode.thy ===== *)
theory Opcode
  imports Prelude
begin

text \<open>
  The instruction set of the VM, \<open>opcode.go\<close>: 32-bit instructions with a 6-bit opcode, an
  8-bit operand \<open>A\<close> and either two 9-bit operands \<open>B\<close>, \<open>C\<close> or one 18-bit operand
  \<open>Bx\<close> (signed as \<open>sBx\<close>). A Go \<open>uint32\<close> is a \<open>32 word\<close>; the setters, which write
  through a pointer in Go, return the new instruction. The lemmas show that every getter reads
  back what its setter wrote, that the fields do not overlap, and that an instruction is
  determined by its fields.
\<close>

unbundle bit_operations_syntax

section \<open>Layout\<close>

definition opInvalidInstruction :: u32 where "opInvalidInstruction = NOT 0"

abbreviation (input) opSizeA :: nat where "opSizeA \<equiv> 8"
abbreviation (input) opSizeB :: nat where "opSizeB \<equiv> 9"
abbreviation (input) opSizeC :: nat where "opSizeC \<equiv> 9"
abbreviation (input) opSizeBx :: nat where "opSizeBx \<equiv> 18"

definition opMaxArgsA :: int where "opMaxArgsA = push_bit opSizeA 1 - 1"
definition opMaxArgsC :: int where "opMaxArgsC = push_bit opSizeC 1 - 1"
definition opMaxArgBx :: int where "opMaxArgBx = push_bit opSizeBx 1 - 1"
definition opMaxArgSbx :: int where "opMaxArgSbx = drop_bit 1 opMaxArgBx"

datatype (plugins only: code size) opcode =
    OP_MOVE | OP_MOVEN | OP_LOADK | OP_LOADBOOL | OP_LOADNIL | OP_GETUPVAL
  | OP_GETGLOBAL | OP_GETTABLE | OP_GETTABLEKS
  | OP_SETGLOBAL | OP_SETUPVAL | OP_SETTABLE | OP_SETTABLEKS
  | OP_NEWTABLE | OP_SELF
  | OP_ADD | OP_SUB | OP_MUL | OP_DIV | OP_MOD | OP_POW | OP_IDIV
  | OP_BAND | OP_BOR | OP_BXOR | OP_SHL | OP_SHR | OP_UNM | OP_BNOT | OP_NOT | OP_LEN
  | OP_CONCAT | OP_JMP | OP_EQ | OP_LT | OP_LE | OP_TEST | OP_TESTSET
  | OP_CALL | OP_TAILCALL | OP_RETURN | OP_FORLOOP | OP_FORPREP
  | OP_TFORLOOP | OP_SETLIST | OP_CLOSE | OP_CLOSURE | OP_VARARG | OP_NOP | OP_LOADTYPE

text \<open>The opcodes in the order \<open>iota\<close> numbers them.\<close>

definition opcodes :: "opcode list" where
  "opcodes =
    [OP_MOVE, OP_MOVEN, OP_LOADK, OP_LOADBOOL, OP_LOADNIL, OP_GETUPVAL,
     OP_GETGLOBAL, OP_GETTABLE, OP_GETTABLEKS,
     OP_SETGLOBAL, OP_SETUPVAL, OP_SETTABLE, OP_SETTABLEKS,
     OP_NEWTABLE, OP_SELF,
     OP_ADD, OP_SUB, OP_MUL, OP_DIV, OP_MOD, OP_POW, OP_IDIV,
     OP_BAND, OP_BOR, OP_BXOR, OP_SHL, OP_SHR, OP_UNM, OP_BNOT, OP_NOT, OP_LEN,
     OP_CONCAT, OP_JMP, OP_EQ, OP_LT, OP_LE, OP_TEST, OP_TESTSET,
     OP_CALL, OP_TAILCALL, OP_RETURN, OP_FORLOOP, OP_FORPREP,
     OP_TFORLOOP, OP_SETLIST, OP_CLOSE, OP_CLOSURE, OP_VARARG, OP_NOP, OP_LOADTYPE]"

datatype opArgMode = opArgModeN | opArgModeU | opArgModeR | opArgModeK

datatype opType = opTypeABC | opTypeABx | opTypeASbx

record opProp =
  Name :: string
  IsTest :: bool
  SetRegA :: bool
  ModeArgB :: opArgMode
  ModeArgC :: opArgMode
  Type :: opType

definition mk_prop ::
  "string \<Rightarrow> bool \<Rightarrow> bool \<Rightarrow> opArgMode \<Rightarrow> opArgMode \<Rightarrow> opType \<Rightarrow> opProp" where
  "mk_prop n t s b c ty =
     \<lparr>Name = n, IsTest = t, SetRegA = s, ModeArgB = b, ModeArgC = c, Type = ty\<rparr>"

definition opProps :: "opProp list" where
  "opProps =
    [mk_prop ''MOVE'' False True opArgModeR opArgModeN opTypeABC,
     mk_prop ''MOVEN'' False True opArgModeR opArgModeN opTypeABC,
     mk_prop ''LOADK'' False True opArgModeK opArgModeN opTypeABx,
     mk_prop ''LOADBOOL'' False True opArgModeU opArgModeU opTypeABC,
     mk_prop ''LOADNIL'' False True opArgModeR opArgModeN opTypeABC,
     mk_prop ''GETUPVAL'' False True opArgModeU opArgModeN opTypeABC,
     mk_prop ''GETGLOBAL'' False True opArgModeK opArgModeN opTypeABx,
     mk_prop ''GETTABLE'' False True opArgModeR opArgModeK opTypeABC,
     mk_prop ''GETTABLEKS'' False True opArgModeR opArgModeK opTypeABC,
     mk_prop ''SETGLOBAL'' False False opArgModeK opArgModeN opTypeABx,
     mk_prop ''SETUPVAL'' False False opArgModeU opArgModeN opTypeABC,
     mk_prop ''SETTABLE'' False False opArgModeK opArgModeK opTypeABC,
     mk_prop ''SETTABLEKS'' False False opArgModeK opArgModeK opTypeABC,
     mk_prop ''NEWTABLE'' False True opArgModeU opArgModeU opTypeABC,
     mk_prop ''SELF'' False True opArgModeR opArgModeK opTypeABC,
     mk_prop ''ADD'' False True opArgModeK opArgModeK opTypeABC,
     mk_prop ''SUB'' False True opArgModeK opArgModeK opTypeABC,
     mk_prop ''MUL'' False True opArgModeK opArgModeK opTypeABC,
     mk_prop ''DIV'' False True opArgModeK opArgModeK opTypeABC,
     mk_prop ''MOD'' False True opArgModeK opArgModeK opTypeABC,
     mk_prop ''POW'' False True opArgModeK opArgModeK opTypeABC,
     mk_prop ''IDIV'' False True opArgModeK opArgModeK opTypeABC,
     mk_prop ''BAND'' False True opArgModeK opArgModeK opTypeABC,
     mk_prop ''BOR'' False True opArgModeK opArgModeK opTypeABC,
     mk_prop ''BXOR'' False True opArgModeK opArgModeK opTypeABC,
     mk_prop ''SHL'' False True opArgModeK opArgModeK opTypeABC,
     mk_prop ''SHR'' False True opArgModeK opArgModeK opTypeABC,
     mk_prop ''UNM'' False True opArgModeR opArgModeN opTypeABC,
     mk_prop ''BNOT'' False True opArgModeR opArgModeN opTypeABC,
     mk_prop ''NOT'' False True opArgModeR opArgModeN opTypeABC,
     mk_prop ''LEN'' False True opArgModeR opArgModeN opTypeABC,
     mk_prop ''CONCAT'' False True opArgModeR opArgModeR opTypeABC,
     mk_prop ''JMP'' False False opArgModeR opArgModeN opTypeASbx,
     mk_prop ''EQ'' True False opArgModeK opArgModeK opTypeABC,
     mk_prop ''LT'' True False opArgModeK opArgModeK opTypeABC,
     mk_prop ''LE'' True False opArgModeK opArgModeK opTypeABC,
     mk_prop ''TEST'' True True opArgModeR opArgModeU opTypeABC,
     mk_prop ''TESTSET'' True True opArgModeR opArgModeU opTypeABC,
     mk_prop ''CALL'' False True opArgModeU opArgModeU opTypeABC,
     mk_prop ''TAILCALL'' False True opArgModeU opArgModeU opTypeABC,
     mk_prop ''RETURN'' False False opArgModeU opArgModeN opTypeABC,
     mk_prop ''FORLOOP'' False True opArgModeR opArgModeN opTypeASbx,
     mk_prop ''FORPREP'' False True opArgModeR opArgModeN opTypeASbx,
     mk_prop ''TFORLOOP'' True False opArgModeN opArgModeU opTypeABC,
     mk_prop ''SETLIST'' False False opArgModeU opArgModeU opTypeABC,
     mk_prop ''CLOSE'' False False opArgModeN opArgModeN opTypeABC,
     mk_prop ''CLOSURE'' False True opArgModeU opArgModeN opTypeABx,
     mk_prop ''VARARG'' False True opArgModeU opArgModeN opTypeABC,
     mk_prop ''NOP'' False False opArgModeR opArgModeN opTypeASbx,
     mk_prop ''LOADTYPE'' False True opArgModeK opArgModeN opTypeABx]"

definition opCodeMax :: int where "opCodeMax = int (length opcodes) - 1"

section \<open>Field access\<close>

definition opGetOpCode :: "u32 \<Rightarrow> int" where
  "opGetOpCode inst = uint (drop_bit 26 inst)"

definition opSetOpCode :: "u32 \<Rightarrow> int \<Rightarrow> u32" where
  "opSetOpCode inst opcode = (inst AND 0x3ffffff) OR word_of_int (push_bit 26 opcode)"

definition opGetArgA :: "u32 \<Rightarrow> int" where
  "opGetArgA inst = uint (drop_bit 18 inst) AND 0xff"

definition opSetArgA :: "u32 \<Rightarrow> int \<Rightarrow> u32" where
  "opSetArgA inst arg = (inst AND 0xfc03ffff) OR word_of_int (push_bit 18 (arg AND 0xff))"

definition opGetArgB :: "u32 \<Rightarrow> int" where
  "opGetArgB inst = uint (inst AND 0x1ff)"

definition opSetArgB :: "u32 \<Rightarrow> int \<Rightarrow> u32" where
  "opSetArgB inst arg = (inst AND 0xfffffe00) OR word_of_int (arg AND 0x1ff)"

definition opGetArgC :: "u32 \<Rightarrow> int" where
  "opGetArgC inst = uint (drop_bit 9 inst) AND 0x1ff"

definition opSetArgC :: "u32 \<Rightarrow> int \<Rightarrow> u32" where
  "opSetArgC inst arg = (inst AND 0xfffc01ff) OR word_of_int (push_bit 9 (arg AND 0x1ff))"

definition opGetArgBx :: "u32 \<Rightarrow> int" where
  "opGetArgBx inst = uint (inst AND 0x3ffff)"

definition opSetArgBx :: "u32 \<Rightarrow> int \<Rightarrow> u32" where
  "opSetArgBx inst arg = (inst AND 0xfffc0000) OR word_of_int (arg AND 0x3ffff)"

definition opGetArgSbx :: "u32 \<Rightarrow> int" where
  "opGetArgSbx inst = opGetArgBx inst - opMaxArgSbx"

definition opSetArgSbx :: "u32 \<Rightarrow> int \<Rightarrow> u32" where
  "opSetArgSbx inst arg = opSetArgBx inst (arg + opMaxArgSbx)"

definition opCreateABC :: "int \<Rightarrow> int \<Rightarrow> int \<Rightarrow> int \<Rightarrow> u32" where
  "opCreateABC op a b c =
     (let inst = 0; inst = opSetOpCode inst op; inst = opSetArgA inst a;
          inst = opSetArgB inst b; inst = opSetArgC inst c in inst)"

definition opCreateABx :: "int \<Rightarrow> int \<Rightarrow> int \<Rightarrow> u32" where
  "opCreateABx op a bx =
     (let inst = 0; inst = opSetOpCode inst op; inst = opSetArgA inst a;
          inst = opSetArgBx inst bx in inst)"

definition opCreateASbx :: "int \<Rightarrow> int \<Rightarrow> int \<Rightarrow> u32" where
  "opCreateASbx op a sbx =
     (let inst = 0; inst = opSetOpCode inst op; inst = opSetArgA inst a;
          inst = opSetArgSbx inst sbx in inst)"

definition opBitRk :: int where "opBitRk = push_bit (opSizeB - 1) 1"
definition opMaxIndexRk :: int where "opMaxIndexRk = opBitRk - 1"

definition opRkAsk :: "int \<Rightarrow> int" where "opRkAsk value = value OR opBitRk"

section \<open>Masks\<close>

lemma mask_op [mask_simps]: "(0x3ffffff :: u32) = NOT (push_bit 26 (mask 6))" by code_simp
lemma mask_A [mask_simps]: "(0xfc03ffff :: u32) = NOT (push_bit 18 (mask 8))" by code_simp
lemma mask_B [mask_simps]: "(0xfffffe00 :: u32) = NOT (mask 9)" by code_simp
lemma mask_C [mask_simps]: "(0xfffc01ff :: u32) = NOT (push_bit 9 (mask 9))" by code_simp
lemma mask_Bx [mask_simps]: "(0xfffc0000 :: u32) = NOT (mask 18)" by code_simp
lemma mask_u9 [mask_simps]: "(0x1ff :: u32) = mask 9" by code_simp
lemma mask_u18 [mask_simps]: "(0x3ffff :: u32) = mask 18" by code_simp
lemma mask_i8 [mask_simps]: "(0xff :: int) = mask 8" by code_simp
lemma mask_i9 [mask_simps]: "(0x1ff :: int) = mask 9" by code_simp
lemma mask_i18 [mask_simps]: "(0x3ffff :: int) = mask 18" by code_simp

lemmas field_defs =
  opGetOpCode_def opSetOpCode_def opGetArgA_def opSetArgA_def opGetArgB_def opSetArgB_def
  opGetArgC_def opSetArgC_def opGetArgBx_def opSetArgBx_def

section \<open>Fields as an interface\<close>

text \<open>
  A field of an instruction is a getter, a setter and a width. The laws are those of a lens whose
  setter truncates to the width.
\<close>

locale bit_field =
  fixes get :: "u32 \<Rightarrow> int" and put :: "u32 \<Rightarrow> int \<Rightarrow> u32" and width :: nat
  assumes get_put: "get (put i v) = take_bit width v"
    and put_put: "put (put i v) w = put i w"
    and put_get: "put i (get i) = i"
begin

lemma get_truncated: "take_bit width (get i) = get i"
  by (metis get_put put_get)

lemma get_bounds: "0 \<le> get i \<and> get i < 2 ^ width"
  by (metis get_truncated take_bit_nonnegative take_bit_int_less_exp)

lemma get_put_mod: "get (put i v) = v mod 2 ^ width"
  by (simp add: get_put take_bit_eq_mod)

lemma get_put_exact: "0 \<le> v \<Longrightarrow> v < 2 ^ width \<Longrightarrow> get (put i v) = v"
  by (simp add: get_put_mod)

lemma put_eq_iff: "put i v = put i w \<longleftrightarrow> take_bit width v = take_bit width w"
  by (metis get_put put_get put_put)

end

text \<open>Two fields that share no bit.\<close>

locale disjoint_fields =
  f: bit_field get1 put1 w1 + g: bit_field get2 put2 w2
  for get1 put1 w1 and get2 put2 w2 +
  assumes frame1: "get1 (put2 i v) = get1 i"
    and frame2: "get2 (put1 i v) = get2 i"
begin

lemma read_both:
  "get1 (put2 (put1 i v) w) = v mod 2 ^ w1" "get2 (put2 (put1 i v) w) = w mod 2 ^ w2"
  by (simp_all add: frame1 f.get_put_mod g.get_put_mod)

end

interpretation opc: bit_field opGetOpCode opSetOpCode 6
  by unfold_locales (rule bit_eqI; auto simp: field_defs mask_simps bit_simps)+

interpretation argA: bit_field opGetArgA opSetArgA 8
  by unfold_locales (rule bit_eqI; auto simp: field_defs mask_simps bit_simps)+

interpretation argB: bit_field opGetArgB opSetArgB 9
  by unfold_locales (rule bit_eqI; auto simp: field_defs mask_simps bit_simps)+

interpretation argC: bit_field opGetArgC opSetArgC 9
  by unfold_locales (rule bit_eqI; auto simp: field_defs mask_simps bit_simps)+

interpretation argBx: bit_field opGetArgBx opSetArgBx 18
  by unfold_locales (rule bit_eqI; auto simp: field_defs mask_simps bit_simps)+

lemma u32_bit_bound: "bit (i :: u32) n \<Longrightarrow> n < 32"
  by (drule bit_imp_le_length) simp

interpretation op_A: disjoint_fields opGetOpCode opSetOpCode 6 opGetArgA opSetArgA 8
  by unfold_locales (rule bit_eqI; auto simp: field_defs mask_simps bit_simps dest: u32_bit_bound)+

interpretation op_B: disjoint_fields opGetOpCode opSetOpCode 6 opGetArgB opSetArgB 9
  by unfold_locales (rule bit_eqI; auto simp: field_defs mask_simps bit_simps dest: u32_bit_bound)+

interpretation op_C: disjoint_fields opGetOpCode opSetOpCode 6 opGetArgC opSetArgC 9
  by unfold_locales (rule bit_eqI; auto simp: field_defs mask_simps bit_simps dest: u32_bit_bound)+

interpretation op_Bx: disjoint_fields opGetOpCode opSetOpCode 6 opGetArgBx opSetArgBx 18
  by unfold_locales (rule bit_eqI; auto simp: field_defs mask_simps bit_simps dest: u32_bit_bound)+

interpretation A_B: disjoint_fields opGetArgA opSetArgA 8 opGetArgB opSetArgB 9
  by unfold_locales (rule bit_eqI; auto simp: field_defs mask_simps bit_simps)+

interpretation A_C: disjoint_fields opGetArgA opSetArgA 8 opGetArgC opSetArgC 9
  by unfold_locales (rule bit_eqI; auto simp: field_defs mask_simps bit_simps)+

interpretation A_Bx: disjoint_fields opGetArgA opSetArgA 8 opGetArgBx opSetArgBx 18
  by unfold_locales (rule bit_eqI; auto simp: field_defs mask_simps bit_simps)+

interpretation B_C: disjoint_fields opGetArgB opSetArgB 9 opGetArgC opSetArgC 9
  by unfold_locales (rule bit_eqI; auto simp: field_defs mask_simps bit_simps)+

lemmas field_frames =
  op_A.frame1 op_A.frame2 op_B.frame1 op_B.frame2 op_C.frame1 op_C.frame2
  op_Bx.frame1 op_Bx.frame2 A_B.frame1 A_B.frame2 A_C.frame1 A_C.frame2
  A_Bx.frame1 A_Bx.frame2 B_C.frame1 B_C.frame2

lemmas field_reads =
  opc.get_put_mod argA.get_put_mod argB.get_put_mod argC.get_put_mod argBx.get_put_mod

section \<open>Instructions\<close>

lemma opMaxArgSbx_value: "opMaxArgSbx = 131071"
  by (simp add: opMaxArgSbx_def opMaxArgBx_def push_bit_eq_mult drop_bit_eq_div)

text \<open>
  C19: an instruction built by \<open>opCreateABC\<close> gives back exactly its opcode and its three
  operands, each truncated to the width of its field, whatever integers were passed.
\<close>

theorem opCreateABC_roundtrip:
  "opGetOpCode (opCreateABC op a b c) = op mod 64 \<and>
   opGetArgA (opCreateABC op a b c) = a mod 256 \<and>
   opGetArgB (opCreateABC op a b c) = b mod 512 \<and>
   opGetArgC (opCreateABC op a b c) = c mod 512"
  by (simp add: opCreateABC_def field_frames field_reads)

lemma opCreateASbx_fields:
  "opGetOpCode (opCreateASbx op a s) = op mod 64 \<and>
   opGetArgA (opCreateASbx op a s) = a mod 256 \<and>
   opGetArgSbx (opCreateASbx op a s) = (s + 131071) mod 262144 - 131071"
  by (simp add: opCreateASbx_def opSetArgSbx_def opGetArgSbx_def opMaxArgSbx_value
      field_frames field_reads)

text \<open>
  a jump offset that fits the signed 18-bit field (from \<open>-131071\<close> to \<open>131072\<close>) survives
  encoding unchanged.
\<close>

theorem opCreateASbx_offset_exact:
  assumes "- opMaxArgSbx \<le> s" and "s \<le> opMaxArgSbx + 1"
  shows "opGetArgSbx (opCreateASbx op a s) = s"
  using assms by (simp add: opCreateASbx_fields opMaxArgSbx_value)

theorem opCreateASbx_offset_exact_witness:
  "opGetArgSbx (opCreateASbx 32 0 (-5)) = -5"
  by (rule opCreateASbx_offset_exact) (simp_all add: opMaxArgSbx_value)

text \<open>
  The field layout loses nothing: rebuilding an instruction from its opcode and its
  operands gives the instruction back, in the ABC form and in the ABx form.
\<close>

theorem op_rebuild:
  "opCreateABC (opGetOpCode i) (opGetArgA i) (opGetArgB i) (opGetArgC i) = i \<and>
   opCreateABx (opGetOpCode i) (opGetArgA i) (opGetArgBx i) = i"
proof (intro conjI; rule bit_eqI)
  fix n assume "possible_bit TYPE(u32) n"
  then have n: "n < 32" by (simp add: possible_bit_def)
  then consider "n < 9" | "9 \<le> n" "n < 18" | "18 \<le> n" "n < 26" | "26 \<le> n" by linarith
  then show "bit (opCreateABC (opGetOpCode i) (opGetArgA i) (opGetArgB i) (opGetArgC i)) n = bit i n"
    by cases (use n in \<open>auto simp: opCreateABC_def field_defs mask_simps bit_simps\<close>)
next
  fix n assume "possible_bit TYPE(u32) n"
  then have n: "n < 32" by (simp add: possible_bit_def)
  then consider "n < 18" | "18 \<le> n" "n < 26" | "26 \<le> n" by linarith
  then show "bit (opCreateABx (opGetOpCode i) (opGetArgA i) (opGetArgBx i)) n = bit i n"
    by cases (use n in \<open>auto simp: opCreateABx_def field_defs mask_simps bit_simps\<close>)
qed

end
