(* ===== verification/Integers.thy ===== *)
theory Integers
  imports Prelude
begin

text \<open>
  Integer arithmetic of the runtime and of the analyser: the overflow-checked operations of
  \<open>internal/safemath.go\<close>, Lua's floor division, modulo and shifts of
  \<open>numeric_arithmetic.go\<close>, the FNV-1a hashing of \<open>internal/hash.go\<close> and the recursion
  guard of \<open>internal/recursion.go\<close>. The lemmas compare each routine, which works with 64-bit
  wrap-around, with the exact integer operation it stands for.
\<close>

unbundle bit_operations_syntax

section \<open>Checked arithmetic\<close>

text \<open>A result \<open>(v, true)\<close> is \<open>Some v\<close> and \<open>(0, false)\<close> is \<open>None\<close>.\<close>

definition SafeAdd :: "int \<Rightarrow> int \<Rightarrow> int option" where
  "SafeAdd a b =
     (if b > 0 \<and> a > wrap64 (MaxInt64 - b) then None
      else if b < 0 \<and> a < wrap64 (MinInt64 - b) then None
      else Some (wrap64 (a + b)))"

definition SafeSub :: "int \<Rightarrow> int \<Rightarrow> int option" where
  "SafeSub a b =
     (if b < 0 \<and> a > wrap64 (MaxInt64 + b) then None
      else if b > 0 \<and> a < wrap64 (MinInt64 + b) then None
      else Some (wrap64 (a - b)))"

definition SafeMul :: "int \<Rightarrow> int \<Rightarrow> int option" where
  "SafeMul a b =
     (if a = 0 \<or> b = 0 then Some 0
      else if a = -1 \<and> b = MinInt64 then None
      else if b = -1 \<and> a = MinInt64 then None
      else let result = wrap64 (a * b) in
        if go_quot result a \<noteq> b then None else Some result)"

definition SafeNeg :: "int \<Rightarrow> int option" where
  "SafeNeg a = (if a = MinInt64 then None else Some (wrap64 (- a)))"

section \<open>Lua integer division, modulo and shift\<close>

definition integerFloorDiv :: "int \<Rightarrow> int \<Rightarrow> int" where
  "integerFloorDiv lhs rhs =
     (let q = go_quot lhs rhs in
      if (lhs XOR rhs) < 0 \<and> go_rem lhs rhs \<noteq> 0 then wrap64 (q - 1) else q)"

definition integerModulo :: "int \<Rightarrow> int \<Rightarrow> int" where
  "integerModulo lhs rhs =
     (let r = go_rem lhs rhs in
      if r \<noteq> 0 \<and> (r XOR rhs) < 0 then wrap64 (r + rhs) else r)"

text \<open>
  \<open>value << uint(count)\<close> on a signed word wraps; \<open>uint64(value) >> uint(count)\<close> reads
  the word unsigned first.
\<close>

definition integerShift :: "int \<Rightarrow> int \<Rightarrow> bool \<Rightarrow> int" where
  "integerShift value count left =
     (if count \<ge> 64 \<or> count < -63 then 0
      else
        let (left, count) = (if count < 0 then (\<not> left, wrap64 (- count)) else (left, count)) in
        if left then wrap64 (push_bit (nat count) value)
        else wrap64 (drop_bit (nat count) (value mod 18446744073709551616)))"

section \<open>Hashing\<close>

abbreviation (input) FnvOffset64 :: u64 where "FnvOffset64 \<equiv> 14695981039346656037"
abbreviation (input) FnvPrime64 :: u64 where "FnvPrime64 \<equiv> 1099511628211"

definition MixHash :: "u64 \<Rightarrow> u64 \<Rightarrow> u64" where
  "MixHash h v = (let h = h XOR v; h = h * FnvPrime64 in h)"

definition HashCombine :: "u64 \<Rightarrow> u64 \<Rightarrow> u64" where
  "HashCombine a b = MixHash a b"

fun FnvString_loop :: "u64 \<Rightarrow> u8 list \<Rightarrow> u64" where
  "FnvString_loop h [] = h"
| "FnvString_loop h (c # s) = FnvString_loop ((h XOR ucast c) * FnvPrime64) s"

definition FnvString :: "u8 list \<Rightarrow> u64" where
  "FnvString s = FnvString_loop FnvOffset64 s"

section \<open>Recursion guard\<close>

record RecursionGuard =
  guard_depth :: nat
  guard_maxDepth :: nat
  guard_seen :: "u64 list option"

definition NewRecursionGuard :: "nat \<Rightarrow> RecursionGuard" where
  "NewRecursionGuard maxDepth = \<lparr>guard_depth = 0, guard_maxDepth = maxDepth, guard_seen = None\<rparr>"

definition WithSeen :: "RecursionGuard \<Rightarrow> RecursionGuard" where
  "WithSeen g = (if guard_seen g = None then g\<lparr>guard_seen := Some []\<rparr> else g)"

text \<open>
  \<open>h\<close> is the hash of the value entered, \<open>None\<close> for a nil value. The seen-map is copied on
  write, so the guard that entered keeps its own.
\<close>

definition Enter :: "RecursionGuard \<Rightarrow> u64 option \<Rightarrow> RecursionGuard \<times> bool" where
  "Enter g h =
     (if guard_depth g > guard_maxDepth g then (g, False)
      else let n = g\<lparr>guard_depth := Suc (guard_depth g)\<rparr> in
        case (h, guard_seen n) of
          (Some hash, Some seen) \<Rightarrow>
            if hash \<in> set seen then (n, False)
            else (n\<lparr>guard_seen := Some (hash # seen)\<rparr>, True)
        | _ \<Rightarrow> (n, True))"

section \<open>Checked arithmetic is exact\<close>

lemma SafeAdd_exact:
  "is_int64 a \<Longrightarrow> is_int64 b \<Longrightarrow> SafeAdd a b = (if is_int64 (a + b) then Some (a + b) else None)"
  by (auto simp: SafeAdd_def is_int64_def wrap64_id [unfolded is_int64_def])

lemma SafeSub_exact:
  "is_int64 a \<Longrightarrow> is_int64 b \<Longrightarrow> SafeSub a b = (if is_int64 (a - b) then Some (a - b) else None)"
  by (auto simp: SafeSub_def is_int64_def wrap64_id [unfolded is_int64_def])

lemma SafeNeg_exact:
  "is_int64 a \<Longrightarrow> SafeNeg a = (if is_int64 (- a) then Some (- a) else None)"
  by (auto simp: SafeNeg_def is_int64_def wrap64_id [unfolded is_int64_def])

lemma SafeMul_exact:
  assumes "is_int64 a" "is_int64 b"
  shows "SafeMul a b = (if is_int64 (a * b) then Some (a * b) else None)"
proof (cases "a = 0 \<or> b = 0 \<or> (a = -1 \<and> b = MinInt64) \<or> (b = -1 \<and> a = MinInt64)")
  case True
  then show ?thesis by (auto simp: SafeMul_def is_int64_def)
next
  case False
  let ?r = "wrap64 (a * b)"
  show ?thesis
  proof (cases "is_int64 (a * b)")
    case True
    with False assms show ?thesis by (auto simp: SafeMul_def Let_def go_quot_def)
  next
    case out: False
    have "go_quot ?r a \<noteq> b"
    proof
      assume q: "go_quot ?r a = b"
      obtain k where k: "?r = a * b + k * 18446744073709551616" by (rule wrap64_eqE)
      have "trunc_div ?r a * a + go_rem ?r a = ?r" and rb: "\<bar>go_rem ?r a\<bar> < \<bar>a\<bar>"
        using False by (simp_all add: trunc_div_rem go_rem_bound)
      moreover have "trunc_div ?r a = b"
      proof -
        have "\<bar>trunc_div ?r a\<bar> \<le> 9223372036854775808"
          using trunc_div_abs [of ?r a] wrap64_in_range [of "a * b"] by (auto simp: is_int64_def)
        moreover have "trunc_div ?r a \<noteq> 9223372036854775808"
        proof
          assume t: "trunc_div ?r a = 9223372036854775808"
          then have "wrap64 (trunc_div ?r a) = MinInt64" by (simp add: wrap64_def)
          with q have b: "b = MinInt64" by (simp add: go_quot_def)
          have "\<bar>?r\<bar> \<le> 9223372036854775808"
            using wrap64_in_range [of "a * b"] by (auto simp: is_int64_def)
          moreover have "\<bar>?r\<bar> \<ge> 9223372036854775808 * \<bar>a\<bar> - \<bar>go_rem ?r a\<bar>"
            using trunc_div_rem [of a ?r] False t by (auto simp: abs_if split: if_splits)
          ultimately have "\<bar>a\<bar> < 2" using rb by linarith
          with False b have "a = 1" by auto
          with out assms show False by simp
        qed
        ultimately have "is_int64 (trunc_div ?r a)" by (auto simp: is_int64_def)
        with q show ?thesis by (simp add: go_quot_def)
      qed
      ultimately have "\<bar>k * 18446744073709551616\<bar> < \<bar>a\<bar>" using k by (simp add: mult.commute)
      moreover have "\<bar>a\<bar> \<le> 9223372036854775808" using assms by (auto simp: is_int64_def)
      ultimately have "k = 0" by (auto simp: abs_mult)
      with k out wrap64_in_range [of "a * b"] show False by simp
    qed
    with False out show ?thesis by (auto simp: SafeMul_def Let_def)
  qed
qed

section \<open>Division, modulo and shifts against their specifications\<close>

lemma integerFloorDiv_floor:
  assumes "rhs \<noteq> 0"
  shows "integerFloorDiv lhs rhs = wrap64 (lhs div rhs)"
proof -
  have w: "wrap64 (wrap64 x - 1) = wrap64 (x - 1)" for x
    unfolding wrap64_def by (simp add: mod_diff_left_eq mod_add_left_eq algebra_simps)
  show ?thesis
    using assms
    by (simp add: integerFloorDiv_def Let_def xor_negative_int_iff go_quot_def trunc_div_floor w)
qed

lemma integerModulo_mod:
  assumes "is_int64 lhs" "is_int64 rhs" "rhs \<noteq> 0"
  shows "integerModulo lhs rhs = lhs mod rhs"
proof -
  have "is_int64 (lhs mod rhs)"
  proof (cases "0 < rhs")
    case True
    then have "0 \<le> lhs mod rhs" "lhs mod rhs < rhs" by simp_all
    with assms show ?thesis unfolding is_int64_def by linarith
  next
    case False
    with assms(3) have "lhs mod rhs \<le> 0" "rhs < lhs mod rhs" by simp_all
    with assms show ?thesis unfolding is_int64_def by linarith
  qed
  with go_rem_floor [OF assms(3), of lhs] show ?thesis
    by (auto simp: integerModulo_def Let_def xor_negative_int_iff)
qed

lemma wrap64_word: "word_of_int (wrap64 x) = (word_of_int x :: u64)"
proof -
  obtain k where "wrap64 x = x + k * 18446744073709551616" by (rule wrap64_eqE)
  then have "wrap64 x mod 18446744073709551616 = x mod 18446744073709551616" by simp
  then show ?thesis by (simp add: word_of_int_eq_iff take_bit_eq_mod)
qed

lemma integerShift_word:
  "word_of_int (integerShift v c left) =
     (if (0 \<le> c) = left then push_bit (nat \<bar>c\<bar>) (word_of_int v)
      else drop_bit (nat \<bar>c\<bar>) (word_of_int v :: u64))"
proof -
  have l: "word_of_int (push_bit n v) = push_bit n (word_of_int v :: u64)" for n
    by (rule bit_eqI) (auto simp: bit_simps)
  have m: "v mod 18446744073709551616 = take_bit 64 v" by (simp add: take_bit_eq_mod)
  have r: "word_of_int (drop_bit n (take_bit 64 v)) = drop_bit n (word_of_int v :: u64)" for n
    by (rule bit_eqI) (auto simp: bit_simps)
  have z: "push_bit n w = 0" "drop_bit n w = 0" if "64 \<le> n" for n and w :: u64
    using that by (auto simp: bit_simps dest: bit_imp_le_length intro!: bit_eqI)
  consider "64 \<le> c" | "c < -63" | "0 \<le> c" "c < 64" | "-63 \<le> c" "c < 0" by linarith
  then show ?thesis
  proof cases
    case 1
    then show ?thesis by (simp add: integerShift_def z)
  next
    case 2
    then show ?thesis by (simp add: integerShift_def z)
  next
    case 3
    then show ?thesis by (auto simp: integerShift_def wrap64_word l r m)
  next
    case 4
    then have "wrap64 (- c) = - c" by (simp add: is_int64_def)
    with 4 show ?thesis by (auto simp: integerShift_def wrap64_word l r m)
  qed
qed

section \<open>Hashing and recursion guards\<close>

lemma FnvPrime64_inverse: "FnvPrime64 * 14886173955864302971 = (1 :: u64)"
  by simp

lemma MixHash_inj: "MixHash h v = MixHash h' v \<Longrightarrow> h = h'"
proof -
  assume "MixHash h v = MixHash h' v"
  then have "(h XOR v) * FnvPrime64 * 14886173955864302971 = (h' XOR v) * FnvPrime64 * 14886173955864302971"
    by (simp add: MixHash_def)
  then have "h XOR v = h' XOR v"
    by (simp only: mult.assoc FnvPrime64_inverse mult_1_right)
  then have "(h XOR v) XOR v = (h' XOR v) XOR v" by simp
  then show ?thesis by (simp add: xor.assoc)
qed

lemma FnvString_loop_snoc: "FnvString_loop h (s @ [c]) = (FnvString_loop h s XOR ucast c) * FnvPrime64"
  by (induction s arbitrary: h) simp_all

lemma FnvString_snoc: "FnvString (s @ [c]) = MixHash (FnvString s) (ucast c)"
  by (simp add: FnvString_def FnvString_loop_snoc MixHash_def)

text \<open>A chain of recursive calls, each guarded by \<open>Enter\<close>, that all proceed.\<close>

fun enter_all :: "RecursionGuard \<Rightarrow> u64 option list \<Rightarrow> RecursionGuard option" where
  "enter_all g [] = Some g"
| "enter_all g (h # hs) = (case Enter g h of (n, ok) \<Rightarrow> if ok then enter_all n hs else None)"

lemma Enter_True:
  assumes "Enter g h = (n, True)"
  shows "guard_depth g \<le> guard_maxDepth g"
    and "guard_depth n = Suc (guard_depth g)" and "guard_maxDepth n = guard_maxDepth g"
  using assms
  by (auto simp: Enter_def Let_def split: if_splits option.splits)

lemma enter_all_depth:
  "enter_all g hs = Some g' \<Longrightarrow> length hs \<le> Suc (guard_maxDepth g) - guard_depth g"
proof (induction hs arbitrary: g)
  case Nil
  then show ?case by simp
next
  case (Cons h hs)
  then obtain n where n: "Enter g h = (n, True)" and "enter_all n hs = Some g'"
    by (auto split: prod.splits if_splits)
  with Cons.IH have "length hs \<le> Suc (guard_maxDepth n) - guard_depth n" by blast
  with Enter_True [OF n] show ?case by simp
qed

lemma Enter_seen:
  assumes "Enter g (Some h) = (n, True)" "guard_seen g = Some seen"
  shows "h \<notin> set seen" "guard_seen n = Some (h # seen)"
  using assms by (auto simp: Enter_def Let_def split: if_splits)

lemma enter_all_distinct:
  "enter_all g (map Some hs) = Some g' \<Longrightarrow> guard_seen g = Some seen \<Longrightarrow>
   distinct hs \<and> set hs \<inter> set seen = {}"
proof (induction hs arbitrary: g seen)
  case Nil
  then show ?case by simp
next
  case (Cons h hs)
  then obtain n where n: "Enter g (Some h) = (n, True)" and "enter_all n (map Some hs) = Some g'"
    by (auto split: prod.splits if_splits)
  with Cons.IH Enter_seen [OF n Cons.prems(2)] show ?case by fastforce
qed

section \<open>Properties\<close>

text \<open>
  C20: the overflow-checked operations are exact: on 64-bit operands \<open>SafeAdd\<close>, \<open>SafeSub\<close>,
  \<open>SafeMul\<close> and \<open>SafeNeg\<close> return the mathematical result when it fits 64 bits and report
  failure exactly when it does not.
\<close>

theorem safe_arithmetic_exact:
  assumes "is_int64 a" and "is_int64 b"
  shows "SafeAdd a b = (if is_int64 (a + b) then Some (a + b) else None) \<and>
    SafeSub a b = (if is_int64 (a - b) then Some (a - b) else None) \<and>
    SafeMul a b = (if is_int64 (a * b) then Some (a * b) else None) \<and>
    SafeNeg a = (if is_int64 (- a) then Some (- a) else None)"
  using assms by (simp add: SafeAdd_exact SafeSub_exact SafeMul_exact SafeNeg_exact)

theorem safe_arithmetic_exact_witness:
  "SafeAdd MaxInt64 1 = None \<and> SafeSub MinInt64 1 = None \<and> SafeMul MinInt64 (-1) = None \<and>
   SafeMul 3037000500 3037000499 = Some 9223372033963249500 \<and> SafeNeg MinInt64 = None"
  using safe_arithmetic_exact [of MaxInt64 1] safe_arithmetic_exact [of MinInt64 1]
    safe_arithmetic_exact [of MinInt64 "-1"]
    safe_arithmetic_exact [of 3037000500 3037000499]
  by (simp add: is_int64_def)

text \<open>
  Lua's integer division rounds towards minus infinity and the modulo has the sign of the
  divisor: on 64-bit operands \<open>integerFloorDiv\<close> is the floor of the quotient (wrapped in the one
  case \<open>MinInt64 // -1\<close> that overflows), \<open>integerModulo\<close> is exactly the floor modulo, and
  together they satisfy the division identity modulo \<open>2^64\<close>.
\<close>

theorem integer_division_floor:
  assumes "is_int64 lhs" and "is_int64 rhs" and "rhs \<noteq> 0"
  shows "integerFloorDiv lhs rhs = wrap64 (lhs div rhs) \<and>
    integerModulo lhs rhs = lhs mod rhs \<and>
    wrap64 (integerFloorDiv lhs rhs * rhs + integerModulo lhs rhs) = lhs"
proof -
  obtain k where k: "wrap64 (lhs div rhs) = lhs div rhs + k * 18446744073709551616"
    by (rule wrap64_eqE)
  have "wrap64 (wrap64 (lhs div rhs) * rhs + lhs mod rhs) =
      wrap64 (lhs + k * rhs * 18446744073709551616)"
    by (simp add: k algebra_simps)
  also have "\<dots> = wrap64 lhs"
    by (rule wrap64_period)
  finally show ?thesis
    using assms by (simp add: integerFloorDiv_floor integerModulo_mod)
qed

theorem integer_division_floor_witness:
  "integerFloorDiv (-7) 2 = -4 \<and> integerModulo (-7) 2 = 1 \<and>
   integerFloorDiv MinInt64 (-1) = MinInt64 \<and> integerModulo MinInt64 (-1) = 0"
  using integer_division_floor [of "-7" 2] integer_division_floor [of MinInt64 "-1"]
  by (simp add: is_int64_def wrap64_def)

text \<open>
  For every shift count, in range, negative or larger than the word, \<open>integerShift\<close> is the
  logical shift of the 64-bit word: a negative count shifts the other way.
\<close>

theorem integerShift_logical:
  "word_of_int (integerShift v c left) =
     (if (0 \<le> c) = left then push_bit (nat \<bar>c\<bar>) (word_of_int v)
      else drop_bit (nat \<bar>c\<bar>) (word_of_int v :: u64))"
  by (rule integerShift_word)

text \<open>
  C21: a recursion guarded by \<open>Enter\<close> is bounded: from a fresh guard of depth limit \<open>m\<close> with
  cycle detection on, a chain of guarded calls that all proceed has at most \<open>m + 1\<close> calls and
  never enters the same hash twice.
\<close>

theorem recursion_guard_bounds:
  assumes "enter_all (WithSeen (NewRecursionGuard m)) (map Some hs) = Some g"
  shows "length hs \<le> m + 1 \<and> distinct hs"
  using enter_all_depth [OF assms] enter_all_distinct [OF assms]
  by (simp add: WithSeen_def NewRecursionGuard_def)

theorem recursion_guard_bounds_witness:
  "\<exists>g. enter_all (WithSeen (NewRecursionGuard 1)) (map Some [10, 20]) = Some g \<and>
       length [10, 20 :: u64] \<le> 1 + 1 \<and> distinct [10, 20 :: u64]"
proof -
  have "enter_all (WithSeen (NewRecursionGuard 1)) (map Some [10, 20]) =
      Some \<lparr>guard_depth = 2, guard_maxDepth = 1, guard_seen = Some [20, 10]\<rparr>"
    by (simp add: WithSeen_def NewRecursionGuard_def Enter_def Let_def)
  with recursion_guard_bounds [OF this] show ?thesis by blast
qed

end
