(* ===== verification/Values.thy ===== *)
theory Values
  imports Complex_Main Prelude
begin

text \<open>
  Lua values as the runtime represents them (\<open>value.go\<close>): the type tags, the value variants,
  truthiness, the identity of native functions, and the float conversions of
  \<open>numeric_arithmetic.go\<close> and \<open>utils.go\<close> that decide which representation a numeric key
  has.

  A Go \<open>float64\<close> is modelled by its value: not-a-number, an infinity, or a rational. The two
  zeros are one value here, as every operation modelled compares floats with \<open>==\<close>. Reference
  values (tables, user data, threads, channels, types, errors) are their Go type and address.
\<close>

section \<open>Values\<close>

datatype LValueType =
    LTNil | LTBool | LTNumber | LTInteger | LTString | LTFunction | LTUserData | LTThread
  | LTTable | LTChannel | LTType

datatype float64 = FNaN | FInf (finf_negative: bool) | FFin rat

text \<open>
  \<open>LFunction addr nativeKey code\<close> is a \<open>*LFunction\<close> at \<open>addr\<close> with its \<open>nativeKey\<close> flag
  and the code address of its \<open>GFunction\<close>; \<open>LGoFunc code\<close> is a stateless Go function. The last
  two variants are the internal map keys of \<open>table.go\<close>, never Lua values.
\<close>

datatype lvalue =
    LNil
  | LBool bool
  | LInteger int
  | LNumber float64
  | LString string
  | LFunction (fn_addr: nat) (fn_nativeKey: bool) (fn_code: nat)
  | LGoFunc nat
  | LRef LValueType nat
  | iterationPointerKey LValueType nat
  | nativeFunctionCursor nat

fun lv_type :: "lvalue \<Rightarrow> LValueType" where
  "lv_type LNil = LTNil"
| "lv_type (LBool _) = LTBool"
| "lv_type (LInteger _) = LTInteger"
| "lv_type (LNumber _) = LTNumber"
| "lv_type (LString _) = LTString"
| "lv_type (LFunction _ _ _) = LTFunction"
| "lv_type (LGoFunc _) = LTFunction"
| "lv_type (LRef t _) = t"
| "lv_type (iterationPointerKey _ _) = LTNil"
| "lv_type (nativeFunctionCursor _) = LTNil"

definition LVIsFalse :: "lvalue \<Rightarrow> bool" where
  "LVIsFalse v \<longleftrightarrow> v = LNil \<or> v = LBool False"

definition LVAsBool :: "lvalue \<Rightarrow> bool" where
  "LVAsBool v \<longleftrightarrow> v \<noteq> LNil \<and> v \<noteq> LBool False"

section \<open>Native function identity\<close>

fun nativeFunctionID :: "lvalue \<Rightarrow> nat option" where
  "nativeFunctionID (LGoFunc code) = Some code"
| "nativeFunctionID (LFunction _ nk code) = (if nk then Some code else None)"
| "nativeFunctionID _ = None"

definition functionsEqual :: "lvalue \<Rightarrow> lvalue \<Rightarrow> bool" where
  "functionsEqual lhs rhs =
     (case nativeFunctionID lhs of
        Some code \<Rightarrow> (case nativeFunctionID rhs of Some other \<Rightarrow> code = other | None \<Rightarrow> False)
      | None \<Rightarrow>
          (case (lhs, rhs) of (LFunction a _ _, LFunction b _ _) \<Rightarrow> a = b | _ \<Rightarrow> False))"

fun nativeKeyValue :: "lvalue \<Rightarrow> lvalue" where
  "nativeKeyValue (LFunction a nk code) = (if nk then LGoFunc code else LFunction a nk code)"
| "nativeKeyValue v = v"

section \<open>Integers and floats\<close>

text \<open>The number of binary digits of a natural number.\<close>

fun bit_length :: "nat \<Rightarrow> nat" where
  "bit_length n = (if n = 0 then 0 else Suc (bit_length (n div 2)))"

declare bit_length.simps [simp del]

text \<open>The conversion \<open>float64(i)\<close> keeps 53 significant bits, rounding half to even.\<close>

definition round53 :: "int \<Rightarrow> int" where
  "round53 i =
     (let m = nat \<bar>i\<bar>; b = bit_length m in
      if b \<le> 53 then i
      else let s = b - 53; q = m div 2 ^ s; r = m mod 2 ^ s; h = 2 ^ (s - 1);
               q' = (if r > h \<or> (r = h \<and> odd q) then q + 1 else q)
           in sgn i * int (q' * 2 ^ s))"

definition int_to_float :: "int \<Rightarrow> float64" where
  "int_to_float i = FFin (of_int (round53 i))"

text \<open>
  The conversion \<open>int64(v)\<close> truncates. Go leaves values outside the 64-bit range to the
  hardware; \<open>MinInt64\<close> is what the amd64 conversion gives for them.
\<close>

fun float_to_int :: "float64 \<Rightarrow> int" where
  "float_to_int (FFin q) =
     (let t = (if q < 0 then \<lceil>q\<rceil> else \<lfloor>q\<rfloor>) in if is_int64 t then t else MinInt64)"
| "float_to_int _ = MinInt64"

fun float_eq :: "float64 \<Rightarrow> float64 \<Rightarrow> bool" where
  "float_eq FNaN _ = False"
| "float_eq _ FNaN = False"
| "float_eq a b = (a = b)"

text \<open>The comparison \<open>v >= -0x1p63 && v < 0x1p63\<close>.\<close>

fun float_in_int64 :: "float64 \<Rightarrow> bool" where
  "float_in_int64 (FFin q) \<longleftrightarrow> - 9223372036854775808 \<le> q \<and> q < 9223372036854775808"
| "float_in_int64 _ \<longleftrightarrow> False"

definition floatToInteger :: "float64 \<Rightarrow> int option" where
  "floatToInteger v =
     (if float_in_int64 v then
        let i = float_to_int v in if float_eq (int_to_float i) v then Some i else None
      else None)"

definition IsIntegerValue :: "float64 \<Rightarrow> bool" where
  "IsIntegerValue v = (let iv = float_to_int v in float_eq (int_to_float iv) v)"

abbreviation (input) MaxArrayIndex :: int where "MaxArrayIndex \<equiv> 67108864"

definition isArrayKey :: "float64 \<Rightarrow> bool" where
  "isArrayKey v =
     (let iv = float_to_int v in iv > 0 \<and> iv < MaxArrayIndex \<and> float_eq (int_to_float iv) v)"

section \<open>Lemmas\<close>

lemma LVIsFalse_LVAsBool: "LVIsFalse v \<longleftrightarrow> \<not> LVAsBool v"
  by (auto simp: LVIsFalse_def LVAsBool_def)

lemma bit_length_le: "n < 2 ^ k \<Longrightarrow> bit_length n \<le> k"
proof (induction k arbitrary: n)
  case 0
  then show ?case by (simp add: bit_length.simps)
next
  case (Suc k)
  then have "n div 2 < 2 ^ k" by auto
  with Suc.IH show ?case by (subst bit_length.simps) simp
qed

lemma round53_small: "\<bar>i\<bar> < 2 ^ 53 \<Longrightarrow> round53 i = i"
proof -
  assume "\<bar>i\<bar> < 2 ^ 53"
  then have "nat \<bar>i\<bar> < 2 ^ 53" by (simp add: nat_less_iff)
  then have "bit_length (nat \<bar>i\<bar>) \<le> 53" by (rule bit_length_le)
  then show ?thesis by (simp add: round53_def Let_def)
qed

lemma int_to_float_small: "\<bar>i\<bar> < 9007199254740992 \<Longrightarrow> int_to_float i = FFin (of_int i)"
  by (simp add: int_to_float_def round53_small)

lemma float_eq_FFin [simp]: "float_eq (FFin q) v \<longleftrightarrow> v = FFin q"
  by (cases v) auto

lemma isArrayKey_iff: "isArrayKey v \<longleftrightarrow> (\<exists>k. 0 < k \<and> k < MaxArrayIndex \<and> v = FFin (of_int k))"
proof
  assume "isArrayKey v"
  then have "0 < float_to_int v" "float_to_int v < MaxArrayIndex"
    and e: "float_eq (int_to_float (float_to_int v)) v"
    by (simp_all add: isArrayKey_def Let_def)
  then have "v = FFin (of_int (float_to_int v))"
    using e by (simp add: int_to_float_small)
  with \<open>0 < float_to_int v\<close> \<open>float_to_int v < MaxArrayIndex\<close>
  show "\<exists>k. 0 < k \<and> k < MaxArrayIndex \<and> v = FFin (of_int k)" by blast
next
  assume "\<exists>k. 0 < k \<and> k < MaxArrayIndex \<and> v = FFin (of_int k)"
  then obtain k where "0 < k" "k < MaxArrayIndex" and v: "v = FFin (of_int k)" by blast
  then have "float_to_int v = k" by (simp add: is_int64_def)
  with \<open>0 < k\<close> \<open>k < MaxArrayIndex\<close> v show "isArrayKey v"
    by (simp add: isArrayKey_def int_to_float_small)
qed

lemma floatToInteger_Some: "floatToInteger v = Some i \<Longrightarrow> v = int_to_float i \<and> is_int64 i"
proof -
  assume a: "floatToInteger v = Some i"
  then have "float_in_int64 v" and i: "i = float_to_int v" and "float_eq (int_to_float i) v"
    by (auto simp: floatToInteger_def Let_def split: if_splits)
  moreover have "is_int64 (float_to_int v)"
    by (cases v) (auto simp: Let_def is_int64_def)
  ultimately show ?thesis by (simp add: int_to_float_def)
qed

end
