(* ===== verification/Registry.thy ===== *)
theory Registry
  imports Values
begin

text \<open>
  The register file of a Lua thread, \<open>registry.go\<close>: a growable array of slots with a top.
  A slot that holds Go's \<open>nil\<close> is \<open>None\<close>; it reads as \<open>LNil\<close>. The overflow handler of the
  interpreter raises a Lua error, so an overflow ends the operation (\<open>RegistryOverflow\<close>); an
  index outside the array is a Go run-time panic (\<open>IndexOutOfRange\<close>), and so is an array too large
  to be made (\<open>SliceTooLarge\<close>). Sizes are 64-bit integers that wrap around.

  The abstract view of a register file is the list of the values below its top; under the
  invariant every slot above the top reads as \<open>LNil\<close>. The lemmas give the effect of each
  operation on that list.
\<close>

section \<open>Model\<close>

datatype reg_error = RegistryOverflow | IndexOutOfRange | SliceTooLarge

record registry =
  reg_array :: "lvalue option list"
  reg_top :: int
  reg_growBy :: int
  reg_maxSize :: int

definition newRegistry :: "nat \<Rightarrow> int \<Rightarrow> int \<Rightarrow> registry" where
  "newRegistry initialSize growBy maxSize =
     \<lparr>reg_array = replicate initialSize None, reg_top = 0, reg_growBy = growBy, reg_maxSize = maxSize\<rparr>"

text \<open>Array reads and writes with Go's bounds check.\<close>

definition reg_read :: "lvalue option list \<Rightarrow> int \<Rightarrow> reg_error + lvalue option" where
  "reg_read a i = (if 0 \<le> i \<and> i < int (length a) then Inr (a ! nat i) else Inl IndexOutOfRange)"

definition reg_write ::
  "lvalue option list \<Rightarrow> int \<Rightarrow> lvalue option \<Rightarrow> reg_error + lvalue option list" where
  "reg_write a i v = (if 0 \<le> i \<and> i < int (length a) then Inr (a[nat i := v]) else Inl IndexOutOfRange)"

definition slot_value :: "lvalue option \<Rightarrow> lvalue" where
  "slot_value s = (case s of None \<Rightarrow> LNil | Some v \<Rightarrow> v)"

definition forceResize :: "registry \<Rightarrow> int \<Rightarrow> registry" where
  "forceResize rg newSize =
     (let old = take (nat newSize) (take (nat (reg_top rg)) (reg_array rg))
      in rg\<lparr>reg_array := old @ replicate (nat newSize - length old) None\<rparr>)"

text \<open>A slot takes sixteen bytes.\<close>

abbreviation maxRegs :: int where "maxRegs \<equiv> maxAlloc div 16"

definition resize :: "registry \<Rightarrow> int \<Rightarrow> reg_error + registry" where
  "resize rg requiredSize =
     (let newSize = wrap64 (requiredSize + reg_growBy rg);
          newSize = (if newSize > reg_maxSize rg then reg_maxSize rg else newSize)
      in if newSize < requiredSize then Inl RegistryOverflow
         else if newSize > maxRegs then Inl SliceTooLarge
         else Inr (forceResize rg newSize))"

definition checkSize :: "registry \<Rightarrow> int \<Rightarrow> reg_error + registry" where
  "checkSize rg requiredSize =
     (if requiredSize > int (length (reg_array rg)) then resize rg requiredSize else Inr rg)"

definition bindR :: "'e + 'a \<Rightarrow> ('a \<Rightarrow> 'e + 'b) \<Rightarrow> 'e + 'b" where
  "bindR x f = (case x of Inl e \<Rightarrow> Inl e | Inr a \<Rightarrow> f a)"

text \<open>\<open>for i := from; i < from + n; i++ { array[i] = v }\<close>\<close>

fun fill_loop ::
  "lvalue option list \<Rightarrow> int \<Rightarrow> nat \<Rightarrow> lvalue option \<Rightarrow> reg_error + lvalue option list" where
  "fill_loop a i 0 v = Inr a"
| "fill_loop a i (Suc n) v = bindR (reg_write a i v) (\<lambda>a. fill_loop a (i + 1) n v)"

text \<open>Clearing of \<open>array[newtop:oldtop]\<close> when the top moves down.\<close>

definition clear_above ::
  "lvalue option list \<Rightarrow> int \<Rightarrow> int \<Rightarrow> reg_error + lvalue option list" where
  "clear_above a newtop oldtop =
     (if newtop < oldtop then
        if 0 \<le> newtop \<and> oldtop \<le> int (length a) then fill_loop a newtop (nat (oldtop - newtop)) None
        else Inl IndexOutOfRange
      else Inr a)"

definition SetTop :: "registry \<Rightarrow> int \<Rightarrow> reg_error + registry" where
  "SetTop rg topi =
     bindR (checkSize rg topi) (\<lambda>rg.
     let oldtopi = reg_top rg; rg = rg\<lparr>reg_top := topi\<rparr> in
     bindR (fill_loop (reg_array rg) oldtopi (nat (reg_top rg - oldtopi)) (Some LNil)) (\<lambda>a.
     bindR (clear_above a (reg_top rg) oldtopi) (\<lambda>a.
     Inr (rg\<lparr>reg_array := a\<rparr>))))"

definition Top :: "registry \<Rightarrow> int" where "Top rg = reg_top rg"

definition Push :: "registry \<Rightarrow> lvalue \<Rightarrow> reg_error + registry" where
  "Push rg v =
     (let newSize = wrap64 (reg_top rg + 1) in
      bindR (checkSize rg newSize) (\<lambda>rg.
      bindR (reg_write (reg_array rg) (reg_top rg) (Some v)) (\<lambda>a.
      Inr (rg\<lparr>reg_array := a, reg_top := reg_top rg + 1\<rparr>))))"

definition Pop :: "registry \<Rightarrow> reg_error + (lvalue \<times> registry)" where
  "Pop rg =
     bindR (reg_read (reg_array rg) (reg_top rg - 1)) (\<lambda>v.
     bindR (reg_write (reg_array rg) (reg_top rg - 1) (Some LNil)) (\<lambda>a.
     Inr (slot_value v, rg\<lparr>reg_array := a, reg_top := reg_top rg - 1\<rparr>)))"

definition Get :: "registry \<Rightarrow> int \<Rightarrow> reg_error + lvalue" where
  "Get rg reg = bindR (reg_read (reg_array rg) reg) (\<lambda>v. Inr (slot_value v))"

fun copy_loop ::
  "lvalue option list \<Rightarrow> int \<Rightarrow> int \<Rightarrow> int \<Rightarrow> int \<Rightarrow> nat \<Rightarrow> reg_error + lvalue option list" where
  "copy_loop a regv start limit i 0 = Inr a"
| "copy_loop a regv start limit i (Suc n) =
     (let srcIdx = start + i in
      bindR (if srcIdx \<ge> limit \<or> srcIdx < 0 then reg_write a (regv + i) (Some LNil)
             else bindR (reg_read a srcIdx) (\<lambda>v. reg_write a (regv + i) (Some (slot_value v))))
        (\<lambda>a. copy_loop a regv start limit (i + 1) n))"

definition CopyRange :: "registry \<Rightarrow> int \<Rightarrow> int \<Rightarrow> int \<Rightarrow> int \<Rightarrow> reg_error + registry" where
  "CopyRange rg regv start limit n =
     (let newSize = wrap64 (regv + n) in
      bindR (checkSize rg newSize) (\<lambda>rg.
      let limit = (if limit = -1 \<or> limit > reg_top rg then reg_top rg else limit) in
      bindR (copy_loop (reg_array rg) regv start limit 0 (nat n)) (\<lambda>a.
      let oldtop = reg_top rg; rg = rg\<lparr>reg_top := newSize\<rparr> in
      bindR (clear_above a (reg_top rg) oldtop) (\<lambda>a.
      Inr (rg\<lparr>reg_array := a\<rparr>)))))"

definition FillNil :: "registry \<Rightarrow> int \<Rightarrow> int \<Rightarrow> reg_error + registry" where
  "FillNil rg regm n =
     (let newSize = wrap64 (regm + n) in
      bindR (checkSize rg newSize) (\<lambda>rg.
      bindR (fill_loop (reg_array rg) regm (nat n) (Some LNil)) (\<lambda>a.
      let oldtop = reg_top rg; rg = rg\<lparr>reg_top := newSize\<rparr> in
      bindR (clear_above a (reg_top rg) oldtop) (\<lambda>a.
      Inr (rg\<lparr>reg_array := a\<rparr>)))))"

definition SetReg :: "registry \<Rightarrow> int \<Rightarrow> lvalue \<Rightarrow> reg_error + registry" where
  "SetReg rg regi vali =
     (let newSize = wrap64 (regi + 1) in
      bindR (checkSize rg newSize) (\<lambda>rg.
      bindR (reg_write (reg_array rg) regi (Some vali)) (\<lambda>a.
      let rg = rg\<lparr>reg_array := a\<rparr> in
      Inr (if regi \<ge> reg_top rg then rg\<lparr>reg_top := regi + 1\<rparr> else rg))))"

text \<open>\<open>lnumberToValue\<close> returns a shared boxed value equal to its argument.\<close>

definition SetNumber :: "registry \<Rightarrow> int \<Rightarrow> float64 \<Rightarrow> reg_error + registry" where
  "SetNumber rg regi vali =
     (let newSize = wrap64 (regi + 1) in
      bindR (checkSize rg newSize) (\<lambda>rg.
      bindR (reg_write (reg_array rg) regi (Some (LNumber vali))) (\<lambda>a.
      let rg = rg\<lparr>reg_array := a\<rparr> in
      Inr (if regi \<ge> reg_top rg then rg\<lparr>reg_top := regi + 1\<rparr> else rg))))"

text \<open>\<open>for ; top >= reg; top-- { Set(top+1, Get(top)) }\<close>, with \<open>n\<close> iterations left.\<close>

fun shift_loop :: "registry \<Rightarrow> int \<Rightarrow> nat \<Rightarrow> reg_error + registry" where
  "shift_loop rg t 0 = Inr rg"
| "shift_loop rg t (Suc n) =
     bindR (Get rg t) (\<lambda>v. bindR (SetReg rg (t + 1) v) (\<lambda>rg. shift_loop rg (t - 1) n))"

definition Insert :: "registry \<Rightarrow> lvalue \<Rightarrow> int \<Rightarrow> reg_error + registry" where
  "Insert rg value reg =
     (let top = Top rg in
      if reg \<ge> top then SetReg rg reg value
      else let top = top - 1 in
        bindR (shift_loop rg top (nat (top - reg + 1))) (\<lambda>rg. SetReg rg reg value))"

definition IsFull :: "registry \<Rightarrow> bool" where
  "IsFull rg \<longleftrightarrow> reg_top rg \<ge> int (length (reg_array rg))"

section \<open>Abstract view and invariant\<close>

definition regs :: "registry \<Rightarrow> lvalue list" where
  "regs rg = map slot_value (take (nat (reg_top rg)) (reg_array rg))"

definition nil_slot :: "lvalue option \<Rightarrow> bool" where
  "nil_slot s \<longleftrightarrow> slot_value s = LNil"

text \<open>The limits a register file is made with: the array can be made and its size does not wrap.\<close>

definition limits_ok :: "int \<Rightarrow> int \<Rightarrow> bool" where
  "limits_ok growBy maxSize \<longleftrightarrow> 0 \<le> growBy \<and> growBy \<le> MaxInt64 - maxRegs \<and> maxSize \<le> maxRegs"

definition reg_ok :: "registry \<Rightarrow> bool" where
  "reg_ok rg \<longleftrightarrow>
     0 \<le> reg_top rg \<and> reg_top rg \<le> int (length (reg_array rg)) \<and> int (length (reg_array rg)) \<le> maxRegs \<and>
     limits_ok (reg_growBy rg) (reg_maxSize rg) \<and>
     list_all nil_slot (drop (nat (reg_top rg)) (reg_array rg))"

text \<open>The list padded with \<open>LNil\<close> to a length.\<close>

definition pad_to :: "nat \<Rightarrow> lvalue list \<Rightarrow> lvalue list" where
  "pad_to n xs = xs @ replicate (n - length xs) LNil"

section \<open>Growth\<close>

lemma bindR_simps [simp]: "bindR (Inl e) f = Inl e" "bindR (Inr a) f = f a"
  by (simp_all add: bindR_def)

lemma slot_value_simps [simp]: "slot_value None = LNil" "slot_value (Some v) = v"
  by (simp_all add: slot_value_def)

lemma reg_top_le: "reg_ok rg \<Longrightarrow> nat (reg_top rg) \<le> length (reg_array rg)"
  unfolding reg_ok_def by linarith

lemma regs_length: "reg_ok rg \<Longrightarrow> length (regs rg) = nat (reg_top rg)"
  using reg_top_le [of rg] by (simp add: regs_def)

text \<open>
  The whole array under the invariant, read as values, is the register list followed by
  \<open>LNil\<close>.
\<close>

lemma slots_eq:
  "reg_ok rg \<Longrightarrow> map slot_value (reg_array rg) = pad_to (length (reg_array rg)) (regs rg)"
proof (rule nth_equalityI)
  assume ok: "reg_ok rg"
  then show "length (map slot_value (reg_array rg)) = length (pad_to (length (reg_array rg)) (regs rg))"
    using reg_top_le [OF ok] by (simp add: pad_to_def regs_length)
  fix i assume i: "i < length (map slot_value (reg_array rg))"
  show "map slot_value (reg_array rg) ! i = pad_to (length (reg_array rg)) (regs rg) ! i"
  proof (cases "i < nat (reg_top rg)")
    case True
    with ok i show ?thesis by (simp add: pad_to_def nth_append regs_length) (simp add: regs_def)
  next
    case False
    with i have "drop (nat (reg_top rg)) (reg_array rg) ! (i - nat (reg_top rg)) = reg_array rg ! i"
      and "i - nat (reg_top rg) < length (drop (nat (reg_top rg)) (reg_array rg))"
      by auto
    with ok have "nil_slot (reg_array rg ! i)"
      unfolding reg_ok_def by (metis list_all_length)
    with False i ok show ?thesis
      by (simp add: pad_to_def nth_append regs_length nil_slot_def)
  qed
qed

text \<open>A register file is determined, as far as reads go, by its array read as values.\<close>

lemma reg_okI:
  assumes "0 \<le> t" "t \<le> int (length a)" "int (length a) \<le> maxRegs \<and> limits_ok (reg_growBy rg) (reg_maxSize rg)"
    and "map slot_value a = pad_to (length a) xs" "length xs = nat t"
  shows "reg_ok (rg\<lparr>reg_array := a, reg_top := t\<rparr>)" and "regs (rg\<lparr>reg_array := a, reg_top := t\<rparr>) = xs"
proof -
  have "map slot_value (take (nat t) a) = take (nat t) (map slot_value a)" by (simp add: take_map)
  also have "\<dots> = xs" using assms(2,4,5) by (simp add: pad_to_def)
  finally show "regs (rg\<lparr>reg_array := a, reg_top := t\<rparr>) = xs" by (simp add: regs_def)
  have "map slot_value (drop (nat t) a) = drop (nat t) (map slot_value a)" by (simp add: drop_map)
  also have "\<dots> = replicate (length a - nat t) LNil" using assms(4,5) by (simp add: pad_to_def)
  finally have "\<forall>s \<in> set (map slot_value (drop (nat t) a)). s = LNil" by simp
  then have "list_all nil_slot (drop (nat t) a)" by (auto simp: list_all_iff nil_slot_def)
  with assms(1-3) show "reg_ok (rg\<lparr>reg_array := a, reg_top := t\<rparr>)" by (simp add: reg_ok_def)
qed

lemma checkSize_ok:
  assumes ok: "reg_ok rg" and m: "n \<le> reg_maxSize rg \<or> n \<le> int (length (reg_array rg))"
  obtains a where "checkSize rg n = Inr (rg\<lparr>reg_array := a\<rparr>)"
    and "n \<le> int (length a)" and "length (reg_array rg) \<le> length a" and "int (length a) \<le> maxRegs"
    and "map slot_value a = pad_to (length a) (regs rg)"
proof (cases "n > int (length (reg_array rg))")
  case False
  with slots_eq [OF ok] that [of "reg_array rg"] ok show ?thesis by (simp add: checkSize_def reg_ok_def)
next
  case True
  let ?s = "if n + reg_growBy rg > reg_maxSize rg then reg_maxSize rg else n + reg_growBy rg"
  let ?a = "reg_array (forceResize rg ?s)"
  have s: "n \<le> ?s" "reg_top rg \<le> ?s" "int (length (reg_array rg)) \<le> ?s" "?s \<le> maxRegs"
    using True ok m by (auto simp: reg_ok_def limits_ok_def)
  have w: "wrap64 (n + reg_growBy rg) = n + reg_growBy rg"
    using True ok m by (intro wrap64_id) (auto simp: reg_ok_def limits_ok_def is_int64_def)
  have l: "length ?a = nat ?s"
    using s ok by (simp add: forceResize_def Let_def reg_ok_def)
  have "checkSize rg n = Inr (rg\<lparr>reg_array := ?a\<rparr>)"
    using True s(1,4) by (auto simp: checkSize_def resize_def Let_def forceResize_def w)
  moreover have "map slot_value ?a = pad_to (length ?a) (regs rg)"
  proof -
    have "min (nat ?s) (nat (reg_top rg)) = nat (reg_top rg)" using s(2) by simp
    moreover have "length (take (nat (reg_top rg)) (reg_array rg)) = nat (reg_top rg)"
      using reg_top_le [OF ok] by simp
    ultimately have "?a = take (nat (reg_top rg)) (reg_array rg) @
        replicate (nat ?s - nat (reg_top rg)) None"
      by (simp add: forceResize_def Let_def)
    then show ?thesis using l by (simp add: pad_to_def regs_length [OF ok]) (simp add: regs_def)
  qed
  moreover have "n \<le> int (length ?a)" "length (reg_array rg) \<le> length ?a" "int (length ?a) \<le> maxRegs"
    using l s by auto
  ultimately show ?thesis using that by blast
qed

lemma checkSize_overflow:
  assumes "n > reg_maxSize rg" and "n > int (length (reg_array rg))"
  shows "checkSize rg n = Inl RegistryOverflow"
  using assms by (simp add: checkSize_def resize_def Let_def)

section \<open>Effect of the operations\<close>

text \<open>
  An operation that needs \<open>n\<close> slots succeeds when the array already has them or the size limit
  allows them. A result carries the new register list, the invariant and the unchanged limits.
\<close>

definition fits :: "registry \<Rightarrow> int \<Rightarrow> bool" where
  "fits rg n \<longleftrightarrow> n \<le> reg_maxSize rg \<or> n \<le> int (length (reg_array rg))"

definition reg_res :: "registry \<Rightarrow> registry \<Rightarrow> lvalue list \<Rightarrow> bool" where
  "reg_res rg rg' xs \<longleftrightarrow>
     reg_ok rg' \<and> regs rg' = xs \<and> reg_maxSize rg' = reg_maxSize rg \<and>
     length (reg_array rg) \<le> length (reg_array rg')"

lemma reg_resI:
  assumes "reg_ok rg" "0 \<le> t" "t \<le> int (length a)" "map slot_value a = pad_to (length a) xs"
    and "length xs = nat t" "length (reg_array rg) \<le> length a" "int (length a) \<le> maxRegs"
  shows "reg_res rg (rg\<lparr>reg_array := a, reg_top := t\<rparr>) xs"
proof -
  have "int (length a) \<le> maxRegs \<and> limits_ok (reg_growBy rg) (reg_maxSize rg)" using assms(1,7) by (simp add: reg_ok_def)
  from reg_okI [OF assms(2,3) this assms(4,5)] assms(6) show ?thesis by (simp add: reg_res_def)
qed

lemma length_pad_to [simp]: "length (pad_to n xs) = max n (length xs)"
  by (auto simp: pad_to_def)

lemma nth_pad_to: "i < max n (length xs) \<Longrightarrow> pad_to n xs ! i = (if i < length xs then xs ! i else LNil)"
  by (auto simp: pad_to_def nth_append)

lemma pad_to_update:
  "i < m \<Longrightarrow> length xs \<le> m \<Longrightarrow> (pad_to m xs)[i := v] = pad_to m ((pad_to (Suc i) xs)[i := v])"
  by (rule nth_equalityI) (auto simp: nth_pad_to nth_list_update)

lemma reg_write_ok:
  "0 \<le> i \<Longrightarrow> i < int (length a) \<Longrightarrow> reg_write a i v = Inr (a[nat i := v])"
  by (simp add: reg_write_def)

text \<open>A size that fits does not wrap.\<close>

lemma fits_wrap: "reg_ok rg \<Longrightarrow> fits rg n \<Longrightarrow> 0 \<le> n \<Longrightarrow> wrap64 n = n"
  by (rule wrap64_id) (auto simp: reg_ok_def limits_ok_def fits_def is_int64_def)

lemma SetReg_res:
  assumes ok: "reg_ok rg" and i: "0 \<le> i" and f: "fits rg (i + 1)"
  shows "\<exists>rg'. SetReg rg i v = Inr rg' \<and> reg_res rg rg' ((pad_to (nat i + 1) (regs rg))[nat i := v])"
proof -
  obtain a where c: "checkSize rg (i + 1) = Inr (rg\<lparr>reg_array := a\<rparr>)" and l: "i + 1 \<le> int (length a)"
    and g: "length (reg_array rg) \<le> length a" and mx: "int (length a) \<le> maxRegs" and v: "map slot_value a = pad_to (length a) (regs rg)"
    using checkSize_ok [OF ok] f unfolding fits_def by blast
  let ?t = "max (reg_top rg) (i + 1)"
  let ?xs = "(pad_to (Suc (nat i)) (regs rg))[nat i := v]"
  have tl: "nat (reg_top rg) \<le> length a" using reg_top_le [OF ok] g by simp
  have top0: "0 \<le> reg_top rg" using ok by (simp add: reg_ok_def)
  have "map slot_value (a[nat i := Some v]) = pad_to (length a) ?xs"
    using l i v tl by (simp add: map_update pad_to_update regs_length [OF ok])
  then have "reg_res rg (rg\<lparr>reg_array := a[nat i := Some v], reg_top := ?t\<rparr>) ?xs"
    using ok i l g tl top0 mx
    by (intro reg_resI) (auto simp: regs_length)
  moreover have "SetReg rg i v = Inr (rg\<lparr>reg_array := a[nat i := Some v], reg_top := ?t\<rparr>)"
    using c l i fits_wrap [OF ok f] by (auto simp: SetReg_def Let_def reg_write_ok max_def)
  ultimately show ?thesis by auto
qed

lemma checkSize_top: "checkSize rg n = Inr rg' \<Longrightarrow> reg_top rg' = reg_top rg"
  by (auto simp: checkSize_def resize_def forceResize_def Let_def split: if_splits)

lemma Push_SetReg: "Push rg v = SetReg rg (reg_top rg) v"
proof (cases "checkSize rg (wrap64 (reg_top rg + 1))")
  case (Inr rg')
  then show ?thesis using checkSize_top [OF Inr] by (auto simp: Push_def SetReg_def Let_def bindR_def split: sum.split)
qed (simp add: Push_def SetReg_def Let_def)

lemma Push_res:
  assumes "reg_ok rg" "fits rg (reg_top rg + 1)"
  shows "\<exists>rg'. Push rg v = Inr rg' \<and> reg_res rg rg' (regs rg @ [v])"
proof -
  have "0 \<le> reg_top rg" using assms(1) by (simp add: reg_ok_def)
  moreover have "(pad_to (nat (reg_top rg) + 1) (regs rg))[nat (reg_top rg) := v] = regs rg @ [v]"
    using regs_length [OF assms(1)] by (simp add: pad_to_def list_update_append)
  ultimately show ?thesis
    using SetReg_res [OF assms(1) _ assms(2), of v] by (simp add: Push_SetReg)
qed

lemma Push_overflow:
  assumes "reg_ok rg" "reg_top rg + 1 > reg_maxSize rg" "reg_top rg + 1 > int (length (reg_array rg))"
  shows "Push rg v = Inl RegistryOverflow"
proof -
  have "wrap64 (reg_top rg + 1) = reg_top rg + 1" using assms(1) by (intro wrap64_id) (auto simp: reg_ok_def is_int64_def)
  with assms show ?thesis by (simp add: Push_def Let_def checkSize_overflow)
qed

lemma Get_regs:
  assumes "reg_ok rg" "0 \<le> i" "i < int (length (reg_array rg))"
  shows "Get rg i = Inr (if i < reg_top rg then regs rg ! nat i else LNil)"
proof -
  have "slot_value (reg_array rg ! nat i) = map slot_value (reg_array rg) ! nat i"
    using assms by simp
  also have "\<dots> = (if nat i < length (regs rg) then regs rg ! nat i else LNil)"
    using assms by (simp add: slots_eq nth_pad_to del: nth_map)
  finally show ?thesis
    using assms by (auto simp: Get_def reg_read_def regs_length)
qed

lemma Pop_res:
  assumes ok: "reg_ok rg" and t: "0 < reg_top rg"
  shows "\<exists>rg'. Pop rg = Inr (last (regs rg), rg') \<and> reg_res rg rg' (butlast (regs rg))"
proof -
  let ?i = "nat (reg_top rg - 1)"
  let ?a = "(reg_array rg)[?i := Some LNil]"
  have l: "?i < length (reg_array rg)" "Suc ?i = length (regs rg)"
    using ok t reg_top_le [OF ok] by (auto simp: regs_length)
  then have ne: "regs rg \<noteq> []" by auto
  have v: "map slot_value (reg_array rg) = pad_to (length (reg_array rg)) (regs rg)"
    by (rule slots_eq [OF ok])
  have "slot_value (reg_array rg ! ?i) = map slot_value (reg_array rg) ! ?i" using l by simp
  also have "\<dots> = last (regs rg)"
    using l ne by (simp add: v nth_pad_to last_conv_nth del: nth_map flip: l(2))
  finally have lst: "slot_value (reg_array rg ! ?i) = last (regs rg)" .
  have "map slot_value ?a = (pad_to (length (reg_array rg)) (regs rg))[?i := LNil]"
    by (simp add: map_update v)
  also have "\<dots> = pad_to (length ?a) (butlast (regs rg))"
    using l reg_top_le [OF ok]
    by (intro nth_equalityI) (auto simp: nth_pad_to nth_list_update nth_butlast regs_length [OF ok])
  finally have "map slot_value ?a = pad_to (length ?a) (butlast (regs rg))" .
  then have "reg_res rg (rg\<lparr>reg_array := ?a, reg_top := reg_top rg - 1\<rparr>) (butlast (regs rg))"
    using ok t l reg_top_le [OF ok] by (intro reg_resI) (auto simp: regs_length reg_ok_def)
  moreover have "Pop rg = Inr (last (regs rg), rg\<lparr>reg_array := ?a, reg_top := reg_top rg - 1\<rparr>)"
    using t l lst by (simp add: Pop_def reg_read_def reg_write_def)
  ultimately show ?thesis by blast
qed

lemma fill_loop_eq:
  "0 \<le> i \<Longrightarrow> i + int n \<le> int (length a) \<Longrightarrow>
   fill_loop a i n v = Inr (take (nat i) a @ replicate n v @ drop (nat i + n) a)"
proof (induction n arbitrary: a i)
  case 0
  then show ?case by simp
next
  case (Suc n)
  then have "fill_loop a i (Suc n) v = fill_loop (a[nat i := v]) (i + 1) n v"
    by (simp add: reg_write_ok)
  also have "\<dots> = Inr (take (nat (i + 1)) (a[nat i := v]) @ replicate n v @ drop (nat (i + 1) + n) (a[nat i := v]))"
    using Suc.prems by (intro Suc.IH) auto
  also have "take (nat (i + 1)) (a[nat i := v]) = take (nat i) a @ [v]"
    using Suc.prems by (simp add: nat_add_distrib take_Suc_conv_app_nth)
  finally show ?case using Suc.prems by (simp add: nat_add_distrib)
qed

lemma reg_upd_commute: "rg\<lparr>reg_top := t, reg_array := a\<rparr> = rg\<lparr>reg_array := a, reg_top := t\<rparr>"
  by simp

text \<open>Moving the top down clears the slots above it.\<close>

lemma clear_above_res:
  assumes ok: "reg_ok rg" and t: "0 \<le> t" "t \<le> int (length a)"
    and o: "reg_top rg \<le> int (length a)" and g: "length (reg_array rg) \<le> length a" and mx: "int (length a) \<le> maxRegs"
    and low: "map slot_value (take (nat t) a) = xs"
    and high: "\<forall>k. max (nat t) (nat (reg_top rg)) \<le> k \<longrightarrow> k < length a \<longrightarrow> slot_value (a ! k) = LNil"
  shows "\<exists>a'. clear_above a t (reg_top rg) = Inr a' \<and>
    reg_res rg (rg\<lparr>reg_top := t, reg_array := a'\<rparr>) xs"
proof -
  define a' where "a' = (if t < reg_top rg
    then take (nat t) a @ replicate (nat (reg_top rg) - nat t) None @ drop (nat (reg_top rg)) a else a)"
  have e: "nat t + nat (reg_top rg - t) = nat (reg_top rg)" if "t < reg_top rg"
    using that t by linarith
  then have c: "clear_above a t (reg_top rg) = Inr a'"
    using t o by (auto simp: clear_above_def a'_def fill_loop_eq nat_diff_distrib)
  have l: "length a' = length a" using t o by (auto simp: a'_def)
  have xl: "length xs = nat t" using low t by auto
  have "map slot_value a' = pad_to (length a') xs"
  proof (rule nth_equalityI)
    show "length (map slot_value a') = length (pad_to (length a') xs)" using l xl t by auto
    fix k assume "k < length (map slot_value a')"
    then have k: "k < length a" using l by simp
    have "slot_value (a ! k) = xs ! k" if "k < nat t"
      using that k low by auto
    moreover have "slot_value (a' ! k) = LNil" if "nat t \<le> k"
      using that k high t o by (auto simp: a'_def nth_append)
    moreover have "a' ! k = a ! k" if "k < nat t"
      using that k t by (auto simp: a'_def nth_append)
    ultimately show "map slot_value a' ! k = pad_to (length a') xs ! k"
      using k l xl by (auto simp: nth_pad_to not_less)
  qed
  then have "reg_res rg (rg\<lparr>reg_array := a', reg_top := t\<rparr>) xs"
    using ok t l xl g mx by (intro reg_resI) auto
  with c show ?thesis unfolding reg_upd_commute by blast
qed

lemma fill_nil_same:
  assumes nil: "\<forall>k. T \<le> k \<longrightarrow> k < length a \<longrightarrow> slot_value (a ! k) = LNil" and le: "T + N \<le> length a"
  shows "map slot_value (take T a @ replicate N (Some LNil) @ drop (T + N) a) = map slot_value a"
proof (rule nth_equalityI)
  fix k assume "k < length (map slot_value (take T a @ replicate N (Some LNil) @ drop (T + N) a))"
  then have k: "k < length a" using le by simp
  consider "k < T" | "T \<le> k" "k < T + N" | "T + N \<le> k" by linarith
  then show "map slot_value (take T a @ replicate N (Some LNil) @ drop (T + N) a) ! k =
      map slot_value a ! k"
  proof cases
    case 2
    then have "slot_value (a ! k) = LNil" "k - T < N" using nil k by auto
    with 2 k le show ?thesis by (simp add: nth_append)
  next
    case 3
    then have "\<not> k - T < N" by linarith
    with 3 k show ?thesis by (simp add: nth_append)
  qed (use k le in \<open>simp add: nth_append\<close>)
qed (use le in simp)

lemma SetTop_res:
  assumes ok: "reg_ok rg" and t: "0 \<le> t" and f: "fits rg t"
  shows "\<exists>rg'. SetTop rg t = Inr rg' \<and> reg_res rg rg' (take (nat t) (pad_to (nat t) (regs rg)))"
proof -
  obtain a where c: "checkSize rg t = Inr (rg\<lparr>reg_array := a\<rparr>)" and l: "t \<le> int (length a)"
    and g: "length (reg_array rg) \<le> length a" and mx: "int (length a) \<le> maxRegs" and v: "map slot_value a = pad_to (length a) (regs rg)"
    using checkSize_ok [OF ok] f unfolding fits_def by blast
  have top: "0 \<le> reg_top rg" "reg_top rg \<le> int (length a)"
    using ok g by (auto simp: reg_ok_def)
  define b where "b = take (nat (reg_top rg)) a @ replicate (nat (t - reg_top rg)) (Some LNil) @
      drop (nat (reg_top rg) + nat (t - reg_top rg)) a"
  have fl: "fill_loop a (reg_top rg) (nat (t - reg_top rg)) (Some LNil) = Inr b"
    unfolding b_def using top l by (intro fill_loop_eq) auto
  have lb: "length b = length a" using top l by (auto simp: b_def)
  have vb: "map slot_value b = map slot_value a"
    unfolding b_def
  proof (rule fill_nil_same)
    show "\<forall>k. nat (reg_top rg) \<le> k \<longrightarrow> k < length a \<longrightarrow> slot_value (a ! k) = LNil"
    proof (intro allI impI)
      fix k assume "nat (reg_top rg) \<le> k" "k < length a"
      then show "slot_value (a ! k) = LNil"
        using arg_cong [OF v, of "\<lambda>xs. xs ! k"] by (simp add: nth_pad_to regs_length [OF ok])
    qed
    show "nat (reg_top rg) + nat (t - reg_top rg) \<le> length a" using top l by linarith
  qed
  have low: "map slot_value (take (nat t) b) = take (nat t) (pad_to (nat t) (regs rg))"
  proof -
    have "map slot_value (take (nat t) b) = take (nat t) (map slot_value b)" by (rule take_map [symmetric])
    also have "\<dots> = take (nat t) (pad_to (length a) (regs rg))" by (simp only: vb v)
    also have "\<dots> = take (nat t) (pad_to (nat t) (regs rg))"
      using l by (simp add: pad_to_def)
    finally show ?thesis .
  qed
  have high: "\<forall>k. max (nat t) (nat (reg_top rg)) \<le> k \<longrightarrow> k < length b \<longrightarrow> slot_value (b ! k) = LNil"
  proof (intro allI impI)
    fix k assume "max (nat t) (nat (reg_top rg)) \<le> k" "k < length b"
    then show "slot_value (b ! k) = LNil"
      using arg_cong [OF vb, of "\<lambda>xs. xs ! k"] lb by (simp add: v nth_pad_to regs_length [OF ok])
  qed
  obtain a' where "clear_above b t (reg_top rg) = Inr a'"
    and "reg_res rg (rg\<lparr>reg_top := t, reg_array := a'\<rparr>) (take (nat t) (pad_to (nat t) (regs rg)))"
    using clear_above_res [OF ok t _ _ _ _ low high] l top(2) g mx unfolding lb by blast
  then show ?thesis using c fl by (simp add: SetTop_def Let_def)
qed

lemma slot_at:
  assumes "map slot_value a = pad_to (length a) xs" "k < length a" "length xs \<le> length a"
  shows "slot_value (a ! k) = (if k < length xs then xs ! k else LNil)"
  using arg_cong [OF assms(1), of "\<lambda>ys. ys ! k"] assms(2,3) by (simp add: nth_pad_to)

lemma FillNil_res:
  assumes ok: "reg_ok rg" and f: "fits rg (int m + int n)"
  shows "\<exists>rg'. FillNil rg (int m) (int n) = Inr rg' \<and>
    reg_res rg rg' (take m (pad_to m (regs rg)) @ replicate n LNil)"
proof -
  obtain a where c: "checkSize rg (int m + int n) = Inr (rg\<lparr>reg_array := a\<rparr>)"
    and l: "int m + int n \<le> int (length a)"
    and g: "length (reg_array rg) \<le> length a" and mx: "int (length a) \<le> maxRegs" and v: "map slot_value a = pad_to (length a) (regs rg)"
    using checkSize_ok [OF ok] f unfolding fits_def by blast
  have rl: "length (regs rg) \<le> length a" using reg_top_le [OF ok] g by (simp add: regs_length [OF ok])
  define b where "b = take m a @ replicate n (Some LNil) @ drop (m + n) a"
  have fl: "fill_loop a (int m) n (Some LNil) = Inr b"
    using fill_loop_eq [of "int m" n a] l by (simp add: b_def)
  have lb: "length b = length a" using l by (simp add: b_def)
  have low: "map slot_value (take (nat (int m + int n)) b) = take m (pad_to m (regs rg)) @ replicate n LNil"
  proof -
    have "take (nat (int m + int n)) b = take m a @ replicate n (Some LNil)"
      using l by (simp add: b_def nat_add_distrib)
    moreover have "map slot_value (take m a) = take m (pad_to m (regs rg))"
      using l by (simp add: v flip: take_map) (simp add: pad_to_def)
    ultimately show ?thesis by simp
  qed
  have high: "\<forall>k. max (nat (int m + int n)) (nat (reg_top rg)) \<le> k \<longrightarrow> k < length b \<longrightarrow>
      slot_value (b ! k) = LNil"
    using slot_at [OF v _ rl] l by (simp add: b_def nth_append nat_add_distrib regs_length [OF ok])
  obtain a' where "clear_above b (int m + int n) (reg_top rg) = Inr a'"
    and "reg_res rg (rg\<lparr>reg_top := int m + int n, reg_array := a'\<rparr>)
      (take m (pad_to m (regs rg)) @ replicate n LNil)"
    using clear_above_res [OF ok _ _ _ _ _ low high] l g mx ok unfolding lb reg_ok_def by fastforce
  then show ?thesis using c fl fits_wrap [OF ok f] by (simp add: FillNil_def Let_def)
qed

lemma copy_loop_nth:
  assumes "p \<le> q" "p + i + n \<le> length a" "limit \<le> int (length a)"
  shows "\<exists>b. copy_loop a (int p) (int q) limit (int i) n = Inr b \<and> length b = length a \<and>
    (\<forall>k < length a. b ! k =
       (if p + i \<le> k \<and> k < p + i + n
        then Some (if int (q + (k - p)) \<ge> limit then LNil else slot_value (a ! (q + (k - p))))
        else a ! k))"
  using assms
proof (induction n arbitrary: a i)
  case 0
  then show ?case by auto
next
  case (Suc n)
  let ?x = "Some (if int (q + i) \<ge> limit then LNil else slot_value (a ! (q + i)))"
  let ?a = "a[p + i := ?x]"
  have w: "reg_write a (int p + int i) x = Inr (a[p + i := x])" for x
    using Suc.prems by (simp add: reg_write_def nat_add_distrib)
  have "copy_loop a (int p) (int q) limit (int i) (Suc n) =
      copy_loop ?a (int p) (int q) limit (int (Suc i)) n"
  proof -
    have e: "int (Suc i) = int i + 1" by simp
    show ?thesis unfolding e using Suc.prems by (simp add: Let_def w reg_read_def nat_add_distrib)
  qed
  moreover obtain b where b: "copy_loop ?a (int p) (int q) limit (int (Suc i)) n = Inr b"
    and lb: "length b = length a"
    and nb: "\<And>k. k < length a \<Longrightarrow> b ! k =
       (if p + Suc i \<le> k \<and> k < p + Suc i + n
        then Some (if int (q + (k - p)) \<ge> limit then LNil else slot_value (?a ! (q + (k - p))))
        else ?a ! k)"
    using Suc.IH [of "Suc i" ?a] Suc.prems by auto
  moreover have "b ! k = (if p + i \<le> k \<and> k < p + i + Suc n
        then Some (if int (q + (k - p)) \<ge> limit then LNil else slot_value (a ! (q + (k - p))))
        else a ! k)" if k: "k < length a" for k
  proof (cases "k = p + i")
    case True
    then show ?thesis using nb [OF k] k by simp
  next
    case False
    have "p + Suc i \<le> k \<Longrightarrow> q + (k - p) \<noteq> p + i" using Suc.prems(1) by linarith
    with False show ?thesis using nb [OF k] k by auto
  qed
  ultimately show ?case by auto
qed

text \<open>What \<open>CopyRange\<close> reads for the \<open>j\<close>-th value it moves.\<close>

definition copied :: "lvalue list \<Rightarrow> nat \<Rightarrow> int \<Rightarrow> nat \<Rightarrow> lvalue" where
  "copied xs start limit j =
     (if int (start + j) < (if limit = -1 \<or> limit > int (length xs) then int (length xs) else limit)
      then xs ! (start + j) else LNil)"

lemma CopyRange_res:
  assumes ok: "reg_ok rg" and pq: "p \<le> q" and f: "fits rg (int p + int n)"
  shows "\<exists>rg'. CopyRange rg (int p) (int q) limit (int n) = Inr rg' \<and>
    reg_res rg rg' (take p (pad_to p (regs rg)) @ map (copied (regs rg) q limit) [0..<n])"
proof -
  obtain a where c: "checkSize rg (int p + int n) = Inr (rg\<lparr>reg_array := a\<rparr>)"
    and l: "int p + int n \<le> int (length a)"
    and g: "length (reg_array rg) \<le> length a" and mx: "int (length a) \<le> maxRegs" and v: "map slot_value a = pad_to (length a) (regs rg)"
    using checkSize_ok [OF ok] f unfolding fits_def by blast
  have rl: "length (regs rg) \<le> length a" and top: "int (length (regs rg)) = reg_top rg"
    using reg_top_le [OF ok] g ok by (auto simp: regs_length reg_ok_def)
  define lim where "lim = (if limit = -1 \<or> limit > reg_top rg then reg_top rg else limit)"
  have ll: "lim \<le> int (length (regs rg))" by (simp add: lim_def top)
  let ?xs = "take p (pad_to p (regs rg)) @ map (copied (regs rg) q limit) [0..<n]"
  obtain b where b: "copy_loop a (int p) (int q) lim 0 n = Inr b" and lb: "length b = length a"
    and nb: "\<And>k. k < length a \<Longrightarrow> b ! k =
       (if p \<le> k \<and> k < p + n
        then Some (if int (q + (k - p)) \<ge> lim then LNil else slot_value (a ! (q + (k - p))))
        else a ! k)"
    using copy_loop_nth [OF pq, of 0 n a lim] l rl ll by auto
  have low: "map slot_value (take (nat (int p + int n)) b) = ?xs"
  proof (rule nth_equalityI)
    show "length (map slot_value (take (nat (int p + int n)) b)) = length ?xs"
      using l lb by (simp add: nat_add_distrib)
    fix k assume "k < length (map slot_value (take (nat (int p + int n)) b))"
    then have k: "k < p + n" "k < length a" using lb by (auto simp: nat_add_distrib)
    show "map slot_value (take (nat (int p + int n)) b) ! k = ?xs ! k"
    proof (cases "k < p")
      case True
      then show ?thesis
        using k nb [OF k(2)] slot_at [OF v k(2) rl] lb
        by (simp add: nth_append nth_pad_to nat_add_distrib)
    next
      case False
      have "int (q + (k - p)) < lim \<Longrightarrow> slot_value (a ! (q + (k - p))) = regs rg ! (q + (k - p))"
        using slot_at [OF v _ rl] rl ll by auto
      then show ?thesis
        using False k nb [OF k(2)] lb
        by (simp add: nth_append nat_add_distrib copied_def top lim_def)
    qed
  qed
  have high: "\<forall>k. max (nat (int p + int n)) (nat (reg_top rg)) \<le> k \<longrightarrow> k < length b \<longrightarrow>
      slot_value (b ! k) = LNil"
    using slot_at [OF v _ rl] nb lb by (simp add: nat_add_distrib regs_length [OF ok])
  obtain a' where "clear_above b (int p + int n) (reg_top rg) = Inr a'"
    and "reg_res rg (rg\<lparr>reg_top := int p + int n, reg_array := a'\<rparr>) ?xs"
    using clear_above_res [OF ok _ _ _ _ _ low high] l g mx top rl unfolding lb by fastforce
  then have "CopyRange rg (int p) (int q) limit (int n) = Inr (rg\<lparr>reg_top := int p + int n, reg_array := a'\<rparr>)"
    using c b fits_wrap [OF ok f] by (simp add: CopyRange_def Let_def lim_def cong: if_cong split del: if_split)
  with \<open>reg_res rg _ ?xs\<close> show ?thesis by blast
qed

lemma fits_res: "reg_res rg rg' xs \<Longrightarrow> fits rg n \<Longrightarrow> fits rg' n"
  by (auto simp: reg_res_def fits_def)

lemma reg_res_trans: "reg_res rg rg1 xs \<Longrightarrow> reg_res rg1 rg2 ys \<Longrightarrow> reg_res rg rg2 ys"
  by (auto simp: reg_res_def)

lemma shift_step_list:
  assumes "k < length xs" "n \<le> k" and ys: "ys = take (Suc k) xs @ [xs ! k] @ zs"
  shows "take (k + 1 - n) xs @ take (Suc n) (drop (k - n) xs) @ zs =
    take (k + 1 - n) ys @ take n (drop (k - n) ys) @ drop (Suc k) ys"
proof -
  have l: "length (take (Suc k) xs) = Suc k" using assms(1) by simp
  have "drop (Suc k) ys = [xs ! k] @ zs" unfolding ys using l by (simp del: take_Suc_conv_app_nth)
  moreover have "take (k + 1 - n) ys = take (k + 1 - n) xs"
    unfolding ys using l by (simp add: min_def del: take_Suc_conv_app_nth)
  moreover have "take n (drop (k - n) ys) = take n (drop (k - n) xs)"
  proof -
    have "drop (k - n) ys = drop (k - n) (take (Suc k) xs) @ [xs ! k] @ zs"
      unfolding ys using l assms(2) by (simp del: take_Suc_conv_app_nth)
    also have "take n \<dots> = take n (drop (k - n) (take (Suc k) xs))"
      using l assms(2) by (simp del: take_Suc_conv_app_nth)
    also have "\<dots> = take n (drop (k - n) xs)"
      using assms(2) by (simp add: drop_take min_def del: take_Suc_conv_app_nth)
    finally show ?thesis .
  qed
  moreover have "take (Suc n) (drop (k - n) xs) = take n (drop (k - n) xs) @ [xs ! k]"
    using assms(1,2) by (simp add: take_Suc_conv_app_nth)
  ultimately show ?thesis by simp
qed

lemma shift_loop_res:
  "reg_ok rg \<Longrightarrow> k < length (regs rg) \<Longrightarrow> n \<le> Suc k \<Longrightarrow> fits rg (int k + 2) \<Longrightarrow>
   \<exists>rg'. shift_loop rg (int k) n = Inr rg' \<and>
     reg_res rg rg' (take (k + 2 - n) (regs rg) @ take n (drop (Suc k - n) (regs rg)) @ drop (k + 2) (regs rg))"
proof (induction n arbitrary: rg k)
  case 0
  then show ?case by (simp add: reg_res_def)
next
  case (Suc n)
  let ?xs = "regs rg"
  let ?ys = "take (Suc k) ?xs @ [?xs ! k] @ drop (k + 2) ?xs"
  have rl: "length ?xs = nat (reg_top rg)" "nat (reg_top rg) \<le> length (reg_array rg)"
    using Suc.prems(1) by (simp_all add: regs_length reg_top_le)
  then have "int k < reg_top rg" using Suc.prems(2) by linarith
  then have g: "Get rg (int k) = Inr (?xs ! k)"
    using Get_regs [OF Suc.prems(1), of "int k"] Suc.prems(2) rl by simp
  have f2: "fits rg (int k + 1 + 1)" using Suc.prems(4) unfolding fits_def by linarith
  have "(pad_to (nat (int k + 1) + 1) ?xs)[nat (int k + 1) := ?xs ! k] = ?ys"
    using Suc.prems(2)
    by (intro nth_equalityI) (auto simp: nat_add_distrib nth_append nth_list_update nth_pad_to min_def
        intro!: arg_cong [where f = "nth ?xs"])
  then obtain rg1 where r1: "SetReg rg (int k + 1) (?xs ! k) = Inr rg1" and res1: "reg_res rg rg1 ?ys"
    using SetReg_res [OF Suc.prems(1) _ f2, of "?xs ! k"] by auto
  have goal: "take (k + 2 - Suc n) ?xs @ take (Suc n) (drop (Suc k - Suc n) ?xs) @ drop (k + 2) ?xs =
      take (k + 1 - n) ?ys @ take n (drop (k - n) ?ys) @ drop (Suc k) ?ys"
    using shift_step_list [OF Suc.prems(2) _ refl, of n "drop (k + 2) ?xs"] Suc.prems(3)
    by (simp del: take_append drop_append)
  show ?case
  proof (cases k)
    case 0
    then have "n = 0" using Suc.prems(3) by simp
    with 0 g r1 res1 goal show ?thesis by simp
  next
    case (Suc k')
    have "reg_ok rg1" "regs rg1 = ?ys" using res1 by (simp_all add: reg_res_def)
    moreover have "fits rg1 (int k' + 2)"
      using fits_res [OF res1 Suc.prems(4)] Suc by (auto simp: fits_def)
    ultimately obtain rg2 where "shift_loop rg1 (int k') n = Inr rg2"
      and "reg_res rg1 rg2 (take (k' + 2 - n) ?ys @ take n (drop (Suc k' - n) ?ys) @ drop (k' + 2) ?ys)"
      using Suc.IH [of rg1 k'] Suc Suc.prems(2,3) by auto
    moreover have "int k - 1 = int k'" using Suc by simp
    ultimately show ?thesis
      unfolding goal using g r1 reg_res_trans [OF res1] Suc by auto
  qed
qed

lemma Insert_res:
  assumes ok: "reg_ok rg" and r: "r \<le> length (regs rg)" and f: "fits rg (reg_top rg + 1)"
  shows "\<exists>rg'. Insert rg v (int r) = Inr rg' \<and> reg_res rg rg' (take r (regs rg) @ v # drop r (regs rg))"
proof (cases "r = length (regs rg)")
  case True
  then have t: "int r = reg_top rg" using ok by (simp add: regs_length reg_ok_def)
  then have "Insert rg v (int r) = Push rg v"
    by (simp add: Insert_def Top_def Push_SetReg)
  with Push_res [OF ok f] True show ?thesis by simp
next
  case False
  let ?xs = "regs rg"
  have t: "reg_top rg = int (length ?xs)" using ok by (simp add: regs_length reg_ok_def)
  define k where "k = length ?xs - 1"
  have k: "length ?xs = Suc k" "r \<le> k" using False r by (auto simp: k_def)
  obtain rg1 where s1: "shift_loop rg (int k) (Suc k - r) = Inr rg1"
    and r1: "reg_res rg rg1 (take (k + 2 - (Suc k - r)) ?xs @ take (Suc k - r) (drop (Suc k - (Suc k - r)) ?xs) @ drop (k + 2) ?xs)"
    using shift_loop_res [OF ok, of k "Suc k - r"] k f t by (auto simp: add.commute)
  then have r1: "reg_res rg rg1 (take (Suc r) ?xs @ drop r ?xs)"
    using k by (simp add: Suc_diff_le)
  then have ok1: "reg_ok rg1" and x1: "regs rg1 = take (Suc r) ?xs @ drop r ?xs"
    by (simp_all add: reg_res_def)
  have "fits rg1 (int r + 1)" using fits_res [OF r1 f] k t by (auto simp: fits_def)
  then obtain rg2 where s2: "SetReg rg1 (int r) v = Inr rg2"
    and r2: "reg_res rg1 rg2 ((pad_to (nat (int r) + 1) (regs rg1))[nat (int r) := v])"
    using SetReg_res [OF ok1, of "int r" v] by auto
  have "(pad_to (nat (int r) + 1) (regs rg1))[nat (int r) := v] = take r ?xs @ v # drop r ?xs"
    using k by (simp add: x1 pad_to_def take_Suc_conv_app_nth list_update_append)
  with r2 have "reg_res rg rg2 (take r ?xs @ v # drop r ?xs)" using reg_res_trans [OF r1] by simp
  moreover have "Insert rg v (int r) = Inr rg2"
  proof -
    have "nat (int (length ?xs) - 1 - int r + 1) = Suc k - r" "int (length ?xs) - 1 = int k"
      using k by auto
    then show ?thesis using s1 s2 k by (simp add: Insert_def Top_def t Let_def)
  qed
  ultimately show ?thesis by blast
qed

section \<open>The stack interface\<close>

text \<open>
  What the callers of \<open>Push\<close> and \<open>Pop\<close> (calls into Go functions, argument passing) rely on.
\<close>

locale value_stack =
  fixes ok :: "'s \<Rightarrow> bool" and contents :: "'s \<Rightarrow> lvalue list" and room :: "'s \<Rightarrow> bool"
    and push :: "'s \<Rightarrow> lvalue \<Rightarrow> 'e + 's" and pop :: "'s \<Rightarrow> 'e + (lvalue \<times> 's)"
  assumes push_law: "ok s \<Longrightarrow> room s \<Longrightarrow>
      \<exists>s'. push s v = Inr s' \<and> ok s' \<and> contents s' = contents s @ [v]"
    and pop_law: "ok s \<Longrightarrow> contents s \<noteq> [] \<Longrightarrow>
      \<exists>s'. pop s = Inr (last (contents s), s') \<and> ok s' \<and> contents s' = butlast (contents s)"
begin

lemma push_then_pop:
  assumes "ok s" "room s"
  shows "\<exists>s1 s2. push s v = Inr s1 \<and> pop s1 = Inr (v, s2) \<and> ok s2 \<and> contents s2 = contents s"
proof -
  obtain s1 where s1: "push s v = Inr s1" "ok s1" "contents s1 = contents s @ [v]"
    using push_law [OF assms] by blast
  then obtain s2 where "pop s1 = Inr (v, s2)" "ok s2" "contents s2 = contents s"
    using pop_law [of s1] by auto
  with s1(1) show ?thesis by blast
qed

end

interpretation reg_stack: value_stack reg_ok regs "\<lambda>rg. fits rg (reg_top rg + 1)" Push Pop
proof unfold_locales
  fix rg v assume "reg_ok rg" "fits rg (reg_top rg + 1)"
  then show "\<exists>rg'. Push rg v = Inr rg' \<and> reg_ok rg' \<and> regs rg' = regs rg @ [v]"
    using Push_res by (fastforce simp: reg_res_def)
next
  fix rg assume ok: "reg_ok rg" and "regs rg \<noteq> []"
  then have "0 < nat (reg_top rg)" using regs_length [OF ok] by (metis length_greater_0_conv)
  then have "0 < reg_top rg" by simp
  with ok show "\<exists>rg'. Pop rg = Inr (last (regs rg), rg') \<and> reg_ok rg' \<and> regs rg' = butlast (regs rg)"
    using Pop_res by (fastforce simp: reg_res_def)
qed

section \<open>Properties\<close>

lemma newRegistry_ok: "limits_ok g m \<Longrightarrow> int n \<le> maxRegs \<Longrightarrow> reg_ok (newRegistry n g m) \<and> regs (newRegistry n g m) = []"
  by (simp add: newRegistry_def reg_ok_def regs_def nil_slot_def list_all_iff)

text \<open>
  a push that fits is undone by a pop: the pop returns the pushed value and leaves the
  register list as it was.
\<close>

theorem push_pop_inverse:
  assumes "reg_ok rg" and "fits rg (reg_top rg + 1)"
  shows "\<exists>rg1 rg2. Push rg v = Inr rg1 \<and> Pop rg1 = Inr (v, rg2) \<and> reg_ok rg2 \<and> regs rg2 = regs rg"
  using assms by (rule reg_stack.push_then_pop)

theorem push_pop_inverse_witness:
  "\<exists>rg1 rg2. Push (newRegistry 0 2 5) (LBool True) = Inr rg1 \<and> Pop rg1 = Inr (LBool True, rg2) \<and>
    reg_ok rg2 \<and> regs rg2 = []"
proof -
  have "reg_ok (newRegistry 0 2 5)" "regs (newRegistry 0 2 5) = []"
    "fits (newRegistry 0 2 5) (reg_top (newRegistry 0 2 5) + 1)"
    using newRegistry_ok [of 2 5 0] by (simp_all add: fits_def newRegistry_def limits_ok_def)
  then show ?thesis using push_pop_inverse [of "newRegistry 0 2 5" "LBool True"] by simp
qed

text \<open>
  C15: the register file refines a list: \<open>Insert\<close> at an index up to the top inserts in the list,
  \<open>SetTop\<close> truncates it or extends it with nil, and \<open>FillNil\<close> keeps the values below \<open>m\<close> and
  ends with \<open>n\<close> nils; each keeps the invariant, whether or not the array had to grow. The sizes asked
  for are within the array or the size limit. The invariant includes the limits of the register file: one
  that can be allocated, and a step of growth with which sizes do not wrap around.
\<close>

theorem registry_refines_list:
  assumes "reg_ok rg" and "r \<le> length (regs rg)"
    and "fits rg (reg_top rg + 1)" and "fits rg (int t)" and "fits rg (int m + int n)"
  shows "(\<exists>rg'. Insert rg v (int r) = Inr rg' \<and> reg_ok rg' \<and>
            regs rg' = take r (regs rg) @ v # drop r (regs rg)) \<and>
         (\<exists>rg'. SetTop rg (int t) = Inr rg' \<and> reg_ok rg' \<and>
            regs rg' = take t (regs rg) @ replicate (t - length (regs rg)) LNil) \<and>
         (\<exists>rg'. FillNil rg (int m) (int n) = Inr rg' \<and> reg_ok rg' \<and>
            regs rg' = take m (regs rg) @ replicate (m - length (regs rg)) LNil @ replicate n LNil)"
  using Insert_res [OF assms(1-3), of v] SetTop_res [OF assms(1) _ assms(4)]
    FillNil_res [OF assms(1,5)]
  by (auto simp: reg_res_def pad_to_def)

theorem registry_refines_list_witness:
  "\<exists>rg. regs rg = [LBool True] \<and>
    (\<exists>rg'. Insert rg LNil (int 0) = Inr rg' \<and> regs rg' = [LNil, LBool True])"
proof -
  define rg where "rg = \<lparr>reg_array = [Some (LBool True)], reg_top = 1, reg_growBy = 0, reg_maxSize = 4\<rparr>"
  have "reg_ok rg" "regs rg = [LBool True]" by (simp_all add: rg_def reg_ok_def regs_def limits_ok_def)
  moreover have "fits rg (reg_top rg + 1)" "fits rg (int 0)" "fits rg (int 0 + int 0)"
    by (simp_all add: rg_def fits_def)
  ultimately show ?thesis using registry_refines_list [of rg 0 0 0 0 LNil] by auto
qed

text \<open>
  \<open>CopyRange\<close>, moving values down (the destination is not above the source), leaves below
  the destination what was there, then the \<open>n\<close> source values, with nil for every source index at
  or past the limit, and ends the register list there, although source and destination overlap.
\<close>

theorem copyRange_moves:
  assumes "reg_ok rg" and "p \<le> q" and "fits rg (int p + int n)"
  shows "\<exists>rg'. CopyRange rg (int p) (int q) limit (int n) = Inr rg' \<and> reg_ok rg' \<and>
    regs rg' = take p (regs rg) @ replicate (p - length (regs rg)) LNil @
      map (copied (regs rg) q limit) [0..<n]"
  using CopyRange_res [OF assms, of limit] by (auto simp: reg_res_def pad_to_def)

theorem copyRange_moves_witness:
  "\<exists>rg'. CopyRange \<lparr>reg_array = [None, Some (LInteger 1), Some (LInteger 2)], reg_top = 3,
      reg_growBy = 0, reg_maxSize = 3\<rparr> (int 0) (int 1) (-1) (int 3) = Inr rg' \<and>
    regs rg' = [LInteger 1, LInteger 2, LNil]"
proof -
  define rg where "rg = \<lparr>reg_array = [None, Some (LInteger 1), Some (LInteger 2)], reg_top = 3,
      reg_growBy = 0, reg_maxSize = 3\<rparr>"
  have "reg_ok rg" "regs rg = [LNil, LInteger 1, LInteger 2]" "fits rg (int 0 + int 3)"
    by (simp_all add: rg_def reg_ok_def regs_def fits_def limits_ok_def)
  then show ?thesis
    using copyRange_moves [of rg 0 1 3 "-1"]
    by (auto simp: rg_def [symmetric] copied_def upt_rec numeral_3_eq_3)
qed

text \<open>
  \<open>Push\<close> fails exactly when neither the array nor the size limit has room, and then with
  the overflow error.
\<close>

theorem push_overflow_iff:
  assumes "reg_ok rg"
  shows "Push rg v = Inl RegistryOverflow \<longleftrightarrow> \<not> fits rg (reg_top rg + 1)"
  using Push_res [OF assms, of v] Push_overflow [OF assms, of v] by (auto simp: fits_def)

theorem push_overflow_iff_witness:
  "Push (newRegistry 0 2 0) LNil = Inl RegistryOverflow"
proof -
  have "\<not> fits (newRegistry 0 2 0) (reg_top (newRegistry 0 2 0) + 1)"
    by (simp add: fits_def newRegistry_def)
  with push_overflow_iff [of "newRegistry 0 2 0" LNil] newRegistry_ok [of 2 0 0] show ?thesis by (simp add: limits_ok_def)
qed

end
