(* ===== verification/Hamt.thy ===== *)
theory Hamt
  imports Integers
begin

text \<open>
  The persistent hash array mapped trie of \<open>internal/hamt.go\<close>. A node has a bitmap of its
  children, the children in the order of their bits, and entries of its own; a pointer that may be
  nil is an option. A child index outside the children slice is a Go panic, written \<open>None\<close> by the
  operations that index; the invariant excludes it. The hash of a key is a parameter of the
  operations, as \<open>hashKey\<close> depends on the key type; its variants for strings and integers are
  modelled beside them.

  The lemmas show the map laws (lookup after insert and delete), that the size field counts the
  keys, and that \<open>Range\<close> visits every entry once.
\<close>

unbundle bit_operations_syntax

section \<open>Model\<close>

abbreviation (input) bitsPerLevel :: nat where "bitsPerLevel \<equiv> 5"
abbreviation (input) maxHashShift :: nat where "maxHashShift \<equiv> 64"

record ('k, 'v) entry =
  ekey :: 'k
  evalue :: 'v
  ehash :: u64

datatype ('k, 'v) node =
  Node (bitmap: u32) (entries: "('k, 'v) entry list") (children: "('k, 'v) node list")

record ('k, 'v) HAMT =
  root :: "('k, 'v) node option"
  hsize :: int

text \<open>\<open>bits.OnesCount32\<close>\<close>

definition popcount :: "u32 \<Rightarrow> nat" where
  "popcount x = length (filter (bit x) [0..<32])"

definition hash_index :: "u64 \<Rightarrow> nat \<Rightarrow> nat" where
  "hash_index hash shift = unat (drop_bit shift hash AND 31)"

definition index_bit :: "nat \<Rightarrow> u32" where
  "index_bit idx = push_bit idx 1"

definition child_index :: "u32 \<Rightarrow> u32 \<Rightarrow> nat" where
  "child_index bm bt = popcount (bm AND (bt - 1))"

definition find_entry :: "('k, 'v) entry list \<Rightarrow> 'k \<Rightarrow> nat option" where
  "find_entry es key = (if \<exists>e \<in> set es. ekey e = key
     then Some (length (takeWhile (\<lambda>e. ekey e \<noteq> key) es)) else None)"

definition insertChild :: "'c list \<Rightarrow> nat \<Rightarrow> 'c \<Rightarrow> 'c list" where
  "insertChild cs idx c = take idx cs @ [c] @ drop idx cs"

lemma nth_size: "i < length cs \<Longrightarrow> size (cs ! i) < Suc (size_list size cs)"
  using size_list_estimation' [of "cs ! i" cs "size (cs ! i)" size] by simp

function node_get :: "('k, 'v) node \<Rightarrow> 'k \<Rightarrow> u64 \<Rightarrow> nat \<Rightarrow> 'v option option" where
  "node_get (Node bm es cs) key hash shift =
     (case find_entry es key of
        Some i \<Rightarrow> Some (Some (evalue (es ! i)))
      | None \<Rightarrow>
          if length cs = 0 then Some None
          else let bt = index_bit (hash_index hash shift) in
            if bm AND bt = 0 then Some None
            else let ci = child_index bm bt in
              if ci < length cs then node_get (cs ! ci) key hash (shift + bitsPerLevel) else None)"
  by pat_completeness auto
termination
  by (relation "measure (\<lambda>(n, _). size n)") (auto dest: nth_size)

definition setEntry :: "('k, 'v) node \<Rightarrow> 'k \<Rightarrow> 'v \<Rightarrow> u64 \<Rightarrow> ('k, 'v) node \<times> bool" where
  "setEntry n key v hash =
     (case find_entry (entries n) key of
        Some i \<Rightarrow>
          (Node (bitmap n) ((entries n)[i := \<lparr>ekey = key, evalue = v, ehash = hash\<rparr>]) (children n), False)
      | None \<Rightarrow>
          (Node (bitmap n) (entries n @ [\<lparr>ekey = key, evalue = v, ehash = hash\<rparr>]) (children n), True))"

function node_set :: "('k, 'v) node \<Rightarrow> 'k \<Rightarrow> 'v \<Rightarrow> u64 \<Rightarrow> nat \<Rightarrow> (('k, 'v) node \<times> bool) option" where
  "node_set (Node bm es cs) key v hash shift =
     (if shift \<ge> maxHashShift then Some (setEntry (Node bm es cs) key v hash)
      else case find_entry es key of
        Some i \<Rightarrow> Some (Node bm (es[i := \<lparr>ekey = key, evalue = v, ehash = hash\<rparr>]) cs, False)
      | None \<Rightarrow>
          let bt = index_bit (hash_index hash shift) in
          if bm AND bt = 0 then
            let ci = child_index bm bt;
                child = Node 0 [\<lparr>ekey = key, evalue = v, ehash = hash\<rparr>] []
            in Some (Node (bm OR bt) es (insertChild cs ci child), True)
          else
            let ci = child_index bm bt in
            if ci < length cs then
              (case node_set (cs ! ci) key v hash (shift + bitsPerLevel) of
                 None \<Rightarrow> None
               | Some (newChild, added) \<Rightarrow> Some (Node bm es (cs[ci := newChild]), added))
            else None)"
  by pat_completeness auto
termination
  by (relation "measure (\<lambda>(n, _). size n)") (auto dest: nth_size)

definition isEmpty :: "('k, 'v) node \<Rightarrow> bool" where
  "isEmpty n \<longleftrightarrow> length (entries n) = 0 \<and> length (children n) = 0"

definition remove_at :: "nat \<Rightarrow> 'a list \<Rightarrow> 'a list" where
  "remove_at i xs = take i xs @ drop (Suc i) xs"

function node_delete :: "('k, 'v) node \<Rightarrow> 'k \<Rightarrow> u64 \<Rightarrow> nat \<Rightarrow> (('k, 'v) node \<times> bool) option" where
  "node_delete (Node bm es cs) key hash shift =
     (case find_entry es key of
        Some i \<Rightarrow> Some (Node bm (remove_at i es) cs, True)
      | None \<Rightarrow>
          if length cs = 0 then Some (Node bm es cs, False)
          else let bt = index_bit (hash_index hash shift) in
            if bm AND bt = 0 then Some (Node bm es cs, False)
            else let ci = child_index bm bt in
              if ci < length cs then
                (case node_delete (cs ! ci) key hash (shift + bitsPerLevel) of
                   None \<Rightarrow> None
                 | Some (newChild, deleted) \<Rightarrow>
                     if \<not> deleted then Some (Node bm es cs, False)
                     else if isEmpty newChild
                       then Some (Node (bm AND NOT bt) es (remove_at ci cs), True)
                       else Some (Node bm es (cs[ci := newChild]), True))
              else None)"
  by pat_completeness auto
termination
  by (relation "measure (\<lambda>(n, _). size n)") (auto dest: nth_size)

text \<open>
  \<open>iterate\<close> calls a Go closure, which may change variables it captures: a function that takes and
  returns that state, with the flag that says whether to go on.
\<close>

fun iterate_entries ::
  "('s \<Rightarrow> 'k \<Rightarrow> 'v \<Rightarrow> 's \<times> bool) \<Rightarrow> ('k, 'v) entry list \<Rightarrow> 's \<Rightarrow> 's \<times> bool" where
  "iterate_entries fn [] s = (s, True)"
| "iterate_entries fn (e # es) s =
     (case fn s (ekey e) (evalue e) of (s, go) \<Rightarrow> if go then iterate_entries fn es s else (s, False))"

fun iterate :: "('s \<Rightarrow> 'k \<Rightarrow> 'v \<Rightarrow> 's \<times> bool) \<Rightarrow> ('k, 'v) node \<Rightarrow> 's \<Rightarrow> 's \<times> bool"
and iterate_children :: "('s \<Rightarrow> 'k \<Rightarrow> 'v \<Rightarrow> 's \<times> bool) \<Rightarrow> ('k, 'v) node list \<Rightarrow> 's \<Rightarrow> 's \<times> bool" where
  "iterate fn (Node bm es cs) s =
     (case iterate_entries fn es s of (s, go) \<Rightarrow> if go then iterate_children fn cs s else (s, False))"
| "iterate_children fn [] s = (s, True)"
| "iterate_children fn (c # cs) s =
     (case iterate fn c s of (s, go) \<Rightarrow> if go then iterate_children fn cs s else (s, False))"

section \<open>The map operations\<close>

definition hamt_new :: "('k, 'v) HAMT" where
  "hamt_new = \<lparr>root = None, hsize = 0\<rparr>"

definition Size :: "('k, 'v) HAMT option \<Rightarrow> int" where
  "Size m = (case m of None \<Rightarrow> 0 | Some m \<Rightarrow> hsize m)"

definition IsEmpty :: "('k, 'v) HAMT option \<Rightarrow> bool" where
  "IsEmpty m = (case m of None \<Rightarrow> True | Some m \<Rightarrow> hsize m = 0)"

definition hamt_Get :: "('k \<Rightarrow> u64) \<Rightarrow> ('k, 'v) HAMT option \<Rightarrow> 'k \<Rightarrow> 'v option option" where
  "hamt_Get hashKey m key =
     (case m of None \<Rightarrow> Some None
      | Some m \<Rightarrow> (case root m of None \<Rightarrow> Some None | Some r \<Rightarrow> node_get r key (hashKey key) 0))"

definition hamt_Set ::
  "('k \<Rightarrow> u64) \<Rightarrow> ('k, 'v) HAMT option \<Rightarrow> 'k \<Rightarrow> 'v \<Rightarrow> ('k, 'v) HAMT option option" where
  "hamt_Set hashKey m key v =
     (let m = (case m of None \<Rightarrow> hamt_new | Some m \<Rightarrow> m);
          hash = hashKey key;
          r = (case root m of None \<Rightarrow> Node 0 [] [] | Some r \<Rightarrow> r)
      in map_option (\<lambda>(newRoot, added).
           Some \<lparr>root = Some newRoot, hsize = (if added then hsize m + 1 else hsize m)\<rparr>)
         (node_set r key v hash 0))"

definition hamt_Delete ::
  "('k \<Rightarrow> u64) \<Rightarrow> ('k, 'v) HAMT option \<Rightarrow> 'k \<Rightarrow> ('k, 'v) HAMT option option" where
  "hamt_Delete hashKey m key =
     (case m of None \<Rightarrow> Some None
      | Some h \<Rightarrow> (case root h of None \<Rightarrow> Some (Some h)
          | Some r \<Rightarrow> map_option (\<lambda>(newRoot, deleted).
               if \<not> deleted then Some h else Some \<lparr>root = Some newRoot, hsize = hsize h - 1\<rparr>)
             (node_delete r key (hashKey key) 0)))"

definition hamt_Range :: "('s \<Rightarrow> 'k \<Rightarrow> 'v \<Rightarrow> 's \<times> bool) \<Rightarrow> ('k, 'v) HAMT option \<Rightarrow> 's \<Rightarrow> 's" where
  "hamt_Range fn m s =
     (case m of None \<Rightarrow> s
      | Some m \<Rightarrow> (case root m of None \<Rightarrow> s | Some r \<Rightarrow> fst (iterate fn r s)))"

text \<open>\<open>ToMap\<close> reads the size of its receiver, which panics when that is nil.\<close>

definition ToMap :: "('k, 'v) HAMT option \<Rightarrow> ('k \<rightharpoonup> 'v) option" where
  "ToMap m = (case m of None \<Rightarrow> None
     | Some _ \<Rightarrow> Some (hamt_Range (\<lambda>result k v. (result(k \<mapsto> v), True)) m Map.empty))"

text \<open>The loop over a Go map visits its pairs in some order: the list of them.\<close>

fun FromMap_loop ::
  "('k \<Rightarrow> u64) \<Rightarrow> ('k \<times> 'v) list \<Rightarrow> ('k, 'v) HAMT option \<Rightarrow> ('k, 'v) HAMT option option" where
  "FromMap_loop hashKey [] result = Some result"
| "FromMap_loop hashKey ((k, v) # kvs) result =
     (case hamt_Set hashKey result k v of None \<Rightarrow> None | Some result \<Rightarrow> FromMap_loop hashKey kvs result)"

definition FromMap :: "('k \<Rightarrow> u64) \<Rightarrow> ('k \<times> 'v) list \<Rightarrow> ('k, 'v) HAMT option option" where
  "FromMap hashKey kvs = FromMap_loop hashKey kvs (Some hamt_new)"

text \<open>\<open>hashKey\<close> for string keys and for integer keys.\<close>

definition hashKey_string :: "u8 list \<Rightarrow> u64" where
  "hashKey_string k = FnvString_loop FnvOffset64 k"

definition hashKey_int :: "int \<Rightarrow> u64" where
  "hashKey_int k = (word_of_int k * FnvPrime64) XOR FnvOffset64"

definition hashKey_uint64 :: "u64 \<Rightarrow> u64" where
  "hashKey_uint64 k = (k * FnvPrime64) XOR FnvOffset64"

section \<open>Ranks of bits\<close>

definition rank :: "u32 \<Rightarrow> nat \<Rightarrow> nat" where
  "rank bm i = child_index bm (index_bit i)"

lemma popcount_card: "popcount x = card {i. i < 32 \<and> bit x i}"
proof -
  have "popcount x = card {i. i < 32 \<and> bit x ([0..<32] ! i)}"
    by (simp add: popcount_def length_filter_conv_card)
  also have "{i. i < 32 \<and> bit x ([0..<32] ! i)} = {i. i < 32 \<and> bit x i}"
    by auto
  finally show ?thesis .
qed

lemma index_bit_exp: "index_bit i = 2 ^ i"
  by (simp add: index_bit_def push_bit_eq_mult)

lemma test_index_bit: "bm AND index_bit i = 0 \<longleftrightarrow> \<not> bit bm i"
  by (simp add: index_bit_exp and_exp_eq_0_iff_not_bit)

lemma rank_card: "i < 32 \<Longrightarrow> rank bm i = card {j. j < i \<and> bit bm j}"
proof -
  assume i: "i < 32"
  have "index_bit i - 1 = mask i" by (simp add: index_bit_exp mask_eq_exp_minus_1)
  then have "rank bm i = card {j. j < 32 \<and> bit (bm AND mask i) j}"
    by (simp add: rank_def child_index_def popcount_card)
  also have "{j. j < 32 \<and> bit (bm AND mask i) j} = {j. j < i \<and> bit bm j}"
    using i by (auto simp: bit_simps)
  finally show ?thesis .
qed

lemma rank_less:
  assumes "i < j" "j < 32" "bit bm i"
  shows "rank bm i < rank bm j"
proof -
  have "{k. k < i \<and> bit bm k} \<subset> {k. k < j \<and> bit bm k}" using assms by auto
  then show ?thesis using assms by (simp add: rank_card psubset_card_mono)
qed

lemma rank_popcount:
  assumes "i < 32" "bit bm i"
  shows "rank bm i < popcount bm"
proof -
  have "{k. k < i \<and> bit bm k} \<subset> {k. k < 32 \<and> bit bm k}" using assms by auto
  then show ?thesis using assms by (simp add: rank_card popcount_card psubset_card_mono)
qed

lemma rank_inj:
  "i < 32 \<Longrightarrow> j < 32 \<Longrightarrow> bit bm i \<Longrightarrow> bit bm j \<Longrightarrow> rank bm i = rank bm j \<Longrightarrow> i = j"
  using rank_less [of i j bm] rank_less [of j i bm] by (metis less_irrefl linorder_less_linear)

lemma rank_surj:
  assumes "c < popcount bm"
  shows "\<exists>i < 32. bit bm i \<and> rank bm i = c"
proof -
  let ?S = "{i. i < 32 \<and> bit bm i}"
  have "inj_on (rank bm) ?S" by (auto intro: inj_onI rank_inj)
  then have "card (rank bm ` ?S) = card {..<popcount bm}"
    by (simp add: card_image popcount_card)
  moreover have "rank bm ` ?S \<subseteq> {..<popcount bm}" using rank_popcount by auto
  ultimately have "rank bm ` ?S = {..<popcount bm}" by (simp add: card_subset_eq)
  with assms have "c \<in> rank bm ` ?S" by simp
  then show ?thesis by auto
qed

lemma bit_set_index: "i < 32 \<Longrightarrow> bit (bm OR index_bit i) j \<longleftrightarrow> bit bm j \<or> j = i"
  by (auto simp: index_bit_exp bit_simps)

lemma bit_clear_index: "bit (bm AND NOT (index_bit i)) j \<longleftrightarrow> bit bm j \<and> j \<noteq> i" for bm :: u32
  by (auto simp: index_bit_exp bit_simps dest: bit_imp_le_length)

lemma rank_set:
  assumes "i < 32" "\<not> bit bm i" "j < 32"
  shows "rank (bm OR index_bit i) j = rank bm j + (if i < j then 1 else 0)"
proof -
  have "{k. k < j \<and> bit (bm OR index_bit i) k} =
      (if i < j then insert i {k. k < j \<and> bit bm k} else {k. k < j \<and> bit bm k})"
    using assms by (auto simp: bit_set_index)
  with assms show ?thesis by (simp add: rank_card)
qed

lemma popcount_set: "i < 32 \<Longrightarrow> \<not> bit bm i \<Longrightarrow> popcount (bm OR index_bit i) = Suc (popcount bm)"
proof -
  assume a: "i < 32" "\<not> bit bm i"
  then have "{k. k < 32 \<and> bit (bm OR index_bit i) k} = insert i {k. k < 32 \<and> bit bm k}"
    by (auto simp: bit_set_index)
  with a show ?thesis by (simp add: popcount_card)
qed

lemma rank_clear:
  assumes "j < 32" "bit bm i"
  shows "rank (bm AND NOT (index_bit i)) j = rank bm j - (if i < j then 1 else 0)"
proof -
  have "{k. k < j \<and> bit (bm AND NOT (index_bit i)) k} = {k. k < j \<and> bit bm k} - {i}"
    by (auto simp: bit_clear_index)
  then show ?thesis using assms by (simp add: rank_card)
qed

lemma popcount_clear:
  "i < 32 \<Longrightarrow> bit bm i \<Longrightarrow> popcount (bm AND NOT (index_bit i)) = popcount bm - 1"
proof -
  assume a: "i < 32" "bit bm i"
  then have "{k. k < 32 \<and> bit (bm AND NOT (index_bit i)) k} = {k. k < 32 \<and> bit bm k} - {i}"
    by (auto simp: bit_clear_index)
  with a show ?thesis by (simp add: popcount_card)
qed

lemma insertChild_rank:
  assumes "i < 32" "\<not> bit bm i" "j < 32" "bit bm j \<or> j = i" "length cs = popcount bm"
  shows "insertChild cs (rank bm i) c ! rank (bm OR index_bit i) j = (if j = i then c else cs ! rank bm j)"
proof -
  have le: "rank bm i \<le> length cs"
    using assms by (simp add: rank_card popcount_card) (rule card_mono, auto)
  consider "j = i" | "j < i" "bit bm j" | "i < j" "bit bm j" using assms(4) by linarith
  then show ?thesis
  proof cases
    case 1
    with le assms show ?thesis by (simp add: insertChild_def rank_set nth_append)
  next
    case 2
    then have "rank bm j < rank bm i" using assms by (simp add: rank_less)
    with 2 le assms show ?thesis by (simp add: insertChild_def rank_set nth_append)
  next
    case 3
    have "{k. k < i \<and> bit bm k} \<subseteq> {k. k < j \<and> bit bm k}" using 3 by auto
    then have "rank bm i \<le> rank bm j" using assms by (simp add: rank_card card_mono)
    with 3 le assms show ?thesis
      by (simp add: insertChild_def rank_set nth_append Suc_diff_le)
  qed
qed

lemma remove_at_rank:
  assumes "i < 32" "bit bm i" "j < 32" "bit bm j" "j \<noteq> i" "length cs = popcount bm"
  shows "remove_at (rank bm i) cs ! rank (bm AND NOT (index_bit i)) j = cs ! rank bm j"
proof -
  have le: "rank bm i < length cs" "rank bm j < length cs" using assms by (simp_all add: rank_popcount)
  consider "j < i" | "i < j" using assms(5) by linarith
  then show ?thesis
  proof cases
    case 1
    then have "rank bm j < rank bm i" using assms by (simp add: rank_less)
    with 1 le assms show ?thesis by (simp add: remove_at_def rank_clear nth_append)
  next
    case 2
    then have "rank bm i < rank bm j" using assms by (simp add: rank_less)
    then obtain r where r: "rank bm j = Suc r" "rank bm i \<le> r" by (cases "rank bm j") auto
    with 2 le assms show ?thesis by (simp add: remove_at_def rank_clear nth_append)
  qed
qed

lemma hash_index_less: "hash_index h s < 32"
proof -
  have "drop_bit s h AND 31 = take_bit 5 (drop_bit s h)"
    by (simp add: take_bit_eq_mask mask_eq_exp_minus_1)
  then have "uint (drop_bit s h AND 31) < 2 ^ 5"
    using take_bit_int_less_exp [of 5 "uint (drop_bit s h)"] by (simp add: unsigned_take_bit_eq)
  then have "int (unat (drop_bit s h AND 31)) < 32" by simp
  then show ?thesis unfolding hash_index_def by linarith
qed

section \<open>Invariant\<close>

fun ents :: "('k, 'v) node \<Rightarrow> ('k, 'v) entry set" where
  "ents (Node bm es cs) = set es \<union> (\<Union>c \<in> set cs. ents c)"

text \<open>
  Every child holds only keys whose hash selects it, no key of a node is repeated below it, the
  bitmap counts the children, and there are no children past the last level.
\<close>

fun hinv :: "('k \<Rightarrow> u64) \<Rightarrow> nat \<Rightarrow> ('k, 'v) node \<Rightarrow> bool" where
  "hinv h s (Node bm es cs) \<longleftrightarrow>
     length cs = popcount bm \<and> distinct (map ekey es) \<and>
     (\<forall>i < 32. bit bm i \<longrightarrow> (\<forall>e \<in> ents (cs ! rank bm i).
        hash_index (h (ekey e)) s = i \<and> ekey e \<notin> ekey ` set es)) \<and>
     (\<forall>c \<in> set cs. hinv h (s + 5) c) \<and> (s \<ge> 64 \<longrightarrow> cs = [])"

lemma child_rank:
  assumes "length cs = popcount bm" "c \<in> set cs"
  obtains i where "i < 32" "bit bm i" "c = cs ! rank bm i"
proof -
  from assms(2) obtain n where "n < length cs" "c = cs ! n" by (auto simp: in_set_conv_nth)
  with assms(1) rank_surj [of n bm] that show ?thesis by auto
qed

lemma find_entry_Some:
  assumes "find_entry es k = Some i"
  shows "i < length es" "ekey (es ! i) = k" "k \<in> ekey ` set es"
proof -
  let ?P = "\<lambda>e. ekey e \<noteq> k"
  from assms have ex: "\<exists>e \<in> set es. ekey e = k" and i: "i = length (takeWhile ?P es)"
    by (auto simp: find_entry_def split: if_splits)
  then have "takeWhile ?P es \<noteq> es" by (auto simp: takeWhile_eq_all_conv)
  then show l: "i < length es"
    unfolding i by (metis length_takeWhile_le le_neq_implies_less takeWhile_eq_take take_all_iff order_refl)
  show "ekey (es ! i) = k" using nth_length_takeWhile [of ?P es] l by (simp add: i)
  from ex show "k \<in> ekey ` set es" by auto
qed

lemma find_entry_None: "find_entry es k = None \<longleftrightarrow> k \<notin> ekey ` set es"
  by (auto simp: find_entry_def)

lemma set_update_entry:
  assumes "distinct (map ekey es)" "i < length es" "ekey (es ! i) = k" "ekey x = k"
  shows "set (es[i := x]) = insert x {e \<in> set es. ekey e \<noteq> k}" "map ekey (es[i := x]) = map ekey es"
proof -
  have o: "ekey (es ! j) \<noteq> k" if "j < length es" "j \<noteq> i" for j
    using that assms(1-3) nth_eq_iff_index_eq [OF assms(1), of j i] by simp
  show "set (es[i := x]) = insert x {e \<in> set es. ekey e \<noteq> k}"
  proof (intro set_eqI iffI)
    fix e assume "e \<in> set (es[i := x])"
    then obtain j where "j < length es" "e = es[i := x] ! j" by (auto simp: in_set_conv_nth)
    then show "e \<in> insert x {e \<in> set es. ekey e \<noteq> k}" using o by (cases "j = i") auto
  next
    fix e assume "e \<in> insert x {e \<in> set es. ekey e \<noteq> k}"
    then consider "e = x" | j where "j < length es" "e = es ! j" "j \<noteq> i"
      using assms(3) by (auto simp: in_set_conv_nth)
    then show "e \<in> set (es[i := x])"
      by cases (use assms(2) in \<open>auto simp: in_set_conv_nth intro: exI [of _ i]\<close>)
  qed
  show "map ekey (es[i := x]) = map ekey es"
    using assms(2-4) by (simp add: map_update list_update_same_conv)
qed

lemma set_remove_entry:
  assumes "distinct (map ekey es)" "i < length es" "ekey (es ! i) = k"
  shows "set (remove_at i es) = {e \<in> set es. ekey e \<noteq> k}" "distinct (map ekey (remove_at i es))"
proof -
  have es: "es = take i es @ es ! i # drop (Suc i) es" by (rule id_take_nth_drop [OF assms(2)])
  have d: "distinct (map ekey (take i es @ es ! i # drop (Suc i) es))"
    using assms(1) es by metis
  then show "distinct (map ekey (remove_at i es))" by (auto simp: remove_at_def)
  have "set es = set (take i es) \<union> {es ! i} \<union> set (drop (Suc i) es)"
    by (subst es) simp
  with d assms(3) show "set (remove_at i es) = {e \<in> set es. ekey e \<noteq> k}"
    by (force simp: remove_at_def image_iff)
qed

lemma ents_child_key:
  assumes "hinv h s (Node bm es cs)" "c \<in> set cs" "e \<in> ents c"
  shows "ekey e \<notin> ekey ` set es" and "bit bm (hash_index (h (ekey e)) s)"
    and "c = cs ! rank bm (hash_index (h (ekey e)) s)"
proof -
  from assms(1) have l: "length cs = popcount bm" by simp
  obtain i where i: "i < 32" "bit bm i" "c = cs ! rank bm i" by (rule child_rank [OF l assms(2)])
  with assms have "hash_index (h (ekey e)) s = i \<and> ekey e \<notin> ekey ` set es" by auto
  with i show "ekey e \<notin> ekey ` set es" "bit bm (hash_index (h (ekey e)) s)"
    "c = cs ! rank bm (hash_index (h (ekey e)) s)" by auto
qed

lemma hinv_unique:
  "hinv h s n \<Longrightarrow> e1 \<in> ents n \<Longrightarrow> e2 \<in> ents n \<Longrightarrow> ekey e1 = ekey e2 \<Longrightarrow> e1 = e2"
proof (induction h s n rule: hinv.induct)
  case (1 h s bm es cs)
  note inv = "1.prems"(1)
  have own: "e1 = e2" if "e1 \<in> set es" "e2 \<in> set es"
    using that inv "1.prems"(4) by (auto simp: distinct_map inj_on_def)
  have below: "e1 = e2" if "c \<in> set cs" "e1 \<in> ents c" "d \<in> set cs" "e2 \<in> ents d" for c d
  proof -
    have "c = d" using ents_child_key(3) [OF inv that(1,2)] ents_child_key(3) [OF inv that(3,4)] "1.prems"(4)
      by simp
    with that "1.IH" [OF that(1)] inv "1.prems"(4) show ?thesis by simp
  qed
  from "1.prems"(2,3) own below show ?case
    using ents_child_key(1) [OF inv] "1.prems"(4) by (auto simp: image_iff) metis+
qed

lemma node_get_spec:
  "hinv h s n \<Longrightarrow> hash = h k \<Longrightarrow>
   \<exists>r. node_get n k hash s = Some r \<and> (\<forall>v. r = Some v \<longleftrightarrow> (\<exists>e \<in> ents n. ekey e = k \<and> evalue e = v))"
proof (induction n k hash s rule: node_get.induct)
  case (1 bm es cs k hash s)
  note inv = "1.prems"(1)
  let ?i = "hash_index hash s"
  show ?case
  proof (cases "find_entry es k")
    case (Some i)
    then have "es ! i \<in> ents (Node bm es cs)" "ekey (es ! i) = k"
      using find_entry_Some [OF Some] by auto
    with hinv_unique [OF inv] Some show ?thesis by auto
  next
    case None
    then have nk: "k \<notin> ekey ` set es" by (simp add: find_entry_None)
    show ?thesis
    proof (cases "bit bm ?i \<and> cs \<noteq> []")
      case False
      then have "\<nexists>e. e \<in> ents (Node bm es cs) \<and> ekey e = k"
        using nk ents_child_key(2) [OF inv] "1.prems"(2) by fastforce
      with False None show ?thesis by (auto simp: test_index_bit)
    next
      case True
      then have ci: "rank bm ?i < length cs"
        using inv by (simp add: rank_popcount hash_index_less)
      let ?c = "cs ! rank bm ?i"
      have "hinv h (s + 5) ?c" using inv ci by auto
      with "1.IH" [OF None _ refl _ refl] True ci "1.prems"(2) obtain r
        where r: "node_get ?c k hash (s + 5) = Some r"
          "\<forall>v. r = Some v \<longleftrightarrow> (\<exists>e \<in> ents ?c. ekey e = k \<and> evalue e = v)"
        by (auto simp: test_index_bit rank_def)
      have "{e \<in> ents (Node bm es cs). ekey e = k} = {e \<in> ents ?c. ekey e = k}"
        using nk ents_child_key(3) [OF inv] "1.prems"(2) ci by fastforce
      then have "(\<exists>e \<in> ents (Node bm es cs). ekey e = k \<and> evalue e = v) \<longleftrightarrow>
          (\<exists>e \<in> ents ?c. ekey e = k \<and> evalue e = v)" for v by blast
      with r None True ci show ?thesis by (simp add: test_index_bit Let_def flip: rank_def)
    qed
  qed
qed

section \<open>Insertion\<close>

lemma hinv_length: "hinv h s (Node bm es cs) \<Longrightarrow> length cs = popcount bm"
  by simp

lemma ents_iff:
  assumes l: "length cs = popcount bm"
  shows "e \<in> ents (Node bm es cs) \<longleftrightarrow> e \<in> set es \<or> (\<exists>i < 32. bit bm i \<and> e \<in> ents (cs ! rank bm i))"
proof -
  have "(\<exists>c \<in> set cs. e \<in> ents c) \<longleftrightarrow> (\<exists>i < 32. bit bm i \<and> e \<in> ents (cs ! rank bm i))"
  proof
    assume "\<exists>c \<in> set cs. e \<in> ents c"
    then obtain c where c: "c \<in> set cs" "e \<in> ents c" by blast
    obtain i where "i < 32" "bit bm i" "c = cs ! rank bm i" by (rule child_rank [OF l c(1)])
    with c(2) show "\<exists>i < 32. bit bm i \<and> e \<in> ents (cs ! rank bm i)" by blast
  next
    assume "\<exists>i < 32. bit bm i \<and> e \<in> ents (cs ! rank bm i)"
    then show "\<exists>c \<in> set cs. e \<in> ents c" using l rank_popcount nth_mem by metis
  qed
  then show ?thesis by simp
qed

lemma hinvI:
  assumes l: "length cs = popcount bm" and "distinct (map ekey es)" "s \<ge> 64 \<longrightarrow> cs = []"
    and kid: "\<And>i. i < 32 \<Longrightarrow> bit bm i \<Longrightarrow> hinv h (s + 5) (cs ! rank bm i) \<and>
      (\<forall>e \<in> ents (cs ! rank bm i). hash_index (h (ekey e)) s = i \<and> ekey e \<notin> ekey ` set es)"
  shows "hinv h s (Node bm es cs)"
proof -
  have "hinv h (s + 5) c" if "c \<in> set cs" for c
    by (rule child_rank [OF l that]) (use kid in blast)
  with assms show ?thesis by simp
qed

lemma hinvD:
  assumes "hinv h s (Node bm es cs)" "i < 32" "bit bm i"
  shows "hinv h (s + 5) (cs ! rank bm i)" "cs ! rank bm i \<in> set cs" "rank bm i < length cs"
    "e \<in> ents (cs ! rank bm i) \<Longrightarrow> hash_index (h (ekey e)) s = i \<and> ekey e \<notin> ekey ` set es"
proof -
  show r: "rank bm i < length cs" using hinv_length [OF assms(1)] rank_popcount [OF assms(2,3)] by simp
  then show "cs ! rank bm i \<in> set cs" by simp
  then show "hinv h (s + 5) (cs ! rank bm i)" using assms(1) by simp
  show "hash_index (h (ekey e)) s = i \<and> ekey e \<notin> ekey ` set es" if "e \<in> ents (cs ! rank bm i)"
    using assms that by simp
qed

text \<open>Every operation on the child selected by a hash index changes one child only.\<close>

lemma hinv_children:
  assumes inv: "hinv h s (Node bm es cs)" and i: "i < 32" and s: "s < 64"
    and len: "length cs' = popcount bm'"
    and kids: "\<And>j. j < 32 \<Longrightarrow> j \<noteq> i \<Longrightarrow> bit bm' j = bit bm j"
      "\<And>j. j < 32 \<Longrightarrow> j \<noteq> i \<Longrightarrow> bit bm j \<Longrightarrow> cs' ! rank bm' j = cs ! rank bm j"
    and new: "bit bm' i \<Longrightarrow> hinv h (s + 5) (cs' ! rank bm' i) \<and> ents (cs' ! rank bm' i) = E"
      "\<not> bit bm' i \<Longrightarrow> E = {}"
    and E: "\<And>e. e \<in> E \<Longrightarrow> hash_index (h (ekey e)) s = i \<and> ekey e \<notin> ekey ` set es"
  shows "hinv h s (Node bm' es cs')"
    and "e \<in> ents (Node bm' es cs') \<longleftrightarrow>
      e \<in> set es \<or> e \<in> E \<or> (hash_index (h (ekey e)) s \<noteq> i \<and> e \<in> ents (Node bm es cs))"
proof -
  show "hinv h s (Node bm' es cs')"
  proof (rule hinvI [OF len])
    show "distinct (map ekey es)" using inv by simp
    show "s \<ge> 64 \<longrightarrow> cs' = []" using s by simp
    show "hinv h (s + 5) (cs' ! rank bm' j) \<and> (\<forall>e \<in> ents (cs' ! rank bm' j).
        hash_index (h (ekey e)) s = j \<and> ekey e \<notin> ekey ` set es)" if "j < 32" "bit bm' j" for j
    proof (cases "j = i")
      case True
      with that new(1) E show ?thesis by blast
    next
      case False
      with that kids have "bit bm j" "cs' ! rank bm' j = cs ! rank bm j" by auto
      with hinvD [OF inv that(1)] show ?thesis by metis
    qed
  qed
  have "(\<exists>j < 32. bit bm' j \<and> e \<in> ents (cs' ! rank bm' j)) \<longleftrightarrow>
      e \<in> E \<or> (\<exists>j < 32. j \<noteq> i \<and> bit bm j \<and> e \<in> ents (cs ! rank bm j))"
    using i kids new by (metis empty_iff)
  moreover have "(hash_index (h (ekey e)) s \<noteq> i \<and> e \<in> ents (cs ! rank bm j)) \<longleftrightarrow>
      (j \<noteq> i \<and> e \<in> ents (cs ! rank bm j))" if "j < 32" "bit bm j" for j
    using hinvD(4) [OF inv that] by blast
  ultimately show "e \<in> ents (Node bm' es cs') \<longleftrightarrow>
      e \<in> set es \<or> e \<in> E \<or> (hash_index (h (ekey e)) s \<noteq> i \<and> e \<in> ents (Node bm es cs))"
    unfolding ents_iff [OF len] ents_iff [OF hinv_length [OF inv]] by blast
qed

lemma ents_split:
  assumes inv: "hinv h s (Node bm es cs)" and i: "i < 32" and k: "hash_index (h k) s = i" "k \<notin> ekey ` set es"
  shows "k \<in> ekey ` ents (Node bm es cs) \<longleftrightarrow> bit bm i \<and> k \<in> ekey ` ents (cs ! rank bm i)"
    and "e \<in> ents (Node bm es cs) \<longleftrightarrow> e \<in> set es \<or> (bit bm i \<and> e \<in> ents (cs ! rank bm i)) \<or>
      (hash_index (h (ekey e)) s \<noteq> i \<and> e \<in> ents (Node bm es cs))"
proof -
  have *: "e \<in> ents (Node bm es cs) \<longleftrightarrow> e \<in> set es \<or> (bit bm i \<and> e \<in> ents (cs ! rank bm i)) \<or>
      (hash_index (h (ekey e)) s \<noteq> i \<and> e \<in> ents (Node bm es cs))" for e
    unfolding ents_iff [OF hinv_length [OF inv]] using hinvD(4) [OF inv] i by metis
  then show "e \<in> ents (Node bm es cs) \<longleftrightarrow> e \<in> set es \<or> (bit bm i \<and> e \<in> ents (cs ! rank bm i)) \<or>
      (hash_index (h (ekey e)) s \<noteq> i \<and> e \<in> ents (Node bm es cs))" by blast
  have own: "ekey e \<noteq> k" if "e \<in> set es" for e using k(2) that by auto
  show "k \<in> ekey ` ents (Node bm es cs) \<longleftrightarrow> bit bm i \<and> k \<in> ekey ` ents (cs ! rank bm i)"
  proof
    assume "k \<in> ekey ` ents (Node bm es cs)"
    then obtain e where e: "k = ekey e" "e \<in> ents (Node bm es cs)" by blast
    with * [of e] own [of e] k(1) show "bit bm i \<and> k \<in> ekey ` ents (cs ! rank bm i)" by blast
  next
    assume "bit bm i \<and> k \<in> ekey ` ents (cs ! rank bm i)"
    with * show "k \<in> ekey ` ents (Node bm es cs)" by blast
  qed
qed

lemma hinv_entries:
  assumes inv: "hinv h s (Node bm es cs)" and "distinct (map ekey es')"
    and sub: "ekey ` set es' \<subseteq> ekey ` set es"
  shows "hinv h s (Node bm es' cs)"
proof (rule hinvI [OF hinv_length [OF inv] assms(2)])
  show "s \<ge> 64 \<longrightarrow> cs = []" using inv by simp
  show "hinv h (s + 5) (cs ! rank bm i) \<and> (\<forall>e \<in> ents (cs ! rank bm i).
      hash_index (h (ekey e)) s = i \<and> ekey e \<notin> ekey ` set es')" if "i < 32" "bit bm i" for i
    using hinvD [OF inv that] sub by blast
qed

lemma entry_key_child:
  "hinv h s (Node bm es cs) \<Longrightarrow> k \<in> ekey ` set es \<Longrightarrow> c \<in> set cs \<Longrightarrow> e \<in> ents c \<Longrightarrow> ekey e \<noteq> k"
  using ents_child_key(1) [of h s bm es cs c e] by blast

lemma update_entry_spec:
  assumes inv: "hinv h s (Node bm es cs)" and f: "find_entry es k = Some i" and x: "ekey x = k"
  shows "hinv h s (Node bm (es[i := x]) cs)"
    and "ents (Node bm (es[i := x]) cs) = insert x {e \<in> ents (Node bm es cs). ekey e \<noteq> k}"
    and "k \<in> ekey ` ents (Node bm es cs)"
proof -
  note f = find_entry_Some [OF f]
  have d: "distinct (map ekey es)" using inv by simp
  note u = set_update_entry [OF d f(1,2) x]
  have "ekey ` set (es[i := x]) = ekey ` set es" by (metis u(2) list.set_map)
  then show "hinv h s (Node bm (es[i := x]) cs)"
    using u(2) d by (intro hinv_entries [OF inv]) simp_all
  show "ents (Node bm (es[i := x]) cs) = insert x {e \<in> ents (Node bm es cs). ekey e \<noteq> k}"
    unfolding ents.simps u(1) using entry_key_child [OF inv f(3)] by blast
  show "k \<in> ekey ` ents (Node bm es cs)" using f(3) by auto
qed

lemma setEntry_spec:
  assumes inv: "hinv h s (Node bm es [])" and x: "x = \<lparr>ekey = k, evalue = v, ehash = hash\<rparr>"
  shows "\<exists>n'. setEntry (Node bm es []) k v hash = (n', k \<notin> ekey ` ents (Node bm es [])) \<and> hinv h s n' \<and>
    ents n' = insert x {e \<in> ents (Node bm es []). ekey e \<noteq> k}"
proof (cases "find_entry es k")
  case None
  then have k: "k \<notin> ekey ` set es" by (simp add: find_entry_None)
  then have "{e \<in> set es. ekey e \<noteq> k} = set es" by auto
  moreover have "hinv h s (Node bm (es @ [x]) [])"
  proof (rule hinvI)
    show "length [] = popcount bm" "distinct (map ekey (es @ [x]))" using inv k by (auto simp: x)
    then show "hinv h (s + 5) ([] ! rank bm i) \<and> (\<forall>e \<in> ents ([] ! rank bm i).
        hash_index (h (ekey e)) s = i \<and> ekey e \<notin> ekey ` set (es @ [x]))" if "i < 32" "bit bm i" for i
      using rank_popcount [OF that] by simp
  qed simp
  ultimately show ?thesis using None k by (auto simp: setEntry_def x simp del: hinv.simps)
next
  case (Some i)
  have "ekey x = k" by (simp add: x)
  with update_entry_spec [OF inv Some, of x] Some show ?thesis by (simp add: setEntry_def flip: x)
qed

lemma update_child_kids:
  assumes "length cs = popcount bm" "i < 32" "bit bm i" "j < 32" "bit bm j"
  shows "cs[rank bm i := c'] ! rank bm j = (if j = i then c' else cs ! rank bm j)"
proof -
  have "rank bm i < length cs" "rank bm j < length cs" using assms by (simp_all add: rank_popcount)
  moreover have "rank bm i \<noteq> rank bm j" if "j \<noteq> i" using that assms rank_inj [of i j bm] by blast
  ultimately show ?thesis by (cases "j = i") simp_all
qed

lemma update_child_spec:
  assumes inv: "hinv h s (Node bm es cs)" and i: "i < 32" "bit bm i" and s: "s < 64"
    and c: "hinv h (s + 5) c'"
    and E: "\<And>e. e \<in> ents c' \<Longrightarrow> hash_index (h (ekey e)) s = i \<and> ekey e \<notin> ekey ` set es"
  shows "hinv h s (Node bm es (cs[rank bm i := c']))"
    and "e \<in> ents (Node bm es (cs[rank bm i := c'])) \<longleftrightarrow>
      e \<in> set es \<or> e \<in> ents c' \<or> (hash_index (h (ekey e)) s \<noteq> i \<and> e \<in> ents (Node bm es cs))"
proof -
  note l = hinv_length [OF inv]
  note k = update_child_kids [OF l i, where c' = c']
  have "length (cs[rank bm i := c']) = popcount bm" using l by simp
  note * = hinv_children [OF inv i(1) s this, of "ents c'"]
  show "hinv h s (Node bm es (cs[rank bm i := c']))" by (rule *(1)) (use k i c E in auto)
  show "e \<in> ents (Node bm es (cs[rank bm i := c'])) \<longleftrightarrow>
      e \<in> set es \<or> e \<in> ents c' \<or> (hash_index (h (ekey e)) s \<noteq> i \<and> e \<in> ents (Node bm es cs))"
    by (rule *(2)) (use k i c E in auto)
qed

lemma insert_child_spec:
  assumes inv: "hinv h s (Node bm es cs)" and i: "i < 32" "\<not> bit bm i" and s: "s < 64"
    and c: "hinv h (s + 5) c'"
    and E: "\<And>e. e \<in> ents c' \<Longrightarrow> hash_index (h (ekey e)) s = i \<and> ekey e \<notin> ekey ` set es"
  shows "hinv h s (Node (bm OR index_bit i) es (insertChild cs (rank bm i) c'))"
    and "e \<in> ents (Node (bm OR index_bit i) es (insertChild cs (rank bm i) c')) \<longleftrightarrow>
      e \<in> set es \<or> e \<in> ents c' \<or> (hash_index (h (ekey e)) s \<noteq> i \<and> e \<in> ents (Node bm es cs))"
proof -
  note l = hinv_length [OF inv]
  have k: "insertChild cs (rank bm i) c' ! rank (bm OR index_bit i) j = (if j = i then c' else cs ! rank bm j)"
    if "j < 32" "bit bm j \<or> j = i" for j
    by (rule insertChild_rank [OF i that l])
  note b = bit_set_index [OF i(1), of bm]
  have "length (insertChild cs (rank bm i) c') = popcount (bm OR index_bit i)"
    using l i by (simp add: insertChild_def popcount_set)
  note * = hinv_children [OF inv i(1) s this, of "ents c'"]
  show "hinv h s (Node (bm OR index_bit i) es (insertChild cs (rank bm i) c'))"
    by (rule *(1)) (use k i c E b in auto)
  show "e \<in> ents (Node (bm OR index_bit i) es (insertChild cs (rank bm i) c')) \<longleftrightarrow>
      e \<in> set es \<or> e \<in> ents c' \<or> (hash_index (h (ekey e)) s \<noteq> i \<and> e \<in> ents (Node bm es cs))"
    by (rule *(2)) (use k i c E b in auto)
qed

lemma remove_child_spec:
  assumes inv: "hinv h s (Node bm es cs)" and i: "i < 32" "bit bm i" and s: "s < 64"
  shows "hinv h s (Node (bm AND NOT (index_bit i)) es (remove_at (rank bm i) cs))"
    and "e \<in> ents (Node (bm AND NOT (index_bit i)) es (remove_at (rank bm i) cs)) \<longleftrightarrow>
      e \<in> set es \<or> (hash_index (h (ekey e)) s \<noteq> i \<and> e \<in> ents (Node bm es cs))"
proof -
  note l = hinv_length [OF inv]
  have k: "remove_at (rank bm i) cs ! rank (bm AND NOT (index_bit i)) j = cs ! rank bm j"
    if "j < 32" "bit bm j" "j \<noteq> i" for j
    by (rule remove_at_rank [OF i that l])
  note b = bit_clear_index [of bm i]
  have "length (remove_at (rank bm i) cs) = popcount (bm AND NOT (index_bit i))"
    using l i hinvD(3) [OF inv i] by (simp add: remove_at_def popcount_clear)
  note * = hinv_children [OF inv i(1) s this, of "{}"]
  show "hinv h s (Node (bm AND NOT (index_bit i)) es (remove_at (rank bm i) cs))"
    by (rule *(1)) (use k b in auto)
  have "e \<in> ents (Node (bm AND NOT (index_bit i)) es (remove_at (rank bm i) cs)) \<longleftrightarrow>
      e \<in> set es \<or> e \<in> {} \<or> (hash_index (h (ekey e)) s \<noteq> i \<and> e \<in> ents (Node bm es cs))"
    by (rule *(2)) (use k b in auto)
  then show "e \<in> ents (Node (bm AND NOT (index_bit i)) es (remove_at (rank bm i) cs)) \<longleftrightarrow>
      e \<in> set es \<or> (hash_index (h (ekey e)) s \<noteq> i \<and> e \<in> ents (Node bm es cs))" by simp
qed

lemma set_child_ents:
  assumes inv: "hinv h s (Node bm es cs)" and i: "i < 32" and k: "hash_index (h k) s = i" "k \<notin> ekey ` set es"
    and new: "\<And>e. e \<in> A \<longleftrightarrow> e \<in> set es \<or> e = x \<or> (bit bm i \<and> e \<in> ents (cs ! rank bm i) \<and> ekey e \<noteq> k) \<or>
      (hash_index (h (ekey e)) s \<noteq> i \<and> e \<in> ents (Node bm es cs))"
  shows "A = insert x {e \<in> ents (Node bm es cs). ekey e \<noteq> k}"
proof (rule set_eqI)
  fix e
  have "e \<in> set es \<Longrightarrow> ekey e \<noteq> k" using k(2) by blast
  with new [of e] ents_split(2) [OF inv i k, of e] k(1)
  show "e \<in> A \<longleftrightarrow> e \<in> insert x {e \<in> ents (Node bm es cs). ekey e \<noteq> k}" by blast
qed

lemma node_set_spec:
  "hinv h s n \<Longrightarrow> hash = h k \<Longrightarrow>
   \<exists>n'. node_set n k v hash s = Some (n', k \<notin> ekey ` ents n) \<and> hinv h s n' \<and>
     ents n' = insert \<lparr>ekey = k, evalue = v, ehash = hash\<rparr> {e \<in> ents n. ekey e \<noteq> k}"
proof (induction n k v hash s rule: node_set.induct)
  case (1 bm es cs k v hash s)
  note inv = "1.prems"(1)
  let ?i = "hash_index hash s" and ?x = "\<lparr>ekey = k, evalue = v, ehash = hash\<rparr>"
  consider "s \<ge> 64" | i where "s < 64" "find_entry es k = Some i" | "s < 64" "find_entry es k = None" "\<not> bit bm ?i"
    | "s < 64" "find_entry es k = None" "bit bm ?i" by fastforce
  then show ?case
  proof cases
    case 1
    then have "cs = []" using inv by simp
    with setEntry_spec [of h s bm es] inv 1 show ?thesis by simp
  next
    case (2 i)
    with update_entry_spec [OF inv 2(2), of ?x] show ?thesis by (auto simp del: hinv.simps ents.simps)
  next
    case 3
    let ?c = "Node 0 [?x] []"
    have nk: "k \<notin> ekey ` set es" using 3 by (simp add: find_entry_None)
    have i: "hash_index (h k) s = ?i" "?i < 32" using "1.prems"(2) by (simp_all add: hash_index_less)
    have c: "hinv h (s + 5) ?c" by (simp add: popcount_def)
    have ek: "hash_index (h (ekey e)) s = ?i \<and> ekey e \<notin> ekey ` set es" if "e \<in> ents ?c" for e
      using that i nk by simp
    note r = insert_child_spec [OF inv i(2) 3(3,1) c ek]
    note old = ents_split [OF inv i(2,1) nk]
    have ec: "ents ?c = {?x}" by simp
    have "ents (Node (bm OR index_bit ?i) es (insertChild cs (rank bm ?i) ?c)) =
        insert ?x {e \<in> ents (Node bm es cs). ekey e \<noteq> k}"
      by (rule set_child_ents [OF inv i(2,1) nk]) (use r(2) [unfolded ec] 3(3) in blast)
    with r(1) old(1) 3 show ?thesis by (simp add: test_index_bit Let_def del: ents.simps hinv.simps flip: rank_def)
  next
    case 4
    let ?c = "cs ! rank bm ?i"
    have nk: "k \<notin> ekey ` set es" using 4 by (simp add: find_entry_None)
    have i: "hash_index (h k) s = ?i" "?i < 32" using "1.prems"(2) by (simp_all add: hash_index_less)
    note D = hinvD [OF inv i(2) 4(3)]
    have pre: "\<not> 64 \<le> s" "bm AND index_bit ?i \<noteq> 0" "child_index bm (index_bit ?i) < length cs"
      using 4 D(3) by (simp_all add: test_index_bit rank_def)
    from "1.IH" [OF pre(1) 4(2) refl pre(2) refl pre(3)] D(1) "1.prems"(2) obtain c' a
      where r: "node_set ?c k v hash (s + 5) = Some (c', a)" "hinv h (s + 5) c'"
        "ents c' = insert ?x {e \<in> ents ?c. ekey e \<noteq> k}" "a = (k \<notin> ekey ` ents ?c)"
      by (auto simp: rank_def)
    have ek: "hash_index (h (ekey e)) s = ?i \<and> ekey e \<notin> ekey ` set es" if "e \<in> ents c'" for e
      using that r(3) i nk D(4) by auto
    note u = update_child_spec [OF inv i(2) 4(3,1) r(2) ek]
    note old = ents_split [OF inv i(2,1) nk]
    have "ents (Node bm es (cs[rank bm ?i := c'])) = insert ?x {e \<in> ents (Node bm es cs). ekey e \<noteq> k}"
      by (rule set_child_ents [OF inv i(2,1) nk]) (use u(2) [unfolded r(3)] 4(3) in blast)
    with u(1) old(1) 4 r(1,4) pre show ?thesis by (simp add: Let_def del: ents.simps hinv.simps flip: rank_def)
  qed
qed

section \<open>Deletion\<close>

lemma remove_entry_spec:
  assumes inv: "hinv h s (Node bm es cs)" and f: "find_entry es k = Some i"
  shows "hinv h s (Node bm (remove_at i es) cs)"
    and "ents (Node bm (remove_at i es) cs) = {e \<in> ents (Node bm es cs). ekey e \<noteq> k}"
    and "k \<in> ekey ` ents (Node bm es cs)"
proof -
  note f = find_entry_Some [OF f]
  have d: "distinct (map ekey es)" using inv by simp
  note u = set_remove_entry [OF d f(1,2)]
  show "hinv h s (Node bm (remove_at i es) cs)"
    by (rule hinv_entries [OF inv u(2)]) (use u(1) in auto)
  show "ents (Node bm (remove_at i es) cs) = {e \<in> ents (Node bm es cs). ekey e \<noteq> k}"
    unfolding ents.simps u(1) using entry_key_child [OF inv f(3)] by blast
  show "k \<in> ekey ` ents (Node bm es cs)" using f(3) by auto
qed

lemma isEmpty_ents: "isEmpty n \<Longrightarrow> ents n = {}"
  by (cases n) (simp add: isEmpty_def)

lemma child_present_level: "hinv h s (Node bm es cs) \<Longrightarrow> i < 32 \<Longrightarrow> bit bm i \<Longrightarrow> s < 64 \<and> cs \<noteq> []"
  using hinvD(3) [of h s bm es cs i] by fastforce

lemma remove_key_absent: "k \<notin> ekey ` A \<Longrightarrow> {e \<in> A. ekey e \<noteq> k} = A"
  by auto

lemma delete_child_ents:
  assumes inv: "hinv h s (Node bm es cs)" and i: "i < 32" "bit bm i" and k: "hash_index (h k) s = i" "k \<notin> ekey ` set es"
    and new: "\<And>e. e \<in> A \<longleftrightarrow> e \<in> set es \<or> (e \<in> ents (cs ! rank bm i) \<and> ekey e \<noteq> k) \<or>
      (hash_index (h (ekey e)) s \<noteq> i \<and> e \<in> ents (Node bm es cs))"
  shows "A = {e \<in> ents (Node bm es cs). ekey e \<noteq> k}"
proof (rule set_eqI)
  fix e
  have "e \<in> set es \<Longrightarrow> ekey e \<noteq> k" using k(2) by blast
  with new [of e] ents_split(2) [OF inv i(1) k, of e] i(2) k(1)
  show "e \<in> A \<longleftrightarrow> e \<in> {e \<in> ents (Node bm es cs). ekey e \<noteq> k}" by blast
qed

lemma node_delete_spec:
  "hinv h s n \<Longrightarrow> hash = h k \<Longrightarrow>
   \<exists>n'. node_delete n k hash s = Some (n', k \<in> ekey ` ents n) \<and> hinv h s n' \<and>
     ents n' = {e \<in> ents n. ekey e \<noteq> k}"
proof (induction n k hash s rule: node_delete.induct)
  case (1 bm es cs k hash s)
  note inv = "1.prems"(1)
  let ?i = "hash_index hash s" and ?n = "Node bm es cs"
  let ?c = "cs ! rank bm ?i"
  have i: "hash_index (h k) s = ?i" "?i < 32" using "1.prems"(2) by (simp_all add: hash_index_less)
  consider i where "find_entry es k = Some i" | "find_entry es k = None" "\<not> bit bm ?i"
    | "find_entry es k = None" "bit bm ?i" by fastforce
  then show ?case
  proof cases
    case (1 i)
    with remove_entry_spec [OF inv 1] show ?thesis by (auto simp del: hinv.simps ents.simps)
  next
    case 2
    have nk: "k \<notin> ekey ` set es" using 2 by (simp add: find_entry_None)
    have "k \<notin> ekey ` ents ?n" using ents_split(1) [OF inv i(2,1) nk] 2 by blast
    with remove_key_absent [OF this] 2 inv show ?thesis
      by (cases "cs = []") (simp_all add: test_index_bit Let_def del: hinv.simps ents.simps)
  next
    case 3
    have nk: "k \<notin> ekey ` set es" using 3 by (simp add: find_entry_None)
    note D = hinvD [OF inv i(2) 3(2)]
    have s: "s < 64" and pre: "length cs \<noteq> 0" "bm AND index_bit ?i \<noteq> 0" "child_index bm (index_bit ?i) < length cs"
      using 3 D(3) child_present_level [OF inv i(2) 3(2)] by (simp_all add: test_index_bit rank_def)
    from "1.IH" [OF 3(1) pre(1) refl pre(2) refl pre(3)] D(1) "1.prems"(2) obtain c' d
      where r: "node_delete ?c k hash (s + 5) = Some (c', d)" "hinv h (s + 5) c'"
        "ents c' = {e \<in> ents ?c. ekey e \<noteq> k}" "d = (k \<in> ekey ` ents ?c)"
      by (auto simp: rank_def)
    have dk: "d = (k \<in> ekey ` ents ?n)" using ents_split(1) [OF inv i(2,1) nk] 3 r(4) by simp
    note step = pre r(1) 3(1) and del = delete_child_ents [OF inv i(2) 3(2) i(1) nk]
    consider "\<not> d" | "d" "isEmpty c'" | "d" "\<not> isEmpty c'" by blast
    then show ?thesis
    proof cases
      case 1
      with remove_key_absent [of k "ents ?n"] dk inv step show ?thesis
        by (simp add: Let_def del: hinv.simps ents.simps flip: rank_def)
    next
      case 2
      have e: "{e \<in> ents ?c. ekey e \<noteq> k} = {}" using isEmpty_ents [OF 2(2)] r(3) by simp
      note u = remove_child_spec [OF inv i(2) 3(2) s]
      have "ents (Node (bm AND NOT (index_bit ?i)) es (remove_at (rank bm ?i) cs)) = {e \<in> ents ?n. ekey e \<noteq> k}"
        by (rule del) (use u(2) e in blast)
      with u(1) 2 dk step show ?thesis by (simp add: Let_def del: hinv.simps ents.simps flip: rank_def)
    next
      case 3
      have ek: "hash_index (h (ekey e)) s = ?i \<and> ekey e \<notin> ekey ` set es" if "e \<in> ents c'" for e
        using that r(3) D(4) by auto
      note u = update_child_spec [OF inv i(2) \<open>bit bm ?i\<close> s r(2) ek]
      have "ents (Node bm es (cs[rank bm ?i := c'])) = {e \<in> ents ?n. ekey e \<noteq> k}"
        by (rule del) (use u(2) r(3) in auto)
      with u(1) 3 dk step show ?thesis by (simp add: Let_def del: hinv.simps ents.simps flip: rank_def)
    qed
  qed
qed

section \<open>Iteration\<close>

fun elist :: "('k, 'v) node \<Rightarrow> ('k, 'v) entry list" where
  "elist (Node bm es cs) = es @ concat (map elist cs)"

lemma set_elist: "set (elist n) = ents n"
  by (induction n rule: elist.induct) auto

lemma iterate_entries_append:
  "iterate_entries fn (xs @ ys) s =
     (case iterate_entries fn xs s of (s, go) \<Rightarrow> if go then iterate_entries fn ys s else (s, False))"
  by (induction xs arbitrary: s) (auto split: prod.splits)

lemma iterate_elist:
  "iterate fn n s = iterate_entries fn (elist n) s"
  "iterate_children fn cs s = iterate_entries fn (concat (map elist cs)) s"
  by (induction fn n s and fn cs s rule: iterate_iterate_children.induct)
    (auto simp: iterate_entries_append split: prod.splits)

lemma iterate_entries_fold:
  "iterate_entries (\<lambda>s k v. (f k v s, True)) es s = (fold (\<lambda>e. f (ekey e) (evalue e)) es s, True)"
  by (induction es arbitrary: s) auto

lemma distinct_concat_nth:
  assumes "\<And>x. x \<in> set xs \<Longrightarrow> distinct (f x)"
    and "\<And>m n. m < n \<Longrightarrow> n < length xs \<Longrightarrow> set (f (xs ! m)) \<inter> set (f (xs ! n)) = {}"
  shows "distinct (concat (map f xs))"
  using assms
proof (induction xs)
  case (Cons x xs)
  have "distinct (concat (map f xs))"
  proof (rule Cons.IH)
    show "set (f (xs ! m)) \<inter> set (f (xs ! n)) = {}" if "m < n" "n < length xs" for m n
      using Cons.prems(2) [of "Suc m" "Suc n"] that by simp
  qed (use Cons.prems(1) in simp)
  moreover have "set (f x) \<inter> set (f y) = {}" if y: "y \<in> set xs" for y
  proof -
    from y obtain n where "n < length xs" "y = xs ! n" by (auto simp: in_set_conv_nth)
    then show ?thesis using Cons.prems(2) [of 0 "Suc n"] by simp
  qed
  ultimately show ?case using Cons.prems(1) by auto
qed simp

lemma hinv_distinct: "hinv h s n \<Longrightarrow> distinct (map ekey (elist n))"
proof (induction h s n rule: hinv.induct)
  case (1 h s bm es cs)
  note inv = "1.prems" and l = hinv_length [OF "1.prems"]
  have below: "distinct (map ekey (elist c))" if "c \<in> set cs" for c
    using "1.IH" [OF that] inv that by simp
  have sep: "set (map ekey (elist (cs ! m))) \<inter> set (map ekey (elist (cs ! n))) = {}"
    if "m < n" "n < length cs" for m n
  proof -
    from rank_surj [of m bm] rank_surj [of n bm] that l obtain i j
      where ij: "i < 32" "bit bm i" "rank bm i = m" "j < 32" "bit bm j" "rank bm j = n" by auto
    with that have "i \<noteq> j" by auto
    with hinvD(4) [OF inv ij(1,2)] hinvD(4) [OF inv ij(4,5)] ij show ?thesis by (force simp: set_elist)
  qed
  have "distinct (concat (map (\<lambda>c. map ekey (elist c)) cs))"
    by (rule distinct_concat_nth) (use below sep in auto)
  moreover have "set (map ekey es) \<inter> set (concat (map (\<lambda>c. map ekey (elist c)) cs)) = {}"
  proof (rule ccontr)
    assume "\<not> ?thesis"
    then obtain c e d where "c \<in> set cs" "e \<in> ents c" "d \<in> set es" "ekey d = ekey e"
      by (auto simp: set_elist)
    then show False using ents_child_key(1) [OF inv, of c e] by (metis image_eqI)
  qed
  moreover have "distinct (map ekey es)" using inv by simp
  ultimately have "distinct (map ekey es @ concat (map (\<lambda>c. map ekey (elist c)) cs))"
    unfolding distinct_append by blast
  then show ?case by (simp only: elist.simps map_append map_concat map_map comp_def)
qed

section \<open>The map interface\<close>

text \<open>
  What a client of a persistent map relies on: after any sequence of updates the lookups and the
  size are those of a finite map.
\<close>

datatype ('k, 'v) map_op = MSet 'k 'v | MDelete 'k

fun spec_op :: "('k, 'v) map_op \<Rightarrow> ('k \<rightharpoonup> 'v) \<Rightarrow> ('k \<rightharpoonup> 'v)" where
  "spec_op (MSet k v) f = f(k \<mapsto> v)"
| "spec_op (MDelete k) f = f(k := None)"

fun run_ops ::
  "('m \<Rightarrow> 'k \<Rightarrow> 'v \<Rightarrow> 'm option) \<Rightarrow> ('m \<Rightarrow> 'k \<Rightarrow> 'm option) \<Rightarrow> ('k, 'v) map_op list \<Rightarrow> 'm \<Rightarrow> 'm option" where
  "run_ops st dl [] m = Some m"
| "run_ops st dl (MSet k v # ops) m = (case st m k v of None \<Rightarrow> None | Some m \<Rightarrow> run_ops st dl ops m)"
| "run_ops st dl (MDelete k # ops) m = (case dl m k of None \<Rightarrow> None | Some m \<Rightarrow> run_ops st dl ops m)"

locale persistent_map =
  fixes mempty :: 'm and mset :: "'m \<Rightarrow> 'k \<Rightarrow> 'v \<Rightarrow> 'm option" and mdelete :: "'m \<Rightarrow> 'k \<Rightarrow> 'm option"
    and mget :: "'m \<Rightarrow> 'k \<Rightarrow> 'v option option" and msize :: "'m \<Rightarrow> int"
    and invar :: "'m \<Rightarrow> bool" and \<alpha> :: "'m \<Rightarrow> 'k \<rightharpoonup> 'v"
  assumes empty_law: "invar mempty" "\<alpha> mempty = Map.empty"
    and get_law: "invar m \<Longrightarrow> mget m k = Some (\<alpha> m k)"
    and set_law: "invar m \<Longrightarrow> \<exists>m'. mset m k v = Some m' \<and> invar m' \<and> \<alpha> m' = (\<alpha> m)(k \<mapsto> v)"
    and delete_law: "invar m \<Longrightarrow> \<exists>m'. mdelete m k = Some m' \<and> invar m' \<and> \<alpha> m' = (\<alpha> m)(k := None)"
    and size_law: "invar m \<Longrightarrow> finite (dom (\<alpha> m)) \<and> msize m = int (card (dom (\<alpha> m)))"
begin

lemma run_ops_spec:
  "invar m \<Longrightarrow> \<exists>m'. run_ops mset mdelete ops m = Some m' \<and> invar m' \<and> \<alpha> m' = fold spec_op ops (\<alpha> m)"
proof (induction ops arbitrary: m)
  case (Cons x ops)
  show ?case
  proof (cases x)
    case (MSet k v)
    with Cons.IH set_law [OF Cons.prems, of k v] show ?thesis by fastforce
  next
    case (MDelete k)
    with Cons.IH delete_law [OF Cons.prems, of k] show ?thesis by fastforce
  qed
qed simp

lemma run_ops_get_size:
  "\<exists>m'. run_ops mset mdelete ops mempty = Some m' \<and> (\<forall>k. mget m' k = Some (fold spec_op ops Map.empty k)) \<and>
     msize m' = int (card (dom (fold spec_op ops Map.empty)))"
  using run_ops_spec [OF empty_law(1), of ops] empty_law(2) get_law size_law by metis

lemma insert_all:
  "invar m \<Longrightarrow> \<exists>m'. run_ops mset mdelete (map (\<lambda>(k, v). MSet k v) kvs) m = Some m' \<and> invar m' \<and>
     \<alpha> m' = \<alpha> m ++ map_of (rev kvs)"
proof (induction kvs arbitrary: m)
  case (Cons kv kvs)
  obtain k v where kv: "kv = (k, v)" by force
  from set_law [OF Cons.prems, of k v] obtain m1
    where m1: "mset m k v = Some m1" "invar m1" "\<alpha> m1 = (\<alpha> m)(k \<mapsto> v)" by blast
  from Cons.IH [OF m1(2)] obtain m' where m': "run_ops mset mdelete (map (\<lambda>(k, v). MSet k v) kvs) m1 = Some m'" "invar m'"
    "\<alpha> m' = \<alpha> m1 ++ map_of (rev kvs)" by blast
  have "\<alpha> m' = \<alpha> m ++ map_of (rev (kv # kvs))"
    unfolding m'(3) m1(3) kv by (simp add: map_add_def fun_eq_iff split: option.splits)
  moreover have "run_ops mset mdelete (map (\<lambda>(k, v). MSet k v) (kv # kvs)) m = Some m'"
    using m1(1) m'(1) by (simp add: kv)
  ultimately show ?case using m'(2) by blast
qed simp

end

definition hamt_invar :: "('k \<Rightarrow> u64) \<Rightarrow> ('k, 'v) HAMT option \<Rightarrow> bool" where
  "hamt_invar h m = (case m of None \<Rightarrow> True | Some m \<Rightarrow>
     (case root m of None \<Rightarrow> hsize m = 0
      | Some r \<Rightarrow> hinv h 0 r \<and> hsize m = int (card (ekey ` ents r))))"

definition hamt_map :: "('k \<Rightarrow> u64) \<Rightarrow> ('k, 'v) HAMT option \<Rightarrow> 'k \<rightharpoonup> 'v" where
  "hamt_map h m k = (case hamt_Get h m k of Some r \<Rightarrow> r | None \<Rightarrow> None)"

definition hamt_entries :: "('k, 'v) HAMT option \<Rightarrow> ('k, 'v) entry list" where
  "hamt_entries m = (case m of None \<Rightarrow> [] | Some m \<Rightarrow> (case root m of None \<Rightarrow> [] | Some r \<Rightarrow> elist r))"

lemma hamt_entries_distinct: "hamt_invar h m \<Longrightarrow> distinct (map ekey (hamt_entries m))"
  by (auto simp: hamt_invar_def hamt_entries_def intro: hinv_distinct split: option.splits)

lemma hamt_Get_map:
  assumes "hamt_invar h m"
  shows "hamt_Get h m k = Some (hamt_map h m k)"
    and "hamt_map h m k = Some v \<longleftrightarrow> (\<exists>e \<in> set (hamt_entries m). ekey e = k \<and> evalue e = v)"
proof -
  have "\<exists>r. hamt_Get h m k = Some r \<and>
      (\<forall>v. r = Some v \<longleftrightarrow> (\<exists>e \<in> set (hamt_entries m). ekey e = k \<and> evalue e = v))"
    using assms node_get_spec [OF _ refl, of h 0 _ k, unfolded Bex_def]
    by (auto simp: hamt_Get_def hamt_invar_def hamt_entries_def set_elist split: option.splits)
  then obtain r where r: "hamt_Get h m k = Some r"
      "\<forall>v. r = Some v \<longleftrightarrow> (\<exists>e \<in> set (hamt_entries m). ekey e = k \<and> evalue e = v)" by blast
  then have "hamt_map h m k = r" by (simp add: hamt_map_def)
  with r show "hamt_Get h m k = Some (hamt_map h m k)"
    "hamt_map h m k = Some v \<longleftrightarrow> (\<exists>e \<in> set (hamt_entries m). ekey e = k \<and> evalue e = v)" by auto
qed

lemma hamt_map_of:
  assumes "hamt_invar h m"
  shows "hamt_map h m = map_of (map (\<lambda>e. (ekey e, evalue e)) (hamt_entries m))"
proof (rule ext, rule option.expand)
  fix k
  have d: "distinct (map fst (map (\<lambda>e. (ekey e, evalue e)) (hamt_entries m)))"
    using hamt_entries_distinct [OF assms] by (simp add: comp_def)
  have eq: "hamt_map h m k = Some v \<longleftrightarrow> map_of (map (\<lambda>e. (ekey e, evalue e)) (hamt_entries m)) k = Some v" for v
    using hamt_Get_map(2) [OF assms, of k v] d by (auto simp: image_iff)
  then show "(hamt_map h m k = None) = (map_of (map (\<lambda>e. (ekey e, evalue e)) (hamt_entries m)) k = None)"
    by (metis not_None_eq)
  show "the (hamt_map h m k) = the (map_of (map (\<lambda>e. (ekey e, evalue e)) (hamt_entries m)) k)"
    if "hamt_map h m k \<noteq> None" using that eq by (metis option.exhaust_sel option.sel)
qed

lemma hamt_map_eqI:
  assumes "hamt_invar h m" "\<And>k v. (\<exists>e \<in> set (hamt_entries m). ekey e = k \<and> evalue e = v) \<longleftrightarrow> f k = Some v"
  shows "hamt_map h m = f"
proof
  fix k
  show "hamt_map h m k = f k"
    using hamt_Get_map(2) [OF assms(1), of k] assms(2) [of k]
    by (metis (no_types, lifting) not_None_eq)
qed

lemma hamt_Set_spec:
  assumes inv: "hamt_invar h m"
  shows "\<exists>m'. hamt_Set h m k v = Some m' \<and> hamt_invar h m' \<and> hamt_map h m' = (hamt_map h m)(k \<mapsto> v)"
proof -
  define mm where "mm = (case m of None \<Rightarrow> hamt_new | Some m \<Rightarrow> m)"
  define r where "r = (case root mm of None \<Rightarrow> Node 0 [] [] | Some r \<Rightarrow> r)"
  have r: "hinv h 0 r" "hsize mm = int (card (ekey ` ents r))" "ents r = set (hamt_entries m)"
    using inv unfolding mm_def r_def
    by (auto simp: hamt_invar_def hamt_new_def hamt_entries_def set_elist popcount_def split: option.splits)
  let ?x = "\<lparr>ekey = k, evalue = v, ehash = h k\<rparr>"
  from node_set_spec [OF r(1) refl, of k v] obtain n' where n': "node_set r k v (h k) 0 = Some (n', k \<notin> ekey ` ents r)"
    "hinv h 0 n'" "ents n' = insert ?x {e \<in> ents r. ekey e \<noteq> k}" by blast
  let ?m = "Some \<lparr>root = Some n', hsize = (if k \<notin> ekey ` ents r then hsize mm + 1 else hsize mm)\<rparr>"
  have run: "hamt_Set h m k v = Some ?m"
    using n'(1) by (simp add: hamt_Set_def mm_def r_def Let_def)
  have "ekey ` ents n' = insert k (ekey ` ents r)" unfolding n'(3) by auto
  then have inv': "hamt_invar h ?m"
    using r(2) n'(2) by (auto simp: hamt_invar_def insert_absorb card_insert_disjoint simp flip: set_elist)
  moreover have "hamt_map h ?m = (hamt_map h m)(k \<mapsto> v)"
  proof (rule hamt_map_eqI [OF inv'])
    show "(\<exists>e \<in> set (hamt_entries ?m). ekey e = j \<and> evalue e = w) \<longleftrightarrow>
        ((hamt_map h m)(k \<mapsto> v)) j = Some w" for j w
      using hamt_Get_map(2) [OF inv, of j w] n'(3) r(3) by (auto simp: hamt_entries_def set_elist)
  qed
  ultimately show ?thesis using run by blast
qed

lemma hamt_Delete_spec:
  assumes inv: "hamt_invar h m"
  shows "\<exists>m'. hamt_Delete h m k = Some m' \<and> hamt_invar h m' \<and> hamt_map h m' = (hamt_map h m)(k := None)"
proof (cases "hamt_entries m = [] \<and> (m = None \<or> root (the m) = None)")
  case True
  then have "hamt_Delete h m k = Some m" "hamt_map h m = Map.empty"
    by (auto simp: hamt_Delete_def hamt_map_def hamt_Get_def fun_eq_iff split: option.splits)
  with inv show ?thesis by simp
next
  case False
  then obtain hm r where hm: "m = Some hm" "root hm = Some r"
    by (auto simp: hamt_entries_def split: option.splits)
  with inv have r: "hinv h 0 r" "hsize hm = int (card (ekey ` ents r))" "ents r = set (hamt_entries m)"
    by (auto simp: hamt_invar_def hamt_entries_def set_elist)
  from node_delete_spec [OF r(1) refl, of k] obtain n' where n': "node_delete r k (h k) 0 = Some (n', k \<in> ekey ` ents r)"
    "hinv h 0 n'" "ents n' = {e \<in> ents r. ekey e \<noteq> k}" by blast
  show ?thesis
  proof (cases "k \<in> ekey ` ents r")
    case False
    then have "hamt_map h m k = None"
      using hamt_Get_map(2) [OF inv, of k] r(3) by (metis image_eqI not_None_eq)
    then have "(hamt_map h m)(k := None) = hamt_map h m" by (simp add: fun_upd_idem)
    with inv hm n'(1) False show ?thesis by (simp add: hamt_Delete_def)
  next
    case True
    let ?m = "Some \<lparr>root = Some n', hsize = hsize hm - 1\<rparr>"
    have run: "hamt_Delete h m k = Some ?m" using hm n'(1) True by (simp add: hamt_Delete_def)
    have keys: "ekey ` ents n' = ekey ` ents r - {k}" unfolding n'(3) by auto
    have pos: "card (ekey ` ents r) > 0" using True by (auto simp: card_gt_0_iff simp flip: set_elist)
    have inv': "hamt_invar h ?m"
      using r(2) n'(2) True pos by (simp add: hamt_invar_def keys of_nat_diff)
    moreover have "hamt_map h ?m = (hamt_map h m)(k := None)"
    proof (rule hamt_map_eqI [OF inv'])
      show "(\<exists>e \<in> set (hamt_entries ?m). ekey e = j \<and> evalue e = w) \<longleftrightarrow>
          ((hamt_map h m)(k := None)) j = Some w" for j w
        using hamt_Get_map(2) [OF inv, of j w] n'(3) r(3) by (auto simp: hamt_entries_def set_elist)
    qed
    ultimately show ?thesis using run by blast
  qed
qed

lemma hamt_Size_spec:
  assumes inv: "hamt_invar h m"
  shows "finite (dom (hamt_map h m)) \<and> Size m = int (card (dom (hamt_map h m)))"
proof -
  have "dom (hamt_map h m) = ekey ` set (hamt_entries m)"
    unfolding hamt_map_of [OF inv] by (simp add: dom_map_of_conv_image_fst image_image)
  moreover have "Size m = int (card (ekey ` set (hamt_entries m)))"
    using inv by (auto simp: Size_def hamt_invar_def hamt_entries_def set_elist split: option.splits)
  ultimately show ?thesis by simp
qed

interpretation hm: persistent_map "Some hamt_new" "hamt_Set h" "hamt_Delete h" "hamt_Get h" Size
  "hamt_invar h" "hamt_map h"
  for h :: "'k \<Rightarrow> u64"
proof unfold_locales
  show "hamt_invar h (Some hamt_new)" by (simp add: hamt_invar_def hamt_new_def)
  show "hamt_map h (Some hamt_new) = Map.empty"
    by (simp add: hamt_map_def hamt_Get_def hamt_new_def fun_eq_iff)
qed (fact hamt_Get_map(1), fact hamt_Set_spec, fact hamt_Delete_spec, fact hamt_Size_spec)

lemma FromMap_loop_run:
  "FromMap_loop h kvs m = run_ops (hamt_Set h) (hamt_Delete h) (map (\<lambda>(k, v). MSet k v) kvs) m"
  by (induction h kvs m rule: FromMap_loop.induct) (auto split: option.splits)

text \<open>The closure is called on the bindings in order until it says to stop.\<close>

fun visit :: "('s \<Rightarrow> 'k \<Rightarrow> 'v \<Rightarrow> 's \<times> bool) \<Rightarrow> ('k \<times> 'v) list \<Rightarrow> 's \<Rightarrow> 's" where
  "visit fn [] s = s"
| "visit fn ((k, v) # kvs) s = (case fn s k v of (s, go) \<Rightarrow> if go then visit fn kvs s else s)"

lemma iterate_entries_visit:
  "fst (iterate_entries fn es s) = visit fn (map (\<lambda>e. (ekey e, evalue e)) es) s"
  by (induction es arbitrary: s) (auto split: prod.splits)

lemma hamt_Range_visit: "hamt_Range fn m s = visit fn (map (\<lambda>e. (ekey e, evalue e)) (hamt_entries m)) s"
  by (auto simp: hamt_Range_def hamt_entries_def iterate_elist iterate_entries_visit split: option.splits)

lemma visit_update: "visit (\<lambda>f k v. (f(k \<mapsto> v), True)) kvs f = f ++ map_of (rev kvs)"
  by (induction kvs arbitrary: f) (auto simp: map_add_def fun_eq_iff split: option.splits)

lemma map_of_rev_distinct: "distinct (map fst kvs) \<Longrightarrow> map_of (rev kvs) = map_of kvs"
  by (rule map_of_inject_set [THEN iffD2]) (auto simp: rev_map [symmetric])

lemma ToMap_spec: "hamt_invar h (Some m) \<Longrightarrow> ToMap (Some m) = Some (hamt_map h (Some m))"
  using hamt_entries_distinct [of h "Some m"]
  by (simp add: ToMap_def hamt_Range_visit visit_update hamt_map_of map_of_rev_distinct comp_def)

lemma hamt_Set_not_nil: "hamt_Set h m k v = Some m' \<Longrightarrow> m' \<noteq> None"
  by (auto simp: hamt_Set_def Let_def)

lemma FromMap_loop_not_nil: "FromMap_loop h kvs m = Some m' \<Longrightarrow> m \<noteq> None \<Longrightarrow> m' \<noteq> None"
  by (induction h kvs m rule: FromMap_loop.induct) (auto split: option.splits dest: hamt_Set_not_nil)

section \<open>Properties\<close>

text \<open>
  C4: for every hash function, also one under which keys collide, and every sequence of \<open>Set\<close> and
  \<open>Delete\<close> calls from the empty map, no call panics, \<open>Get\<close> answers as the finite map built by the
  same updates, and \<open>Size\<close> is the number of its keys.
\<close>

theorem hamt_refines_map:
  "\<exists>m. run_ops (hamt_Set h) (hamt_Delete h) ops (Some hamt_new) = Some m \<and>
     (\<forall>k. hamt_Get h m k = Some (fold spec_op ops Map.empty k)) \<and>
     Size m = int (card (dom (fold spec_op ops Map.empty)))"
  by (rule hm.run_ops_get_size)

text \<open>
  After any sequence of updates there is one list of bindings, with no key twice and with
  exactly the bindings of the map, on which \<open>Range\<close> calls its function in order, stopping at the
  first call that returns false.
\<close>

theorem hamt_range_once:
  "\<exists>m kvs. run_ops (hamt_Set h) (hamt_Delete h) ops (Some hamt_new) = Some m \<and>
     distinct (map fst kvs) \<and> map_of kvs = fold spec_op ops Map.empty \<and> int (length kvs) = Size m \<and>
     (\<forall>fn s. hamt_Range fn m s = visit fn kvs s)"
proof -
  from hm.run_ops_spec [OF hm.empty_law(1), unfolded hm.empty_law(2), of h ops]
  obtain m where m: "run_ops (hamt_Set h) (hamt_Delete h) ops (Some hamt_new) = Some m" "hamt_invar h m"
    "hamt_map h m = fold spec_op ops Map.empty" by auto
  let ?kvs = "map (\<lambda>e. (ekey e, evalue e)) (hamt_entries m)"
  have d: "distinct (map fst ?kvs)" using hamt_entries_distinct [OF m(2)] by (simp add: comp_def)
  have mo: "map_of ?kvs = hamt_map h m" by (simp add: hamt_map_of [OF m(2)])
  then have "dom (hamt_map h m) = set (map fst ?kvs)" by (metis dom_map_of_conv_image_fst list.set_map)
  then have "card (dom (hamt_map h m)) = length ?kvs" by (metis d distinct_card length_map)
  then have "int (length ?kvs) = Size m" using hamt_Size_spec [OF m(2)] by simp
  with m d mo show ?thesis by (intro exI [of _ m] exI [of _ ?kvs]) (simp add: hamt_Range_visit)
qed

text \<open>
  \<open>FromMap\<close> on the pairs of a Go map (no key twice, any order) never panics, gives a map of as
  many entries, and \<open>ToMap\<close> turns it back into the Go map.
\<close>

theorem FromMap_ToMap:
  "distinct (map fst kvs) \<Longrightarrow>
   \<exists>m. FromMap h kvs = Some m \<and> ToMap m = Some (map_of kvs) \<and> Size m = int (length kvs)"
proof -
  assume d: "distinct (map fst kvs)"
  from hm.insert_all [OF hm.empty_law(1), unfolded hm.empty_law(2), of h kvs] obtain m
    where m: "FromMap_loop h kvs (Some hamt_new) = Some m" "hamt_invar h m" "hamt_map h m = map_of kvs"
    by (auto simp: FromMap_loop_run map_of_rev_distinct [OF d])
  then obtain n where n: "m = Some n" using FromMap_loop_not_nil by blast
  have "card (dom (map_of kvs)) = length kvs" by (metis d distinct_card dom_map_of_conv_image_fst length_map list.set_map)
  with m hamt_Size_spec [OF m(2)] ToMap_spec [of h n] n show ?thesis by (simp add: FromMap_def)
qed

theorem FromMap_ToMap_witness:
  "\<exists>m. FromMap (\<lambda>_. 0) [(1 :: nat, ''a''), (2, ''b'')] = Some m \<and>
     ToMap m = Some (map_of [(1, ''a''), (2, ''b'')]) \<and> Size m = 2"
  using FromMap_ToMap [of "[(1 :: nat, ''a''), (2, ''b'')]" "\<lambda>_. 0"] by simp

end
