(* ===== verification/Bytecode.thy ===== *)
theory Bytecode
  imports Prelude "HOL-Library.State_Monad"
begin

text \<open>
  Serialization of compiled functions, \<open>compiler/bytecode/bytecode.go\<close>, with the parts of
  \<open>FunctionProto\<close> in \<open>function.go\<close> that it uses. The writer appends to a byte buffer; the reader is
  a state monad over the unread bytes and the sticky error of the Go reader. A \<open>float64\<close> constant is
  its bit pattern, so that \<open>math.Float64bits\<close> and \<open>math.Float64frombits\<close> are the identity.

  The lemmas show that loading what was dumped gives the function back, that what loads can be
  dumped and loaded again unchanged, and that a truncated dump is rejected.
\<close>

unbundle bit_operations_syntax

type_synonym bytes = "u8 list"

section \<open>Function prototypes\<close>

text \<open>The constants: the values the serializer knows, and every other Lua value.\<close>

datatype konst = KNil | KBool bool | KNumber u64 | KInteger int | KString bytes | KOther nat

record dbg_local =
  lname :: bytes
  StartPc :: int
  EndPc :: int

record dbg_call =
  cname :: bytes
  Pc :: int

datatype proto = Proto
  (SourceName: bytes) (LineDefined: int) (LastLineDefined: int)
  (NumUpvalues: u8) (NumParameters: u8) (IsVarArg: u8) (NumUsedRegisters: u8)
  (Code: "u32 list") (Constants: "konst list") (FunctionPrototypes: "proto list")
  (DbgSourcePositions: "int list") (DbgLocals: "dbg_local list") (DbgCalls: "dbg_call list")
  (DbgUpvalues: "bytes list") (TypeInfo: bytes) (stringConstants: "bytes list")

definition RebuildStringConstants :: "konst list \<Rightarrow> bytes list" where
  "RebuildStringConstants ks = map (\<lambda>c. case c of KString s \<Rightarrow> s | _ \<Rightarrow> []) ks"

fun rebuildStringConstants :: "proto \<Rightarrow> proto" where
  "rebuildStringConstants (Proto sn ld lld nu np va nr code ks ps pos locs calls uvs ti sc) =
     Proto sn ld lld nu np va nr code ks (map rebuildStringConstants ps) pos locs calls uvs ti
       (RebuildStringConstants ks)"

fun SetTypeInfo :: "bytes \<Rightarrow> proto \<Rightarrow> proto" where
  "SetTypeInfo d (Proto sn ld lld nu np va nr code ks ps pos locs calls uvs ti sc) =
     Proto sn ld lld nu np va nr code ks (map (SetTypeInfo d) ps) pos locs calls uvs d sc"

section \<open>Writer\<close>

datatype io_error = EOF | UnexpectedEOF

datatype bc_error = ErrInvalidHeader | ErrVersionMismatch | ErrCorruptedBytecode | IOError io_error | OutOfFuel

record writer =
  wbuf :: bytes
  werr :: "io_error option"

abbreviation (input) version :: u8 where "version \<equiv> 2"
abbreviation (input) headerMagic :: u32 where "headerMagic \<equiv> 0x4C554143"

text \<open>\<open>Write\<close> of a \<open>bytes.Buffer\<close> appends and returns no error.\<close>

definition buf_write :: "bytes \<Rightarrow> writer \<Rightarrow> writer" where
  "buf_write bs w = w\<lparr>wbuf := wbuf w @ bs, werr := None\<rparr>"

definition le32 :: "u32 \<Rightarrow> bytes" where
  "le32 v = [ucast v, ucast (drop_bit 8 v), ucast (drop_bit 16 v), ucast (drop_bit 24 v)]"

definition le64 :: "u64 \<Rightarrow> bytes" where
  "le64 v = [ucast v, ucast (drop_bit 8 v), ucast (drop_bit 16 v), ucast (drop_bit 24 v),
     ucast (drop_bit 32 v), ucast (drop_bit 40 v), ucast (drop_bit 48 v), ucast (drop_bit 56 v)]"

definition writeByte :: "u8 \<Rightarrow> writer \<Rightarrow> writer" where
  "writeByte b w = (if werr w \<noteq> None then w else buf_write [b] w)"

definition writeUint32 :: "u32 \<Rightarrow> writer \<Rightarrow> writer" where
  "writeUint32 v w = (if werr w \<noteq> None then w else buf_write (le32 v) w)"

definition writeUint64 :: "u64 \<Rightarrow> writer \<Rightarrow> writer" where
  "writeUint64 v w = (if werr w \<noteq> None then w else buf_write (le64 v) w)"

definition writeInt :: "int \<Rightarrow> writer \<Rightarrow> writer" where
  "writeInt v w = writeUint64 (word_of_int v) w"

definition len32 :: "'a list \<Rightarrow> u32" where
  "len32 xs = word_of_nat (length xs)"

definition writeString :: "bytes \<Rightarrow> writer \<Rightarrow> writer" where
  "writeString s w =
     (if werr w \<noteq> None then w
      else let w = writeUint32 (len32 s) w in
        if length s > 0 then buf_write s w else w)"

fun writeConstant :: "konst \<Rightarrow> writer \<Rightarrow> writer" where
  "writeConstant v w =
     (if werr w \<noteq> None then w
      else case v of
        KNil \<Rightarrow> writeByte 0 w
      | KBool b \<Rightarrow> let w = writeByte 1 w in if b then writeByte 1 w else writeByte 0 w
      | KNumber x \<Rightarrow> writeUint64 x (writeByte 2 w)
      | KInteger i \<Rightarrow> writeUint64 (word_of_int i) (writeByte 3 w)
      | KString s \<Rightarrow> writeString s (writeByte 4 w)
      | KOther _ \<Rightarrow> writeByte 0 w)"

definition writeLocal :: "dbg_local \<Rightarrow> writer \<Rightarrow> writer" where
  "writeLocal l w = writeInt (EndPc l) (writeInt (StartPc l) (writeString (lname l) w))"

definition writeCall :: "dbg_call \<Rightarrow> writer \<Rightarrow> writer" where
  "writeCall c w = writeInt (Pc c) (writeString (cname c) w)"

fun writeProto :: "proto \<Rightarrow> writer \<Rightarrow> io_error option \<times> writer"
and writeProtos :: "proto list \<Rightarrow> writer \<Rightarrow> io_error option \<times> writer" where
  "writeProto (Proto sn ld lld nu np va nr code ks ps pos locs calls uvs ti sc) w =
     (if werr w \<noteq> None then (werr w, w)
      else let
        w = writeString sn w; w = writeInt ld w; w = writeInt lld w;
        w = writeByte nu w; w = writeByte np w; w = writeByte va w; w = writeByte nr w;
        w = writeUint32 (len32 code) w; w = fold writeUint32 code w;
        w = writeUint32 (len32 ks) w; w = fold writeConstant ks w;
        w = writeUint32 (len32 ps) w
      in case writeProtos ps w of
        (Some err, w) \<Rightarrow> (Some err, w)
      | (None, w) \<Rightarrow> let
          w = writeUint32 (len32 pos) w; w = fold writeInt pos w;
          w = writeUint32 (len32 locs) w; w = fold writeLocal locs w;
          w = writeUint32 (len32 calls) w; w = fold writeCall calls w;
          w = writeUint32 (len32 uvs) w; w = fold writeString uvs w;
          w = writeUint32 (len32 ti) w;
          w = (if length ti > 0 then buf_write ti w else w)
        in (werr w, w))"
| "writeProtos [] w = (None, w)"
| "writeProtos (p # ps) w =
     (case writeProto p w of (Some err, w) \<Rightarrow> (Some err, w) | (None, w) \<Rightarrow> writeProtos ps w)"

definition Dump :: "proto \<Rightarrow> bc_error + bytes" where
  "Dump p =
     (let w = \<lparr>wbuf = [], werr = None\<rparr>;
          w = writeUint32 headerMagic w;
          w = writeByte version w
      in case writeProto p w of
        (Some err, w) \<Rightarrow> Inl (IOError err)
      | (None, w) \<Rightarrow> Inr (wbuf w))"

section \<open>Reader\<close>

record reader =
  rest :: bytes
  rerr :: "io_error option"

type_synonym 'a rd = "(reader, 'a) state"

definition reader_err :: "io_error option rd" where
  "reader_err = State (\<lambda>r. (rerr r, r))"

text \<open>\<open>io.ReadFull\<close>: a short read fills what there is, leaves the rest zero, and fails.\<close>

definition ReadFull :: "nat \<Rightarrow> bytes rd" where
  "ReadFull n = State (\<lambda>r.
     if n \<le> length (rest r) then (take n (rest r), \<lparr>rest = drop n (rest r), rerr = None\<rparr>)
     else (rest r @ replicate (n - length (rest r)) 0,
       \<lparr>rest = [], rerr = Some (if rest r = [] then EOF else UnexpectedEOF)\<rparr>))"

text \<open>A read of a fixed number of bytes, skipped after an error; a failed read gives zero.\<close>

definition guarded_read :: "nat \<Rightarrow> (bytes \<Rightarrow> 'a) \<Rightarrow> 'a \<Rightarrow> 'a rd" where
  "guarded_read n f z = do {
     e \<leftarrow> reader_err;
     if e \<noteq> None then State_Monad.return z
     else do {
       bs \<leftarrow> ReadFull n;
       e \<leftarrow> reader_err;
       State_Monad.return (if e \<noteq> None then z else f bs)
     }
   }"

definition un_le32 :: "bytes \<Rightarrow> u32" where
  "un_le32 bs = ucast (bs ! 0) OR push_bit 8 (ucast (bs ! 1)) OR push_bit 16 (ucast (bs ! 2)) OR
     push_bit 24 (ucast (bs ! 3))"

definition un_le64 :: "bytes \<Rightarrow> u64" where
  "un_le64 bs = ucast (bs ! 0) OR push_bit 8 (ucast (bs ! 1)) OR push_bit 16 (ucast (bs ! 2)) OR
     push_bit 24 (ucast (bs ! 3)) OR push_bit 32 (ucast (bs ! 4)) OR push_bit 40 (ucast (bs ! 5)) OR
     push_bit 48 (ucast (bs ! 6)) OR push_bit 56 (ucast (bs ! 7))"

definition readByte :: "u8 rd" where
  "readByte = guarded_read 1 hd 0"

definition readUint32 :: "u32 rd" where
  "readUint32 = guarded_read 4 un_le32 0"

definition readUint64 :: "u64 rd" where
  "readUint64 = guarded_read 8 un_le64 0"

definition readInt :: "int rd" where
  "readInt = do { v \<leftarrow> readUint64; State_Monad.return (sint v) }"

definition readString :: "bytes rd" where
  "readString = do {
     e \<leftarrow> reader_err;
     if e \<noteq> None then State_Monad.return []
     else do {
       len \<leftarrow> readUint32;
       if len = 0 then State_Monad.return [] else ReadFull (unat len)
     }
   }"

fun readN :: "nat \<Rightarrow> 'a rd \<Rightarrow> 'a list rd" where
  "readN 0 m = State_Monad.return []"
| "readN (Suc n) m = do { x \<leftarrow> m; xs \<leftarrow> readN n m; State_Monad.return (x # xs) }"

definition readConstant :: "konst rd" where
  "readConstant = do {
     e \<leftarrow> reader_err;
     if e \<noteq> None then State_Monad.return KNil
     else do {
       t \<leftarrow> readByte;
       if t = 0 then State_Monad.return KNil
       else if t = 1 then do { b \<leftarrow> readByte; State_Monad.return (KBool (b = 1)) }
       else if t = 2 then do { v \<leftarrow> readUint64; State_Monad.return (KNumber v) }
       else if t = 3 then do { v \<leftarrow> readUint64; State_Monad.return (KInteger (sint v)) }
       else if t = 4 then do { s \<leftarrow> readString; State_Monad.return (KString s) }
       else State_Monad.return KNil
     }
   }"

definition readLocal :: "dbg_local rd" where
  "readLocal = do { n \<leftarrow> readString; s \<leftarrow> readInt; e \<leftarrow> readInt;
     State_Monad.return \<lparr>lname = n, StartPc = s, EndPc = e\<rparr> }"

definition readCall :: "dbg_call rd" where
  "readCall = do { n \<leftarrow> readString; p \<leftarrow> readInt; State_Monad.return \<lparr>cname = n, Pc = p\<rparr> }"

definition readList :: "'a rd \<Rightarrow> 'a list rd" where
  "readList m = do { n \<leftarrow> readUint32; readN (unat n) m }"

fun readProtos :: "nat \<Rightarrow> (bc_error + proto) rd \<Rightarrow> (bc_error + proto list) rd" where
  "readProtos 0 m = State_Monad.return (Inr [])"
| "readProtos (Suc n) m = do {
     np \<leftarrow> m;
     case np of
       Inl err \<Rightarrow> State_Monad.return (Inl err)
     | Inr p \<Rightarrow> do {
         nps \<leftarrow> readProtos n m;
         State_Monad.return (case nps of Inl err \<Rightarrow> Inl err | Inr ps \<Rightarrow> Inr (p # ps))
       }
   }"

text \<open>
  The fields of a prototype, given the reader of a nested prototype. In \<open>readProto\<close> the nesting
  depth is the fuel; \<open>Undump\<close> starts with more than enough of it.
\<close>

definition readProto_body :: "(bc_error + proto) rd \<Rightarrow> (bc_error + proto) rd" where
  "readProto_body nested = do {
     sn \<leftarrow> readString; ld \<leftarrow> readInt; lld \<leftarrow> readInt;
     nu \<leftarrow> readByte; np \<leftarrow> readByte; va \<leftarrow> readByte; nr \<leftarrow> readByte;
     code \<leftarrow> readList readUint32;
     ks \<leftarrow> readList readConstant;
     protoLen \<leftarrow> readUint32;
     nps \<leftarrow> readProtos (unat protoLen) nested;
     case nps of Inl err \<Rightarrow> State_Monad.return (Inl err)
     | Inr ps \<Rightarrow> do {
         pos \<leftarrow> readList readInt;
         locs \<leftarrow> readList readLocal;
         calls \<leftarrow> readList readCall;
         uvs \<leftarrow> readList readString;
         typeInfoLen \<leftarrow> readUint32;
         ti \<leftarrow> (if typeInfoLen > 0 then ReadFull (unat typeInfoLen) else State_Monad.return []);
         e \<leftarrow> reader_err;
         State_Monad.return (if e \<noteq> None then Inl ErrCorruptedBytecode
           else Inr (Proto sn ld lld nu np va nr code ks ps pos locs calls uvs ti []))
       }
   }"

fun readProto :: "nat \<Rightarrow> (bc_error + proto) rd" where
  "readProto 0 = State_Monad.return (Inl OutOfFuel)"
| "readProto (Suc d) = do {
     e \<leftarrow> reader_err;
     case e of Some err \<Rightarrow> State_Monad.return (Inl (IOError err))
     | None \<Rightarrow> readProto_body (readProto d)
   }"

definition Undump :: "bytes \<Rightarrow> bc_error + proto" where
  "Undump data = fst (run_state (do {
     magic \<leftarrow> readUint32;
     if magic \<noteq> headerMagic then State_Monad.return (Inl ErrInvalidHeader)
     else do {
       ver \<leftarrow> readByte;
       if ver \<noteq> version then State_Monad.return (Inl ErrVersionMismatch)
       else do {
         res \<leftarrow> readProto (Suc (length data));
         State_Monad.return (case res of Inl err \<Rightarrow> Inl err
           | Inr p \<Rightarrow> let p = rebuildStringConstants p in
               Inr (if length (TypeInfo p) > 0 then SetTypeInfo (TypeInfo p) p else p))
       }
     }
   }) \<lparr>rest = data, rerr = None\<rparr>)"

section \<open>The reading interface\<close>

text \<open>
  What every reading operation promises: it never gives bytes back, it keeps an error, and when it
  succeeds it does not depend on the bytes after those it consumed.
\<close>

abbreviation Rd :: "bytes \<Rightarrow> reader" where "Rd xs \<equiv> \<lparr>rest = xs, rerr = None\<rparr>"

locale reading =
  fixes m :: "'a rd"
  assumes shorter: "length (rest (snd (run_state m r))) \<le> length (rest r)"
    and sticky: "rerr r \<noteq> None \<Longrightarrow> rerr (snd (run_state m r)) \<noteq> None"
    and extend: "run_state m (Rd xs) = (v, Rd t) \<Longrightarrow> run_state m (Rd (xs @ s)) = (v, Rd (t @ s))"

lemma run_bind: "run_state (State_Monad.bind m f) r = (case run_state m r of (x, r) \<Rightarrow> run_state (f x) r)"
  by (simp add: State_Monad.bind_def)

lemma run_reader_err [simp]: "run_state reader_err r = (rerr r, r)"
  by (simp add: reader_err_def)

lemma reading_return: "reading (State_Monad.return x)"
  by unfold_locales simp_all

lemma reading_err: "reading reader_err"
  by unfold_locales simp_all

lemma reader_collapse: "rerr r = None \<Longrightarrow> r = Rd (rest r)"
  by (cases r) simp

lemma reading_bind:
  assumes m: "reading m" and f: "\<And>x. reading (f x)"
  shows "reading (State_Monad.bind m f)"
proof
  fix r :: reader
  obtain x r1 where r1: "run_state m r = (x, r1)" by force
  show "length (rest (snd (run_state (State_Monad.bind m f) r))) \<le> length (rest r)"
    using reading.shorter [OF m, of r] reading.shorter [OF f, of x r1] by (simp add: run_bind r1)
  show "rerr (snd (run_state (State_Monad.bind m f) r)) \<noteq> None" if "rerr r \<noteq> None"
    using reading.sticky [OF m that] reading.sticky [OF f, of r1 x] by (simp add: run_bind r1)
next
  fix xs v t s
  assume run: "run_state (State_Monad.bind m f) (Rd xs) = (v, Rd t)"
  obtain x r1 where r1: "run_state m (Rd xs) = (x, r1)" by force
  with run have f1: "run_state (f x) r1 = (v, Rd t)" by (simp add: run_bind)
  then have "rerr r1 = None" using reading.sticky [OF f, of r1 x] by (cases "rerr r1") auto
  then obtain t1 where t1: "r1 = Rd t1" using reader_collapse by blast
  from reading.extend [OF m] reading.extend [OF f] r1 f1
  show "run_state (State_Monad.bind m f) (Rd (xs @ s)) = (v, Rd (t @ s))"
    by (simp add: run_bind t1)
qed

lemma run_ReadFull:
  "run_state (ReadFull n) r =
     (if n \<le> length (rest r) then (take n (rest r), Rd (drop n (rest r)))
      else (rest r @ replicate (n - length (rest r)) 0,
        \<lparr>rest = [], rerr = Some (if rest r = [] then EOF else UnexpectedEOF)\<rparr>))"
  by (simp add: ReadFull_def)

lemma run_guarded_read:
  "run_state (guarded_read n f z) r =
     (if rerr r \<noteq> None then (z, r)
      else if n \<le> length (rest r) then (f (take n (rest r)), Rd (drop n (rest r)))
      else (z, \<lparr>rest = [], rerr = Some (if rest r = [] then EOF else UnexpectedEOF)\<rparr>))"
  by (simp add: guarded_read_def run_bind run_ReadFull)

lemma reading_guarded: "reading (guarded_read n f z)"
  by unfold_locales (auto simp: run_guarded_read split: if_splits)

text \<open>A length prefix and then as many bytes; after a failed read of the prefix, nothing.\<close>

lemma reading_blob: "reading (do { len \<leftarrow> readUint32; if len = 0 then State_Monad.return [] else ReadFull (unat len) })"
  by unfold_locales
    (auto simp: run_bind run_guarded_read readUint32_def run_ReadFull split: if_splits)

named_theorems readings \<open>operations that satisfy the reading interface\<close>

lemmas reading_basic [readings] = reading_return reading_err reading_guarded reading_blob

lemma reading_if [readings]: "reading a \<Longrightarrow> reading b \<Longrightarrow> reading (if c then a else b)"
  by simp

lemma reading_readN [readings]: "reading m \<Longrightarrow> reading (readN n m)"
  by (induction n) (auto intro!: readings reading_bind)

lemma reading_scalars [readings]: "reading readByte" "reading readUint32" "reading readUint64" "reading readInt" "reading readString"
  by (auto simp: readByte_def readUint32_def readUint64_def readInt_def readString_def
      intro!: reading_guarded reading_bind reading_return reading_err reading_blob [unfolded readUint32_def])

lemma reading_list [readings]: "reading m \<Longrightarrow> reading (readList m)"
  by (auto simp: readList_def intro!: reading_bind readings)

lemma reading_records [readings]: "reading readConstant" "reading readLocal" "reading readCall"
  by (auto simp: readConstant_def readLocal_def readCall_def intro!: reading_bind readings)

lemma reading_readProtos [readings]: "reading m \<Longrightarrow> reading (readProtos n m)"
  by (induction n) (auto intro!: reading_bind readings split: sum.split)

lemma reading_option:
  "(\<And>x. reading (f x)) \<Longrightarrow> reading g \<Longrightarrow> reading (case e of Some x \<Rightarrow> f x | None \<Rightarrow> g)"
  by (simp split: option.split)

lemma reading_sum:
  "(\<And>x. reading (f x)) \<Longrightarrow> (\<And>y. reading (g y)) \<Longrightarrow> reading (case e of Inl x \<Rightarrow> f x | Inr y \<Rightarrow> g y)"
  by (simp split: sum.split)

lemma blob_rearrange:
  "State_Monad.bind readUint32 (\<lambda>len. State_Monad.bind (if len > 0 then ReadFull (unat len) else State_Monad.return []) k) =
   State_Monad.bind (do { len \<leftarrow> readUint32; if len = 0 then State_Monad.return [] else ReadFull (unat len) }) k"
  by (rule state_ext) (auto simp: run_bind word_gt_0 split: prod.split)

lemma reading_body: "reading m \<Longrightarrow> reading (readProto_body m)"
  unfolding readProto_body_def blob_rearrange
  by (intro reading_bind reading_sum readings)

lemma reading_readProto: "reading (readProto d)"
  by (induction d) (auto intro!: reading_bind reading_option reading_body readings simp: reading_return)

interpretation rd_proto: reading "readProto d" for d
  by (rule reading_readProto)

section \<open>The codec interface\<close>

text \<open>
  A writing operation and a reading operation fit together when the bytes appended for a value are
  read back as that value, whatever follows them.
\<close>

locale codec = reading rd for rd :: "'a rd" +
  fixes wr :: "'a \<Rightarrow> writer \<Rightarrow> writer" and enc :: "'a \<Rightarrow> bytes" and ok :: "'a \<Rightarrow> bool"
  assumes write_law: "werr w = None \<Longrightarrow> wr x w = w\<lparr>wbuf := wbuf w @ enc x\<rparr>"
    and read_back: "ok x \<Longrightarrow> run_state rd (Rd (enc x @ t)) = (x, Rd t)"
begin

lemma write_all: "werr w = None \<Longrightarrow> fold wr xs w = w\<lparr>wbuf := wbuf w @ concat (map enc xs)\<rparr>"
proof (induction xs arbitrary: w)
  case (Cons x xs)
  from Cons.prems Cons.IH [of "w\<lparr>wbuf := wbuf w @ enc x\<rparr>"] show ?case by (simp add: write_law)
qed simp

lemma read_all:
  "list_all ok xs \<Longrightarrow> run_state (readN (length xs) rd) (Rd (concat (map enc xs) @ t)) = (xs, Rd t)"
  by (induction xs) (simp_all add: run_bind read_back)

end

definition enc_list :: "('a \<Rightarrow> bytes) \<Rightarrow> 'a list \<Rightarrow> bytes" where
  "enc_list enc xs = le32 (len32 xs) @ concat (map enc xs)"

definition enc_str :: "bytes \<Rightarrow> bytes" where "enc_str s = le32 (len32 s) @ s"

definition enc_int :: "int \<Rightarrow> bytes" where "enc_int i = le64 (word_of_int i)"

fun enc_konst :: "konst \<Rightarrow> bytes" where
  "enc_konst KNil = [0]"
| "enc_konst (KBool b) = [1, if b then 1 else 0]"
| "enc_konst (KNumber x) = 2 # le64 x"
| "enc_konst (KInteger i) = 3 # enc_int i"
| "enc_konst (KString s) = 4 # enc_str s"
| "enc_konst (KOther _) = [0]"

definition enc_local :: "dbg_local \<Rightarrow> bytes" where
  "enc_local l = enc_str (lname l) @ enc_int (StartPc l) @ enc_int (EndPc l)"

definition enc_call :: "dbg_call \<Rightarrow> bytes" where
  "enc_call c = enc_str (cname c) @ enc_int (Pc c)"

text \<open>What the format can hold: lengths of 32 bits and integers of 64 bits.\<close>

definition ok_len :: "'a list \<Rightarrow> bool" where "ok_len xs \<longleftrightarrow> length xs < 4294967296"

fun ok_konst :: "konst \<Rightarrow> bool" where
  "ok_konst (KInteger i) = is_int64 i"
| "ok_konst (KString s) = ok_len s"
| "ok_konst (KOther _) = False"
| "ok_konst _ = True"

definition ok_local :: "dbg_local \<Rightarrow> bool" where
  "ok_local l \<longleftrightarrow> ok_len (lname l) \<and> is_int64 (StartPc l) \<and> is_int64 (EndPc l)"

definition ok_call :: "dbg_call \<Rightarrow> bool" where
  "ok_call c \<longleftrightarrow> ok_len (cname c) \<and> is_int64 (Pc c)"

lemma bit_byte_at:
  "bit (push_bit k (ucast (ucast (drop_bit k v) :: u8)) :: 'a::len word) n \<longleftrightarrow>
     k \<le> n \<and> n < k + 8 \<and> bit v n" for v :: "'a::len word"
  by (auto simp: bit_simps dest: bit_imp_le_length)

lemma bit_byte_0: "bit (ucast (ucast v :: u8) :: 'a::len word) n \<longleftrightarrow> n < 8 \<and> bit v n" for v :: "'a::len word"
  using bit_byte_at [of 0 v n] by simp

lemma un_le32_le32: "un_le32 (le32 v) = v"
proof (rule bit_word_eqI)
  fix n assume "n < LENGTH(32)"
  then show "bit (un_le32 (le32 v)) n = bit v n"
    by (simp add: un_le32_def le32_def bit_or_iff bit_byte_at bit_byte_0) linarith
qed

lemma un_le64_le64: "un_le64 (le64 v) = v"
proof (rule bit_word_eqI)
  fix n assume "n < LENGTH(64)"
  then show "bit (un_le64 (le64 v)) n = bit v n"
    by (simp add: un_le64_def le64_def bit_or_iff bit_byte_at bit_byte_0) linarith
qed

lemma sint_word_of_int64: "is_int64 i \<Longrightarrow> sint (word_of_int i :: u64) = i"
  by (simp add: is_int64_def sint_sbintrunc' signed_take_bit_int_eq_self)

lemma unat_len32: "ok_len xs \<Longrightarrow> unat (len32 xs) = length xs"
  by (simp add: ok_len_def len32_def unat_of_nat)

lemma len32_0: "ok_len xs \<Longrightarrow> len32 xs = 0 \<longleftrightarrow> xs = []"
  by (metis length_0_conv unat_len32 unat_eq_zero)

lemma codecI:
  assumes "reading rd" "\<And>w x. werr w = None \<Longrightarrow> wr x w = w\<lparr>wbuf := wbuf w @ enc x\<rparr>"
    and "\<And>x t. ok x \<Longrightarrow> run_state rd (Rd (enc x @ t)) = (x, Rd t)"
  shows "codec rd wr enc ok"
  using assms by (simp add: codec_def codec_axioms_def)

interpretation c_byte: codec readByte writeByte "\<lambda>b. [b]" "\<lambda>_. True"
  by (rule codecI) (simp_all add: readings writeByte_def buf_write_def readByte_def run_guarded_read)

interpretation c_u32: codec readUint32 writeUint32 le32 "\<lambda>_. True"
proof (rule codecI)
  show "run_state readUint32 (Rd (le32 x @ t)) = (x, Rd t)" for x t
    using un_le32_le32 [of x] by (simp add: readUint32_def run_guarded_read le32_def)
qed (simp_all add: readings writeUint32_def buf_write_def)

interpretation c_u64: codec readUint64 writeUint64 le64 "\<lambda>_. True"
proof (rule codecI)
  show "run_state readUint64 (Rd (le64 x @ t)) = (x, Rd t)" for x t
    using un_le64_le64 [of x] by (simp add: readUint64_def run_guarded_read le64_def)
qed (simp_all add: readings writeUint64_def buf_write_def)

interpretation c_int: codec readInt writeInt enc_int is_int64
  by (rule codecI, rule readings)
    (simp_all add: writeInt_def c_u64.write_law enc_int_def readInt_def run_bind c_u64.read_back
      sint_word_of_int64)

interpretation c_str: codec readString writeString enc_str ok_len
proof (rule codecI)
  show "run_state readString (Rd (enc_str x @ t)) = (x, Rd t)" if "ok_len x" for x t
    using that
    by (simp add: readString_def run_bind enc_str_def c_u32.read_back len32_0 unat_len32 run_ReadFull)
qed (simp_all add: readings writeString_def c_u32.write_law enc_str_def buf_write_def Let_def)

interpretation c_konst: codec readConstant writeConstant enc_konst ok_konst
proof (rule codecI)
  show "run_state readConstant (Rd (enc_konst x @ t)) = (x, Rd t)" if "ok_konst x" for x t
    using that c_byte.read_back [of _ "_ # t", simplified]
    by (cases x) (simp_all add: readConstant_def run_bind c_byte.read_back [simplified] c_u64.read_back c_str.read_back
        enc_int_def sint_word_of_int64)
  show "writeConstant x w = w\<lparr>wbuf := wbuf w @ enc_konst x\<rparr>" if "werr w = None" for x w
    using that by (cases x) (simp_all add: c_byte.write_law c_u64.write_law c_str.write_law enc_int_def)
qed (rule readings)

interpretation c_local: codec readLocal writeLocal enc_local ok_local
  by (rule codecI, rule readings)
    (simp_all add: writeLocal_def readLocal_def enc_local_def ok_local_def run_bind
      c_int.write_law c_str.write_law c_int.read_back c_str.read_back)

interpretation c_call: codec readCall writeCall enc_call ok_call
  by (rule codecI, rule readings)
    (simp_all add: writeCall_def readCall_def enc_call_def ok_call_def run_bind
      c_int.write_law c_str.write_law c_int.read_back c_str.read_back)

lemma codec_readList:
  assumes "codec rd wr enc ok" "ok_len xs" "list_all ok xs"
  shows "run_state (readList rd) (Rd (enc_list enc xs @ t)) = (xs, Rd t)"
  using codec.read_all [OF assms(1,3)] assms(2)
  by (simp add: readList_def run_bind enc_list_def c_u32.read_back unat_len32)

section \<open>Prototypes\<close>

fun enc_proto :: "proto \<Rightarrow> bytes" where
  "enc_proto (Proto sn ld lld nu np va nr code ks ps pos locs calls uvs ti sc) =
     enc_str sn @ enc_int ld @ enc_int lld @ [nu, np, va, nr] @ enc_list le32 code @
     enc_list enc_konst ks @ le32 (len32 ps) @ concat (map enc_proto ps) @ enc_list enc_int pos @
     enc_list enc_local locs @ enc_list enc_call calls @ enc_list enc_str uvs @ enc_str ti"

fun ok_proto :: "proto \<Rightarrow> bool" where
  "ok_proto (Proto sn ld lld nu np va nr code ks ps pos locs calls uvs ti sc) \<longleftrightarrow>
     ok_len sn \<and> is_int64 ld \<and> is_int64 lld \<and> ok_len code \<and> ok_len ks \<and> list_all ok_konst ks \<and>
     ok_len ps \<and> list_all ok_proto ps \<and> ok_len pos \<and> list_all is_int64 pos \<and>
     ok_len locs \<and> list_all ok_local locs \<and> ok_len calls \<and> list_all ok_call calls \<and>
     ok_len uvs \<and> list_all ok_len uvs \<and> ok_len ti"

text \<open>The string cache is not written.\<close>

fun strip :: "proto \<Rightarrow> proto" where
  "strip (Proto sn ld lld nu np va nr code ks ps pos locs calls uvs ti sc) =
     Proto sn ld lld nu np va nr code ks (map strip ps) pos locs calls uvs ti []"

lemmas read_list =
  codec_readList [OF c_u32.codec_axioms] codec_readList [OF c_konst.codec_axioms]
  codec_readList [OF c_int.codec_axioms] codec_readList [OF c_local.codec_axioms]
  codec_readList [OF c_call.codec_axioms] codec_readList [OF c_str.codec_axioms]

lemma writeProtos_enc:
  assumes "\<And>p w. p \<in> set ps \<Longrightarrow> werr w = None \<Longrightarrow> writeProto p w = (None, w\<lparr>wbuf := wbuf w @ enc_proto p\<rparr>)"
  shows "werr w = None \<Longrightarrow> writeProtos ps w = (None, w\<lparr>wbuf := wbuf w @ concat (map enc_proto ps)\<rparr>)"
  using assms by (induction ps arbitrary: w) simp_all

lemma writeProto_enc:
  "werr w = None \<Longrightarrow> writeProto p w = (None, w\<lparr>wbuf := wbuf w @ enc_proto p\<rparr>)"
proof (induction p arbitrary: w)
  case (Proto sn ld lld nu np va nr code ks ps pos locs calls uvs ti sc)
  have ps: "writeProtos ps v = (None, v\<lparr>wbuf := wbuf v @ concat (map enc_proto ps)\<rparr>)" if "werr v = None" for v
    by (rule writeProtos_enc [OF _ that]) (rule Proto.IH)
  note laws = c_str.write_law c_int.write_law c_byte.write_law c_u32.write_law
    c_u32.write_all c_konst.write_all c_int.write_all c_local.write_all c_call.write_all c_str.write_all
  show ?case using Proto.prems by (simp add: Let_def laws ps enc_list_def buf_write_def enc_str_def)
qed

lemma Dump_enc: "Dump p = Inr (le32 headerMagic @ [version] @ enc_proto p)"
  by (simp add: Dump_def Let_def c_u32.write_law c_byte.write_law writeProto_enc)

lemma readProtos_enc:
  assumes "\<And>p t. p \<in> set ps \<Longrightarrow> run_state m (Rd (enc_proto p @ t)) = (Inr (strip p), Rd t)"
  shows "run_state (readProtos (length ps) m) (Rd (concat (map enc_proto ps) @ t)) = (Inr (map strip ps), Rd t)"
  using assms by (induction ps) (simp_all add: run_bind)

lemma length_enc_child: "p \<in> set ps \<Longrightarrow> length (enc_proto p) \<le> length (concat (map enc_proto ps))"
  by (induction ps) auto

lemma run_len_prefix: "run_state readUint32 (Rd (enc_str ti @ t)) = (len32 ti, Rd (ti @ t))"
  by (simp add: enc_str_def c_u32.read_back)

lemma readProto_enc:
  "ok_proto p \<Longrightarrow> length (enc_proto p) \<le> d \<Longrightarrow>
   run_state (readProto d) (Rd (enc_proto p @ t)) = (Inr (strip p), Rd t)"
proof (induction d arbitrary: p t)
  case 0
  then show ?case by (cases p) simp
next
  case (Suc d)
  obtain sn ld lld nu np va nr code ks ps pos locs calls uvs ti sc
    where p: "p = Proto sn ld lld nu np va nr code ks ps pos locs calls uvs ti sc" by (cases p)
  have kids: "run_state (readProto d) (Rd (enc_proto q @ t)) = (Inr (strip q), Rd t)" if "q \<in> set ps" for q t
    using Suc.prems length_enc_child [OF that] that
    by (intro Suc.IH) (auto simp: p list_all_iff)
  have ps: "run_state (readProtos (length ps) (readProto d)) (Rd (concat (map enc_proto ps) @ t)) =
      (Inr (map strip ps), Rd t)" for t
    by (rule readProtos_enc) (rule kids)
  from Suc.prems(1) show ?case
    by (simp add: readProto_body_def blob_rearrange p run_bind c_str.read_back c_int.read_back c_byte.read_back [simplified] read_list
        c_u32.read_back unat_len32 ps run_len_prefix len32_0 run_ReadFull list.pred_True)
qed

section \<open>What is read\<close>

lemma yields_bind:
  "(\<And>x. P x \<Longrightarrow> pred_state Q (f x)) \<Longrightarrow> pred_state P m \<Longrightarrow> pred_state Q (State_Monad.bind m f)"
  by (rule pred_stateI) (auto simp: run_bind split: prod.splits dest!: pred_stateD)

lemma yields_any: "(\<And>x. pred_state Q (f x)) \<Longrightarrow> pred_state Q (State_Monad.bind m f)"
  by (rule pred_stateI) (auto simp: run_bind split: prod.splits dest!: pred_stateD)

lemma yields_weaken: "pred_state P m \<Longrightarrow> (\<And>x. P x \<Longrightarrow> Q x) \<Longrightarrow> pred_state Q m"
  by (rule pred_stateI) (auto dest: pred_stateD)

lemma yields_return: "P x \<Longrightarrow> pred_state P (State_Monad.return x)"
  by (rule pred_stateI) simp

lemma unat_u32: "unat (n :: u32) < 4294967296"
  using unsigned_less [of n, where 'a = nat] by simp

lemma sint_u64: "is_int64 (sint (n :: u64))"
  using sint_greater_eq [of n] sint_less [of n] by (simp add: is_int64_def)

lemma yields_int: "pred_state is_int64 readInt"
  unfolding readInt_def by (intro yields_any yields_return sint_u64)

lemma yields_blob: "pred_state ok_len (ReadFull (unat (n :: u32)))"
  by (rule pred_stateI) (use unat_u32 [of n] in \<open>auto simp: run_ReadFull ok_len_def split: if_splits\<close>)

lemma yields_string: "pred_state ok_len readString"
proof -
  have "pred_state ok_len (if n = 0 then State_Monad.return [] else ReadFull (unat n))" for n :: u32
    by (auto intro: yields_return yields_blob simp: ok_len_def)
  then show ?thesis unfolding readString_def
    by (auto intro!: yields_any yields_return simp: ok_len_def split: if_splits)
qed

lemma yields_readN: "pred_state P m \<Longrightarrow> pred_state (\<lambda>xs. length xs = n \<and> list_all P xs) (readN n m)"
proof (induction n)
  case (Suc n)
  show ?case unfolding readN.simps
    by (rule yields_bind [OF _ Suc.prems], rule yields_bind [OF _ Suc.IH [OF Suc.prems]], rule yields_return) simp
qed (simp add: yields_return)

lemma yields_list: "pred_state P m \<Longrightarrow> pred_state (\<lambda>xs. ok_len xs \<and> list_all P xs) (readList m)"
  unfolding readList_def
proof (rule yields_any)
  fix n :: u32
  assume "pred_state P m"
  from yields_readN [OF this, of "unat n"]
  show "pred_state (\<lambda>xs. ok_len xs \<and> list_all P xs) (readN (unat n) m)"
    by (rule yields_weaken) (use unat_u32 [of n] in \<open>auto simp: ok_len_def\<close>)
qed

lemma yields_constant: "pred_state ok_konst readConstant"
  unfolding readConstant_def
  by (auto intro!: yields_any yields_return sint_u64 yields_bind [OF _ yields_string] split: if_splits)

lemma yields_local: "pred_state ok_local readLocal"
  unfolding readLocal_def
  by (auto intro!: yields_return yields_bind [OF _ yields_string] yields_bind [OF _ yields_int] simp: ok_local_def)

lemma yields_call: "pred_state ok_call readCall"
  unfolding readCall_def
  by (auto intro!: yields_return yields_bind [OF _ yields_string] yields_bind [OF _ yields_int] simp: ok_call_def)

lemma yields_option:
  "(\<And>x. pred_state P (f x)) \<Longrightarrow> pred_state P g \<Longrightarrow> pred_state P (case e of Some x \<Rightarrow> f x | None \<Rightarrow> g)"
  by (simp split: option.split)

lemma yields_sum:
  "(\<And>x. e = Inl x \<Longrightarrow> pred_state P (f x)) \<Longrightarrow> (\<And>y. e = Inr y \<Longrightarrow> pred_state P (g y)) \<Longrightarrow>
   pred_state P (case e of Inl x \<Rightarrow> f x | Inr y \<Rightarrow> g y)"
  by (simp split: sum.split)

abbreviation ok_result :: "('a \<Rightarrow> bool) \<Rightarrow> bc_error + 'a \<Rightarrow> bool" where
  "ok_result P res \<equiv> (case res of Inl _ \<Rightarrow> True | Inr p \<Rightarrow> P p)"

lemma yields_readProtos:
  "pred_state (ok_result P) m \<Longrightarrow> pred_state (ok_result (\<lambda>ps. length ps = n \<and> list_all P ps)) (readProtos n m)"
proof (induction n)
  case (Suc n)
  show ?case unfolding readProtos.simps
    by (rule yields_bind [OF _ Suc.prems])
      (auto intro!: yields_return yields_bind [OF _ Suc.IH] Suc.prems split: sum.splits)
qed (simp add: yields_return)

lemma yields_proto: "pred_state (ok_result ok_proto) (readProto d)"
proof (induction d)
  case (Suc d)
  have ti: "pred_state ok_len (if n > 0 then ReadFull (unat n) else State_Monad.return [])" for n :: u32
    by (auto intro: yields_return yields_blob simp: ok_len_def)
  have ps: "pred_state (ok_result (\<lambda>ps. ok_len ps \<and> list_all ok_proto ps)) (readProtos (unat n) (readProto d))"
    for n :: u32
    by (rule yields_weaken [OF yields_readProtos [OF Suc, of "unat n"]])
      (use unat_u32 [of n] in \<open>auto simp: ok_len_def split: sum.splits\<close>)
  have u32: "pred_state (\<lambda>_. True) readUint32" by (rule pred_stateI) simp
  have code: "pred_state (\<lambda>xs. ok_len xs \<and> list_all (\<lambda>_. True) xs) (readList readUint32)"
    by (rule yields_list [OF u32])
  note binds = yields_bind [OF _ yields_string] yields_bind [OF _ yields_int] yields_bind [OF _ code]
    yields_bind [OF _ yields_list [OF yields_constant]] yields_bind [OF _ ps]
    yields_bind [OF _ yields_list [OF yields_int]] yields_bind [OF _ yields_list [OF yields_local]]
    yields_bind [OF _ yields_list [OF yields_call]] yields_bind [OF _ yields_list [OF yields_string]]
    yields_bind [OF _ ti] yields_any [where m = readByte] yields_any [where m = readUint32]
    yields_any [where m = reader_err]
  show ?case unfolding readProto.simps readProto_body_def
    by (intro binds yields_option yields_sum yields_return) auto
qed (simp add: yields_return)

section \<open>Errors and fuel\<close>

text \<open>
  A reader of a prototype is safe below a size when, with fewer bytes left, it fails only as
  corrupted and never succeeds with an error pending.
\<close>

definition good :: "(bc_error + 'a) \<times> reader \<Rightarrow> bool" where
  "good x = (case x of (Inl e, _) \<Rightarrow> e = ErrCorruptedBytecode | (Inr _, r) \<Rightarrow> rerr r = None)"

definition safe :: "nat \<Rightarrow> (bc_error + 'a) rd \<Rightarrow> bool" where
  "safe n m \<longleftrightarrow> (\<forall>r. length (rest r) < n \<longrightarrow> good (run_state m r))"

definition safe_start :: "nat \<Rightarrow> (bc_error + 'a) rd \<Rightarrow> bool" where
  "safe_start n m \<longleftrightarrow> (\<forall>r. length (rest r) < n \<longrightarrow> rerr r = None \<longrightarrow> good (run_state m r))"

lemma safe_bind:
  assumes "reading m" "\<And>x. safe n (f x)"
  shows "safe n (State_Monad.bind m f)"
  unfolding safe_def
proof (intro allI impI)
  fix r :: reader
  assume r: "length (rest r) < n"
  obtain x r1 where r1: "run_state m r = (x, r1)" by force
  with r reading.shorter [OF assms(1), of r] have "length (rest r1) < n" by simp
  with assms(2) show "good (run_state (State_Monad.bind m f) r)" by (simp add: run_bind r1 safe_def)
qed

lemma safe_readProtos:
  assumes "reading m" "safe_start n m"
  shows "safe_start n (readProtos k m)"
proof (induction k)
  case 0
  show ?case by (simp add: safe_start_def good_def)
next
  case (Suc k)
  show ?case unfolding safe_start_def
  proof (intro allI impI)
    fix r :: reader
    assume r: "length (rest r) < n" "rerr r = None"
    obtain np r1 where r1: "run_state m r = (np, r1)" by force
    have g: "good (np, r1)" using assms(2) r r1 unfolding safe_start_def by metis
    have l: "length (rest r1) < n" using reading.shorter [OF assms(1), of r] r1 r by simp
    show "good (run_state (readProtos (Suc k) m) r)"
    proof (cases np)
      case (Inl e)
      with g r1 show ?thesis by (simp add: run_bind good_def)
    next
      case (Inr p)
      with g have "rerr r1 = None" by (simp add: good_def)
      with Suc l have "good (run_state (readProtos k m) r1)" by (simp add: safe_start_def)
      with Inr r1 show ?thesis
        by (auto simp: run_bind good_def split: prod.splits sum.splits)
    qed
  qed
qed

lemma safe_nested:
  assumes m: "reading m" "safe_start n m" and k: "\<And>ps. safe (Suc n) (k ps)"
  shows "safe (Suc n) (State_Monad.bind readUint32 (\<lambda>len. State_Monad.bind (readProtos (unat len) m)
    (\<lambda>nps. case nps of Inl err \<Rightarrow> State_Monad.return (Inl err) | Inr ps \<Rightarrow> k ps)))"
  unfolding safe_def
proof (intro allI impI)
  fix r :: reader
  assume r: "length (rest r) < Suc n"
  obtain len r1 where r1: "run_state readUint32 r = (len, r1)" by force
  obtain nps r2 where r2: "run_state (readProtos (unat len) m) r1 = (nps, r2)" by force
  have l1: "length (rest r1) \<le> length (rest r)"
    using reading.shorter [OF reading_scalars(2), of r] r1 by simp
  moreover have "length (rest r2) \<le> length (rest r1)"
    using reading.shorter [OF reading_readProtos [OF m(1)], of "unat len" r1] r2 by simp
  ultimately have l2: "length (rest r2) < Suc n" using r by simp
  have "good (nps, r2) \<or> (\<exists>ps. nps = Inr ps)"
  proof (cases "unat len = 0")
    case True
    with r2 show ?thesis by auto
  next
    case False
    then have "len \<noteq> 0" by auto
    with r1 have "rerr r1 = None" "length (rest r1) < length (rest r)"
      by (auto simp: readUint32_def run_guarded_read split: if_splits)
    then have "good (run_state (readProtos (unat len) m) r1)"
      using safe_readProtos [OF m, of "unat len"] r by (simp add: safe_start_def)
    then show ?thesis by (simp add: r2)
  qed
  then show "good (run_state (State_Monad.bind readUint32 (\<lambda>len. State_Monad.bind (readProtos (unat len) m)
    (\<lambda>nps. case nps of Inl err \<Rightarrow> State_Monad.return (Inl err) | Inr ps \<Rightarrow> k ps))) r)"
    using k l2 by (cases nps) (auto simp: run_bind r1 r2 good_def safe_def)
qed

lemma safe_end:
  "safe n (State_Monad.bind reader_err (\<lambda>e. State_Monad.return
     (if e \<noteq> None then Inl ErrCorruptedBytecode else Inr p)))"
  by (auto simp: safe_def run_bind good_def)

lemma safe_body: "reading m \<Longrightarrow> safe_start d m \<Longrightarrow> safe (Suc d) (readProto_body m)"
  unfolding readProto_body_def blob_rearrange
  by (intro safe_nested safe_end safe_bind readings)

lemma safe_readProto: "safe_start d (readProto d)"
proof (induction d)
  case (Suc d)
  from safe_body [OF reading_readProto Suc] show ?case by (simp add: safe_start_def safe_def run_bind)
qed (simp add: safe_start_def)

text \<open>More fuel does not change a success.\<close>

definition refines :: "(bc_error + 'a) rd \<Rightarrow> (bc_error + 'a) rd \<Rightarrow> bool" where
  "refines m m' \<longleftrightarrow> (\<forall>r p r'. run_state m r = (Inr p, r') \<longrightarrow> run_state m' r = (Inr p, r'))"

lemma refines_bind: "(\<And>x. refines (f x) (f' x)) \<Longrightarrow> refines (State_Monad.bind m f) (State_Monad.bind m f')"
  by (auto simp: refines_def run_bind split: prod.splits)

lemma refines_readProtos: "refines m m' \<Longrightarrow> refines (readProtos n m) (readProtos n m')"
proof (induction n)
  case (Suc n)
  then show ?case
    by (fastforce simp: refines_def run_bind split: prod.splits sum.splits)
qed (simp add: refines_def)

lemma refines_nested:
  assumes "refines m m'"
  shows "refines (State_Monad.bind (readProtos n m) (\<lambda>nps. case nps of Inl err \<Rightarrow> State_Monad.return (Inl err) | Inr ps \<Rightarrow> k ps))
    (State_Monad.bind (readProtos n m') (\<lambda>nps. case nps of Inl err \<Rightarrow> State_Monad.return (Inl err) | Inr ps \<Rightarrow> k ps))"
  using refines_readProtos [OF assms, of n]
  by (fastforce simp: refines_def run_bind split: prod.splits sum.splits)

lemma refines_refl: "refines m m"
  by (simp add: refines_def)

lemma refines_body: "refines m m' \<Longrightarrow> refines (readProto_body m) (readProto_body m')"
  unfolding readProto_body_def by (intro refines_nested refines_bind)

lemma refines_fuel: "refines (readProto d) (readProto (Suc d))"
proof (induction d)
  case (Suc d)
  have "refines (case e of Some err \<Rightarrow> State_Monad.return (Inl (IOError err)) | None \<Rightarrow> readProto_body (readProto d))
    (case e of Some err \<Rightarrow> State_Monad.return (Inl (IOError err)) | None \<Rightarrow> readProto_body (readProto (Suc d)))" for e
    by (cases e) (simp_all add: refines_refl refines_body [OF Suc] del: readProto.simps)
  then show ?case unfolding readProto.simps(2) by (rule refines_bind)
qed (simp add: refines_def)

lemma fuel_mono: "d \<le> d' \<Longrightarrow> run_state (readProto d) r = (Inr p, r') \<Longrightarrow> run_state (readProto d') r = (Inr p, r')"
  by (induction d' rule: dec_induct) (use refines_fuel in \<open>auto simp: refines_def\<close>)

section \<open>Loading\<close>

definition finish :: "proto \<Rightarrow> proto" where
  "finish p = (let p = rebuildStringConstants p in
     if length (TypeInfo p) > 0 then SetTypeInfo (TypeInfo p) p else p)"

abbreviation (input) header :: bytes where "header \<equiv> le32 headerMagic @ [version]"

lemma Undump_cases:
  obtains "Undump data = Inl ErrInvalidHeader" | "Undump data = Inl ErrVersionMismatch"
  | "5 \<le> length data"
      "Undump data = (case fst (run_state (readProto (Suc (length data))) (Rd (drop 5 data))) of
         Inl err \<Rightarrow> Inl err | Inr p \<Rightarrow> Inr (finish p))"
proof -
  obtain magic r1 where r1: "run_state readUint32 (Rd data) = (magic, r1)" by force
  obtain ver r2 where r2: "run_state readByte r1 = (ver, r2)" by force
  consider "magic \<noteq> headerMagic" | "magic = headerMagic" "ver \<noteq> version" | "magic = headerMagic" "ver = version"
    by blast
  then show thesis
  proof cases
    case 1
    with r1 show thesis by (intro that(1)) (simp add: Undump_def run_bind)
  next
    case 2
    with r1 r2 show thesis by (intro that(2)) (simp add: Undump_def run_bind)
  next
    case 3
    with r1 have l: "4 \<le> length data" "r1 = Rd (drop 4 data)"
      by (auto simp: readUint32_def run_guarded_read split: if_splits)
    with 3 r2 have t: "5 \<le> length data" "r2 = Rd (drop 5 data)"
      by (auto simp: readByte_def run_guarded_read split: if_splits)
    have "Undump data = (case fst (run_state (readProto (Suc (length data))) (Rd (drop 5 data))) of
         Inl err \<Rightarrow> Inl err | Inr p \<Rightarrow> Inr (finish p))"
      using 3 r1 r2 t by (simp add: Undump_def run_bind finish_def Let_def split: prod.split sum.split)
    with t(1) show thesis by (rule that(3))
  qed
qed

lemma Undump_header:
  "Undump (header @ t) = (case fst (run_state (readProto (Suc (length t + 5))) (Rd t)) of
     Inl err \<Rightarrow> Inl err | Inr p \<Rightarrow> Inr (finish p))"
proof -
  have "length (le32 v) = 4" for v by (simp add: le32_def)
  then show ?thesis
    using c_u32.read_back [of headerMagic "version # t"] c_byte.read_back [of version t]
    by (simp add: Undump_def run_bind finish_def Let_def split: prod.split sum.split)
qed

lemma Undump_Dump: "ok_proto p \<Longrightarrow> Undump (header @ enc_proto p @ t) = Inr (finish (strip p))"
  using readProto_enc [of p "Suc (length (enc_proto p @ t) + 5)" t]
  by (simp add: Undump_header del: readProto.simps append_assoc)

lemma rebuild_strip: "rebuildStringConstants (strip p) = rebuildStringConstants p"
  by (induction p) simp

lemma finish_strip: "finish (strip p) = finish p"
  by (simp add: finish_def rebuild_strip)

lemma rebuild_idem: "rebuildStringConstants (rebuildStringConstants p) = rebuildStringConstants p"
  by (induction p) simp

lemma rebuild_SetTypeInfo: "rebuildStringConstants (SetTypeInfo d p) = SetTypeInfo d (rebuildStringConstants p)"
  by (induction p) simp

lemma SetTypeInfo_idem: "SetTypeInfo d (SetTypeInfo d p) = SetTypeInfo d p"
  by (induction p) simp

lemma TypeInfo_SetTypeInfo: "TypeInfo (SetTypeInfo d p) = d"
  by (cases p) simp

lemma finish_idem: "finish (finish p) = finish p"
  by (simp add: finish_def Let_def rebuild_idem rebuild_SetTypeInfo SetTypeInfo_idem TypeInfo_SetTypeInfo)

lemma ok_SetTypeInfo: "ok_proto p \<Longrightarrow> ok_len d \<Longrightarrow> ok_proto (SetTypeInfo d p)"
  by (induction p) (auto simp: list_all_iff ok_len_def)

lemma ok_rebuild: "ok_proto p \<Longrightarrow> ok_proto (rebuildStringConstants p)"
  by (induction p) (auto simp: list_all_iff ok_len_def)

lemma ok_finish: "ok_proto p \<Longrightarrow> ok_proto (finish p)"
proof -
  assume ok: "ok_proto p"
  then have "ok_len (TypeInfo (rebuildStringConstants p))" by (cases p) simp
  with ok_rebuild [OF ok] show ?thesis by (simp add: finish_def Let_def ok_SetTypeInfo)
qed

section \<open>Properties\<close>

text \<open>
  C5: every function whose lengths and integers fit the format is dumped without an error, and
  loading the dump, with any bytes after it, gives the function back, its string cache rebuilt and
  the type information of the root propagated to the nested functions.
\<close>

theorem dump_undump_roundtrip:
  "ok_proto p \<Longrightarrow> \<exists>bs. Dump p = Inr bs \<and>
     Undump (bs @ junk) = Inr (let q = rebuildStringConstants p in
       if TypeInfo p = [] then q else SetTypeInfo (TypeInfo p) q)"
proof -
  assume ok: "ok_proto p"
  have "TypeInfo (rebuildStringConstants p) = TypeInfo p" by (cases p) simp
  then have "finish p = (let q = rebuildStringConstants p in
      if TypeInfo p = [] then q else SetTypeInfo (TypeInfo p) q)" by (simp add: finish_def Let_def)
  with Undump_Dump [OF ok, of junk] show ?thesis by (simp add: Dump_enc finish_strip)
qed

theorem dump_undump_roundtrip_witness:
  "ok_proto (Proto [97] 1 2 0 0 0 2 [5, 6] [KString [98], KInteger (-1), KBool True]
     [Proto [] 0 0 0 0 0 0 [] [] [] [] [] [] [] [] []] [1, 1] [] [] [[99]] [7] []) \<and>
   (\<exists>bs. Dump (Proto [97] 1 2 0 0 0 2 [5, 6] [KString [98], KInteger (-1), KBool True]
     [Proto [] 0 0 0 0 0 0 [] [] [] [] [] [] [] [] []] [1, 1] [] [] [[99]] [7] []) = Inr bs \<and>
    Undump bs = Inr (Proto [97] 1 2 0 0 0 2 [5, 6] [KString [98], KInteger (-1), KBool True]
     [Proto [] 0 0 0 0 0 0 [] [] [] [] [] [] [] [7] []] [1, 1] [] [] [[99]] [7] [[98], [], []]))"
  using dump_undump_roundtrip [of "Proto [97] 1 2 0 0 0 2 [5, 6] [KString [98], KInteger (-1), KBool True]
     [Proto [] 0 0 0 0 0 0 [] [] [] [] [] [] [] [] []] [1, 1] [] [] [[99]] [7] []" "[]"]
  by (simp add: ok_len_def is_int64_def RebuildStringConstants_def)

text \<open>
  C22: loading is total: it returns a function or one of the three documented errors, never an
  error of the byte reader, and the nesting fuel is never used up; and a function that was loaded,
  from any bytes, is dumped and loaded again unchanged.
\<close>

theorem undump_total_and_stable:
  "(\<exists>e. Undump data = Inl e \<and> e \<in> {ErrInvalidHeader, ErrVersionMismatch, ErrCorruptedBytecode}) \<or>
   (\<exists>p bs. Undump data = Inr p \<and> Dump p = Inr bs \<and> Undump bs = Inr p)"
proof (cases rule: Undump_cases [of data])
  case 3
  let ?x = "run_state (readProto (Suc (length data))) (Rd (drop 5 data))"
  have g: "good ?x" using safe_readProto [of "Suc (length data)"] by (simp add: safe_start_def del: readProto.simps)
  show ?thesis
  proof (cases "fst ?x")
    case (Inl e)
    with g 3 show ?thesis by (auto simp: good_def split: prod.splits)
  next
    case (Inr q)
    then have "ok_proto q" using pred_state_run_state [OF yields_proto, of "Suc (length data)" "Rd (drop 5 data)"] by simp
    then have "ok_proto (finish q)" by (rule ok_finish)
    from Undump_Dump [OF this, of "[]"] have "Undump (header @ enc_proto (finish q)) = Inr (finish q)"
      by (simp add: finish_strip finish_idem)
    then show ?thesis using Inr 3 by (simp add: Dump_enc)
  qed
qed auto

lemma good_success:
  assumes "good x" "fst x = Inr q"
  obtains t where "x = (Inr q, Rd t)"
proof -
  obtain r where r: "x = (Inr q, r)" using assms(2) by (cases x) simp
  with assms(1) have "rerr r = None" by (simp add: good_def)
  then have "r = Rd (rest r)" by (rule reader_collapse)
  with r that show thesis by simp
qed

text \<open>C23: every strict prefix of a dump is rejected.\<close>

theorem truncated_dump_rejected:
  "ok_proto p \<Longrightarrow> Dump p = Inr bs \<Longrightarrow> n < length bs \<Longrightarrow> \<exists>e. Undump (take n bs) = Inl e"
proof (cases rule: Undump_cases [of "take n bs"])
  case 3
  assume ok: "ok_proto p" and d: "Dump p = Inr bs" and n: "n < length bs"
  then have bs: "bs = header @ enc_proto p" by (simp add: Dump_enc)
  have l: "length (le32 v) = 4" for v by (simp add: le32_def)
  let ?pre = "drop 5 (take n bs)"
  have "enc_proto p = drop 5 bs" using bs l by simp
  also have "\<dots> = drop 5 (take n bs @ drop n bs)" by simp
  also have "\<dots> = ?pre @ drop n bs" using 3(1) unfolding drop_append by simp
  finally have pre: "enc_proto p = ?pre @ drop n bs" .
  let ?d = "Suc (length (take n bs))"
  show ?thesis
  proof (cases "fst (run_state (readProto ?d) (Rd ?pre))")
    case (Inl e)
    with 3 show ?thesis by auto
  next
    case (Inr q)
    have "good (run_state (readProto ?d) (Rd ?pre))"
      using safe_readProto [of ?d] by (simp add: safe_start_def del: readProto.simps)
    from this Inr obtain t where t: "run_state (readProto ?d) (Rd ?pre) = (Inr q, Rd t)"
      by (rule good_success)
    from rd_proto.extend [OF this, of "drop n bs"] fuel_mono [of ?d "Suc (length bs)"]
    have "run_state (readProto (Suc (length bs))) (Rd (enc_proto p)) = (Inr q, Rd (t @ drop n bs))"
      using pre n by (simp del: readProto.simps)
    moreover have "run_state (readProto (Suc (length bs))) (Rd (enc_proto p)) = (Inr (strip p), Rd [])"
      using readProto_enc [OF ok, of "Suc (length bs)" "[]"] bs by (simp del: readProto.simps)
    ultimately show ?thesis using n by simp
  qed
qed auto

theorem truncated_dump_rejected_witness:
  "\<exists>e bs. Dump (Proto [97] 1 2 0 0 0 2 [] [] [] [] [] [] [] [] []) = Inr bs \<and> 10 < length bs \<and>
     Undump (take 10 bs) = Inl e"
proof -
  let ?p = "Proto [97] 1 2 0 0 0 2 [] [] [] [] [] [] [] [] []"
  obtain bs where bs: "Dump ?p = Inr bs" "10 < length bs"
    by (simp add: Dump_enc enc_str_def enc_int_def enc_list_def le32_def le64_def)
  have "ok_proto ?p" by (simp add: ok_len_def is_int64_def)
  from truncated_dump_rejected [OF this bs] bs show ?thesis by blast
qed

end
