(* ===== verification/Theory_Interface.thy ===== *)
theory Theory_Interface
  imports Prelude
begin

text \<open>
  What the theory solvers of \<open>types/constraint/theory\<close> have in common: a state that assertions are
  added to, and answers that hold in every model of the assertions. \<open>agrees m s\<close> says that what the
  state has recorded is true in the model \<open>m\<close>.
\<close>

locale theory_solver =
  fixes init :: 's and assert_op :: "'op \<Rightarrow> 's \<Rightarrow> 's" and valid_op :: "'op \<Rightarrow> bool"
    and models :: "'m \<Rightarrow> 'op \<Rightarrow> bool" and invar :: "'s \<Rightarrow> bool" and agrees :: "'m \<Rightarrow> 's \<Rightarrow> bool"
  assumes init_invar: "invar init" and init_agrees: "agrees m init"
    and assert_invar: "invar s \<Longrightarrow> valid_op x \<Longrightarrow> invar (assert_op x s)"
    and assert_agrees: "invar s \<Longrightarrow> valid_op x \<Longrightarrow> agrees m s \<Longrightarrow> models m x \<Longrightarrow> agrees m (assert_op x s)"
begin

lemma assert_all_invar: "\<forall>x \<in> set xs. valid_op x \<Longrightarrow> invar s \<Longrightarrow> invar (fold assert_op xs s)"
  by (induction xs arbitrary: s) (auto simp: assert_invar)

lemma assert_all_agrees:
  "\<forall>x \<in> set xs. valid_op x \<and> models m x \<Longrightarrow> invar s \<Longrightarrow> agrees m s \<Longrightarrow> agrees m (fold assert_op xs s)"
  by (induction xs arbitrary: s) (auto simp: assert_invar assert_agrees)

lemma reachable_invar: "\<forall>x \<in> set xs. valid_op x \<Longrightarrow> invar (fold assert_op xs init)"
  by (rule assert_all_invar) (auto simp: init_invar)

lemma reachable_agrees:
  "\<forall>x \<in> set xs. valid_op x \<and> models m x \<Longrightarrow> agrees m (fold assert_op xs init)"
  by (rule assert_all_agrees) (auto simp: init_invar init_agrees)

end

end
