(* ===== verification/Difference.thy ===== *)
theory Difference
  imports Theory_Interface
begin

text \<open>
  Difference logic, \<open>types/constraint/theory/difference.go\<close>: a matrix of the weights of the
  constraints \<open>x - y \<le> c\<close> between named variables, with a node \<open>0\<close> for the constant, closed by
  Floyd-Warshall in \<open>solve\<close>. A slice is a list, a nil slice of distances is \<open>None\<close>, and the 64-bit
  weights are integers, added with the clamping addition of the code.

  The lemmas show that the solver is sound for every sequence of constraints, and complete when the
  weights are small enough that no sum of them is clamped.
\<close>

section \<open>Model\<close>

abbreviation maxWeight :: int where "maxWeight \<equiv> 4611686018427387903"

type_synonym matrix = "int list list"

record DifferenceGraph =
  nodes :: "string \<rightharpoonup> nat"
  names :: "string list"
  edges :: matrix
  dist :: "matrix option"
  constVals :: "string \<rightharpoonup> int"
  dirty :: bool

definition safeAddInt64 :: "int \<Rightarrow> int \<Rightarrow> int" where
  "safeAddInt64 a b =
     (if b > 0 \<and> a > wrap64 (MaxInt64 - b) then maxWeight
      else if b < 0 \<and> a < wrap64 (MinInt64 - b) then - maxWeight
      else wrap64 (a + b))"

definition getOrCreateNode :: "string \<Rightarrow> DifferenceGraph \<Rightarrow> nat \<times> DifferenceGraph" where
  "getOrCreateNode name g =
     (case nodes g name of
        Some nid \<Rightarrow> (nid, g)
      | None \<Rightarrow>
          let nid = length (names g);
              newEdges = map (\<lambda>row. row @ [maxWeight]) (edges g) @ [replicate (nid + 1) maxWeight]
          in (nid, g\<lparr>nodes := (nodes g)(name \<mapsto> nid), names := names g @ [name],
                   edges := newEdges, dirty := True\<rparr>))"

definition NewDifferenceGraph :: DifferenceGraph where
  "NewDifferenceGraph = snd (getOrCreateNode ''0''
     \<lparr>nodes = Map.empty, names = [], edges = [], dist = None, constVals = Map.empty, dirty = True\<rparr>)"

definition set_entry :: "nat \<Rightarrow> nat \<Rightarrow> int \<Rightarrow> matrix \<Rightarrow> matrix" where
  "set_entry i j c m = m[i := (m ! i)[j := c]]"

definition AddLE :: "string \<Rightarrow> string \<Rightarrow> int \<Rightarrow> DifferenceGraph \<Rightarrow> DifferenceGraph" where
  "AddLE x y c g =
     (case getOrCreateNode x g of (xi, g) \<Rightarrow>
      case getOrCreateNode y g of (yi, g) \<Rightarrow>
        if c < edges g ! xi ! yi then g\<lparr>edges := set_entry xi yi c (edges g), dirty := True\<rparr> else g)"

definition AddLT :: "string \<Rightarrow> string \<Rightarrow> DifferenceGraph \<Rightarrow> DifferenceGraph" where
  "AddLT x y g = AddLE x y (- 1) g"

definition AddGT :: "string \<Rightarrow> string \<Rightarrow> DifferenceGraph \<Rightarrow> DifferenceGraph" where
  "AddGT x y g = AddLE y x (- 1) g"

definition AddGE :: "string \<Rightarrow> string \<Rightarrow> DifferenceGraph \<Rightarrow> DifferenceGraph" where
  "AddGE x y g = AddLE y x 0 g"

definition AddEQ :: "string \<Rightarrow> string \<Rightarrow> DifferenceGraph \<Rightarrow> DifferenceGraph" where
  "AddEQ x y g = AddLE y x 0 (AddLE x y 0 g)"

definition AddConst :: "string \<Rightarrow> int \<Rightarrow> DifferenceGraph \<Rightarrow> DifferenceGraph" where
  "AddConst x c g =
     (let g = g\<lparr>constVals := (constVals g)(x \<mapsto> c)\<rparr>;
          g = AddLE x ''0'' c g
      in if c = MinInt64 then g else AddLE ''0'' x (- c) g)"

definition AddUpperBound :: "string \<Rightarrow> int \<Rightarrow> DifferenceGraph \<Rightarrow> DifferenceGraph" where
  "AddUpperBound x c g = AddLE x ''0'' c g"

definition AddLowerBound :: "string \<Rightarrow> int \<Rightarrow> DifferenceGraph \<Rightarrow> DifferenceGraph" where
  "AddLowerBound x c g = (if c = MinInt64 then g else AddLE ''0'' x (- c) g)"

text \<open>The three loops of \<open>solve\<close>: the initial distances, Floyd-Warshall, the diagonal.\<close>

definition init_dist :: "nat \<Rightarrow> matrix \<Rightarrow> matrix" where
  "init_dist n es = map (\<lambda>i. map (\<lambda>j.
     if i = j then (if es ! i ! i < 0 then es ! i ! i else 0) else es ! i ! j) [0..<n]) [0..<n]"

definition relax :: "nat \<Rightarrow> nat \<Rightarrow> nat \<Rightarrow> matrix \<Rightarrow> matrix" where
  "relax k i j d =
     (if d ! i ! k < maxWeight \<and> d ! k ! j < maxWeight then
        let newDist = safeAddInt64 (d ! i ! k) (d ! k ! j) in
        if newDist < d ! i ! j then set_entry i j newDist d else d
      else d)"

definition floyd_warshall :: "nat \<Rightarrow> matrix \<Rightarrow> matrix" where
  "floyd_warshall n d = fold (\<lambda>k. fold (\<lambda>i. fold (\<lambda>j. relax k i j) [0..<n]) [0..<n]) [0..<n] d"

definition solve :: "DifferenceGraph \<Rightarrow> bool \<times> DifferenceGraph" where
  "solve g =
     (if \<not> dirty g then (dist g \<noteq> None, g)
      else let n = length (names g) in
        if n = 0 then (True, g\<lparr>dirty := False\<rparr>)
        else let d = floyd_warshall n (init_dist n (edges g)) in
          if \<exists>i \<in> set [0..<n]. d ! i ! i < 0 then (False, g\<lparr>dirty := False, dist := None\<rparr>)
          else (True, g\<lparr>dirty := False, dist := Some d\<rparr>))"

definition HasNegativeCycle :: "DifferenceGraph \<Rightarrow> bool \<times> DifferenceGraph" where
  "HasNegativeCycle g = (case solve g of (ok, g) \<Rightarrow> (\<not> ok, g))"

definition GetBound :: "string \<Rightarrow> string \<Rightarrow> DifferenceGraph \<Rightarrow> int option \<times> DifferenceGraph" where
  "GetBound x y g =
     (case solve g of (ok, g) \<Rightarrow>
        if \<not> ok then (None, g)
        else (case (nodes g x, nodes g y) of
          (Some xi, Some yi) \<Rightarrow>
            let w = the (dist g) ! xi ! yi in
            (if w \<ge> maxWeight then None else Some w, g)
        | _ \<Rightarrow> (None, g)))"

definition GetUpperBound :: "string \<Rightarrow> DifferenceGraph \<Rightarrow> int option \<times> DifferenceGraph" where
  "GetUpperBound x g = (case constVals g x of Some c \<Rightarrow> (Some c, g) | None \<Rightarrow> GetBound x ''0'' g)"

definition GetLowerBound :: "string \<Rightarrow> DifferenceGraph \<Rightarrow> int option \<times> DifferenceGraph" where
  "GetLowerBound x g =
     (case constVals g x of
        Some c \<Rightarrow> (Some c, g)
      | None \<Rightarrow> (case GetBound ''0'' x g of
          (None, g) \<Rightarrow> (None, g)
        | (Some bound, g) \<Rightarrow> if bound = MinInt64 then (None, g) else (Some (- bound), g)))"

text \<open>\<open>Clone\<close> copies every field; a copy and its source are equal values.\<close>

definition Clone :: "DifferenceGraph \<Rightarrow> DifferenceGraph" where
  "Clone g = \<lparr>nodes = nodes g, names = names g, edges = map (\<lambda>row. row) (edges g),
     dist = map_option (map (\<lambda>row. row)) (dist g), constVals = constVals g, dirty = dirty g\<rparr>"

section \<open>Matrices\<close>

definition square :: "nat \<Rightarrow> matrix \<Rightarrow> bool" where
  "square n m \<longleftrightarrow> length m = n \<and> (\<forall>row \<in> set m. length row = n)"

abbreviation (input) ent :: "matrix \<Rightarrow> nat \<Rightarrow> nat \<Rightarrow> int" where "ent m i j \<equiv> m ! i ! j"

lemma squareD: "square n m \<Longrightarrow> length m = n" "square n m \<Longrightarrow> i < n \<Longrightarrow> length (m ! i) = n"
  by (auto simp: square_def)

lemma square_set_entry: "square n m \<Longrightarrow> i < n \<Longrightarrow> square n (set_entry i j c m)"
  by (auto simp: square_def set_entry_def dest!: set_update_subset_insert [THEN subsetD])

lemma ent_set_entry:
  "square n m \<Longrightarrow> i < n \<Longrightarrow> j < n \<Longrightarrow> a < n \<Longrightarrow> b < n \<Longrightarrow>
   ent (set_entry i j c m) a b = (if a = i \<and> b = j then c else ent m a b)"
  by (auto simp: set_entry_def squareD nth_list_update)

lemma square_init: "square n (init_dist n es)"
  by (auto simp: square_def init_dist_def)

lemma ent_init: "i < n \<Longrightarrow> j < n \<Longrightarrow>
  ent (init_dist n es) i j = (if i = j then min 0 (ent es i i) else ent es i j)"
  by (auto simp: init_dist_def)

lemma safeAdd_ge:
  assumes "is_int64 a" "is_int64 b" "a < maxWeight" "b < maxWeight"
  shows "a + b \<le> safeAddInt64 a b" and "is_int64 (safeAddInt64 a b)"
    and "MinInt64 \<le> a + b \<Longrightarrow> safeAddInt64 a b = a + b"
proof -
  have up: "a + b \<le> MaxInt64" using assms by simp
  have w1: "b > 0 \<Longrightarrow> wrap64 (MaxInt64 - b) = MaxInt64 - b" using assms by (simp add: is_int64_def)
  have w2: "b < 0 \<Longrightarrow> wrap64 (MinInt64 - b) = MinInt64 - b" using assms by (simp add: is_int64_def)
  have w3: "MinInt64 \<le> a + b \<Longrightarrow> wrap64 (a + b) = a + b" using up by (simp add: is_int64_def)
  show "a + b \<le> safeAddInt64 a b"
  proof (cases "MinInt64 \<le> a + b")
    case True
    then show ?thesis using up w1 w2 w3 by (auto simp: safeAddInt64_def)
  next
    case False
    then have "b < 0" using assms by (auto simp: is_int64_def)
    with False w2 show ?thesis by (auto simp: safeAddInt64_def)
  qed
  show "is_int64 (safeAddInt64 a b)"
    by (simp add: safeAddInt64_def is_int64_def [of maxWeight] is_int64_def [of "- maxWeight"])
  show "MinInt64 \<le> a + b \<Longrightarrow> safeAddInt64 a b = a + b"
    using up w1 w2 w3 by (auto simp: safeAddInt64_def)
qed

section \<open>One relaxation\<close>

definition mat_ok :: "nat \<Rightarrow> matrix \<Rightarrow> bool" where
  "mat_ok n d \<longleftrightarrow> square n d \<and> (\<forall>i < n. \<forall>j < n. is_int64 (ent d i j) \<and> ent d i j \<le> maxWeight)"

text \<open>A valuation of the nodes satisfies the finite entries of a matrix.\<close>

definition holds :: "nat \<Rightarrow> (nat \<Rightarrow> int) \<Rightarrow> matrix \<Rightarrow> bool" where
  "holds n u d \<longleftrightarrow> (\<forall>i < n. \<forall>j < n. ent d i j < maxWeight \<longrightarrow> u i - u j \<le> ent d i j)"

text \<open>The value of an entry after a round of the outer loop.\<close>

definition rnd :: "nat \<Rightarrow> matrix \<Rightarrow> nat \<Rightarrow> nat \<Rightarrow> int" where
  "rnd k d i j = (if ent d i k < maxWeight \<and> ent d k j < maxWeight
     then min (ent d i j) (safeAddInt64 (ent d i k) (ent d k j)) else ent d i j)"

lemma mat_okD: "mat_ok n d \<Longrightarrow> square n d" "mat_ok n d \<Longrightarrow> i < n \<Longrightarrow> j < n \<Longrightarrow> is_int64 (ent d i j)"
  "mat_ok n d \<Longrightarrow> i < n \<Longrightarrow> j < n \<Longrightarrow> ent d i j \<le> maxWeight"
  by (simp_all add: mat_ok_def)

lemma ent_relax:
  assumes "square n d" "i < n" "j < n" "a < n" "b < n"
  shows "ent (relax k i j d) a b = (if a = i \<and> b = j then rnd k d i j else ent d a b)"
  using ent_set_entry [OF assms] by (auto simp: relax_def rnd_def Let_def)

lemma square_relax: "square n d \<Longrightarrow> i < n \<Longrightarrow> square n (relax k i j d)"
  by (simp add: relax_def Let_def square_set_entry)

lemma rnd_le: "rnd k d i j \<le> ent d i j"
  by (simp add: rnd_def)

lemma rnd_int64: "mat_ok n d \<Longrightarrow> k < n \<Longrightarrow> i < n \<Longrightarrow> j < n \<Longrightarrow> is_int64 (rnd k d i j)"
  by (auto simp: rnd_def min_def mat_okD safeAdd_ge(2))

lemma mat_ok_relax:
  assumes "mat_ok n d" "k < n" "i < n" "j < n"
  shows "mat_ok n (relax k i j d)"
  unfolding mat_ok_def
proof (intro conjI allI impI)
  show "square n (relax k i j d)" using assms by (simp add: square_relax mat_okD)
  fix a b assume ab: "a < n" "b < n"
  note e = ent_relax [OF mat_okD(1) [OF assms(1)] assms(3,4) ab]
  show "is_int64 (ent (relax k i j d) a b)"
    unfolding e using assms ab rnd_int64 mat_okD(2) by simp
  show "ent (relax k i j d) a b \<le> maxWeight"
    unfolding e using mat_okD(3) [OF assms(1) ab] rnd_le [of k d a b] by auto
qed

lemma holds_relax:
  assumes "mat_ok n d" "holds n u d" "k < n" "i < n" "j < n"
  shows "holds n u (relax k i j d)"
  unfolding holds_def
proof (intro allI impI)
  fix a b assume ab: "a < n" "b < n" and fin: "ent (relax k i j d) a b < maxWeight"
  note e = ent_relax [OF mat_okD(1) [OF assms(1)] assms(4,5) ab]
  have old: "ent d x y < maxWeight \<Longrightarrow> u x - u y \<le> ent d x y" if "x < n" "y < n" for x y
    using assms(2) that by (simp add: holds_def)
  show "u a - u b \<le> ent (relax k i j d) a b"
  proof (cases "a = i \<and> b = j \<and> ent d i k < maxWeight \<and> ent d k j < maxWeight \<and>
      safeAddInt64 (ent d i k) (ent d k j) < ent d i j")
    case True
    then have "ent d i k + ent d k j \<le> safeAddInt64 (ent d i k) (ent d k j)"
      using assms by (intro safeAdd_ge(1)) (simp_all add: mat_okD)
    moreover have "u i - u j \<le> ent d i k + ent d k j" using True old [of i k] old [of k j] assms by simp
    moreover have "ent (relax k i j d) a b = safeAddInt64 (ent d i k) (ent d k j)"
      using True e by (simp add: rnd_def)
    ultimately show ?thesis using True by simp
  next
    case False
    then have "ent (relax k i j d) a b = ent d a b" using e by (auto simp: rnd_def min_def)
    with fin old [OF ab] show ?thesis by simp
  qed
qed

lemma relax_le:
  "square n d \<Longrightarrow> i < n \<Longrightarrow> j < n \<Longrightarrow> a < n \<Longrightarrow> b < n \<Longrightarrow> ent (relax k i j d) a b \<le> ent d a b"
  using rnd_le by (auto simp: ent_relax)

section \<open>Floyd-Warshall\<close>

definition round :: "nat \<Rightarrow> nat \<Rightarrow> matrix \<Rightarrow> matrix" where
  "round n k = fold (\<lambda>(i, j). relax k i j) (List.product [0..<n] [0..<n])"

lemma fold_product:
  "fold (\<lambda>i. fold (\<lambda>j. f i j) ys) xs s = fold (\<lambda>(i, j). f i j) (List.product xs ys) s"
  by (induction xs arbitrary: s) (simp_all add: fold_map comp_def)

lemma floyd_warshall_rounds: "floyd_warshall n d = fold (round n) [0..<n] d"
  unfolding floyd_warshall_def round_def by (rule fold_cong) (auto simp: fold_product)

lemma round_invariant:
  assumes "P d" "\<And>i j d. i < n \<Longrightarrow> j < n \<Longrightarrow> P d \<Longrightarrow> P (relax k i j d)"
  shows "P (round n k d)"
  unfolding round_def
proof (rule fold_invariant [where Q = "\<lambda>(i, j). i < n \<and> j < n" and P = P])
  show "P ((case p of (i, j) \<Rightarrow> relax k i j) e)" if "case p of (i, j) \<Rightarrow> i < n \<and> j < n" "P e" for p e
    using that assms(2) by (cases p) simp
qed (use assms(1) in auto)

lemma rounds_invariant:
  assumes "P d" "\<And>k i j d. k < n \<Longrightarrow> i < n \<Longrightarrow> j < n \<Longrightarrow> P d \<Longrightarrow> P (relax k i j d)" "\<forall>k \<in> set ks. k < n"
  shows "P (fold (round n) ks d)"
proof (rule fold_invariant [where Q = "\<lambda>k. k < n" and P = P])
  show "P (round n k e)" if "k < n" "P e" for k e
    by (rule round_invariant [where P = P]) (use that assms(2) in auto)
qed (use assms(1,3) in auto)

lemma floyd_sound:
  assumes "mat_ok n d" "holds n u d"
  shows "mat_ok n (floyd_warshall n d) \<and> holds n u (floyd_warshall n d)"
  unfolding floyd_warshall_rounds using assms
  by (intro rounds_invariant [where P = "\<lambda>d. mat_ok n d \<and> holds n u d"]) (auto simp: mat_ok_relax holds_relax)

lemma mat_ok_rounds: "mat_ok n d \<Longrightarrow> \<forall>k \<in> set ks. k < n \<Longrightarrow> mat_ok n (fold (round n) ks d)"
  by (rule rounds_invariant) (auto simp: mat_ok_relax)

lemma rounds_le:
  assumes "mat_ok n d" "\<forall>k \<in> set ks. k < n" "a < n" "b < n"
  shows "ent (fold (round n) ks d) a b \<le> ent d a b"
proof -
  have "mat_ok n (fold (round n) ks d) \<and> ent (fold (round n) ks d) a b \<le> ent d a b"
  proof (rule rounds_invariant)
    fix k i j e
    assume "k < n" "i < n" "j < n" "mat_ok n e \<and> ent e a b \<le> ent d a b"
    with assms(3,4) show "mat_ok n (relax k i j e) \<and> ent (relax k i j e) a b \<le> ent d a b"
      using mat_ok_relax relax_le [OF mat_okD(1), of n e i j a b k] by fastforce
  qed (use assms in auto)
  then show ?thesis ..
qed

text \<open>With a diagonal entry that is not negative, a round changes row and column \<open>k\<close> by nothing.\<close>

lemma rnd_row_col:
  assumes "mat_ok n d" "k < n" "ent d k k \<ge> 0" "i < n"
  shows "rnd k d i k = ent d i k" "rnd k d k i = ent d k i"
proof -
  have "ent d i k \<le> safeAddInt64 (ent d i k) (ent d k k)" if "ent d i k < maxWeight" "ent d k k < maxWeight"
    using that assms safeAdd_ge(1) [of "ent d i k" "ent d k k"] by (simp add: mat_okD)
  then show "rnd k d i k = ent d i k" by (auto simp: rnd_def min_def)
  have "ent d k i \<le> safeAddInt64 (ent d k k) (ent d k i)" if "ent d k i < maxWeight" "ent d k k < maxWeight"
    using that assms safeAdd_ge(1) [of "ent d k k" "ent d k i"] by (simp add: mat_okD)
  then show "rnd k d k i = ent d k i" by (auto simp: rnd_def min_def)
qed

lemma ent_fold_relax:
  assumes ok: "mat_ok n d" and k: "k < n" "ent d k k \<ge> 0"
  shows "\<forall>(i, j) \<in> set ps. i < n \<and> j < n \<Longrightarrow> a < n \<Longrightarrow> b < n \<Longrightarrow>
    mat_ok n (fold (\<lambda>(i, j). relax k i j) ps d) \<and>
    ent (fold (\<lambda>(i, j). relax k i j) ps d) a b = (if (a, b) \<in> set ps then rnd k d a b else ent d a b)"
proof (induction ps arbitrary: a b rule: rev_induct)
  case Nil
  then show ?case using ok by simp
next
  case (snoc p ps)
  obtain i j where p: "p = (i, j)" by force
  let ?e = "fold (\<lambda>(i, j). relax k i j) ps d"
  have ij: "i < n" "j < n" using snoc.prems(1) p by auto
  have IH: "mat_ok n ?e" "ent ?e x y = (if (x, y) \<in> set ps then rnd k d x y else ent d x y)"
    if "x < n" "y < n" for x y
    using snoc.IH [OF _ that] snoc.prems(1) by auto
  have row: "ent ?e i k = ent d i k" "ent ?e k j = ent d k j"
    using IH(2) [OF ij(1) k(1)] IH(2) [OF k(1) ij(2)] rnd_row_col [OF ok k] ij by auto
  have "rnd k ?e i j = rnd k d i j"
    using IH(2) [OF ij] unfolding rnd_def [of k ?e] row by (auto simp: rnd_def)
  then have "ent (relax k i j ?e) a b = (if (a, b) \<in> set (ps @ [p]) then rnd k d a b else ent d a b)"
    using ent_relax [OF mat_okD(1) [OF IH(1) [OF ij]] ij snoc.prems(2,3), of k] IH(2) [OF snoc.prems(2,3)] p
    by auto
  then show ?case using mat_ok_relax [OF IH(1) [OF ij] k(1) ij] by (simp add: p)
qed

lemma ent_round:
  assumes "mat_ok n d" "k < n" "ent d k k \<ge> 0" "a < n" "b < n"
  shows "ent (round n k d) a b = rnd k d a b"
  using ent_fold_relax [OF assms(1-3) _ assms(4,5), of "List.product [0..<n] [0..<n]"] assms(4,5)
  by (auto simp: round_def)

text \<open>
  Through the nodes of \<open>S\<close> the matrix satisfies the triangle inequality, and its finite entries are
  bounded by \<open>B\<close>.
\<close>

definition closed :: "nat \<Rightarrow> nat set \<Rightarrow> int \<Rightarrow> matrix \<Rightarrow> bool" where
  "closed n S B d \<longleftrightarrow>
     (\<forall>i < n. \<forall>j < n. ent d i j < maxWeight \<longrightarrow> \<bar>ent d i j\<bar> \<le> B) \<and>
     (\<forall>m \<in> S. \<forall>i < n. \<forall>j < n. ent d i m < maxWeight \<longrightarrow> ent d m j < maxWeight \<longrightarrow>
        ent d i j \<le> ent d i m + ent d m j)"

lemma closedD:
  assumes "closed n S B d" "i < n" "j < n"
  shows "ent d i j < maxWeight \<Longrightarrow> \<bar>ent d i j\<bar> \<le> B"
    and "m \<in> S \<Longrightarrow> ent d i m < maxWeight \<Longrightarrow> ent d m j < maxWeight \<Longrightarrow> ent d i j \<le> ent d i m + ent d m j"
  using assms by (simp_all add: closed_def)

lemma rnd_exact:
  assumes "mat_ok n d" "closed n S B d" "2 * B < maxWeight" "k < n" "i < n" "j < n"
  shows "rnd k d i j = (if ent d i k < maxWeight \<and> ent d k j < maxWeight
     then min (ent d i j) (ent d i k + ent d k j) else ent d i j)"
proof (cases "ent d i k < maxWeight \<and> ent d k j < maxWeight")
  case True
  then have "\<bar>ent d i k\<bar> \<le> B" "\<bar>ent d k j\<bar> \<le> B"
    using closedD(1) [OF assms(2)] assms(4-6) by blast+
  with assms(3) have "MinInt64 \<le> ent d i k + ent d k j" by linarith
  with True assms show ?thesis by (simp add: rnd_def safeAdd_ge(3) mat_okD)
qed (auto simp: rnd_def)

lemma rnd_finite:
  assumes "mat_ok n d" "closed n S B d" "2 * B < maxWeight" "k < n" "i < n" "j < n" "rnd k d i j < maxWeight"
  shows "ent d i j < maxWeight \<and> rnd k d i j = ent d i j \<or>
    ent d i k < maxWeight \<and> ent d k j < maxWeight \<and> rnd k d i j = ent d i k + ent d k j"
  using assms(7) unfolding rnd_exact [OF assms(1-6)] by (auto simp: min_def split: if_splits)

lemma rnd_bound:
  assumes "mat_ok n d" "closed n S B d" "2 * B < maxWeight" "k < n" "i < n" "j < n" "rnd k d i j < maxWeight"
  shows "\<bar>rnd k d i j\<bar> \<le> 2 * B"
proof -
  note b = closedD(1) [OF assms(2)]
  from rnd_finite [OF assms] consider "ent d i j < maxWeight" "rnd k d i j = ent d i j" |
    "ent d i k < maxWeight" "ent d k j < maxWeight" "rnd k d i j = ent d i k + ent d k j" by blast
  then show ?thesis
  proof cases
    case 1
    then show ?thesis using b [OF assms(5,6)] by linarith
  next
    case 2
    then show ?thesis using b [OF assms(5,4)] b [OF assms(4,6)] by linarith
  qed
qed

lemma closed_round:
  assumes ok: "mat_ok n d" and cl: "closed n S B d" and B: "2 * B < maxWeight" and k: "k < n" "ent d k k \<ge> 0"
    and S: "S \<subseteq> {..<n}"
  shows "closed n (insert k S) (2 * B) (round n k d)"
proof -
  note R = ent_round [OF ok k] and F = rnd_finite [OF ok cl B k(1)] and X = rnd_exact [OF ok cl B k(1)]
  note C = closedD(2) [OF cl] and b = closedD(1) [OF cl]
  have via: "rnd k d i j \<le> ent d i k + ent d k j" if "i < n" "j < n" "ent d i k < maxWeight" "ent d k j < maxWeight" for i j
    using that X [OF that(1,2)] by simp
  have tri: "ent d k j < maxWeight \<and> ent d k j \<le> ent d k m + ent d m j"
    if "m \<in> S" "j < n" "ent d k m < maxWeight" "ent d m j < maxWeight" for m j
    using C [OF k(1) that(2,1,3,4)] b [OF k(1), of m] b [of m j] S that B by fastforce
  have tri': "ent d i k < maxWeight \<and> ent d i k \<le> ent d i m + ent d m k"
    if "m \<in> S" "i < n" "ent d i m < maxWeight" "ent d m k < maxWeight" for m i
    using C [OF that(2) k(1) that(1,3,4)] b [OF that(2), of m] b [of m k] S k that B by fastforce
  have step: "rnd k d i j \<le> rnd k d i m + rnd k d m j"
    if m: "m \<in> S" and ij: "i < n" "j < n" and fin: "rnd k d i m < maxWeight" "rnd k d m j < maxWeight" for m i j
  proof -
    have mn: "m < n" using S m by auto
    from F [OF ij(1) mn fin(1)] consider
      (a) "ent d i m < maxWeight" "rnd k d i m = ent d i m" |
      (b) "ent d i k < maxWeight" "ent d k m < maxWeight" "rnd k d i m = ent d i k + ent d k m" by blast
    note left = this
    from F [OF mn ij(2) fin(2)] consider
      (c) "ent d m j < maxWeight" "rnd k d m j = ent d m j" |
      (e) "ent d m k < maxWeight" "ent d k j < maxWeight" "rnd k d m j = ent d m k + ent d k j" by blast
    note right = this
    show ?thesis
    proof (cases rule: left)
      case a
      show ?thesis
      proof (cases rule: right)
        case c
        with a C [OF ij m] rnd_le [of k d i j] show ?thesis by simp
      next
        case e
        with a tri' [OF m ij(1)] via [OF ij] show ?thesis by simp
      qed
    next
      case b
      show ?thesis
      proof (cases rule: right)
        case c
        with b tri [OF m ij(2)] via [OF ij] show ?thesis by simp
      next
        case e
        with b C [OF k(1) k(1) m] via [OF ij] k(2) show ?thesis by simp
      qed
    qed
  qed
  have new: "rnd k d i j \<le> rnd k d i k + rnd k d k j" if "i < n" "j < n" "rnd k d i k < maxWeight" "rnd k d k j < maxWeight" for i j
    using that via [OF that(1,2)] rnd_row_col [OF ok k] by simp
  show ?thesis unfolding closed_def
  proof (intro conjI allI ballI impI)
    fix i j assume ij: "i < n" "j < n"
    show "\<bar>ent (round n k d) i j\<bar> \<le> 2 * B" if "ent (round n k d) i j < maxWeight"
      using that rnd_bound [OF ok cl B k(1) ij] by (simp add: R [OF ij])
    fix m assume m: "m \<in> insert k S" and fin: "ent (round n k d) i m < maxWeight" "ent (round n k d) m j < maxWeight"
    then have mn: "m < n" using S k(1) by auto
    show "ent (round n k d) i j \<le> ent (round n k d) i m + ent (round n k d) m j"
      using m fin step [OF _ ij] new [OF ij] by (auto simp: R ij mn)
  qed
qed

lemma rounds_closed:
  assumes ok: "mat_ok n d" and cl: "closed n {} W d" and W: "W * 2 ^ n < maxWeight" "0 \<le> W"
    and diag: "\<forall>i < n. ent (fold (round n) [0..<n] d) i i \<ge> 0"
  shows "K \<le> n \<Longrightarrow> closed n {..<K} (W * 2 ^ K) (fold (round n) [0..<K] d)"
proof (induction K)
  case (Suc K)
  let ?e = "fold (round n) [0..<K] d"
  have ok': "mat_ok n ?e" using Suc.prems by (intro mat_ok_rounds [OF ok]) auto
  have split: "fold (round n) [0..<n] d = fold (round n) [K..<n] ?e"
    using Suc.prems by (metis fold_append comp_apply le_add_diff_inverse upt_add_eq_append zero_le Suc_leD)
  have "ent (fold (round n) [K..<n] ?e) K K \<le> ent ?e K K"
    using Suc.prems by (intro rounds_le [OF ok']) auto
  then have "ent ?e K K \<ge> 0" using diag Suc.prems unfolding split by (meson Suc_le_lessD order_trans)
  moreover have "W * 2 ^ Suc K \<le> W * 2 ^ n"
    using Suc.prems W(2) by (intro mult_left_mono power_increasing) auto
  then have "2 * (W * 2 ^ K) < maxWeight" using W(1) by simp
  ultimately have "closed n (insert K {..<K}) (2 * (W * 2 ^ K)) (round n K ?e)"
    using Suc ok' by (intro closed_round) auto
  then show ?case by (simp add: lessThan_Suc mult.commute mult.left_commute)
qed (use cl in simp)

section \<open>A model from a closed matrix\<close>

definition pot :: "nat \<Rightarrow> matrix \<Rightarrow> nat \<Rightarrow> int" where
  "pot n d i = Min (ent d i ` {j. j < n \<and> ent d i j < maxWeight})"

lemma pot_props:
  assumes cl: "closed n {..<n} B d" and B: "2 * B < maxWeight" and diag: "\<forall>i < n. ent d i i = 0" and i: "i < n"
  shows "\<bar>pot n d i\<bar> \<le> B" and "j < n \<Longrightarrow> ent d i j < maxWeight \<Longrightarrow> pot n d i - pot n d j \<le> ent d i j"
proof -
  let ?S = "\<lambda>i. {j. j < n \<and> ent d i j < maxWeight}"
  have mem: "pot n d i \<in> ent d i ` ?S i" if "i < n" for i
    unfolding pot_def using that diag by (intro Min_in) auto
  from mem [OF i] show "\<bar>pot n d i\<bar> \<le> B" using closedD(1) [OF cl i] by auto
  assume j: "j < n" "ent d i j < maxWeight"
  from mem [OF j(1)] obtain m where m: "m < n" "ent d j m < maxWeight" "pot n d j = ent d j m" by blast
  have tri: "ent d i m \<le> ent d i j + ent d j m"
    using closedD(2) [OF cl i m(1), of j] j m by simp
  also have "\<dots> \<le> 2 * B" using closedD(1) [OF cl i j] closedD(1) [OF cl j(1) m(1,2)] by simp
  finally have "pot n d i \<le> ent d i m" unfolding pot_def using m(1) B by (intro Min_le) auto
  with tri m(3) show "pot n d i - pot n d j \<le> ent d i j" by simp
qed

text \<open>A model in which all distances to one node are attained.\<close>

lemma tight_model:
  assumes cl: "closed n {..<n} B d" and B: "2 * B < maxWeight" and diag: "\<forall>i < n. ent d i i = 0" and y: "y < n"
  shows "\<exists>u. holds n u d \<and> (\<forall>x < n. ent d x y < maxWeight \<longrightarrow> u x - u y = ent d x y)"
proof -
  define u where "u i = (if ent d i y < maxWeight then ent d i y else pot n d i + 3 * B)" for i
  note P = pot_props [OF cl B diag] and C = closedD(2) [OF cl] and b = closedD(1) [OF cl]
  have "u i - u j \<le> ent d i j" if ij: "i < n" "j < n" and fin: "ent d i j < maxWeight" for i j
  proof (cases "ent d j y < maxWeight")
    case True
    then have tri: "ent d i y \<le> ent d i j + ent d j y" using C [OF ij(1) y, of j] ij fin by simp
    also have "\<dots> \<le> 2 * B" using b [OF ij fin] b [OF ij(2) y True] by simp
    finally show ?thesis using True tri B by (simp add: u_def)
  next
    case False
    then show ?thesis using P(1) [OF ij(2)] P(2) [OF ij fin] b [OF ij fin] b [OF ij(1) y]
      by (auto simp: u_def)
  qed
  moreover have "u y = 0" using diag y by (simp add: u_def)
  ultimately show ?thesis by (intro exI [of _ u]) (simp add: holds_def, simp add: u_def)
qed

lemma mat_ok_init: "mat_ok n es \<Longrightarrow> mat_ok n (init_dist n es)"
  by (auto simp: mat_ok_def square_init ent_init min_def is_int64_def)

lemma holds_init: "holds n u es \<longleftrightarrow> holds n u (init_dist n es)"
proof -
  have "(ent es i j < maxWeight \<longrightarrow> u i - u j \<le> ent es i j) \<longleftrightarrow>
      (ent (init_dist n es) i j < maxWeight \<longrightarrow> u i - u j \<le> ent (init_dist n es) i j)"
    if "i < n" "j < n" for i j
    unfolding ent_init [OF that] by (cases "i = j") (auto simp: min_def)
  then show ?thesis unfolding holds_def by blast
qed

text \<open>The closed matrix of a consistent system is exact.\<close>

lemma floyd_complete:
  assumes ok: "mat_ok n es" and W: "2 * (W * 2 ^ n) < maxWeight" "0 \<le> W"
    and small: "\<forall>i < n. \<forall>j < n. ent es i j < maxWeight \<longrightarrow> \<bar>ent es i j\<bar> \<le> W"
    and diag: "\<forall>i < n. ent (floyd_warshall n (init_dist n es)) i i \<ge> 0" and y: "y < n"
  shows "\<exists>u. holds n u es \<and> (\<forall>x < n. ent (floyd_warshall n (init_dist n es)) x y < maxWeight \<longrightarrow>
    u x - u y = ent (floyd_warshall n (init_dist n es)) x y)"
proof -
  let ?i = "init_dist n es"
  let ?d = "floyd_warshall n ?i"
  note oki = mat_ok_init [OF ok]
  have le: "ent ?d i j \<le> ent ?i i j" if "i < n" "j < n" for i j
    unfolding floyd_warshall_rounds using that by (intro rounds_le [OF oki]) auto
  have "closed n {} W ?i" unfolding closed_def
  proof (intro conjI allI impI)
    fix i j assume ij: "i < n" "j < n" and "ent ?i i j < maxWeight"
    with small [rule_format, of i j] W(2) show "\<bar>ent ?i i j\<bar> \<le> W"
      unfolding ent_init [OF ij] by (cases "i = j") (auto simp: min_def)
  qed simp
  moreover have "0 \<le> W * 2 ^ n" using W(2) by simp
  then have "W * 2 ^ n < maxWeight" using W(1) by linarith
  ultimately have "closed n {..<n} (W * 2 ^ n) ?d"
    using rounds_closed [OF oki _ _ W(2), of n] diag unfolding floyd_warshall_rounds by blast
  moreover have "\<forall>i < n. ent ?d i i = 0"
    using le diag by (fastforce simp: ent_init)
  ultimately obtain u where u: "holds n u ?d" "\<forall>x < n. ent ?d x y < maxWeight \<longrightarrow> u x - u y = ent ?d x y"
    using tight_model [OF _ W(1) _ y] by blast
  have "holds n u ?i" unfolding holds_def
  proof (intro allI impI)
    fix i j assume "i < n" "j < n" "ent ?i i j < maxWeight"
    then show "u i - u j \<le> ent ?i i j" using le [of i j] u(1) by (force simp: holds_def)
  qed
  with u(2) holds_init show ?thesis by blast
qed

section \<open>Graphs\<close>

text \<open>
  The names are distinct and numbered by \<open>nodes\<close>, the zero node is there, the weights are clamped
  64-bit integers, and a graph that is not dirty has its distances.
\<close>

definition solution :: "DifferenceGraph \<Rightarrow> matrix" where
  "solution g = floyd_warshall (length (names g)) (init_dist (length (names g)) (edges g))"

definition consistent :: "DifferenceGraph \<Rightarrow> bool" where
  "consistent g \<longleftrightarrow> (\<forall>i < length (names g). ent (solution g) i i \<ge> 0)"

definition graph_ok :: "DifferenceGraph \<Rightarrow> bool" where
  "graph_ok g \<longleftrightarrow> distinct (names g) \<and> (\<forall>x i. nodes g x = Some i \<longleftrightarrow> i < length (names g) \<and> names g ! i = x) \<and>
     nodes g ''0'' \<noteq> None \<and> mat_ok (length (names g)) (edges g) \<and>
     (\<not> dirty g \<longrightarrow> dist g = (if consistent g then Some (solution g) else None))"

definition sat :: "(string \<Rightarrow> int) \<Rightarrow> DifferenceGraph \<Rightarrow> bool" where
  "sat v g \<longleftrightarrow> holds (length (names g)) (\<lambda>i. v (names g ! i)) (edges g)"

lemma graph_okD:
  assumes "graph_ok g"
  shows "distinct (names g)" "nodes g x = Some i \<longleftrightarrow> i < length (names g) \<and> names g ! i = x"
    "nodes g ''0'' \<noteq> None" "mat_ok (length (names g)) (edges g)"
    "\<not> dirty g \<Longrightarrow> dist g = (if consistent g then Some (solution g) else None)"
  using assms unfolding graph_ok_def by blast+

lemma names_nonempty: "graph_ok g \<Longrightarrow> length (names g) \<noteq> 0"
  using graph_okD(2) [of g "''0''"] graph_okD(3) [of g] by fastforce

lemma solve_spec:
  assumes "graph_ok g"
  shows "\<exists>g'. solve g = (consistent g, g') \<and> graph_ok g' \<and> nodes g' = nodes g \<and> names g' = names g \<and>
    edges g' = edges g \<and> constVals g' = constVals g \<and> (consistent g \<longrightarrow> dist g' = Some (solution g))"
proof (cases "dirty g")
  case False
  with graph_okD(5) [OF assms] assms show ?thesis by (auto simp: solve_def)
next
  case True
  have c: "(\<exists>i \<in> set [0..<length (names g)]. ent (solution g) i i < 0) \<longleftrightarrow> \<not> consistent g"
    by (auto simp: consistent_def not_le)
  let ?g = "g\<lparr>dirty := False, dist := (if consistent g then Some (solution g) else None)\<rparr>"
  have "solve g = (consistent g, ?g)"
    using True names_nonempty [OF assms] c by (auto simp: solve_def Let_def solution_def)
  moreover have "graph_ok ?g" using assms by (auto simp: graph_ok_def solution_def consistent_def)
  ultimately show ?thesis by auto
qed

lemma solution_mat: "graph_ok g \<Longrightarrow> mat_ok (length (names g)) (solution g)"
  unfolding solution_def floyd_warshall_rounds by (intro mat_ok_rounds mat_ok_init) (auto simp: graph_okD)

lemma consistent_sound:
  assumes "graph_ok g" "sat v g"
  shows "holds (length (names g)) (\<lambda>i. v (names g ! i)) (solution g)" "consistent g"
proof -
  show h: "holds (length (names g)) (\<lambda>i. v (names g ! i)) (solution g)"
    using floyd_sound [OF mat_ok_init [OF graph_okD(4) [OF assms(1)]]] assms(2) holds_init
    unfolding solution_def sat_def by blast
  show "consistent g" unfolding consistent_def
  proof (intro allI impI)
    fix i assume "i < length (names g)"
    with h show "0 \<le> ent (solution g) i i" unfolding holds_def
      by (cases "ent (solution g) i i < maxWeight") force+
  qed
qed

section \<open>Adding constraints\<close>

definition small :: "int \<Rightarrow> DifferenceGraph \<Rightarrow> bool" where
  "small W g \<longleftrightarrow> (\<forall>row \<in> set (edges g). \<forall>c \<in> set row. c < maxWeight \<longrightarrow> \<bar>c\<bar> \<le> W)"

lemma getOrCreateNode_spec:
  assumes "graph_ok g"
  shows "\<exists>i g'. getOrCreateNode x g = (i, g') \<and> graph_ok g' \<and> nodes g' x = Some i \<and>
    (\<forall>y j. nodes g y = Some j \<longrightarrow> nodes g' y = Some j) \<and> (\<forall>v. sat v g' \<longleftrightarrow> sat v g) \<and>
    constVals g' = constVals g \<and> set (names g') = insert x (set (names g)) \<and>
    (\<forall>W. small W g \<longrightarrow> small W g')"
proof (cases "nodes g x")
  case (Some i)
  then have "x \<in> set (names g)" using graph_okD(2) [OF assms, of x i] by auto
  with Some assms show ?thesis by (auto simp: getOrCreateNode_def insert_absorb)
next
  case None
  let ?n = "length (names g)"
  let ?es = "map (\<lambda>row. row @ [maxWeight]) (edges g) @ [replicate (?n + 1) maxWeight]"
  let ?g = "g\<lparr>nodes := (nodes g)(x \<mapsto> ?n), names := names g @ [x], edges := ?es, dirty := True\<rparr>"
  have eq: "getOrCreateNode x g = (?n, ?g)" using None by (simp add: getOrCreateNode_def Let_def)
  have new: "x \<notin> set (names g)" using None graph_okD(2) [OF assms, of x] by (metis in_set_conv_nth option.distinct(1))
  note ok = graph_okD(4) [OF assms]
  have sq: "length (edges g) = ?n" "i < ?n \<Longrightarrow> length (edges g ! i) = ?n" for i
    using squareD [OF mat_okD(1) [OF ok]] by auto
  have ent: "?es ! i ! j = (if i < ?n \<and> j < ?n then ent (edges g) i j else maxWeight)"
    if "i < Suc ?n" "j < Suc ?n" for i j
    using that sq by (auto simp: nth_append less_Suc_eq nth_Cons')
  have mok: "mat_ok (Suc ?n) ?es"
    unfolding mat_ok_def
  proof (intro conjI allI impI)
    show "square (Suc ?n) ?es" using mat_okD(1) [OF ok] by (auto simp: square_def)
    fix i j assume ij: "i < Suc ?n" "j < Suc ?n"
    show "is_int64 (?es ! i ! j)" "?es ! i ! j \<le> maxWeight"
      using mat_okD [OF ok] unfolding ent [OF ij] by (auto simp: is_int64_def)
  qed
  have nodes: "nodes ?g y = Some i \<longleftrightarrow> i < Suc ?n \<and> (names g @ [x]) ! i = y" for y i
    using graph_okD(2) [OF assms, of y i] None new
    by (auto simp: nth_append less_Suc_eq)
  have "nodes ?g ''0'' \<noteq> None" using graph_okD(3) [OF assms] by simp
  then have "graph_ok ?g"
    unfolding graph_ok_def using graph_okD(1) [OF assms] new mok nodes by simp
  moreover have "sat v ?g \<longleftrightarrow> sat v g" for v
  proof -
    have nm: "(names g @ [x]) ! i = names g ! i" if "i < ?n" for i using that by (simp add: nth_append)
    have pt: "(?es ! i ! j < maxWeight \<longrightarrow> v ((names g @ [x]) ! i) - v ((names g @ [x]) ! j) \<le> ?es ! i ! j) \<longleftrightarrow>
        (i < ?n \<and> j < ?n \<longrightarrow> ent (edges g) i j < maxWeight \<longrightarrow> v (names g ! i) - v (names g ! j) \<le> ent (edges g) i j)"
      if "i < Suc ?n" "j < Suc ?n" for i j
      unfolding ent [OF that] by (cases "i < ?n \<and> j < ?n") (auto simp: nm)
    have "sat v ?g \<longleftrightarrow> (\<forall>i < Suc ?n. \<forall>j < Suc ?n. ?es ! i ! j < maxWeight \<longrightarrow>
        v ((names g @ [x]) ! i) - v ((names g @ [x]) ! j) \<le> ?es ! i ! j)"
      by (simp add: sat_def holds_def)
    also have "\<dots> \<longleftrightarrow> (\<forall>i < Suc ?n. \<forall>j < Suc ?n. i < ?n \<and> j < ?n \<longrightarrow> ent (edges g) i j < maxWeight \<longrightarrow>
        v (names g ! i) - v (names g ! j) \<le> ent (edges g) i j)"
      using pt by blast
    also have "\<dots> \<longleftrightarrow> sat v g" by (auto simp: sat_def holds_def)
    finally show ?thesis .
  qed
  moreover have "small W ?g" if "small W g" for W
    using that by (auto simp: small_def)
  moreover have "nodes ?g y = Some j" if "nodes g y = Some j" for y j
    using that None by auto
  ultimately show ?thesis unfolding eq by (intro exI [of _ ?n] exI [of _ ?g]) simp
qed

lemma AddLE_spec:
  assumes g: "graph_ok g" and c: "is_int64 c"
  shows "graph_ok (AddLE x y c g)" "sat v (AddLE x y c g) \<longleftrightarrow> sat v g \<and> (c < maxWeight \<longrightarrow> v x - v y \<le> c)"
    "constVals (AddLE x y c g) = constVals g" "small W g \<Longrightarrow> \<bar>c\<bar> \<le> W \<Longrightarrow> small W (AddLE x y c g)"
proof -
  from getOrCreateNode_spec [OF g, of x] obtain i g1
    where 1: "getOrCreateNode x g = (i, g1)" "graph_ok g1" "nodes g1 x = Some i" "\<And>v. sat v g1 \<longleftrightarrow> sat v g"
      "constVals g1 = constVals g" "\<And>W. small W g \<Longrightarrow> small W g1" by blast
  from getOrCreateNode_spec [OF 1(2), of y] obtain j g2
    where 2: "getOrCreateNode y g1 = (j, g2)" "graph_ok g2" "nodes g2 y = Some j" "\<And>v. sat v g2 \<longleftrightarrow> sat v g1"
      "constVals g2 = constVals g1" "\<And>W. small W g1 \<Longrightarrow> small W g2" and i: "nodes g2 x = Some i" using 1(3) by blast
  let ?n = "length (names g2)" and ?w = "edges g2 ! i ! j"
  have ij: "i < ?n" "names g2 ! i = x" "j < ?n" "names g2 ! j = y" using i 2(3) graph_okD(2) [OF 2(2)] by auto
  note ok = graph_okD(4) [OF 2(2)]
  note sq = mat_okD(1) [OF ok]
  let ?es = "set_entry i j c (edges g2)"
  let ?g = "g2\<lparr>edges := ?es, dirty := True\<rparr>"
  have A: "AddLE x y c g = (if c < ?w then ?g else g2)" by (simp add: AddLE_def 1(1) 2(1))
  have wM: "?w \<le> maxWeight" using mat_okD(3) [OF ok ij(1,3)] .
  have ok': "graph_ok ?g" if "c < ?w"
  proof -
    have "mat_ok ?n ?es"
      using ok c that wM square_set_entry [OF sq ij(1)] ent_set_entry [OF sq ij(1,3)]
      by (auto simp: mat_ok_def)
    then show ?thesis using graph_okD [OF 2(2)] by (simp add: graph_ok_def)
  qed
  have sat': "sat v ?g \<longleftrightarrow> sat v g2 \<and> v x - v y \<le> c" if "c < ?w"
  proof -
    have "sat v ?g \<longleftrightarrow> (\<forall>a < ?n. \<forall>b < ?n. (if a = i \<and> b = j then v x - v y \<le> c
        else ent (edges g2) a b < maxWeight \<longrightarrow> v (names g2 ! a) - v (names g2 ! b) \<le> ent (edges g2) a b))"
      using that wM ij(2,4) by (auto simp: sat_def holds_def ent_set_entry [OF sq ij(1,3)])
    also have "\<dots> \<longleftrightarrow> sat v g2 \<and> v x - v y \<le> c"
      using that ij by (auto simp: sat_def holds_def split: if_splits) force+
    finally show ?thesis .
  qed
  have old: "sat v g2 \<and> (c < maxWeight \<longrightarrow> v x - v y \<le> c) \<longleftrightarrow> sat v g2" if "\<not> c < ?w"
    using that ij by (fastforce simp: sat_def holds_def)
  show "graph_ok (AddLE x y c g)" using A ok' 2(2) by simp
  show "sat v (AddLE x y c g) \<longleftrightarrow> sat v g \<and> (c < maxWeight \<longrightarrow> v x - v y \<le> c)"
    using A sat' old wM 1(4) 2(4) by auto
  show "constVals (AddLE x y c g) = constVals g" using A 1(5) 2(5) by simp
  assume "small W g" "\<bar>c\<bar> \<le> W"
  then have "small W g2" using 1(6) 2(6) by blast
  moreover have "set (edges g2 ! i) \<subseteq> \<Union> (set ` set (edges g2))"
    using nth_mem [of i "edges g2"] squareD(1) [OF sq] ij(1) by fastforce
  ultimately show "small W (AddLE x y c g)" unfolding A using \<open>\<bar>c\<bar> \<le> W\<close> squareD(1) [OF sq] ij(1)
    by (auto simp: small_def set_entry_def dest!: set_update_subset_insert [THEN subsetD])
qed

section \<open>Assertions\<close>

text \<open>The assertions of a client and what they mean for a valuation that has the value 0 at \<open>0\<close>.\<close>

datatype dl_op = LE string string int | LT string string | GT string string | GE string string
  | EQ string string | Const string int | Upper string int | Lower string int

fun add_op :: "dl_op \<Rightarrow> DifferenceGraph \<Rightarrow> DifferenceGraph" where
  "add_op (LE x y c) = AddLE x y c"
| "add_op (LT x y) = AddLT x y"
| "add_op (GT x y) = AddGT x y"
| "add_op (GE x y) = AddGE x y"
| "add_op (EQ x y) = AddEQ x y"
| "add_op (Const x c) = AddConst x c"
| "add_op (Upper x c) = AddUpperBound x c"
| "add_op (Lower x c) = AddLowerBound x c"

fun op_holds :: "(string \<Rightarrow> int) \<Rightarrow> dl_op \<Rightarrow> bool" where
  "op_holds v (LE x y c) \<longleftrightarrow> v x - v y \<le> c"
| "op_holds v (LT x y) \<longleftrightarrow> v x < v y"
| "op_holds v (GT x y) \<longleftrightarrow> v x > v y"
| "op_holds v (GE x y) \<longleftrightarrow> v x \<ge> v y"
| "op_holds v (EQ x y) \<longleftrightarrow> v x = v y"
| "op_holds v (Const x c) \<longleftrightarrow> v x = c"
| "op_holds v (Upper x c) \<longleftrightarrow> v x \<le> c"
| "op_holds v (Lower x c) \<longleftrightarrow> v x \<ge> c"

fun op_const :: "dl_op \<Rightarrow> int" where
  "op_const (LE _ _ c) = c"
| "op_const (Const _ c) = c"
| "op_const (Upper _ c) = c"
| "op_const (Lower _ c) = c"
| "op_const _ = 1"

lemmas add_defs = AddLT_def AddGT_def AddGE_def AddEQ_def AddConst_def AddUpperBound_def AddLowerBound_def

lemma is_int64_neg: "is_int64 c \<Longrightarrow> c \<noteq> MinInt64 \<Longrightarrow> is_int64 (- c)"
  by (auto simp: is_int64_def)

lemma is_int64_small [simp]: "is_int64 0" "is_int64 1" "is_int64 (- 1)"
  by (simp_all add: is_int64_def)

lemma graph_ok_consts: "graph_ok (g\<lparr>constVals := f\<rparr>) \<longleftrightarrow> graph_ok g"
proof -
  have "solution (g\<lparr>constVals := f\<rparr>) = solution g" "consistent (g\<lparr>constVals := f\<rparr>) = consistent g"
    by (simp_all add: solution_def consistent_def)
  then show ?thesis by (simp add: graph_ok_def)
qed

lemma sat_consts: "sat v (g\<lparr>constVals := f\<rparr>) \<longleftrightarrow> sat v g"
  by (simp add: sat_def)

lemma small_consts: "small W (g\<lparr>constVals := f\<rparr>) \<longleftrightarrow> small W g"
  by (simp add: small_def)

lemma add_op_ok: "graph_ok g \<Longrightarrow> is_int64 (op_const x) \<Longrightarrow> graph_ok (add_op x g)"
  by (cases x) (auto simp: add_defs AddLE_spec is_int64_neg graph_ok_consts Let_def)

lemma add_op_sat:
  assumes "graph_ok g" "is_int64 (op_const x)" "v ''0'' = 0" "op_holds v x" "sat v g"
  shows "sat v (add_op x g)"
  using assms by (cases x) (auto simp: add_defs AddLE_spec is_int64_neg graph_ok_consts sat_consts Let_def)

text \<open>With small constants nothing of an assertion is dropped.\<close>

lemma add_op_complete:
  assumes "graph_ok g" "\<bar>op_const x\<bar> < maxWeight" "v ''0'' = 0" "sat v (add_op x g)"
  shows "op_holds v x \<and> sat v g"
proof -
  have c: "is_int64 (op_const x)" "op_const x \<noteq> MinInt64" "op_const x < maxWeight" "- op_const x < maxWeight"
    using assms(2) by (auto simp: is_int64_def)
  show ?thesis using assms(1,3,4) c
    by (cases x) (auto simp: add_defs AddLE_spec is_int64_neg graph_ok_consts sat_consts Let_def)
qed

lemma add_op_small:
  assumes "graph_ok g" "is_int64 (op_const x)" "\<bar>op_const x\<bar> \<le> W" "1 \<le> W" "small W g"
  shows "small W (add_op x g)"
  using assms by (cases x) (auto simp: add_defs AddLE_spec is_int64_neg graph_ok_consts small_consts Let_def)

definition consts_hold :: "(string \<Rightarrow> int) \<Rightarrow> DifferenceGraph \<Rightarrow> bool" where
  "consts_hold v g \<longleftrightarrow> (\<forall>x c. constVals g x = Some c \<longrightarrow> v x = c)"

lemma add_op_consts:
  assumes "graph_ok g" "is_int64 (op_const x)" "op_holds v x" "consts_hold v g"
  shows "consts_hold v (add_op x g)"
  using assms
  by (cases x) (auto simp: add_defs AddLE_spec is_int64_neg graph_ok_consts consts_hold_def Let_def split: if_splits)

lemma new_graph_ok: "graph_ok NewDifferenceGraph"
  by (auto simp: NewDifferenceGraph_def getOrCreateNode_def graph_ok_def mat_ok_def square_def is_int64_def)

lemma new_graph: "names NewDifferenceGraph = [''0'']" "edges NewDifferenceGraph = [[maxWeight]]"
  "constVals NewDifferenceGraph = Map.empty"
  by (simp_all add: NewDifferenceGraph_def getOrCreateNode_def)

definition agrees_graph :: "(string \<Rightarrow> int) \<Rightarrow> DifferenceGraph \<Rightarrow> bool" where
  "agrees_graph v g \<longleftrightarrow> (v ''0'' = 0 \<longrightarrow> sat v g \<and> consts_hold v g)"

interpretation dl: theory_solver NewDifferenceGraph add_op "\<lambda>x. is_int64 (op_const x)" op_holds graph_ok agrees_graph
proof unfold_locales
  show "agrees_graph v NewDifferenceGraph" for v
    by (simp add: agrees_graph_def sat_def holds_def consts_hold_def new_graph)
qed (auto simp: new_graph_ok add_op_ok add_op_sat add_op_consts agrees_graph_def)

section \<open>Answers\<close>

lemma HasNegativeCycle_spec: "graph_ok g \<Longrightarrow> fst (HasNegativeCycle g) \<longleftrightarrow> \<not> consistent g"
  using solve_spec [of g] by (auto simp: HasNegativeCycle_def)

lemma GetBound_spec:
  assumes "graph_ok g"
  shows "fst (GetBound x y g) = Some c \<longleftrightarrow> consistent g \<and> (\<exists>i j. nodes g x = Some i \<and> nodes g y = Some j \<and>
    ent (solution g) i j = c \<and> c < maxWeight)"
proof -
  from solve_spec [OF assms] obtain g' where g': "solve g = (consistent g, g')" "nodes g' = nodes g"
    "consistent g \<longrightarrow> dist g' = Some (solution g)" by blast
  then show ?thesis by (auto simp: GetBound_def Let_def split: option.splits)
qed

lemma GetBound_sound:
  assumes "graph_ok g" "sat v g" "fst (GetBound x y g) = Some c"
  shows "v x - v y \<le> c"
proof -
  from assms(3) obtain i j where ij: "nodes g x = Some i" "nodes g y = Some j"
    "ent (solution g) i j = c" "c < maxWeight" using GetBound_spec [OF assms(1)] by blast
  with consistent_sound(1) [OF assms(1,2)] graph_okD(2) [OF assms(1)] show ?thesis
    unfolding holds_def by force
qed

lemma GetUpperBound_sound:
  assumes "graph_ok g" "sat v g" "consts_hold v g" "v ''0'' = 0" "fst (GetUpperBound x g) = Some c"
  shows "v x \<le> c"
  using assms GetBound_sound [OF assms(1,2), of x "''0''" c]
  by (auto simp: GetUpperBound_def consts_hold_def split: option.splits)

lemma GetLowerBound_sound:
  assumes "graph_ok g" "sat v g" "consts_hold v g" "v ''0'' = 0" "fst (GetLowerBound x g) = Some c"
  shows "c \<le> v x"
proof (cases "constVals g x")
  case None
  then obtain b where b: "fst (GetBound ''0'' x g) = Some b" "c = - b"
    using assms(5) by (auto simp: GetLowerBound_def split: option.splits prod.splits if_splits)
  then show ?thesis using GetBound_sound [OF assms(1,2), of "''0''" x b] assms(4) by simp
qed (use assms in \<open>auto simp: GetLowerBound_def consts_hold_def\<close>)

text \<open>A valuation of the nodes is a valuation of the names, moved so that \<open>0\<close> is at 0.\<close>

lemma node_model:
  assumes ok: "graph_ok g" and u: "holds (length (names g)) u (edges g)"
  shows "\<exists>v. v ''0'' = 0 \<and> sat v g \<and>
    (\<forall>x y i j. nodes g x = Some i \<longrightarrow> nodes g y = Some j \<longrightarrow> v x - v y = u i - u j)"
proof -
  obtain z where z: "nodes g ''0'' = Some z" using graph_okD(3) [OF ok] by blast
  define v where "v x = (case nodes g x of Some i \<Rightarrow> u i - u z | None \<Rightarrow> 0)" for x
  have nm: "nodes g (names g ! i) = Some i" if "i < length (names g)" for i
    using graph_okD(2) [OF ok] that by blast
  have "sat v g" using u nm by (auto simp: sat_def holds_def v_def)
  moreover have "v x - v y = u i - u j" if "nodes g x = Some i" "nodes g y = Some j" for x y i j
    using that by (simp add: v_def)
  ultimately show ?thesis using z by (intro exI [of _ v]) (simp add: v_def)
qed

lemma small_entries:
  "graph_ok g \<Longrightarrow> small W g \<Longrightarrow> i < length (names g) \<Longrightarrow> j < length (names g) \<Longrightarrow>
   ent (edges g) i j < maxWeight \<Longrightarrow> \<bar>ent (edges g) i j\<bar> \<le> W"
  using squareD [OF mat_okD(1) [OF graph_okD(4)], of g] unfolding small_def by (metis nth_mem)

lemma consistent_model:
  assumes ok: "graph_ok g" and W: "2 * (W * 2 ^ length (names g)) < maxWeight" "0 \<le> W" and sm: "small W g"
    and c: "consistent g" and j: "nodes g y = Some j"
  shows "\<exists>v. v ''0'' = 0 \<and> sat v g \<and>
    (\<forall>x i. nodes g x = Some i \<longrightarrow> ent (solution g) i j < maxWeight \<longrightarrow> v x - v y = ent (solution g) i j)"
proof -
  have jn: "j < length (names g)" using graph_okD(2) [OF ok] j by blast
  have small: "\<forall>i < length (names g). \<forall>j < length (names g).
      ent (edges g) i j < maxWeight \<longrightarrow> \<bar>ent (edges g) i j\<bar> \<le> W"
    using small_entries [OF ok sm] by blast
  from floyd_complete [OF graph_okD(4) [OF ok] W small c [unfolded consistent_def solution_def] jn]
  obtain u where u: "holds (length (names g)) u (edges g)"
    "\<forall>x < length (names g). ent (solution g) x j < maxWeight \<longrightarrow> u x - u j = ent (solution g) x j"
    unfolding solution_def by blast
  from node_model [OF ok u(1)] obtain v where "v ''0'' = 0" "sat v g"
    "\<forall>x y i j. nodes g x = Some i \<longrightarrow> nodes g y = Some j \<longrightarrow> v x - v y = u i - u j" by blast
  with u(2) j graph_okD(2) [OF ok] show ?thesis by (intro exI [of _ v]) auto
qed

lemma ops_sat:
  assumes "\<forall>x \<in> set xs. \<bar>op_const x\<bar> < maxWeight" "v ''0'' = 0"
  shows "graph_ok g \<Longrightarrow> sat v (fold add_op xs g) \<Longrightarrow> (\<forall>x \<in> set xs. op_holds v x)"
  using assms(1)
proof (induction xs arbitrary: g rule: rev_induct)
  case (snoc x xs)
  have valid: "is_int64 (op_const y)" if "y \<in> set (xs @ [x])" for y
    using snoc.prems(3) that by (force simp: is_int64_def)
  have "graph_ok (fold add_op xs g)"
    by (rule dl.assert_all_invar) (use valid snoc.prems(1) in auto)
  from add_op_complete [OF this, of x v] snoc assms(2) show ?case by auto
qed simp

lemma ops_small:
  assumes "\<forall>x \<in> set xs. is_int64 (op_const x) \<and> \<bar>op_const x\<bar> \<le> W" "1 \<le> W"
  shows "graph_ok g \<Longrightarrow> small W g \<Longrightarrow> small W (fold add_op xs g)"
  using assms(1) by (induction xs arbitrary: g) (auto simp: add_op_small add_op_ok assms(2))

section \<open>Properties\<close>

text \<open>
  C9: the difference solver is sound: if an integer valuation satisfies all assertions, the graph
  built from them has no negative cycle, and every bound the solver answers holds in that valuation,
  also when weights are clamped.
\<close>

theorem difference_sound:
  assumes "\<forall>p \<in> set ops. is_int64 (op_const p) \<and> op_holds v p" and "v ''0'' = 0"
    and "g = fold add_op ops NewDifferenceGraph"
  shows "fst (HasNegativeCycle g) = False \<and>
    (\<forall>x y c. fst (GetBound x y g) = Some c \<longrightarrow> v x - v y \<le> c) \<and>
    (\<forall>x c. fst (GetUpperBound x g) = Some c \<longrightarrow> v x \<le> c) \<and>
    (\<forall>x c. fst (GetLowerBound x g) = Some c \<longrightarrow> c \<le> v x)"
proof -
  have ok: "graph_ok g" unfolding assms(3) by (rule dl.reachable_invar) (use assms(1) in blast)
  have "agrees_graph v g" unfolding assms(3) by (rule dl.reachable_agrees) (use assms(1) in blast)
  then have s: "sat v g" "consts_hold v g" using assms(2) by (simp_all add: agrees_graph_def)
  show ?thesis
    using consistent_sound(2) [OF ok s(1)] HasNegativeCycle_spec [OF ok] GetBound_sound [OF ok s(1)]
      GetUpperBound_sound [OF ok s assms(2)] GetLowerBound_sound [OF ok s assms(2)] by blast
qed

theorem difference_sound_witness:
  "\<exists>c. fst (GetBound ''x'' ''y'' (fold add_op [LE ''x'' ''y'' 3, Const ''y'' 4, Lower ''x'' 2] NewDifferenceGraph)) = Some c \<and>
     (5 :: int) - 4 \<le> c"
proof -
  let ?ops = "[LE ''x'' ''y'' 3, Const ''y'' 4, Lower ''x'' 2]"
  let ?v = "\<lambda>s. if s = ''x'' then 5 else if s = ''y'' then 4 else (0 :: int)"
  have "fst (GetBound ''x'' ''y'' (fold add_op ?ops NewDifferenceGraph)) = Some 3" by code_simp
  moreover have "\<forall>p \<in> set ?ops. is_int64 (op_const p) \<and> op_holds ?v p" by (simp add: is_int64_def)
  ultimately show ?thesis using difference_sound [of ?ops ?v "fold add_op ?ops NewDifferenceGraph"] by simp
qed

text \<open>
  C10: the difference solver is complete while no weight can be clamped: with constants of at most
  \<open>W\<close> and \<open>n\<close> variables, \<open>W 2\<^sup>(n+1) < maxWeight\<close>, it reports a negative cycle exactly when no integer
  valuation satisfies the assertions, and every bound it answers is attained by one that does.
\<close>

theorem difference_complete:
  assumes "\<forall>p \<in> set ops. \<bar>op_const p\<bar> \<le> W" and "1 \<le> W"
    and "g = fold add_op ops NewDifferenceGraph" and "W * 2 ^ Suc (length (names g)) < maxWeight"
  shows "(fst (HasNegativeCycle g) \<longleftrightarrow> (\<nexists>v. v ''0'' = 0 \<and> (\<forall>p \<in> set ops. op_holds v p))) \<and>
    (\<forall>x y c. fst (GetBound x y g) = Some c \<longrightarrow>
       (\<exists>v. v ''0'' = 0 \<and> (\<forall>p \<in> set ops. op_holds v p) \<and> v x - v y = c))"
proof -
  have "W * 1 \<le> W * 2 ^ Suc (length (names g))" using assms(2) by (intro mult_left_mono one_le_power) simp_all
  then have WM: "W < maxWeight" using assms(4) by simp
  have lt: "\<forall>p \<in> set ops. \<bar>op_const p\<bar> < maxWeight" using assms(1) WM by fastforce
  have i64: "is_int64 (op_const p)" if "p \<in> set ops" for p
    using bspec [OF lt that] by (auto simp: is_int64_def)
  have ok: "graph_ok g" unfolding assms(3) by (rule dl.reachable_invar) (use i64 in blast)
  have sm: "small W g" unfolding assms(3)
    by (rule ops_small) (use assms(1,2) i64 in \<open>auto simp: new_graph_ok new_graph small_def\<close>)
  have W: "2 * (W * 2 ^ length (names g)) < maxWeight" "0 \<le> W" using assms(2,4) by simp_all
  have ops: "\<forall>p \<in> set ops. op_holds v p" if "v ''0'' = 0" "sat v g" for v
    using ops_sat [of ops v, OF lt that(1) new_graph_ok] that(2) by (simp add: assms(3))
  have "consistent g" if "v ''0'' = 0" "\<forall>p \<in> set ops. op_holds v p" for v
    using dl.reachable_agrees [of ops v] that i64 consistent_sound(2) [OF ok, of v]
    by (auto simp: agrees_graph_def assms(3))
  moreover have "\<exists>v. v ''0'' = 0 \<and> (\<forall>p \<in> set ops. op_holds v p)" if c: "consistent g"
    using graph_okD(3) [OF ok] consistent_model [OF ok W sm c] ops by blast
  moreover have "\<exists>v. v ''0'' = 0 \<and> (\<forall>p \<in> set ops. op_holds v p) \<and> v x - v y = c"
    if b: "fst (GetBound x y g) = Some c" for x y c
  proof -
    from b obtain i j where ij: "consistent g" "nodes g x = Some i" "nodes g y = Some j"
      "ent (solution g) i j = c" "c < maxWeight" using GetBound_spec [OF ok] by blast
    from consistent_model [OF ok W sm ij(1,3)] ij ops show ?thesis by blast
  qed
  ultimately show ?thesis using HasNegativeCycle_spec [OF ok] by blast
qed

theorem difference_complete_witness:
  "fst (HasNegativeCycle (fold add_op [LT ''x'' ''y'', LE ''y'' ''x'' 0] NewDifferenceGraph)) \<longleftrightarrow>
     (\<nexists>v. v ''0'' = 0 \<and> (\<forall>p \<in> set [LT ''x'' ''y'', LE ''y'' ''x'' 0]. op_holds v p))"
proof -
  let ?g = "fold add_op [LT ''x'' ''y'', LE ''y'' ''x'' 0] NewDifferenceGraph"
  have "length (names ?g) = 3" by code_simp
  then show ?thesis using difference_complete [of "[LT ''x'' ''y'', LE ''y'' ''x'' 0]" 1 ?g] by simp
qed

end
