(* ===== verification/Modular.thy ===== *)
theory Modular
  imports Theory_Interface
begin

text \<open>
  Modular arithmetic facts, \<open>types/constraint/theory/modular.go\<close>, and the three-valued results of
  \<open>types/constraint/theory/result.go\<close>. Go's remainder is normalised to a residue that is not
  negative; sums and differences of bounds wrap at 64 bits.

  The lemmas show that the residue counts are exact and the consistency check sound as long as the
  bounds are far enough from the ends of the 64-bit range, and where they are not.
\<close>

section \<open>Model\<close>

datatype Result = Valid | Invalid | Unknown

definition Combine :: "Result \<Rightarrow> Result \<Rightarrow> Result" where
  "Combine r s = (if r = Invalid \<or> s = Invalid then Invalid
     else if r = Valid \<and> s = Valid then Valid else Unknown)"

record ModularFact =
  Modulus :: int
  Residue :: int

text \<open>The remainder with the adjustment that the code repeats at each use.\<close>

definition norm_rem :: "int \<Rightarrow> int \<Rightarrow> int" where
  "norm_rem a m = (let r = go_rem a m in if r < 0 then wrap64 (r + m) else r)"

definition Check :: "ModularFact \<Rightarrow> int \<Rightarrow> bool" where
  "Check f v = (if Modulus f \<le> 0 then False else norm_rem v (Modulus f) = Residue f)"

record ModularSolver =
  equalities :: "string \<rightharpoonup> int"
  ranges :: "string \<rightharpoonup> int \<times> int"

definition NewModularSolver :: ModularSolver where
  "NewModularSolver = \<lparr>equalities = Map.empty, ranges = Map.empty\<rparr>"

definition AddEquality :: "string \<Rightarrow> int \<Rightarrow> ModularSolver \<Rightarrow> ModularSolver" where
  "AddEquality x c s = s\<lparr>equalities := (equalities s)(x \<mapsto> c)\<rparr>"

definition AddRange :: "string \<Rightarrow> int \<Rightarrow> int \<Rightarrow> ModularSolver \<Rightarrow> ModularSolver" where
  "AddRange x lower upper s = s\<lparr>ranges := (ranges s)(x \<mapsto> (lower, upper))\<rparr>"

text \<open>A nil slice of facts is the empty list.\<close>

definition GetFacts :: "ModularSolver \<Rightarrow> string \<Rightarrow> ModularFact list" where
  "GetFacts s x = (case equalities s x of
     None \<Rightarrow> []
   | Some v \<Rightarrow> map (\<lambda>m. \<lparr>Modulus = m, Residue = norm_rem v m\<rparr>) [2, 3, 4, 5, 6, 8, 10])"

definition countInRangeImpl :: "int \<Rightarrow> int \<Rightarrow> int \<Rightarrow> int \<Rightarrow> int" where
  "countInRangeImpl lower upper modulus residue =
     (if upper < lower \<or> modulus \<le> 0 then 0
      else let
        r = norm_rem residue modulus;
        rem = norm_rem lower modulus;
        first = (if rem \<le> r then wrap64 (lower + (r - rem)) else wrap64 (lower + wrap64 (wrap64 (modulus - rem) + r)))
      in if first > upper then 0 else wrap64 (go_quot (wrap64 (upper - first)) modulus + 1))"

definition IsConsistent :: "ModularSolver \<Rightarrow> string \<Rightarrow> int \<Rightarrow> int \<Rightarrow> bool" where
  "IsConsistent s x modulus residue =
     (if modulus \<le> 0 then False
      else let r = norm_rem residue modulus in
        case equalities s x of
          Some v \<Rightarrow> Check \<lparr>Modulus = modulus, Residue = r\<rparr> v
        | None \<Rightarrow> (case ranges s x of
            Some (lower, upper) \<Rightarrow> countInRangeImpl lower upper modulus r > 0
          | None \<Rightarrow> True))"

definition CountInRange :: "ModularSolver \<Rightarrow> string \<Rightarrow> int \<Rightarrow> int \<Rightarrow> int" where
  "CountInRange s x modulus residue = (case ranges s x of
     None \<Rightarrow> - 1
   | Some (lower, upper) \<Rightarrow> countInRangeImpl lower upper modulus residue)"

definition CloneModular :: "ModularSolver \<Rightarrow> ModularSolver" where
  "CloneModular s = \<lparr>equalities = equalities s, ranges = ranges s\<rparr>"

section \<open>Counting\<close>

lemma norm_rem_mod: "0 < m \<Longrightarrow> is_int64 m \<Longrightarrow> norm_rem a m = a mod m"
proof -
  assume m: "0 < m" "is_int64 m"
  then have b: "\<bar>go_rem a m\<bar> < m" using go_rem_bound [of m a] by simp
  then have "go_rem a m < 0 \<Longrightarrow> wrap64 (go_rem a m + m) = go_rem a m + m"
    using m by (simp add: is_int64_def)
  with go_rem_floor [of m a] m(1) show ?thesis by (auto simp: norm_rem_def Let_def)
qed

text \<open>The first number from \<open>lower\<close> on with residue \<open>r\<close>.\<close>

definition first_res :: "int \<Rightarrow> int \<Rightarrow> int \<Rightarrow> int" where
  "first_res lower m r = lower + (r - lower) mod m"

lemma first_res_mod: "0 \<le> r \<Longrightarrow> r < m \<Longrightarrow> first_res lower m r mod m = r"
  by (simp add: first_res_def mod_add_right_eq)

lemma first_res_eq:
  assumes "0 \<le> r" "r < m"
  shows "first_res lower m r = (if lower mod m \<le> r then lower + (r - lower mod m) else lower + (m - lower mod m + r))"
proof -
  have l: "0 \<le> lower mod m" "lower mod m < m" using assms by simp_all
  have "(r - lower) mod m = (r - lower mod m) mod m" by (simp add: mod_diff_right_eq)
  also have "\<dots> = (if lower mod m \<le> r then r - lower mod m else m - lower mod m + r)"
  proof (cases "lower mod m \<le> r")
    case True
    have "(r - lower mod m) mod m = r - lower mod m"
      by (rule mod_pos_pos_trivial) (use True l assms in linarith)+
    with True show ?thesis by simp
  next
    case False
    have "(r - lower mod m) mod m = (m - lower mod m + r) mod m"
      using mod_add_self1 [of m "r - lower mod m"] by (simp add: algebra_simps)
    also have "\<dots> = m - lower mod m + r"
      by (rule mod_pos_pos_trivial) (use False l assms in linarith)+
    finally show ?thesis using False by simp
  qed
  finally show ?thesis by (simp add: first_res_def)
qed

lemma residues_in_range:
  assumes "0 \<le> r" "r < m"
  shows "{x. lower \<le> x \<and> x \<le> upper \<and> x mod m = r} =
    (\<lambda>k. first_res lower m r + k * m) ` {0..(upper - first_res lower m r) div m}"
proof (intro set_eqI iffI)
  let ?f = "first_res lower m r"
  have m: "0 < m" using assms by simp
  fix x assume "x \<in> {x. lower \<le> x \<and> x \<le> upper \<and> x mod m = r}"
  then have x: "lower \<le> x" "x \<le> upper" "x mod m = r" by auto
  then have "m dvd x - ?f" using first_res_mod [OF assms] by (metis mod_eq_dvd_iff)
  then obtain k where k: "x = ?f + k * m" by (metis add_diff_cancel_left' diff_add_cancel dvdE mult.commute add.commute)
  have "?f < lower + m" using m by (simp add: first_res_def)
  with x(1) k have "(- 1) * m < k * m" by simp
  then have "- 1 < k" using m by (simp only: mult_less_cancel_right)
  moreover have "k * m \<le> upper - ?f" using x(2) k by simp
  then have "k * m div m \<le> (upper - ?f) div m" using m by (rule zdiv_mono1)
  then have "k \<le> (upper - ?f) div m" using m by simp
  ultimately show "x \<in> (\<lambda>k. ?f + k * m) ` {0..(upper - ?f) div m}" using k by auto
next
  let ?f = "first_res lower m r"
  have m: "0 < m" using assms by simp
  fix x assume "x \<in> (\<lambda>k. ?f + k * m) ` {0..(upper - ?f) div m}"
  then obtain k where "k \<in> {0..(upper - ?f) div m}" and kx: "x = ?f + k * m" by blast
  then have k: "x = ?f + k * m" "0 \<le> k" "k \<le> (upper - ?f) div m" by simp_all
  have "lower \<le> ?f" using m by (simp add: first_res_def)
  moreover have "0 \<le> k * m" using k m by simp
  moreover have "k * m \<le> (upper - ?f) div m * m" using k m by (simp add: mult_right_mono)
  then have "k * m \<le> upper - ?f" using m pos_mod_sign [of m "upper - ?f"] div_mult_mod_eq [of "upper - ?f" m] by linarith
  moreover have "x mod m = r" using k first_res_mod [OF assms] by simp
  ultimately show "x \<in> {x. lower \<le> x \<and> x \<le> upper \<and> x mod m = r}" using k by simp
qed

lemma card_residues:
  assumes "0 \<le> r" "r < m"
  shows "int (card {x. lower \<le> x \<and> x \<le> upper \<and> x mod m = r}) =
    (if first_res lower m r > upper then 0 else (upper - first_res lower m r) div m + 1)"
proof -
  let ?f = "first_res lower m r"
  have m: "0 < m" using assms by simp
  have "inj_on (\<lambda>k. ?f + k * m) {0..(upper - ?f) div m}" using m by (auto simp: inj_on_def)
  then have c: "card {x. lower \<le> x \<and> x \<le> upper \<and> x mod m = r} = card {0..(upper - ?f) div m}"
    unfolding residues_in_range [OF assms] by (rule card_image)
  show ?thesis
  proof (cases "?f > upper")
    case True
    then have "(upper - ?f) div m < 0" using m by (simp add: neg_imp_zdiv_neg_iff div_neg_pos_less0)
    with True c show ?thesis by simp
  next
    case False
    then have "0 \<le> (upper - ?f) div m" using m by (simp add: pos_imp_zdiv_nonneg_iff)
    with False c show ?thesis by simp
  qed
qed

text \<open>Bounds whose sums with the modulus, and whose difference, do not wrap.\<close>

definition safe_range :: "int \<Rightarrow> int \<Rightarrow> int \<Rightarrow> bool" where
  "safe_range lower upper m \<longleftrightarrow> MinInt64 \<le> lower \<and> upper \<le> MaxInt64 \<and> lower + m \<le> MaxInt64 \<and> upper - lower < MaxInt64"

lemma countInRange_exact:
  assumes "safe_range lower upper m" "0 < m" "is_int64 m"
  shows "countInRangeImpl lower upper m residue =
    int (card {x. lower \<le> x \<and> x \<le> upper \<and> x mod m = residue mod m})"
proof (cases "upper < lower")
  case True
  then have "{x. lower \<le> x \<and> x \<le> upper \<and> x mod m = residue mod m} = {}" by auto
  with True show ?thesis unfolding countInRangeImpl_def by (simp only: card.empty) simp
next
  case False
  let ?r = "residue mod m" and ?l = "lower mod m"
  have r: "0 \<le> ?r" "?r < m" and l: "0 \<le> ?l" "?l < m" using assms(2) by simp_all
  let ?f = "first_res lower m ?r"
  have f: "lower \<le> ?f" "?f < lower + m" using assms(2) by (simp_all add: first_res_def)
  have w: "wrap64 ?f = ?f" using f assms(1) by (simp add: safe_range_def is_int64_def)
  have "?l \<le> ?r \<or> wrap64 (wrap64 (m - ?l) + ?r) = m - ?l + ?r"
  proof (cases "?l \<le> ?r")
    case False
    then have "is_int64 (m - ?l)" "is_int64 (m - ?l + ?r)" using l r assms(3) unfolding is_int64_def by linarith+
    then show ?thesis by simp
  qed simp
  then have first: "(if ?l \<le> ?r then wrap64 (lower + (?r - ?l)) else wrap64 (lower + wrap64 (wrap64 (m - ?l) + ?r))) = ?f"
    using w first_res_eq [OF r, of lower] by (auto split: if_splits)
  have count: "wrap64 (go_quot (wrap64 (upper - ?f)) m + 1) = (upper - ?f) div m + 1" if "?f \<le> upper"
  proof -
    have d: "0 \<le> upper - ?f" "upper - ?f < MaxInt64" using that f assms(1) by (auto simp: safe_range_def)
    then have "wrap64 (upper - ?f) = upper - ?f" by (simp add: is_int64_def)
    moreover have "trunc_div (upper - ?f) m = (upper - ?f) div m"
      using d assms(2) by (simp add: trunc_div_def sgn_if)
    moreover have "0 \<le> (upper - ?f) div m" "(upper - ?f) div m \<le> upper - ?f"
      using d assms(2) zdiv_mono2 [of "upper - ?f" 1 m] by (simp_all add: pos_imp_zdiv_nonneg_iff)
    ultimately show ?thesis using d by (simp add: go_quot_def is_int64_def)
  qed
  have "countInRangeImpl lower upper m residue = (if ?f > upper then 0 else wrap64 (go_quot (wrap64 (upper - ?f)) m + 1))"
    using False assms(2,3) first by (simp add: countInRangeImpl_def Let_def norm_rem_mod)
  then show ?thesis using card_residues [OF r, of lower upper] count by auto
qed

section \<open>Assertions\<close>

datatype mod_op = Equals string int | InRange string int int

fun assert_mod :: "mod_op \<Rightarrow> ModularSolver \<Rightarrow> ModularSolver" where
  "assert_mod (Equals x c) = AddEquality x c"
| "assert_mod (InRange x lower upper) = AddRange x lower upper"

fun mod_holds :: "(string \<Rightarrow> int) \<Rightarrow> mod_op \<Rightarrow> bool" where
  "mod_holds v (Equals x c) \<longleftrightarrow> v x = c"
| "mod_holds v (InRange x lower upper) \<longleftrightarrow> lower \<le> v x \<and> v x \<le> upper"

definition mod_agrees :: "(string \<Rightarrow> int) \<Rightarrow> ModularSolver \<Rightarrow> bool" where
  "mod_agrees v s \<longleftrightarrow> (\<forall>x c. equalities s x = Some c \<longrightarrow> v x = c) \<and>
     (\<forall>x lower upper. ranges s x = Some (lower, upper) \<longrightarrow> lower \<le> v x \<and> v x \<le> upper)"

text \<open>The ranges that were recorded do not wrap with a modulus.\<close>

definition ranges_safe :: "int \<Rightarrow> ModularSolver \<Rightarrow> bool" where
  "ranges_safe m s \<longleftrightarrow> (\<forall>x lower upper. ranges s x = Some (lower, upper) \<longrightarrow> safe_range lower upper m)"

fun op_safe :: "int \<Rightarrow> mod_op \<Rightarrow> bool" where
  "op_safe m (Equals x c) \<longleftrightarrow> is_int64 c"
| "op_safe m (InRange x lower upper) \<longleftrightarrow> safe_range lower upper m"

interpretation md: theory_solver NewModularSolver assert_mod "op_safe m" mod_holds "ranges_safe m" mod_agrees for m
proof unfold_locales
  show "ranges_safe m (assert_mod x s)" if "ranges_safe m s" "op_safe m x" for x s
    using that by (cases x) (auto simp: ranges_safe_def AddEquality_def AddRange_def)
  show "mod_agrees v (assert_mod x s)" if "mod_agrees v s" "mod_holds v x" for v x s
    using that by (cases x) (auto simp: mod_agrees_def AddEquality_def AddRange_def split: if_splits)
qed (simp_all add: NewModularSolver_def ranges_safe_def mod_agrees_def)

lemma IsConsistent_sound:
  assumes "ranges_safe m s" "mod_agrees v s" "0 < m" "is_int64 m" "v x mod m = residue mod m"
  shows "IsConsistent s x m residue"
proof (cases "equalities s x")
  case (Some c)
  then show ?thesis using assms by (simp add: IsConsistent_def Check_def norm_rem_mod mod_agrees_def)
next
  case None
  show ?thesis
  proof (cases "ranges s x")
    case (Some b)
    obtain lower upper where b: "b = (lower, upper)" by force
    let ?S = "{y. lower \<le> y \<and> y \<le> upper \<and> y mod m = residue mod m}"
    have "safe_range lower upper m" "v x \<in> ?S"
      using assms Some b by (auto simp: ranges_safe_def mod_agrees_def)
    moreover have "finite ?S" by (rule finite_subset [of _ "{lower..upper}"]) auto
    ultimately have "0 < card ?S" by (metis card_gt_0_iff empty_iff)
    then show ?thesis
      using None Some b assms countInRange_exact [OF \<open>safe_range lower upper m\<close> assms(3,4), of "residue mod m"]
      by (simp add: IsConsistent_def norm_rem_mod)
  qed (use None assms in \<open>simp add: IsConsistent_def\<close>)
qed

lemma GetFacts_sound:
  assumes "mod_agrees v s" "f \<in> set (GetFacts s x)"
  shows "0 < Modulus f \<and> v x mod Modulus f = Residue f \<and> Check f (v x)"
proof (cases "equalities s x")
  case (Some c)
  then have "v x = c" using assms(1) by (simp add: mod_agrees_def)
  moreover obtain m where "f = \<lparr>Modulus = m, Residue = norm_rem c m\<rparr>" "m \<in> {2, 3, 4, 5, 6, 8, 10}"
    using assms(2) Some by (auto simp: GetFacts_def)
  moreover from this have "0 < m" "is_int64 m" by (auto simp: is_int64_def)
  ultimately show ?thesis by (simp add: Check_def norm_rem_mod)
qed (use assms in \<open>simp add: GetFacts_def\<close>)

lemma Combine_laws:
  "Combine r s = Combine s r" "Combine (Combine r s) t = Combine r (Combine s t)" "Combine r r = r"
  by (cases r; cases s; cases t; simp add: Combine_def)+

section \<open>Properties\<close>

text \<open>
  For a range whose ends are far enough from the ends of the 64-bit integers that nothing
  wraps, \<open>countInRangeImpl\<close> is the number of integers of the range with the given residue, for every
  residue and every positive modulus.
\<close>

theorem modular_count_exact:
  assumes "safe_range lower upper m" and "0 < m" and "is_int64 m"
  shows "countInRangeImpl lower upper m residue =
    int (card {x. lower \<le> x \<and> x \<le> upper \<and> x mod m = residue mod m})"
  using assms by (rule countInRange_exact)

theorem modular_count_exact_witness:
  "countInRangeImpl (- 7) 20 3 (- 1) = int (card {x. - 7 \<le> x \<and> x \<le> 20 \<and> x mod 3 = (- 1) mod (3 :: int)})"
  using modular_count_exact [of "- 7" 20 3 "- 1"] by (simp add: safe_range_def is_int64_def)

text \<open>
  C24: when a valuation satisfies the assertions, no residue it has is reported inconsistent, and
  the derived facts hold of it, as long as the asserted ranges do not wrap with the modulus.
\<close>

theorem modular_sound:
  assumes "\<forall>p \<in> set ops. op_safe m p \<and> mod_holds v p" and "0 < m" and "is_int64 m"
    and "s = fold assert_mod ops NewModularSolver"
  shows "(v x mod m = residue mod m \<longrightarrow> IsConsistent s x m residue) \<and>
    (\<forall>f \<in> set (GetFacts s x). v x mod Modulus f = Residue f \<and> Check f (v x))"
proof -
  have "ranges_safe m s" "mod_agrees v s"
    unfolding assms(4) using assms(1) by (blast intro: md.reachable_invar md.reachable_agrees)+
  then show ?thesis using IsConsistent_sound [of m s v x residue] GetFacts_sound [of v s _ x] assms(2,3) by blast
qed

theorem modular_sound_witness:
  "IsConsistent (fold assert_mod [Equals ''x'' 7, InRange ''y'' 2 9] NewModularSolver) ''y'' 4 1"
  using modular_sound [of "[Equals ''x'' 7, InRange ''y'' 2 9]" 4 "\<lambda>s. if s = ''x'' then 7 else 5"
    "fold assert_mod [Equals ''x'' 7, InRange ''y'' 2 9] NewModularSolver" "''y''" 1]
  by (simp add: safe_range_def is_int64_def)

text \<open>
  Where the arithmetic wraps, the answers are wrong. On the full 64-bit range the difference of
  the bounds wraps, the count is 0, and a residue that every integer has is reported inconsistent; at
  the largest integer the first candidate wraps, and one even number is counted where there is none.
\<close>

theorem modular_range_overflow:
  "IsConsistent (AddRange ''x'' MinInt64 MaxInt64 NewModularSolver) ''x'' 1 0 = False \<and>
   countInRangeImpl MaxInt64 MaxInt64 2 0 = 1"
  by (intro conjI; code_simp)

end
