(* ===== verification/CallStack.thy ===== *)
theory CallStack
  imports Prelude
begin

text \<open>
  The two call frame stacks of \<open>state.go\<close>, an array of fixed size and a list of segments that grows,
  and their common interface \<open>callFrameStack\<close>. A frame is its index, which \<open>Push\<close> sets, and the rest
  of its fields, which the stacks only copy. A panic is \<open>None\<close>; a nil frame is an inner \<open>None\<close>. A
  segment comes from a pool, so its frames may be stale: they are an argument of \<open>Push\<close>.

  The lemmas show that both implement a stack of frames, numbered from 0, up to their capacity.
\<close>

section \<open>Model\<close>

record 'a callFrame =
  frame :: 'a
  Idx :: int

text \<open>The conversion to \<open>int16\<close>.\<close>

definition int16 :: "int \<Rightarrow> int" where
  "int16 x = (x + 32768) mod 65536 - 32768"

record 'a fixedStack =
  farray :: "'a callFrame list"
  fsp :: nat

definition newFixedCallFrameStack :: "'a callFrame \<Rightarrow> nat \<Rightarrow> 'a fixedStack" where
  "newFixedCallFrameStack zero n = \<lparr>farray = replicate n zero, fsp = 0\<rparr>"

definition f_IsEmpty :: "'a fixedStack \<Rightarrow> bool" where "f_IsEmpty cs \<longleftrightarrow> fsp cs = 0"

definition f_IsFull :: "'a fixedStack \<Rightarrow> bool" where "f_IsFull cs \<longleftrightarrow> fsp cs = length (farray cs)"

definition f_Clear :: "'a fixedStack \<Rightarrow> 'a fixedStack" where "f_Clear cs = cs\<lparr>fsp := 0\<rparr>"

definition f_Push :: "'a callFrame \<Rightarrow> 'a fixedStack \<Rightarrow> 'a fixedStack option" where
  "f_Push v cs = (if fsp cs < length (farray cs)
     then Some (cs\<lparr>farray := (farray cs)[fsp cs := v\<lparr>Idx := int16 (int (fsp cs))\<rparr>], fsp := fsp cs + 1\<rparr>)
     else None)"

definition f_Sp :: "'a fixedStack \<Rightarrow> nat" where "f_Sp cs = fsp cs"

definition f_SetSp :: "nat \<Rightarrow> 'a fixedStack \<Rightarrow> 'a fixedStack" where "f_SetSp n cs = cs\<lparr>fsp := n\<rparr>"

definition f_At :: "int \<Rightarrow> 'a fixedStack \<Rightarrow> 'a callFrame option" where
  "f_At i cs = (if 0 \<le> i \<and> nat i < length (farray cs) then Some (farray cs ! nat i) else None)"

definition f_Last :: "'a fixedStack \<Rightarrow> 'a callFrame option option" where
  "f_Last cs = (if fsp cs = 0 then Some None else map_option Some (f_At (int (fsp cs) - 1) cs))"

definition f_ParentOf :: "'a callFrame \<Rightarrow> 'a fixedStack \<Rightarrow> 'a callFrame option option" where
  "f_ParentOf cf cs = (if Idx cf = 0 then Some None else map_option Some (f_At (int16 (Idx cf - 1)) cs))"

definition f_Pop :: "'a fixedStack \<Rightarrow> ('a callFrame option \<times> 'a fixedStack) option" where
  "f_Pop cs = (if 0 < fsp cs \<and> fsp cs - 1 < length (farray cs)
     then Some (Some (farray cs ! (fsp cs - 1)), cs\<lparr>fsp := fsp cs - 1\<rparr>) else None)"

abbreviation (input) FramesPerSegment :: nat where "FramesPerSegment \<equiv> 8"

record 'a autoStack =
  segments :: "'a callFrame list option list"
  segIdx :: nat
  segSp :: nat

definition newCallFrameStackSegment :: "(nat \<Rightarrow> 'a callFrame) \<Rightarrow> 'a callFrame list" where
  "newCallFrameStackSegment pooled = map pooled [0..<FramesPerSegment]"

definition newAutoGrowingCallFrameStack :: "(nat \<Rightarrow> 'a callFrame) \<Rightarrow> nat \<Rightarrow> 'a autoStack option" where
  "newAutoGrowingCallFrameStack pooled maxSize =
     (let n = (maxSize + (FramesPerSegment - 1)) div FramesPerSegment in
      if 0 < n then Some \<lparr>segments = (replicate n None)[0 := Some (newCallFrameStackSegment pooled)], segIdx = 0, segSp = 0\<rparr> else None)"

definition a_IsEmpty :: "'a autoStack \<Rightarrow> bool" where
  "a_IsEmpty cs \<longleftrightarrow> segIdx cs = 0 \<and> segSp cs = 0"

definition a_IsFull :: "'a autoStack \<Rightarrow> bool" where
  "a_IsFull cs \<longleftrightarrow> segIdx cs = length (segments cs) \<and> segSp cs \<ge> FramesPerSegment"

definition free_from :: "nat \<Rightarrow> nat \<Rightarrow> 'a autoStack \<Rightarrow> 'a autoStack" where
  "free_from lo hi cs = cs\<lparr>segments := map (\<lambda>i. if lo \<le> i \<and> i \<le> hi then None else segments cs ! i) [0..<length (segments cs)]\<rparr>"

definition a_Clear :: "'a autoStack \<Rightarrow> 'a autoStack" where
  "a_Clear cs = (free_from 1 (segIdx cs) cs)\<lparr>segIdx := 0, segSp := 0\<rparr>"

definition a_FreeAll :: "'a autoStack \<Rightarrow> 'a autoStack" where
  "a_FreeAll cs = free_from 0 (segIdx cs) cs"

definition segment :: "nat \<Rightarrow> 'a autoStack \<Rightarrow> 'a callFrame list option" where
  "segment i cs = (if i < length (segments cs) then segments cs ! i else None)"

definition a_Push :: "(nat \<Rightarrow> 'a callFrame) \<Rightarrow> 'a callFrame \<Rightarrow> 'a autoStack \<Rightarrow> 'a autoStack option" where
  "a_Push pooled v cs =
     (if segSp cs \<ge> FramesPerSegment then
        if segIdx cs < (length (segments cs) - 1) mod 65536 then
          let i = (segIdx cs + 1) mod 65536 in
          Some (cs\<lparr>segments := (segments cs)[i := Some ((newCallFrameStackSegment pooled)[0 := v\<lparr>Idx := int16 (8 * int i)\<rparr>])],
            segIdx := i, segSp := 1\<rparr>)
        else None
      else case segment (segIdx cs) cs of
        None \<Rightarrow> None
      | Some seg \<Rightarrow>
          Some (cs\<lparr>segments := (segments cs)[segIdx cs := Some (seg[segSp cs :=
              v\<lparr>Idx := int16 (int (segSp cs) + 8 * int (segIdx cs))\<rparr>])],
            segSp := segSp cs + 1\<rparr>))"

definition a_Sp :: "'a autoStack \<Rightarrow> nat" where
  "a_Sp cs = segSp cs + segIdx cs * FramesPerSegment"

definition a_SetSp :: "nat \<Rightarrow> 'a autoStack \<Rightarrow> 'a autoStack" where
  "a_SetSp sp cs =
     (let desiredSegIdx = (sp div FramesPerSegment) mod 65536;
          desiredFramesInLastSeg = sp mod FramesPerSegment;
          cs = (if segIdx cs > desiredSegIdx
            then (free_from (desiredSegIdx + 1) (segIdx cs) cs)\<lparr>segIdx := desiredSegIdx\<rparr> else cs)
      in cs\<lparr>segSp := desiredFramesInLastSeg\<rparr>)"

definition seg_frame :: "nat \<Rightarrow> nat \<Rightarrow> 'a autoStack \<Rightarrow> 'a callFrame option" where
  "seg_frame i j cs = (case segment i cs of None \<Rightarrow> None
     | Some seg \<Rightarrow> if j < length seg then Some (seg ! j) else None)"

definition a_At :: "int \<Rightarrow> 'a autoStack \<Rightarrow> 'a callFrame option" where
  "a_At sp cs = (if sp < 0 then None else seg_frame ((nat sp div FramesPerSegment) mod 65536) (nat sp mod FramesPerSegment) cs)"

definition a_Last :: "'a autoStack \<Rightarrow> 'a callFrame option option" where
  "a_Last cs =
     (if segSp cs = 0 then
        if segIdx cs = 0 then Some None
        else map_option Some (seg_frame (segIdx cs - 1) (FramesPerSegment - 1) cs)
      else map_option Some (seg_frame (segIdx cs) (segSp cs - 1) cs))"

definition a_ParentOf :: "'a callFrame \<Rightarrow> 'a autoStack \<Rightarrow> 'a callFrame option option" where
  "a_ParentOf cf cs = (if Idx cf = 0 then Some None else map_option Some (a_At (Idx cf - 1) cs))"

definition a_Pop :: "'a autoStack \<Rightarrow> ('a callFrame option \<times> 'a autoStack) option" where
  "a_Pop cs =
     (if segSp cs = 0 \<and> segIdx cs = 0 then Some (None, cs)
      else let cs = (if segSp cs = 0
          then cs\<lparr>segments := (segments cs)[segIdx cs := None], segIdx := segIdx cs - 1, segSp := FramesPerSegment\<rparr>
          else cs)
        in map_option (\<lambda>f. (Some f, cs\<lparr>segSp := segSp cs - 1\<rparr>)) (seg_frame (segIdx cs) (segSp cs - 1) cs))"

section \<open>The stack interface\<close>

datatype 'f stack_op = SPush 'f | SPop | SUnwind nat

text \<open>
  The operations of \<open>callFrameStack\<close> over a list of frames: \<open>num i f\<close> is the frame \<open>f\<close> with index
  \<open>i\<close>. Unwinding goes to a depth below the current one.
\<close>

fun spec_stack :: "(nat \<Rightarrow> 'f \<Rightarrow> 'f) \<Rightarrow> nat \<Rightarrow> 'f stack_op list \<Rightarrow> 'f list \<Rightarrow> 'f list option" where
  "spec_stack num cap [] xs = Some xs"
| "spec_stack num cap (SPush f # ops) xs =
     (if length xs < cap then spec_stack num cap ops (xs @ [num (length xs) f]) else None)"
| "spec_stack num cap (SPop # ops) xs = (if xs = [] then None else spec_stack num cap ops (butlast xs))"
| "spec_stack num cap (SUnwind n # ops) xs =
     (if n < length xs then spec_stack num cap ops (take n xs) else None)"

fun run_stack ::
  "('f \<Rightarrow> 's \<Rightarrow> 's option) \<Rightarrow> ('s \<Rightarrow> ('f option \<times> 's) option) \<Rightarrow> (nat \<Rightarrow> 's \<Rightarrow> 's) \<Rightarrow> 'f stack_op list \<Rightarrow> 's \<Rightarrow> 's option" where
  "run_stack push pop set_sp [] s = Some s"
| "run_stack push pop set_sp (SPush f # ops) s =
     (case push f s of None \<Rightarrow> None | Some s \<Rightarrow> run_stack push pop set_sp ops s)"
| "run_stack push pop set_sp (SPop # ops) s =
     (case pop s of None \<Rightarrow> None | Some (_, s) \<Rightarrow> run_stack push pop set_sp ops s)"
| "run_stack push pop set_sp (SUnwind n # ops) s = run_stack push pop set_sp ops (set_sp n s)"

locale frame_stack =
  fixes push :: "'f \<Rightarrow> 's \<Rightarrow> 's option" and pop :: "'s \<Rightarrow> ('f option \<times> 's) option"
    and set_sp :: "nat \<Rightarrow> 's \<Rightarrow> 's" and depth :: "'s \<Rightarrow> nat" and at :: "int \<Rightarrow> 's \<Rightarrow> 'f option"
    and lst :: "'s \<Rightarrow> 'f option option" and num :: "nat \<Rightarrow> 'f \<Rightarrow> 'f"
    and invar :: "'s \<Rightarrow> bool" and frames :: "'s \<Rightarrow> 'f list" and cap :: "'s \<Rightarrow> nat"
  assumes depth_law: "invar s \<Longrightarrow> depth s = length (frames s)"
    and push_law: "invar s \<Longrightarrow> length (frames s) < cap s \<Longrightarrow>
      \<exists>s'. push f s = Some s' \<and> invar s' \<and> frames s' = frames s @ [num (length (frames s)) f] \<and> cap s' = cap s"
    and push_full: "invar s \<Longrightarrow> \<not> length (frames s) < cap s \<Longrightarrow> push f s = None"
    and pop_law: "invar s \<Longrightarrow> frames s \<noteq> [] \<Longrightarrow>
      \<exists>s'. pop s = Some (Some (last (frames s)), s') \<and> invar s' \<and> frames s' = butlast (frames s) \<and> cap s' = cap s"
    and unwind_law: "invar s \<Longrightarrow> n < length (frames s) \<Longrightarrow>
      invar (set_sp n s) \<and> frames (set_sp n s) = take n (frames s) \<and> cap (set_sp n s) = cap s"
    and at_law: "invar s \<Longrightarrow> i < length (frames s) \<Longrightarrow> at (int i) s = Some (frames s ! i)"
    and last_law: "invar s \<Longrightarrow> lst s = Some (if frames s = [] then None else Some (last (frames s)))"
begin

lemma run_refines:
  "invar s \<Longrightarrow> spec_stack num (cap s) ops (frames s) = Some xs \<Longrightarrow>
   \<exists>s'. run_stack push pop set_sp ops s = Some s' \<and> invar s' \<and> frames s' = xs \<and> cap s' = cap s"
proof (induction ops arbitrary: s)
  case (Cons x ops)
  show ?case
  proof (cases x)
    case (SPush f)
    with Cons.prems push_law [of s f] obtain s1 where s1: "push f s = Some s1" "invar s1"
      "frames s1 = frames s @ [num (length (frames s)) f]" "cap s1 = cap s" by (auto split: if_splits)
    with Cons.prems(2) SPush have "spec_stack num (cap s1) ops (frames s1) = Some xs" by (simp split: if_splits)
    from Cons.IH [OF s1(2) this] s1 SPush show ?thesis by simp
  next
    case SPop
    with Cons.prems pop_law [of s] obtain s1 where s1: "pop s = Some (Some (last (frames s)), s1)" "invar s1"
      "frames s1 = butlast (frames s)" "cap s1 = cap s" by (auto split: if_splits)
    with Cons.prems(2) SPop have "spec_stack num (cap s1) ops (frames s1) = Some xs" by (simp split: if_splits)
    from Cons.IH [OF s1(2) this] s1 SPop show ?thesis by simp
  next
    case (SUnwind n)
    with Cons.prems unwind_law [of s n] have s1: "invar (set_sp n s)" "frames (set_sp n s) = take n (frames s)"
      "cap (set_sp n s) = cap s" by (auto split: if_splits)
    with Cons.prems(2) SUnwind have "spec_stack num (cap (set_sp n s)) ops (frames (set_sp n s)) = Some xs"
      by (simp split: if_splits)
    from Cons.IH [OF s1(1) this] s1 SUnwind show ?thesis by simp
  qed
qed simp

lemma observe:
  assumes "invar s" "frames s = xs"
  shows "depth s = length xs \<and> lst s = Some (if xs = [] then None else Some (last xs)) \<and>
    (\<forall>i < length xs. at (int i) s = Some (xs ! i))"
  using assms depth_law last_law at_law by simp

end

text \<open>The frames of a stack are numbered.\<close>

definition numbered :: "'a callFrame list \<Rightarrow> bool" where
  "numbered xs \<longleftrightarrow> (\<forall>i < length xs. Idx (xs ! i) = int i)"

definition set_idx :: "nat \<Rightarrow> 'a callFrame \<Rightarrow> 'a callFrame" where
  "set_idx i f = f\<lparr>Idx := int16 (int i)\<rparr>"

lemma int16_id: "- 32768 \<le> x \<Longrightarrow> x < 32768 \<Longrightarrow> int16 x = x"
  by (simp add: int16_def)

lemma spec_stack_numbered:
  "spec_stack set_idx cap ops xs = Some ys \<Longrightarrow> cap \<le> 32768 \<Longrightarrow> numbered xs \<Longrightarrow> numbered ys"
proof (induction "set_idx :: nat \<Rightarrow> 'a callFrame \<Rightarrow> 'a callFrame" cap ops xs rule: spec_stack.induct)
  case (2 cap f ops xs)
  then have "numbered (xs @ [set_idx (length xs) f])"
    by (auto simp: numbered_def nth_append set_idx_def int16_id split: if_splits)
  with 2 show ?case by (simp split: if_splits)
next
  case (3 cap ops xs)
  then show ?case by (simp add: numbered_def nth_butlast split: if_splits)
next
  case (4 cap n ops xs)
  then show ?case by (simp add: numbered_def split: if_splits)
qed simp

section \<open>The fixed stack\<close>

definition f_ok :: "'a fixedStack \<Rightarrow> bool" where
  "f_ok cs \<longleftrightarrow> fsp cs \<le> length (farray cs)"

definition f_frames :: "'a fixedStack \<Rightarrow> 'a callFrame list" where
  "f_frames cs = take (fsp cs) (farray cs)"

lemma take_Suc_update: "n < length xs \<Longrightarrow> take (Suc n) (xs[n := x]) = take n xs @ [x]"
  by (simp add: take_Suc_conv_app_nth)

interpretation fixed: frame_stack f_Push f_Pop f_SetSp f_Sp f_At f_Last set_idx f_ok f_frames "\<lambda>cs. length (farray cs)"
proof unfold_locales
  fix s :: "'a fixedStack" and f n i
  assume ok: "f_ok s"
  then have l: "length (f_frames s) = fsp s" by (simp add: f_ok_def f_frames_def)
  show "f_Sp s = length (f_frames s)" using l by (simp add: f_Sp_def)
  show "\<exists>s'. f_Push f s = Some s' \<and> f_ok s' \<and> f_frames s' = f_frames s @ [set_idx (length (f_frames s)) f] \<and>
      length (farray s') = length (farray s)" if "length (f_frames s) < length (farray s)"
    using that l by (simp add: f_Push_def f_ok_def f_frames_def set_idx_def take_Suc_update)
  show "f_Push f s = None" if "\<not> length (f_frames s) < length (farray s)"
    using that l by (simp add: f_Push_def)
  show "\<exists>s'. f_Pop s = Some (Some (last (f_frames s)), s') \<and> f_ok s' \<and> f_frames s' = butlast (f_frames s) \<and>
      length (farray s') = length (farray s)" if "f_frames s \<noteq> []"
    using that l ok by (auto simp: f_Pop_def f_ok_def f_frames_def butlast_take last_conv_nth)
  show "f_ok (f_SetSp n s) \<and> f_frames (f_SetSp n s) = take n (f_frames s) \<and>
      length (farray (f_SetSp n s)) = length (farray s)" if "n < length (f_frames s)"
    using that l ok by (auto simp: f_SetSp_def f_ok_def f_frames_def min_def)
  show "f_At (int i) s = Some (f_frames s ! i)" if "i < length (f_frames s)"
    using that l ok by (simp add: f_At_def f_frames_def f_ok_def)
  show "f_Last s = Some (if f_frames s = [] then None else Some (last (f_frames s)))"
    using l ok by (auto simp: f_Last_def f_At_def f_frames_def f_ok_def last_conv_nth nat_diff_distrib)
qed

section \<open>The growing stack\<close>

definition a_ok :: "'a autoStack \<Rightarrow> bool" where
  "a_ok cs \<longleftrightarrow> length (segments cs) \<le> 4096 \<and> segIdx cs < length (segments cs) \<and> segSp cs \<le> 8 \<and>
     (\<forall>i \<le> segIdx cs. \<exists>seg. segments cs ! i = Some seg \<and> length seg = 8)"

abbreviation (input) slot :: "'a autoStack \<Rightarrow> nat \<Rightarrow> 'a callFrame" where
  "slot cs i \<equiv> the (segments cs ! (i div 8)) ! (i mod 8)"

definition a_frames :: "'a autoStack \<Rightarrow> 'a callFrame list" where
  "a_frames cs = map (slot cs) [0..<a_Sp cs]"

lemma length_a_frames [simp]: "length (a_frames cs) = a_Sp cs"
  by (simp add: a_frames_def)

lemma nth_a_frames: "i < a_Sp cs \<Longrightarrow> a_frames cs ! i = slot cs i"
  by (simp add: a_frames_def)

lemma a_okD:
  assumes "a_ok cs"
  shows "length (segments cs) \<le> 4096" "segIdx cs < length (segments cs)" "segSp cs \<le> 8"
    "i \<le> segIdx cs \<Longrightarrow> \<exists>seg. segments cs ! i = Some seg \<and> length seg = 8"
  using assms by (auto simp: a_ok_def)

lemma below_sp: "a_ok cs \<Longrightarrow> i < a_Sp cs \<Longrightarrow> i div 8 \<le> segIdx cs"
  using a_okD(3) [of cs] by (simp add: a_Sp_def)

lemma seg_frame_slot:
  assumes "a_ok cs" "i div 8 \<le> segIdx cs"
  shows "seg_frame (i div 8) (i mod 8) cs = Some (slot cs i)"
proof -
  from a_okD(4) [OF assms] obtain seg where "segments cs ! (i div 8) = Some seg" "length seg = 8" by blast
  moreover have "i div 8 < length (segments cs)" using assms(2) a_okD(2) [OF assms(1)] by simp
  ultimately show ?thesis by (simp add: seg_frame_def segment_def)
qed

lemma a_At_slot: "a_ok cs \<Longrightarrow> i < a_Sp cs \<Longrightarrow> a_At (int i) cs = Some (slot cs i)"
proof -
  assume a: "a_ok cs" "i < a_Sp cs"
  from below_sp [OF a] a_okD(1,2) [OF a(1)] have "i div 8 mod 65536 = i div 8" by simp
  then show ?thesis using seg_frame_slot [OF a(1) below_sp [OF a]] by (simp add: a_At_def)
qed

lemma a_frames_extend:
  assumes "a_Sp cs' = Suc (a_Sp cs)" "\<And>i. i < a_Sp cs \<Longrightarrow> slot cs' i = slot cs i" "slot cs' (a_Sp cs) = f"
  shows "a_frames cs' = a_frames cs @ [f]"
  using assms by (simp add: a_frames_def)

lemma a_push_law:
  assumes ok: "a_ok s" and room: "a_Sp s < 8 * length (segments s)"
  shows "\<exists>s'. a_Push pooled f s = Some s' \<and> a_ok s' \<and> a_frames s' = a_frames s @ [set_idx (a_Sp s) f] \<and>
    length (segments s') = length (segments s)"
proof (cases "segSp s \<ge> 8")
  case True
  then have sp: "segSp s = 8" "a_Sp s = 8 * Suc (segIdx s)" using a_okD(3) [OF ok] by (simp_all add: a_Sp_def)
  then have i: "Suc (segIdx s) < length (segments s)" using room by simp
  let ?seg = "(newCallFrameStackSegment pooled)[0 := f\<lparr>Idx := int16 (8 * int (Suc (segIdx s)))\<rparr>]"
  let ?s = "s\<lparr>segments := (segments s)[Suc (segIdx s) := Some ?seg], segIdx := Suc (segIdx s), segSp := 1\<rparr>"
  have seg: "length ?seg = 8" "?seg ! 0 = f\<lparr>Idx := int16 (8 * int (Suc (segIdx s)))\<rparr>"
    by (simp_all add: newCallFrameStackSegment_def)
  have "a_Push pooled f s = Some ?s"
    using True i a_okD(1) [OF ok] by (simp add: a_Push_def Let_def)
  moreover have "a_ok ?s" unfolding a_ok_def
  proof (intro conjI allI impI)
    fix j assume "j \<le> segIdx ?s"
    then show "\<exists>sg. segments ?s ! j = Some sg \<and> length sg = 8"
      using a_okD(4) [OF ok, of j] i seg by (cases "j = Suc (segIdx s)") auto
  qed (use a_okD(1) [OF ok] i in auto)
  moreover have "a_frames ?s = a_frames s @ [set_idx (a_Sp s) f]"
  proof (rule a_frames_extend)
    show "a_Sp ?s = Suc (a_Sp s)" using sp by (simp add: a_Sp_def)
    show "slot ?s j = slot s j" if "j < a_Sp s" for j
      using below_sp [OF ok that] by simp
    have "a_Sp s div 8 = Suc (segIdx s)" "a_Sp s mod 8 = 0" using sp by simp_all
    then show "slot ?s (a_Sp s) = set_idx (a_Sp s) f"
      using i seg(2) sp(2) by (simp add: set_idx_def newCallFrameStackSegment_def)
  qed
  ultimately show ?thesis by simp
next
  case False
  then have sp: "a_Sp s div 8 = segIdx s" "a_Sp s mod 8 = segSp s" "segSp s < 8" by (simp_all add: a_Sp_def)
  from a_okD(4) [OF ok, of "segIdx s"] obtain seg where seg: "segments s ! segIdx s = Some seg" "length seg = 8" by blast
  have len: "segIdx s < length (segments s)" by (rule a_okD(2) [OF ok])
  let ?f = "f\<lparr>Idx := int16 (int (segSp s) + 8 * int (segIdx s))\<rparr>"
  let ?s = "s\<lparr>segments := (segments s)[segIdx s := Some (seg[segSp s := ?f])], segSp := segSp s + 1\<rparr>"
  have "a_Push pooled f s = Some ?s" using False seg len by (simp add: a_Push_def segment_def)
  moreover have "a_ok ?s" unfolding a_ok_def
  proof (intro conjI allI impI)
    fix j assume "j \<le> segIdx ?s"
    then show "\<exists>sg. segments ?s ! j = Some sg \<and> length sg = 8"
      using a_okD(4) [OF ok, of j] len seg by (cases "j = segIdx s") auto
  qed (use a_okD(1,2) [OF ok] sp in auto)
  moreover have "a_frames ?s = a_frames s @ [set_idx (a_Sp s) f]"
  proof (rule a_frames_extend)
    show "a_Sp ?s = Suc (a_Sp s)" by (simp add: a_Sp_def)
    show "slot ?s j = slot s j" if j: "j < a_Sp s" for j
    proof (cases "j div 8 = segIdx s")
      case True
      then have "j mod 8 \<noteq> segSp s" using j by (metis a_Sp_def add.commute div_mult_mod_eq nat_less_le)
      with True seg len show ?thesis by simp
    qed simp
    show "slot ?s (a_Sp s) = set_idx (a_Sp s) f"
      using seg len sp by (simp add: set_idx_def) (simp add: a_Sp_def algebra_simps)
  qed
  ultimately show ?thesis by simp
qed

lemma a_push_full: "a_ok s \<Longrightarrow> \<not> a_Sp s < 8 * length (segments s) \<Longrightarrow> a_Push pooled f s = None"
  using a_okD(1-3) [of s] by (auto simp: a_Push_def a_Sp_def)

lemma sp_div_mod:
  assumes "a_ok s" "segSp s \<noteq> 0"
  shows "(a_Sp s - 1) div 8 = segIdx s" "(a_Sp s - 1) mod 8 = segSp s - 1"
proof -
  obtain k where k: "segSp s = Suc k" "k < 8" using assms a_okD(3) [of s] by (cases "segSp s") auto
  then have "a_Sp s - 1 = k + segIdx s * 8" by (simp add: a_Sp_def)
  with k show "(a_Sp s - 1) div 8 = segIdx s" "(a_Sp s - 1) mod 8 = segSp s - 1" by simp_all
qed

lemma a_pop_law:
  assumes ok: "a_ok s" and ne: "0 < a_Sp s"
  shows "\<exists>s'. a_Pop s = Some (Some (last (a_frames s)), s') \<and> a_ok s' \<and> a_frames s' = butlast (a_frames s) \<and>
    length (segments s') = length (segments s)"
proof -
  have last: "last (a_frames s) = slot s (a_Sp s - 1)"
    using ne by (subst last_conv_nth) (auto simp: nth_a_frames simp flip: length_0_conv)
  have but: "butlast (a_frames s) = map (slot s) [0..<a_Sp s - 1]"
    using ne by (simp add: a_frames_def butlast_conv_take take_map)
  show ?thesis
  proof (cases "segSp s = 0")
    case True
    with ne obtain k where k: "segIdx s = Suc k" by (cases "segIdx s") (auto simp: a_Sp_def)
    have p: "(a_Sp s - 1) div 8 = k" "(a_Sp s - 1) mod 8 = 7" using True k by (simp_all add: a_Sp_def)
    let ?m = "s\<lparr>segments := (segments s)[Suc k := None], segIdx := k, segSp := 8\<rparr>"
    let ?s = "?m\<lparr>segSp := 7\<rparr>"
    have ok': "a_ok ?s" unfolding a_ok_def
      using a_okD(1-3) [OF ok] a_okD(4) [OF ok] k by auto
    have "seg_frame k 7 ?m = Some (slot s (a_Sp s - 1))"
      using seg_frame_slot [OF ok, of "a_Sp s - 1", unfolded p] a_okD(2) [OF ok] p k
      by (simp add: seg_frame_def segment_def)
    then have "a_Pop s = Some (Some (last (a_frames s)), ?s)"
      using True k last by (simp add: a_Pop_def Let_def)
    moreover have "a_frames ?s = butlast (a_frames s)"
    proof -
      have "a_Sp ?s = a_Sp s - 1" using True k by (simp add: a_Sp_def)
      moreover have "slot ?s j = slot s j" if "j < a_Sp s - 1" for j
        using that True k by (simp add: a_Sp_def)
      ultimately show ?thesis unfolding but by (simp add: a_frames_def)
    qed
    ultimately show ?thesis using ok' by simp
  next
    case False
    note p = sp_div_mod [OF ok False]
    have "seg_frame (segIdx s) (segSp s - 1) s = Some (last (a_frames s))"
      using seg_frame_slot [OF ok, of "a_Sp s - 1"] p last by simp
    then have "a_Pop s = Some (Some (last (a_frames s)), s\<lparr>segSp := segSp s - 1\<rparr>)"
      using False by (simp add: a_Pop_def Let_def)
    moreover have "a_ok (s\<lparr>segSp := segSp s - 1\<rparr>)" using ok by (auto simp: a_ok_def)
    moreover have "a_frames (s\<lparr>segSp := segSp s - 1\<rparr>) = butlast (a_frames s)"
      unfolding but using False by (simp add: a_frames_def a_Sp_def)
    ultimately show ?thesis by simp
  qed
qed

lemma a_unwind_law:
  assumes ok: "a_ok s" and n: "n < a_Sp s"
  shows "a_ok (a_SetSp n s) \<and> a_frames (a_SetSp n s) = take n (a_frames s) \<and>
    length (segments (a_SetSp n s)) = length (segments s)"
proof -
  have d: "n div 8 \<le> segIdx s" by (rule below_sp [OF ok n])
  with a_okD(1,2) [OF ok] have m: "n div 8 mod 65536 = n div 8" by simp
  let ?c = "a_SetSp n s"
  have idx: "segIdx ?c = n div 8" "segSp ?c = n mod 8" "length (segments ?c) = length (segments s)"
    using d m by (auto simp: a_SetSp_def Let_def free_from_def)
  have keep: "segments ?c ! i = segments s ! i" if "i \<le> n div 8" for i
    using that d m a_okD(2) [OF ok] by (auto simp: a_SetSp_def Let_def free_from_def)
  have "a_ok ?c" unfolding a_ok_def idx
    using a_okD(1,2) [OF ok] a_okD(4) [OF ok] d keep by auto
  moreover have sp: "a_Sp ?c = n" by (simp add: a_Sp_def idx)
  moreover have "a_frames ?c = take n (a_frames s)"
  proof -
    have "slot ?c i = slot s i" if "i < n" for i using keep [of "i div 8"] that by (simp add: div_le_mono)
    then show ?thesis using n by (simp add: a_frames_def sp take_map)
  qed
  ultimately show ?thesis using idx by simp
qed

lemma a_last_law:
  assumes ok: "a_ok s"
  shows "a_Last s = Some (if a_frames s = [] then None else Some (last (a_frames s)))"
proof (cases "a_Sp s = 0")
  case True
  then show ?thesis by (simp add: a_Last_def a_frames_def a_Sp_def)
next
  case False
  then have ne: "a_frames s \<noteq> []" by (simp flip: length_0_conv)
  with False have last: "last (a_frames s) = slot s (a_Sp s - 1)" by (simp add: last_conv_nth nth_a_frames)
  have fr: "seg_frame ((a_Sp s - 1) div 8) ((a_Sp s - 1) mod 8) s = Some (slot s (a_Sp s - 1))"
    by (rule seg_frame_slot [OF ok]) (use False in \<open>auto intro: below_sp [OF ok]\<close>)
  show ?thesis
  proof (cases "segSp s = 0")
    case True
    with False have "(a_Sp s - 1) div 8 = segIdx s - 1" "(a_Sp s - 1) mod 8 = 7" "segIdx s \<noteq> 0"
      by (cases "segIdx s"; simp add: a_Sp_def)+
    with True fr last ne show ?thesis by (simp add: a_Last_def)
  next
    case nz: False
    with sp_div_mod [OF ok nz] fr last ne show ?thesis by (simp add: a_Last_def)
  qed
qed

interpretation growing: frame_stack "a_Push pooled" a_Pop a_SetSp a_Sp a_At a_Last set_idx a_ok a_frames
  "\<lambda>cs. 8 * length (segments cs)" for pooled
proof unfold_locales
  fix s :: "'a autoStack" and f n i
  assume ok: "a_ok s"
  show "a_Sp s = length (a_frames s)" by simp
  show "\<exists>s'. a_Push pooled f s = Some s' \<and> a_ok s' \<and> a_frames s' = a_frames s @ [set_idx (length (a_frames s)) f] \<and>
      8 * length (segments s') = 8 * length (segments s)" if "length (a_frames s) < 8 * length (segments s)"
    using a_push_law [OF ok, of pooled f] that by auto
  show "a_Push pooled f s = None" if "\<not> length (a_frames s) < 8 * length (segments s)"
    using a_push_full [OF ok] that by simp
  show "\<exists>s'. a_Pop s = Some (Some (last (a_frames s)), s') \<and> a_ok s' \<and> a_frames s' = butlast (a_frames s) \<and>
      8 * length (segments s') = 8 * length (segments s)" if "a_frames s \<noteq> []"
    using a_pop_law [OF ok] that by (auto simp flip: length_0_conv)
  show "a_ok (a_SetSp n s) \<and> a_frames (a_SetSp n s) = take n (a_frames s) \<and>
      8 * length (segments (a_SetSp n s)) = 8 * length (segments s)" if "n < length (a_frames s)"
    using a_unwind_law [OF ok, of n] that by simp
  show "a_At (int i) s = Some (a_frames s ! i)" if "i < length (a_frames s)"
    using ok that by (simp add: a_At_slot nth_a_frames)
  show "a_Last s = Some (if a_frames s = [] then None else Some (last (a_frames s)))"
    by (rule a_last_law [OF ok])
qed

lemma newAuto_ok:
  assumes "newAutoGrowingCallFrameStack pooled maxSize = Some s" "maxSize \<le> 32768"
  shows "a_ok s" "a_frames s = []" "maxSize \<le> 8 * length (segments s)" "8 * length (segments s) \<le> 32768"
  using assms by (auto simp: newAutoGrowingCallFrameStack_def Let_def a_ok_def newCallFrameStackSegment_def
      a_frames_def a_Sp_def split: if_splits)

lemma newFixed_ok: "f_ok (newFixedCallFrameStack z n)" "f_frames (newFixedCallFrameStack z n) = []"
  "length (farray (newFixedCallFrameStack z n)) = n"
  by (simp_all add: newFixedCallFrameStack_def f_ok_def f_frames_def)

lemma spec_stack_cap: "spec_stack num c ops xs = Some ys \<Longrightarrow> c \<le> c' \<Longrightarrow> spec_stack num c' ops xs = Some ys"
  by (induction num c ops xs rule: spec_stack.induct) (auto split: if_splits)

lemma numbered_parent_fixed:
  assumes "f_ok s" "numbered (f_frames s)" "i < length (f_frames s)" "length (f_frames s) \<le> 32768"
  shows "f_ParentOf (f_frames s ! i) s = Some (if i = 0 then None else Some (f_frames s ! (i - 1)))"
proof (cases i)
  case 0
  with assms show ?thesis by (simp add: f_ParentOf_def numbered_def)
next
  case (Suc k)
  then have "Idx (f_frames s ! i) = 1 + int k" using assms by (simp add: numbered_def)
  then show ?thesis using assms Suc fixed.at_law [OF assms(1), of k] by (simp add: f_ParentOf_def int16_id)
qed

lemma numbered_parent_growing:
  assumes "a_ok s" "numbered (a_frames s)" "i < length (a_frames s)"
  shows "a_ParentOf (a_frames s ! i) s = Some (if i = 0 then None else Some (a_frames s ! (i - 1)))"
proof (cases i)
  case 0
  with assms show ?thesis by (simp add: a_ParentOf_def numbered_def)
next
  case (Suc k)
  then have "Idx (a_frames s ! i) = 1 + int k" using assms by (simp add: numbered_def)
  then show ?thesis using assms Suc growing.at_law [OF assms(1), of k] by (simp add: a_ParentOf_def)
qed

section \<open>Properties\<close>

text \<open>
  C14: the fixed stack of a given size and the growing stack of the same maximal size behave alike:
  every sequence of pushes, pops and unwindings below the current depth that a stack of that
  capacity allows runs on both without a panic and leaves the same depth, the same top frame and the
  same frame at every depth, whatever stale frames the pooled segments had.
\<close>

theorem call_stacks_agree:
  assumes "spec_stack set_idx maxSize ops [] = Some xs" and "maxSize \<le> 32768"
    and "newAutoGrowingCallFrameStack pooled maxSize = Some s0"
  shows "\<exists>s t. run_stack (a_Push pooled) a_Pop a_SetSp ops s0 = Some s \<and>
    run_stack f_Push f_Pop f_SetSp ops (newFixedCallFrameStack z maxSize) = Some t \<and>
    a_Sp s = length xs \<and> f_Sp t = length xs \<and>
    a_Last s = f_Last t \<and> a_Last s = Some (if xs = [] then None else Some (last xs)) \<and>
    (\<forall>i < length xs. a_At (int i) s = Some (xs ! i) \<and> f_At (int i) t = Some (xs ! i))"
proof -
  note n = newAuto_ok [OF assms(3,2)]
  have "spec_stack set_idx (8 * length (segments s0)) ops (a_frames s0) = Some xs"
    using spec_stack_cap [OF assms(1) n(3)] n(2) by simp
  from growing.run_refines [OF n(1) this, of pooled] obtain s
    where s: "run_stack (a_Push pooled) a_Pop a_SetSp ops s0 = Some s" "a_ok s" "a_frames s = xs" by blast
  have "spec_stack set_idx (length (farray (newFixedCallFrameStack z maxSize))) ops
      (f_frames (newFixedCallFrameStack z maxSize)) = Some xs" using assms(1) by (simp add: newFixed_ok)
  from fixed.run_refines [OF newFixed_ok(1) this] obtain t
    where t: "run_stack f_Push f_Pop f_SetSp ops (newFixedCallFrameStack z maxSize) = Some t" "f_ok t" "f_frames t = xs"
    by blast
  show ?thesis using s t growing.observe [OF s(2,3)] fixed.observe [OF t(2,3)] by auto
qed

theorem call_stacks_agree_witness:
  "\<exists>s t. run_stack (a_Push (\<lambda>i. \<lparr>frame = 99, Idx = 0\<rparr>)) a_Pop a_SetSp
      [SPush \<lparr>frame = 1, Idx = 0\<rparr>, SPush \<lparr>frame = 2, Idx = 0\<rparr>, SPop] (the (newAutoGrowingCallFrameStack (\<lambda>i. \<lparr>frame = 99, Idx = 0\<rparr>) 16)) = Some s \<and>
    run_stack f_Push f_Pop f_SetSp [SPush \<lparr>frame = 1, Idx = 0\<rparr>, SPush \<lparr>frame = 2, Idx = 0\<rparr>, SPop]
      (newFixedCallFrameStack \<lparr>frame = 0 :: nat, Idx = 0\<rparr> 16) = Some t \<and> a_Last s = f_Last t"
proof -
  let ?ops = "[SPush \<lparr>frame = 1, Idx = 0\<rparr>, SPush \<lparr>frame = 2, Idx = 0\<rparr>, SPop]"
  have "spec_stack set_idx 16 ?ops [] = Some [\<lparr>frame = 1, Idx = 0\<rparr>]" by (simp add: set_idx_def int16_def)
  moreover obtain s0 where "newAutoGrowingCallFrameStack (\<lambda>i. \<lparr>frame = 99 :: nat, Idx = 0\<rparr>) 16 = Some s0"
    by (simp add: newAutoGrowingCallFrameStack_def)
  ultimately show ?thesis
    using call_stacks_agree [of 16 ?ops "[\<lparr>frame = 1, Idx = 0\<rparr>]" "\<lambda>i. \<lparr>frame = 99, Idx = 0\<rparr>" s0] by fastforce
qed

text \<open>
  in every stack reached from an empty one, frames are numbered by their depth and \<open>ParentOf\<close>
  finds the frame below, nil for the first, in both stacks.
\<close>

theorem call_stack_parent:
  assumes "spec_stack set_idx maxSize ops [] = Some xs" and "maxSize \<le> 32768" and "i < length xs"
    and "newAutoGrowingCallFrameStack pooled maxSize = Some s0"
  shows "\<exists>s t. run_stack (a_Push pooled) a_Pop a_SetSp ops s0 = Some s \<and>
    run_stack f_Push f_Pop f_SetSp ops (newFixedCallFrameStack z maxSize) = Some t \<and>
    Idx (xs ! i) = int i \<and>
    a_ParentOf (xs ! i) s = Some (if i = 0 then None else Some (xs ! (i - 1))) \<and>
    f_ParentOf (xs ! i) t = Some (if i = 0 then None else Some (xs ! (i - 1)))"
proof -
  note n = newAuto_ok [OF assms(4,2)]
  have num: "numbered xs" by (rule spec_stack_numbered [OF assms(1,2)]) (simp add: numbered_def)
  have "spec_stack set_idx (8 * length (segments s0)) ops (a_frames s0) = Some xs"
    using spec_stack_cap [OF assms(1) n(3)] n(2) by simp
  from growing.run_refines [OF n(1) this, of pooled] obtain s
    where s: "run_stack (a_Push pooled) a_Pop a_SetSp ops s0 = Some s" "a_ok s" "a_frames s = xs" by blast
  have "spec_stack set_idx (length (farray (newFixedCallFrameStack z maxSize))) ops
      (f_frames (newFixedCallFrameStack z maxSize)) = Some xs" using assms(1) by (simp add: newFixed_ok)
  from fixed.run_refines [OF newFixed_ok(1) this] obtain t
    where t: "run_stack f_Push f_Pop f_SetSp ops (newFixedCallFrameStack z maxSize) = Some t" "f_ok t"
      "f_frames t = xs" "length (farray t) = length (farray (newFixedCallFrameStack z maxSize))" by blast
  then have "length xs \<le> 32768" using assms(2) by (auto simp: f_frames_def newFixed_ok)
  then show ?thesis
    using s t num assms(3) numbered_parent_growing [OF s(2)] numbered_parent_fixed [OF t(2)]
    by (auto simp: numbered_def)
qed

theorem call_stack_parent_witness:
  "\<exists>s. run_stack (a_Push (\<lambda>i. \<lparr>frame = 0, Idx = 0\<rparr>)) a_Pop a_SetSp [SPush \<lparr>frame = 1, Idx = 0\<rparr>, SPush \<lparr>frame = 2, Idx = 0\<rparr>]
      (the (newAutoGrowingCallFrameStack (\<lambda>i. \<lparr>frame = 0, Idx = 0\<rparr>) 8)) = Some s \<and>
    a_ParentOf \<lparr>frame = 2 :: nat, Idx = 1\<rparr> s = Some (Some \<lparr>frame = 1, Idx = 0\<rparr>)"
proof -
  let ?ops = "[SPush \<lparr>frame = 1, Idx = 0\<rparr>, SPush \<lparr>frame = 2, Idx = 0\<rparr>]"
  let ?xs = "[\<lparr>frame = 1 :: nat, Idx = 0\<rparr>, \<lparr>frame = 2, Idx = 1\<rparr>]"
  have "spec_stack set_idx 8 ?ops [] = Some ?xs" by (simp add: set_idx_def int16_def)
  moreover obtain s0 where "newAutoGrowingCallFrameStack (\<lambda>i. \<lparr>frame = 0 :: nat, Idx = 0\<rparr>) 8 = Some s0"
    by (simp add: newAutoGrowingCallFrameStack_def)
  ultimately show ?thesis
    using call_stack_parent [of 8 ?ops ?xs 1 "\<lambda>i. \<lparr>frame = 0, Idx = 0\<rparr>" s0] by fastforce
qed

text \<open>
  The growing stack departs from the interface in two ways: it is never full, since the segment
  index stays below the number of segments, and setting the depth to the current one at the end of a
  segment drops the eight frames of that segment.
\<close>

theorem growing_stack_departures:
  assumes "a_ok s" and "segSp s = 8"
  shows "\<not> a_IsFull s \<and> a_Sp (a_SetSp (a_Sp s) s) = a_Sp s - 8"
  using assms a_okD(1,2) [OF assms(1)] by (simp add: a_IsFull_def a_SetSp_def a_Sp_def Let_def)

theorem growing_stack_departures_witness:
  "a_Sp (a_SetSp 8 \<lparr>segments = [Some (replicate 8 \<lparr>frame = (), Idx = 0\<rparr>)], segIdx = 0, segSp = 8\<rparr>) = 0"
  using growing_stack_departures [of "\<lparr>segments = [Some (replicate 8 \<lparr>frame = (), Idx = 0\<rparr>)], segIdx = 0, segSp = 8\<rparr>"]
  by (simp add: a_ok_def a_Sp_def)

end
