(* ===== verification/PatternSyntax.thy ===== *)
theory PatternSyntax
  imports Prelude
begin

text \<open>
  Lua patterns, the first half of \<open>pm/pm.go\<close>: the scanner, the character classes and the parser.
  Characters are integers, as in the code, where \<open>eos\<close> is -1. The recursive descent over captures is
  bounded by the fuel argument of the loop; the lemmas show that the length of the pattern is
  enough, so that parsing always ends with a pattern or with one of the errors of the code.
\<close>

section \<open>Scanner\<close>

abbreviation eos :: int where "eos \<equiv> - 1"
abbreviation beforeStart :: int where "beforeStart \<equiv> - 3"
abbreviation maxPatternDepth :: nat where "maxPatternDepth \<equiv> 200"

datatype pm_error = PmError int string | PmOutOfFuel

record scanner =
  src :: "u8 list"
  pos :: int
  savedPos :: int

definition newScanner :: "u8 list \<Rightarrow> scanner" where
  "newScanner s = \<lparr>src = s, pos = beforeStart, savedPos = beforeStart\<rparr>"

definition char_at :: "u8 list \<Rightarrow> int \<Rightarrow> int" where
  "char_at s i = uint (s ! nat i)"

definition next_ch :: "scanner \<Rightarrow> int \<times> scanner" where
  "next_ch sc =
     (if pos sc = eos then (eos, sc)
      else let p = (if pos sc = beforeStart then 0 else pos sc + 1) in
        if p \<ge> int (length (src sc)) then (eos, sc\<lparr>pos := eos\<rparr>)
        else (char_at (src sc) p, sc\<lparr>pos := p\<rparr>))"

definition currentPos :: "scanner \<Rightarrow> int" where "currentPos sc = pos sc"

definition peek :: "scanner \<Rightarrow> int" where
  "peek sc =
     (if pos sc = eos then eos
      else let next = (if pos sc = beforeStart then 0 else pos sc + 1) in
        if next \<ge> int (length (src sc)) then eos else char_at (src sc) next)"

definition atEnd :: "scanner \<Rightarrow> bool" where
  "atEnd sc =
     (if pos sc = eos then True
      else if pos sc = beforeStart then length (src sc) = 0
      else pos sc + 1 \<ge> int (length (src sc)))"

definition save :: "scanner \<Rightarrow> scanner" where "save sc = sc\<lparr>savedPos := pos sc\<rparr>"

definition restore :: "scanner \<Rightarrow> scanner" where "restore sc = sc\<lparr>pos := savedPos sc\<rparr>"

abbreviation skip :: "scanner \<Rightarrow> scanner" where "skip sc \<equiv> snd (next_ch sc)"

section \<open>Character classes\<close>

datatype charClass = DotClass | LiteralClass int | SingleClass int | SetClass bool "charClass list" | RangeClass int int

abbreviation in_range :: "int \<Rightarrow> int \<Rightarrow> int \<Rightarrow> bool" where "in_range a ch b \<equiv> a \<le> ch \<and> ch \<le> b"

text \<open>The letters of a class, by the code of its small letter; \<open>None\<close> is the default case.\<close>

definition class_letters :: "int \<Rightarrow> int \<Rightarrow> bool option" where
  "class_letters code ch =
     (if code = 97 \<or> code = 65 then Some (in_range 65 ch 90 \<or> in_range 97 ch 122)
      else if code = 99 \<or> code = 67 then Some (in_range 0 ch 31 \<or> ch = 127)
      else if code = 100 \<or> code = 68 then Some (in_range 48 ch 57)
      else if code = 108 \<or> code = 76 then Some (in_range 97 ch 122)
      else if code = 112 \<or> code = 80 then
        Some (in_range 33 ch 47 \<or> in_range 58 ch 64 \<or> in_range 91 ch 96 \<or> in_range 123 ch 126)
      else if code = 115 \<or> code = 83 then Some (ch \<in> {32, 12, 10, 13, 9, 11})
      else if code = 117 \<or> code = 85 then Some (in_range 65 ch 90)
      else if code = 119 \<or> code = 87 then Some (in_range 48 ch 57 \<or> in_range 65 ch 90 \<or> in_range 97 ch 122)
      else if code = 120 \<or> code = 88 then Some (in_range 48 ch 57 \<or> in_range 97 ch 102 \<or> in_range 65 ch 70)
      else if code = 122 \<or> code = 90 then Some (ch = 0)
      else None)"

definition matchCharClass :: "int \<Rightarrow> int \<Rightarrow> bool" where
  "matchCharClass code ch =
     (case class_letters code ch of
        None \<Rightarrow> ch = code
      | Some matched \<Rightarrow> if in_range 65 code 90 then \<not> matched else matched)"

fun matchClass :: "charClass \<Rightarrow> int \<Rightarrow> bool" where
  "matchClass DotClass ch = True"
| "matchClass (LiteralClass c) ch = (c = ch)"
| "matchClass (SingleClass code) ch = matchCharClass code ch"
| "matchClass (SetClass negated cs) ch = (if \<exists>c \<in> set cs. matchClass c ch then \<not> negated else negated)"
| "matchClass (RangeClass b e) ch = (b \<le> ch \<and> ch \<le> e)"

section \<open>Patterns\<close>

datatype pat = SinglePattern charClass | RepeatPattern int charClass | PosCapPattern | CapPattern "pat list"
  | NumberPattern int | BracePattern int int

text \<open>
  The pattern inside a capture is a sequence with neither anchor; the whole pattern has its anchors.
\<close>

record seqPattern =
  mustHead :: bool
  mustTail :: bool
  patterns :: "pat list"

section \<open>Parser\<close>

type_synonym 'a parsed = "pm_error + 'a \<times> scanner"

definition extractRangeBounds :: "charClass \<Rightarrow> charClass \<Rightarrow> int \<times> int" where
  "extractRangeBounds b e =
     ((case b of LiteralClass c \<Rightarrow> c | _ \<Rightarrow> 0), (case e of LiteralClass c \<Rightarrow> c | _ \<Rightarrow> 0))"

text \<open>\<open>parseClass\<close> for a character inside a set.\<close>

definition parseClass_in_set :: "scanner \<Rightarrow> charClass parsed" where
  "parseClass_in_set sc =
     (case next_ch sc of (ch, sc) \<Rightarrow>
        if ch = 37 then (case next_ch sc of (c, sc) \<Rightarrow> Inr (SingleClass c, sc))
        else if ch = eos then Inl (PmError (currentPos sc) ''unexpected EOS'')
        else Inr (LiteralClass ch, sc))"

text \<open>The loop of \<open>parseClassSet\<close>; every turn consumes a character.\<close>

fun parseSet_loop :: "nat \<Rightarrow> bool \<Rightarrow> charClass list \<Rightarrow> bool \<Rightarrow> scanner \<Rightarrow> charClass parsed" where
  "parseSet_loop 0 negated classes pendingRange sc = Inl PmOutOfFuel"
| "parseSet_loop (Suc n) negated classes pendingRange sc =
     (let ch = peek sc in
      if ch = 93 \<and> length classes > 0 then
        Inr (SetClass negated (if pendingRange then classes @ [LiteralClass 45] else classes), skip sc)
      else if ch = eos then Inl (PmError (currentPos sc) ''unexpected EOS'')
      else if ch = 45 \<and> length classes > 0 \<and> \<not> pendingRange then
        parseSet_loop n negated classes True (skip sc)
      else case parseClass_in_set sc of
        Inl err \<Rightarrow> Inl err
      | Inr (cls, sc) \<Rightarrow>
          if pendingRange then
            (case extractRangeBounds (last classes) cls of (b, e) \<Rightarrow>
               parseSet_loop n negated (butlast classes @ [RangeClass b e]) False sc)
          else parseSet_loop n negated (classes @ [cls]) pendingRange sc)"

definition parseClassSet :: "scanner \<Rightarrow> charClass parsed" where
  "parseClassSet sc =
     (if peek sc = 94 then parseSet_loop (Suc (length (src sc))) True [] False (skip sc)
      else parseSet_loop (Suc (length (src sc))) False [] False sc)"

definition parseClass :: "scanner \<Rightarrow> charClass parsed" where
  "parseClass sc =
     (case next_ch sc of (ch, sc) \<Rightarrow>
        if ch = 37 then (case next_ch sc of (c, sc) \<Rightarrow> Inr (SingleClass c, sc))
        else if ch = 46 then Inr (DotClass, sc)
        else if ch = 91 then parseClassSet sc
        else if ch = eos then Inl (PmError (currentPos sc) ''unexpected EOS'')
        else Inr (LiteralClass ch, sc))"

definition parseEscape :: "pat list \<Rightarrow> scanner \<Rightarrow> pat list parsed" where
  "parseEscape ps sc =
     (let sc = skip (save sc) in
      if peek sc = 48 then Inl (PmError (currentPos sc) ''invalid capture index'')
      else if 49 \<le> peek sc \<and> peek sc \<le> 57 then
        (case next_ch sc of (ch, sc) \<Rightarrow> Inr (ps @ [NumberPattern (ch - 48)], sc))
      else if peek sc = 98 then
        (case next_ch (skip sc) of (b, sc) \<Rightarrow> case next_ch sc of (e, sc) \<Rightarrow> Inr (ps @ [BracePattern b e], sc))
      else case parseClass (restore sc) of
        Inl err \<Rightarrow> Inl err
      | Inr (cls, sc) \<Rightarrow> Inr (ps @ [SinglePattern cls], sc))"

definition parseRepeat :: "pat list \<Rightarrow> int \<Rightarrow> scanner \<Rightarrow> pat list \<times> scanner" where
  "parseRepeat ps ch sc =
     (let sc = skip sc in
      if ps \<noteq> [] then
        (case last ps of
           SinglePattern cls \<Rightarrow> (butlast ps @ [RepeatPattern ch cls], sc)
         | _ \<Rightarrow> (ps @ [SinglePattern (LiteralClass ch)], sc))
      else (ps @ [SinglePattern (LiteralClass ch)], sc))"

text \<open>
  The loop of \<open>parsePatternDepth\<close>, with the body of \<open>parseCaptureDepth\<close> at an opening
  parenthesis. The result has the flag \<open>mustTail\<close> beside the patterns.
\<close>

fun parse_loop :: "nat \<Rightarrow> bool \<Rightarrow> nat \<Rightarrow> bool \<Rightarrow> pat list \<Rightarrow> scanner \<Rightarrow> (bool \<times> pat list) parsed" where
  "parse_loop 0 topLevel depth tail ps sc = Inl PmOutOfFuel"
| "parse_loop (Suc n) topLevel depth tail ps sc =
     (let ch = peek sc in
      if ch = 37 then
        (case parseEscape ps sc of Inl err \<Rightarrow> Inl err | Inr (ps, sc) \<Rightarrow> parse_loop n topLevel depth tail ps sc)
      else if ch = 46 \<or> ch = 91 \<or> ch = 93 then
        (case parseClass sc of Inl err \<Rightarrow> Inl err
         | Inr (cls, sc) \<Rightarrow> parse_loop n topLevel depth tail (ps @ [SinglePattern cls]) sc)
      else if ch = 41 then
        (if topLevel then Inl (PmError (currentPos sc) (''invalid '' @ [CHR 0x27, CHR '')'', CHR 0x27]))
         else Inr ((tail, ps), sc))
      else if ch = 40 then
        (let sc = skip sc in
         if peek sc = 41 then parse_loop n topLevel depth tail (ps @ [PosCapPattern]) (skip sc)
         else if depth + 1 > maxPatternDepth then Inl (PmError (currentPos sc) ''pattern too complex'')
         else case parse_loop n False (depth + 1) False [] sc of
           Inl err \<Rightarrow> Inl err
         | Inr ((_, inner), sc) \<Rightarrow>
             if peek sc \<noteq> 41 then Inl (PmError (currentPos sc) ''unfinished capture'')
             else parse_loop n topLevel depth tail (ps @ [CapPattern inner]) (skip sc))
      else if ch = 42 \<or> ch = 43 \<or> ch = 45 \<or> ch = 63 then
        (case parseRepeat ps ch sc of (ps, sc) \<Rightarrow> parse_loop n topLevel depth tail ps sc)
      else if ch = 36 then
        (let sc = skip sc in
         if topLevel \<and> atEnd sc then parse_loop n topLevel depth True ps sc
         else parse_loop n topLevel depth tail (ps @ [SinglePattern (LiteralClass ch)]) sc)
      else if ch = eos then Inr ((tail, ps), sc)
      else parse_loop n topLevel depth tail (ps @ [SinglePattern (LiteralClass ch)]) (skip sc))"

definition parsePattern :: "scanner \<Rightarrow> seqPattern parsed" where
  "parsePattern sc =
     (let head = (peek sc = 94);
          sc = (if head then skip sc else sc)
      in case parse_loop (Suc (length (src sc))) True 0 False [] sc of
        Inl err \<Rightarrow> Inl err
      | Inr ((tail, ps), sc) \<Rightarrow> Inr (\<lparr>mustHead = head, mustTail = tail, patterns = ps\<rparr>, sc))"

section \<open>Progress of the scanner\<close>

definition sc_ok :: "scanner \<Rightarrow> bool" where
  "sc_ok sc \<longleftrightarrow> pos sc = eos \<or> pos sc = beforeStart \<or> (0 \<le> pos sc \<and> pos sc < int (length (src sc)))"

definition remaining :: "scanner \<Rightarrow> nat" where
  "remaining sc = (if pos sc = eos then 0 else if pos sc = beforeStart then length (src sc)
     else nat (int (length (src sc)) - (pos sc + 1)))"

lemma char_at_nonneg: "0 \<le> char_at s i"
  by (simp add: char_at_def)

lemma peek_eos: "sc_ok sc \<Longrightarrow> peek sc = eos \<longleftrightarrow> remaining sc = 0"
  using char_at_nonneg [of "src sc"] by (auto simp: peek_def sc_ok_def remaining_def Let_def) (metis neg_0_le_iff_le not_one_le_zero)+

lemma next_ch_peek: "fst (next_ch sc) = peek sc"
  by (simp add: next_ch_def peek_def Let_def)

lemma skip_ok:
  assumes "sc_ok sc"
  shows "sc_ok (skip sc)" "src (skip sc) = src sc" "remaining (skip sc) = remaining sc - 1"
    "savedPos (skip sc) = savedPos sc"
  using assms by (auto simp: next_ch_def sc_ok_def remaining_def Let_def)

lemma remaining_le: "sc_ok sc \<Longrightarrow> remaining sc \<le> length (src sc)"
  by (auto simp: sc_ok_def remaining_def)

lemma newScanner_ok: "sc_ok (newScanner s)" "src (newScanner s) = s" "remaining (newScanner s) = length s"
  by (simp_all add: newScanner_def sc_ok_def remaining_def)

text \<open>
  The result of a parser: never out of fuel, and on success the scanner has moved forward by at
  least \<open>k\<close> characters.
\<close>

definition parses :: "nat \<Rightarrow> scanner \<Rightarrow> 'a parsed \<Rightarrow> bool" where
  "parses k sc res = (case res of Inl e \<Rightarrow> e \<noteq> PmOutOfFuel
     | Inr (_, sc') \<Rightarrow> sc_ok sc' \<and> src sc' = src sc \<and> remaining sc' + k \<le> remaining sc)"

lemma parses_Inl: "parses k sc (Inl (PmError p m))"
  by (simp add: parses_def)

lemma parses_Inr: "parses k sc (Inr (x, sc')) \<longleftrightarrow> sc_ok sc' \<and> src sc' = src sc \<and> remaining sc' + k \<le> remaining sc"
  by (simp add: parses_def)

lemma parses_trans:
  "parses j sc' res \<Longrightarrow> src sc' = src sc \<Longrightarrow> remaining sc' + (k - j) \<le> remaining sc \<Longrightarrow> parses k sc res"
  by (auto simp: parses_def split: sum.splits)

lemma next_step:
  assumes "sc_ok sc" "next_ch sc = (ch, sc')"
  shows "ch = peek sc" "sc' = skip sc" "sc_ok sc'" "src sc' = src sc" "remaining sc' = remaining sc - 1"
  using next_ch_peek [of sc] skip_ok [OF assms(1)] assms(2) by auto

lemma parses_in_set: "sc_ok sc \<Longrightarrow> peek sc \<noteq> eos \<Longrightarrow> parses 1 sc (parseClass_in_set sc)"
  using peek_eos [of sc] skip_ok [of sc] skip_ok [of "skip sc"] next_ch_peek [of sc]
  by (auto simp: parseClass_in_set_def parses_def split: prod.splits)

lemma parses_set_loop:
  "sc_ok sc \<Longrightarrow> remaining sc < n \<Longrightarrow> parses 0 sc (parseSet_loop n negated classes pendingRange sc)"
proof (induction n arbitrary: classes pendingRange sc)
  case (Suc n)
  note sk = skip_ok [OF Suc.prems(1)] and pe = peek_eos [OF Suc.prems(1)]
  consider "peek sc = 93" "classes \<noteq> []" | "peek sc = eos" |
    "peek sc = 45" "classes \<noteq> []" "\<not> pendingRange" "peek sc \<noteq> eos" |
    "\<not> (peek sc = 93 \<and> classes \<noteq> [])" "peek sc \<noteq> eos" "\<not> (peek sc = 45 \<and> classes \<noteq> [] \<and> \<not> pendingRange)"
    by blast
  then show ?case
  proof cases
    case 1
    then show ?thesis using sk by (simp add: parses_Inr)
  next
    case 2
    then show ?thesis by (simp add: parses_Inl)
  next
    case 3
    have "parses 0 (skip sc) (parseSet_loop n negated classes True (skip sc))"
      using 3 pe sk Suc.prems by (intro Suc.IH) auto
    then have "parses 0 sc (parseSet_loop n negated classes True (skip sc))"
      by (rule parses_trans) (use sk in auto)
    with 3 show ?thesis by simp
  next
    case 4
    have p: "parses 1 sc (parseClass_in_set sc)" by (rule parses_in_set [OF Suc.prems(1) 4(2)])
    show ?thesis
    proof (cases "parseClass_in_set sc")
      case (Inl e)
      with 4 p show ?thesis by (auto simp: parses_def)
    next
      case (Inr x)
      obtain cls sc' where x: "x = (cls, sc')" by force
      with p Inr have sc': "sc_ok sc'" "src sc' = src sc" "remaining sc' + 1 \<le> remaining sc" by (auto simp: parses_def)
      have "parses 0 sc (parseSet_loop n negated c r sc')" for c r
        by (rule parses_trans [OF Suc.IH [of sc']]) (use sc' Suc.prems in auto)
      then show ?thesis using 4 Inr x by (auto split: prod.split)
    qed
  qed
qed simp

lemma parses_parseClassSet: "sc_ok sc \<Longrightarrow> parses 0 sc (parseClassSet sc)"
proof -
  assume ok: "sc_ok sc"
  note sk = skip_ok [OF ok]
  have l: "remaining sc < Suc (length (src sc))" using remaining_le [OF ok] by simp
  have "parses 0 sc (parseSet_loop (Suc (length (src sc))) True [] False (skip sc))"
    by (rule parses_trans [OF parses_set_loop [OF sk(1)] sk(2)]) (use l sk(3) in simp_all)
  with parses_set_loop [OF ok l] show ?thesis unfolding parseClassSet_def by (simp del: parseSet_loop.simps)
qed

lemma parses_parseClass: "sc_ok sc \<Longrightarrow> peek sc \<noteq> eos \<Longrightarrow> parses 1 sc (parseClass sc)"
proof -
  assume a: "sc_ok sc" "peek sc \<noteq> eos"
  note sk = skip_ok [OF a(1)]
  have r: "0 < remaining sc" using peek_eos [OF a(1)] a(2) by simp
  have "parses 1 sc (parseClassSet (skip sc))"
    by (rule parses_trans [OF parses_parseClassSet [OF sk(1)] sk(2)]) (use sk(3) r in simp)
  then show ?thesis using sk r skip_ok [OF sk(1)]
    by (auto simp: parseClass_def parses_Inl parses_Inr split: prod.splits)
qed

lemma peek_saved: "peek (sc\<lparr>savedPos := x\<rparr>) = peek sc"
  by (simp add: peek_def Let_def)

lemma parses_parseEscape:
  assumes ok: "sc_ok sc" and pk: "peek sc \<noteq> eos"
  shows "parses 1 sc (parseEscape ps sc)"
proof -
  let ?s = "skip (save sc)"
  have ok': "sc_ok (save sc)" and r: "0 < remaining sc" and rem: "remaining (save sc) = remaining sc"
    using ok peek_eos [OF ok] pk by (simp_all add: sc_ok_def save_def remaining_def)
  note s = skip_ok [OF ok'] and s2 = skip_ok [OF skip_ok(1) [OF ok']]
  have src: "src (save sc) = src sc" by (simp add: save_def)
  have saved: "restore ?s = sc\<lparr>savedPos := pos sc\<rparr>"
    using s(4) by (simp add: restore_def save_def next_ch_def Let_def)
  have ok'': "sc_ok (sc\<lparr>savedPos := pos sc\<rparr>)" "peek (sc\<lparr>savedPos := pos sc\<rparr>) \<noteq> eos"
    using ok pk peek_saved [of "pos sc" sc] by (simp_all add: sc_ok_def)
  have "parses 1 sc (parseClass (restore ?s))"
    using parses_parseClass [OF ok''] unfolding saved
    by (rule parses_trans) (simp_all add: remaining_def)
  then have cls: "parses 1 sc (case parseClass (restore ?s) of Inl err \<Rightarrow> Inl err
      | Inr (cls, sc) \<Rightarrow> Inr (ps @ [SinglePattern cls], sc))"
    by (auto simp: parses_def split: sum.splits)
  obtain c1 n1 where n1: "next_ch ?s = (c1, n1)" by force
  note m1 = next_step [OF s(1) n1]
  obtain c2 n2 where n2: "next_ch n1 = (c2, n2)" by force
  note m2 = next_step [OF m1(3) n2]
  obtain c3 n3 where n3: "next_ch n2 = (c3, n3)" by force
  note m3 = next_step [OF m2(3) n3]
  have digit: "parses 1 sc (Inr (qs, n1))" and brace: "parses 1 sc (Inr (qs, n3))" for qs :: "pat list"
    using m1 m2 m3 s r rem src by (auto simp: parses_Inr)
  have "skip ?s = n1" using m1(2) by simp
  then show ?thesis using cls digit brace n1 n2 n3
    by (simp add: parseEscape_def Let_def parses_def)
qed

text \<open>The nesting of captures.\<close>

fun pdepth :: "pat \<Rightarrow> nat" where
  "pdepth (CapPattern ps) = Suc (Max (insert 0 (pdepth ` set ps)))"
| "pdepth _ = 0"

abbreviation deep :: "nat \<Rightarrow> pat list \<Rightarrow> bool" where "deep d ps \<equiv> \<forall>p \<in> set ps. pdepth p \<le> d"

text \<open>What the loop promises about its result, for captures that may nest \<open>d\<close> deep.\<close>

definition parses_deep :: "nat \<Rightarrow> scanner \<Rightarrow> (bool \<times> pat list) parsed \<Rightarrow> bool" where
  "parses_deep d sc res \<longleftrightarrow> parses 0 sc res \<and> (\<forall>t ps sc'. res = Inr ((t, ps), sc') \<longrightarrow> deep d ps)"

lemma parses_deep_trans:
  "parses_deep d sc' res \<Longrightarrow> src sc' = src sc \<Longrightarrow> remaining sc' \<le> remaining sc \<Longrightarrow> parses_deep d sc res"
  unfolding parses_deep_def by (auto intro: parses_trans)

lemma deep_escape: "parseEscape ps sc = Inr (ps', sc') \<Longrightarrow> deep d ps \<Longrightarrow> deep d ps'"
  by (auto simp: parseEscape_def Let_def split: if_splits prod.splits sum.splits)

lemma deep_repeat: "parseRepeat ps ch sc = (ps', sc') \<Longrightarrow> deep d ps \<Longrightarrow> deep d ps' \<and> sc' = skip sc"
  by (auto simp: parseRepeat_def Let_def split: if_splits pat.splits dest!: in_set_butlastD)

lemma deep_capture: "deep d ps \<Longrightarrow> pdepth (CapPattern ps) \<le> Suc d"
  by simp

lemma parse_loop_parses:
  "sc_ok sc \<Longrightarrow> remaining sc < n \<Longrightarrow> depth \<le> maxPatternDepth \<Longrightarrow> deep (maxPatternDepth - depth) ps \<Longrightarrow>
   parses_deep (maxPatternDepth - depth) sc (parse_loop n topLevel depth tail ps sc)"
proof (induction n arbitrary: topLevel depth tail ps sc)
  case (Suc n)
  note ok = Suc.prems(1) and IH = Suc.IH
  let ?d = "maxPatternDepth - depth"
  note sk = skip_ok [OF ok] and pe = peek_eos [OF ok]
  have go: "parses_deep ?d sc (parse_loop n topLevel depth t qs sc')"
    if "sc_ok sc'" "src sc' = src sc" "remaining sc' < remaining sc" "deep ?d qs" for t qs sc'
    by (rule parses_deep_trans [OF IH]) (use that Suc.prems in auto)
  have err: "parses_deep ?d sc (Inl (PmError p m))" for p m by (simp add: parses_deep_def parses_Inl)
  have nxt: "parses_deep ?d sc (parse_loop n topLevel depth t qs (skip sc))"
    if "peek sc \<noteq> eos" "deep ?d qs" for t qs
    using that sk pe by (intro go) auto
  consider "peek sc = eos" | "peek sc = 37" | "peek sc \<in> {46, 91, 93}" | "peek sc = 41" | "peek sc = 40" |
    "peek sc \<in> {42, 43, 45, 63}" | "peek sc = 36" |
    "peek sc \<notin> {eos, 37, 46, 91, 93, 41, 40, 42, 43, 45, 63, 36}" by blast
  then show ?case
  proof cases
    case 1
    then show ?thesis using Suc.prems by (simp add: parses_deep_def parses_Inr)
  next
    case 2
    then have p: "parses 1 sc (parseEscape ps sc)" using ok by (intro parses_parseEscape) auto
    show ?thesis
    proof (cases "parseEscape ps sc")
      case (Inl e)
      with 2 p show ?thesis by (auto simp: parses_deep_def parses_def)
    next
      case (Inr x)
      obtain qs sc' where x: "x = (qs, sc')" by force
      with p Inr have "sc_ok sc'" "src sc' = src sc" "remaining sc' < remaining sc" by (auto simp: parses_def)
      moreover have "deep ?d qs" using deep_escape Inr x Suc.prems(4) by blast
      ultimately show ?thesis using 2 Inr x go by simp
    qed
  next
    case 3
    then have p: "parses 1 sc (parseClass sc)" using ok by (intro parses_parseClass) auto
    show ?thesis
    proof (cases "parseClass sc")
      case (Inl e)
      with 3 p show ?thesis by (auto simp: parses_deep_def parses_def)
    next
      case (Inr x)
      obtain cls sc' where x: "x = (cls, sc')" by force
      with p Inr have "sc_ok sc'" "src sc' = src sc" "remaining sc' < remaining sc" by (auto simp: parses_def)
      moreover have "deep ?d (ps @ [SinglePattern cls])" using Suc.prems(4) by simp
      ultimately show ?thesis using 3 Inr x go by auto
    qed
  next
    case 4
    then show ?thesis using Suc.prems err by (simp add: parses_deep_def [of _ _ "Inr _"] parses_Inr)
  next
    case 5
    note sk2 = skip_ok [OF sk(1)]
    have r: "0 < remaining sc" using 5 pe by simp
    show ?thesis
    proof (cases "peek (skip sc) = 41 \<or> depth + 1 > maxPatternDepth")
      case True
      then show ?thesis using 5 r sk sk2 err go [OF sk2(1), of "ps @ [PosCapPattern]"] Suc.prems(4)
        by (auto simp: Let_def)
    next
      case False
      have in_ok: "parses_deep (maxPatternDepth - (depth + 1)) (skip sc) (parse_loop n False (depth + 1) False [] (skip sc))"
        using False r sk Suc.prems by (intro IH) auto
      show ?thesis
      proof (cases "parse_loop n False (depth + 1) False [] (skip sc)")
        case (Inl e)
        then show ?thesis using 5 False in_ok by (auto simp: parses_deep_def parses_def)
      next
        case (Inr x)
        obtain t inner sc' where x: "x = ((t, inner), sc')" by (metis surj_pair)
        with in_ok Inr have sc': "sc_ok sc'" "src sc' = src sc" "remaining sc' \<le> remaining (skip sc)"
          and inner: "deep (maxPatternDepth - (depth + 1)) inner"
          using sk by (auto simp: parses_deep_def parses_def)
        have "pdepth (CapPattern inner) \<le> ?d" using deep_capture [OF inner] False by linarith
        then have "parses_deep ?d sc (parse_loop n topLevel depth tail (ps @ [CapPattern inner]) (skip sc'))"
          using skip_ok [OF sc'(1)] sc' sk r Suc.prems(4) by (intro go) auto
        then show ?thesis using 5 False Inr x err by auto
      qed
    qed
  next
    case 6
    obtain qs sc' where x: "parseRepeat ps (peek sc) sc = (qs, sc')" by force
    with deep_repeat [OF this Suc.prems(4)] 6 nxt [of qs] show ?thesis by auto
  next
    case 7
    then show ?thesis using nxt [of ps] nxt [of "ps @ [SinglePattern (LiteralClass 36)]"] Suc.prems(4)
      by (auto simp: Let_def)
  next
    case 8
    then show ?thesis using nxt [of "ps @ [SinglePattern (LiteralClass (peek sc))]"] Suc.prems(4) by auto
  qed
qed simp

lemma parsePattern_parses:
  assumes ok: "sc_ok sc"
  shows "case parsePattern sc of Inl e \<Rightarrow> e \<noteq> PmOutOfFuel | Inr (p, _) \<Rightarrow> deep maxPatternDepth (patterns p)"
proof -
  define s where "s = (if peek sc = 94 then skip sc else sc)"
  have s: "sc_ok s" "remaining s < Suc (length (src s))"
    using ok skip_ok [OF ok] remaining_le [of s] by (auto simp: s_def)
  have "parses_deep maxPatternDepth s (parse_loop (Suc (length (src s))) True 0 False [] s)"
    using parse_loop_parses [OF s, of 0 "[]" True False] by simp
  then show ?thesis unfolding parsePattern_def Let_def s_def [symmetric]
    by (auto simp: parses_deep_def parses_def simp del: parse_loop.simps split: sum.splits)
qed

section \<open>Properties\<close>

text \<open>
  C25: Parsing ends on every byte string: it gives a pattern whose captures are nested at most
  \<open>maxPatternDepth\<close> deep, or one of the errors the code raises with its position.
\<close>

theorem parse_total:
  "case parsePattern (newScanner s) of
     Inl err \<Rightarrow> \<exists>p m. err = PmError p m
   | Inr (p, _) \<Rightarrow> \<forall>q \<in> set (patterns p). pdepth q \<le> maxPatternDepth"
  using parsePattern_parses [OF newScanner_ok(1), of s] by (auto split: sum.splits intro: pm_error.exhaust)

theorem parse_total_witness:
  "parsePattern (newScanner [40, 97, 41]) =
     Inr (\<lparr>mustHead = False, mustTail = False, patterns = [CapPattern [SinglePattern (LiteralClass 97)]]\<rparr>,
       \<lparr>src = [40, 97, 41], pos = 2, savedPos = - 3\<rparr>) \<and>
   pdepth (CapPattern [SinglePattern (LiteralClass 97)]) \<le> maxPatternDepth"
proof -
  have p: "parsePattern (newScanner [40, 97, 41]) =
     Inr (\<lparr>mustHead = False, mustTail = False, patterns = [CapPattern [SinglePattern (LiteralClass 97)]]\<rparr>,
       \<lparr>src = [40, 97, 41], pos = 2, savedPos = - 3\<rparr>)" by code_simp
  show ?thesis using parse_total [of "[40, 97, 41]"] by (simp add: p)
qed

end
