(* ===== verification/PatternVM.thy ===== *)
theory PatternVM
  imports PatternSyntax "HOL-Library.Sublist" "HOL-Library.Mapping" "HOL-Library.Multiset"
begin

text \<open>
  Lua patterns, the second half of \<open>pm/pm.go\<close>: the compiler to instructions, the backtracking
  machine with its limit on backtracks, the search loop of \<open>Find\<close>, and the cache of compiled
  patterns. The pools that recycle threads and match data hold no state that a match reads, so a
  thread is its program counter, its position and a copy of the captures. The loop of the machine is
  a partial function; an instruction index out of range is a panic.

  The lemmas show that on compiled code the machine always returns, and returns exactly the first
  match of a backtracking reference matcher on the parsed pattern, within the limit.
\<close>

unbundle bit_operations_syntax

section \<open>Captures\<close>

type_synonym captures = "u32 list"

definition ensureSlot :: "nat \<Rightarrow> captures \<Rightarrow> captures" where
  "ensureSlot slot caps = caps @ replicate (Suc slot - length caps) 0"

definition setCapture :: "nat \<Rightarrow> nat \<Rightarrow> captures \<Rightarrow> captures" where
  "setCapture slot p caps = (ensureSlot slot caps)[slot := push_bit 1 (word_of_nat p)]"

definition addPosCapture :: "nat \<Rightarrow> nat \<Rightarrow> captures \<Rightarrow> captures" where
  "addPosCapture slot p caps = (ensureSlot (slot + 1) caps)
     [slot := push_bit 1 (word_of_nat p) OR 1, slot + 1 := push_bit 1 (word_of_nat p) OR 1]"

definition CaptureLength :: "captures \<Rightarrow> nat" where "CaptureLength caps = length caps"

definition IsPosCapture :: "captures \<Rightarrow> int \<Rightarrow> bool" where
  "IsPosCapture caps idx = (if idx < 0 \<or> idx \<ge> int (length caps) then False else caps ! nat idx AND 1 = 1)"

definition Capture :: "captures \<Rightarrow> int \<Rightarrow> nat" where
  "Capture caps idx = (if idx < 0 \<or> idx \<ge> int (length caps) then 0 else unat (drop_bit 1 (caps ! nat idx)))"

section \<open>Compiler\<close>

datatype instr = OpChar charClass | OpMatch | OpTailMatch | OpJmp nat | OpSplit nat nat | OpSave nat | OpPSave nat
  | OpBrace int int | OpNumber int

definition compileRepeat :: "int \<Rightarrow> charClass \<Rightarrow> instr list \<Rightarrow> instr list" where
  "compileRepeat t c ins =
     (let idx = length ins in
      if t = 42 then ins @ [OpSplit (idx + 1) (idx + 3), OpChar c, OpJmp idx]
      else if t = 43 then ins @ [OpChar c, OpSplit idx (idx + 2)]
      else if t = 45 then ins @ [OpSplit (idx + 3) (idx + 1), OpChar c, OpJmp idx]
      else if t = 63 then ins @ [OpSplit (idx + 1) (idx + 2), OpChar c]
      else ins)"

text \<open>The builder is the list of instructions and the next capture slot.\<close>

fun compilePattern :: "pat \<Rightarrow> instr list \<times> nat \<Rightarrow> instr list \<times> nat"
and compileSeq :: "pat list \<Rightarrow> instr list \<times> nat \<Rightarrow> instr list \<times> nat" where
  "compilePattern (SinglePattern c) (ins, slot) = (ins @ [OpChar c], slot)"
| "compilePattern (RepeatPattern t c) (ins, slot) = (compileRepeat t c ins, slot)"
| "compilePattern PosCapPattern (ins, slot) = (ins @ [OpPSave slot], slot + 2)"
| "compilePattern (CapPattern ps) (ins, slot) =
     (case compileSeq ps (ins @ [OpSave slot], slot + 2) of (ins, slot') \<Rightarrow> (ins @ [OpSave (slot + 1)], slot'))"
| "compilePattern (BracePattern b e) (ins, slot) = (ins @ [OpBrace b e], slot)"
| "compilePattern (NumberPattern i) (ins, slot) = (ins @ [OpNumber i], slot)"
| "compileSeq [] b = b"
| "compileSeq (p # ps) b = compileSeq ps (compilePattern p b)"

definition compileTop :: "seqPattern \<Rightarrow> instr list" where
  "compileTop p = fst (compileSeq (patterns p) ([OpSave 0], 2)) @
     (if mustTail p then [OpSave 1, OpTailMatch] else [OpSave 1, OpMatch])"

section \<open>Machine\<close>

definition MaxBacktracks :: nat where "MaxBacktracks = 100000"

record vmThread =
  programCounter :: nat
  sourcePos :: nat
  tcaptures :: captures

datatype vm_result = VmDone bool nat captures | VmPanic

text \<open>The loop over the source after the opening brace.\<close>

fun brace_scan :: "int \<Rightarrow> int \<Rightarrow> nat \<Rightarrow> u8 list \<Rightarrow> nat \<Rightarrow> nat option" where
  "brace_scan op cl cnt [] sp = None"
| "brace_scan op cl cnt (ch # rest) sp =
     (if uint ch = cl then
        (if cnt - 1 = 0 then Some (sp + 1) else brace_scan op cl (cnt - 1) rest (sp + 1))
      else if uint ch = op then brace_scan op cl (cnt + 1) rest (sp + 1)
      else brace_scan op cl cnt rest (sp + 1))"

definition matchBrace :: "u8 list \<Rightarrow> int \<Rightarrow> int \<Rightarrow> nat \<Rightarrow> nat option" where
  "matchBrace str op cl sp =
     (if sp \<ge> length str \<or> uint (str ! sp) \<noteq> op then None
      else brace_scan op cl 1 (drop (sp + 1) str) (sp + 1))"

definition matchBackref :: "u8 list \<Rightarrow> captures \<Rightarrow> int \<Rightarrow> nat \<Rightarrow> nat option" where
  "matchBackref str caps index sp =
     (let slot = index * 2; capLen = CaptureLength caps in
      if slot + 1 \<ge> int capLen then None
      else let start = Capture caps slot; end = Capture caps (slot + 1) in
        if start > end \<or> end > length str then None
        else let capture = drop start (take end str) in
          if sp + length capture > length str then None
          else if capture \<noteq> drop sp (take (sp + length capture) str) then None
          else Some (sp + length capture))"

text \<open>The thread to go on with, if there is one and the limit is not reached.\<close>

definition backtrack :: "vmThread list \<Rightarrow> nat \<Rightarrow> (vmThread \<times> vmThread list \<times> nat) option" where
  "backtrack stack backtracks =
     (let backtracks = backtracks + 1 in
      if backtracks > MaxBacktracks \<or> stack = [] then None
      else Some (hd stack, tl stack, backtracks))"

text \<open>One turn of the loop: the instruction fails, moves on, starts a second thread or ends the match.\<close>

datatype exec_result = Fail | Step nat nat captures | Fork nat nat | Hit

definition exec :: "u8 list \<Rightarrow> instr \<Rightarrow> nat \<Rightarrow> nat \<Rightarrow> captures \<Rightarrow> exec_result" where
  "exec str inst pc sp caps = (case inst of
      OpChar cls \<Rightarrow> if sp \<ge> length str \<or> \<not> matchClass cls (uint (str ! sp)) then Fail else Step (pc + 1) (sp + 1) caps
    | OpMatch \<Rightarrow> Hit
    | OpTailMatch \<Rightarrow> if sp \<ge> length str then Hit else Fail
    | OpJmp a \<Rightarrow> Step a sp caps
    | OpSplit a b \<Rightarrow> Fork a b
    | OpSave slot \<Rightarrow> Step (pc + 1) sp (setCapture slot sp caps)
    | OpPSave slot \<Rightarrow> Step (pc + 1) sp (addPosCapture slot (sp + 1) caps)
    | OpBrace b e \<Rightarrow> (case matchBrace str b e sp of None \<Rightarrow> Fail | Some sp' \<Rightarrow> Step (pc + 1) sp' caps)
    | OpNumber i \<Rightarrow> (case matchBackref str caps i sp of None \<Rightarrow> Fail | Some sp' \<Rightarrow> Step (pc + 1) sp' caps))"

partial_function (option) run ::
  "u8 list \<Rightarrow> instr list \<Rightarrow> nat \<Rightarrow> nat \<Rightarrow> captures \<Rightarrow> vmThread list \<Rightarrow> nat \<Rightarrow> vm_result option" where
  "run str insts pc sp caps stack bt =
     (if pc \<ge> length insts then Some VmPanic
      else case exec str (insts ! pc) pc sp caps of
        Fail \<Rightarrow> (case backtrack stack bt of
            None \<Rightarrow> Some (VmDone False sp caps)
          | Some (t, stack, bt) \<Rightarrow> run str insts (programCounter t) (sourcePos t) (tcaptures t) stack bt)
      | Step pc sp caps \<Rightarrow> run str insts pc sp caps stack bt
      | Fork a b \<Rightarrow> run str insts a sp caps (\<lparr>programCounter = b, sourcePos = sp, tcaptures = caps\<rparr> # stack) bt
      | Hit \<Rightarrow> Some (VmDone True sp caps))"

section \<open>Search\<close>

definition save_slot :: "instr \<Rightarrow> nat" where
  "save_slot inst = (case inst of OpSave slot \<Rightarrow> slot | OpPSave slot \<Rightarrow> slot | _ \<Rightarrow> 0)"

text \<open>The capacity of the captures of a match; the captures themselves start empty.\<close>

definition calcMaxCaptureSlot :: "instr list \<Rightarrow> nat" where
  "calcMaxCaptureSlot insts = fold (\<lambda>inst maxSlot. if save_slot inst > maxSlot then save_slot inst else maxSlot) insts 0 + 2"

datatype find_result = FindOk "captures list" | FindErr pm_error | FindPanic

function find_loop :: "u8 list \<Rightarrow> instr list \<Rightarrow> bool \<Rightarrow> int \<Rightarrow> nat \<Rightarrow> captures list \<Rightarrow> find_result option" where
  "find_loop str insts head limit sp ms =
     (if sp > length str then Some (FindOk ms)
      else case run str insts 0 sp [] [] 0 of
        None \<Rightarrow> None
      | Some VmPanic \<Rightarrow> Some FindPanic
      | Some (VmDone ok newPos caps) \<Rightarrow>
          let sp' = sp + 1 in
          if ok then
            (let sp' = (if sp' < newPos then newPos else sp'); ms = ms @ [caps] in
             if int (length ms) = limit then Some (FindOk ms)
             else if head then Some (FindOk ms)
             else find_loop str insts head limit sp' ms)
          else if head then Some (FindOk ms)
          else find_loop str insts head limit sp' ms)"
  by pat_completeness auto
termination by (relation "measure (\<lambda>(str, _, _, _, sp, _). Suc (length str) - sp)") auto

section \<open>Cache of compiled patterns\<close>

record cacheEntry =
  ckey :: "u8 list"
  cinsts :: "instr list"
  cpat :: seqPattern

text \<open>
  An element of the list is written as the entry it holds; the front of the list is the head.
\<close>

record patternCache =
  capacity :: nat
  items :: "(u8 list, cacheEntry) mapping"
  order :: "cacheEntry list"

definition newPatternCache :: "nat \<Rightarrow> patternCache" where
  "newPatternCache cap = \<lparr>capacity = cap, items = Mapping.empty, order = []\<rparr>"

definition moveToFront :: "cacheEntry \<Rightarrow> cacheEntry list \<Rightarrow> cacheEntry list" where
  "moveToFront e es = e # remove1 e es"

definition cache_get :: "u8 list \<Rightarrow> patternCache \<Rightarrow> (instr list \<times> seqPattern) option \<times> patternCache" where
  "cache_get pattern pc = (case Mapping.lookup (items pc) pattern of
      None \<Rightarrow> (None, pc)
    | Some e \<Rightarrow> (Some (cinsts e, cpat e), pc\<lparr>order := moveToFront e (order pc)\<rparr>))"

definition evict :: "patternCache \<Rightarrow> patternCache" where
  "evict pc = (if length (order pc) \<ge> capacity pc \<and> order pc \<noteq> [] then
     pc\<lparr>items := Mapping.delete (ckey (last (order pc))) (items pc), order := butlast (order pc)\<rparr> else pc)"

definition cache_put :: "u8 list \<Rightarrow> instr list \<Rightarrow> seqPattern \<Rightarrow> patternCache \<Rightarrow> patternCache" where
  "cache_put pattern is p pc = (case Mapping.lookup (items pc) pattern of
      Some e \<Rightarrow> pc\<lparr>order := moveToFront e (order pc)\<rparr>
    | None \<Rightarrow> (let pc = evict pc; e = \<lparr>ckey = pattern, cinsts = is, cpat = p\<rparr> in
        pc\<lparr>items := Mapping.update pattern e (items pc), order := e # order pc\<rparr>))"

definition maxCachedPatterns :: nat where "maxCachedPatterns = 256"

definition getCompiledPattern :: "u8 list \<Rightarrow> patternCache \<Rightarrow> (pm_error + instr list \<times> seqPattern) \<times> patternCache" where
  "getCompiledPattern pattern pc = (case cache_get pattern pc of
      (Some r, pc) \<Rightarrow> (Inr r, pc)
    | (None, pc) \<Rightarrow> (case parsePattern (newScanner pattern) of
          Inl err \<Rightarrow> (Inl err, pc)
        | Inr (p, _) \<Rightarrow> (let is = compileTop p in (Inr (is, p), cache_put pattern is p pc))))"

text \<open>
  The result of a search with a positive limit is made with that capacity, of eight bytes each. The offset is
  a natural number: the library functions compute it so that it is not negative.
\<close>

abbreviation maxMatches :: int where "maxMatches \<equiv> maxAlloc div 8"

definition luaIndex2StringIndex :: "u8 list \<Rightarrow> int \<Rightarrow> bool \<Rightarrow> int" where
  "luaIndex2StringIndex str i start =
     (let i = (if start \<and> i \<noteq> 0 then wrap64 (i - 1) else i); l = int (length str);
          i = (if i < 0 then wrap64 (l + i + 1) else i); i = max 0 i
      in if \<not> start \<and> i > l then l else i)"

definition strMatch_offset :: "u8 list \<Rightarrow> int \<Rightarrow> int" where
  "strMatch_offset str offset =
     (let offset = (if offset < 0 then wrap64 (int (length str) + offset + 1) else offset);
          offset = wrap64 (offset - 1)
      in if offset < 0 then 0 else offset)"

definition Find :: "u8 list \<Rightarrow> u8 list \<Rightarrow> nat \<Rightarrow> int \<Rightarrow> patternCache \<Rightarrow> find_result option \<times> patternCache" where
  "Find pattern str offset limit pc = (case getCompiledPattern pattern pc of
      (Inl err, pc) \<Rightarrow> (Some (FindErr err), pc)
    | (Inr (is, p), pc) \<Rightarrow>
        (if limit > maxMatches then Some FindPanic else find_loop str is (mustHead p) limit offset [], pc))"

section \<open>Reference matcher\<close>

text \<open>
  The outcomes of a pattern at a position, in the order in which backtracking tries them: a hit with
  the position and captures after it, or a failure. The reference matches by recursion on the
  parsed pattern and knows nothing of instructions.
\<close>

type_synonym outcome = "(nat \<times> captures) option"

definition bindT :: "'a option list \<Rightarrow> ('a \<Rightarrow> 'b option list) \<Rightarrow> 'b option list" where
  "bindT T f = concat (map (\<lambda>x. case x of None \<Rightarrow> [None] | Some r \<Rightarrow> f r) T)"

fun star_trace :: "charClass \<Rightarrow> u8 list \<Rightarrow> nat \<Rightarrow> nat option list" where
  "star_trace c [] sp = [None, Some sp]"
| "star_trace c (x # xs) sp =
     (if matchClass c (uint x) then star_trace c xs (sp + 1) @ [Some sp] else [None, Some sp])"

fun plus_trace :: "charClass \<Rightarrow> u8 list \<Rightarrow> nat \<Rightarrow> nat option list" where
  "plus_trace c [] sp = [None]"
| "plus_trace c (x # xs) sp =
     (if matchClass c (uint x) then plus_trace c xs (sp + 1) @ [Some (sp + 1)] else [None])"

fun lazy_trace :: "charClass \<Rightarrow> u8 list \<Rightarrow> nat \<Rightarrow> nat option list" where
  "lazy_trace c [] sp = [Some sp, None]"
| "lazy_trace c (x # xs) sp = Some sp # (if matchClass c (uint x) then lazy_trace c xs (sp + 1) else [None])"

definition one_trace :: "charClass \<Rightarrow> u8 list \<Rightarrow> nat \<Rightarrow> nat option list" where
  "one_trace c xs sp = (case xs of [] \<Rightarrow> [None] | x # _ \<Rightarrow> if matchClass c (uint x) then [Some (sp + 1)] else [None])"

definition repeat_trace :: "int \<Rightarrow> charClass \<Rightarrow> u8 list \<Rightarrow> nat \<Rightarrow> nat option list" where
  "repeat_trace t c xs sp =
     (if t = 42 then star_trace c xs sp
      else if t = 43 then plus_trace c xs sp
      else if t = 45 then lazy_trace c xs sp
      else if t = 63 then one_trace c xs sp @ [Some sp]
      else [Some sp])"

text \<open>The capture slots after a pattern.\<close>

fun next_slot :: "pat \<Rightarrow> nat \<Rightarrow> nat" where
  "next_slot PosCapPattern slot = slot + 2"
| "next_slot (CapPattern ps) slot = fold next_slot ps (slot + 2)"
| "next_slot _ slot = slot"

fun pat_trace :: "u8 list \<Rightarrow> pat \<Rightarrow> nat \<Rightarrow> nat \<times> captures \<Rightarrow> outcome list"
and seq_trace :: "u8 list \<Rightarrow> pat list \<Rightarrow> nat \<Rightarrow> nat \<times> captures \<Rightarrow> outcome list" where
  "pat_trace str (SinglePattern c) slot (sp, caps) =
     map (map_option (\<lambda>sp. (sp, caps))) (one_trace c (drop sp str) sp)"
| "pat_trace str (RepeatPattern t c) slot (sp, caps) =
     map (map_option (\<lambda>sp. (sp, caps))) (repeat_trace t c (drop sp str) sp)"
| "pat_trace str PosCapPattern slot (sp, caps) = [Some (sp, addPosCapture slot (sp + 1) caps)]"
| "pat_trace str (CapPattern ps) slot (sp, caps) =
     bindT (seq_trace str ps (slot + 2) (sp, setCapture slot sp caps))
       (\<lambda>(sp, caps). [Some (sp, setCapture (slot + 1) sp caps)])"
| "pat_trace str (BracePattern b e) slot (sp, caps) = [map_option (\<lambda>sp. (sp, caps)) (matchBrace str b e sp)]"
| "pat_trace str (NumberPattern i) slot (sp, caps) = [map_option (\<lambda>sp. (sp, caps)) (matchBackref str caps i sp)]"
| "seq_trace str [] slot st = [Some st]"
| "seq_trace str (p # ps) slot st = bindT (pat_trace str p slot st) (seq_trace str ps (next_slot p slot))"

definition top_trace :: "u8 list \<Rightarrow> seqPattern \<Rightarrow> nat \<Rightarrow> outcome list" where
  "top_trace str p start = bindT (seq_trace str (patterns p) 2 (start, setCapture 0 start []))
     (\<lambda>(sp, caps). if mustTail p \<and> sp < length str then [None] else [Some (sp, setCapture 1 sp caps)])"

text \<open>The first hit, unless more failures than the limit come before it.\<close>

fun first_hit :: "nat \<Rightarrow> 'a option list \<Rightarrow> 'a option" where
  "first_hit limit [] = None"
| "first_hit limit (Some x # T) = Some x"
| "first_hit limit (None # T) = (if limit = 0 then None else first_hit (limit - 1) T)"

definition match_at :: "u8 list \<Rightarrow> seqPattern \<Rightarrow> nat \<Rightarrow> outcome" where
  "match_at str p s = first_hit MaxBacktracks (top_trace str p s)"

text \<open>All matches from a position on, as starts, ends and captures.\<close>

function find_from :: "u8 list \<Rightarrow> seqPattern \<Rightarrow> nat \<Rightarrow> (nat \<times> nat \<times> captures) list" where
  "find_from str p s =
     (if s > length str then []
      else case match_at str p s of
        None \<Rightarrow> find_from str p (s + 1)
      | Some (e, c) \<Rightarrow> (s, e, c) # find_from str p (max (s + 1) e))"
  by pat_completeness auto
termination by (relation "measure (\<lambda>(str, _, s). Suc (length str) - s)") auto

definition find_all :: "u8 list \<Rightarrow> seqPattern \<Rightarrow> nat \<Rightarrow> (nat \<times> nat \<times> captures) list" where
  "find_all str p offset =
     (if mustHead p then
        (if offset > length str then [] else case match_at str p offset of None \<Rightarrow> [] | Some (e, c) \<Rightarrow> [(offset, e, c)])
      else find_from str p offset)"

definition limited :: "int \<Rightarrow> 'a list \<Rightarrow> 'a list" where
  "limited limit xs = (if limit > 0 then take (nat limit) xs else xs)"

declare find_from.simps [simp del] find_loop.simps [simp del]

section \<open>The machine follows the traces\<close>

text \<open>The trace of a thread: what it and the threads it starts come to, in order.\<close>

inductive yields :: "u8 list \<Rightarrow> instr list \<Rightarrow> nat \<Rightarrow> nat \<Rightarrow> captures \<Rightarrow> outcome list \<Rightarrow> bool"
  for str insts where
  fail: "pc < length insts \<Longrightarrow> exec str (insts ! pc) pc sp caps = Fail \<Longrightarrow> yields str insts pc sp caps [None]"
| hit: "pc < length insts \<Longrightarrow> exec str (insts ! pc) pc sp caps = Hit \<Longrightarrow> yields str insts pc sp caps [Some (sp, caps)]"
| step: "pc < length insts \<Longrightarrow> exec str (insts ! pc) pc sp caps = Step pc' sp' caps' \<Longrightarrow>
    yields str insts pc' sp' caps' T \<Longrightarrow> yields str insts pc sp caps T"
| fork: "pc < length insts \<Longrightarrow> exec str (insts ! pc) pc sp caps = Fork a b \<Longrightarrow>
    yields str insts a sp caps T \<Longrightarrow> yields str insts b sp caps T' \<Longrightarrow> yields str insts pc sp caps (T @ T')"

definition result_of :: "vm_result option \<Rightarrow> outcome option" where
  "result_of r = (case r of Some (VmDone ok sp caps) \<Rightarrow> Some (if ok then Some (sp, caps) else None) | _ \<Rightarrow> None)"

fun search :: "nat \<Rightarrow> 'a option list \<Rightarrow> (nat \<Rightarrow> 'a option option) \<Rightarrow> 'a option option" where
  "search bt [] k = k bt"
| "search bt (Some x # T) k = Some (Some x)"
| "search bt (None # T) k = (if bt + 1 > MaxBacktracks then Some None else search (bt + 1) T k)"

lemma search_append: "search bt (T @ T') k = search bt T (\<lambda>bt. search bt T' k)"
  by (induction bt T k rule: search.induct) auto

lemma search_first_hit: "bt \<le> MaxBacktracks \<Longrightarrow> search bt T (\<lambda>_. Some None) = Some (first_hit (MaxBacktracks - bt) T)"
proof (induction bt T "\<lambda>_ :: nat. Some (None :: 'a option)" rule: search.induct)
  case (3 bt T)
  then show ?case by auto
qed auto

definition after :: "u8 list \<Rightarrow> instr list \<Rightarrow> vmThread list \<Rightarrow> nat \<Rightarrow> outcome option" where
  "after str insts stack bt = (case stack of [] \<Rightarrow> Some None
     | t # stack \<Rightarrow> result_of (run str insts (programCounter t) (sourcePos t) (tcaptures t) stack bt))"

lemma after_Cons: "after str insts (t # stack) =
    (\<lambda>bt. result_of (run str insts (programCounter t) (sourcePos t) (tcaptures t) stack bt))"
  by (rule ext) (simp add: after_def)

text \<open>A thread whose trace is known runs to the first hit, or fails into the rest of the stack.\<close>

lemma run_yields:
  "yields str insts pc sp caps T \<Longrightarrow>
   result_of (run str insts pc sp caps stack bt) = search bt T (after str insts stack)"
proof (induction arbitrary: stack bt rule: yields.induct)
  case (fail pc sp caps)
  then show ?case by (subst run.simps, cases stack) (simp_all add: backtrack_def after_def result_of_def)
next
  case (hit pc sp caps)
  then show ?case by (subst run.simps) (simp add: result_of_def)
next
  case (step pc sp caps pc' sp' caps' T)
  then show ?case by (subst run.simps) simp
next
  case (fork pc sp caps a b T T')
  then show ?case by (subst run.simps) (simp add: search_append after_Cons)
qed

section \<open>Compiled code has the traces of the pattern\<close>

lemma bindT_simps [simp]:
  "bindT [] f = []" "bindT (None # T) f = None # bindT T f" "bindT (Some x # T) f = f x @ bindT T f"
  "bindT (T @ T') f = bindT T f @ bindT T' f"
  by (simp_all add: bindT_def)

lemma bindT_map: "bindT (map (map_option g) T) f = bindT T (\<lambda>x. f (g x))"
proof (induction T)
  case (Cons x T)
  then show ?case by (cases x) simp_all
qed simp

lemma bindT_bindT: "bindT (bindT T f) g = bindT T (\<lambda>x. bindT (f x) g)"
proof (induction T)
  case (Cons x T)
  then show ?case by (cases x) simp_all
qed simp

definition code_at :: "instr list \<Rightarrow> nat \<Rightarrow> instr list \<Rightarrow> bool" where
  "code_at insts idx code \<longleftrightarrow> (\<forall>i < length code. idx + i < length insts \<and> insts ! (idx + i) = code ! i)"

lemma code_at_prefix: "prefix (ins @ code) insts \<Longrightarrow> code_at insts (length ins) code"
  by (auto simp: code_at_def prefix_def nth_append)

lemma code_at_Cons: "code_at insts idx (i # code) \<longleftrightarrow>
    idx < length insts \<and> insts ! idx = i \<and> code_at insts (Suc idx) code"
  by (auto simp: code_at_def nth_Cons split: nat.splits)

lemma code_at_Nil: "code_at insts idx []"
  by (simp add: code_at_def)

lemmas code_at_simps = code_at_Cons code_at_Nil

lemma yields_fail: "code_at insts pc [i] \<Longrightarrow> exec str i pc sp caps = Fail \<Longrightarrow> yields str insts pc sp caps [None]"
  by (rule yields.fail) (auto simp: code_at_simps)

lemma yields_hit: "code_at insts pc [i] \<Longrightarrow> exec str i pc sp caps = Hit \<Longrightarrow> yields str insts pc sp caps [Some (sp, caps)]"
  by (rule yields.hit) (auto simp: code_at_simps)

lemma yields_step: "code_at insts pc [i] \<Longrightarrow> exec str i pc sp caps = Step pc' sp' caps' \<Longrightarrow>
    yields str insts pc' sp' caps' T \<Longrightarrow> yields str insts pc sp caps T"
  by (rule yields.step) (auto simp: code_at_simps)

lemma yields_fork: "code_at insts pc [OpSplit a b] \<Longrightarrow> yields str insts a sp caps T \<Longrightarrow> yields str insts b sp caps T' \<Longrightarrow>
    yields str insts pc sp caps (T @ T')"
  by (rule yields.fork) (auto simp: code_at_simps exec_def)

lemma yields_char:
  assumes "code_at insts pc [OpChar c]"
    and "sp < length str \<Longrightarrow> matchClass c (uint (str ! sp)) \<Longrightarrow> yields str insts (pc + 1) (sp + 1) caps (K (sp + 1))"
  shows "yields str insts pc sp caps (bindT (one_trace c (drop sp str) sp) K)"
proof (cases "sp < length str \<and> matchClass c (uint (str ! sp))")
  case True
  then have "one_trace c (drop sp str) sp = [Some (sp + 1)]"
    by (simp add: one_trace_def Cons_nth_drop_Suc [symmetric])
  with yields_step [OF assms(1) _ assms(2)] True show ?thesis by (simp add: exec_def)
next
  case False
  then have "one_trace c (drop sp str) sp = [None]"
    by (cases "sp < length str") (simp_all add: one_trace_def Cons_nth_drop_Suc [symmetric])
  with yields_fail [OF assms(1)] False show ?thesis by (auto simp: exec_def)
qed

text \<open>A loop over a class, whatever code follows it.\<close>

lemma yields_loop:
  assumes code: "code_at insts (pc + 1) [OpChar c, OpJmp pc]"
    and iter: "\<And>sp T. (sp < length str \<Longrightarrow> matchClass c (uint (str ! sp)) \<Longrightarrow> yields str insts pc (sp + 1) caps (R (sp + 1))) \<Longrightarrow>
      yields str insts (pc + 1) sp caps (bindT (one_trace c (drop sp str) sp) R) \<Longrightarrow> yields str insts pc sp caps (R sp)"
  shows "yields str insts pc sp caps (R sp)"
proof (induction "length str - sp" arbitrary: sp rule: less_induct)
  case less
  have nxt: "yields str insts pc (sp + 1) caps (R (sp + 1))" if "sp < length str"
    using less [of "sp + 1"] that by simp
  have jmp: "yields str insts (pc + 1 + 1) (sp + 1) caps (R (sp + 1))" if "sp < length str"
    by (rule yields_step [OF _ _ nxt [OF that], where i = "OpJmp pc"]) (use code in \<open>auto simp: code_at_simps exec_def\<close>)
  show ?case
    by (rule iter) (use nxt jmp code in \<open>auto intro!: yields_char simp: code_at_simps\<close>)
qed

lemma star_unfold: "bindT (star_trace c (drop sp str) sp) K =
    bindT (one_trace c (drop sp str) sp) (\<lambda>sp. bindT (star_trace c (drop sp str) sp) K) @ K sp"
  by (cases "sp < length str") (simp_all add: one_trace_def Cons_nth_drop_Suc [symmetric])

lemma lazy_unfold: "bindT (lazy_trace c (drop sp str) sp) K =
    K sp @ bindT (one_trace c (drop sp str) sp) (\<lambda>sp. bindT (lazy_trace c (drop sp str) sp) K)"
  by (cases "sp < length str") (simp_all add: one_trace_def Cons_nth_drop_Suc [symmetric])

lemma plus_unfold: "bindT (plus_trace c (drop sp str) sp) K =
    bindT (one_trace c (drop sp str) sp) (\<lambda>sp. bindT (plus_trace c (drop sp str) sp) K @ K sp)"
  by (cases "sp < length str") (simp_all add: one_trace_def Cons_nth_drop_Suc [symmetric])

lemma yields_star:
  assumes code: "code_at insts pc [OpSplit (pc + 1) (pc + 3), OpChar c, OpJmp pc]"
    and K: "\<And>sp. yields str insts (pc + 3) sp caps (K sp)"
  shows "yields str insts pc sp caps (bindT (star_trace c (drop sp str) sp) K)"
proof (rule yields_loop [where R = "\<lambda>sp. bindT (star_trace c (drop sp str) sp) K"])
  fix sp
  assume "yields str insts (pc + 1) sp caps (bindT (one_trace c (drop sp str) sp) (\<lambda>sp. bindT (star_trace c (drop sp str) sp) K))"
  then have "yields str insts pc sp caps (bindT (one_trace c (drop sp str) sp) (\<lambda>sp. bindT (star_trace c (drop sp str) sp) K) @ K sp)"
    by (rule yields_fork [rotated]) (use code K in \<open>auto simp: code_at_simps\<close>)
  then show "yields str insts pc sp caps (bindT (star_trace c (drop sp str) sp) K)"
    by (subst star_unfold)
qed (use code in \<open>auto simp: code_at_simps\<close>)

lemma yields_lazy:
  assumes code: "code_at insts pc [OpSplit (pc + 3) (pc + 1), OpChar c, OpJmp pc]"
    and K: "\<And>sp. yields str insts (pc + 3) sp caps (K sp)"
  shows "yields str insts pc sp caps (bindT (lazy_trace c (drop sp str) sp) K)"
proof (rule yields_loop [where R = "\<lambda>sp. bindT (lazy_trace c (drop sp str) sp) K"])
  fix sp
  assume "yields str insts (pc + 1) sp caps (bindT (one_trace c (drop sp str) sp) (\<lambda>sp. bindT (lazy_trace c (drop sp str) sp) K))"
  then have "yields str insts pc sp caps (K sp @ bindT (one_trace c (drop sp str) sp) (\<lambda>sp. bindT (lazy_trace c (drop sp str) sp) K))"
    by (rule yields_fork [rotated 2]) (use code K in \<open>auto simp: code_at_simps\<close>)
  then show "yields str insts pc sp caps (bindT (lazy_trace c (drop sp str) sp) K)"
    by (subst lazy_unfold)
qed (use code in \<open>auto simp: code_at_simps\<close>)

lemma yields_plus:
  assumes code: "code_at insts pc [OpChar c, OpSplit pc (pc + 2)]"
    and K: "\<And>sp. yields str insts (pc + 2) sp caps (K sp)"
  shows "yields str insts pc sp caps (bindT (plus_trace c (drop sp str) sp) K)"
proof (induction "length str - sp" arbitrary: sp rule: less_induct)
  case less
  have "yields str insts (pc + 1) (sp + 1) caps (bindT (plus_trace c (drop (sp + 1) str) (sp + 1)) K @ K (sp + 1))"
    if "sp < length str"
    by (rule yields_fork [of _ _ pc "pc + 2"]) (use code K less [of "sp + 1"] that in \<open>auto simp: code_at_simps\<close>)
  then show ?case by (subst plus_unfold, intro yields_char) (use code in \<open>auto simp: code_at_simps\<close>)
qed

lemma yields_opt:
  assumes code: "code_at insts pc [OpSplit (pc + 1) (pc + 2), OpChar c]"
    and K: "\<And>sp. yields str insts (pc + 2) sp caps (K sp)"
  shows "yields str insts pc sp caps (bindT (one_trace c (drop sp str) sp @ [Some sp]) K)"
proof -
  have "yields str insts (pc + 1) sp caps (bindT (one_trace c (drop sp str) sp) K)"
    using K by (intro yields_char) (use code in \<open>auto simp: code_at_simps\<close>)
  then have "yields str insts pc sp caps (bindT (one_trace c (drop sp str) sp) K @ K sp)"
    by (rule yields_fork [rotated]) (use code K in \<open>auto simp: code_at_simps\<close>)
  then show ?thesis by simp
qed

lemma yields_repeat:
  assumes pre: "prefix (compileRepeat t c ins) insts"
    and K: "\<And>sp. yields str insts (length (compileRepeat t c ins)) sp caps (K sp)"
  shows "yields str insts (length ins) sp caps (bindT (repeat_trace t c (drop sp str) sp) K)"
proof -
  let ?i = "length ins"
  have code: "code_at insts ?i code \<and> (\<forall>sp. yields str insts (?i + length code) sp caps (K sp))"
    if "compileRepeat t c ins = ins @ code" for code
    using pre K unfolding that by (simp add: code_at_prefix)
  consider "t = 42" | "t = 43" | "t = 45" | "t = 63" | "t \<notin> {42, 43, 45, 63}" by blast
  then show ?thesis
  proof cases
    case 1
    with code [of "[OpSplit (?i + 1) (?i + 3), OpChar c, OpJmp ?i]"] yields_star [of insts ?i c str caps K] show ?thesis
      by (simp add: compileRepeat_def Let_def repeat_trace_def eval_nat_numeral)
  next
    case 2
    with code [of "[OpChar c, OpSplit ?i (?i + 2)]"] yields_plus [of insts ?i c str caps K] show ?thesis
      by (simp add: compileRepeat_def Let_def repeat_trace_def)
  next
    case 3
    with code [of "[OpSplit (?i + 3) (?i + 1), OpChar c, OpJmp ?i]"] yields_lazy [of insts ?i c str caps K] show ?thesis
      by (simp add: compileRepeat_def Let_def repeat_trace_def eval_nat_numeral)
  next
    case 4
    with code [of "[OpSplit (?i + 1) (?i + 2), OpChar c]"] yields_opt [of insts ?i c str caps K] show ?thesis
      by (simp add: compileRepeat_def Let_def repeat_trace_def)
  next
    case 5
    with K show ?thesis by (simp add: compileRepeat_def Let_def repeat_trace_def)
  qed
qed

lemma compile_next_slot:
  "snd (compilePattern p b) = next_slot p (snd b)" "snd (compileSeq ps b) = fold next_slot ps (snd b)"
  by (induction p b and ps b rule: compilePattern_compileSeq.induct) (auto split: prod.splits)

lemma compile_prefix:
  "prefix (fst b) (fst (compilePattern p b))" "prefix (fst b) (fst (compileSeq ps b))"
proof (induction p b and ps b rule: compilePattern_compileSeq.induct)
  case (4 ps ins slot)
  then show ?case by (auto split: prod.splits simp: prefix_def)
qed (auto simp: compileRepeat_def Let_def intro: prefix_order.trans)

lemma yields_compiled:
  "prefix (fst (compilePattern p b)) insts \<Longrightarrow>
   (\<And>sp c. yields str insts (length (fst (compilePattern p b))) sp c (K (sp, c))) \<Longrightarrow>
   yields str insts (length (fst b)) sp caps (bindT (pat_trace str p (snd b) (sp, caps)) K)"
  "prefix (fst (compileSeq ps b)) insts \<Longrightarrow>
   (\<And>sp c. yields str insts (length (fst (compileSeq ps b))) sp c (K (sp, c))) \<Longrightarrow>
   yields str insts (length (fst b)) sp caps (bindT (seq_trace str ps (snd b) (sp, caps)) K)"
proof (induction p b and ps b arbitrary: K sp caps and K sp caps rule: compilePattern_compileSeq.induct)
  case (1 c ins slot)
  then show ?case by (simp add: bindT_map) (rule yields_char, auto simp: code_at_prefix)
next
  case (2 t c ins slot)
  then show ?case by (simp add: bindT_map) (rule yields_repeat, auto)
next
  case (3 ins slot)
  from 3(1) have c: "code_at insts (length ins) [OpPSave slot]" by (simp add: code_at_prefix)
  show ?case using yields_step [OF c, of str sp caps] 3(2) by (simp add: exec_def)
next
  case (4 ps ins slot)
  obtain ins' slot' where r: "compileSeq ps (ins @ [OpSave slot], slot + 2) = (ins', slot')" by force
  have pre: "prefix (ins' @ [OpSave (slot + 1)]) insts" using 4(2) r by simp
  then have ins': "prefix ins' insts" by (auto simp: prefix_def)
  have last: "yields str insts (length ins') sp c (K (sp, setCapture (slot + 1) sp c))" for sp c
    by (rule yields_step [OF code_at_prefix [OF pre]], simp add: exec_def) (use 4(3) r in simp)
  have "prefix (ins @ [OpSave slot]) insts"
    using compile_prefix(2) [of "(ins @ [OpSave slot], slot + 2)" ps] r ins' by (auto intro: prefix_order.trans)
  from yields_step [OF code_at_prefix [OF this]]
    4(1) [of "\<lambda>(sp, c). K (sp, setCapture (slot + 1) sp c)" sp "setCapture slot sp caps"] r ins' last
  show ?case by (simp add: exec_def bindT_bindT case_prod_unfold)
next
  case (5 b e ins slot)
  from 5(1) have c: "code_at insts (length ins) [OpBrace b e]" by (simp add: code_at_prefix)
  show ?case
  proof (cases "matchBrace str b e sp")
    case None
    then show ?thesis using yields_fail [OF c, of str sp caps] by (simp add: exec_def)
  next
    case (Some sp')
    then show ?thesis using yields_step [OF c, of str sp caps] 5(2) by (simp add: exec_def)
  qed
next
  case (6 i ins slot)
  from 6(1) have c: "code_at insts (length ins) [OpNumber i]" by (simp add: code_at_prefix)
  show ?case
  proof (cases "matchBackref str caps i sp")
    case None
    then show ?thesis using yields_fail [OF c, of str sp caps] by (simp add: exec_def)
  next
    case (Some sp')
    then show ?thesis using yields_step [OF c, of str sp caps] 6(2) by (simp add: exec_def)
  qed
next
  case (7 b)
  then show ?case by simp
next
  case (8 p ps b)
  have pre: "prefix (fst (compilePattern p b)) insts"
    using compile_prefix(2) [of "compilePattern p b" ps] 8(3) by (auto intro: prefix_order.trans)
  have "yields str insts (length (fst (compilePattern p b))) sp c
      (bindT (seq_trace str ps (next_slot p (snd b)) (sp, c)) K)" for sp c
    using 8(2) [of K sp c] 8(3,4) by (simp add: compile_next_slot)
  with 8(1) [OF pre, of "\<lambda>(sp, c). bindT (seq_trace str ps (next_slot p (snd b)) (sp, c)) K"]
  show ?case by (simp add: bindT_bindT)
qed

lemma yields_top: "yields str (compileTop p) 0 sp [] (top_trace str p sp)"
proof -
  let ?body = "fst (compileSeq (patterns p) ([OpSave 0], 2))"
  let ?K = "\<lambda>(sp, caps). if mustTail p \<and> sp < length str then [None] else [Some (sp, setCapture 1 sp caps)]"
  let ?fin = "if mustTail p then OpTailMatch else OpMatch"
  have top: "compileTop p = ?body @ [OpSave 1, ?fin]" by (simp add: compileTop_def)
  have c: "code_at (compileTop p) (length ?body) [OpSave 1, ?fin]" by (rule code_at_prefix) (simp add: top)
  have e: "code_at (compileTop p) (length ?body + 1) [?fin]" and s1: "code_at (compileTop p) (length ?body) [OpSave 1]"
    using c by (simp_all only: code_at_simps) simp_all
  have last: "yields str (compileTop p) (length ?body + 1) sp c
      (if mustTail p \<and> sp < length str then [None] else [Some (sp, c)])" for sp c
  proof (cases "mustTail p \<and> sp < length str")
    case True
    then show ?thesis using yields_fail [OF e, of str sp c] by (simp add: exec_def)
  next
    case False
    then have "exec str ?fin (length ?body + 1) sp c = Hit" by (auto simp: exec_def)
    from yields_hit [OF e this] False show ?thesis by auto
  qed
  have K: "yields str (compileTop p) (length ?body) sp c (?K (sp, c))" for sp c
    using yields_step [OF s1 _ last [of sp "setCapture 1 sp c"], of sp c] by (simp add: exec_def)
  have pre: "prefix ?body (compileTop p)" by (simp add: top)
  have "yields str (compileTop p) 1 sp (setCapture 0 sp []) (top_trace str p sp)"
    using yields_compiled(2) [OF pre, of str ?K sp "setCapture 0 sp []"] K by (simp add: top_trace_def)
  moreover have "code_at (compileTop p) 0 [OpSave 0]"
    using compile_prefix(2) [of "([OpSave 0], 2)" "patterns p"] code_at_prefix [of "[]" "[OpSave 0]" "compileTop p"] pre
    by (simp add: prefix_order.trans)
  ultimately show ?thesis using yields_step [of "compileTop p" 0 "OpSave 0"] by (simp add: exec_def)
qed

lemma run_first_hit: "result_of (run str (compileTop p) 0 sp [] [] 0) = Some (first_hit MaxBacktracks (top_trace str p sp))"
proof -
  have "after str (compileTop p) [] = (\<lambda>_. Some None)" by (rule ext) (simp add: after_def)
  then show ?thesis using run_yields [OF yields_top, of str p sp "[]" 0] by (simp add: search_first_hit)
qed

section \<open>Positions and captures of a hit\<close>

lemma bindT_hit: "Some x \<in> set (bindT T f) \<longleftrightarrow> (\<exists>y. Some y \<in> set T \<and> Some x \<in> set (f y))"
  by (fastforce simp: bindT_def split: option.splits)

lemma map_option_hit: "Some x \<in> set (map (map_option f) T) \<longleftrightarrow> (\<exists>y. Some y \<in> set T \<and> x = f y)"
  by (induction T) (auto simp: eq_commute [of "Some x"])

lemma first_hit_in: "first_hit n T = Some x \<Longrightarrow> Some x \<in> set T"
  by (induction n T rule: first_hit.induct) (auto split: if_splits)

lemma length_setCapture [simp]: "length (setCapture slot p caps) = max (length caps) (Suc slot)"
  by (auto simp: setCapture_def ensureSlot_def)

lemma length_addPosCapture [simp]: "length (addPosCapture slot p caps) = max (length caps) (Suc (Suc slot))"
  by (auto simp: addPosCapture_def ensureSlot_def)

lemma nth_setCapture: "i < length caps \<Longrightarrow> i \<noteq> slot \<Longrightarrow> setCapture slot p caps ! i = caps ! i"
  by (simp add: setCapture_def ensureSlot_def nth_append)

lemma nth_setCapture_same: "setCapture slot p caps ! slot = push_bit 1 (word_of_nat p)"
  by (simp add: setCapture_def ensureSlot_def)

lemma nth_addPosCapture: "i < length caps \<Longrightarrow> i \<noteq> slot \<Longrightarrow> i \<noteq> slot + 1 \<Longrightarrow> addPosCapture slot p caps ! i = caps ! i"
  by (simp add: addPosCapture_def ensureSlot_def nth_append)

text \<open>What matching a part of a pattern whose captures start at \<open>slot\<close> keeps.\<close>

definition advances :: "u8 list \<Rightarrow> nat \<Rightarrow> nat \<times> captures \<Rightarrow> nat \<times> captures \<Rightarrow> bool" where
  "advances str slot st st' \<longleftrightarrow> fst st \<le> fst st' \<and> (fst st \<le> length str \<longrightarrow> fst st' \<le> length str) \<and>
     length (snd st) \<le> length (snd st') \<and> (\<forall>i < length (snd st). i < slot \<longrightarrow> snd st' ! i = snd st ! i)"

lemma advances_refl: "advances str slot st st"
  by (simp add: advances_def)

lemma advances_trans:
  "advances str slot a b \<Longrightarrow> advances str slot' b c \<Longrightarrow> slot \<le> slot' \<Longrightarrow> advances str slot a c"
  by (auto simp: advances_def)

lemma one_trace_hit: "Some q \<in> set (one_trace c xs sp) \<Longrightarrow> q = sp + 1 \<and> xs \<noteq> []"
  by (auto simp: one_trace_def split: list.splits if_splits)

lemma star_trace_hit: "Some q \<in> set (star_trace c xs sp) \<Longrightarrow> sp \<le> q \<and> q \<le> sp + length xs"
  by (induction c xs sp rule: star_trace.induct) (force split: if_splits)+

lemma plus_trace_hit: "Some q \<in> set (plus_trace c xs sp) \<Longrightarrow> sp \<le> q \<and> q \<le> sp + length xs"
  by (induction c xs sp rule: plus_trace.induct) (force split: if_splits)+

lemma lazy_trace_hit: "Some q \<in> set (lazy_trace c xs sp) \<Longrightarrow> sp \<le> q \<and> q \<le> sp + length xs"
  by (induction c xs sp rule: lazy_trace.induct) (force split: if_splits)+

lemma repeat_trace_hit: "Some q \<in> set (repeat_trace t c xs sp) \<Longrightarrow> sp \<le> q \<and> q \<le> sp + length xs"
  using star_trace_hit [of q c xs sp] plus_trace_hit [of q c xs sp] lazy_trace_hit [of q c xs sp] one_trace_hit [of q c xs sp]
  by (auto simp: repeat_trace_def neq_Nil_conv split: if_splits)

lemma brace_scan_bounds: "brace_scan op cl n xs sp = Some q \<Longrightarrow> sp < q \<and> q \<le> sp + length xs"
  by (induction op cl n xs sp rule: brace_scan.induct) (force split: if_splits)+

lemma matchBrace_bounds: "matchBrace str op cl sp = Some q \<Longrightarrow> sp < q \<and> q \<le> length str"
  using brace_scan_bounds [of op cl 1 "drop (sp + 1) str" "sp + 1" q] by (auto simp: matchBrace_def split: if_splits)

lemma matchBackref_bounds: "matchBackref str caps i sp = Some q \<Longrightarrow> sp \<le> q \<and> q \<le> length str"
  by (auto simp: matchBackref_def Let_def split: if_splits)

lemma next_slot_fold: "(\<And>p slot. p \<in> set ps \<Longrightarrow> slot \<le> next_slot p slot) \<Longrightarrow> slot \<le> fold next_slot ps slot"
proof (induction ps arbitrary: slot)
  case (Cons p ps)
  have "slot \<le> next_slot p slot" using Cons.prems by simp
  also have "\<dots> \<le> fold next_slot ps (next_slot p slot)" using Cons by simp
  finally show ?case by simp
qed simp

lemma next_slot_mono: "slot \<le> next_slot p slot"
proof (induction p slot rule: next_slot.induct)
  case (2 ps slot)
  then show ?case using next_slot_fold [of ps "slot + 2"] by simp
qed auto

lemma trace_advances:
  "Some st' \<in> set (pat_trace str p slot st) \<Longrightarrow> advances str slot st st'"
  "Some st' \<in> set (seq_trace str ps slot st) \<Longrightarrow> advances str slot st st'"
proof (induction str p slot st and str ps slot st arbitrary: st' and st' rule: pat_trace_seq_trace.induct)
  case (1 str c slot sp caps)
  then show ?case by (auto simp: advances_def map_option_hit simp del: set_map dest!: one_trace_hit)
next
  case (2 str t c slot sp caps)
  then show ?case by (auto simp: advances_def map_option_hit simp del: set_map dest!: repeat_trace_hit)
next
  case (3 str slot sp caps)
  then show ?case by (auto simp: advances_def nth_addPosCapture)
next
  case (4 str ps slot sp caps)
  then obtain q c where m: "Some (q, c) \<in> set (seq_trace str ps (slot + 2) (sp, setCapture slot sp caps))"
    and st': "st' = (q, setCapture (slot + 1) q c)" by (auto simp: bindT_hit)
  have "advances str slot (sp, caps) (sp, setCapture slot sp caps)" by (simp add: advances_def nth_setCapture)
  moreover have "advances str (slot + 2) (sp, setCapture slot sp caps) (q, c)" using 4 m by blast
  moreover have "advances str slot (q, c) st'" by (simp add: advances_def st' nth_setCapture)
  ultimately show ?case by (meson advances_trans le_add1 order_refl)
next
  case (5 str b e slot sp caps)
  then show ?case by (auto simp: advances_def eq_commute [of "Some st'"] dest!: matchBrace_bounds)
next
  case (6 str i slot sp caps)
  then show ?case by (auto simp: advances_def eq_commute [of "Some st'"] dest!: matchBackref_bounds)
next
  case (7 str slot st)
  then show ?case by (simp add: advances_refl)
next
  case (8 str p ps slot st)
  then obtain y where y: "Some y \<in> set (pat_trace str p slot st)" "Some st' \<in> set (seq_trace str ps (next_slot p slot) y)"
    by (auto simp: bindT_hit)
  show ?case by (rule advances_trans [OF 8(1) [OF y(1)] 8(2) [OF y(2)] next_slot_mono])
qed

lemma word31_Capture: "p < 2 ^ 31 \<Longrightarrow> unat (drop_bit 1 (push_bit 1 (word_of_nat p) :: u32)) = p"
proof -
  assume p: "p < 2 ^ 31"
  have "unat (push_bit 1 (word_of_nat p) :: u32) = unat (word_of_nat (2 * p) :: u32)"
    by (simp add: push_bit_eq_mult mult.commute)
  also have "\<dots> = 2 * p" using p by (simp only: unat_of_nat) simp
  finally show ?thesis by (simp only: unat_drop_bit_eq) (simp add: drop_bit_eq_div)
qed

text \<open>A hit of the whole pattern records where the match starts and ends.\<close>

lemma top_trace_hit:
  assumes hit: "Some (e, caps) \<in> set (top_trace str p s)" and s: "s \<le> length str" and len: "length str < 2 ^ 31"
  shows "Capture caps 0 = s" "Capture caps 1 = e" "s \<le> e" "e \<le> length str"
proof -
  from hit obtain c where c: "Some (e, c) \<in> set (seq_trace str (patterns p) 2 (s, setCapture 0 s []))"
    and caps: "caps = setCapture 1 e c"
    by (auto simp: top_trace_def bindT_hit split: if_splits)
  from trace_advances(2) [OF c] have a: "s \<le> e" "e \<le> length str" "0 < length c" "c ! 0 = setCapture 0 s [] ! 0"
    using s by (auto simp: advances_def)
  then show "s \<le> e" "e \<le> length str" by simp_all
  show "Capture caps 0 = s" using a s len nth_setCapture [of 0 c 1 e] word31_Capture [of s]
    by (simp add: Capture_def caps nth_setCapture_same)
  show "Capture caps 1 = e" using a len word31_Capture [of e] by (simp add: Capture_def caps nth_setCapture_same)
qed

section \<open>The search loop\<close>

lemma run_match:
  "match_at str p s = Some (e, c) \<Longrightarrow> run str (compileTop p) 0 s [] [] 0 = Some (VmDone True e c)"
  "match_at str p s = None \<Longrightarrow> \<exists>q c. run str (compileTop p) 0 s [] [] 0 = Some (VmDone False q c)"
  using run_first_hit [of str p s] by (auto simp: match_at_def result_of_def split: option.splits vm_result.splits if_splits)

lemma find_loop_ref:
  "limit \<le> 0 \<or> int (length ms) < limit \<Longrightarrow>
   find_loop str (compileTop p) False limit s ms =
     Some (FindOk (ms @ (let R = map (\<lambda>(_, _, c). c) (find_from str p s)
       in if limit > 0 then take (nat limit - length ms) R else R)))"
proof (induction str p s arbitrary: ms rule: find_from.induct)
  case (1 str p s)
  show ?case
  proof (cases "s > length str")
    case True
    then show ?thesis by (subst find_loop.simps, subst find_from.simps) simp
  next
    case False
    show ?thesis
    proof (cases "match_at str p s")
      case None
      from run_match(2) [OF None] obtain q c where r: "run str (compileTop p) 0 s [] [] 0 = Some (VmDone False q c)" by blast
      from 1(1) [OF False None 1(3)] False None r show ?thesis
        by (subst find_loop.simps, subst find_from.simps) (simp add: Let_def)
    next
      case (Some ec)
      obtain e c where ec: "ec = (e, c)" by force
      note r = run_match(1) [OF Some [unfolded ec]]
      let ?R = "map (\<lambda>(_, _, c). c) (find_from str p (max (s + 1) e))"
      have m: "(if s + 1 < e then e else s + 1) = max (s + 1) e" by simp
      have step: "find_loop str (compileTop p) False limit s ms =
          (if int (length ms + 1) = limit then Some (FindOk (ms @ [c]))
           else find_loop str (compileTop p) False limit (max (s + 1) e) (ms @ [c]))"
        using False r m by (subst find_loop.simps) (simp add: Let_def)
      have ref: "map (\<lambda>(_, _, c). c) (find_from str p s) = c # ?R"
        using False Some ec by (subst find_from.simps) simp
      show ?thesis
      proof (cases "int (length ms + 1) = limit")
        case True
        then have "nat limit - length ms = 1" "limit > 0" by auto
        then show ?thesis using True by (simp add: step ref Let_def)
      next
        case ne: False
        then have "limit \<le> 0 \<or> int (length (ms @ [c])) < limit" using 1(3) by auto
        from 1(2) [OF False Some ec [symmetric] this] have "find_loop str (compileTop p) False limit (max (s + 1) e) (ms @ [c]) =
            Some (FindOk ((ms @ [c]) @ (if limit > 0 then take (nat limit - Suc (length ms)) ?R else ?R)))"
          by (simp add: Let_def)
        moreover have "limit > 0 \<Longrightarrow> nat limit - length ms = Suc (nat limit - Suc (length ms))" using 1(3) by auto
        ultimately show ?thesis using ne by (simp add: step ref Let_def)
      qed
    qed
  qed
qed

lemma find_loop_all:
  "find_loop str (compileTop p) (mustHead p) limit offset [] =
     Some (FindOk (limited limit (map (\<lambda>(_, _, c). c) (find_all str p offset))))"
proof (cases "mustHead p")
  case False
  then show ?thesis using find_loop_ref [of limit "[]" str p offset] by (auto simp: find_all_def limited_def Let_def)
next
  case True
  show ?thesis
  proof (cases "match_at str p offset")
    case None
    from run_match(2) [OF None] obtain q c where "run str (compileTop p) 0 offset [] [] 0 = Some (VmDone False q c)" by blast
    with True None show ?thesis by (subst find_loop.simps) (simp add: find_all_def limited_def)
  next
    case (Some ec)
    obtain e c where "ec = (e, c)" by force
    with True Some run_match(1) [of str p offset e c] show ?thesis
      by (subst find_loop.simps) (auto simp: find_all_def limited_def Let_def take_Cons')
  qed
qed

text \<open>The matches are in order, do not overlap and miss nothing.\<close>

lemma match_at_hit:
  assumes "match_at str p s = Some (e, c)" "s \<le> length str" "length str < 2 ^ 31"
  shows "Capture c 0 = s" "Capture c 1 = e" "s \<le> e" "e \<le> length str"
  using top_trace_hit [OF first_hit_in, of MaxBacktracks str p s e c] assms by (simp_all add: match_at_def)

lemma find_from_in:
  "(a, e, c) \<in> set (find_from str p s) \<Longrightarrow> s \<le> a \<and> a \<le> length str \<and> match_at str p a = Some (e, c)"
proof (induction str p s rule: find_from.induct)
  case (1 str p s)
  show ?case
  proof (cases "s > length str \<or> match_at str p s = None")
    case True
    then show ?thesis using 1(1,3) by (subst (asm) find_from.simps) (auto split: if_splits)
  next
    case False
    then obtain e' c' where m: "match_at str p s = Some (e', c')" by auto
    then have "(a, e, c) \<in> set ((s, e', c') # find_from str p (max (s + 1) e'))"
      using 1(3) False by (subst (asm) find_from.simps) simp
    with 1(2) [of "(e', c')" e' c'] m False show ?thesis by auto
  qed
qed

lemma find_from_sorted:
  "sorted_wrt (\<lambda>(a, e, _) (a', _, _). a < a' \<and> e \<le> a') (find_from str p s)"
proof (induction str p s rule: find_from.induct)
  case (1 str p s)
  show ?case
  proof (cases "s > length str \<or> match_at str p s = None")
    case True
    then show ?thesis using 1(1) by (subst find_from.simps) auto
  next
    case False
    then obtain e c where m: "match_at str p s = Some (e, c)" by auto
    then have "find_from str p s = (s, e, c) # find_from str p (max (s + 1) e)"
      using False by (subst find_from.simps) simp
    moreover have "sorted_wrt (\<lambda>(a, e, _) (a', _, _). a < a' \<and> e \<le> a') (find_from str p (max (s + 1) e))"
      using 1(2) [of "(e, c)" e c] m False by simp
    moreover have "s < a' \<and> e \<le> a'" if "(a', e', c') \<in> set (find_from str p (max (s + 1) e))" for a' e' c'
      using find_from_in [OF that] by simp
    ultimately show ?thesis by auto
  qed
qed

lemma find_from_complete:
  "s \<le> q \<Longrightarrow> q \<le> length str \<Longrightarrow> match_at str p q \<noteq> None \<Longrightarrow>
   \<exists>(a, e, c) \<in> set (find_from str p s). a = q \<or> a < q \<and> q < e"
proof (induction str p s rule: find_from.induct)
  case (1 str p s)
  have s: "\<not> s > length str" using 1(3,4) by simp
  show ?case
  proof (cases "match_at str p s")
    case None
    then have "s + 1 \<le> q" using 1(3,5) by (cases "q = s") auto
    with 1(1) [OF s None] 1(4,5) None s show ?thesis by (subst find_from.simps) simp
  next
    case (Some ec)
    obtain e c where ec: "ec = (e, c)" by force
    have f: "find_from str p s = (s, e, c) # find_from str p (max (s + 1) e)"
      using s Some ec by (subst find_from.simps) simp
    show ?thesis
    proof (cases "max (s + 1) e \<le> q")
      case True
      with 1(2) [OF s Some ec [symmetric]] 1(4,5) f show ?thesis by auto
    next
      case False
      then have "s = q \<or> s < q \<and> q < e" using 1(3) by auto
      with f show ?thesis by simp
    qed
  qed
qed

lemma find_all_from: "set (find_all str p s) \<subseteq> set (find_from str p s)"
proof (cases "mustHead p")
  case True
  then show ?thesis by (subst find_from.simps) (auto simp: find_all_def split: option.splits)
qed (simp add: find_all_def)

lemma find_all_sorted: "sorted_wrt (\<lambda>(a, e, _) (a', _, _). a < a' \<and> e \<le> a') (find_all str p s)"
  using find_from_sorted [of str p s] by (auto simp: find_all_def split: option.splits)

lemma find_all_spans:
  assumes "length str < 2 ^ 31"
    and "(a, e, c) \<in> set (find_all str p s)"
  shows "Capture c 0 = a" "Capture c 1 = e" "s \<le> a" "a \<le> e" "e \<le> length str"
proof -
  from assms(2) find_all_from have "(a, e, c) \<in> set (find_from str p s)" by blast
  from find_from_in [OF this] match_at_hit [of str p a e c] assms(1)
  show "Capture c 0 = a" "Capture c 1 = e" "s \<le> a" "a \<le> e" "e \<le> length str" by simp_all
qed

lemma limited_set: "set (limited n xs) \<subseteq> set xs"
  by (simp add: limited_def set_take_subset)

lemma limited_sorted: "sorted_wrt R xs \<Longrightarrow> sorted_wrt R (limited n xs)"
  by (simp add: limited_def sorted_wrt_take)

section \<open>The cache\<close>

text \<open>The map and the list hold the same entries, each what parsing and compiling its key gives.\<close>

definition cache_ok :: "patternCache \<Rightarrow> bool" where
  "cache_ok pc \<longleftrightarrow> distinct (map ckey (order pc)) \<and> length (order pc) \<le> max 1 (capacity pc) \<and>
     (\<forall>k e. Mapping.lookup (items pc) k = Some e \<longleftrightarrow> e \<in> set (order pc) \<and> ckey e = k) \<and>
     (\<forall>e \<in> set (order pc). \<exists>sc. parsePattern (newScanner (ckey e)) = Inr (cpat e, sc) \<and> cinsts e = compileTop (cpat e))"

lemma cache_ok_new: "cache_ok (newPatternCache n)"
  by (simp add: cache_ok_def newPatternCache_def)

lemma moveToFront_set: "e \<in> set es \<Longrightarrow> set (moveToFront e es) = set es"
  by (induction es) (auto simp: moveToFront_def)

lemma moveToFront_mset: "e \<in> set es \<Longrightarrow> mset (moveToFront e es) = mset es"
  by (simp add: moveToFront_def)

lemma cache_ok_touch:
  assumes "cache_ok pc" "Mapping.lookup (items pc) k = Some e"
  shows "cache_ok (pc\<lparr>order := moveToFront e (order pc)\<rparr>)"
proof -
  have e: "e \<in> set (order pc)" using assms by (simp add: cache_ok_def)
  have d: "distinct (map ckey (moveToFront e (order pc)))" if "distinct (map ckey (order pc))"
    using that moveToFront_mset [OF e] by (metis mset_eq_imp_distinct_iff mset_map)
  have "length (moveToFront e (order pc)) = length (order pc)" using moveToFront_mset [OF e] by (metis size_mset)
  with assms d moveToFront_set [OF e] show ?thesis unfolding cache_ok_def by simp
qed

lemma lookup_deleted: "Mapping.lookup (Mapping.delete k m) k' = (if k = k' then None else Mapping.lookup m k')"
  by simp

lemma cache_ok_evict:
  assumes ok: "cache_ok pc"
  shows "cache_ok (evict pc)" "length (order (evict pc)) < max 1 (capacity pc)" "capacity (evict pc) = capacity pc"
    "Mapping.lookup (items pc) k = None \<Longrightarrow> Mapping.lookup (items (evict pc)) k = None"
proof -
  show "capacity (evict pc) = capacity pc" by (simp add: evict_def)
  show "length (order (evict pc)) < max 1 (capacity pc)" using ok by (auto simp: evict_def cache_ok_def)
  show "Mapping.lookup (items pc) k = None \<Longrightarrow> Mapping.lookup (items (evict pc)) k = None"
    by (simp add: evict_def lookup_deleted)
  show "cache_ok (evict pc)"
  proof (cases "length (order pc) \<ge> capacity pc \<and> order pc \<noteq> []")
    case False
    then show ?thesis using ok by (auto simp: evict_def)
  next
    case True
    then obtain es l where o: "order pc = es @ [l]" by (metis append_butlast_last_id)
    have "distinct (map ckey (es @ [l]))" using ok by (simp add: cache_ok_def o)
    then have ne: "ckey e \<noteq> ckey l" if "e \<in> set es" for e using that by auto (metis image_eqI)
    have look: "Mapping.lookup (items pc) k = Some e \<longleftrightarrow> e \<in> set (es @ [l]) \<and> ckey e = k" for k e
      using ok by (simp add: cache_ok_def o)
    have "Mapping.lookup (Mapping.delete (ckey l) (items pc)) k = Some e \<longleftrightarrow> e \<in> set es \<and> ckey e = k" for k e
      using look [of k e] ne [of e] by (auto simp: lookup_deleted)
    moreover have "evict pc = pc\<lparr>items := Mapping.delete (ckey l) (items pc), order := es\<rparr>"
      using True by (simp add: evict_def o)
    ultimately show ?thesis using ok by (simp add: cache_ok_def o)
  qed
qed

lemma cache_ok_put:
  assumes ok: "cache_ok pc" and p: "parsePattern (newScanner pattern) = Inr (p, sc)"
  shows "cache_ok (cache_put pattern (compileTop p) p pc)"
proof (cases "Mapping.lookup (items pc) pattern")
  case (Some e)
  then show ?thesis using cache_ok_touch [OF ok Some] by (simp add: cache_put_def)
next
  case None
  define pc' where "pc' = evict pc"
  note ev = cache_ok_evict [OF ok, folded pc'_def]
  have look: "Mapping.lookup (items pc') k = Some e \<longleftrightarrow> e \<in> set (order pc') \<and> ckey e = k" for k e
    using ev(1) by (simp add: cache_ok_def)
  have new: "ckey e \<noteq> pattern" if "e \<in> set (order pc')" for e
    using that look [of pattern e] ev(4) [OF None] by simp
  let ?e = "\<lparr>ckey = pattern, cinsts = compileTop p, cpat = p\<rparr>"
  let ?pc = "pc'\<lparr>items := Mapping.update pattern ?e (items pc'), order := ?e # order pc'\<rparr>"
  have "Mapping.lookup (items ?pc) k = Some e \<longleftrightarrow> e \<in> set (order ?pc) \<and> ckey e = k" for k e
    using look [of k e] new [of e] by (auto simp: Mapping.lookup_update')
  moreover have "distinct (map ckey (order ?pc))" "length (order ?pc) \<le> max 1 (capacity ?pc)"
    using ev new by (auto simp: cache_ok_def)
  moreover have "\<forall>e \<in> set (order ?pc). \<exists>sc. parsePattern (newScanner (ckey e)) = Inr (cpat e, sc) \<and> cinsts e = compileTop (cpat e)"
    using ev(1) p by (simp add: cache_ok_def)
  ultimately have "cache_ok ?pc" unfolding cache_ok_def by blast
  then show ?thesis using None by (simp add: cache_put_def Let_def pc'_def)
qed

lemma getCompiledPattern_uncached:
  assumes ok: "cache_ok pc"
  shows "cache_ok (snd (getCompiledPattern pattern pc))"
    "fst (getCompiledPattern pattern pc) = (case parsePattern (newScanner pattern) of
        Inl err \<Rightarrow> Inl err | Inr (p, _) \<Rightarrow> Inr (compileTop p, p))"
proof -
  show "cache_ok (snd (getCompiledPattern pattern pc))"
    using ok cache_ok_touch [OF ok] cache_ok_put [OF ok]
    by (auto simp: getCompiledPattern_def cache_get_def Let_def split: option.splits sum.splits)
  show "fst (getCompiledPattern pattern pc) = (case parsePattern (newScanner pattern) of
        Inl err \<Rightarrow> Inl err | Inr (p, _) \<Rightarrow> Inr (compileTop p, p))"
    using ok by (auto simp: getCompiledPattern_def cache_get_def Let_def cache_ok_def split: option.splits sum.splits)
qed

lemma getCompiledPattern_capacity: "capacity (snd (getCompiledPattern pattern pc)) = capacity pc"
  by (auto simp: getCompiledPattern_def cache_get_def cache_put_def evict_def Let_def split: option.splits sum.splits)

lemma getCompiledPattern_front:
  assumes "cache_ok pc" "fst (getCompiledPattern pattern pc) = Inr x"
  shows "order (snd (getCompiledPattern pattern pc)) \<noteq> [] \<and> ckey (hd (order (snd (getCompiledPattern pattern pc)))) = pattern"
  using assms by (auto simp: getCompiledPattern_def cache_get_def cache_put_def moveToFront_def cache_ok_def Let_def
      split: option.splits sum.splits)

lemma Find_result:
  assumes "cache_ok pc"
  shows "fst (Find pattern str offset limit pc) = Some (case parsePattern (newScanner pattern) of
        Inl err \<Rightarrow> FindErr err
      | Inr (p, _) \<Rightarrow> if limit > maxMatches then FindPanic else FindOk (limited limit (map (\<lambda>(_, _, c). c) (find_all str p offset))))"
  using getCompiledPattern_uncached [OF assms, of pattern]
  by (auto simp: Find_def find_loop_all split: prod.splits sum.splits)

lemma Find_ok:
  assumes "cache_ok pc" "fst (Find pattern str offset limit pc) = Some (FindOk ms)"
  obtains p sc where "parsePattern (newScanner pattern) = Inr (p, sc)"
    "ms = map (\<lambda>(_, _, c). c) (limited limit (find_all str p offset))"
  using Find_result [OF assms(1), of pattern str offset limit] assms(2)
  by (auto split: sum.splits if_splits simp: limited_def take_map)

lemma string_offsets_natural: "0 \<le> luaIndex2StringIndex str i start" "0 \<le> strMatch_offset str i"
  by (simp_all add: luaIndex2StringIndex_def strMatch_offset_def Let_def)

section \<open>Balanced braces\<close>

text \<open>How many more opening than closing characters there are.\<close>

definition balance :: "int \<Rightarrow> int \<Rightarrow> u8 list \<Rightarrow> int" where
  "balance op cl xs = int (length (filter (\<lambda>c. uint c = op) xs)) - int (length (filter (\<lambda>c. uint c = cl) xs))"

lemma balance_Cons: "balance op cl (x # xs) = (if uint x = op then 1 else 0) - (if uint x = cl then 1 else 0) + balance op cl xs"
  by (simp add: balance_def)

lemma balance_Nil: "balance op cl [] = 0"
  by (simp add: balance_def)

text \<open>The first point where the depth, which starts at \<open>n\<close>, gets to zero.\<close>

definition closes :: "int \<Rightarrow> int \<Rightarrow> nat \<Rightarrow> u8 list \<Rightarrow> nat \<Rightarrow> bool" where
  "closes op cl n xs k \<longleftrightarrow> k \<le> length xs \<and> int n + balance op cl (take k xs) = 0 \<and>
     (\<forall>j < k. 0 < int n + balance op cl (take j xs))"

lemma closes_Cons:
  assumes "0 < n"
  shows "closes op cl n (x # xs) (Suc k) \<longleftrightarrow>
    (if uint x = op \<and> uint x \<noteq> cl then closes op cl (n + 1) xs k
     else if uint x = cl \<and> uint x \<noteq> op then closes op cl (n - 1) xs k else closes op cl n xs k)"
proof -
  have "(\<forall>j < Suc k. P j) \<longleftrightarrow> P 0 \<and> (\<forall>j < k. P (Suc j))" for P by (auto simp: less_Suc_eq_0_disj)
  then show ?thesis using assms by (auto simp: closes_def balance_Cons balance_Nil of_nat_diff algebra_simps)
qed

lemma closes_zero: "0 < n \<Longrightarrow> \<not> closes op cl n xs 0" "closes op cl 0 xs k \<longleftrightarrow> k = 0"
  by (auto simp: closes_def balance_Nil)

lemma closes_Nil: "0 < n \<Longrightarrow> \<not> closes op cl n [] k"
  by (simp add: closes_def balance_Nil)

lemma brace_scan_closes:
  "0 < n \<Longrightarrow> op \<noteq> cl \<Longrightarrow> brace_scan op cl n xs sp = Some q \<longleftrightarrow> (\<exists>k. q = sp + k \<and> closes op cl n xs k)"
proof (induction op cl n xs sp rule: brace_scan.induct)
  case (1 op cl n sp)
  then show ?case by (simp add: closes_Nil)
next
  case (2 op cl n ch rest sp)
  have split: "(\<exists>k. q = sp + k \<and> closes op cl n (ch # rest) k) \<longleftrightarrow> (\<exists>k. q = sp + 1 + k \<and> closes op cl n (ch # rest) (Suc k))"
    using closes_zero(1) [OF 2(4), of op cl "ch # rest"] by (metis add.assoc add.commute not0_implies_Suc plus_1_eq_Suc)
  show ?case unfolding split closes_Cons [OF 2(4)] using 2
    by (cases "n = 1") (auto simp: closes_zero(2))
qed

section \<open>Properties\<close>

text \<open>The pattern \<open>a\<close> on the text \<open>ba\<close>, for the witnesses.\<close>

abbreviation pat_a :: seqPattern where
  "pat_a \<equiv> \<lparr>mustHead = False, mustTail = False, patterns = [SinglePattern (LiteralClass 97)]\<rparr>"

lemma parse_a: "parsePattern (newScanner [97]) = Inr (pat_a, \<lparr>src = [97], pos = 0, savedPos = - 3\<rparr>)"
  by code_simp

lemma match_a: "first_hit MaxBacktracks (top_trace [98, 97] pat_a 1) = Some (2, [2, 4])"
  by (simp add: top_trace_def one_trace_def MaxBacktracks_def setCapture_def ensureSlot_def)

lemma find_a: "find_all [98, 97] pat_a 0 = [(1, 2, [2, 4])]"
  by (simp add: find_all_def find_from.simps match_at_def top_trace_def one_trace_def MaxBacktracks_def setCapture_def ensureSlot_def)

text \<open>
  C1: Running the machine on the code compiled for a pattern always returns, without reading an
  instruction out of range. It succeeds with the position and captures of the first match that
  backtracking on the parsed pattern comes to, if at most \<open>MaxBacktracks\<close> alternatives fail before
  it, and fails otherwise.
\<close>

theorem pattern_machine_correct:
  "case first_hit MaxBacktracks (top_trace str p s) of
     Some (e, c) \<Rightarrow> run str (compileTop p) 0 s [] [] 0 = Some (VmDone True e c)
   | None \<Rightarrow> \<exists>q c. run str (compileTop p) 0 s [] [] 0 = Some (VmDone False q c)"
  using run_match [of str p s] by (auto simp: match_at_def split: option.splits)

text \<open>
  C13: A search from a natural offset, whatever the state of the cache, returns an error when the
  pattern does not parse, panics when it does and the limit is more than the capacity a slice can
  have, and otherwise returns the captures of the matches that repeated matching on the parsed
  pattern finds, cut off at a positive limit. The cache stays consistent.
\<close>

theorem find_equivalent:
  assumes "cache_ok pc"
  shows "cache_ok (snd (Find pattern str offset limit pc)) \<and>
    fst (Find pattern str offset limit pc) = Some (case parsePattern (newScanner pattern) of
        Inl err \<Rightarrow> FindErr err
      | Inr (p, _) \<Rightarrow> if limit > maxMatches then FindPanic
          else FindOk (limited limit (map (\<lambda>(_, _, c). c) (find_all str p offset))))"
  using getCompiledPattern_uncached [OF assms, of pattern] Find_result [OF assms]
  by (auto simp: Find_def split: prod.splits sum.splits)

theorem find_equivalent_witness:
  "cache_ok (newPatternCache 2) \<and>
   fst (Find [97] [98, 97] 0 (-1) (newPatternCache 2)) = Some (FindOk [[2, 4]])"
  using find_equivalent [OF cache_ok_new [of 2], of "[97]" "[98, 97]" 0 "-1"] cache_ok_new [of 2]
  by (simp add: parse_a find_a limited_def)

text \<open>The limit of \<open>string.gsub\<close> is not checked: a large one, which asks for no more matches than there are, panics.\<close>

lemma find_limit_panics: "fst (Find [97] [98, 97] 0 MaxInt64 (newPatternCache 2)) = Some FindPanic"
  by (simp add: Find_result [OF cache_ok_new] parse_a)

text \<open>
  The matches of a search lie between the offset and the end of the text, come in the order of
  the text, each starts after the start and not before the end of the one before, and there are no
  more of them than a positive limit says. The text is shorter than 2 GB, since a capture keeps a
  position in 31 bits.
\<close>

theorem find_spans:
  assumes "cache_ok pc" "length str < 2 ^ 31" "fst (Find pattern str offset limit pc) = Some (FindOk ms)"
  shows "(\<forall>m \<in> set ms. offset \<le> Capture m 0 \<and> Capture m 0 \<le> Capture m 1 \<and> Capture m 1 \<le> length str) \<and>
    sorted_wrt (\<lambda>m m'. Capture m 0 < Capture m' 0 \<and> Capture m 1 \<le> Capture m' 0) ms \<and>
    (limit > 0 \<longrightarrow> int (length ms) \<le> limit)"
proof -
  obtain p sc where ms: "ms = map (\<lambda>(_, _, c). c) (limited limit (find_all str p offset))"
    using Find_ok [OF assms(1,3)] by blast
  let ?L = "limited limit (find_all str p offset)"
  have spans: "Capture c 0 = a \<and> Capture c 1 = e \<and> offset \<le> a \<and> a \<le> e \<and> e \<le> length str" if "(a, e, c) \<in> set ?L" for a e c
    using find_all_spans [OF assms(2) subsetD [OF limited_set that]] by simp
  have "sorted_wrt (\<lambda>(a, e, _) (a', _, _). a < a' \<and> e \<le> a') ?L"
    by (rule limited_sorted [OF find_all_sorted])
  then have "sorted_wrt (\<lambda>(_, _, c) (_, _, c'). Capture c 0 < Capture c' 0 \<and> Capture c 1 \<le> Capture c' 0) ?L"
    by (rule sorted_wrt_mono_rel [rotated]) (use spans in fastforce)
  moreover have "limit > 0 \<longrightarrow> int (length ?L) \<le> limit" by (auto simp: limited_def)
  ultimately show ?thesis using spans by (auto simp: ms sorted_wrt_map case_prod_unfold)
qed

theorem find_spans_witness:
  "fst (Find [97] [98, 97] 0 (-1) (newPatternCache 2)) = Some (FindOk [[2, 4]]) \<and> Capture [2, 4] 0 = 1"
proof -
  have f: "fst (Find [97] [98, 97] 0 (-1) (newPatternCache 2)) = Some (FindOk [[2, 4]])"
    by (simp add: Find_result [OF cache_ok_new] parse_a find_a limited_def)
  from find_spans [OF cache_ok_new _ f] f show ?thesis by (simp add: Capture_def)
qed

text \<open>
  A search without a limit for a pattern that is not anchored misses nothing: a position from
  which the pattern matches is the start of one of the matches or lies inside one.
\<close>

theorem find_complete:
  assumes "cache_ok pc" "length str < 2 ^ 31" "fst (Find pattern str offset limit pc) = Some (FindOk ms)" "limit \<le> 0"
    "parsePattern (newScanner pattern) = Inr (p, sc)" "\<not> mustHead p"
    "offset \<le> q" "q \<le> length str" "first_hit MaxBacktracks (top_trace str p q) \<noteq> None"
  shows "\<exists>m \<in> set ms. Capture m 0 = q \<or> Capture m 0 < q \<and> q < Capture m 1"
proof -
  have ms: "ms = map (\<lambda>(_, _, c). c) (find_all str p offset)"
    using Find_ok [OF assms(1,3)] assms(4,5) by (auto simp: limited_def)
  obtain a e c where "(a, e, c) \<in> set (find_all str p offset)" "a = q \<or> a < q \<and> q < e"
    using find_from_complete [OF assms(7,8), of p] assms(6,9) by (auto simp: find_all_def match_at_def)
  with find_all_spans [OF assms(2) this(1)] show ?thesis by (force simp: ms)
qed

theorem find_complete_witness:
  "\<exists>m \<in> set [[2, 4]]. Capture m 0 = 1 \<or> Capture m 0 < 1 \<and> 1 < Capture m 1"
proof -
  have f: "fst (Find [97] [98, 97] 0 (-1) (newPatternCache 2)) = Some (FindOk [[2, 4]])"
    by (simp add: Find_result [OF cache_ok_new] parse_a find_a limited_def)
  show ?thesis
    by (rule find_complete [OF cache_ok_new _ f _ parse_a]) (simp_all add: match_a [unfolded One_nat_def])
qed

text \<open>
  The brace item matches exactly the shortest stretch of text that opens with the opening
  character and has as many closing as opening characters.
\<close>

theorem matchBrace_shortest:
  assumes "op \<noteq> cl"
  shows "matchBrace str op cl sp = Some q \<longleftrightarrow>
    sp < q \<and> q \<le> length str \<and> uint (str ! sp) = op \<and> balance op cl (drop sp (take q str)) = 0 \<and>
    (\<forall>r. sp < r \<and> r < q \<longrightarrow> 0 < balance op cl (drop sp (take r str)))"
proof (cases "sp < length str \<and> uint (str ! sp) = op")
  case False
  then show ?thesis by (auto simp: matchBrace_def)
next
  case True
  let ?xs = "drop (sp + 1) str"
  have sl: "drop sp (take (sp + 1 + k) str) = str ! sp # take k ?xs" for k
    using True by (simp add: take_drop [symmetric] drop_take Cons_nth_drop_Suc [symmetric])
  have b: "balance op cl (drop sp (take (sp + 1 + k) str)) = 1 + balance op cl (take k ?xs)" for k
    using True assms by (simp only: sl balance_Cons) simp
  have bq: "balance op cl (drop sp (take q str)) = 1 + balance op cl (take (q - (sp + 1)) ?xs)" if "sp < q"
    using b [of "q - (sp + 1)"] that by simp
  have "matchBrace str op cl sp = Some q \<longleftrightarrow> (\<exists>k. q = sp + 1 + k \<and> closes op cl 1 ?xs k)"
    using True brace_scan_closes [OF _ assms, of 1 ?xs "sp + 1" q] by (simp add: matchBrace_def)
  also have "\<dots> \<longleftrightarrow> sp < q \<and> closes op cl 1 ?xs (q - (sp + 1))" by (auto intro: exI [of _ "q - (sp + 1)"])
  also have "\<dots> \<longleftrightarrow> sp < q \<and> q \<le> length str \<and> balance op cl (drop sp (take q str)) = 0 \<and>
      (\<forall>j < q - (sp + 1). 0 < balance op cl (drop sp (take (sp + 1 + j) str)))"
    using bq True unfolding b by (auto simp: closes_def)
  also have "(\<forall>j < q - (sp + 1). 0 < balance op cl (drop sp (take (sp + 1 + j) str))) \<longleftrightarrow>
      (\<forall>r. sp < r \<and> r < q \<longrightarrow> 0 < balance op cl (drop sp (take r str)))"
    by (auto dest: less_imp_Suc_add)
  finally show ?thesis using True by simp
qed

theorem matchBrace_shortest_witness:
  "matchBrace [40, 40, 41, 41, 41] 40 41 0 = Some 4 \<and> balance 40 41 (take 4 [40, 40, 41, 41, 41]) = 0 \<and>
   0 < balance 40 41 (take 3 [40, 40, 41, 41, 41])"
proof -
  have m: "matchBrace [40, 40, 41, 41, 41] 40 41 0 = Some 4" by (simp add: matchBrace_def)
  have h: "balance 40 41 (drop 0 (take 4 [40, 40, 41, 41, 41])) = 0 \<and>
      (\<forall>r. 0 < r \<and> r < 4 \<longrightarrow> 0 < balance 40 41 (drop 0 (take r [40, 40, 41, 41, 41])))"
    using matchBrace_shortest [of 40 41 "[40, 40, 41, 41, 41]" 0 4] m by simp
  have "balance 40 41 (take 4 [40, 40, 41, 41, 41]) = 0" using h by (simp only: drop0)
  moreover have "0 < balance 40 41 (take 3 [40, 40, 41, 41, 41])"
    using conjunct2 [OF h, THEN spec, of 3] by (simp only: drop0) simp
  ultimately show ?thesis using m by blast
qed

text \<open>
  However many patterns are compiled, the cache holds at most \<open>maxCachedPatterns\<close> of them, the
  one compiled last is at the front, and what the cache returns for any pattern is what parsing
  and compiling it afresh gives.
\<close>

theorem cache_transparent:
  "let pc = fold (\<lambda>k pc. snd (getCompiledPattern k pc)) ks (newPatternCache maxCachedPatterns) in
     length (order pc) \<le> maxCachedPatterns \<and>
     (case getCompiledPattern pattern pc of (res, pc') \<Rightarrow>
        res = (case parsePattern (newScanner pattern) of Inl err \<Rightarrow> Inl err | Inr (p, _) \<Rightarrow> Inr (compileTop p, p)) \<and>
        ((\<exists>x. res = Inr x) \<longrightarrow> order pc' \<noteq> [] \<and> ckey (hd (order pc')) = pattern))"
proof -
  define pc where "pc = fold (\<lambda>k pc. snd (getCompiledPattern k pc)) ks (newPatternCache maxCachedPatterns)"
  have "cache_ok (fold (\<lambda>k pc. snd (getCompiledPattern k pc)) ks pc0) \<and>
      capacity (fold (\<lambda>k pc. snd (getCompiledPattern k pc)) ks pc0) = capacity pc0" if "cache_ok pc0" for pc0
    using that by (induction ks arbitrary: pc0) (simp_all add: getCompiledPattern_uncached(1) getCompiledPattern_capacity)
  from this [OF cache_ok_new] have ok: "cache_ok pc" "capacity pc = maxCachedPatterns"
    by (simp_all add: pc_def newPatternCache_def)
  then have "length (order pc) \<le> maxCachedPatterns" by (simp add: cache_ok_def maxCachedPatterns_def)
  with getCompiledPattern_uncached(2) [OF ok(1), of pattern] getCompiledPattern_front [OF ok(1), of pattern]
  show ?thesis unfolding pc_def [symmetric] Let_def by (auto simp: case_prod_unfold)
qed

theorem cache_transparent_witness:
  "length (order (fold (\<lambda>k pc. snd (getCompiledPattern k pc)) [[97], [98]] (newPatternCache maxCachedPatterns))) \<le> maxCachedPatterns"
  using cache_transparent [of "[[97], [98]]" "[97]"] by (simp only: Let_def)

end
