(* ===== verification/Table.thy ===== *)
theory Table
  imports Values "HOL-Library.AList"
begin

text \<open>
  Lua tables (\<open>table.go\<close>): an array part, a map of string keys, a map of all other keys, and the
  iteration order that \<open>Next\<close> creates on first use. A Go slice or map is an option, \<open>None\<close> for
  nil. A map is an association list; two keys are the same Go key when they are equal and not
  a NaN. Where a loop ranges over a map in an order that Go leaves open and that order can be seen,
  the order is a parameter.
\<close>

section \<open>Go maps and slices\<close>

definition slice :: "'a list option \<Rightarrow> 'a list" where
  "slice s = (case s of None \<Rightarrow> [] | Some xs \<Rightarrow> xs)"

lemma slice_simps [simp]: "slice None = []" "slice (Some xs) = xs"
  by (simp_all add: slice_def)

abbreviation nan_key :: "lvalue \<Rightarrow> bool" where "nan_key k \<equiv> k = LNumber FNaN"

definition mget :: "(lvalue \<times> 'v) list \<Rightarrow> lvalue \<Rightarrow> 'v option" where
  "mget m k = (if nan_key k then None else map_of m k)"

definition mput :: "lvalue \<Rightarrow> 'v \<Rightarrow> (lvalue \<times> 'v) list \<Rightarrow> (lvalue \<times> 'v) list" where
  "mput k v m = (if nan_key k then (k, v) # m else AList.update k v m)"

definition mdel :: "lvalue \<Rightarrow> (lvalue \<times> 'v) list \<Rightarrow> (lvalue \<times> 'v) list" where
  "mdel k m = (if nan_key k then m else AList.delete k m)"

section \<open>Table\<close>

abbreviation maxArrayGap :: int where "maxArrayGap \<equiv> 32"

record ltable =
  Metatable :: lvalue
  Immutable :: bool
  sparseArrayHash :: bool
  Array :: "lvalue list option"
  Dict :: "(lvalue \<times> lvalue) list option"
  Strdict :: "(string \<times> lvalue) list option"
  Keys :: "lvalue option list option"
  K2i :: "(lvalue \<times> nat) list"

abbreviation arr :: "ltable \<Rightarrow> lvalue list" where "arr t \<equiv> slice (Array t)"
abbreviation dict :: "ltable \<Rightarrow> (lvalue \<times> lvalue) list" where "dict t \<equiv> slice (Dict t)"
abbreviation strs :: "ltable \<Rightarrow> (string \<times> lvalue) list" where "strs t \<equiv> slice (Strdict t)"

fun iterationKey :: "lvalue \<Rightarrow> lvalue" where
  "iterationKey (LGoFunc code) = nativeFunctionCursor code"
| "iterationKey (LFunction a nk code) = (if nk then nativeFunctionCursor code else iterationPointerKey LTFunction a)"
| "iterationKey (LRef t a) = iterationPointerKey t a"
| "iterationKey LNil = iterationPointerKey LTNil 0"
| "iterationKey key = key"

definition numericTableKey :: "lvalue \<Rightarrow> lvalue" where
  "numericTableKey key = (case key of
      LInteger k \<Rightarrow> if k > 0 \<and> k < MaxArrayIndex then LNumber (int_to_float k) else key
    | LNumber k \<Rightarrow> (case floatToInteger k of
          Some i \<Rightarrow> if i \<le> 0 \<or> i \<ge> MaxArrayIndex then LInteger i else key
        | None \<Rightarrow> key)
    | _ \<Rightarrow> key)"

text \<open>
  The key of a native function is a wrapper that the table allocates, at the address \<open>fresh\<close>. There
  is at most one wrapper per function, so the search finds the same one in every order.
\<close>

definition tableKey :: "nat \<Rightarrow> ltable \<Rightarrow> lvalue \<Rightarrow> bool \<Rightarrow> lvalue" where
  "tableKey fresh t key create = (case key of
      LInteger _ \<Rightarrow> numericTableKey key
    | LNumber _ \<Rightarrow> numericTableKey key
    | _ \<Rightarrow> (case nativeFunctionID key of
        None \<Rightarrow> key
      | Some code \<Rightarrow>
          if (case key of LFunction _ _ _ \<Rightarrow> True | _ \<Rightarrow> False) \<and> mget (dict t) key \<noteq> None then key
          else case find (\<lambda>k. nativeFunctionID k = Some code) (map fst (dict t)) of
            Some existing \<Rightarrow> existing
          | None \<Rightarrow> if \<not> create then nativeFunctionCursor code else LFunction fresh True code))"

definition newLTable :: "int \<Rightarrow> int \<Rightarrow> ltable" where
  "newLTable acap hcap =
     (let acap = max 0 acap; hcap = max 0 hcap in
      \<lparr>Metatable = LNil, Immutable = False, sparseArrayHash = False,
       Array = (if acap \<noteq> 0 then Some [] else None), Dict = None,
       Strdict = (if hcap \<noteq> 0 then Some [] else None), Keys = None, K2i = []\<rparr>)"

section \<open>Iteration order\<close>

text \<open>The loop that numbers a list of keys.\<close>

definition number_keys :: "lvalue list \<Rightarrow> (lvalue \<times> nat) list" where
  "number_keys ks = fold (\<lambda>(k, i) m. mput k i m) (zip ks [0..<length ks]) []"

text \<open>The orders of the two ranges, over the string keys and over the other keys.\<close>

type_synonym ranges = "(string list \<Rightarrow> string list) \<times> (lvalue list \<Rightarrow> lvalue list)"

definition ensureIterationOrder :: "ranges \<Rightarrow> ltable \<Rightarrow> ltable" where
  "ensureIterationOrder rng t =
     (case Keys t of Some _ \<Rightarrow> t
      | None \<Rightarrow> (let ks = map LString (fst rng (map fst (strs t))) @ snd rng (map fst (dict t))
          in t\<lparr>Keys := Some (map Some ks), K2i := number_keys ks\<rparr>))"

definition deleteIterationKey :: "lvalue \<Rightarrow> ltable \<Rightarrow> ltable" where
  "deleteIterationKey key t = (case mget (K2i t) key of
      None \<Rightarrow> t
    | Some index \<Rightarrow>
        let t = t\<lparr>Keys := Some ((slice (Keys t))[index := None])\<rparr>; cursor = iterationKey key in
        if cursor \<noteq> key then t\<lparr>K2i := mput cursor index (mdel key (K2i t))\<rparr> else t)"

definition live_keys :: "lvalue option list \<Rightarrow> lvalue list" where
  "live_keys ks = map the (filter (\<lambda>k. k \<noteq> None) ks)"

definition addIterationKey :: "lvalue \<Rightarrow> ltable \<Rightarrow> ltable" where
  "addIterationKey key t = (case Keys t of
      None \<Rightarrow> t
    | Some ks \<Rightarrow>
        if (case mget (K2i t) key of Some index \<Rightarrow> ks ! index \<noteq> None | None \<Rightarrow> False) then t
        else
          let live = length (strs t) + length (dict t);
              (ks, k2i) = (if length ks > live \<and> length ks - live \<ge> live
                then (map Some (live_keys ks), number_keys (live_keys ks)) else (ks, K2i t))
          in t\<lparr>Keys := Some (ks @ [Some key]), K2i := mput key (length ks) k2i\<rparr>)"

definition forget_one :: "lvalue \<Rightarrow> ltable \<Rightarrow> ltable" where
  "forget_one candidate t = (case mget (K2i t) candidate of
      Some index \<Rightarrow> if slice (Keys t) ! index = None then t\<lparr>K2i := mdel candidate (K2i t)\<rparr> else t
    | None \<Rightarrow> t)"

definition forgetDeletedArrayKey :: "int \<Rightarrow> ltable \<Rightarrow> ltable" where
  "forgetDeletedArrayKey key t =
     (if length (K2i t) = 0 then t
      else forget_one (LInteger key) (forget_one (LNumber (int_to_float key)) t))"

section \<open>Hash part\<close>

definition releaseEmptySparseHash :: "ltable \<Rightarrow> ltable" where
  "releaseEmptySparseHash t =
     (if sparseArrayHash t \<and> length (dict t) = 0 then t\<lparr>Dict := None, sparseArrayHash := False\<rparr> else t)"

text \<open>Every write returns whether the table could be changed.\<close>

definition RawSetString :: "string \<Rightarrow> lvalue \<Rightarrow> ltable \<Rightarrow> bool \<times> ltable" where
  "RawSetString key value t =
     (if Immutable t then (False, t)
      else let t = t\<lparr>Strdict := Some (strs t)\<rparr> in
        if value = LNil then (True, deleteIterationKey (LString key) (t\<lparr>Strdict := Some (AList.delete key (strs t))\<rparr>))
        else (True, let t = addIterationKey (LString key) t in t\<lparr>Strdict := Some (AList.update key value (strs t))\<rparr>))"

definition RawSetH :: "nat \<Rightarrow> lvalue \<Rightarrow> lvalue \<Rightarrow> ltable \<Rightarrow> bool \<times> ltable" where
  "RawSetH fresh key value t =
     (if Immutable t then (False, t)
      else case key of LString s \<Rightarrow> RawSetString s value t
      | _ \<Rightarrow>
        let key = tableKey fresh t key (value \<noteq> LNil) in
        if value = LNil then
          (True, releaseEmptySparseHash (deleteIterationKey key (t\<lparr>Dict := map_option (mdel key) (Dict t)\<rparr>)))
        else
          (True, let t = addIterationKey key (t\<lparr>sparseArrayHash := False, Dict := Some (dict t)\<rparr>)
             in t\<lparr>Dict := Some (mput key value (dict t))\<rparr>))"

definition RawGetString :: "string \<Rightarrow> ltable \<Rightarrow> lvalue" where
  "RawGetString key t = (case Strdict t of None \<Rightarrow> LNil
     | Some m \<Rightarrow> (case map_of m key of Some v \<Rightarrow> v | None \<Rightarrow> LNil))"

definition RawGetH :: "lvalue \<Rightarrow> ltable \<Rightarrow> lvalue" where
  "RawGetH key t =
     (let key = (case key of LGoFunc _ \<Rightarrow> tableKey 0 t key False | LFunction _ _ _ \<Rightarrow> tableKey 0 t key False | _ \<Rightarrow> key) in
      case key of
        LString s \<Rightarrow> RawGetString s t
      | _ \<Rightarrow> (case Dict t of None \<Rightarrow> LNil
          | Some m \<Rightarrow> (case mget m (numericTableKey key) of Some v \<Rightarrow> v | None \<Rightarrow> LNil)))"

section \<open>Array part\<close>

definition takeHashed :: "nat \<Rightarrow> int \<Rightarrow> ltable \<Rightarrow> lvalue \<times> ltable" where
  "takeHashed fresh key t =
     (let t = forgetDeletedArrayKey key t in
      if length (dict t) = 0 then (LNil, t)
      else let hashed = LNumber (int_to_float key) in
        case mget (dict t) hashed of
          None \<Rightarrow> (LNil, t)
        | Some v \<Rightarrow> (let t = snd (RawSetH fresh hashed LNil t) in (v, t\<lparr>K2i := mdel hashed (K2i t)\<rparr>)))"

definition append_arr :: "lvalue \<Rightarrow> ltable \<Rightarrow> ltable" where
  "append_arr v t = t\<lparr>Array := Some (arr t @ [v])\<rparr>"

text \<open>
  The loop of \<open>pullHashed\<close>. A turn that goes on has removed an entry from the hash part, so its
  size is enough fuel.
\<close>

fun pull_loop :: "nat \<Rightarrow> nat \<Rightarrow> ltable \<Rightarrow> ltable" where
  "pull_loop 0 fresh t = t"
| "pull_loop (Suc n) fresh t =
     (if length (dict t) > 0 then
        (case takeHashed fresh (int (length (arr t)) + 1) t of (v, t) \<Rightarrow>
           if v = LNil then t else pull_loop n fresh (append_arr v t))
      else t)"

definition pullHashed :: "nat \<Rightarrow> ltable \<Rightarrow> ltable" where
  "pullHashed fresh t = pull_loop (length (dict t)) fresh t"

text \<open>The loop that fills the gap up to a key with what the hash part has there.\<close>

definition fill_gap :: "nat \<Rightarrow> nat \<Rightarrow> ltable \<Rightarrow> ltable" where
  "fill_gap fresh n t = ((\<lambda>t. case takeHashed fresh (int (length (arr t)) + 1) t of (v, t) \<Rightarrow> append_arr v t) ^^ n) t"

definition setSparseIntKey :: "nat \<Rightarrow> int \<Rightarrow> lvalue \<Rightarrow> ltable \<Rightarrow> ltable" where
  "setSparseIntKey fresh key value t =
     (let index = key - 1; alen = int (length (arr t)); gap = index - alen;
          alreadyHashed = mget (dict t) (LNumber (int_to_float key)) \<noteq> None in
      if value = LNil \<or> gap > maxArrayGap \<or> alreadyHashed then
        let sparseOrigin = (Dict t = None \<or> sparseArrayHash t);
            t = snd (RawSetH fresh (LNumber (int_to_float key)) value t)
        in if sparseOrigin then releaseEmptySparseHash (t\<lparr>sparseArrayHash := True\<rparr>) else t
      else
        let t = t\<lparr>Array := Some (arr t)\<rparr>;
            t = fill_gap fresh (nat (key - (alen + 1))) t;
            t = snd (takeHashed fresh key t)
        in pullHashed fresh (append_arr value t))"

definition getIntKey :: "int \<Rightarrow> ltable \<Rightarrow> lvalue" where
  "getIntKey key t =
     (if key - 1 < int (length (arr t)) then arr t ! nat (key - 1)
      else case Dict t of None \<Rightarrow> LNil
      | Some m \<Rightarrow> (case mget m (LNumber (int_to_float key)) of Some v \<Rightarrow> v | None \<Rightarrow> LNil))"

text \<open>The switch that \<open>RawSetInt\<close> and both numeric cases of \<open>RawSet\<close> share.\<close>

definition set_int :: "nat \<Rightarrow> int \<Rightarrow> lvalue \<Rightarrow> ltable \<Rightarrow> ltable" where
  "set_int fresh key value t =
     (let index = key - 1 in
      if index < int (length (arr t)) then
        forgetDeletedArrayKey key (t\<lparr>Array := Some ((arr t)[nat index := value])\<rparr>)
      else if index = int (length (arr t)) \<and> Array t \<noteq> None \<and> value \<noteq> LNil \<and> length (dict t) = 0 then
        forgetDeletedArrayKey key (append_arr value t)
      else setSparseIntKey fresh key value t)"

section \<open>Reads and writes\<close>

definition RawSetInt :: "nat \<Rightarrow> int \<Rightarrow> lvalue \<Rightarrow> ltable \<Rightarrow> bool \<times> ltable" where
  "RawSetInt fresh key value t =
     (if Immutable t then (False, t)
      else if key < 1 \<or> key \<ge> MaxArrayIndex then RawSetH fresh (LInteger key) value t
      else (True, set_int fresh key value t))"

definition RawSet :: "nat \<Rightarrow> lvalue \<Rightarrow> lvalue \<Rightarrow> ltable \<Rightarrow> bool \<times> ltable" where
  "RawSet fresh key value t =
     (if Immutable t then (False, t)
      else case key of
        LNumber v \<Rightarrow> if isArrayKey v then (True, set_int fresh (float_to_int v) value t) else RawSetH fresh key value t
      | LInteger v \<Rightarrow> if v > 0 \<and> v < MaxArrayIndex then (True, set_int fresh v value t) else RawSetH fresh key value t
      | LString s \<Rightarrow> RawSetString s value t
      | _ \<Rightarrow> RawSetH fresh key value t)"

definition RawGetInt :: "int \<Rightarrow> ltable \<Rightarrow> lvalue" where
  "RawGetInt key t = (if key < 1 \<or> key \<ge> MaxArrayIndex then RawGetH (LInteger key) t else getIntKey key t)"

definition RawGet :: "lvalue \<Rightarrow> ltable \<Rightarrow> lvalue" where
  "RawGet key t = (case key of
      LNumber v \<Rightarrow> if isArrayKey v then getIntKey (float_to_int v) t else RawGetH key t
    | LInteger v \<Rightarrow> if v > 0 \<and> v < MaxArrayIndex then getIntKey v t else RawGetH key t
    | LString s \<Rightarrow> RawGetString s t
    | _ \<Rightarrow> RawGetH key t)"

text \<open>\<open>LState.RawSet\<close> raises its errors as values.\<close>

definition LState_RawSet :: "nat \<Rightarrow> lvalue \<Rightarrow> lvalue \<Rightarrow> ltable \<Rightarrow> string + ltable" where
  "LState_RawSet fresh key value t =
     (if key = LNumber FNaN then Inl ''table index is NaN''
      else if key = LNil then Inl ''table index is nil''
      else case RawSet fresh key value t of (ok, t) \<Rightarrow>
        if \<not> ok then Inl ''attempt to modify Immutable table'' else Inr t)"

section \<open>List operations\<close>

text \<open>The loop of \<open>Len\<close> from the last element down; \<open>prev\<close> is the element above.\<close>

fun len_loop :: "lvalue list \<Rightarrow> lvalue \<Rightarrow> nat" where
  "len_loop [] prev = 0"
| "len_loop (v # down) prev = (if prev = LNil \<and> v \<noteq> LNil then length down + 1 else len_loop down v)"

definition LTable_Len :: "ltable \<Rightarrow> int" where
  "LTable_Len t = (case Array t of None \<Rightarrow> 0 | Some xs \<Rightarrow> int (len_loop (rev xs) LNil))"

definition LTable_Append :: "nat \<Rightarrow> lvalue \<Rightarrow> ltable \<Rightarrow> bool \<times> ltable" where
  "LTable_Append fresh value t =
     (if Immutable t then (False, t)
      else if value = LNil then (True, t)
      else let t = t\<lparr>Array := Some (arr t)\<rparr> in
        if length (arr t) = 0 \<or> last (arr t) \<noteq> LNil then
          (True, let t = append_arr value t;
                     t = forgetDeletedArrayKey (int (length (arr t))) t
                 in if length (dict t) > 0 then pullHashed fresh t else t)
        else
          (let n = length (dropWhile (\<lambda>v. v = LNil) (tl (rev (arr t)))) in
           (True, forgetDeletedArrayKey (int n + 1) (t\<lparr>Array := Some ((arr t)[n := value])\<rparr>))))"

definition LTable_Insert :: "nat \<Rightarrow> int \<Rightarrow> lvalue \<Rightarrow> ltable \<Rightarrow> bool \<times> ltable" where
  "LTable_Insert fresh i value t =
     (if Immutable t then (False, t)
      else let len = LTable_Len t in
        if i > len then RawSetInt fresh i value t
        else if i \<le> 0 then RawSet fresh (LNumber (int_to_float i)) value t
        else
          let i = nat (i - 1); n = nat len;
              xs = (if n = length (arr t) then arr t @ [LNil] else arr t);
              xs = take (i + 1) xs @ drop i (take n xs) @ drop (n + 1) xs;
              t = t\<lparr>Array := Some (xs[i := value])\<rparr>
          in (True, pullHashed fresh (forgetDeletedArrayKey (len + 1) t)))"

definition LTable_MaxN :: "ltable \<Rightarrow> int" where
  "LTable_MaxN t =
     fold (\<lambda>(key, value) m.
         if value = LNil then m
         else case key of
           LNumber k \<Rightarrow> if isArrayKey k \<and> float_to_int k > m then float_to_int k else m
         | LInteger k \<Rightarrow> if k > m \<and> k < MaxArrayIndex then k else m
         | _ \<Rightarrow> m)
       (dict t) (int (length (dropWhile (\<lambda>v. v = LNil) (rev (arr t)))))"

definition LTable_Remove :: "int \<Rightarrow> ltable \<Rightarrow> (lvalue \<times> bool) \<times> ltable" where
  "LTable_Remove pos t =
     (if Immutable t then ((LNil, False), t)
      else if Array t = None then ((LNil, True), t)
      else let larray = LTable_Len t in
        if larray = 0 then ((LNil, True), t)
        else let i = wrap64 (pos - 1); n = nat larray; xs = arr t in
          if i \<ge> larray then ((LNil, True), t)
          else if i = larray - 1 \<or> i < 0 then
            ((xs ! (n - 1), True), forgetDeletedArrayKey larray (t\<lparr>Array := Some (take (n - 1) xs)\<rparr>))
          else
            ((xs ! nat i, True), forgetDeletedArrayKey larray
               (t\<lparr>Array := Some (take (nat i) xs @ drop (nat i + 1) (take n xs))\<rparr>)))"

section \<open>Traversal\<close>

text \<open>The calls that \<open>ForEach\<close> makes, with a function that does not change the table.\<close>

definition LTable_ForEach :: "ranges \<Rightarrow> ltable \<Rightarrow> (lvalue \<times> lvalue) list" where
  "LTable_ForEach rng t =
     filter (\<lambda>(_, v). v \<noteq> LNil)
       (map (\<lambda>(i, v). (LNumber (int_to_float (int i + 1)), v)) (List.enumerate 0 (arr t)) @
        map (\<lambda>s. (LString s, the (map_of (strs t) s))) (fst rng (map fst (strs t))) @
        map (\<lambda>k. (nativeKeyValue k, the (map_of (dict t) k))) (snd rng (map fst (dict t))))"

fun scan_array :: "lvalue list \<Rightarrow> nat \<Rightarrow> (lvalue \<times> lvalue) option" where
  "scan_array [] i = None"
| "scan_array (v # vs) i = (if v \<noteq> LNil then Some (LNumber (int_to_float (int i + 1)), v) else scan_array vs (i + 1))"

fun scan_keys :: "ltable \<Rightarrow> lvalue option list \<Rightarrow> (lvalue \<times> lvalue) option" where
  "scan_keys t [] = None"
| "scan_keys t (None # ks) = scan_keys t ks"
| "scan_keys t (Some k # ks) = (if RawGetH k t \<noteq> LNil then Some (nativeKeyValue k, RawGetH k t) else scan_keys t ks)"

text \<open>Where the scan starts after a key: in the array and in the key order.\<close>

definition start_after :: "lvalue \<Rightarrow> ltable \<Rightarrow> (nat \<times> nat) option" where
  "start_after key t =
     (if key = LNil then Some (0, 0)
      else case (case mget (K2i t) key of Some i \<Rightarrow> Some i | None \<Rightarrow> mget (K2i t) (iterationKey key)) of
        Some index \<Rightarrow> Some (length (arr t), index + 1)
      | None \<Rightarrow> (case key of LNumber k \<Rightarrow> if isArrayKey k then Some (nat (float_to_int k), 0) else None | _ \<Rightarrow> None))"

definition LTable_Next :: "ranges \<Rightarrow> lvalue \<Rightarrow> ltable \<Rightarrow> (lvalue \<times> lvalue) \<times> ltable" where
  "LTable_Next rng key t =
     (let key = tableKey 0 t key False; t = ensureIterationOrder rng t in
      case start_after key t of
        None \<Rightarrow> ((LNil, LNil), t)
      | Some (ai, hi) \<Rightarrow>
          (case scan_array (drop ai (arr t)) ai of
             Some r \<Rightarrow> (r, t)
           | None \<Rightarrow> (case scan_keys t (drop hi (slice (Keys t))) of Some r \<Rightarrow> (r, t) | None \<Rightarrow> ((LNil, LNil), t))))"

end
