(* ===== verification/TableOrder.thy ===== *)
theory TableOrder
  imports Table
begin

text \<open>
  The iteration order of a table: the index names every live key at its slot of the order, and every
  other entry is a cursor to an empty slot. Deleting, adding and forgetting keys keep that.
\<close>

section \<open>Maps\<close>

lemma mget_put: "\<not> nan_key k \<Longrightarrow> mget (mput k v m) k' = (if k = k' then Some v else mget m k')"
  by (simp add: mget_def mput_def update_conv')

lemma mget_del: "\<not> nan_key k \<Longrightarrow> mget (mdel k m) k' = (if k = k' then None else mget m k')"
  by (simp add: mget_def mdel_def delete_conv')

lemma keys_mput: "\<not> nan_key k \<Longrightarrow> fst ` set (mput k v m) = insert k (fst ` set m)"
  by (simp add: mput_def dom_update)

lemma keys_mdel: "\<not> nan_key k \<Longrightarrow> fst ` set (mdel k m) = fst ` set m - {k}"
  by (simp add: mdel_def delete_keys [symmetric] AList.delete_eq) auto

lemma mget_None: "\<not> nan_key k \<Longrightarrow> mget m k = None \<longleftrightarrow> k \<notin> fst ` set m"
  by (simp add: mget_def map_of_eq_None_iff)

lemma mget_numbering:
  "distinct (map fst xs) \<Longrightarrow> (\<And>k. k \<in> fst ` set xs \<Longrightarrow> \<not> nan_key k) \<Longrightarrow> \<not> nan_key k \<Longrightarrow>
   mget (fold (\<lambda>(k, i) m. mput k i m) xs m) k = (case map_of xs k of Some i \<Rightarrow> Some i | None \<Rightarrow> mget m k)"
proof (induction xs arbitrary: m)
  case (Cons x xs)
  obtain k' i where x: "x = (k', i)" by force
  have "map_of xs k' = None" using Cons.prems x by (simp add: map_of_eq_None_iff)
  with Cons x show ?case by (auto simp: mget_put split: option.splits)
qed simp

lemma number_keys_get:
  assumes "distinct ks" "\<And>k. k \<in> set ks \<Longrightarrow> \<not> nan_key k" "\<not> nan_key k"
  shows "mget (number_keys ks) k = Some i \<longleftrightarrow> i < length ks \<and> ks ! i = k"
proof -
  let ?z = "zip ks [0..<length ks]"
  have f: "map fst ?z = ks" by simp
  have "fst ` set ?z = set ks" using f by (metis image_set)
  then have z: "fst ` set ?z = set ks" by simp
  have "mget (number_keys ks) k = (case map_of ?z k of Some i \<Rightarrow> Some i | None \<Rightarrow> mget [] k)"
    unfolding number_keys_def by (rule mget_numbering) (use assms z f in auto)
  then have "mget (number_keys ks) k = map_of ?z k" by (cases "map_of ?z k") (simp_all only: option.case mget_def map_of.simps if_cancel)
  moreover have "map_of ?z k = Some i \<longleftrightarrow> (k, i) \<in> set ?z" using assms(1) f by (intro map_of_eq_Some_iff) simp
  ultimately show ?thesis by (auto simp: in_set_zip)
qed

section \<open>The iteration order\<close>

text \<open>
  Live keys have a slot in the order that names them, every other entry of the index is a cursor to an
  empty slot.
\<close>

definition iter_inv :: "lvalue set \<Rightarrow> lvalue option list option \<Rightarrow> (lvalue \<times> nat) list \<Rightarrow> bool" where
  "iter_inv L keys m = (case keys of None \<Rightarrow> m = []
     | Some ks \<Rightarrow> (\<forall>k i. mget m k = Some i \<longrightarrow> i < length ks \<and> (ks ! i = Some k \<or> ks ! i = None)) \<and>
         (\<forall>i < length ks. \<forall>k. ks ! i = Some k \<longrightarrow> k \<in> L \<and> mget m k = Some i) \<and>
         (\<forall>k \<in> L. \<exists>i < length ks. mget m k = Some i \<and> ks ! i = Some k))"

lemma iter_inv_Some:
  assumes "iter_inv L (Some ks) m"
  shows "mget m k = Some i \<Longrightarrow> i < length ks" "mget m k = Some i \<Longrightarrow> ks ! i = Some k \<or> ks ! i = None"
    "i < length ks \<Longrightarrow> ks ! i = Some k \<Longrightarrow> k \<in> L" "i < length ks \<Longrightarrow> ks ! i = Some k \<Longrightarrow> mget m k = Some i"
    "k \<in> L \<Longrightarrow> \<exists>i < length ks. mget m k = Some i \<and> ks ! i = Some k"
proof -
  note inv = assms [unfolded iter_inv_def option.case]
  note A = conjunct1 [OF inv] and B = conjunct1 [OF conjunct2 [OF inv]] and C = conjunct2 [OF conjunct2 [OF inv]]
  show "mget m k = Some i \<Longrightarrow> i < length ks" using A by simp
  show "mget m k = Some i \<Longrightarrow> ks ! i = Some k \<or> ks ! i = None" using A by simp
  show "i < length ks \<Longrightarrow> ks ! i = Some k \<Longrightarrow> k \<in> L" using B by simp
  show "i < length ks \<Longrightarrow> ks ! i = Some k \<Longrightarrow> mget m k = Some i" using B by simp
  show "k \<in> L \<Longrightarrow> \<exists>i < length ks. mget m k = Some i \<and> ks ! i = Some k" by (rule C [rule_format])
qed

lemma iter_inv_SomeI:
  assumes "\<And>k i. mget m k = Some i \<Longrightarrow> i < length ks \<and> (ks ! i = Some k \<or> ks ! i = None)"
    and "\<And>k i. i < length ks \<Longrightarrow> ks ! i = Some k \<Longrightarrow> k \<in> L \<and> mget m k = Some i"
    and "\<And>k. k \<in> L \<Longrightarrow> \<exists>i < length ks. mget m k = Some i \<and> ks ! i = Some k"
  shows "iter_inv L (Some ks) m"
proof -
  have A: "\<forall>k i. mget m k = Some i \<longrightarrow> i < length ks \<and> (ks ! i = Some k \<or> ks ! i = None)"
    by (intro allI impI) (rule assms(1))
  have B: "\<forall>i < length ks. \<forall>k. ks ! i = Some k \<longrightarrow> k \<in> L \<and> mget m k = Some i"
    by (intro allI impI) (rule assms(2))
  have C: "\<forall>k \<in> L. \<exists>i < length ks. mget m k = Some i \<and> ks ! i = Some k" by (intro ballI) (rule assms(3))
  show ?thesis unfolding iter_inv_def option.case by (intro conjI A B C)
qed

lemma deleteIterationKey_frame [simp]:
  "Array (deleteIterationKey k t) = Array t" "Dict (deleteIterationKey k t) = Dict t"
  "Strdict (deleteIterationKey k t) = Strdict t" "Immutable (deleteIterationKey k t) = Immutable t"
  "sparseArrayHash (deleteIterationKey k t) = sparseArrayHash t" "Metatable (deleteIterationKey k t) = Metatable t"
  by (auto simp: deleteIterationKey_def Let_def split: option.splits)

lemma addIterationKey_frame [simp]:
  "Array (addIterationKey k t) = Array t" "Dict (addIterationKey k t) = Dict t"
  "Strdict (addIterationKey k t) = Strdict t" "Immutable (addIterationKey k t) = Immutable t"
  "sparseArrayHash (addIterationKey k t) = sparseArrayHash t" "Metatable (addIterationKey k t) = Metatable t"
  by (auto simp: addIterationKey_def Let_def split: option.splits prod.splits)

lemma forget_one_frame [simp]:
  "Array (forget_one k t) = Array t" "Dict (forget_one k t) = Dict t" "Keys (forget_one k t) = Keys t"
  "Strdict (forget_one k t) = Strdict t" "Immutable (forget_one k t) = Immutable t"
  "sparseArrayHash (forget_one k t) = sparseArrayHash t" "Metatable (forget_one k t) = Metatable t"
  by (auto simp: forget_one_def split: option.splits)

lemma forgetDeletedArrayKey_frame [simp]:
  "Array (forgetDeletedArrayKey k t) = Array t" "Dict (forgetDeletedArrayKey k t) = Dict t"
  "Keys (forgetDeletedArrayKey k t) = Keys t"
  "Strdict (forgetDeletedArrayKey k t) = Strdict t" "Immutable (forgetDeletedArrayKey k t) = Immutable t"
  "sparseArrayHash (forgetDeletedArrayKey k t) = sparseArrayHash t" "Metatable (forgetDeletedArrayKey k t) = Metatable t"
  by (auto simp: forgetDeletedArrayKey_def)

lemma iter_inv_delete:
  assumes inv: "iter_inv L (Keys t) (K2i t)" and nan: "\<not> nan_key k" "\<not> nan_key (iterationKey k)"
    and cursor: "iterationKey k = k \<or> iterationKey k \<notin> L"
  shows "iter_inv (L - {k}) (Keys (deleteIterationKey k t)) (K2i (deleteIterationKey k t))"
proof (cases "Keys t")
  case None
  then have "K2i t = []" using inv by (simp add: iter_inv_def)
  then show ?thesis using None by (simp add: deleteIterationKey_def mget_def iter_inv_def)
next
  case (Some ks)
  note I = iter_inv_Some [OF inv [unfolded Some]]
  show ?thesis
  proof (cases "mget (K2i t) k")
    case None
    then have "k \<notin> L" using I(5) [of k] by auto
    then show ?thesis using None inv by (simp add: deleteIterationKey_def)
  next
    case i: (Some i)
    have at: "j = i \<longleftrightarrow> k' = k" if "ks ! j = Some k'" "j < length ks" for j k'
      using I(2) [OF i] I(4) [OF that(2,1)] i that by auto
    let ?c = "iterationKey k"
    let ?m = "if ?c \<noteq> k then mput ?c i (mdel k (K2i t)) else K2i t"
    have m: "mget ?m k' = (if ?c \<noteq> k \<and> k' = ?c then Some i else if ?c \<noteq> k \<and> k' = k then None else mget (K2i t) k')" for k'
      using nan by (simp add: mget_put mget_del)
    have d: "Keys (deleteIterationKey k t) = Some (ks[i := None])" "K2i (deleteIterationKey k t) = ?m"
      using i Some by (simp_all add: deleteIterationKey_def Let_def)
    have upd: "ks[i := None] ! j = Some k' \<Longrightarrow> j < length ks \<Longrightarrow> j \<noteq> i \<and> ks ! j = Some k'" for j k'
      by (cases "j = i") auto
    have a: "mget ?m k' = Some j \<Longrightarrow> j < length (ks[i := None]) \<and> (ks[i := None] ! j = Some k' \<or> ks[i := None] ! j = None)" for k' j
      using I(1,2) [of k' j] I(1) [OF i] m [of k'] by (auto split: if_splits simp: nth_list_update)
    have b: "j < length (ks[i := None]) \<Longrightarrow> ks[i := None] ! j = Some k' \<Longrightarrow> k' \<in> L - {k} \<and> mget ?m k' = Some j" for k' j
      using I(3,4) [of j k'] at [of j k'] m [of k'] cursor upd [of j k'] by auto
    have c: "\<exists>j < length (ks[i := None]). mget ?m k' = Some j \<and> ks[i := None] ! j = Some k'" if "k' \<in> L - {k}" for k'
    proof -
      from that I(5) obtain j where j: "j < length ks" "mget (K2i t) k' = Some j" "ks ! j = Some k'" by blast
      with at [of j k'] that m [of k'] cursor show ?thesis by (intro exI [of _ j]) auto
    qed
    show ?thesis unfolding d by (rule iter_inv_SomeI [OF a b c])
  qed
qed

lemma live_keys_in: "k \<in> set (live_keys ks) \<longleftrightarrow> Some k \<in> set ks"
  by (auto simp: live_keys_def image_iff)

lemma live_keys_distinct: "(\<And>i j k. i < length ks \<Longrightarrow> j < length ks \<Longrightarrow> ks ! i = Some k \<Longrightarrow> ks ! j = Some k \<Longrightarrow> i = j) \<Longrightarrow> distinct (live_keys ks)"
proof (induction ks)
  case (Cons x ks)
  have "distinct (live_keys ks)"
  proof (rule Cons.IH)
    fix i j k assume "i < length ks" "j < length ks" "ks ! i = Some k" "ks ! j = Some k"
    then show "i = j" using Cons.prems [of "Suc i" "Suc j" k] by simp
  qed
  moreover have "y \<notin> set (live_keys ks)" if "x = Some y" for y
  proof
    assume "y \<in> set (live_keys ks)"
    then have "Some y \<in> set ks" by (simp add: live_keys_in)
    then obtain j where "j < length ks" "ks ! j = Some y" by (auto simp: in_set_conv_nth)
    then show False using Cons.prems [of 0 "Suc j" y] that by simp
  qed
  ultimately show ?case by (cases x) (simp_all add: live_keys_def)
qed (simp add: live_keys_def)

lemma iter_inv_fresh_order:
  assumes "distinct ks" "\<And>k. k \<in> set ks \<Longrightarrow> \<not> nan_key k" "set ks = L"
  shows "iter_inv L (Some (map Some ks)) (number_keys ks)"
proof -
  have nan: "mget (number_keys ks) k = Some i \<Longrightarrow> \<not> nan_key k" for k i by (auto simp: mget_def)
  have "mget (number_keys ks) k = Some i \<longleftrightarrow> i < length ks \<and> ks ! i = k" if "\<not> nan_key k" for k i
    using number_keys_get [OF assms(1,2) that] .
  with nan assms show ?thesis by (force simp: iter_inv_def in_set_conv_nth)
qed

lemma iter_inv_add_Some:
  assumes inv: "iter_inv L (Some ks) m" and nan: "\<not> nan_key k"
    and old: "\<And>i. mget m k = Some i \<Longrightarrow> ks ! i = None"
  shows "iter_inv (insert k L) (Some (ks @ [Some k])) (mput k (length ks) m)"
proof -
  note I = iter_inv_Some [OF inv]
  let ?ks = "ks @ [Some k]"
  let ?m = "mput k (length ks) m"
  have m: "mget ?m k' = (if k' = k then Some (length ks) else mget m k')" for k' using nan by (simp add: mget_put)
  have unused: "ks ! j \<noteq> Some k" if "j < length ks" for j using I(4) [OF that, of k] old [of j] by auto
  have a: "mget ?m k' = Some j \<Longrightarrow> j < length ?ks \<and> (?ks ! j = Some k' \<or> ?ks ! j = None)" for k' j
    using I(1,2) [of k' j] m [of k'] by (auto simp: nth_append less_SucI split: if_splits)
  have b: "j < length ?ks \<Longrightarrow> ?ks ! j = Some k' \<Longrightarrow> k' \<in> insert k L \<and> mget ?m k' = Some j" for k' j
    using I(3,4) [of j k'] m [of k'] unused [of j] by (auto simp: nth_append less_Suc_eq split: if_splits)
  have c: "\<exists>j < length ?ks. mget ?m k' = Some j \<and> ?ks ! j = Some k'" if "k' \<in> insert k L" for k'
  proof (cases "k' = k")
    case True
    then show ?thesis using m [of k'] by (intro exI [of _ "length ks"]) simp
  next
    case False
    with that I(5) obtain j where "j < length ks" "mget m k' = Some j" "ks ! j = Some k'" by blast
    with False m [of k'] show ?thesis by (intro exI [of _ j]) (simp add: nth_append)
  qed
  show ?thesis by (rule iter_inv_SomeI [OF a b c])
qed

lemma iter_inv_live_keys:
  assumes inv: "iter_inv L (Some ks) m"
  shows "distinct (live_keys ks)" "set (live_keys ks) = L"
proof -
  note I = iter_inv_Some [OF inv]
  show "distinct (live_keys ks)"
  proof (rule live_keys_distinct)
    fix i j k assume "i < length ks" "j < length ks" "ks ! i = Some k" "ks ! j = Some k"
    then show "i = j" using I(4) [of i k] I(4) [of j k] by simp
  qed
  show "set (live_keys ks) = L"
  proof (intro set_eqI iffI)
    fix k assume "k \<in> set (live_keys ks)"
    then have "Some k \<in> set ks" by (simp add: live_keys_in)
    then show "k \<in> L" using I(3) by (auto simp: in_set_conv_nth)
  next
    fix k assume "k \<in> L"
    then have "Some k \<in> set ks" using I(5) [of k] by (metis nth_mem)
    then show "k \<in> set (live_keys ks)" by (simp add: live_keys_in)
  qed
qed

lemma iter_inv_add:
  assumes inv: "iter_inv L (Keys t) (K2i t)" and nan: "\<not> nan_key k" "\<And>x. x \<in> L \<Longrightarrow> \<not> nan_key x"
  shows "iter_inv (insert k L) (Keys (addIterationKey k t)) (K2i (addIterationKey k t))"
proof (cases "Keys t")
  case None
  then show ?thesis using inv by (simp add: addIterationKey_def iter_inv_def)
next
  case (Some ks)
  note inv = inv [unfolded Some]
  note I = iter_inv_Some [OF inv]
  let ?in = "case mget (K2i t) k of Some index \<Rightarrow> ks ! index \<noteq> None | None \<Rightarrow> False"
  let ?n = "length (strs t) + length (dict t)"
  let ?compact = "length ks > ?n \<and> length ks - ?n \<ge> ?n"
  let ?ks = "if ?compact then map Some (live_keys ks) else ks"
  let ?m = "if ?compact then number_keys (live_keys ks) else K2i t"
  show ?thesis
  proof (cases ?in)
    case True
    then obtain i where i: "mget (K2i t) k = Some i" "ks ! i \<noteq> None" by (auto split: option.splits)
    with I(1,2) [OF i(1)] I(3) [of i k] have "k \<in> L" by auto
    then show ?thesis using True Some inv by (simp add: addIterationKey_def insert_absorb)
  next
    case False
    have out: "ks ! i = None" if "mget (K2i t) k = Some i" for i using that False by simp
    have k: "k \<notin> L" using I(5) [of k] out by force
    have e: "Keys (addIterationKey k t) = Some (?ks @ [Some k])" "K2i (addIterationKey k t) = mput k (length ?ks) ?m"
      using False Some by (simp_all add: addIterationKey_def Let_def)
    have inv': "iter_inv L (Some ?ks) ?m"
      using inv iter_inv_fresh_order [OF iter_inv_live_keys(1) [OF inv] _ iter_inv_live_keys(2) [OF inv]] nan(2)
        iter_inv_live_keys(2) [OF inv] by auto
    have "?ks ! i = None" if "mget ?m k = Some i" for i
      using iter_inv_Some(1,2,3) [OF inv'] that k by blast
    then show ?thesis unfolding e by (rule iter_inv_add_Some [OF inv' nan(1)])
  qed
qed

lemma mget_forget_one:
  "\<not> nan_key c \<Longrightarrow> mget (K2i (forget_one c t)) k =
     (if k = c \<and> (\<exists>i. mget (K2i t) c = Some i \<and> slice (Keys t) ! i = None) then None else mget (K2i t) k)"
  by (auto simp: forget_one_def mget_del split: option.splits)

lemma iter_inv_forget_one:
  assumes inv: "iter_inv L (Keys t) (K2i t)" and nan: "\<not> nan_key c"
  shows "iter_inv L (Keys (forget_one c t)) (K2i (forget_one c t))"
proof (cases "Keys t")
  case None
  then show ?thesis using inv by (auto simp: iter_inv_def forget_one_def mget_def)
next
  case (Some ks)
  note I = iter_inv_Some [OF inv [unfolded Some]]
  have m: "mget (K2i (forget_one c t)) k = (if k = c \<and> (\<exists>i. mget (K2i t) c = Some i \<and> ks ! i = None) then None else mget (K2i t) k)" for k
    using mget_forget_one [OF nan] Some by simp
  have a: "i < length ks \<and> (ks ! i = Some k \<or> ks ! i = None)" if "mget (K2i (forget_one c t)) k = Some i" for k i
  proof -
    from that m [of k] have "mget (K2i t) k = Some i" by (simp split: if_splits)
    from I(1) [OF this] I(2) [OF this] show ?thesis by simp
  qed
  have b: "k \<in> L \<and> mget (K2i (forget_one c t)) k = Some i" if "i < length ks" "ks ! i = Some k" for k i
    using I(3,4) [OF that] m [of k] that by auto
  have c: "\<exists>i < length ks. mget (K2i (forget_one c t)) k = Some i \<and> ks ! i = Some k" if "k \<in> L" for k
    using I(5) [OF that] b by blast
  show ?thesis unfolding forget_one_frame(3) Some by (rule iter_inv_SomeI [OF a b c])
qed

lemma iter_inv_forget:
  assumes "iter_inv L (Keys t) (K2i t)"
  shows "iter_inv L (Keys (forgetDeletedArrayKey n t)) (K2i (forgetDeletedArrayKey n t))"
proof -
  have "iter_inv L (Keys (forget_one (LInteger n) (forget_one (LNumber (int_to_float n)) t)))
      (K2i (forget_one (LInteger n) (forget_one (LNumber (int_to_float n)) t)))"
    by (intro iter_inv_forget_one assms) (simp_all add: int_to_float_def)
  with assms show ?thesis unfolding forgetDeletedArrayKey_def by (auto split: if_split)
qed

end
