(* ===== verification/TableSlots.thy ===== *)
theory TableSlots
  imports TableOrder
begin

text \<open>
  The Lua key behind a map key, and the hash part of a table as a map from those: which map key a
  Lua key gets, and what storing and deleting it does.
\<close>

section \<open>Slots\<close>

text \<open>
  The Lua key behind a map key. Keys that are equal in Lua (a float and the integer of
  the same value, a native function and its wrapper) have the same slot.
\<close>

datatype slot = ArrayKey int | StrKey string | NativeKey nat | OtherKey lvalue

definition slot_of :: "lvalue \<Rightarrow> slot" where
  "slot_of k = (case numericTableKey k of
      LNumber f \<Rightarrow> if isArrayKey f then ArrayKey (float_to_int f) else OtherKey (LNumber f)
    | LString s \<Rightarrow> StrKey s
    | LGoFunc c \<Rightarrow> NativeKey c
    | LFunction a nk c \<Rightarrow> if nk then NativeKey c else OtherKey (LFunction a nk c)
    | k \<Rightarrow> OtherKey k)"

text \<open>The keys that occur in the hash part.\<close>

fun dict_key :: "lvalue \<Rightarrow> bool" where
  "dict_key (LInteger i) \<longleftrightarrow> i \<le> 0 \<or> i \<ge> MaxArrayIndex"
| "dict_key (LNumber f) \<longleftrightarrow> f \<noteq> FNaN \<and> (\<forall>i. floatToInteger f = Some i \<longrightarrow> 0 < i \<and> i < MaxArrayIndex)"
| "dict_key (LBool _) \<longleftrightarrow> True"
| "dict_key (LFunction _ _ _) \<longleftrightarrow> True"
| "dict_key (LRef _ _) \<longleftrightarrow> True"
| "dict_key _ \<longleftrightarrow> False"

text \<open>The keys that a Lua program can use.\<close>

fun lua_key :: "lvalue \<Rightarrow> bool" where
  "lua_key LNil \<longleftrightarrow> False"
| "lua_key (LNumber f) \<longleftrightarrow> f \<noteq> FNaN"
| "lua_key (LFunction _ nk _) \<longleftrightarrow> \<not> nk"
| "lua_key (iterationPointerKey _ _) \<longleftrightarrow> False"
| "lua_key (nativeFunctionCursor _) \<longleftrightarrow> False"
| "lua_key _ \<longleftrightarrow> True"

lemma small_int64: "\<bar>n\<bar> < 9007199254740992 \<Longrightarrow> is_int64 n"
  by (simp add: is_int64_def abs_less_iff)

lemma float_to_int_float [simp]: "\<bar>n\<bar> < 9007199254740992 \<Longrightarrow> float_to_int (int_to_float n) = n"
  by (simp add: int_to_float_small small_int64)

lemma isArrayKey_float [simp]:
  "\<bar>n\<bar> < 9007199254740992 \<Longrightarrow> isArrayKey (int_to_float n) \<longleftrightarrow> 0 < n \<and> n < MaxArrayIndex"
  by (simp add: isArrayKey_def) (simp add: int_to_float_small)

lemma floatToInteger_float:
  assumes "\<bar>n\<bar> < 9007199254740992"
  shows "floatToInteger (int_to_float n) = Some n"
proof -
  have "(of_int (- 9223372036854775808) :: rat) \<le> of_int n" "(of_int n :: rat) < of_int 9223372036854775808"
    using assms by (simp_all only: of_int_le_iff of_int_less_iff)
  then have "float_in_int64 (int_to_float n)" using assms by (simp add: int_to_float_small)
  with assms show ?thesis by (simp add: floatToInteger_def) (simp add: int_to_float_small)
qed

lemma isArrayKey_floatToInteger: "isArrayKey f \<longleftrightarrow> (\<exists>i. floatToInteger f = Some i \<and> 0 < i \<and> i < MaxArrayIndex)"
proof
  assume "isArrayKey f"
  then obtain k where k: "0 < k" "k < MaxArrayIndex" "f = FFin (of_int k)" by (auto simp: isArrayKey_iff)
  then show "\<exists>i. floatToInteger f = Some i \<and> 0 < i \<and> i < MaxArrayIndex"
    using floatToInteger_float [of k] by (simp add: int_to_float_small)
next
  assume "\<exists>i. floatToInteger f = Some i \<and> 0 < i \<and> i < MaxArrayIndex"
  then obtain i where i: "floatToInteger f = Some i" "0 < i" "i < MaxArrayIndex" by blast
  from floatToInteger_Some [OF i(1)] i show "isArrayKey f" by auto
qed

lemma isArrayKey_float_to_int: "isArrayKey f \<Longrightarrow> f = int_to_float (float_to_int f) \<and> 0 < float_to_int f \<and> float_to_int f < MaxArrayIndex"
  by (auto simp: isArrayKey_def Let_def int_to_float_small)

text \<open>The map key of a position of the array.\<close>

abbreviation akey :: "int \<Rightarrow> lvalue" where "akey n \<equiv> LNumber (int_to_float n)"

lemma numericTableKey_dict: "dict_key k \<Longrightarrow> numericTableKey k = k"
  by (cases k) (auto simp: numericTableKey_def split: option.splits)

lemma numericTableKey_akey: "0 < n \<Longrightarrow> n < MaxArrayIndex \<Longrightarrow> numericTableKey (akey n) = akey n"
  by (simp add: numericTableKey_def floatToInteger_float)

lemma slot_of_akey: "0 < n \<Longrightarrow> n < MaxArrayIndex \<Longrightarrow> slot_of (akey n) = ArrayKey n"
  by (simp add: slot_of_def numericTableKey_akey)

lemma slot_of_Integer: "slot_of (LInteger i) = (if 0 < i \<and> i < MaxArrayIndex then ArrayKey i else OtherKey (LInteger i))"
  by (simp add: slot_of_def numericTableKey_def)

lemma dict_key_numeric: "lua_key k \<Longrightarrow> (\<exists>i. k = LInteger i) \<or> (\<exists>f. k = LNumber f) \<Longrightarrow>
    dict_key (numericTableKey k) \<and> slot_of (numericTableKey k) = slot_of k"
proof -
  assume k: "lua_key k" "(\<exists>i. k = LInteger i) \<or> (\<exists>f. k = LNumber f)"
  have d: "dict_key (numericTableKey k)"
  proof (cases k)
    case (LInteger i)
    then show ?thesis using floatToInteger_float [of i] by (auto simp: numericTableKey_def) (simp add: int_to_float_def)
  qed (use k in \<open>auto simp: numericTableKey_def split: option.splits\<close>)
  then show ?thesis by (simp add: slot_of_def numericTableKey_dict)
qed

lemma slot_of_inj:
  assumes "dict_key a" "dict_key b" "slot_of a = slot_of b" "nativeFunctionID a = None \<or> nativeFunctionID b = None"
  shows "a = b"
  using assms numericTableKey_dict [of a] numericTableKey_dict [of b]
  by (cases a; cases b) (auto simp: slot_of_def split: if_splits, metis isArrayKey_float_to_int)

lemma slot_of_native: "dict_key a \<Longrightarrow> nativeFunctionID a = Some c \<longleftrightarrow> slot_of a = NativeKey c"
  using numericTableKey_dict [of a] by (cases a) (auto simp: slot_of_def split: if_splits)

section \<open>The hash part as a map from slots\<close>

definition hmap :: "(lvalue \<times> lvalue) list \<Rightarrow> slot \<Rightarrow> lvalue option" where
  "hmap D = map_of (map (\<lambda>(k, v). (slot_of k, v)) D)"

definition dict_ok :: "(lvalue \<times> lvalue) list \<Rightarrow> bool" where
  "dict_ok D \<longleftrightarrow> distinct (map (\<lambda>(k, _). slot_of k) D) \<and> (\<forall>(k, v) \<in> set D. dict_key k \<and> v \<noteq> LNil)"

text \<open>No other key of the map has the slot of this one.\<close>

definition sole :: "lvalue \<Rightarrow> (lvalue \<times> lvalue) list \<Rightarrow> bool" where
  "sole k D \<longleftrightarrow> (\<forall>k' \<in> fst ` set D. slot_of k' = slot_of k \<longrightarrow> k' = k)"

lemma dict_ok_Nil: "dict_ok []"
  by (simp add: dict_ok_def)

lemma hmap_None: "hmap D s = None \<longleftrightarrow> (\<forall>k \<in> fst ` set D. slot_of k \<noteq> s)"
  unfolding hmap_def map_of_eq_None_iff by (force simp: case_prod_unfold)

lemma dict_ok_Cons: "dict_ok ((k, v) # D) \<longleftrightarrow> dict_key k \<and> v \<noteq> LNil \<and> hmap D (slot_of k) = None \<and> dict_ok D"
  by (auto simp: dict_ok_def hmap_None image_iff case_prod_unfold eq_commute [of "slot_of k"])

lemma hmap_Cons: "hmap ((k, v) # D) = (hmap D)(slot_of k \<mapsto> v)"
  by (simp add: hmap_def)

lemma hmap_Nil: "hmap [] = Map.empty"
  by (simp add: hmap_def)

lemma dict_ok_key: "dict_ok D \<Longrightarrow> k \<in> fst ` set D \<Longrightarrow> dict_key k"
  by (auto simp: dict_ok_def)

lemma dict_key_nan: "dict_key k \<Longrightarrow> \<not> nan_key k"
  by auto

lemma hmap_value: "dict_ok D \<Longrightarrow> hmap D s = Some v \<Longrightarrow> v \<noteq> LNil"
  by (force simp: dict_ok_def hmap_def dest!: map_of_SomeD)

lemma dict_ok_same_slot:
  "dict_ok D \<Longrightarrow> k \<in> fst ` set D \<Longrightarrow> k' \<in> fst ` set D \<Longrightarrow> slot_of k = slot_of k' \<Longrightarrow> k = k'"
proof (induction D)
  case (Cons x D)
  obtain a v where x: "x = (a, v)" by force
  have ok: "dict_ok D" and none: "\<forall>b \<in> fst ` set D. slot_of b \<noteq> slot_of a"
    using Cons.prems(1) by (simp_all add: x dict_ok_Cons hmap_None)
  show ?case
  proof (cases "k = a \<or> k' = a")
    case True
    then show ?thesis using Cons.prems(2-4) none by (auto simp: x)
  next
    case False
    then show ?thesis using Cons.IH [OF ok] Cons.prems(2-4) by (auto simp: x)
  qed
qed simp

lemma mget_hmap: "dict_ok D \<Longrightarrow> dict_key k \<Longrightarrow> sole k D \<Longrightarrow> mget D k = hmap D (slot_of k)"
proof (induction D)
  case Nil
  then show ?case by (simp add: mget_def hmap_Nil)
next
  case (Cons x D)
  obtain a v where x: "x = (a, v)" by force
  have IH: "mget D k = hmap D (slot_of k)" using Cons by (simp add: x dict_ok_Cons sole_def)
  have "slot_of a = slot_of k \<longleftrightarrow> a = k" using Cons.prems(3) by (auto simp: x sole_def)
  then show ?case using IH dict_key_nan [OF Cons.prems(2)] by (auto simp: x hmap_Cons mget_def)
qed

lemma hmap_mput:
  assumes "dict_ok D" "dict_key k" "sole k D" "v \<noteq> LNil"
  shows "hmap (mput k v D) = (hmap D)(slot_of k \<mapsto> v) \<and> dict_ok (mput k v D)"
proof -
  have nan: "\<not> nan_key k" by (rule dict_key_nan [OF assms(2)])
  have "hmap (AList.update k v D) = (hmap D)(slot_of k \<mapsto> v) \<and> dict_ok (AList.update k v D)"
    using assms
  proof (induction D)
    case Nil
    then show ?case by (simp add: hmap_Cons hmap_Nil dict_ok_Cons dict_ok_Nil)
  next
    case (Cons x D)
    obtain a w where x: "x = (a, w)" by force
    have s: "slot_of a = slot_of k \<longleftrightarrow> a = k" using Cons.prems(3) by (auto simp: x sole_def)
    have "hmap (AList.update k v D) = (hmap D)(slot_of k \<mapsto> v) \<and> dict_ok (AList.update k v D)"
      by (rule Cons.IH) (use Cons.prems in \<open>auto simp: x dict_ok_Cons sole_def\<close>)
    then show ?case using s Cons.prems by (auto simp: x hmap_Cons dict_ok_Cons fun_eq_iff)
  qed
  then show ?thesis using nan by (simp add: mput_def)
qed

lemma hmap_mdel:
  assumes "dict_ok D" "sole k D" "\<not> nan_key k"
  shows "hmap (mdel k D) = (hmap D)(slot_of k := None) \<and> dict_ok (mdel k D)"
proof -
  have "hmap (AList.delete k D) = (hmap D)(slot_of k := None) \<and> dict_ok (AList.delete k D)"
    using assms
  proof (induction D)
    case Nil
    then show ?case by (simp add: hmap_Nil dict_ok_Nil)
  next
    case (Cons x D)
    obtain a w where x: "x = (a, w)" by force
    have s: "slot_of a = slot_of k \<longleftrightarrow> a = k" using Cons.prems(2) by (auto simp: x sole_def)
    have "hmap (AList.delete k D) = (hmap D)(slot_of k := None) \<and> dict_ok (AList.delete k D)"
      by (rule Cons.IH) (use Cons.prems in \<open>auto simp: x dict_ok_Cons sole_def\<close>)
    then show ?case using s Cons.prems by (auto simp: x hmap_Cons dict_ok_Cons fun_eq_iff)
  qed
  then show ?thesis using assms by (simp add: mdel_def)
qed

text \<open>The map key chosen for a Lua key.\<close>

lemma tableKey_numeric: "(\<exists>i. key = LInteger i) \<or> (\<exists>f. key = LNumber f) \<Longrightarrow> tableKey fresh t key create = numericTableKey key"
  by (auto simp: tableKey_def)

lemma sole_not_native: "dict_ok D \<Longrightarrow> dict_key k \<Longrightarrow> nativeFunctionID k = None \<Longrightarrow> sole k D"
  using slot_of_inj [of _ k] dict_ok_key [of D] by (auto simp: sole_def)

lemma sole_member: "dict_ok D \<Longrightarrow> k \<in> fst ` set D \<Longrightarrow> sole k D"
  unfolding sole_def using dict_ok_same_slot by blast

lemma tableKey_spec:
  assumes ok: "dict_ok (dict t)" and key: "lua_key key" "\<And>s. key \<noteq> LString s"
  shows "sole (tableKey fresh t key create) (dict t) \<and> \<not> nan_key (tableKey fresh t key create) \<and>
    (dict_key (tableKey fresh t key create) \<and> slot_of (tableKey fresh t key create) = slot_of key \<or>
     \<not> create \<and> hmap (dict t) (slot_of key) = None \<and> (\<exists>c. tableKey fresh t key create = nativeFunctionCursor c))"
proof -
  consider (num) "(\<exists>i. key = LInteger i) \<or> (\<exists>f. key = LNumber f)" | (fn) c where "key = LGoFunc c" |
    (other) "dict_key key" "nativeFunctionID key = None" "\<And>fresh create. tableKey fresh t key create = key"
    using key by (cases key) (auto simp: tableKey_def)
  then show ?thesis
  proof cases
    case num
    have "nativeFunctionID (numericTableKey key) = None"
      using num by (auto simp: numericTableKey_def split: option.splits)
    then show ?thesis using dict_key_numeric [OF key(1) num] sole_not_native [OF ok] dict_key_nan
      by (simp add: tableKey_numeric [OF num])
  next
    case fn
    have sk: "slot_of key = NativeKey c" by (simp add: fn slot_of_def numericTableKey_def)
    show ?thesis
    proof (cases "find (\<lambda>k. nativeFunctionID k = Some c) (map fst (dict t))")
      case None
      then have no: "nativeFunctionID k \<noteq> Some c" if "k \<in> fst ` set (dict t)" for k
        using that by (auto simp: find_None_iff)
      then have n: "hmap (dict t) (NativeKey c) = None"
        using slot_of_native [OF dict_ok_key [OF ok]] by (force simp: hmap_None)
      have d: "slot_of (nativeFunctionCursor c) = OtherKey (nativeFunctionCursor c)"
        "slot_of (LFunction fresh True c) = NativeKey c" by (simp_all add: slot_of_def numericTableKey_def)
      have c: "slot_of k \<noteq> OtherKey (nativeFunctionCursor c)" if "k \<in> fst ` set (dict t)" for k
        using dict_ok_key [OF ok that] numericTableKey_dict [of k] by (cases k) (auto simp: slot_of_def split: if_splits)
      have e: "tableKey fresh t key create = (if create then LFunction fresh True c else nativeFunctionCursor c)"
        using None by (simp add: tableKey_def fn)
      show ?thesis
      proof (cases create)
        case True
        then show ?thesis unfolding e using n d sk by (auto simp: sole_def hmap_None)
      next
        case False
        then show ?thesis unfolding e using n d sk c by (auto simp: sole_def)
      qed
    next
      case (Some k)
      then have k: "k \<in> fst ` set (dict t)" "nativeFunctionID k = Some c"
        by (auto simp: find_Some_iff in_set_conv_nth image_iff) (metis nth_mem)
      have "tableKey fresh t key create = k" using Some by (simp add: tableKey_def fn)
      then show ?thesis using sole_member [OF ok k(1)] slot_of_native [OF dict_ok_key [OF ok k(1)], of c] k(2) sk
          dict_ok_key [OF ok k(1)] dict_key_nan by simp
    qed
  next
    case other
    then show ?thesis using sole_not_native [OF ok] dict_key_nan by simp
  qed
qed

end
