(* ===== verification/TableMap.thy ===== *)
theory TableMap
  imports TableSlots
begin

text \<open>
  Reads and writes of a table are those of a finite map from Lua keys, wherever the array and the hash
  part keep a value; \<open>Len\<close> is a border, and the list operations shift the elements.
\<close>

section \<open>The invariant\<close>

definition live :: "ltable \<Rightarrow> lvalue set" where
  "live t = LString ` fst ` set (strs t) \<union> fst ` set (dict t)"

definition base_ok :: "ltable \<Rightarrow> bool" where
  "base_ok t \<longleftrightarrow> dict_ok (dict t) \<and>
     distinct (map fst (strs t)) \<and> LNil \<notin> snd ` set (strs t) \<and>
     (\<forall>n. hmap (dict t) (ArrayKey n) \<noteq> None \<longrightarrow> int (length (arr t)) < n) \<and>
     iter_inv (live t) (Keys t) (K2i t) \<and>
     (\<forall>n. 0 < n \<and> n \<le> int (length (arr t)) \<longrightarrow> mget (K2i t) (akey n) = None) \<and>
     int (length (arr t)) < MaxArrayIndex"

text \<open>The value that a table has for a slot.\<close>

definition content :: "ltable \<Rightarrow> slot \<Rightarrow> lvalue" where
  "content t s =
     (let h = (case hmap (dict t) s of Some v \<Rightarrow> v | None \<Rightarrow> LNil) in
      case s of
        StrKey x \<Rightarrow> (case map_of (strs t) x of Some v \<Rightarrow> v | None \<Rightarrow> LNil)
      | ArrayKey n \<Rightarrow> if 0 < n \<and> n \<le> int (length (arr t)) then arr t ! nat (n - 1) else h
      | _ \<Rightarrow> h)"

lemma base_okD:
  assumes "base_ok t"
  shows "dict_ok (dict t)" "distinct (map fst (strs t))" "LNil \<notin> snd ` set (strs t)"
    "hmap (dict t) (ArrayKey n) \<noteq> None \<Longrightarrow> int (length (arr t)) < n"
    "iter_inv (live t) (Keys t) (K2i t)"
    "0 < n \<Longrightarrow> n \<le> int (length (arr t)) \<Longrightarrow> mget (K2i t) (akey n) = None"
    "int (length (arr t)) < MaxArrayIndex"
  using assms unfolding base_ok_def by blast+

lemma akey_nan: "\<not> nan_key (akey n)"
  by (simp add: int_to_float_def)

lemma live_nan: "base_ok t \<Longrightarrow> x \<in> live t \<Longrightarrow> \<not> nan_key x"
  using dict_ok_key [OF base_okD(1), of t x] dict_key_nan [of x] unfolding live_def by blast

lemma iterationKey_cases: "iterationKey k = k \<or> \<not> dict_key (iterationKey k) \<and> iterationKey k \<notin> range LString"
  by (cases k) auto

lemma cursor_not_live: "base_ok t \<Longrightarrow> iterationKey k = k \<or> iterationKey k \<notin> live t"
  using dict_ok_key [OF base_okD(1), of t "iterationKey k"] iterationKey_cases [of k] by (auto simp only: live_def)

lemma iterationKey_nan: "\<not> nan_key k \<Longrightarrow> \<not> nan_key (iterationKey k)"
  by (cases k) auto

lemma iterationKey_number: "iterationKey k = LNumber f \<Longrightarrow> k = LNumber f"
  by (cases k) (auto split: if_splits)

text \<open>Which array positions the index may name after a change.\<close>

lemma delete_index:
  assumes "\<not> nan_key k" "mget (K2i (deleteIterationKey k t)) (LNumber f) = Some i"
  shows "mget (K2i t) (LNumber f) = Some i"
  using assms iterationKey_number [of k f] iterationKey_nan [OF assms(1)]
  by (auto simp: deleteIterationKey_def Let_def mget_put mget_del split: option.splits if_splits)

lemma add_index:
  assumes inv: "iter_inv L (Keys t) (K2i t)" and nan: "\<not> nan_key k" "\<And>x. x \<in> L \<Longrightarrow> \<not> nan_key x"
    and n: "mget (K2i t) k' = None" and ne: "k' \<noteq> k"
  shows "mget (K2i (addIterationKey k t)) k' = None"
proof (cases "Keys t")
  case None
  then show ?thesis using n by (simp add: addIterationKey_def)
next
  case (Some ks)
  note I = iter_inv_Some [OF inv [unfolded Some]] and lk = iter_inv_live_keys [OF inv [unfolded Some]]
  have "k' \<notin> set (live_keys ks)" using I(5) [of k'] n lk(2) by auto
  then have "mget (number_keys (live_keys ks)) k' \<noteq> Some i" for i
    using number_keys_get [OF lk(1), of k' i] nan(2) lk(2) by (cases "nan_key k'") (auto simp: mget_def)
  then have "mget (number_keys (live_keys ks)) k' = None" by (simp only: not_None_eq [symmetric] not_Some_eq [symmetric]) simp
  then show ?thesis using Some n ne nan(1) by (auto simp: addIterationKey_def Let_def mget_put split: option.splits)
qed


text \<open>A table whose hash parts changed and whose array part did not.\<close>

lemma base_ok_hash:
  assumes ok: "base_ok t" and arr: "arr t' = arr t"
    and d: "dict_ok (dict t')" "distinct (map fst (strs t'))" "LNil \<notin> snd ` set (strs t')"
    and new: "\<And>n. hmap (dict t') (ArrayKey n) \<noteq> None \<Longrightarrow> hmap (dict t) (ArrayKey n) \<noteq> None \<or> int (length (arr t)) < n"
    and inv: "iter_inv (live t') (Keys t') (K2i t')"
    and idx: "\<And>n. 0 < n \<Longrightarrow> n \<le> int (length (arr t)) \<Longrightarrow> mget (K2i t') (akey n) = None"
  shows "base_ok t'"
  unfolding base_ok_def arr using base_okD(4,7) [OF ok] d new inv idx by blast

lemma releaseEmptySparseHash_frame [simp]:
  "Array (releaseEmptySparseHash t) = Array t" "dict (releaseEmptySparseHash t) = dict t"
  "Strdict (releaseEmptySparseHash t) = Strdict t" "Immutable (releaseEmptySparseHash t) = Immutable t"
  "Keys (releaseEmptySparseHash t) = Keys t" "K2i (releaseEmptySparseHash t) = K2i t"
  "Metatable (releaseEmptySparseHash t) = Metatable t"
  by (auto simp: releaseEmptySparseHash_def)

lemma slice_map [simp]: "slice (map_option (mdel k) x) = mdel k (slice x)"
  by (cases x) (simp_all add: mdel_def)

lemma RawSetH_cases:
  assumes "\<not> Immutable t" "\<And>s. key \<noteq> LString s"
  shows "RawSetH fresh key value t =
    (let key = tableKey fresh t key (value \<noteq> LNil) in
     if value = LNil then
       (True, releaseEmptySparseHash (deleteIterationKey key (t\<lparr>Dict := map_option (mdel key) (Dict t)\<rparr>)))
     else (True, let t = addIterationKey key (t\<lparr>sparseArrayHash := False, Dict := Some (dict t)\<rparr>)
             in t\<lparr>Dict := Some (mput key value (dict t))\<rparr>))"
  using assms(1) assms(2) [of "case key of LString s \<Rightarrow> s | _ \<Rightarrow> []"] by (cases key) (simp_all add: RawSetH_def)

text \<open>What a write to the hash part does, for a key that is not a position of the array part.\<close>

lemma RawSetH_ok:
  fixes v :: lvalue and fresh :: nat
  assumes ok: "base_ok t" and imm: "\<not> Immutable t" and key: "lua_key key" "\<And>s. key \<noteq> LString s"
    and pos: "\<And>n. slot_of key = ArrayKey n \<Longrightarrow> int (length (arr t)) < n"
  defines "t' \<equiv> snd (RawSetH fresh key v t)"
  shows "base_ok t' \<and> Array t' = Array t \<and> strs t' = strs t \<and> \<not> Immutable t' \<and> fst (RawSetH fresh key v t) \<and>
    hmap (dict t') = (hmap (dict t))(slot_of key := if v = LNil then None else Some v)"
proof -
  define k where "k = tableKey fresh t key (v \<noteq> LNil)"
  note spec = tableKey_spec [OF base_okD(1) [OF ok] key, of fresh "v \<noteq> LNil", folded k_def]
  have sole: "sole k (dict t)" and nan: "\<not> nan_key k" using spec by blast+
  note c = RawSetH_cases [OF imm key(2), of fresh v, unfolded Let_def k_def [symmetric]]
  show ?thesis
  proof (cases "v = LNil")
    case True
    let ?u = "t\<lparr>Dict := map_option (mdel k) (Dict t)\<rparr>"
    have t': "t' = releaseEmptySparseHash (deleteIterationKey k ?u)" using c True by (simp add: t'_def)
    have D: "dict t' = mdel k (dict t)" and S: "strs t' = strs t" and A: "Array t' = Array t" by (simp_all add: t')
    note h = hmap_mdel [OF base_okD(1) [OF ok] sole nan]
    have slot: "hmap (dict t') = (hmap (dict t))(slot_of key := None)"
    proof (cases "dict_key k \<and> slot_of k = slot_of key")
      case True
      then show ?thesis using h D by simp
    next
      case False
      then obtain c where k: "hmap (dict t) (slot_of key) = None" "k = nativeFunctionCursor c" using spec by blast
      then have "k \<notin> fst ` set (dict t)" using dict_ok_key [OF base_okD(1) [OF ok], of k] by auto
      then have "mdel k (dict t) = dict t" using nan by (simp add: mdel_def delete_id)
      then show ?thesis using k D by (simp add: fun_upd_idem)
    qed
    have L: "live t' = live t - {k}"
      using keys_mdel [OF nan, of "dict t"] spec D S by (auto simp: live_def slot_of_def numericTableKey_def)
    have "iter_inv (live t - {k}) (Keys (deleteIterationKey k ?u)) (K2i (deleteIterationKey k ?u))"
      by (rule iter_inv_delete) (use base_okD(5) [OF ok] nan iterationKey_nan [OF nan] cursor_not_live [OF ok, of k] in simp_all)
    then have inv: "iter_inv (live t') (Keys t') (K2i t')" unfolding L by (simp add: t')
    have "base_ok t'"
    proof (rule base_ok_hash [OF ok])
      fix n assume "0 < n" "n \<le> int (length (arr t))"
      then have "mget (K2i t) (akey n) = None" using base_okD(6) [OF ok] by blast
      then show "mget (K2i t') (akey n) = None"
        using delete_index [OF nan, of ?u "int_to_float n"] by (cases "mget (K2i t') (akey n)") (auto simp: t')
    qed (use A D S h slot inv base_okD [OF ok] in \<open>auto simp: fun_upd_def split: if_splits\<close>)
    then show ?thesis using A S slot c True imm by (simp add: t')
  next
    case False
    let ?u = "t\<lparr>sparseArrayHash := False, Dict := Some (dict t)\<rparr>"
    have t': "t' = (addIterationKey k ?u)\<lparr>Dict := Some (mput k v (dict t))\<rparr>"
      using c False by (simp add: t'_def Let_def)
    have dk: "dict_key k" "slot_of k = slot_of key" using spec False by blast+
    have D: "dict t' = mput k v (dict t)" and S: "strs t' = strs t" and A: "Array t' = Array t" by (simp_all add: t')
    note h = hmap_mput [OF base_okD(1) [OF ok] dk(1) sole False]
    have L: "live t' = insert k (live t)" using keys_mput [OF nan, of v "dict t"] D S by (auto simp: live_def)
    have inv0: "iter_inv (live t) (Keys ?u) (K2i ?u)" using base_okD(5) [OF ok] by simp
    have inv: "iter_inv (live t') (Keys t') (K2i t')"
      unfolding L using iter_inv_add [OF inv0 nan live_nan [OF ok]] by (simp add: t')
    have "base_ok t'"
    proof (rule base_ok_hash [OF ok])
      fix n assume n: "0 < n" "n \<le> int (length (arr t))"
      then have "mget (K2i ?u) (akey n) = None" using base_okD(6) [OF ok] by simp
      moreover have "akey n \<noteq> k"
        using pos [of n] n dk(2) slot_of_akey [of n] base_okD(7) [OF ok] by auto
      ultimately show "mget (K2i t') (akey n) = None"
        using add_index [OF inv0 nan live_nan [OF ok]] by (simp add: t')
    qed (use A D S h inv base_okD [OF ok] pos dk in \<open>auto simp: fun_upd_def split: if_splits\<close>)
    then show ?thesis using A S h D dk c False imm by (simp add: t')
  qed
qed

lemma set_update_value: "(s, x) \<in> set (AList.update k v m) \<Longrightarrow> (s, x) \<in> set m \<or> x = v"
  by (induction m) (auto split: if_splits)

lemma RawSetString_ok:
  fixes v :: lvalue and key :: string
  assumes ok: "base_ok t" and imm: "\<not> Immutable t"
  defines "t' \<equiv> snd (RawSetString key v t)"
  shows "base_ok t' \<and> Array t' = Array t \<and> dict t' = dict t \<and> \<not> Immutable t' \<and> fst (RawSetString key v t) \<and>
    map_of (strs t') = (map_of (strs t))(key := if v = LNil then None else Some v)"
proof (cases "v = LNil")
  case True
  let ?u = "t\<lparr>Strdict := Some (AList.delete key (strs t))\<rparr>"
  have t': "t' = deleteIterationKey (LString key) ?u" using True imm by (simp add: t'_def RawSetString_def)
  have S: "strs t' = AList.delete key (strs t)" and D: "dict t' = dict t" and A: "Array t' = Array t" by (simp_all add: t')
  have "LString key \<notin> fst ` set (dict t)" using dict_ok_key [OF base_okD(1) [OF ok], of "LString key"] by auto
  then have L: "live t' = live t - {LString key}"
    unfolding live_def S D by (auto simp: AList.delete_eq image_iff)
  have "iter_inv (live t - {LString key}) (Keys t') (K2i t')"
    unfolding t' by (rule iter_inv_delete) (use base_okD(5) [OF ok] in simp_all)
  then have inv: "iter_inv (live t') (Keys t') (K2i t')" by (simp only: L)
  have del: "distinct (map fst (AList.delete key (strs t)))" "LNil \<notin> snd ` set (AList.delete key (strs t))"
    using distinct_delete [OF base_okD(2) [OF ok]] base_okD(3) [OF ok] by (simp_all add: AList.delete_eq image_iff)
  have "base_ok t'"
  proof (rule base_ok_hash [OF ok])
    fix n assume "0 < n" "n \<le> int (length (arr t))"
    then have "mget (K2i t) (akey n) = None" using base_okD(6) [OF ok] by blast
    then show "mget (K2i t') (akey n) = None"
      using delete_index [of "LString key" ?u "int_to_float n"] by (cases "mget (K2i t') (akey n)") (auto simp: t')
  qed (use A D S inv base_okD(1) [OF ok] del in simp_all)
  then show ?thesis using A D S True imm by (simp add: t' RawSetString_def delete_conv')
next
  case False
  let ?u = "t\<lparr>Strdict := Some (strs t)\<rparr>"
  have t': "t' = (addIterationKey (LString key) ?u)\<lparr>Strdict := Some (AList.update key v (strs t))\<rparr>"
    using False imm by (simp add: t'_def RawSetString_def Let_def)
  have S: "strs t' = AList.update key v (strs t)" and D: "dict t' = dict t" and A: "Array t' = Array t" by (simp_all add: t')
  have L: "live t' = insert (LString key) (live t)" unfolding live_def S D by (simp add: dom_update)
  have inv0: "iter_inv (live t) (Keys ?u) (K2i ?u)" using base_okD(5) [OF ok] by simp
  have inv: "iter_inv (live t') (Keys t') (K2i t')"
    unfolding L using iter_inv_add [OF inv0 _ live_nan [OF ok], of "LString key"] by (simp add: t')
  have nil: "LNil \<notin> snd ` set (AList.update key v (strs t))"
  proof
    assume "LNil \<in> snd ` set (AList.update key v (strs t))"
    then obtain s where "(s, LNil) \<in> set (AList.update key v (strs t))" by auto
    from set_update_value [OF this] have "(s, LNil) \<in> set (strs t)" using False by simp
    then show False using base_okD(3) [OF ok] by force
  qed
  have "base_ok t'"
  proof (rule base_ok_hash [OF ok])
    fix n assume n: "0 < n" "n \<le> int (length (arr t))"
    then have "mget (K2i ?u) (akey n) = None" using base_okD(6) [OF ok] by simp
    then show "mget (K2i t') (akey n) = None"
      using add_index [OF inv0 _ live_nan [OF ok], of "LString key" "akey n"] by (simp add: t')
  qed (use A D S inv nil base_okD(1) [OF ok] distinct_update [OF base_okD(2) [OF ok]] in simp_all)
  then show ?thesis using A D S False imm by (simp add: t' RawSetString_def Let_def update_conv')
qed

section \<open>Moving values into the array part\<close>

text \<open>Only the array changed, the index may have lost dead cursors.\<close>

lemma base_ok_array:
  assumes ok: "base_ok t" and same: "dict t' = dict t" "strs t' = strs t" "Keys t' = Keys t"
    and inv: "iter_inv (live t) (Keys t) (K2i t')"
    and len: "int (length (arr t')) < MaxArrayIndex"
    and new: "\<And>n. int (length (arr t)) < n \<Longrightarrow> n \<le> int (length (arr t')) \<Longrightarrow>
      hmap (dict t) (ArrayKey n) = None \<and> mget (K2i t') (akey n) = None"
    and old: "\<And>n. 0 < n \<Longrightarrow> n \<le> int (length (arr t)) \<Longrightarrow> mget (K2i t') (akey n) = None"
  shows "base_ok t'"
proof -
  have L: "live t' = live t" by (simp add: live_def same)
  have a: "int (length (arr t')) < n" if "hmap (dict t) (ArrayKey n) \<noteq> None" for n
    using base_okD(4) [OF ok that] new [of n] that by linarith
  have b: "mget (K2i t') (akey n) = None" if "0 < n" "n \<le> int (length (arr t'))" for n
    using new [of n] old [of n] that by linarith
  show ?thesis unfolding base_ok_def L same
    by (intro conjI allI impI base_okD(1-3) [OF ok] inv len a b; blast)
qed

lemma forget_get:
  "mget (K2i (forgetDeletedArrayKey n t)) (LNumber f) =
     (if f = int_to_float n \<and> (\<exists>i. mget (K2i t) (LNumber f) = Some i \<and> slice (Keys t) ! i = None) then None else mget (K2i t) (LNumber f))"
proof (cases "K2i t = []")
  case True
  then show ?thesis by (simp add: forgetDeletedArrayKey_def mget_def)
next
  case False
  then have "mget (K2i (forgetDeletedArrayKey n t)) (LNumber f) = mget (K2i (forget_one (akey n) t)) (LNumber f)"
    by (simp add: forgetDeletedArrayKey_def mget_forget_one)
  then show ?thesis using mget_forget_one [OF akey_nan, of n t "LNumber f"] by auto
qed

lemma forget_sub: "mget (K2i t) (LNumber f) = None \<Longrightarrow> mget (K2i (forgetDeletedArrayKey n t)) (LNumber f) = None"
  by (simp add: forget_get)

text \<open>After forgetting, a position that is not in the hash part is not in the index.\<close>

lemma forget_absent:
  assumes ok: "base_ok t" and n: "0 < n" "n < MaxArrayIndex" and absent: "hmap (dict t) (ArrayKey n) = None"
  shows "mget (K2i (forgetDeletedArrayKey n t)) (akey n) = None"
proof (cases "mget (K2i t) (akey n)")
  case None
  then show ?thesis by (rule forget_sub)
next
  case (Some i)
  have "akey n \<notin> live t" using absent slot_of_akey [OF n] by (auto simp: live_def hmap_None)
  moreover obtain ks where ks: "Keys t = Some ks"
    using base_okD(5) [OF ok] Some by (cases "Keys t") (auto simp: iter_inv_def mget_def split: if_splits)
  note inv = base_okD(5) [OF ok, unfolded ks]
  ultimately have "slice (Keys t) ! i = None"
    using iter_inv_Some(1) [OF inv Some] iter_inv_Some(2) [OF inv Some] iter_inv_Some(3) [OF inv, of i "akey n"] ks by auto
  then show ?thesis using Some by (simp add: forget_get)
qed

lemma base_ok_forget: "base_ok t \<Longrightarrow> base_ok (forgetDeletedArrayKey n t)"
proof -
  assume ok: "base_ok t"
  show ?thesis
    by (rule base_ok_array [OF ok])
      (use iter_inv_forget [OF base_okD(5) [OF ok], of n] base_okD(6,7) [OF ok] in \<open>auto simp: forget_sub\<close>)
qed

lemma dict_akey:
  assumes ok: "base_ok t" and n: "0 < n" "n < MaxArrayIndex"
  shows "mget (dict t) (akey n) = hmap (dict t) (ArrayKey n)" "lua_key (akey n)" "dict_key (akey n)"
proof -
  show "lua_key (akey n)" by (simp add: int_to_float_def)
  show d: "dict_key (akey n)" using n floatToInteger_float [of n] by simp (simp add: int_to_float_def)
  then show "mget (dict t) (akey n) = hmap (dict t) (ArrayKey n)"
    using mget_hmap [OF base_okD(1) [OF ok] d sole_not_native [OF base_okD(1) [OF ok] d]] slot_of_akey [OF n] by simp
qed

lemma content_simps:
  "content t (StrKey x) = (case map_of (strs t) x of Some v \<Rightarrow> v | None \<Rightarrow> LNil)"
  "content t (ArrayKey n) = (if 0 < n \<and> n \<le> int (length (arr t)) then arr t ! nat (n - 1)
     else case hmap (dict t) (ArrayKey n) of Some v \<Rightarrow> v | None \<Rightarrow> LNil)"
  "content t (NativeKey c) = (case hmap (dict t) (NativeKey c) of Some v \<Rightarrow> v | None \<Rightarrow> LNil)"
  "content t (OtherKey k) = (case hmap (dict t) (OtherKey k) of Some v \<Rightarrow> v | None \<Rightarrow> LNil)"
  by (simp_all add: content_def)

lemma content_cong: "arr t' = arr t \<Longrightarrow> dict t' = dict t \<Longrightarrow> strs t' = strs t \<Longrightarrow> content t' = content t"
  unfolding content_def by (simp only:)

lemma content_eqI:
  assumes "strs t' = strs t" "\<And>n. content t' (ArrayKey n) = content t (ArrayKey n)"
    "\<And>s. (\<And>n. s \<noteq> ArrayKey n) \<Longrightarrow> hmap (dict t') s = hmap (dict t) s"
  shows "content t' = content t"
proof
  fix s show "content t' s = content t s"
    using assms by (cases s) (simp_all add: content_simps)
qed

text \<open>An index entry that is not a live key can go.\<close>

lemma iter_inv_drop:
  assumes inv: "iter_inv L ks m" and k: "k \<notin> L" "\<not> nan_key k"
  shows "iter_inv L ks (mdel k m)"
proof (cases ks)
  case None
  then show ?thesis using inv by (simp add: iter_inv_def mdel_def)
next
  case (Some ks')
  note I = iter_inv_Some [OF inv [unfolded Some]]
  have m: "mget (mdel k m) k' = (if k' = k then None else mget m k')" for k' using mget_del [OF k(2), of m k'] by auto
  have a: "i < length ks' \<and> (ks' ! i = Some k' \<or> ks' ! i = None)" if "mget (mdel k m) k' = Some i" for k' i
  proof -
    have "mget m k' = Some i" using that m [of k'] by (simp split: if_splits)
    from I(1) [OF this] I(2) [OF this] show ?thesis by simp
  qed
  have b: "k' \<in> L \<and> mget (mdel k m) k' = Some i" if "i < length ks'" "ks' ! i = Some k'" for k' i
    using I(3) [OF that] I(4) [OF that] m [of k'] k(1) by auto
  have c: "\<exists>i < length ks'. mget (mdel k m) k' = Some i \<and> ks' ! i = Some k'" if "k' \<in> L" for k'
    using I(5) [OF that] b by blast
  show ?thesis unfolding Some by (rule iter_inv_SomeI [OF a b c])
qed

lemma length_delete_less: "k \<in> fst ` set m \<Longrightarrow> length (AList.delete k m) < length m"
proof (induction m)
  case (Cons x m)
  then show ?case using length_delete_le [of k m] by (cases "k = fst x") (auto simp: less_Suc_eq_le)
qed simp

lemma takeHashed_ok:
  fixes n :: int and fresh :: nat
  assumes ok: "base_ok t" and imm: "\<not> Immutable t" and n: "int (length (arr t)) < n" "n < MaxArrayIndex"
  defines "t' \<equiv> snd (takeHashed fresh n t)"
  shows "base_ok t' \<and> Array t' = Array t \<and> strs t' = strs t \<and> \<not> Immutable t' \<and>
    hmap (dict t') = (hmap (dict t))(ArrayKey n := None) \<and> mget (K2i t') (akey n) = None \<and>
    fst (takeHashed fresh n t) = (case hmap (dict t) (ArrayKey n) of Some v \<Rightarrow> v | None \<Rightarrow> LNil) \<and>
    (fst (takeHashed fresh n t) \<noteq> LNil \<longrightarrow> length (dict t') < length (dict t))"
proof -
  define u where "u = forgetDeletedArrayKey n t"
  have n0: "0 < n" using n by simp
  have u: "base_ok u" "Array u = Array t" "dict u = dict t" "strs u = strs t" "\<not> Immutable u"
    using base_ok_forget [OF ok] imm by (simp_all add: u_def)
  note g = dict_akey(1) [OF u(1) n0 n(2)]
  show ?thesis
  proof (cases "hmap (dict t) (ArrayKey n)")
    case None
    have "takeHashed fresh n t = (LNil, u)"
      using None g u by (simp add: takeHashed_def u_def [symmetric])
    then show ?thesis using u None forget_absent [OF ok n0 n(2) None]
      by (simp add: t'_def u_def [symmetric] fun_upd_idem)
  next
    case (Some v)
    define w where "w = snd (RawSetH fresh (akey n) LNil u)"
    have sn: "slot_of (akey n) = ArrayKey n" by (rule slot_of_akey [OF n0 n(2)])
    have w: "base_ok w \<and> Array w = Array u \<and> strs w = strs u \<and> \<not> Immutable w \<and>
        hmap (dict w) = (hmap (dict u))(ArrayKey n := None)"
      using RawSetH_ok [OF u(1,5) dict_akey(2) [OF u(1) n0 n(2)], of fresh LNil] n u sn by (simp add: w_def)
    have ne: "dict t \<noteq> []" using Some by (auto simp: hmap_Nil)
    have e: "takeHashed fresh n t = (v, w\<lparr>K2i := mdel (akey n) (K2i w)\<rparr>)"
      using Some g u ne by (simp add: takeHashed_def u_def [symmetric] w_def [symmetric])
    then have t': "t' = w\<lparr>K2i := mdel (akey n) (K2i w)\<rparr>" by (simp add: t'_def)
    have del: "mget (K2i t') k = (if k = akey n then None else mget (K2i w) k)" for k
      using mget_del [OF akey_nan, of n "K2i w" k] by (auto simp: t')
    have "hmap (dict w) (ArrayKey n) = None" using w by simp
    then have "akey n \<notin> live w" using sn by (auto simp: live_def hmap_None)
    then have inv: "iter_inv (live w) (Keys w) (K2i t')"
      using w iter_inv_drop [OF base_okD(5) _ akey_nan, of w n] by (simp add: t')
    have "base_ok t'"
      by (rule base_ok_array [of w]) (use w inv del base_okD(6,7) [of w] in \<open>auto simp: t'\<close>)
    moreover have "length (dict w) < length (dict u)"
    proof -
      have k: "tableKey fresh u (akey n) False = akey n"
        using numericTableKey_akey [OF n0 n(2)] by (simp add: tableKey_numeric)
      have "dict w = mdel (akey n) (dict u)"
        using k u(5) by (simp add: w_def RawSetH_cases Let_def)
      moreover have "akey n \<in> fst ` set (dict u)" using g Some u mget_None [OF akey_nan, of "dict u" n] by auto
      ultimately show ?thesis by (simp add: mdel_def akey_nan [simplified] length_delete_less)
    qed
    ultimately show ?thesis using w u e Some del by (simp add: t')
  qed
qed

lemma append_ok:
  assumes ok: "base_ok t" and len: "int (length (arr t)) + 1 < MaxArrayIndex"
    and absent: "hmap (dict t) (ArrayKey (int (length (arr t)) + 1)) = None"
      "mget (K2i t) (akey (int (length (arr t)) + 1)) = None"
  shows "base_ok (append_arr v t) \<and> content (append_arr v t) = (content t)(ArrayKey (int (length (arr t)) + 1) := v) \<and>
    arr (append_arr v t) = arr t @ [v] \<and> Immutable (append_arr v t) = Immutable t \<and> dict (append_arr v t) = dict t"
proof -
  have f: "arr (append_arr v t) = arr t @ [v]" "dict (append_arr v t) = dict t" "strs (append_arr v t) = strs t"
    "Keys (append_arr v t) = Keys t" "K2i (append_arr v t) = K2i t" "Immutable (append_arr v t) = Immutable t"
    by (simp_all add: append_arr_def)
  have "base_ok (append_arr v t)"
  proof (rule base_ok_array [OF ok])
    fix n assume "int (length (arr t)) < n" "n \<le> int (length (arr (append_arr v t)))"
    then have "n = int (length (arr t)) + 1" by (simp add: f)
    then show "hmap (dict t) (ArrayKey n) = None \<and> mget (K2i (append_arr v t)) (akey n) = None" using absent by (simp add: f)
  qed (use f len base_okD(5,6) [OF ok] in simp_all)
  moreover have "content (append_arr v t) = (content t)(ArrayKey (int (length (arr t)) + 1) := v)"
  proof
    fix s show "content (append_arr v t) s = ((content t)(ArrayKey (int (length (arr t)) + 1) := v)) s"
      by (cases s) (auto simp: content_simps f nth_append)
  qed
  ultimately show ?thesis using f by simp
qed

text \<open>One value moved from the hash part to the end of the array: the content is the same.\<close>

lemma move_ok:
  fixes fresh :: nat
  assumes ok: "base_ok t" and imm: "\<not> Immutable t" and len: "int (length (arr t)) + 1 < MaxArrayIndex"
  defines "r \<equiv> takeHashed fresh (int (length (arr t)) + 1) t"
  defines "t' \<equiv> append_arr (fst r) (snd r)"
  shows "base_ok t' \<and> content t' = content t \<and> length (arr t') = Suc (length (arr t)) \<and> \<not> Immutable t' \<and> dict t' = dict (snd r)"
proof -
  let ?n = "int (length (arr t)) + 1"
  note th = takeHashed_ok [OF ok imm _ len, of fresh, folded r_def, simplified]
  have A: "arr (snd r) = arr t" using th by simp
  have ap: "base_ok t' \<and> content t' = (content (snd r))(ArrayKey ?n := fst r) \<and> arr t' = arr t @ [fst r] \<and> \<not> Immutable t' \<and> dict t' = dict (snd r)"
    using append_ok [of "snd r" "fst r"] th A len unfolding t'_def by simp
  have "content t' s = content t s" for s
    using ap th A by (cases s) (auto simp: content_simps)
  then show ?thesis using ap by auto
qed

lemma fill_gap_ok:
  "base_ok t \<Longrightarrow> \<not> Immutable t \<Longrightarrow> int (length (arr t) + n) < MaxArrayIndex \<Longrightarrow>
   base_ok (fill_gap fresh n t) \<and> content (fill_gap fresh n t) = content t \<and>
   length (arr (fill_gap fresh n t)) = length (arr t) + n \<and> \<not> Immutable (fill_gap fresh n t)"
proof (induction n)
  case (Suc n)
  let ?u = "fill_gap fresh n t"
  have IH: "base_ok ?u \<and> content ?u = content t \<and> length (arr ?u) = length (arr t) + n \<and> \<not> Immutable ?u"
    using Suc by simp
  have e: "fill_gap fresh (Suc n) t = (let r = takeHashed fresh (int (length (arr ?u)) + 1) ?u in append_arr (fst r) (snd r))"
    by (simp add: fill_gap_def case_prod_unfold Let_def)
  show ?case using move_ok [of ?u fresh] IH Suc.prems(3) unfolding e Let_def by simp
qed (simp add: fill_gap_def)

definition table_ok :: "ltable \<Rightarrow> bool" where
  "table_ok t \<longleftrightarrow> base_ok t \<and> hmap (dict t) (ArrayKey (int (length (arr t)) + 1)) = None"

lemma isArrayKey_bound: "isArrayKey f \<Longrightarrow> float_to_int f < MaxArrayIndex"
  by (simp add: isArrayKey_float_to_int)

lemma no_dict_MaxArrayIndex: "dict_ok D \<Longrightarrow> MaxArrayIndex \<le> n \<Longrightarrow> hmap D (ArrayKey n) = None"
proof -
  assume ok: "dict_ok D" and n: "MaxArrayIndex \<le> n"
  have "slot_of k \<noteq> ArrayKey n" if "dict_key k" for k
    using that n numericTableKey_dict [OF that] by (cases k) (auto simp: slot_of_def dest: isArrayKey_bound split: if_splits)
  then show ?thesis using dict_ok_key [OF ok] by (auto simp: hmap_None)
qed

lemma dict_MaxArrayIndex: "dict_ok D \<Longrightarrow> mget D (akey MaxArrayIndex) = None"
proof -
  assume ok: "dict_ok D"
  have "\<not> dict_key (akey MaxArrayIndex)" using floatToInteger_float [of MaxArrayIndex] by simp
  then show ?thesis using mget_None [OF akey_nan, of D MaxArrayIndex] dict_ok_key [OF ok] by blast
qed

lemma pull_loop_ok:
  "length (dict t) \<le> n \<Longrightarrow> base_ok t \<Longrightarrow> \<not> Immutable t \<Longrightarrow>
   table_ok (pull_loop n fresh t) \<and> content (pull_loop n fresh t) = content t \<and> \<not> Immutable (pull_loop n fresh t)"
proof (induction n arbitrary: t)
  case 0
  then show ?case by (simp add: table_ok_def hmap_Nil)
next
  case (Suc n)
  note ok = Suc.prems(2) and imm = Suc.prems(3)
  let ?n = "int (length (arr t)) + 1"
  show ?case
  proof (cases "dict t = []")
    case True
    then show ?thesis using Suc.prems by (simp add: table_ok_def hmap_Nil)
  next
    case ne: False
    show ?thesis
    proof (cases "?n < MaxArrayIndex")
      case False
      then have n: "?n = MaxArrayIndex" using base_okD(7) [OF ok] by simp
      have "takeHashed fresh ?n t = (LNil, forgetDeletedArrayKey ?n t)"
        using dict_MaxArrayIndex [OF base_okD(1) [OF ok]] unfolding n by (simp add: takeHashed_def Let_def)
      then show ?thesis using ne base_ok_forget [OF ok] imm no_dict_MaxArrayIndex [OF base_okD(1) [OF ok]] n
        by (simp add: table_ok_def content_cong [of "forgetDeletedArrayKey _ t" t])
    next
      case True
      obtain v u where r: "takeHashed fresh ?n t = (v, u)" by force
      note th = takeHashed_ok [OF ok imm _ True, of fresh, unfolded r, simplified]
      note mv = move_ok [OF ok imm True, of fresh, unfolded r, simplified]
      show ?thesis
      proof (cases "v = LNil")
        case nil: True
        then have h: "hmap (dict t) (ArrayKey ?n) = None"
          using th hmap_value [OF base_okD(1) [OF ok]] by (auto split: option.splits)
        have "content u = content t" using th h by (intro content_eqI) (auto simp: content_simps fun_upd_idem)
        then show ?thesis using ne r nil th h by (simp add: table_ok_def)
      next
        case False
        have "table_ok (pull_loop n fresh (append_arr v u)) \<and> content (pull_loop n fresh (append_arr v u)) = content (append_arr v u)
            \<and> \<not> Immutable (pull_loop n fresh (append_arr v u))"
          by (rule Suc.IH) (use mv th False Suc.prems(1) in auto)
        then show ?thesis using ne r False mv by simp
      qed
    qed
  qed
qed

lemma pullHashed_ok:
  "base_ok t \<Longrightarrow> \<not> Immutable t \<Longrightarrow>
   table_ok (pullHashed fresh t) \<and> content (pullHashed fresh t) = content t \<and> \<not> Immutable (pullHashed fresh t)"
  unfolding pullHashed_def by (rule pull_loop_ok) auto

text \<open>
  What every write promises: the invariant is kept and the content changes at one slot.
\<close>

definition writes :: "ltable \<Rightarrow> ltable \<Rightarrow> slot \<Rightarrow> lvalue \<Rightarrow> bool" where
  "writes t t' s v \<longleftrightarrow> table_ok t' \<and> \<not> Immutable t' \<and> content t' = (content t)(s := v)"

lemma base_ok_flags:
  "arr t' = arr t \<Longrightarrow> dict t' = dict t \<Longrightarrow> strs t' = strs t \<Longrightarrow> Keys t' = Keys t \<Longrightarrow> K2i t' = K2i t \<Longrightarrow> base_ok t' = base_ok t"
  unfolding base_ok_def live_def by (simp only:)

lemma writes_hash:
  assumes ok: "table_ok t" and imm: "\<not> Immutable t" and key: "lua_key key" "\<And>s. key \<noteq> LString s"
    and pos: "\<And>n. slot_of key = ArrayKey n \<Longrightarrow> int (length (arr t)) < n \<and> (v = LNil \<or> int (length (arr t)) + 1 < n)"
  shows "writes t (snd (RawSetH fresh key v t)) (slot_of key) v"
proof -
  let ?t = "snd (RawSetH fresh key v t)"
  have b: "base_ok t" using ok by (simp add: table_ok_def)
  have h: "base_ok ?t \<and> Array ?t = Array t \<and> strs ?t = strs t \<and> \<not> Immutable ?t \<and>
      hmap (dict ?t) = (hmap (dict t))(slot_of key := if v = LNil then None else Some v)"
    using RawSetH_ok [OF b imm key, of fresh v] pos by blast
  have ns: "slot_of key \<noteq> StrKey x" for x
    using key numericTableKey_def [of key] by (cases key) (auto simp: slot_of_def split: if_splits option.splits)
  have at: "content ?t (slot_of key) = v"
  proof (cases "slot_of key")
    case (ArrayKey n)
    then show ?thesis using h pos [OF ArrayKey] by (simp add: content_simps)
  qed (use h ns in \<open>simp_all add: content_simps\<close>)
  have off: "content ?t s = content t s" if "s \<noteq> slot_of key" for s
    using that h by (cases s) (simp_all add: content_simps)
  from at off have "content ?t = (content t)(slot_of key := v)" by (simp add: fun_eq_iff)
  moreover have "hmap (dict ?t) (ArrayKey (int (length (arr ?t)) + 1)) = None"
    using h ok pos [of "int (length (arr t)) + 1"] by (auto simp: table_ok_def)
  ultimately show ?thesis using h by (simp add: writes_def table_ok_def)
qed

lemma forget_one_array: "forget_one c (t\<lparr>Array := A\<rparr>) = (forget_one c t)\<lparr>Array := A\<rparr>"
  by (simp add: forget_one_def split: option.splits)

lemma forget_array: "forgetDeletedArrayKey n (t\<lparr>Array := A\<rparr>) = (forgetDeletedArrayKey n t)\<lparr>Array := A\<rparr>"
  by (simp add: forgetDeletedArrayKey_def forget_one_array)

lemma writes_array:
  assumes ok: "table_ok t" and imm: "\<not> Immutable t" and n: "0 < n" "n \<le> int (length (arr t))"
  shows "writes t (forgetDeletedArrayKey m (t\<lparr>Array := Some ((arr t)[nat (n - 1) := v])\<rparr>)) (ArrayKey n) v"
proof -
  let ?u = "t\<lparr>Array := Some ((arr t)[nat (n - 1) := v])\<rparr>"
  have b: "base_ok t" using ok by (simp add: table_ok_def)
  have "base_ok ?u" by (rule base_ok_array [OF b]) (use base_okD(5,6,7) [OF b] in simp_all)
  then have "base_ok (forgetDeletedArrayKey m ?u)" by (rule base_ok_forget)
  moreover have "content (forgetDeletedArrayKey m ?u) = content ?u" by (rule content_cong) simp_all
  moreover have "content ?u s = ((content t)(ArrayKey n := v)) s" for s
    using n by (cases s) (auto simp: content_simps nth_list_update)
  ultimately show ?thesis using ok imm by (simp add: writes_def table_ok_def fun_eq_iff)
qed

lemma content_taken:
  assumes "Array t' = Array t" "strs t' = strs t" "hmap (dict t') = (hmap (dict t))(ArrayKey n := None)"
  shows "(content t')(ArrayKey n := v) = (content t)(ArrayKey n := v)"
proof
  fix s show "((content t')(ArrayKey n := v)) s = ((content t)(ArrayKey n := v)) s"
    using assms by (cases s) (simp_all add: content_simps)
qed

lemma writes_sparse_flag:
  assumes "writes t t' s v"
  shows "writes t (releaseEmptySparseHash (t'\<lparr>sparseArrayHash := True\<rparr>)) s v"
proof -
  let ?r = "releaseEmptySparseHash (t'\<lparr>sparseArrayHash := True\<rparr>)"
  have "content ?r = content t'" by (rule content_cong) simp_all
  moreover have "base_ok ?r = base_ok t'" by (rule base_ok_flags) simp_all
  ultimately show ?thesis using assms by (simp add: writes_def table_ok_def)
qed

lemma writes_int:
  assumes ok: "table_ok t" and imm: "\<not> Immutable t" and n: "0 < n" "n < MaxArrayIndex"
  shows "writes t (set_int fresh n v t) (ArrayKey n) v"
proof -
  have b: "base_ok t" using ok by (simp add: table_ok_def)
  let ?len = "int (length (arr t))"
  consider (array) "n \<le> ?len" | (grow) "n = ?len + 1" "Array t \<noteq> None" "v \<noteq> LNil" "dict t = []" |
    (sparse) "?len < n" "\<not> (n = ?len + 1 \<and> Array t \<noteq> None \<and> v \<noteq> LNil \<and> dict t = [])" by linarith
  then show ?thesis
  proof cases
    case array
    then show ?thesis using writes_array [OF ok imm n(1) array] by (simp add: set_int_def)
  next
    case grow
    let ?a = "forgetDeletedArrayKey n t"
    have e: "set_int fresh n v t = append_arr v ?a"
      using grow by (simp add: set_int_def append_arr_def forget_array)
    have "hmap (dict t) (ArrayKey n) = None" using grow by (simp add: hmap_Nil)
    then have "base_ok (append_arr v ?a) \<and> content (append_arr v ?a) = (content ?a)(ArrayKey n := v) \<and> Immutable (append_arr v ?a) = Immutable ?a \<and> dict (append_arr v ?a) = dict ?a"
      using append_ok [OF base_ok_forget [OF b], of n v] forget_absent [OF b n] n grow by simp
    moreover have "content ?a = content t" by (rule content_cong) simp_all
    ultimately show ?thesis unfolding e writes_def table_ok_def using imm grow by (simp add: hmap_Nil)
  next
    case sparse
    have e: "set_int fresh n v t = setSparseIntKey fresh n v t" using sparse by (auto simp: set_int_def)
    note dk = dict_akey [OF b n] and sl = slot_of_akey [OF n]
    show ?thesis
    proof (cases "v = LNil \<or> n - 1 - ?len > maxArrayGap \<or> mget (dict t) (akey n) \<noteq> None")
      case True
      have "v = LNil \<or> ?len + 1 < n"
        using True dk(1) ok sparse by (cases "n = ?len + 1") (auto simp: table_ok_def)
      then have w: "writes t (snd (RawSetH fresh (akey n) v t)) (ArrayKey n) v"
        using writes_hash [OF ok imm dk(2), of v fresh] sl sparse by simp
      then show ?thesis using True writes_sparse_flag [OF w] by (auto simp: e setSparseIntKey_def Let_def)
    next
      case False
      let ?u = "t\<lparr>Array := Some (arr t)\<rparr>"
      let ?g = "fill_gap fresh (nat (n - (?len + 1))) ?u"
      let ?k = "snd (takeHashed fresh n ?g)"
      have bu: "base_ok ?u" using b base_ok_flags [of ?u t] by simp
      have cu: "content ?u = content t" by (rule content_cong) simp_all
      have g: "base_ok ?g \<and> content ?g = content ?u \<and> int (length (arr ?g)) = n - 1 \<and> \<not> Immutable ?g"
        using fill_gap_ok [OF bu, of "nat (n - (?len + 1))" fresh] imm n sparse by simp
      then have k: "base_ok ?k \<and> Array ?k = Array ?g \<and> strs ?k = strs ?g \<and> \<not> Immutable ?k \<and>
          hmap (dict ?k) = (hmap (dict ?g))(ArrayKey n := None) \<and> mget (K2i ?k) (akey n) = None"
        using takeHashed_ok [of ?g n fresh] n by simp
      then have a: "base_ok (append_arr v ?k) \<and> content (append_arr v ?k) = (content ?k)(ArrayKey n := v) \<and> \<not> Immutable (append_arr v ?k)"
        using append_ok [of ?k v] g n by simp
      have "(content ?k)(ArrayKey n := v) = (content ?g)(ArrayKey n := v)"
        by (rule content_taken) (use k in simp_all)
      then have "content (append_arr v ?k) = (content t)(ArrayKey n := v)" using a g cu by simp
      with pullHashed_ok [of "append_arr v ?k" fresh] a
      show ?thesis using False by (simp add: e setSparseIntKey_def Let_def writes_def)
    qed
  qed
qed

section \<open>Reads and writes\<close>

lemma slot_of_cases:
  "slot_of (LString s) = StrKey s" "isArrayKey f \<Longrightarrow> slot_of (LNumber f) = ArrayKey (float_to_int f)"
  "\<not> isArrayKey f \<Longrightarrow> slot_of (LNumber f) = OtherKey (numericTableKey (LNumber f))"
  "slot_of (LBool b) = OtherKey (LBool b)" "slot_of (LGoFunc c) = NativeKey c"
  "slot_of (LFunction a False c) = OtherKey (LFunction a False c)" "slot_of (LRef ty a) = OtherKey (LRef ty a)"
proof -
  show "isArrayKey f \<Longrightarrow> slot_of (LNumber f) = ArrayKey (float_to_int f)"
    by (auto simp: isArrayKey_floatToInteger slot_of_def numericTableKey_def)
  show "\<not> isArrayKey f \<Longrightarrow> slot_of (LNumber f) = OtherKey (numericTableKey (LNumber f))"
    by (auto simp: isArrayKey_floatToInteger slot_of_def numericTableKey_def split: option.splits)
qed (simp_all add: slot_of_def numericTableKey_def)

lemma writes_string:
  assumes ok: "table_ok t" and imm: "\<not> Immutable t"
  shows "writes t (snd (RawSetString s v t)) (StrKey s) v"
proof -
  let ?t = "snd (RawSetString s v t)"
  have h: "base_ok ?t \<and> Array ?t = Array t \<and> dict ?t = dict t \<and> \<not> Immutable ?t \<and>
      map_of (strs ?t) = (map_of (strs t))(s := if v = LNil then None else Some v)"
    using RawSetString_ok [of t s v] ok imm by (simp add: table_ok_def)
  have "content ?t x = ((content t)(StrKey s := v)) x" for x
    using h by (cases x) (auto simp: content_simps)
  then show ?thesis using h ok by (simp add: writes_def table_ok_def fun_eq_iff)
qed

lemma RawSet_writes:
  assumes ok: "table_ok t" and imm: "\<not> Immutable t" and key: "lua_key key"
  shows "writes t (snd (RawSet fresh key v t)) (slot_of key) v"
proof -
  have H: "writes t (snd (RawSetH fresh key v t)) (slot_of key) v" if "\<And>s. key \<noteq> LString s" "\<And>n. slot_of key \<noteq> ArrayKey n"
    using writes_hash [OF ok imm key that(1), of v fresh] that(2) by blast
  show ?thesis
  proof (cases key)
    case (LInteger i)
    then show ?thesis using H writes_int [OF ok imm, of i fresh v] imm by (auto simp: RawSet_def slot_of_Integer)
  next
    case (LNumber f)
    then show ?thesis using H writes_int [OF ok imm, of "float_to_int f" fresh v] imm isArrayKey_float_to_int [of f]
      by (cases "isArrayKey f") (simp_all add: RawSet_def slot_of_cases)
  next
    case (LString s)
    then show ?thesis using writes_string [OF ok imm] imm by (simp add: RawSet_def slot_of_cases)
  qed (use key imm H in \<open>auto simp: RawSet_def slot_of_cases\<close>)
qed

lemma RawGetH_other:
  assumes ok: "base_ok t" and key: "lua_key key" "\<And>s. key \<noteq> LString s" "\<And>n. slot_of key \<noteq> ArrayKey n"
  shows "RawGetH key t = content t (slot_of key)"
proof -
  define k where "k = tableKey 0 t key False"
  have no_str: "slot_of key \<noteq> StrKey x" for x using key(1,2) by (cases key) (auto simp: slot_of_def numericTableKey_def split: if_splits option.splits)
  have c: "content t (slot_of key) = (case hmap (dict t) (slot_of key) of Some v \<Rightarrow> v | None \<Rightarrow> LNil)"
  proof (cases "slot_of key")
    case (ArrayKey n)
    then show ?thesis using key(3) by blast
  next
    case (StrKey x)
    then show ?thesis using no_str by blast
  qed (simp_all add: content_simps)
  have g: "RawGetH key t = (case mget (dict t) k of Some v \<Rightarrow> v | None \<Rightarrow> LNil)"
  proof (cases "(\<exists>c. key = LGoFunc c) \<or> (\<exists>a nk c. key = LFunction a nk c)")
    case True
    note spec = tableKey_spec [OF base_okD(1) [OF ok] key(1,2), of 0 False, folded k_def]
    have k: "(\<forall>s. k \<noteq> LString s) \<and> numericTableKey k = k"
      using spec numericTableKey_dict [of k] by (cases k) (auto simp: numericTableKey_def)
    have kc: "(case key of LGoFunc _ \<Rightarrow> tableKey 0 t key False | LFunction _ _ _ \<Rightarrow> tableKey 0 t key False | _ \<Rightarrow> key) = k"
      using True by (auto simp: k_def)
    have "RawGetH key t = (case k of LString s \<Rightarrow> RawGetString s t
        | _ \<Rightarrow> (case Dict t of None \<Rightarrow> LNil
          | Some m \<Rightarrow> (case mget m (numericTableKey k) of Some v \<Rightarrow> v | None \<Rightarrow> LNil)))"
      unfolding RawGetH_def Let_def kc ..
    then show ?thesis using k by (cases k; cases "Dict t") (simp_all add: mget_def)
  next
    case False
    have k: "k = numericTableKey key" using key False by (cases key) (auto simp: k_def tableKey_def numericTableKey_def)
    have "RawGetH key t = (case Dict t of None \<Rightarrow> LNil
        | Some m \<Rightarrow> (case mget m (numericTableKey key) of Some v \<Rightarrow> v | None \<Rightarrow> LNil))"
      using False key(1,2) by (cases key) (auto simp: RawGetH_def)
    then show ?thesis using k by (cases "Dict t") (simp_all add: mget_def)
  qed
  note spec = tableKey_spec [OF base_okD(1) [OF ok] key(1,2), of 0 False, folded k_def]
  show ?thesis
  proof (cases "dict_key k \<and> slot_of k = slot_of key")
    case True
    then show ?thesis using g c mget_hmap [OF base_okD(1) [OF ok], of k] spec by simp
  next
    case False
    then obtain cd where n: "hmap (dict t) (slot_of key) = None" "k = nativeFunctionCursor cd" using spec by blast
    have "mget (dict t) k = None" using mget_None [of k "dict t"] dict_ok_key [OF base_okD(1) [OF ok], of k] n by auto
    then show ?thesis using g c n by simp
  qed
qed

lemma getIntKey_content:
  assumes ok: "base_ok t" and n: "0 < n" "n < MaxArrayIndex"
  shows "getIntKey n t = content t (ArrayKey n)"
proof (cases "n \<le> int (length (arr t))")
  case True
  then show ?thesis using n by (simp add: getIntKey_def content_simps)
next
  case False
  then show ?thesis using n dict_akey(1) [OF ok n] by (cases "Dict t") (simp_all add: getIntKey_def content_simps hmap_Nil)
qed

lemma RawGet_content:
  assumes ok: "base_ok t" and key: "lua_key key"
  shows "RawGet key t = content t (slot_of key)"
proof -
  note H = RawGetH_other [OF ok key]
  show ?thesis
  proof (cases key)
    case (LInteger i)
    then show ?thesis using H getIntKey_content [OF ok, of i] by (auto simp: RawGet_def slot_of_Integer)
  next
    case (LNumber f)
    then show ?thesis using H getIntKey_content [OF ok, of "float_to_int f"] isArrayKey_float_to_int [of f]
      by (cases "isArrayKey f") (simp_all add: RawGet_def slot_of_cases)
  next
    case (LString s)
    then show ?thesis by (cases "Strdict t") (simp_all add: RawGet_def RawGetString_def slot_of_cases content_simps)
  qed (use key H in \<open>auto simp: RawGet_def slot_of_cases\<close>)
qed

section \<open>List operations\<close>

lemma len_loop_nil: "len_loop xs LNil = length (dropWhile (\<lambda>v. v = LNil) xs)"
  by (induction xs) auto

lemma LTable_Len_eq: "LTable_Len t = int (length (dropWhile (\<lambda>v. v = LNil) (rev (arr t))))"
  by (simp add: LTable_Len_def len_loop_nil split: option.splits)

text \<open>An array is its elements up to the length and trailing nils.\<close>

lemma len_split:
  obtains ys m where "arr t = ys @ replicate m LNil" "LTable_Len t = int (length ys)" "ys = [] \<or> last ys \<noteq> LNil"
proof
  let ?d = "dropWhile (\<lambda>v. v = LNil) (rev (arr t))"
  let ?w = "takeWhile (\<lambda>v. v = LNil) (rev (arr t))"
  have "rev (arr t) = ?w @ ?d" by simp
  then have "arr t = rev ?d @ rev ?w" by (metis rev_append rev_rev_ident)
  moreover have "?w = replicate (length ?w) LNil"
    by (rule replicate_length_same [symmetric]) (auto dest: set_takeWhileD)
  ultimately show "arr t = rev ?d @ replicate (length ?w) LNil" by (metis rev_replicate)
  show "LTable_Len t = int (length (rev ?d))" by (simp add: LTable_Len_eq)
  show "rev ?d = [] \<or> last (rev ?d) \<noteq> LNil" using hd_dropWhile [of "\<lambda>v. v = LNil" "rev (arr t)"] by (auto simp: last_rev)
qed

lemma len_border_content:
  assumes "table_ok t"
  shows "LTable_Len t = 0 \<or> content t (ArrayKey (LTable_Len t)) \<noteq> LNil" "content t (ArrayKey (LTable_Len t + 1)) = LNil"
    "0 \<le> LTable_Len t" "LTable_Len t \<le> int (length (arr t))"
proof -
  obtain ys m where a: "arr t = ys @ replicate m LNil" and l: "LTable_Len t = int (length ys)" and ne: "ys = [] \<or> last ys \<noteq> LNil"
    by (rule len_split)
  show "0 \<le> LTable_Len t" "LTable_Len t \<le> int (length (arr t))" by (simp_all add: l a)
  show "LTable_Len t = 0 \<or> content t (ArrayKey (LTable_Len t)) \<noteq> LNil"
  proof (cases "ys = []")
    case True
    then show ?thesis by (simp add: l)
  next
    case False
    have "nat (int (length ys) - 1) = length ys - 1" by simp
    then have "arr t ! nat (int (length ys) - 1) = last ys" using False by (simp add: a nth_append last_conv_nth)
    then show ?thesis using False ne by (simp add: l content_simps a)
  qed
  show "content t (ArrayKey (LTable_Len t + 1)) = LNil"
    using assms by (cases "m = 0") (simp_all add: l a content_simps table_ok_def nth_append)
qed

lemma newLTable_ok: "table_ok (newLTable acap hcap) \<and> \<not> Immutable (newLTable acap hcap) \<and> content (newLTable acap hcap) = (\<lambda>_. LNil)"
proof -
  let ?t = "newLTable acap hcap"
  have f: "arr ?t = []" "dict ?t = []" "strs ?t = []" "Keys ?t = None" "K2i ?t = []" "\<not> Immutable ?t"
    by (simp_all add: newLTable_def Let_def)
  have "base_ok ?t" unfolding base_ok_def live_def f by (simp add: dict_ok_Nil hmap_Nil iter_inv_def mget_def)
  moreover have "content ?t s = LNil" for s by (cases s) (auto simp: content_simps f hmap_Nil)
  ultimately show ?thesis by (auto simp: table_ok_def f hmap_Nil)
qed

text \<open>Growing the array by one value at its end, then pulling in what follows it.\<close>

lemma grow_pull:
  assumes ok: "table_ok t" and imm: "\<not> Immutable t" and len: "int (length (arr t)) + 1 < MaxArrayIndex"
  defines "n \<equiv> int (length (arr t)) + 1"
  shows "writes t (pullHashed fresh (forgetDeletedArrayKey n (append_arr v t))) (ArrayKey n) v"
    "dict t = [] \<Longrightarrow> writes t (forgetDeletedArrayKey n (append_arr v t)) (ArrayKey n) v"
proof -
  have b: "base_ok t" using ok by (simp add: table_ok_def)
  have e: "forgetDeletedArrayKey n (append_arr v t) = append_arr v (forgetDeletedArrayKey n t)"
    by (simp add: append_arr_def forget_array)
  have n0: "0 < n" "n < MaxArrayIndex" using len by (simp_all add: n_def)
  have h: "hmap (dict t) (ArrayKey n) = None" using ok by (simp add: table_ok_def n_def)
  have a: "base_ok (append_arr v (forgetDeletedArrayKey n t)) \<and>
      content (append_arr v (forgetDeletedArrayKey n t)) = (content (forgetDeletedArrayKey n t))(ArrayKey n := v) \<and>
      Immutable (append_arr v (forgetDeletedArrayKey n t)) = Immutable t \<and> dict (append_arr v (forgetDeletedArrayKey n t)) = dict t"
    using append_ok [OF base_ok_forget [OF b], of n v] forget_absent [OF b n0 h] h len by (simp add: n_def)
  have c: "content (forgetDeletedArrayKey n t) = content t" by (rule content_cong) simp_all
  show "writes t (pullHashed fresh (forgetDeletedArrayKey n (append_arr v t))) (ArrayKey n) v"
    unfolding e writes_def using pullHashed_ok [of "append_arr v (forgetDeletedArrayKey n t)" fresh] a c imm by simp
  show "dict t = [] \<Longrightarrow> writes t (forgetDeletedArrayKey n (append_arr v t)) (ArrayKey n) v"
    unfolding e writes_def table_ok_def using a c imm by (simp add: hmap_Nil)
qed

lemma table_ok_array_made: "table_ok t \<Longrightarrow> table_ok (t\<lparr>Array := Some (arr t)\<rparr>) \<and> content (t\<lparr>Array := Some (arr t)\<rparr>) = content t"
  using base_ok_flags [of "t\<lparr>Array := Some (arr t)\<rparr>" t] content_cong [of "t\<lparr>Array := Some (arr t)\<rparr>" t] by (simp add: table_ok_def)

lemma writes_from: "content t' = content t \<Longrightarrow> writes t' u s v \<Longrightarrow> writes t u s v"
  by (simp add: writes_def)

lemma Append_writes:
  assumes ok: "table_ok t" and imm: "\<not> Immutable t" and len: "int (length (arr t)) + 1 < MaxArrayIndex"
  shows "writes t (snd (LTable_Append fresh v t)) (ArrayKey (LTable_Len t + 1)) v"
proof (cases "v = LNil")
  case True
  then show ?thesis using ok imm len_border_content(2) [OF ok] by (simp add: LTable_Append_def writes_def fun_upd_idem)
next
  case False
  let ?u = "t\<lparr>Array := Some (arr t)\<rparr>"
  have u: "table_ok ?u" "content ?u = content t" "\<not> Immutable ?u" "arr ?u = arr t" "dict ?u = dict t"
    using table_ok_array_made [OF ok] imm by simp_all
  obtain ys m where a: "arr t = ys @ replicate m LNil" and l: "LTable_Len t = int (length ys)" and ne: "ys = [] \<or> last ys \<noteq> LNil"
    by (rule len_split)
  show ?thesis
  proof (cases "m = 0")
    case True
    have full: "arr t = [] \<or> last (arr t) \<noteq> LNil" using a ne True by auto
    have l': "LTable_Len t + 1 = int (length (arr t)) + 1" using a l True by simp
    have d: "length (arr (append_arr v ?u)) = length (arr t) + 1" "dict (append_arr v ?u) = dict t" by (simp_all add: append_arr_def)
    have "snd (LTable_Append fresh v t) = (let w = forgetDeletedArrayKey (int (length (arr t)) + 1) (append_arr v ?u)
        in if dict t \<noteq> [] then pullHashed fresh w else w)"
      using False imm full d by (auto simp: LTable_Append_def Let_def add.commute)
    then show ?thesis
      using grow_pull(1) [OF u(1,3), of fresh v] grow_pull(2) [OF u(1,3), of v] u len writes_from [OF u(2)] l'
      by (simp add: Let_def)
  next
    case False
    then have last: "arr t \<noteq> [] \<and> last (arr t) = LNil" using a by (cases m) (auto simp: last_append last_replicate)
    have "tl (rev (arr t)) = replicate (m - 1) LNil @ rev ys" using a False by (cases m) (auto simp: replicate_app_Cons_same)
    then have "dropWhile (\<lambda>v. v = LNil) (tl (rev (arr t))) = rev ys"
      using ne by (auto simp: dropWhile_append dropWhile_eq_self_iff hd_rev)
    then have n: "length (dropWhile (\<lambda>v. v = LNil) (tl (rev (arr t)))) = length ys" by simp
    have "snd (LTable_Append fresh v t) = forgetDeletedArrayKey (int (length ys) + 1) (?u\<lparr>Array := Some ((arr t)[length ys := v])\<rparr>)"
      using \<open>v \<noteq> LNil\<close> imm last n by (simp add: LTable_Append_def Let_def)
    moreover have "writes ?u (forgetDeletedArrayKey (int (length ys) + 1) (?u\<lparr>Array := Some ((arr ?u)[nat (int (length ys) + 1 - 1) := v])\<rparr>))
        (ArrayKey (int (length ys) + 1)) v"
      by (rule writes_array [OF u(1,3)]) (use a False in simp_all)
    ultimately show ?thesis using writes_from [OF u(2)] l by simp
  qed
qed

text \<open>Another array of any length, where the positions that it gains are nowhere else.\<close>

lemma new_array_ok:
  assumes ok: "base_ok t" and len: "int (length xs) < MaxArrayIndex"
    and new: "\<And>n. int (length (arr t)) < n \<Longrightarrow> n \<le> int (length xs) \<Longrightarrow> hmap (dict t) (ArrayKey n) = None \<and> mget (K2i t) (akey n) = None"
  shows "base_ok (t\<lparr>Array := Some xs\<rparr>)"
proof (rule base_ok_array [OF ok])
  fix n assume "int (length (arr t)) < n" "n \<le> int (length (arr (t\<lparr>Array := Some xs\<rparr>)))"
  then show "hmap (dict t) (ArrayKey n) = None \<and> mget (K2i (t\<lparr>Array := Some xs\<rparr>)) (akey n) = None" using new [of n] by simp
qed (use base_okD(5,6) [OF ok] len in simp_all)

lemma content_other: "\<forall>k. s \<noteq> ArrayKey k \<Longrightarrow> dict t' = dict t \<Longrightarrow> strs t' = strs t \<Longrightarrow> content t' s = content t s"
  by (cases s) (simp_all add: content_simps)

text \<open>The content after the elements from a position on have moved up or down by one.\<close>

definition shifted_up :: "int \<Rightarrow> int \<Rightarrow> lvalue \<Rightarrow> (slot \<Rightarrow> lvalue) \<Rightarrow> slot \<Rightarrow> lvalue" where
  "shifted_up i n v c s = (case s of ArrayKey k \<Rightarrow>
     if k = i then v else if i < k \<and> k \<le> n + 1 then c (ArrayKey (k - 1)) else c s | _ \<Rightarrow> c s)"

definition shifted_down :: "int \<Rightarrow> int \<Rightarrow> (slot \<Rightarrow> lvalue) \<Rightarrow> slot \<Rightarrow> lvalue" where
  "shifted_down i n c s = (case s of ArrayKey k \<Rightarrow>
     if i \<le> k \<and> k < n then c (ArrayKey (k + 1)) else if k = n then LNil else c s | _ \<Rightarrow> c s)"

lemma Remove_ok:
  assumes ok: "table_ok t" and imm: "\<not> Immutable t" and pos: "1 \<le> pos" "pos \<le> LTable_Len t"
  shows "table_ok (snd (LTable_Remove pos t)) \<and> fst (LTable_Remove pos t) = (content t (ArrayKey pos), True) \<and>
    content (snd (LTable_Remove pos t)) = shifted_down pos (LTable_Len t) (content t) \<and> \<not> Immutable (snd (LTable_Remove pos t))"
proof -
  have b: "base_ok t" using ok by (simp add: table_ok_def)
  obtain ys m where a: "arr t = ys @ replicate m LNil" and l: "LTable_Len t = int (length ys)" and ne: "ys = [] \<or> last ys \<noteq> LNil"
    by (rule len_split)
  let ?n = "length ys"
  define i where "i = nat (pos - 1)"
  have i: "int i = pos - 1" "i < ?n" using pos l by (simp_all add: i_def)
  have "is_int64 (pos - 1)" using pos l a base_okD(7) [OF b] by (simp add: is_int64_def)
  then have w: "wrap64 (pos - 1) = int i" using i by simp
  have A: "Array t \<noteq> None" using i a by (cases "Array t") auto
  let ?xs = "take i (arr t) @ drop (i + 1) (take ?n (arr t))"
  have xs: "?xs = take i ys @ drop (i + 1) ys" using i by (simp add: a)
  let ?t = "forgetDeletedArrayKey (int ?n) (t\<lparr>Array := Some ?xs\<rparr>)"
  have g: "int ?n \<noteq> 0" "\<not> int ?n \<le> int i" "\<not> int i < 0" "nat (int ?n) = ?n" "nat (int i) = i" using i by auto
  have "LTable_Remove pos t =
      (if int i = int ?n - 1 then ((arr t ! (?n - 1), True), forgetDeletedArrayKey (int ?n) (t\<lparr>Array := Some (take (?n - 1) (arr t))\<rparr>))
       else ((arr t ! i, True), ?t))"
    unfolding LTable_Remove_def Let_def l w g(4,5) using imm A by (simp only: g if_False) simp
  moreover have "take (?n - 1) (arr t) = ?xs \<and> ?n - 1 = i" if "int i = int ?n - 1"
  proof -
    from that have "?n - 1 = i" by linarith
    then show ?thesis by (auto simp: a)
  qed
  ultimately have e: "LTable_Remove pos t = ((ys ! i, True), ?t)" using i by (simp add: a nth_append)
  have len: "length ?xs = ?n - 1" unfolding xs using i by simp
  have bt: "base_ok ?t"
    by (intro base_ok_forget new_array_ok [OF b]) (use len a base_okD(7) [OF b] in simp_all)
  have h: "hmap (dict t) (ArrayKey k) = None" if "k \<le> int (length (arr t))" for k
    using base_okD(4) [OF b, of k] that by (cases "hmap (dict t) (ArrayKey k)") auto
  have "content ?t (ArrayKey k) = shifted_down pos (int ?n) (content t) (ArrayKey k)" for k
  proof -
    have "content ?t (ArrayKey k) = (if 0 < k \<and> k < int ?n then (take i ys @ drop (i + 1) ys) ! nat (k - 1)
        else case hmap (dict t) (ArrayKey k) of Some v \<Rightarrow> v | None \<Rightarrow> LNil)"
    proof -
      have tA: "arr ?t = take i ys @ drop (i + 1) ys" and tD: "dict ?t = dict t" using xs by simp_all
      have "length (take i ys @ drop (i + 1) ys) = ?n - 1" using i by simp
      then have "k \<le> int (length (take i ys @ drop (i + 1) ys)) \<longleftrightarrow> k < int ?n" using i by auto
      then show ?thesis unfolding content_simps tA tD by (simp only:)
    qed
    moreover have "(take i ys @ drop (i + 1) ys) ! nat (k - 1) = (if k < pos then ys ! nat (k - 1) else ys ! nat k)" if "0 < k" "k < int ?n"
      using that i by (auto simp: nth_append nth_drop nat_diff_distrib min_def Suc_nat_eq_nat_zadd1 intro!: arg_cong [of _ _ "(!) ys"])
    ultimately show ?thesis using i h [of k] by (auto simp: shifted_down_def content_simps a nth_append)
  qed
  moreover have "content ?t s = content t s" if "\<forall>k. s \<noteq> ArrayKey k" for s
    by (rule content_other [OF that]) simp_all
  ultimately have "content ?t s = shifted_down pos (int ?n) (content t) s" for s
    by (cases s) (simp_all add: shifted_down_def)
  then have c: "content ?t = shifted_down pos (int ?n) (content t)" by (rule ext)
  have "table_ok ?t" using bt h len i a by (simp add: table_ok_def)
  moreover have "ys ! i = content t (ArrayKey pos)" using i pos l by (simp add: content_simps a nth_append i_def)
  ultimately show ?thesis using e c imm l by simp
qed

lemma Insert_ok:
  assumes ok: "table_ok t" and imm: "\<not> Immutable t" and pos: "1 \<le> pos" "pos \<le> LTable_Len t"
    and len: "int (length (arr t)) + 1 < MaxArrayIndex"
  shows "table_ok (snd (LTable_Insert fresh pos v t)) \<and> fst (LTable_Insert fresh pos v t) \<and>
    content (snd (LTable_Insert fresh pos v t)) = shifted_up pos (LTable_Len t) v (content t) \<and>
    \<not> Immutable (snd (LTable_Insert fresh pos v t))"
proof -
  have b: "base_ok t" using ok by (simp add: table_ok_def)
  obtain ys m where a: "arr t = ys @ replicate m LNil" and l: "LTable_Len t = int (length ys)" and ne: "ys = [] \<or> last ys \<noteq> LNil"
    by (rule len_split)
  let ?n = "length ys"
  define i where "i = nat (pos - 1)"
  have i: "int i = pos - 1" "i < ?n" using pos l by (simp_all add: i_def)
  let ?xs = "take i ys @ [v] @ drop i ys @ replicate (m - 1) LNil"
  define u where "u = forgetDeletedArrayKey (int ?n + 1) t"
  have e: "LTable_Insert fresh pos v t = (True, pullHashed fresh (u\<lparr>Array := Some ?xs\<rparr>))"
  proof -
    define zs where "zs = (if ?n = length (arr t) then arr t @ [LNil] else arr t)"
    have zs: "zs = ys @ LNil # replicate (m - 1) LNil" by (cases m) (simp_all add: zs_def a)
    have "(take (i + 1) zs @ drop i (take ?n zs) @ drop (?n + 1) zs)[i := v] = ?xs"
    proof -
      have "take (i + 1) zs = take i ys @ [ys ! i]" using i by (simp add: zs take_Suc_conv_app_nth)
      then show ?thesis using i by (simp add: zs list_update_append)
    qed
    moreover have g: "\<not> LTable_Len t < pos" "\<not> pos \<le> 0" "nat (LTable_Len t) = ?n" "nat (pos - 1) = i" "LTable_Len t + 1 = int ?n + 1"
      using pos l by (simp_all add: i_def)
    ultimately show ?thesis unfolding LTable_Insert_def Let_def g zs_def [symmetric] using imm
      by (simp add: g(1,2) forget_array u_def)
  qed
  have bu: "base_ok u" and u: "arr u = arr t" "dict u = dict t" "strs u = strs t" "\<not> Immutable u"
    using base_ok_forget [OF b] imm by (simp_all add: u_def)
  have lx: "length ?xs = (if m = 0 then ?n + 1 else length (arr t))" using i a by auto
  have n1: "hmap (dict t) (ArrayKey (int ?n + 1)) = None"
  proof (cases "m = 0")
    case True
    then show ?thesis using ok a by (simp add: table_ok_def)
  next
    case False
    then show ?thesis using base_okD(4) [OF b, of "int ?n + 1"] a by (cases "hmap (dict t) (ArrayKey (int ?n + 1))") auto
  qed
  have bx: "base_ok (u\<lparr>Array := Some ?xs\<rparr>)"
  proof (rule new_array_ok [OF bu])
    show "int (length ?xs) < MaxArrayIndex" using len lx a by auto
    fix k assume "int (length (arr u)) < k" "k \<le> int (length ?xs)"
    then have k: "k = int ?n + 1" using lx u a by (auto split: if_splits)
    show "hmap (dict u) (ArrayKey k) = None \<and> mget (K2i u) (akey k) = None"
      using n1 u forget_absent [OF b _ _ n1] len a by (simp add: k u_def)
  qed
  have "content (u\<lparr>Array := Some ?xs\<rparr>) (ArrayKey k) = shifted_up pos (int ?n) v (content t) (ArrayKey k)" for k
  proof (cases "0 < k \<and> k \<le> int ?n + 1")
    case True
    then have "content (u\<lparr>Array := Some ?xs\<rparr>) (ArrayKey k) = ?xs ! nat (k - 1)" using lx a by (auto simp: content_simps)
    also have "\<dots> = (if k = pos then v else if pos < k then ys ! nat (k - 2) else ys ! nat (k - 1))"
      using True i by (auto simp: nth_append nth_Cons nat_diff_distrib min_def split: nat.splits intro!: arg_cong [of _ _ "(!) ys"])
    finally show ?thesis using True i pos l by (auto simp: shifted_up_def content_simps a nth_append)
  next
    case False
    have up: "shifted_up pos (int ?n) v (content t) (ArrayKey k) = content t (ArrayKey k)"
      using False i by (auto simp: shifted_up_def)
    consider "k \<le> 0" | "int ?n + 1 < k" "k \<le> int (length (arr t))" | "int ?n + 1 < k" "int (length (arr t)) < k" using False by linarith
    then show ?thesis
    proof cases
      case 1
      then show ?thesis unfolding up using u by (simp add: content_simps)
    next
      case 2
      then have m: "m \<noteq> 0" using a by auto
      have "?xs = (take i ys @ [v] @ drop i ys) @ replicate (m - 1) LNil" by simp
      moreover have "length (take i ys @ [v] @ drop i ys) = ?n + 1" using i by simp
      ultimately have "?xs ! nat (k - 1) = LNil" using 2 a m by (simp only: nth_append) auto
      moreover have "arr t ! nat (k - 1) = LNil" using 2 a by (auto simp: nth_append)
      ultimately show ?thesis unfolding up using 2 lx m by (simp add: content_simps)
    next
      case 3
      then show ?thesis unfolding up using u lx by (simp add: content_simps)
    qed
  qed
  moreover have "content (u\<lparr>Array := Some ?xs\<rparr>) s = content t s" if "\<forall>k. s \<noteq> ArrayKey k" for s
    by (rule content_other [OF that]) (use u in simp_all)
  ultimately have "content (u\<lparr>Array := Some ?xs\<rparr>) s = shifted_up pos (int ?n) v (content t) s" for s
    by (cases s) (simp_all add: shifted_up_def)
  then have "content (u\<lparr>Array := Some ?xs\<rparr>) = shifted_up pos (int ?n) v (content t)" by (rule ext)
  then show ?thesis using e pullHashed_ok [OF bx, of fresh] u l by simp
qed

end
