(* ===== verification/TableNext.thy ===== *)
theory TableNext
  imports TableMap
begin

text \<open>
  Traversal of a table with \<open>Next\<close>: from every point of a traversal the fields that are left are
  given in one fixed order, also when fields that were given are cleared, and a whole traversal gives
  every field once.
\<close>

section \<open>The fields from a point of the traversal on\<close>

fun afields :: "lvalue list \<Rightarrow> nat \<Rightarrow> (lvalue \<times> lvalue) list" where
  "afields [] i = []"
| "afields (v # vs) i = (if v \<noteq> LNil then [(akey (int i + 1), v)] else []) @ afields vs (i + 1)"

fun kfields :: "ltable \<Rightarrow> lvalue option list \<Rightarrow> (lvalue \<times> lvalue) list" where
  "kfields t [] = []"
| "kfields t (None # ks) = kfields t ks"
| "kfields t (Some k # ks) = (if RawGetH k t \<noteq> LNil then [(nativeKeyValue k, RawGetH k t)] else []) @ kfields t ks"

definition rest :: "ltable \<Rightarrow> nat \<times> nat \<Rightarrow> (lvalue \<times> lvalue) list" where
  "rest t p = afields (drop (fst p) (arr t)) (fst p) @ kfields t (drop (snd p) (slice (Keys t)))"

lemma scan_array_fields: "scan_array vs i = (case afields vs i of [] \<Rightarrow> None | r # _ \<Rightarrow> Some r)"
  by (induction vs arbitrary: i) auto

lemma scan_keys_fields: "scan_keys t ks = (case kfields t ks of [] \<Rightarrow> None | r # _ \<Rightarrow> Some r)"
  by (induction t ks rule: scan_keys.induct) auto

lemma afields_Cons:
  "afields vs i = r # rs \<Longrightarrow>
   \<exists>j < length vs. r = (akey (int (i + j) + 1), vs ! j) \<and> vs ! j \<noteq> LNil \<and> rs = afields (drop (Suc j) vs) (i + Suc j)"
proof (induction vs arbitrary: i)
  case (Cons v vs)
  show ?case
  proof (cases "v = LNil")
    case True
    then have "afields vs (i + 1) = r # rs" using Cons.prems by simp
    from Cons.IH [OF this] obtain j where "j < length vs" "r = (akey (int (i + 1 + j) + 1), vs ! j)" "vs ! j \<noteq> LNil"
      "rs = afields (drop (Suc j) vs) (i + 1 + Suc j)" by blast
    then show ?thesis by (intro exI [of _ "Suc j"]) simp
  next
    case False
    then show ?thesis using Cons.prems by (intro exI [of _ 0]) auto
  qed
qed simp

lemma kfields_Cons:
  "kfields t ks = r # rs \<Longrightarrow>
   \<exists>j k. j < length ks \<and> ks ! j = Some k \<and> r = (nativeKeyValue k, RawGetH k t) \<and> RawGetH k t \<noteq> LNil \<and> rs = kfields t (drop (Suc j) ks)"
proof (induction ks)
  case (Cons x ks)
  show ?case
  proof (cases "\<exists>k. x = Some k \<and> RawGetH k t \<noteq> LNil")
    case True
    then show ?thesis using Cons.prems by (intro exI [of _ 0]) auto
  next
    case False
    then have "kfields t ks = r # rs" using Cons.prems by (cases x) auto
    from Cons.IH [OF this] obtain j k where "j < length ks" "ks ! j = Some k" "r = (nativeKeyValue k, RawGetH k t)"
      "RawGetH k t \<noteq> LNil" "rs = kfields t (drop (Suc j) ks)" by blast
    then show ?thesis by (intro exI [of _ "Suc j"] exI [of _ k]) simp
  qed
qed simp

lemma kfields_cong: "(\<And>k. Some k \<in> set ks \<Longrightarrow> RawGetH k t' = RawGetH k t) \<Longrightarrow> kfields t' ks = kfields t ks"
proof (induction ks)
  case (Cons x ks)
  then show ?case by (cases x) auto
qed simp

text \<open>A live key is read from where it is kept.\<close>

lemma RawGetH_live:
  assumes ok: "base_ok t" and k: "k \<in> live t"
  shows "RawGetH k t = content t (slot_of k)" "RawGetH k t \<noteq> LNil" "tableKey 0 t (nativeKeyValue k) False = k"
    "lua_key (nativeKeyValue k)" "slot_of (nativeKeyValue k) = slot_of k"
    "\<And>n. slot_of k = ArrayKey n \<Longrightarrow> int (length (arr t)) < n"
proof -
  have val: "\<exists>v. map_of (strs t) s = Some v \<and> v \<noteq> LNil" if "k = LString s" for s
  proof -
    have "s \<in> fst ` set (strs t)" using k that dict_ok_key [OF base_okD(1) [OF ok], of k] by (auto simp: live_def)
    then obtain v where v: "map_of (strs t) s = Some v" using weak_map_of_SomeI by fastforce
    then have "v \<noteq> LNil" using base_okD(3) [OF ok] map_of_SomeD [OF v] by (auto simp: image_iff)
    with v show ?thesis by blast
  qed
  have dk: "k \<in> fst ` set (dict t) \<and> dict_key k" if "\<And>s. k \<noteq> LString s"
    using k that dict_ok_key [OF base_okD(1) [OF ok], of k] by (auto simp: live_def)
  have num: "numericTableKey k = k" if "\<And>s. k \<noteq> LString s" using dk [OF that] numericTableKey_dict by blast
  have h: "hmap (dict t) (slot_of k) = mget (dict t) k" if "\<And>s. k \<noteq> LString s"
    using mget_hmap [OF base_okD(1) [OF ok], of k] sole_member [OF base_okD(1) [OF ok], of k] dk [OF that] by simp
  have hv: "\<exists>v. mget (dict t) k = Some v \<and> v \<noteq> LNil" if "\<And>s. k \<noteq> LString s"
  proof -
    have "mget (dict t) k \<noteq> None" using dk [OF that] mget_None [of k "dict t"] dict_key_nan [of k] by blast
    then show ?thesis using h [OF that] hmap_value [OF base_okD(1) [OF ok], of "slot_of k"] by auto
  qed
  show pos: "int (length (arr t)) < n" if "slot_of k = ArrayKey n" for n
  proof -
    have ns: "k \<noteq> LString s" for s using that by (auto simp: slot_of_cases)
    then show ?thesis using base_okD(4) [OF ok, of n] h hv that by auto
  qed
  have tk: "tableKey 0 t (nativeKeyValue k) False = k \<and> lua_key (nativeKeyValue k) \<and> slot_of (nativeKeyValue k) = slot_of k"
  proof (cases "\<exists>a c. k = LFunction a True c")
    case True
    then obtain a c where kf: "k = LFunction a True c" by blast
    let ?f = "find (\<lambda>k. nativeFunctionID k = Some c) (map fst (dict t))"
    have "\<exists>x. ?f = Some x" using dk kf by (cases ?f) (force simp: find_None_iff)+
    then obtain x where x: "?f = Some x" by blast
    then have "x \<in> fst ` set (dict t)" "nativeFunctionID x = Some c"
      by (auto simp: find_Some_iff in_set_conv_nth image_iff) (metis nth_mem)
    then have "x = k"
      using dict_ok_same_slot [OF base_okD(1) [OF ok], of x k] slot_of_native [of x c] dict_ok_key [OF base_okD(1) [OF ok]] dk kf
      by (simp add: slot_of_def numericTableKey_def)
    then show ?thesis using x kf by (simp add: tableKey_def slot_of_def numericTableKey_def)
  next
    case False
    then have nk: "nativeKeyValue k = k" by (cases k) auto
    have "tableKey 0 t k False = k"
      using False num dk by (cases k) (auto simp: tableKey_def)
    moreover have "lua_key k" using False dk by (cases k) auto
    ultimately show ?thesis using nk by simp
  qed
  then show "tableKey 0 t (nativeKeyValue k) False = k" "lua_key (nativeKeyValue k)" "slot_of (nativeKeyValue k) = slot_of k" by blast+
  have cd: "content t (slot_of k) = (case hmap (dict t) (slot_of k) of Some v \<Rightarrow> v | None \<Rightarrow> LNil)" if "\<And>s. k \<noteq> LString s"
  proof -
    have "slot_of k \<noteq> StrKey x" for x using num [OF that] that by (auto simp: slot_of_def split: lvalue.splits if_splits)
    then show ?thesis using pos by (cases "slot_of k") (auto simp: content_simps)
  qed
  show g: "RawGetH k t = content t (slot_of k)"
  proof (cases "\<exists>s. k = LString s")
    case True
    then show ?thesis by (cases "Strdict t") (auto simp: RawGetH_def RawGetString_def slot_of_cases content_simps)
  next
    case False
    have "RawGetH k t = (case mget (dict t) k of Some v \<Rightarrow> v | None \<Rightarrow> LNil)"
    proof (cases "\<exists>a nk c. k = LFunction a nk c")
      case True
      then have "tableKey 0 t k False = k" using hv False by (auto simp: tableKey_def)
      with True show ?thesis using num False by (cases "Dict t") (auto simp: RawGetH_def mget_def)
    next
      case nf: False
      then show ?thesis using num dk False by (cases k; cases "Dict t") (auto simp: RawGetH_def mget_def)
    qed
    then show ?thesis using h False cd by simp
  qed
  show "RawGetH k t \<noteq> LNil"
  proof (cases "\<exists>s. k = LString s")
    case True
    then obtain s where s: "k = LString s" by blast
    have "content t (slot_of k) \<noteq> LNil" using val [OF s] by (auto simp: s slot_of_cases content_simps)
    with g show ?thesis by simp
  next
    case False
    then show ?thesis unfolding g using cd h hv by auto
  qed
qed

section \<open>One step of a traversal\<close>

text \<open>A key of the traversal, as a position from which the traversal goes on.\<close>

definition cursor :: "ltable \<Rightarrow> lvalue \<Rightarrow> (nat \<times> nat) option" where
  "cursor t key = start_after (tableKey 0 t key False) t"

lemma Next_rest:
  assumes "Keys t \<noteq> None" "cursor t key = Some p"
  shows "LTable_Next rng key t = (case rest t p of [] \<Rightarrow> ((LNil, LNil), t) | r # _ \<Rightarrow> (r, t))"
proof -
  have e: "ensureIterationOrder rng t = t" using assms(1) by (auto simp: ensureIterationOrder_def)
  obtain ai hi where p: "p = (ai, hi)" by force
  show ?thesis using assms(2)
    by (simp add: LTable_Next_def Let_def e cursor_def p rest_def scan_array_fields scan_keys_fields split: list.splits)
qed

lemma cursor_nil: "cursor t LNil = Some (0, 0)"
  by (simp add: cursor_def tableKey_def start_after_def)

lemma cursor_array:
  assumes ok: "base_ok t" and n: "0 < n" "n \<le> int (length (arr t))"
  shows "cursor t (akey n) = Some (nat n, 0)"
proof -
  have b: "n < MaxArrayIndex" using n base_okD(7) [OF ok] by linarith
  have "tableKey 0 t (akey n) False = akey n" using numericTableKey_akey [OF n(1) b] by (simp add: tableKey_numeric)
  then show ?thesis using base_okD(6) [OF ok n] n b by (simp add: cursor_def start_after_def)
qed

lemma cursor_live:
  assumes ok: "base_ok t" and K: "Keys t = Some ks" and i: "i < length ks" "ks ! i = Some k"
  shows "cursor t (nativeKeyValue k) = Some (length (arr t), i + 1)" "k \<in> live t"
proof -
  note I = iter_inv_Some [OF base_okD(5) [OF ok, unfolded K]]
  show live: "k \<in> live t" using I(3) [OF i] .
  have "k \<noteq> LNil" using live dict_ok_key [OF base_okD(1) [OF ok], of k] by (auto simp: live_def)
  then show "cursor t (nativeKeyValue k) = Some (length (arr t), i + 1)"
    using RawGetH_live(3) [OF ok live] I(4) [OF i] by (simp add: cursor_def start_after_def)
qed

text \<open>Clearing a field of the array.\<close>

lemma clear_array:
  fixes fresh :: nat
  assumes ok: "table_ok t" and imm: "\<not> Immutable t" and K: "Keys t = Some ks" and n: "0 < n" "n \<le> int (length (arr t))"
  defines "t' \<equiv> snd (RawSet fresh (akey n) LNil t)"
  shows "arr t' = (arr t)[nat (n - 1) := LNil] \<and> Keys t' = Some ks"
proof -
  have b: "n < MaxArrayIndex" using n ok base_okD(7) [of t] by (simp add: table_ok_def)
  have "t' = forgetDeletedArrayKey n (t\<lparr>Array := Some ((arr t)[nat (n - 1) := LNil])\<rparr>)"
    using imm n b by (simp add: t'_def RawSet_def set_int_def)
  then show ?thesis using K by simp
qed

text \<open>Clearing a field of the hash part leaves an empty slot in the order and a cursor to it.\<close>

definition cleared_at :: "ltable \<Rightarrow> lvalue \<Rightarrow> nat \<Rightarrow> ltable \<Rightarrow> bool" where
  "cleared_at t k i t' \<longleftrightarrow> Array t' = Array t \<and> Keys t' = Some ((slice (Keys t))[i := None]) \<and>
     (iterationKey k = k \<longrightarrow> mget (K2i t') k = Some i) \<and>
     (iterationKey k \<noteq> k \<longrightarrow> mget (K2i t') k = None \<and> mget (K2i t') (iterationKey k) = Some i)"

lemma delete_cleared:
  assumes i: "mget (K2i t) k = Some i" and nan: "\<not> nan_key k"
  shows "cleared_at t k i (deleteIterationKey k t)"
  using i iterationKey_nan [OF nan] nan
  by (auto simp: cleared_at_def deleteIterationKey_def Let_def mget_put mget_del)

lemma tableKey_fresh: "tableKey fresh t key False = tableKey 0 t key False"
  unfolding tableKey_def by (simp only: not_False_eq_True if_True)

lemma clear_hash:
  assumes ok: "table_ok t" and imm: "\<not> Immutable t" and K: "Keys t = Some ks" and i: "i < length ks" "ks ! i = Some k"
  shows "cleared_at t k i (snd (RawSet fresh (nativeKeyValue k) LNil t))"
proof -
  have b: "base_ok t" using ok by (simp add: table_ok_def)
  note live = cursor_live(2) [OF b K i]
  have ki: "mget (K2i t) k = Some i" using iter_inv_Some(4) [OF base_okD(5) [OF b, unfolded K] i] .
  have nan: "\<not> nan_key k" by (rule live_nan [OF b live])
  have tk: "tableKey fresh t (nativeKeyValue k) False = k"
    using RawGetH_live(3) [OF b live] by (simp only: tableKey_fresh [of fresh])
  show ?thesis
  proof (cases "\<exists>s. k = LString s")
    case True
    then obtain s where s: "k = LString s" by blast
    let ?u = "t\<lparr>Strdict := Some (AList.delete s (strs t))\<rparr>"
    have "snd (RawSet fresh (nativeKeyValue k) LNil t) = deleteIterationKey k ?u"
      using imm by (simp add: s RawSet_def RawSetString_def)
    then show ?thesis using delete_cleared [of ?u k i] ki nan by (simp add: cleared_at_def)
  next
    case False
    then have ns: "nativeKeyValue k \<noteq> LString s" for s by (cases k) auto
    let ?u = "t\<lparr>Dict := map_option (mdel k) (Dict t)\<rparr>"
    have H: "cleared_at t k i (snd (RawSetH fresh (nativeKeyValue k) LNil t))"
      using delete_cleared [of ?u k i] ki nan RawSetH_cases [OF imm ns, of fresh LNil] tk by (simp add: cleared_at_def Let_def)
    have flag: "cleared_at t k i (releaseEmptySparseHash (x\<lparr>sparseArrayHash := True\<rparr>))" if "cleared_at t k i x" for x
      using that by (simp add: cleared_at_def)
    have S: "cleared_at t k i (setSparseIntKey fresh n LNil t)" if "slot_of k = ArrayKey n" "nativeKeyValue k = akey n" for n
      using H flag [OF H] that by (simp add: setSparseIntKey_def Let_def)
    have "snd (RawSet fresh (nativeKeyValue k) LNil t) = snd (RawSetH fresh (nativeKeyValue k) LNil t) \<or>
        (\<exists>n. slot_of k = ArrayKey n \<and> nativeKeyValue k = akey n \<and> snd (RawSet fresh (nativeKeyValue k) LNil t) = setSparseIntKey fresh n LNil t)"
    proof (cases k)
      case (LNumber f)
      show ?thesis
      proof (cases "isArrayKey f")
        case True
        have f: "f = int_to_float (float_to_int f)" "slot_of k = ArrayKey (float_to_int f)"
          using isArrayKey_float_to_int [OF True] slot_of_cases(2) [OF True] LNumber by simp_all
        have "int (length (arr t)) < float_to_int f" using RawGetH_live(6) [OF b live f(2)] .
        then have "snd (RawSet fresh (nativeKeyValue k) LNil t) = setSparseIntKey fresh (float_to_int f) LNil t"
          using imm True LNumber by (simp add: RawSet_def set_int_def)
        then show ?thesis using f LNumber by auto
      qed (use LNumber imm in \<open>simp add: RawSet_def\<close>)
    next
      case (LInteger j)
      have "dict_key k" using live dict_ok_key [OF base_okD(1) [OF b], of k] LInteger by (auto simp: live_def)
      then show ?thesis using LInteger imm by (auto simp: RawSet_def)
    qed (use imm False in \<open>auto simp: RawSet_def\<close>)
    then show ?thesis using H S by auto
  qed
qed

lemma cursor_shape: "cursor t key = Some p \<Longrightarrow> snd p = 0 \<or> fst p = length (arr t)"
  by (auto simp: cursor_def start_after_def split: if_splits option.splits lvalue.splits)

text \<open>After one field has been cleared, the fields that are left read as before.\<close>

lemma kfields_cleared:
  assumes w: "writes t t' s LNil" and ok: "base_ok t" and K: "Keys t' = Some ks'" and sub: "set ks \<subseteq> set ks'"
    and live: "\<And>k. Some k \<in> set ks \<Longrightarrow> k \<in> live t"
  shows "kfields t' ks = kfields t ks"
proof (rule kfields_cong)
  fix k assume k: "Some k \<in> set ks"
  have b': "base_ok t'" using w by (simp add: writes_def table_ok_def)
  obtain i where "i < length ks'" "ks' ! i = Some k" using k sub by (metis in_set_conv_nth subsetD)
  then have l': "k \<in> live t'" using cursor_live(2) [OF b' K] by blast
  note g' = RawGetH_live(1,2) [OF b' l'] and g = RawGetH_live(1) [OF ok live [OF k]]
  have "slot_of k \<noteq> s" using g' w by (auto simp: writes_def)
  then show "RawGetH k t' = RawGetH k t" using g' g w by (simp add: writes_def)
qed

lemma cursor_cleared:
  assumes ok: "base_ok t" and w: "writes t t' (slot_of k) LNil" and c: "cleared_at t k i t'" and live: "k \<in> live t"
  shows "cursor t' (nativeKeyValue k) = Some (length (arr t), i + 1)"
proof -
  have b': "base_ok t'" using w by (simp add: writes_def table_ok_def)
  have dk: "(\<exists>s. k = LString s) \<or> dict_key k" using live dict_ok_key [OF base_okD(1) [OF ok], of k] by (auto simp: live_def)
  show ?thesis
  proof (cases "\<exists>a c. k = LFunction a True c")
    case True
    then obtain a c where k: "k = LFunction a True c" by blast
    have "content t' (NativeKey c) = LNil" using w by (simp add: writes_def k slot_of_def numericTableKey_def)
    then have "hmap (dict t') (NativeKey c) = None"
      using hmap_value [OF base_okD(1) [OF b'], of "NativeKey c"] by (auto simp: content_simps split: option.splits)
    then have "nativeFunctionID x \<noteq> Some c" if "x \<in> fst ` set (dict t')" for x
      using that slot_of_native [OF dict_ok_key [OF base_okD(1) [OF b'] that]] by (auto simp: hmap_None)
    then have "find (\<lambda>k. nativeFunctionID k = Some c) (map fst (dict t')) = None" by (auto simp: find_None_iff)
    then have "tableKey 0 t' (nativeKeyValue k) False = nativeFunctionCursor c" by (simp add: k tableKey_def)
    moreover have "mget (K2i t') (nativeFunctionCursor c) = Some i" "Array t' = Array t" using c by (auto simp: cleared_at_def k)
    ultimately show ?thesis by (simp add: cursor_def start_after_def)
  next
    case False
    then have nk: "nativeKeyValue k = k" by (cases k) auto
    have "tableKey 0 t' k False = k" using False dk numericTableKey_dict [of k] by (cases k) (auto simp: tableKey_def)
    moreover have "k \<noteq> LNil" using dk by auto
    ultimately show ?thesis using c nk by (cases "iterationKey k = k") (auto simp: cursor_def start_after_def cleared_at_def)
  qed
qed

lemma step_ok:
  fixes fresh :: nat and clr :: bool
  assumes ok: "table_ok t" and imm: "clr \<Longrightarrow> \<not> Immutable t" and K: "Keys t = Some ks" and cur: "cursor t key = Some p"
    and rest: "rest t p = (k, v) # rs"
  defines "t' \<equiv> if clr then snd (RawSet fresh k LNil t) else t"
  shows "lua_key k \<and> v = content t (slot_of k) \<and> v \<noteq> LNil \<and> table_ok t' \<and> Keys t' \<noteq> None \<and>
    (\<exists>p'. cursor t' k = Some p' \<and> rest t' p' = rs)"
proof -
  have b: "base_ok t" using ok by (simp add: table_ok_def)
  obtain ai hi where p: "p = (ai, hi)" by force
  have shape: "hi = 0 \<or> ai = length (arr t)" using cursor_shape [OF cur] by (simp add: p)
  have live: "k \<in> live t" if "Some k \<in> set ks" for k
    using that cursor_live(2) [OF b K] by (auto simp: in_set_conv_nth)
  show ?thesis
  proof (cases "afields (drop ai (arr t)) ai")
    case (Cons r rs1)
    then have hi: "hi = 0" using shape by auto
    from afields_Cons [OF Cons] obtain j where j: "j < length (drop ai (arr t))" "r = (akey (int (ai + j) + 1), drop ai (arr t) ! j)"
      "drop ai (arr t) ! j \<noteq> LNil" "rs1 = afields (drop (Suc j) (drop ai (arr t))) (ai + Suc j)" by blast
    define n where "n = int (ai + j) + 1"
    have nn: "0 < n" "n \<le> int (length (arr t))" "nat n = ai + Suc j" "nat (n - 1) = ai + j" using j(1) by (auto simp: n_def)
    have nb: "n < MaxArrayIndex" using nn base_okD(7) [OF b] by linarith
    have kv: "k = akey n" "v = arr t ! (ai + j)" "rs = rs1 @ kfields t ks"
      using rest Cons j(1,2) hi K by (simp_all add: p rest_def n_def)
    have sl: "slot_of k = ArrayKey n" unfolding kv(1) by (rule slot_of_akey [OF nn(1) nb])
    have lk: "lua_key k" using dict_akey(2) [OF b nn(1) nb] kv by simp
    have rs1: "rs1 = afields (drop (nat n) (arr t)) (nat n)" using j(4) nn(3) by (simp add: add.commute)
    have vv: "v = content t (slot_of k)" using sl nn kv by (simp add: content_simps)
    have "v \<noteq> LNil" using j(1,3) kv(2) by simp
    have "\<exists>p'. table_ok t' \<and> Keys t' \<noteq> None \<and> cursor t' k = Some p' \<and> rest t' p' = rs"
    proof (cases clr)
      case False
      then have "cursor t' k = Some (nat n, 0)" using cursor_array [OF b nn(1,2)] kv by (simp add: t'_def)
      moreover have "rest t' (nat n, 0) = rs" using False K kv(3) rs1 by (simp add: rest_def t'_def)
      ultimately show ?thesis using False ok K by (auto simp: t'_def)
    next
      case True
      have w: "writes t t' (ArrayKey n) LNil" using True RawSet_writes [OF ok imm [OF True] lk, of fresh LNil] sl by (simp add: t'_def)
      have cl: "arr t' = (arr t)[nat (n - 1) := LNil] \<and> Keys t' = Some ks"
        using clear_array [OF ok imm [OF True] K nn(1,2), of fresh] True kv by (simp add: t'_def)
      have "cursor t' k = Some (nat n, 0)"
        using cursor_array [of t' n] w nn cl kv by (simp add: writes_def table_ok_def)
      moreover have "kfields t' ks = kfields t ks" by (rule kfields_cleared [OF w b]) (use cl live in auto)
      then have "rest t' (nat n, 0) = rs" using cl kv(3) rs1 nn(3,4) by (simp add: rest_def)
      ultimately show ?thesis using w cl by (auto simp: writes_def)
    qed
    then show ?thesis using lk vv \<open>v \<noteq> LNil\<close> by blast
  next
    case Nil
    then have "kfields t (drop hi ks) = (k, v) # rs" using rest K by (simp add: p rest_def)
    from kfields_Cons [OF this] obtain j k0 where j: "j < length (drop hi ks)" "drop hi ks ! j = Some k0"
      "(k, v) = (nativeKeyValue k0, RawGetH k0 t)" "RawGetH k0 t \<noteq> LNil" "rs = kfields t (drop (Suc j) (drop hi ks))" by blast
    define i where "i = hi + j"
    have i: "i < length ks" "ks ! i = Some k0" and rs: "rs = kfields t (drop (i + 1) ks)" using j by (auto simp: i_def add.commute)
    note cl = cursor_live [OF b K i]
    note g = RawGetH_live [OF b cl(2)]
    have kv: "k = nativeKeyValue k0" "v = RawGetH k0 t" using j(3) by simp_all
    have lk: "lua_key k" "v = content t (slot_of k)" "v \<noteq> LNil" using g kv j(4) by simp_all
    have "\<exists>p'. table_ok t' \<and> Keys t' \<noteq> None \<and> cursor t' k = Some p' \<and> rest t' p' = rs"
    proof (cases clr)
      case False
      have "rest t' (length (arr t), i + 1) = rs" using False K rs by (simp add: rest_def t'_def)
      then show ?thesis using False ok K cl(1) kv by (auto simp: t'_def)
    next
      case True
      have w: "writes t t' (slot_of k0) LNil" using True RawSet_writes [OF ok imm [OF True] lk(1), of fresh LNil] g(5) kv by (simp add: t'_def)
      have c: "cleared_at t k0 i t'" using clear_hash [OF ok imm [OF True] K i, of fresh] True kv by (simp add: t'_def)
      have Kt: "Keys t' = Some (ks[i := None])" "Array t' = Array t" using c K by (simp_all add: cleared_at_def)
      have "kfields t' (drop (i + 1) ks) = kfields t (drop (i + 1) ks)"
      proof (rule kfields_cleared [OF w b Kt(1)])
        show "set (drop (i + 1) ks) \<subseteq> set (ks[i := None])"
          using set_drop_subset [of "i + 1" "ks[i := None]"] by simp
        show "k \<in> live t" if "Some k \<in> set (drop (i + 1) ks)" for k using live that by (meson in_set_dropD)
      qed
      then have "rest t' (length (arr t), i + 1) = rs" using Kt rs by (simp add: rest_def)
      then show ?thesis using w Kt cursor_cleared [OF b w c cl(2)] kv by (auto simp: writes_def)
    qed
    then show ?thesis using lk by blast
  qed
qed

section \<open>Whole traversals\<close>

text \<open>
  A program that calls \<open>Next\<close> until it returns nil, and clears a field that satisfies \<open>clr\<close> when it
  has just been given it (which changes nothing in an immutable table).
\<close>

fun traverse :: "nat \<Rightarrow> ranges \<Rightarrow> nat \<Rightarrow> (lvalue \<Rightarrow> bool) \<Rightarrow> lvalue \<Rightarrow> ltable \<Rightarrow> (lvalue \<times> lvalue) list" where
  "traverse 0 rng fresh clr key t = []"
| "traverse (Suc n) rng fresh clr key t = (case LTable_Next rng key t of ((k, v), t) \<Rightarrow>
     if k = LNil then [] else (k, v) # traverse n rng fresh clr k (if clr k then snd (RawSet fresh k LNil t) else t))"

definition ranges_ok :: "ranges \<Rightarrow> bool" where
  "ranges_ok rng \<longleftrightarrow> (\<forall>xs. distinct xs \<longrightarrow> distinct (fst rng xs)) \<and> (\<forall>xs. set (fst rng xs) = set xs) \<and>
     (\<forall>xs. distinct xs \<longrightarrow> distinct (snd rng xs)) \<and> (\<forall>xs. set (snd rng xs) = set xs)"

lemma traverse_rest:
  "table_ok t \<Longrightarrow> Keys t \<noteq> None \<Longrightarrow> cursor t key = Some p \<Longrightarrow> length (rest t p) < n \<Longrightarrow>
   traverse n rng fresh clr key t = rest t p"
proof (induction n arbitrary: t key p)
  case (Suc n)
  note nx = Next_rest [OF Suc.prems(2,3), of rng]
  obtain ks where K: "Keys t = Some ks" using Suc.prems(2) by blast
  show ?case
  proof (cases "rest t p")
    case Nil
    then show ?thesis using nx by simp
  next
    case (Cons r rs)
    obtain k v where r: "r = (k, v)" by force
    let ?t = "if clr k then snd (RawSet fresh k LNil t) else t"
    have st: "lua_key k \<and> v = content t (slot_of k) \<and> v \<noteq> LNil \<and> table_ok ?t \<and> Keys ?t \<noteq> None \<and>
        (\<exists>p'. cursor ?t k = Some p' \<and> rest ?t p' = rs)"
    proof (cases "Immutable t")
      case True
      then have t: "?t = t" by (simp add: RawSet_def)
      show ?thesis unfolding t by (rule step_ok [OF Suc.prems(1) _ K Suc.prems(3) Cons [unfolded r], of False, unfolded if_False]) simp
    next
      case False
      then show ?thesis by (rule step_ok [OF Suc.prems(1) _ K Suc.prems(3) Cons [unfolded r]])
    qed
    then obtain p' where p': "cursor ?t k = Some p'" "rest ?t p' = rs" by blast
    have "traverse n rng fresh clr k ?t = rs"
      using Suc.IH [of ?t k p'] st p' Suc.prems(4) Cons by simp
    moreover have "k \<noteq> LNil" using st by auto
    ultimately show ?thesis using nx Cons r by simp
  qed
qed simp

lemma ensure_ok:
  assumes ok: "table_ok t" and rng: "ranges_ok rng"
  defines "t' \<equiv> ensureIterationOrder rng t"
  shows "table_ok t' \<and> content t' = content t \<and> Immutable t' = Immutable t \<and> Keys t' \<noteq> None \<and> arr t' = arr t \<and> live t' = live t \<and>
    strs t' = strs t \<and> dict t' = dict t"
proof (cases "Keys t")
  case (Some ks)
  then show ?thesis using ok by (simp add: t'_def ensureIterationOrder_def)
next
  case None
  have b: "base_ok t" using ok by (simp add: table_ok_def)
  let ?ks = "map LString (fst rng (map fst (strs t))) @ snd rng (map fst (dict t))"
  have t': "t' = t\<lparr>Keys := Some (map Some ?ks), K2i := number_keys ?ks\<rparr>" by (simp add: t'_def ensureIterationOrder_def None)
  have f: "arr t' = arr t" "dict t' = dict t" "strs t' = strs t" "Immutable t' = Immutable t" by (simp_all add: t')
  have L: "live t' = live t" by (simp add: live_def f)
  have set_ks: "set ?ks = live t" using rng by (auto simp: ranges_ok_def live_def)
  have nan: "\<not> nan_key k" if "k \<in> set ?ks" for k using live_nan [OF b, of k] that set_ks by blast
  have "distinct (map fst (dict t))"
    using base_okD(1) [OF b] by (auto simp: dict_ok_def distinct_map inj_on_def case_prod_unfold)
  moreover have "LString s \<notin> fst ` set (dict t)" for s using dict_ok_key [OF base_okD(1) [OF b], of "LString s"] by auto
  ultimately have dist: "distinct ?ks"
    using base_okD(2) [OF b] rng by (auto simp: ranges_ok_def distinct_map inj_on_def)
  have inv: "iter_inv (live t) (Some (map Some ?ks)) (number_keys ?ks)"
    by (rule iter_inv_fresh_order [OF dist nan set_ks])
  have "mget (number_keys ?ks) (akey n) = None" if "0 < n" "n \<le> int (length (arr t))" for n
  proof -
    have "akey n \<notin> live t"
      using that RawGetH_live(6) [OF b, of "akey n" n] slot_of_akey [of n] base_okD(7) [OF b] by auto
    then have "mget (number_keys ?ks) (akey n) \<noteq> Some i" for i
      using number_keys_get [OF dist nan akey_nan, of n i] set_ks nth_mem by metis
    then show ?thesis by (simp only: not_None_eq [symmetric] not_Some_eq [symmetric]) simp
  qed
  then have "base_ok t'"
    unfolding base_ok_def L f using base_okD(1-4,7) [OF b] inv by (simp add: t')
  moreover have "content t' = content t" by (rule content_cong) (simp_all add: f)
  ultimately show ?thesis using ok f L by (simp add: table_ok_def) (simp add: t')
qed

lemma ensure_idem: "ensureIterationOrder rng (ensureIterationOrder rng t) = ensureIterationOrder rng t"
  by (auto simp: ensureIterationOrder_def Let_def split: option.splits)

lemma traverse_ensure: "traverse n rng fresh clr LNil t = traverse n rng fresh clr LNil (ensureIterationOrder rng t)"
  by (cases n) (simp_all add: LTable_Next_def Let_def ensure_idem tableKey_def)

section \<open>The fields of a table\<close>

lemma afields_in: "(k, v) \<in> set (afields vs i) \<longleftrightarrow> (\<exists>j < length vs. k = akey (int (i + j) + 1) \<and> v = vs ! j \<and> v \<noteq> LNil)"
proof (induction vs arbitrary: i)
  case (Cons x vs)
  have "(\<exists>j < length (x # vs). k = akey (int (i + j) + 1) \<and> v = (x # vs) ! j \<and> v \<noteq> LNil) \<longleftrightarrow>
      (k = akey (int i + 1) \<and> v = x \<and> v \<noteq> LNil) \<or> (\<exists>j < length vs. k = akey (int (i + 1 + j) + 1) \<and> v = vs ! j \<and> v \<noteq> LNil)"
    by (auto simp: less_Suc_eq_0_disj)
  then show ?case using Cons.IH [of "i + 1"] by auto
qed simp

lemma afields_distinct: "int (i + length vs) < MaxArrayIndex \<Longrightarrow> distinct (map (\<lambda>(k, _). slot_of k) (afields vs i))"
proof (induction vs arbitrary: i)
  case (Cons x vs)
  have "slot_of k \<noteq> ArrayKey (int i + 1)" if "(k, v) \<in> set (afields vs (i + 1))" for k v
    using that Cons.prems slot_of_akey by (auto simp: afields_in)
  then show ?case using Cons.IH [of "i + 1"] Cons.prems slot_of_akey [of "int i + 1"] by fastforce
qed simp

lemma kfields_live:
  "(\<And>k. Some k \<in> set ks \<Longrightarrow> RawGetH k t \<noteq> LNil) \<Longrightarrow> kfields t ks = map (\<lambda>k. (nativeKeyValue k, RawGetH k t)) (live_keys ks)"
proof (induction ks)
  case (Cons x ks)
  then show ?case by (cases x) (auto simp: live_keys_def)
qed (simp add: live_keys_def)

lemma live_slot_inj:
  assumes ok: "base_ok t"
  shows "inj_on slot_of (live t)"
proof (rule inj_onI)
  fix x y assume xy: "x \<in> live t" "y \<in> live t" "slot_of x = slot_of y"
  have ns: "slot_of k \<noteq> StrKey s" if "dict_key k" for k s
    using numericTableKey_dict [OF that] that by (cases k) (auto simp: slot_of_def split: if_splits)
  have "(\<exists>s. k = LString s) \<or> k \<in> fst ` set (dict t) \<and> dict_key k" if "k \<in> live t" for k
    using that dict_ok_key [OF base_okD(1) [OF ok], of k] by (auto simp: live_def)
  then show "x = y"
    using xy ns dict_ok_same_slot [OF base_okD(1) [OF ok], of x y] by (metis slot.inject(2) slot_of_cases(1))
qed

text \<open>The fields from the start of a traversal are all fields of the table, each once.\<close>

lemma rest_all:
  assumes ok: "table_ok t" and K: "Keys t = Some ks"
  shows "distinct (map (\<lambda>(k, _). slot_of k) (rest t (0, 0)))"
    "(k, v) \<in> set (rest t (0, 0)) \<Longrightarrow> lua_key k \<and> v = content t (slot_of k) \<and> v \<noteq> LNil"
    "lua_key key \<Longrightarrow> content t (slot_of key) \<noteq> LNil \<Longrightarrow> slot_of key \<in> (\<lambda>(k, _). slot_of k) ` set (rest t (0, 0))"
    "length (rest t (0, 0)) \<le> length (arr t) + length (strs t) + length (dict t)"
proof -
  have b: "base_ok t" using ok by (simp add: table_ok_def)
  note lk = iter_inv_live_keys [OF base_okD(5) [OF b, unfolded K]]
  have alive: "k \<in> live t" if "Some k \<in> set ks" for k using that lk(2) by (simp add: live_keys_in [symmetric])
  have kf: "kfields t ks = map (\<lambda>k. (nativeKeyValue k, RawGetH k t)) (live_keys ks)"
    by (rule kfields_live) (use RawGetH_live(2) [OF b alive] in blast)
  have r: "rest t (0, 0) = afields (arr t) 0 @ kfields t ks" by (simp add: rest_def K)
  have len: "int (length (arr t)) < MaxArrayIndex" by (rule base_okD(7) [OF b])
  have A: "lua_key k \<and> v = content t (slot_of k) \<and> v \<noteq> LNil \<and> (\<exists>n. slot_of k = ArrayKey n \<and> n \<le> int (length (arr t)))"
    if "(k, v) \<in> set (afields (arr t) 0)" for k v
  proof -
    from that obtain j where j: "j < length (arr t)" "k = akey (int j + 1)" "v = arr t ! j" "v \<noteq> LNil" by (auto simp: afields_in)
    then have s: "slot_of k = ArrayKey (int j + 1)" using slot_of_akey [of "int j + 1"] len by simp
    then show ?thesis using j dict_akey(2) [OF b, of "int j + 1"] len by (simp add: content_simps)
  qed
  have B: "lua_key k \<and> v = content t (slot_of k) \<and> v \<noteq> LNil \<and> (\<forall>n. slot_of k = ArrayKey n \<longrightarrow> int (length (arr t)) < n)"
    if "(k, v) \<in> set (kfields t ks)" for k v
  proof -
    from that obtain k0 where k0: "k0 \<in> live t" "k = nativeKeyValue k0" "v = RawGetH k0 t" using lk(2) by (auto simp: kf)
    then show ?thesis using RawGetH_live [OF b k0(1)] by simp
  qed
  show "(k, v) \<in> set (rest t (0, 0)) \<Longrightarrow> lua_key k \<and> v = content t (slot_of k) \<and> v \<noteq> LNil"
    using A B by (auto simp: r)
  have "map (\<lambda>(k, _). slot_of k) (kfields t ks) = map slot_of (live_keys ks)"
    using RawGetH_live(5) [OF b] lk(2) by (simp add: kf)
  then have dk: "distinct (map (\<lambda>(k, _). slot_of k) (kfields t ks))"
    using lk live_slot_inj [OF b] by (simp add: distinct_map)
  have disj: "slot_of k \<noteq> slot_of k'" if "(k, v) \<in> set (afields (arr t) 0)" "(k', v') \<in> set (kfields t ks)" for k v k' v'
    using A [OF that(1)] B [OF that(2)] by (metis linorder_not_less)
  have "(\<lambda>(k, _). slot_of k) ` set (afields (arr t) 0) \<inter> (\<lambda>(k, _). slot_of k) ` set (kfields t ks) = {}"
    by (auto dest: disj)
  then show "distinct (map (\<lambda>(k, _). slot_of k) (rest t (0, 0)))"
    using dk afields_distinct [of 0 "arr t"] len by (simp add: r)
  show "slot_of key \<in> (\<lambda>(k, _). slot_of k) ` set (rest t (0, 0))" if key: "lua_key key" "content t (slot_of key) \<noteq> LNil"
  proof (cases "\<exists>n. slot_of key = ArrayKey n \<and> 0 < n \<and> n \<le> int (length (arr t))")
    case True
    then obtain n where n: "slot_of key = ArrayKey n" "0 < n" "n \<le> int (length (arr t))" by blast
    then have "(akey n, arr t ! nat (n - 1)) \<in> set (afields (arr t) 0)"
      unfolding afields_in using key(2) by (intro exI [of _ "nat (n - 1)"]) (auto simp: content_simps)
    moreover have "slot_of (akey n) = slot_of key" using n slot_of_akey [of n] len by simp
    ultimately show ?thesis by (force simp: r)
  next
    case False
    have "\<exists>k \<in> live t. slot_of k = slot_of key"
    proof (cases "slot_of key")
      case (StrKey s)
      then have "s \<in> fst ` set (strs t)" using key(2) by (auto simp: content_simps split: option.splits dest!: map_of_SomeD intro: rev_image_eqI)
      then show ?thesis using StrKey by (intro bexI [of _ "LString s"]) (simp_all add: live_def slot_of_cases)
    qed (use key(2) False hmap_None [of "dict t" "slot_of key"] in \<open>auto simp: content_simps live_def split: option.splits if_splits\<close>)
    then obtain k0 where k0: "k0 \<in> live t" "slot_of k0 = slot_of key" by blast
    then have "(nativeKeyValue k0, RawGetH k0 t) \<in> set (kfields t ks)" using lk(2) by (simp add: kf)
    then show ?thesis using RawGetH_live(5) [OF b k0(1)] k0(2) by (force simp: r)
  qed
  have "length (afields vs i) \<le> length vs" for vs i by (induction vs arbitrary: i) (auto simp: le_SucI)
  moreover have "length (kfields t ks) = card (live t)" using lk by (simp add: kf distinct_card [symmetric])
  moreover have "card (live t) \<le> length (strs t) + length (dict t)"
  proof -
    have "card (live t) \<le> card (LString ` fst ` set (strs t)) + card (fst ` set (dict t))" unfolding live_def by (rule card_Un_le)
    also have "card (LString ` fst ` set (strs t)) \<le> length (strs t)"
      by (metis card_image_le card_length finite_imageI finite_set le_trans)
    also have "card (fst ` set (dict t)) \<le> length (dict t)" by (metis card_image_le card_length finite_set le_trans)
    finally show ?thesis by simp
  qed
  ultimately show "length (rest t (0, 0)) \<le> length (arr t) + length (strs t) + length (dict t)"
    by (simp add: r) (metis add.assoc add_le_mono)
qed

end
