(* ===== verification/TableProps.thy ===== *)
theory TableProps
  imports TableNext
begin

text \<open>
  What the tables of \<open>table.go\<close> promise: a table is a store of keyed values (the locale
  \<open>keyed_store\<close>, interpreted on \<open>RawGet\<close> and \<open>RawSet\<close>), every table a program can come to keeps the
  invariant of the representation, the list operations work on the elements up to the border, and a
  traversal gives every field once.
\<close>

section \<open>A table as a store of keyed values\<close>

text \<open>What a store promises its clients: a write is seen by the reads of the same key and by no others.\<close>

locale keyed_store =
  fixes inv :: "'t \<Rightarrow> bool" and get :: "'k \<Rightarrow> 't \<Rightarrow> 'v" and put :: "'k \<Rightarrow> 'v \<Rightarrow> 't \<Rightarrow> 't"
    and key :: "'k \<Rightarrow> bool" and same :: "'k \<Rightarrow> 'k \<Rightarrow> bool"
  assumes put_inv: "inv t \<Longrightarrow> key k \<Longrightarrow> inv (put k v t)"
    and get_put: "inv t \<Longrightarrow> key k \<Longrightarrow> key k' \<Longrightarrow> get k' (put k v t) = (if same k k' then v else get k' t)"
begin

lemma get_writes:
  assumes "inv t" "\<And>k v. (k, v) \<in> set ws \<Longrightarrow> key k"
  shows "inv (fold (\<lambda>(k, v). put k v) ws t) \<and>
    (\<forall>k'. key k' \<longrightarrow> get k' (fold (\<lambda>(k, v). put k v) ws t) =
      (case find (\<lambda>(k, _). same k k') (rev ws) of Some (_, v) \<Rightarrow> v | None \<Rightarrow> get k' t))"
  using assms(2)
proof (induction ws rule: rev_induct)
  case Nil
  then show ?case using assms(1) by simp
next
  case (snoc w ws)
  obtain k v where w: "w = (k, v)" by force
  let ?t = "fold (\<lambda>(k, v). put k v) ws t"
  have IH: "inv ?t" "key k' \<Longrightarrow> get k' ?t = (case find (\<lambda>(k, _). same k k') (rev ws) of Some (_, v) \<Rightarrow> v | None \<Rightarrow> get k' t)" for k'
    using snoc by auto
  have key: "key k" using snoc.prems [of k v] w by simp
  show ?case using put_inv [OF IH(1) key, of v] get_put [OF IH(1) key, of _ v] IH(2) by (simp add: w)
qed

lemma put_put: "inv t \<Longrightarrow> key k \<Longrightarrow> key k' \<Longrightarrow> get k' (put k v (put k w t)) = get k' (put k v t)"
  by (simp add: get_put put_inv)

end

lemma slot_of_same_key:
  assumes "lua_key k" "lua_key k'"
  shows "slot_of k = slot_of k' \<longleftrightarrow> numericTableKey k = numericTableKey k'"
proof
  assume s: "slot_of k = slot_of k'"
  have nf: "numericTableKey x \<noteq> LFunction a True c" if "lua_key x" for x a c
    using that by (cases x) (auto simp: numericTableKey_def split: option.splits)
  have arr: "isArrayKey f \<Longrightarrow> isArrayKey g \<Longrightarrow> float_to_int f = float_to_int g \<Longrightarrow> f = g" for f g
    by (metis isArrayKey_float_to_int)
  show "numericTableKey k = numericTableKey k'"
    using s nf [OF assms(1)] nf [OF assms(2)] unfolding slot_of_def
    by (cases "numericTableKey k"; cases "numericTableKey k'") (auto split: if_splits dest: arr)
qed (simp add: slot_of_def)

text \<open>A key comes with the address that its write may allocate.\<close>

interpretation tbl: keyed_store "\<lambda>t. table_ok t \<and> \<not> Immutable t" "\<lambda>k. RawGet (snd k)"
  "\<lambda>k v t. snd (RawSet (fst k) (snd k) v t)" "\<lambda>k. lua_key (snd k)" "\<lambda>k k'. numericTableKey (snd k) = numericTableKey (snd k')"
proof unfold_locales
  fix t and k k' :: "nat \<times> lvalue" and v
  assume t: "table_ok t \<and> \<not> Immutable t" and k: "lua_key (snd k)"
  then have w: "writes t (snd (RawSet (fst k) (snd k) v t)) (slot_of (snd k)) v" using RawSet_writes by simp
  then show "table_ok (snd (RawSet (fst k) (snd k) v t)) \<and> \<not> Immutable (snd (RawSet (fst k) (snd k) v t))"
    by (simp add: writes_def)
  assume k': "lua_key (snd k')"
  show "RawGet (snd k') (snd (RawSet (fst k) (snd k) v t)) =
      (if numericTableKey (snd k) = numericTableKey (snd k') then v else RawGet (snd k') t)"
    using w t slot_of_same_key [OF k k'] RawGet_content [OF _ k'] by (auto simp: writes_def table_ok_def)
qed

lemma RawSet_fst: "\<not> Immutable t \<Longrightarrow> fst (RawSet fresh key v t)"
  by (auto simp: RawSet_def RawSetH_def RawSetString_def Let_def split: lvalue.splits)

section \<open>The largest position\<close>

lemma finite_hmap: "finite {n. hmap D (ArrayKey n) \<noteq> None}"
proof (rule finite_subset)
  show "{n. hmap D (ArrayKey n) \<noteq> None} \<subseteq> (\<lambda>k. case slot_of k of ArrayKey n \<Rightarrow> n | _ \<Rightarrow> 0) ` fst ` set D"
    by (auto simp: hmap_None) (metis fst_conv imageI slot.simps(17))
qed simp

lemma MaxN_fold:
  assumes "dict_ok D" "0 \<le> m"
  shows "fold (\<lambda>(key, value) m.
         if value = LNil then m
         else case key of
           LNumber k \<Rightarrow> if isArrayKey k \<and> float_to_int k > m then float_to_int k else m
         | LInteger k \<Rightarrow> if k > m \<and> k < MaxArrayIndex then k else m
         | _ \<Rightarrow> m) D m = Max (insert m {n. hmap D (ArrayKey n) \<noteq> None})"
  using assms
proof (induction D arbitrary: m)
  case Nil
  then show ?case by (simp add: hmap_Nil)
next
  case (Cons x D)
  obtain k v where x: "x = (k, v)" by force
  have ok: "dict_key k" "v \<noteq> LNil" "dict_ok D" using Cons.prems(1) by (auto simp: x dict_ok_Cons)
  let ?A = "{n. hmap D (ArrayKey n) \<noteq> None}"
  have fin: "finite ?A" by (rule finite_hmap)
  define m' where "m' = (case k of LNumber f \<Rightarrow> if isArrayKey f \<and> float_to_int f > m then float_to_int f else m
      | LInteger i \<Rightarrow> if i > m \<and> i < MaxArrayIndex then i else m | _ \<Rightarrow> m)"
  have sl: "m' = (case slot_of k of ArrayKey n \<Rightarrow> max m n | _ \<Rightarrow> m)"
    using ok(1) numericTableKey_dict [OF ok(1)] Cons.prems(2) by (cases k) (auto simp: m'_def slot_of_def)
  have A': "{n. hmap (x # D) (ArrayKey n) \<noteq> None} = (case slot_of k of ArrayKey n \<Rightarrow> insert n ?A | _ \<Rightarrow> ?A)"
    by (auto simp: x hmap_Cons split: slot.splits)
  have "0 \<le> m'" using Cons.prems(2) by (auto simp: sl split: slot.splits)
  from Cons.IH [OF ok(3) this] have "fold (\<lambda>(key, value) m.
         if value = LNil then m
         else case key of
           LNumber k \<Rightarrow> if isArrayKey k \<and> float_to_int k > m then float_to_int k else m
         | LInteger k \<Rightarrow> if k > m \<and> k < MaxArrayIndex then k else m
         | _ \<Rightarrow> m) (x # D) m = Max (insert m' ?A)" using ok(2) by (simp add: x m'_def)
  also have "\<dots> = Max (insert m {n. hmap (x # D) (ArrayKey n) \<noteq> None})"
    unfolding A' sl using fin by (cases "slot_of k"; cases "?A = {}") (simp_all add: Max_insert ac_simps)
  finally show ?case .
qed

lemma RawGetInt_content:
  assumes "base_ok t" "0 < n" "n < MaxArrayIndex"
  shows "RawGetInt n t = content t (ArrayKey n)"
  using getIntKey_content [OF assms] assms(2,3) by (simp add: RawGetInt_def)

lemma Len_bounds: "table_ok t \<Longrightarrow> 0 \<le> LTable_Len t \<and> LTable_Len t < MaxArrayIndex"
  using len_border_content(3,4) [of t] base_okD(7) [of t] by (simp add: table_ok_def)

lemma Remove_outside:
  assumes ok: "table_ok t" and imm: "\<not> Immutable t" and pos: "is_int64 pos" "pos \<le> 0 \<or> LTable_Len t < pos"
  shows "snd (LTable_Remove pos t) = t \<or> (1 \<le> LTable_Len t \<and> LTable_Remove pos t = LTable_Remove (LTable_Len t) t)"
proof (cases "LTable_Len t = 0 \<or> wrap64 (pos - 1) \<ge> LTable_Len t")
  case True
  then have "snd (LTable_Remove pos t) = t"
  proof
    assume "LTable_Len t = 0"
    then show ?thesis by (simp add: LTable_Remove_def)
  next
    assume "wrap64 (pos - 1) \<ge> LTable_Len t"
    then show ?thesis by (simp add: LTable_Remove_def Let_def)
  qed
  then show ?thesis ..
next
  case False
  have b: "0 < LTable_Len t" "LTable_Len t < MaxArrayIndex" using Len_bounds [OF ok] False by simp_all
  have "wrap64 (LTable_Len t - 1) = LTable_Len t - 1" using b by (intro wrap64_id) (simp add: is_int64_def)
  moreover have "wrap64 (pos - 1) < 0"
  proof -
    have "pos \<noteq> MinInt64" using False b by (auto simp: wrap64_def)
    then have "wrap64 (pos - 1) = pos - 1" using pos(1) by (intro wrap64_id) (auto simp: is_int64_def)
    then show ?thesis using False pos(2) by auto
  qed
  ultimately have "LTable_Remove pos t = LTable_Remove (LTable_Len t) t"
    using False imm b by (simp add: LTable_Remove_def Let_def)
  then show ?thesis using b by simp
qed

lemma distinct_map_finer:
  assumes "distinct (map f xs)" "\<And>x y. x \<in> set xs \<Longrightarrow> y \<in> set xs \<Longrightarrow> g x = g y \<Longrightarrow> f x = f y"
  shows "distinct (map g xs)"
  using assms unfolding distinct_map inj_on_def by blast

text \<open>
  The tables that the operations of \<open>table.go\<close> build under the keys of Lua, which are neither nil nor NaN, as
  long as the array stays below \<open>MaxArrayIndex\<close>. \<open>LState.RawSet\<close> refuses the two other keys; \<open>setField\<close> does not
  (\<open>nil_key_ends_traversal\<close> shows what a nil key does). A table can be given a metatable, and be frozen by
  \<open>table.immutable\<close>.
\<close>

inductive reachable :: "ltable \<Rightarrow> bool" where
  create: "reachable (newLTable acap hcap)"
| set: "reachable t \<Longrightarrow> lua_key key \<Longrightarrow> reachable (snd (RawSet fresh key v t))"
| set_int: "reachable t \<Longrightarrow> reachable (snd (RawSetInt fresh n v t))"
| set_string: "reachable t \<Longrightarrow> reachable (snd (RawSetString s v t))"
| append: "reachable t \<Longrightarrow> int (length (arr t)) + 1 < MaxArrayIndex \<Longrightarrow> reachable (snd (LTable_Append fresh v t))"
| insert: "reachable t \<Longrightarrow> int (length (arr t)) + 1 < MaxArrayIndex \<Longrightarrow> reachable (snd (LTable_Insert fresh n v t))"
| remove: "reachable t \<Longrightarrow> is_int64 n \<Longrightarrow> reachable (snd (LTable_Remove n t))"
| next_key: "reachable t \<Longrightarrow> ranges_ok rng \<Longrightarrow> reachable (snd (LTable_Next rng key t))"
| set_metatable: "reachable t \<Longrightarrow> reachable (t\<lparr>Metatable := mt\<rparr>)"
| freeze: "reachable t \<Longrightarrow> reachable (t\<lparr>Immutable := True\<rparr>)"

lemma immutable_unchanged:
  assumes "Immutable t"
  shows "RawSet fresh key v t = (False, t)" "RawSetInt fresh i v t = (False, t)" "RawSetString s v t = (False, t)"
    "RawSetH fresh key v t = (False, t)" "LTable_Append fresh v t = (False, t)" "LTable_Insert fresh i v t = (False, t)"
    "LTable_Remove i t = ((LNil, False), t)"
  using assms by (simp_all add: RawSet_def RawSetInt_def RawSetString_def RawSetH_def LTable_Append_def LTable_Insert_def LTable_Remove_def)

lemma RawSetInt_RawSet: "RawSetInt fresh n v t = RawSet fresh (LInteger n) v t"
  by (auto simp: RawSetInt_def RawSet_def)

lemma Next_table: "snd (LTable_Next rng key t) = ensureIterationOrder rng t"
  by (auto simp: LTable_Next_def Let_def split: option.splits prod.splits)

lemma writes_or_same:
  assumes "table_ok t" "\<not> Immutable t \<Longrightarrow> writes t t' s v" "Immutable t \<Longrightarrow> t' = t"
  shows "table_ok t'"
  using assms by (cases "Immutable t") (auto simp: writes_def)

lemma table_ok_flags: "table_ok (t\<lparr>Metatable := mt\<rparr>) = table_ok t" "table_ok (t\<lparr>Immutable := b\<rparr>) = table_ok t"
  by (simp_all add: table_ok_def base_ok_def live_def)

lemma Insert_table_ok:
  assumes ok: "table_ok t" and imm: "\<not> Immutable t" and a: "int (length (arr t)) + 1 < MaxArrayIndex"
  shows "table_ok (snd (LTable_Insert fresh n v t))"
proof (cases "1 \<le> n \<and> n \<le> LTable_Len t")
  case True
  then show ?thesis using Insert_ok assms by blast
next
  case False
  have "lua_key (LNumber (int_to_float n))" by (simp add: int_to_float_def)
  with False assms show ?thesis
    using RawSet_writes [of t "LInteger n" fresh v] RawSet_writes [of t "LNumber (int_to_float n)" fresh v] Len_bounds [of t]
    by (auto simp: LTable_Insert_def Let_def RawSetInt_RawSet writes_def)
qed

lemma Remove_table_ok:
  assumes ok: "table_ok t" and imm: "\<not> Immutable t" and n: "is_int64 n"
  shows "table_ok (snd (LTable_Remove n t))"
proof (cases "1 \<le> n \<and> n \<le> LTable_Len t")
  case True
  then show ?thesis using Remove_ok assms by blast
next
  case False
  then have "n \<le> 0 \<or> LTable_Len t < n" by linarith
  from Remove_outside [OF ok imm n this] ok imm Remove_ok [of t "LTable_Len t"] show ?thesis by auto
qed

lemma reachable_ok: "reachable t \<Longrightarrow> table_ok t"
proof (induction rule: reachable.induct)
  case (create acap hcap)
  then show ?case using newLTable_ok by blast
next
  case (set t key fresh v)
  then show ?case using RawSet_writes [of t key fresh v] by (auto intro: writes_or_same simp: immutable_unchanged)
next
  case (set_int t fresh n v)
  then show ?case using RawSet_writes [of t "LInteger n" fresh v]
    by (auto intro: writes_or_same simp: immutable_unchanged RawSetInt_RawSet)
next
  case (set_string t s v)
  then show ?case using writes_string [of t s v] by (auto intro: writes_or_same simp: immutable_unchanged)
next
  case (append t fresh v)
  then show ?case using Append_writes [of t fresh v] by (auto intro: writes_or_same simp: immutable_unchanged)
next
  case (insert t fresh n v)
  then show ?case using Insert_table_ok [of t fresh n v] by (cases "Immutable t") (simp_all add: immutable_unchanged)
next
  case (remove t n)
  then show ?case using Remove_table_ok [of t n] by (cases "Immutable t") (simp_all add: immutable_unchanged)
next
  case (next_key t rng key)
  then show ?case using ensure_ok by (simp add: Next_table)
qed (simp_all add: table_ok_flags)

section \<open>Properties\<close>

text \<open>
  C3: A table behaves as a map: after any sequence of writes to a new table, in any mix of array
  positions, strings, floats, booleans, functions and objects, a read gives the value written last
  under the same key, and nil if there is none. Two keys are the same when they are equal after a float
  with an integral value has become that integer.
\<close>

theorem table_last_write:
  assumes "\<forall>((_, k), _) \<in> set ws. lua_key k" "lua_key key"
  shows "RawGet key (fold (\<lambda>((fresh, k), v) t. snd (RawSet fresh k v t)) ws (newLTable acap hcap)) =
    (case find (\<lambda>((_, k), _). numericTableKey k = numericTableKey key) (rev ws) of Some (_, v) \<Rightarrow> v | None \<Rightarrow> LNil)"
proof -
  let ?t = "newLTable acap hcap"
  have nil: "RawGet key ?t = LNil" using newLTable_ok [of acap hcap] RawGet_content [OF _ assms(2), of ?t] by (simp add: table_ok_def)
  have keys: "lua_key (snd k)" if "(k, v) \<in> set ws" for k v using assms(1) that by fastforce
  have "RawGet (snd (0 :: nat, key)) (fold (\<lambda>(k, v). (\<lambda>v t. snd (RawSet (fst k) (snd k) v t)) v) ws ?t) =
      (case find (\<lambda>(k, _). numericTableKey (snd k) = numericTableKey (snd (0 :: nat, key))) (rev ws) of Some (_, v) \<Rightarrow> v | None \<Rightarrow> RawGet (snd (0 :: nat, key)) ?t)"
    using tbl.get_writes [of ?t ws] newLTable_ok [of acap hcap] keys assms(2) by fastforce
  then show ?thesis unfolding snd_conv nil by (simp add: case_prod_unfold)
qed

theorem table_last_write_witness:
  "RawGet (LInteger 1) (fold (\<lambda>((fresh, k), v) t. snd (RawSet fresh k v t))
     [((0, LNumber (FFin 1)), LBool True), ((0, LString ''x''), LBool False)] (newLTable 0 0)) = LBool True"
proof -
  have n: "numericTableKey (LNumber (FFin 1)) = numericTableKey (LInteger 1)" "numericTableKey (LString ''x'') \<noteq> numericTableKey (LInteger 1)"
    using floatToInteger_float [of 1] by (simp_all add: numericTableKey_def int_to_float_small)
  show ?thesis by (subst table_last_write) (simp_all add: n)
qed

text \<open>
  C17: Every table that is created, written under keys other than nil and NaN with \<open>RawSet\<close>, \<open>RawSetInt\<close> and
  \<open>RawSetString\<close>, changed by \<open>Append\<close>, \<open>Insert\<close> and \<open>Remove\<close> while the array stays below \<open>MaxArrayIndex\<close>, traversed,
  given a metatable and frozen, in any order, keeps the invariant of the representation: the array
  and the hash part do not overlap, the hash part holds no position that could be appended, and
  the iteration order names exactly the keys of the hash part.
\<close>

theorem reachable_invariant: "reachable t \<Longrightarrow> table_ok t"
  using reachable_ok by blast

theorem reachable_invariant_witness: "table_ok (snd (RawSet 0 (LString ''x'') (LBool True) (newLTable 0 0)))"
  by (rule reachable_invariant, rule reachable.set [OF reachable.create]) simp

text \<open>
  \<open>Len\<close> is a border of every table a program can come to: the element at it is not nil, unless it is zero, and the
  element after it is nil.
\<close>

theorem len_border:
  assumes "reachable t"
  shows "(LTable_Len t = 0 \<or> LTable_Len t > 0 \<and> RawGetInt (LTable_Len t) t \<noteq> LNil) \<and>
    (LTable_Len t + 1 < MaxArrayIndex \<longrightarrow> RawGetInt (LTable_Len t + 1) t = LNil)"
proof -
  have ok: "table_ok t" "base_ok t" using reachable_ok [OF assms] by (simp_all add: table_ok_def)
  note c = len_border_content [OF ok(1)]
  show ?thesis
    using c Len_bounds [OF ok(1)] RawGetInt_content [OF ok(2), of "LTable_Len t"] RawGetInt_content [OF ok(2), of "LTable_Len t + 1"]
    by (cases "LTable_Len t = 0") auto
qed

theorem len_border_witness:
  "RawGetInt (LTable_Len (newLTable 1 0) + 1) (newLTable 1 0) = LNil"
  using len_border [OF reachable.create, of 1 0] by (simp add: LTable_Len_def newLTable_def)

text \<open>
  C18: In a table that is not frozen, \<open>Append\<close> writes the element after the border, \<open>Insert\<close> at a position moves the elements
  from it on up by one, and \<open>Remove\<close> returns the element at a position and moves those above it down by
  one. No other element changes.
\<close>

theorem table_list_operations:
  assumes "reachable t" "\<not> Immutable t" "int (length (arr t)) + 1 < MaxArrayIndex" "1 \<le> pos" "pos \<le> LTable_Len t" "0 < k" "k + 1 < MaxArrayIndex"
  shows "RawGetInt k (snd (LTable_Append fresh v t)) = (if k = LTable_Len t + 1 then v else RawGetInt k t) \<and>
    RawGetInt k (snd (LTable_Insert fresh pos v t)) =
      (if k = pos then v else if pos < k \<and> k \<le> LTable_Len t + 1 then RawGetInt (k - 1) t else RawGetInt k t) \<and>
    fst (LTable_Remove pos t) = (RawGetInt pos t, True) \<and>
    RawGetInt k (snd (LTable_Remove pos t)) =
      (if pos \<le> k \<and> k < LTable_Len t then RawGetInt (k + 1) t else if k = LTable_Len t then LNil else RawGetInt k t)"
proof -
  have ok: "table_ok t" "\<not> Immutable t" "base_ok t" using reachable_ok [OF assms(1)] assms(2) by (simp_all add: table_ok_def)
  note c = RawGetInt_content [OF ok(3)]
  have pos: "pos < MaxArrayIndex" using assms(5) Len_bounds [OF ok(1)] by linarith
  note a = Append_writes [OF ok(1,2) assms(3), of fresh v]
    and i = Insert_ok [OF ok(1,2) assms(4,5,3), of fresh v] and r = Remove_ok [OF ok(1,2) assms(4,5)]
  have "RawGetInt k (snd (LTable_Append fresh v t)) = (if k = LTable_Len t + 1 then v else RawGetInt k t)"
    using a c [of k] RawGetInt_content [of "snd (LTable_Append fresh v t)" k] assms(6,7) by (simp add: writes_def table_ok_def)
  moreover have "RawGetInt k (snd (LTable_Insert fresh pos v t)) =
      (if k = pos then v else if pos < k \<and> k \<le> LTable_Len t + 1 then RawGetInt (k - 1) t else RawGetInt k t)"
    using i c [of k] c [of "k - 1"] RawGetInt_content [of "snd (LTable_Insert fresh pos v t)" k] assms(4,6,7)
    by (simp add: table_ok_def shifted_up_def)
  moreover have "fst (LTable_Remove pos t) = (RawGetInt pos t, True)" using r c [of pos] pos assms(4) by simp
  moreover have "RawGetInt k (snd (LTable_Remove pos t)) =
      (if pos \<le> k \<and> k < LTable_Len t then RawGetInt (k + 1) t else if k = LTable_Len t then LNil else RawGetInt k t)"
    using r c [of k] c [of "k + 1"] RawGetInt_content [of "snd (LTable_Remove pos t)" k] assms(6,7)
    by (simp add: table_ok_def shifted_down_def)
  ultimately show ?thesis by blast
qed

text \<open>The table with the one element true, for the witnesses.\<close>

definition table_one :: ltable where "table_one = snd (LTable_Append 0 (LBool True) (newLTable 1 0))"

lemma table_one_eq: "table_one = \<lparr>Metatable = LNil, Immutable = False, sparseArrayHash = False, Array = Some [LBool True],
    Dict = None, Strdict = None, Keys = None, K2i = []\<rparr>"
  by (simp add: table_one_def newLTable_def LTable_Append_def append_arr_def forgetDeletedArrayKey_def Let_def)

lemma table_one_reachable: "reachable table_one"
  unfolding table_one_def by (rule reachable.append [OF reachable.create]) (simp add: newLTable_def)

theorem table_list_operations_witness:
  "reachable table_one \<and> fst (LTable_Remove 1 table_one) = (LBool True, True)"
  using table_list_operations [OF table_one_reachable, of 1 1 0 LNil] table_one_reachable
  by (simp add: table_one_eq LTable_Len_def RawGetInt_def getIntKey_def)

text \<open>
  C12: A traversal with \<open>Next\<close> from nil gives every field of a table that is not nil exactly
  once, with its value, and then ends, whatever order the maps are ranged over, whether the table is frozen or
  not, and whichever fields the program clears when it has just been given them. The table was built as for
  the invariant, so that it has no field under nil or NaN.
\<close>

theorem traversal_complete:
  assumes "reachable t" "ranges_ok rng" "length (arr t) + length (strs t) + length (dict t) < n"
  shows "distinct (map (\<lambda>(k, _). numericTableKey k) (traverse n rng fresh clr LNil t)) \<and>
    (\<forall>(k, v) \<in> set (traverse n rng fresh clr LNil t). lua_key k \<and> v = RawGet k t \<and> v \<noteq> LNil) \<and>
    (\<forall>key. lua_key key \<and> RawGet key t \<noteq> LNil \<longrightarrow>
      (\<exists>(k, v) \<in> set (traverse n rng fresh clr LNil t). numericTableKey k = numericTableKey key))"
proof -
  have ok: "table_ok t" "base_ok t" using reachable_ok [OF assms(1)] by (simp_all add: table_ok_def)
  define u where "u = ensureIterationOrder rng t"
  have u: "table_ok u \<and> content u = content t \<and> Immutable u = Immutable t \<and> Keys u \<noteq> None \<and> arr u = arr t \<and> live u = live t \<and>
      strs u = strs t \<and> dict u = dict t"
    unfolding u_def by (rule ensure_ok [OF ok(1) assms(2)])
  then obtain ks where K: "Keys u = Some ks" by blast
  note all = rest_all [OF conjunct1 [OF u] K]
  have tr: "traverse n rng fresh clr LNil t = rest u (0, 0)"
    unfolding traverse_ensure [of n rng fresh clr t] u_def [symmetric]
    by (rule traverse_rest) (use u ok assms(3) all(4) cursor_nil [of u] in simp_all)
  have keys: "lua_key k \<and> v = content t (slot_of k) \<and> v \<noteq> LNil" if "(k, v) \<in> set (rest u (0, 0))" for k v
  proof -
    have c: "content u = content t" using u by blast
    from all(2) [OF that] show ?thesis unfolding c by auto
  qed
  have get: "RawGet k t = content t (slot_of k)" if "lua_key k" for k by (rule RawGet_content [OF ok(2) that])
  have "distinct (map (\<lambda>(k, _). numericTableKey k) (rest u (0, 0)))"
    using all(1) by (rule distinct_map_finer) (auto simp: slot_of_def)
  moreover have "\<exists>(k, v) \<in> set (rest u (0, 0)). numericTableKey k = numericTableKey key" if "lua_key key" "RawGet key t \<noteq> LNil" for key
  proof -
    have "slot_of key \<in> (\<lambda>(k, _). slot_of k) ` set (rest u (0, 0))" using all(3) that get u by simp
    then obtain k v where kv: "(k, v) \<in> set (rest u (0, 0))" "slot_of k = slot_of key" by auto
    then have "numericTableKey k = numericTableKey key" using keys [OF kv(1)] that(1) slot_of_same_key by blast
    then show ?thesis using kv(1) by blast
  qed
  moreover have "\<forall>(k, v) \<in> set (rest u (0, 0)). lua_key k \<and> v = RawGet k t \<and> v \<noteq> LNil"
    using keys get by fastforce
  ultimately show ?thesis unfolding tr by blast
qed

theorem traversal_complete_witness:
  "\<exists>(k, v) \<in> set (traverse 2 (id, id) 0 (\<lambda>_. True) LNil table_one). numericTableKey k = numericTableKey (LInteger 1)"
  using traversal_complete [OF table_one_reachable, of "(id, id)" 2 0 "\<lambda>_. True"]
  by (simp add: ranges_ok_def table_one_eq RawGet_def getIntKey_def)

text \<open>
  A nil key, which \<open>setField\<close> lets through to \<open>RawSet\<close>, is given by \<open>Next\<close> like any other, so that a traversal
  ends there: here the field under true is never given.
\<close>

lemma nil_key_ends_traversal:
  "let t = snd (RawSet 0 (LBool True) (LBool True) (snd (RawSet 0 LNil (LBool False) (newLTable 0 0)))) in
   RawGet (LBool True) t = LBool True \<and> fst (LTable_Next (id, id) LNil t) = (LNil, LBool False) \<and>
   traverse n (id, id) fresh clr LNil t = []"
  by (cases n) (simp_all add: RawSet_def RawSetH_def RawGet_def RawGetH_def newLTable_def tableKey_def numericTableKey_def addIterationKey_def
      mput_def mget_def LTable_Next_def ensureIterationOrder_def start_after_def Let_def)

text \<open>
  \<open>MaxN\<close> is the largest position with an element, sparse positions in the hash part included.
\<close>

theorem maxn_largest:
  assumes "reachable t" "0 < n" "n < MaxArrayIndex"
  shows "(RawGetInt n t \<noteq> LNil \<longrightarrow> n \<le> LTable_MaxN t) \<and> (n = LTable_MaxN t \<longrightarrow> RawGetInt n t \<noteq> LNil)"
proof -
  have ok: "table_ok t" "base_ok t" using reachable_ok [OF assms(1)] by (simp_all add: table_ok_def)
  let ?A = "{n. hmap (dict t) (ArrayKey n) \<noteq> None}"
  have m: "LTable_MaxN t = Max (insert (LTable_Len t) ?A)"
    unfolding LTable_MaxN_def LTable_Len_eq by (rule MaxN_fold) (use base_okD(1) [OF ok(2)] in simp_all)
  have fin: "finite ?A" using finite_hmap by blast
  note c = RawGetInt_content [OF ok(2) assms(2,3)]
  obtain ys j where a: "arr t = ys @ replicate j LNil" and l: "LTable_Len t = int (length ys)" and ne: "ys = [] \<or> last ys \<noteq> LNil"
    by (rule len_split)
  have "n \<in> insert (LTable_Len t) ?A \<or> n \<le> LTable_Len t" if "RawGetInt n t \<noteq> LNil"
    using that c assms(2) by (auto simp: content_simps a l nth_append split: if_splits option.splits)
  then have "RawGetInt n t \<noteq> LNil \<longrightarrow> n \<le> LTable_MaxN t" unfolding m using fin by (auto intro: Max_ge order_trans)
  moreover have "RawGetInt n t \<noteq> LNil" if "n = LTable_MaxN t"
  proof -
    have "n \<in> insert (LTable_Len t) ?A" unfolding that m using fin by (intro Max_in) simp_all
    then show ?thesis
      using c len_border_content(1) [OF ok(1)] assms(2) hmap_value [OF base_okD(1) [OF ok(2)], of "ArrayKey n"] base_okD(4) [OF ok(2), of n]
      by (auto simp: content_simps)
  qed
  ultimately show ?thesis by blast
qed

theorem maxn_largest_witness: "1 \<le> LTable_MaxN table_one"
  using maxn_largest [OF table_one_reachable, of 1] by (simp add: table_one_eq RawGetInt_def getIntKey_def)

end
