(* ===== verification/FieldAccess.thy ===== *)
theory FieldAccess
  imports TableProps
begin

text \<open>
  Writes through the state (\<open>state.go\<close>): the raw writes of the API, metatables, and \<open>setField\<close>, which the
  instructions \<open>OP_SETTABLE\<close> and \<open>OP_SETTABLEKS\<close> and the API's \<open>SetTable\<close> and \<open>SetField\<close> call. It follows the
  \<open>__newindex\<close> fields of the metatables. Tables and user data are at addresses, since objects share their
  metatables.
\<close>

section \<open>Objects and metatables\<close>

text \<open>
  A user data address has its metatable; other Go values of the type \<open>LTUserData\<close> (errors, spawn requests) have
  none. \<open>yielding\<close> says that \<open>yieldState\<close> is not \<open>yieldNone\<close>.
\<close>

record lheap =
  tables :: "nat \<Rightarrow> ltable"
  userdata :: "nat \<Rightarrow> lvalue option"
  builtinMts :: "LValueType \<Rightarrow> lvalue option"
  yielding :: bool

fun as_table :: "lvalue \<Rightarrow> nat option" where
  "as_table (LRef LTTable a) = Some a"
| "as_table _ = None"

fun as_userdata :: "lheap \<Rightarrow> lvalue \<Rightarrow> lvalue option" where
  "as_userdata h (LRef LTUserData a) = userdata h a"
| "as_userdata h _ = None"

definition metatable :: "lheap \<Rightarrow> lvalue \<Rightarrow> bool \<Rightarrow> lvalue" where
  "metatable h obj rawget =
     (let mt = (case as_table obj of Some a \<Rightarrow> Metatable (tables h a)
        | None \<Rightarrow> (case as_userdata h obj of Some m \<Rightarrow> m
          | None \<Rightarrow> (case builtinMts h (lv_type obj) of Some m \<Rightarrow> m | None \<Rightarrow> LNil)))
      in if \<not> rawget \<and> mt \<noteq> LNil then
           (case as_table mt of None \<Rightarrow> mt
            | Some b \<Rightarrow> let protected = RawGetString ''__metatable'' (tables h b) in if protected = LNil then mt else protected)
         else mt)"

definition metaOp1 :: "lheap \<Rightarrow> lvalue \<Rightarrow> string \<Rightarrow> lvalue" where
  "metaOp1 h obj event =
     (let mt = metatable h obj True in
      if mt \<noteq> LNil then (case as_table mt of Some b \<Rightarrow> RawGetString event (tables h b) | None \<Rightarrow> LNil) else LNil)"

section \<open>Writes\<close>

datatype field_error = ImmutableTable | IndexNonTable LValueType lvalue | SettableLoop | BadMetatable LValueType

text \<open>A write ends, raises an error, or calls a metamethod with its arguments.\<close>

datatype field_result = Done lheap | Raise field_error | Call lvalue "lvalue list"

text \<open>The three lines \<open>if !tb.RawSet(key, value) { RaiseError }\<close>.\<close>

definition raw_write :: "(ltable \<Rightarrow> bool \<times> ltable) \<Rightarrow> lheap \<Rightarrow> nat \<Rightarrow> field_result" where
  "raw_write f h a = (case f (tables h a) of (ok, t) \<Rightarrow>
     if \<not> ok then Raise ImmutableTable else Done (h\<lparr>tables := (tables h)(a := t)\<rparr>))"

abbreviation MaxTableGetLoop :: nat where "MaxTableGetLoop \<equiv> 100"

fun set_loop :: "nat \<Rightarrow> nat \<Rightarrow> lheap \<Rightarrow> lvalue \<Rightarrow> lvalue \<Rightarrow> lvalue \<Rightarrow> field_result" where
  "set_loop 0 fresh h curobj key value = (if \<not> yielding h then Raise SettableLoop else Done h)"
| "set_loop (Suc i) fresh h curobj key value =
     (if (case as_table curobj of Some a \<Rightarrow> RawGet key (tables h a) \<noteq> LNil | None \<Rightarrow> False) then
        raw_write (RawSet fresh key value) h (the (as_table curobj))
      else
        let metaindex = metaOp1 h curobj ''__newindex'' in
        if metaindex = LNil then
          (case as_table curobj of None \<Rightarrow> Raise (IndexNonTable (lv_type curobj) key)
           | Some a \<Rightarrow> raw_write (RawSet fresh key value) h a)
        else if lv_type metaindex = LTFunction then Call metaindex [curobj, key, value]
        else set_loop i fresh h metaindex key value)"

definition setField :: "nat \<Rightarrow> lheap \<Rightarrow> lvalue \<Rightarrow> lvalue \<Rightarrow> lvalue \<Rightarrow> field_result" where
  "setField fresh h obj key value =
     (case as_table obj of
        Some a \<Rightarrow> if Metatable (tables h a) = LNil then raw_write (RawSet fresh key value) h a
          else set_loop MaxTableGetLoop fresh h obj key value
      | None \<Rightarrow> set_loop MaxTableGetLoop fresh h obj key value)"

fun set_string_loop :: "nat \<Rightarrow> lheap \<Rightarrow> lvalue \<Rightarrow> string \<Rightarrow> lvalue \<Rightarrow> field_result" where
  "set_string_loop 0 h curobj key value = (if \<not> yielding h then Raise SettableLoop else Done h)"
| "set_string_loop (Suc i) h curobj key value =
     (if (case as_table curobj of Some a \<Rightarrow> RawGetString key (tables h a) \<noteq> LNil | None \<Rightarrow> False) then
        raw_write (RawSetString key value) h (the (as_table curobj))
      else
        let metaindex = metaOp1 h curobj ''__newindex'' in
        if metaindex = LNil then
          (case as_table curobj of None \<Rightarrow> Raise (IndexNonTable (lv_type curobj) (LString key))
           | Some a \<Rightarrow> raw_write (RawSetString key value) h a)
        else if lv_type metaindex = LTFunction then Call metaindex [curobj, LString key, value]
        else set_string_loop i h metaindex key value)"

definition setFieldString :: "lheap \<Rightarrow> lvalue \<Rightarrow> string \<Rightarrow> lvalue \<Rightarrow> field_result" where
  "setFieldString h obj key value =
     (case as_table obj of
        Some a \<Rightarrow> if Metatable (tables h a) = LNil then raw_write (RawSetString key value) h a
          else set_string_loop MaxTableGetLoop h obj key value
      | None \<Rightarrow> set_string_loop MaxTableGetLoop h obj key value)"

definition LState_RawSetInt :: "nat \<Rightarrow> int \<Rightarrow> lvalue \<Rightarrow> ltable \<Rightarrow> string + ltable" where
  "LState_RawSetInt fresh key value t = (case RawSetInt fresh key value t of (ok, t) \<Rightarrow>
     if \<not> ok then Inl ''attempt to modify Immutable table'' else Inr t)"

definition SetTable :: "nat \<Rightarrow> lheap \<Rightarrow> lvalue \<Rightarrow> lvalue \<Rightarrow> lvalue \<Rightarrow> field_result" where
  "SetTable fresh h obj key value = setField fresh h obj key value"

definition SetField :: "lheap \<Rightarrow> lvalue \<Rightarrow> string \<Rightarrow> lvalue \<Rightarrow> field_result" where
  "SetField h obj key value = setFieldString h obj key value"

definition GetMetatable :: "lheap \<Rightarrow> lvalue \<Rightarrow> lvalue" where
  "GetMetatable h obj = metatable h obj False"

definition SetMetatable :: "lheap \<Rightarrow> lvalue \<Rightarrow> lvalue \<Rightarrow> field_result" where
  "SetMetatable h obj mt =
     (if mt \<noteq> LNil \<and> as_table mt = None then Raise (BadMetatable (lv_type mt))
      else case as_table obj of
        Some a \<Rightarrow> if Immutable (tables h a) then Raise ImmutableTable
          else Done (h\<lparr>tables := (tables h)(a := (tables h a)\<lparr>Metatable := mt\<rparr>)\<rparr>)
      | None \<Rightarrow> (case obj of
          LRef LTUserData a \<Rightarrow>
            (case userdata h a of Some _ \<Rightarrow> Done (h\<lparr>userdata := (userdata h)(a := Some mt)\<rparr>)
             | None \<Rightarrow> Done (h\<lparr>builtinMts := (builtinMts h)(LTUserData := Some mt)\<rparr>))
        | _ \<Rightarrow> Done (h\<lparr>builtinMts := (builtinMts h)(lv_type obj := Some mt)\<rparr>)))"

section \<open>The chain of \<open>__newindex\<close>\<close>

text \<open>
  The object that a write is handed on to: the \<open>__newindex\<close> of an object that does not hold the key, when it is
  neither nil nor a function.
\<close>

definition hands_on :: "lheap \<Rightarrow> lvalue \<Rightarrow> lvalue \<Rightarrow> lvalue option" where
  "hands_on h key obj =
     (let m = metaOp1 h obj ''__newindex'' in
      if (\<exists>a. as_table obj = Some a \<and> RawGet key (tables h a) \<noteq> LNil) \<or> m = LNil \<or> lv_type m = LTFunction then None else Some m)"

text \<open>The object where the chain ends, when it does within a number of objects.\<close>

fun write_target :: "nat \<Rightarrow> lheap \<Rightarrow> lvalue \<Rightarrow> lvalue \<Rightarrow> lvalue option" where
  "write_target 0 h key obj = None"
| "write_target (Suc n) h key obj = (case hands_on h key obj of None \<Rightarrow> Some obj | Some o' \<Rightarrow> write_target n h key o')"

text \<open>What is done there: the table is written, the function called, or the object is not a table.\<close>

definition write_at :: "nat \<Rightarrow> lheap \<Rightarrow> lvalue \<Rightarrow> lvalue \<Rightarrow> lvalue \<Rightarrow> field_result" where
  "write_at fresh h key value obj =
     (let m = metaOp1 h obj ''__newindex'' in
      case as_table obj of
        Some a \<Rightarrow> if RawGet key (tables h a) = LNil \<and> m \<noteq> LNil then Call m [obj, key, value]
          else raw_write (RawSet fresh key value) h a
      | None \<Rightarrow> if m = LNil then Raise (IndexNonTable (lv_type obj) key) else Call m [obj, key, value])"

lemma set_loop_target:
  "set_loop n fresh h obj key value = (case write_target n h key obj of
     Some obj' \<Rightarrow> write_at fresh h key value obj' | None \<Rightarrow> if yielding h then Done h else Raise SettableLoop)"
proof (induction n arbitrary: obj)
  case (Suc n)
  then show ?case by (cases "as_table obj") (auto simp: hands_on_def write_at_def Let_def)
qed simp

lemma metaOp1_no_metatable: "as_table obj = Some a \<Longrightarrow> Metatable (tables h a) = LNil \<Longrightarrow> metaOp1 h obj event = LNil"
  by (simp add: metaOp1_def metatable_def Let_def)

text \<open>The fast path for tables without a metatable does what the loop does.\<close>

lemma setField_loop: "setField fresh h obj key value = set_loop MaxTableGetLoop fresh h obj key value"
proof -
  have "set_loop (Suc n) fresh h obj key value = raw_write (RawSet fresh key value) h a"
    if "as_table obj = Some a" "Metatable (tables h a) = LNil" for a n
    using that metaOp1_no_metatable [OF that] by (simp add: Let_def)
  from this [where n = 99] show ?thesis by (auto simp: setField_def split: option.splits)
qed

lemma set_string_loop_eq: "set_string_loop n h obj s value = set_loop n fresh h obj (LString s) value"
proof -
  have g: "RawGet (LString s) t = RawGetString s t" for t by (simp add: RawGet_def)
  have w: "RawSet fresh (LString s) value = RawSetString s value" by (auto simp: RawSet_def RawSetString_def)
  show ?thesis
  proof (induction n arbitrary: obj)
    case (Suc n)
    then show ?case by (cases "as_table obj") (simp_all add: g w Let_def)
  qed simp
qed

lemma setFieldString_eq: "setFieldString h obj s value = setField fresh h obj (LString s) value"
proof -
  have w: "RawSet fresh (LString s) value = RawSetString s value" by (auto simp: RawSet_def RawSetString_def)
  show ?thesis by (simp add: setFieldString_def setField_def set_string_loop_eq [of _ _ _ _ _ fresh] w split: option.splits)
qed

lemma raw_write_cases:
  "raw_write (RawSet fresh key v) h a =
     (if Immutable (tables h a) then Raise ImmutableTable
      else Done (h\<lparr>tables := (tables h)(a := snd (RawSet fresh key v (tables h a)))\<rparr>))"
  using RawSet_fst [of "tables h a" fresh key v]
  by (cases "RawSet fresh key v (tables h a)") (auto simp: raw_write_def immutable_unchanged)

lemma write_at_Raise:
  "write_at fresh h key v obj = Raise e \<longleftrightarrow>
     (\<exists>a. as_table obj = Some a \<and> Immutable (tables h a) \<and> (RawGet key (tables h a) \<noteq> LNil \<or> metaOp1 h obj ''__newindex'' = LNil) \<and> e = ImmutableTable) \<or>
     (as_table obj = None \<and> metaOp1 h obj ''__newindex'' = LNil \<and> e = IndexNonTable (lv_type obj) key)"
  by (cases "as_table obj") (auto simp: write_at_def Let_def raw_write_cases)

lemma write_at_Done:
  assumes "write_at fresh h key v obj = Done h'"
  obtains a where "as_table obj = Some a" "\<not> Immutable (tables h a)"
    "h' = h\<lparr>tables := (tables h)(a := snd (RawSet fresh key v (tables h a)))\<rparr>"
  using assms by (cases "as_table obj") (auto simp: write_at_def Let_def raw_write_cases split: if_splits)

lemma setField_Done:
  assumes "setField fresh h obj key v = Done h'"
  shows "h' = h \<or> (\<exists>a. \<not> Immutable (tables h a) \<and> h' = h\<lparr>tables := (tables h)(a := snd (RawSet fresh key v (tables h a)))\<rparr>)"
  using assms by (auto simp: setField_loop set_loop_target split: option.splits if_splits elim!: write_at_Done)

section \<open>Properties\<close>

text \<open>
  C26: The errors of a write. No operation changes an immutable table, and every write to one reports failure. The
  raw write of the API raises exactly for the keys nil and NaN and for an immutable table. \<open>setField\<close>, the write of
  the instructions, follows the \<open>__newindex\<close> objects from object to object. It raises exactly when the object where the
  chain ends is an immutable table to be written or is no table and has no \<open>__newindex\<close>, or when the chain does not end within
  \<open>MaxTableGetLoop\<close> objects and no yield is under way; nil and NaN keys are written like any other. It changes
  no immutable table, and at most one table. A write under a string does the same as \<open>setField\<close>.
\<close>

theorem table_write_errors:
  "(Immutable t \<longrightarrow> RawSet fresh key v t = (False, t) \<and> RawSetInt fresh i v t = (False, t) \<and> RawSetString s v t = (False, t) \<and>
      RawSetH fresh key v t = (False, t) \<and> LTable_Append fresh v t = (False, t) \<and> LTable_Insert fresh i v t = (False, t) \<and>
      LTable_Remove i t = ((LNil, False), t)) \<and>
   ((\<exists>err. LState_RawSet fresh key v t = Inl err) \<longleftrightarrow> key = LNil \<or> key = LNumber FNaN \<or> Immutable t) \<and>
   ((\<exists>err. LState_RawSetInt fresh i v t = Inl err) \<longleftrightarrow> Immutable t) \<and>
   ((\<exists>err. setField fresh h obj key v = Raise err) \<longleftrightarrow>
      (case write_target MaxTableGetLoop h key obj of
         None \<Rightarrow> \<not> yielding h
       | Some obj' \<Rightarrow> (case as_table obj' of
           Some a \<Rightarrow> Immutable (tables h a) \<and> (RawGet key (tables h a) \<noteq> LNil \<or> metaOp1 h obj' ''__newindex'' = LNil)
         | None \<Rightarrow> metaOp1 h obj' ''__newindex'' = LNil))) \<and>
   (as_table obj = Some a \<longrightarrow> Metatable (tables h a) = LNil \<longrightarrow> \<not> Immutable (tables h a) \<longrightarrow>
      setField fresh h obj key v = Done (h\<lparr>tables := (tables h)(a := snd (RawSet fresh key v (tables h a)))\<rparr>)) \<and>
   (\<forall>h'. setField fresh h obj key v = Done h' \<longrightarrow>
      (\<forall>b. Immutable (tables h b) \<longrightarrow> tables h' b = tables h b) \<and> (\<exists>c. \<forall>b. b \<noteq> c \<longrightarrow> tables h' b = tables h b)) \<and>
   setFieldString h obj s v = setField fresh h obj (LString s) v"
proof (intro conjI)
  show "(\<exists>err. LState_RawSet fresh key v t = Inl err) \<longleftrightarrow> key = LNil \<or> key = LNumber FNaN \<or> Immutable t"
    using RawSet_fst [of t fresh key v] immutable_unchanged(1) [of t fresh key v]
    by (cases "Immutable t"; cases "RawSet fresh key v t") (auto simp: LState_RawSet_def)
  show "(\<exists>err. LState_RawSetInt fresh i v t = Inl err) \<longleftrightarrow> Immutable t"
    using RawSet_fst [of t fresh "LInteger i" v] immutable_unchanged(1) [of t]
    by (cases "RawSet fresh (LInteger i) v t") (auto simp: LState_RawSetInt_def RawSetInt_RawSet)
  show "(\<exists>err. setField fresh h obj key v = Raise err) \<longleftrightarrow>
      (case write_target MaxTableGetLoop h key obj of
         None \<Rightarrow> \<not> yielding h
       | Some obj' \<Rightarrow> (case as_table obj' of
           Some a \<Rightarrow> Immutable (tables h a) \<and> (RawGet key (tables h a) \<noteq> LNil \<or> metaOp1 h obj' ''__newindex'' = LNil)
         | None \<Rightarrow> metaOp1 h obj' ''__newindex'' = LNil))"
    unfolding setField_loop set_loop_target
    by (cases "write_target MaxTableGetLoop h key obj") (auto simp: write_at_Raise split: option.splits)
  show "as_table obj = Some a \<longrightarrow> Metatable (tables h a) = LNil \<longrightarrow> \<not> Immutable (tables h a) \<longrightarrow>
      setField fresh h obj key v = Done (h\<lparr>tables := (tables h)(a := snd (RawSet fresh key v (tables h a)))\<rparr>)"
    by (simp add: setField_def raw_write_cases)
  show "\<forall>h'. setField fresh h obj key v = Done h' \<longrightarrow>
      (\<forall>b. Immutable (tables h b) \<longrightarrow> tables h' b = tables h b) \<and> (\<exists>c. \<forall>b. b \<noteq> c \<longrightarrow> tables h' b = tables h b)"
    by (auto dest!: setField_Done)
  show "setFieldString h obj s v = setField fresh h obj (LString s) v" by (rule setFieldString_eq)
qed (auto simp: immutable_unchanged)

text \<open>A table at address 1 whose writes go to the frozen table at address 2, through the metatable at 3.\<close>

definition frozen_proxy :: lheap where
  "frozen_proxy = \<lparr>tables = (\<lambda>a. if a = 1 then (newLTable 0 0)\<lparr>Metatable := LRef LTTable 3\<rparr>
      else if a = 2 then (newLTable 0 0)\<lparr>Immutable := True\<rparr>
      else snd (RawSetString ''__newindex'' (LRef LTTable 2) (newLTable 0 0))),
    userdata = (\<lambda>_. None), builtinMts = (\<lambda>_. None), yielding = False\<rparr>"

theorem table_write_errors_witness:
  "LTable_Append 0 (LBool True) ((newLTable 0 0)\<lparr>Immutable := True\<rparr>) = (False, (newLTable 0 0)\<lparr>Immutable := True\<rparr>) \<and>
   (\<exists>err. setField 0 frozen_proxy (LRef LTTable 1) (LBool True) LNil = Raise err)"
proof -
  note d = frozen_proxy_def hands_on_def metaOp1_def metatable_def Let_def newLTable_def RawGet_def RawGetH_def
    RawSetString_def RawGetString_def addIterationKey_def numericTableKey_def
  have s: "hands_on frozen_proxy (LBool True) (LRef LTTable 1) = Some (LRef LTTable 2)"
    "hands_on frozen_proxy (LBool True) (LRef LTTable 2) = None"
    "metaOp1 frozen_proxy (LRef LTTable 2) ''__newindex'' = LNil" "Immutable (tables frozen_proxy 2)"
    by (simp_all add: d)
  have "write_target (Suc (Suc 98)) frozen_proxy (LBool True) (LRef LTTable 1) = Some (LRef LTTable 2)"
    unfolding write_target.simps s(1) using s(2) by simp
  then have w: "write_target MaxTableGetLoop frozen_proxy (LBool True) (LRef LTTable 1) = Some (LRef LTTable 2)"
    by (simp only: Suc_numeral semiring_norm)
  show ?thesis
    using table_write_errors [of "(newLTable 0 0)\<lparr>Immutable := True\<rparr>" 0 "LBool True" "LBool True"]
      table_write_errors [where h = frozen_proxy and obj = "LRef LTTable 1" and key = "LBool True" and fresh = 0 and v = LNil] s w
    by simp
qed

text \<open>
  What the missing check lets a program do: an assignment with a nil key, which Lua and \<open>LState.RawSet\<close>
  refuse, succeeds and leaves a field under nil.
\<close>

lemma nil_key_written:
  assumes "as_table obj = Some a" "tables h a = newLTable 0 0"
  shows "\<exists>h'. setField fresh h obj LNil (LBool True) = Done h' \<and> fst (LTable_Next (id, id) LNil (tables h' a)) = (LNil, LBool True)"
  using assms
  by (simp add: setField_def raw_write_cases newLTable_def RawSet_def RawSetH_def tableKey_def addIterationKey_def mput_def numericTableKey_def
      LTable_Next_def ensureIterationOrder_def start_after_def Let_def RawGetH_def mget_def)

text \<open>\<open>SetMetatable\<close> changes no frozen table either, and only tables and nil become metatables.\<close>

lemma SetMetatable_errors:
  "(\<exists>err. SetMetatable h obj mt = Raise err) \<longleftrightarrow>
     (mt \<noteq> LNil \<and> as_table mt = None) \<or> (\<exists>a. as_table obj = Some a \<and> Immutable (tables h a))"
  by (auto simp: SetMetatable_def split: option.splits lvalue.splits LValueType.splits)

lemma SetMetatable_metatable:
  assumes "SetMetatable h obj mt = Done h'"
  shows "metatable h' obj True = mt"
  using assms
  by (auto simp: SetMetatable_def metatable_def Let_def split: if_splits option.splits lvalue.splits LValueType.splits)

text \<open>Writes through \<open>setField\<close> keep every table of the heap within the operations of the invariant.\<close>

lemma setField_reachable:
  assumes "\<forall>a. reachable (tables h a)" "lua_key key" "setField fresh h obj key v = Done h'"
  shows "\<forall>a. reachable (tables h' a)"
  using setField_Done [OF assms(3)] assms(1,2) by (auto intro!: reachable.set)

end
