(* ===== verification/FlowGraph.thy ===== *)
theory FlowGraph
  imports Prelude "HOL-Library.Monad_Syntax"
begin

text \<open>
  Control flow graphs, \<open>types/cfg/cfg.go\<close>: nodes in an array, the edges as a list and as two arrays
  of adjacency lists, and the reverse post-order that forward analyses follow. A point is its index, cut
  to 32 bits where the code makes one from a length. Capacities of slices and receivers that are nil are
  left out. \<open>None\<close> is the panic of an index out of range.
\<close>

section \<open>Data\<close>

datatype NodeKind = NodeEntry | NodeExit | NodeAssign | NodeCall | NodeBranch | NodeJoin | NodeReturn
  | NodeScopeEnter | NodeScopeExit | NodeTypeDef

datatype CondCheckKind = CheckNone | CheckTruthy | CheckFalsy | CheckNil | CheckNotNil | CheckLimit
  | CheckTypeEqual | CheckTypeNot

record CondCheck =
  check_kind :: CondCheckKind
  TypeName :: string

record cfg_node =
  Point :: nat
  Kind :: NodeKind
  Target :: u64
  Callee :: string
  CondVar :: u64
  cond_check :: CondCheck
  LoopVars :: "u64 list"
  LoopLocals :: "u64 list"
  LoopPreheader :: nat
  LoopPreheaderSet :: bool

record Edge =
  From :: nat
  To :: nat
  Cond :: bool

record CFG =
  c_id :: u64
  c_entry :: nat
  c_exit :: nat
  c_nodes :: "cfg_node list"
  c_edges :: "Edge list"
  c_preds :: "nat list list"
  c_succs :: "nat list list"
  c_rpo :: "nat list"

text \<open>The node that a composite literal makes from the fields it does not name.\<close>

definition zero_node :: cfg_node where
  "zero_node = \<lparr>Point = 0, Kind = NodeEntry, Target = 0, Callee = [], CondVar = 0,
     cond_check = \<lparr>check_kind = CheckNone, TypeName = []\<rparr>, LoopVars = [], LoopLocals = [],
     LoopPreheader = 0, LoopPreheaderSet = False\<rparr>"

section \<open>Construction\<close>

definition to_point :: "nat \<Rightarrow> nat" where "to_point n = n mod 2 ^ 32"

definition invalidateRPO :: "CFG \<Rightarrow> CFG" where "invalidateRPO c = c\<lparr>c_rpo := []\<rparr>"

definition ensureAdjacencyLen :: "nat \<Rightarrow> CFG \<Rightarrow> CFG" where
  "ensureAdjacencyLen n c =
     (if n \<le> length (c_preds c) then c
      else let grow = n - length (c_preds c) in
        c\<lparr>c_preds := c_preds c @ replicate grow [], c_succs := c_succs c @ replicate grow []\<rparr>)"

definition AddNode :: "NodeKind \<Rightarrow> u64 \<Rightarrow> string \<Rightarrow> CFG \<Rightarrow> nat \<times> CFG" where
  "AddNode kind target callee c =
     (let c = invalidateRPO c; p = to_point (length (c_nodes c));
          c = c\<lparr>c_nodes := c_nodes c @ [zero_node\<lparr>Point := p, Kind := kind, Target := target, Callee := callee\<rparr>]\<rparr>
      in (p, ensureAdjacencyLen (length (c_nodes c)) c))"

definition AddBranch :: "u64 \<Rightarrow> CondCheck \<Rightarrow> CFG \<Rightarrow> nat \<times> CFG" where
  "AddBranch condVar condCheck c =
     (let c = invalidateRPO c; p = to_point (length (c_nodes c)) in
      (p, c\<lparr>c_nodes := c_nodes c @ [zero_node\<lparr>Point := p, Kind := NodeBranch, CondVar := condVar, cond_check := condCheck\<rparr>]\<rparr>))"

text \<open>After \<open>ensureAdjacencyLen\<close> both indices are in range.\<close>

definition AddEdge :: "nat \<Rightarrow> nat \<Rightarrow> bool \<Rightarrow> CFG \<Rightarrow> CFG" where
  "AddEdge from to cond c =
     (let c = invalidateRPO (ensureAdjacencyLen (max from to + 1) c);
          c = c\<lparr>c_edges := c_edges c @ [\<lparr>From = from, To = to, Cond = cond\<rparr>]\<rparr>;
          c = c\<lparr>c_succs := (c_succs c)[from := c_succs c ! from @ [to]]\<rparr>
      in c\<lparr>c_preds := (c_preds c)[to := c_preds c ! to @ [from]]\<rparr>)"

text \<open>The global counter of graphs is passed along.\<close>

definition CFG_New :: "u64 \<Rightarrow> CFG \<times> u64" where
  "CFG_New counter =
     (let counter = counter + 1;
          c = \<lparr>c_id = counter, c_entry = 0, c_exit = 0, c_nodes = [], c_edges = [], c_preds = [], c_succs = [], c_rpo = []\<rparr>;
          (p, c) = AddNode NodeEntry 0 [] c; c = c\<lparr>c_entry := p\<rparr>;
          (p, c) = AddNode NodeExit 0 [] c; c = c\<lparr>c_exit := p\<rparr>
      in (c, counter))"

definition remove_pred :: "nat \<Rightarrow> nat \<Rightarrow> nat list list \<Rightarrow> nat list list" where
  "remove_pred from to ps = (if to \<ge> length ps then ps else ps[to := filter (\<lambda>p. p \<noteq> from) (ps ! to)])"

definition RemoveOutgoing :: "nat \<Rightarrow> CFG \<Rightarrow> CFG" where
  "RemoveOutgoing from c =
     (if from \<ge> length (c_succs c) then c
      else let ss = c_succs c ! from in
        if ss = [] then c
        else let c = invalidateRPO c;
                 c = c\<lparr>c_edges := filter (\<lambda>e. From e \<noteq> from) (c_edges c), c_succs := (c_succs c)[from := []]\<rparr>
          in c\<lparr>c_preds := fold (remove_pred from) ss (c_preds c)\<rparr>)"

section \<open>Queries\<close>

definition adj :: "nat list list \<Rightarrow> nat \<Rightarrow> nat list" where
  "adj xs p = (if p \<ge> length xs then [] else xs ! p)"

definition Predecessors :: "CFG \<Rightarrow> nat \<Rightarrow> nat list" where "Predecessors c p = adj (c_preds c) p"
definition Successors :: "CFG \<Rightarrow> nat \<Rightarrow> nat list" where "Successors c p = adj (c_succs c) p"

definition Successor :: "CFG \<Rightarrow> nat \<Rightarrow> nat" where
  "Successor c p = (if p < length (c_succs c) then (case c_succs c ! p of s # _ \<Rightarrow> s | [] \<Rightarrow> p) else p)"

definition Predecessor :: "CFG \<Rightarrow> nat \<Rightarrow> nat" where
  "Predecessor c p = (if p < length (c_preds c) then (case c_preds c ! p of q # _ \<Rightarrow> q | [] \<Rightarrow> p) else p)"

definition IsJoin :: "CFG \<Rightarrow> nat \<Rightarrow> bool" where
  "IsJoin c p \<longleftrightarrow> p < length (c_preds c) \<and> length (c_preds c ! p) > 1"

definition IsBranch :: "CFG \<Rightarrow> nat \<Rightarrow> bool" where
  "IsBranch c p \<longleftrightarrow> p < length (c_succs c) \<and> length (c_succs c ! p) > 1"

definition CFG_Node :: "CFG \<Rightarrow> nat \<Rightarrow> cfg_node option" where
  "CFG_Node c p = (if p < length (c_nodes c) then Some (c_nodes c ! p) else None)"

definition CFG_Size :: "CFG \<Rightarrow> nat" where "CFG_Size c = length (c_nodes c)"

definition EdgeCond :: "CFG \<Rightarrow> nat \<Rightarrow> nat \<Rightarrow> bool \<times> bool" where
  "EdgeCond c from to = (case find (\<lambda>e. From e = from \<and> To e = to) (c_edges c) of
      Some e \<Rightarrow> (Cond e, True)
    | None \<Rightarrow> (False, False))"

definition ValidateEdges :: "CFG \<Rightarrow> (nat \<times> nat \<times> string) option" where
  "ValidateEdges c =
     (let n = length (c_nodes c) in
      case find (\<lambda>e. From e \<ge> n \<or> To e \<ge> n) (c_edges c) of
        None \<Rightarrow> None
      | Some e \<Rightarrow> Some (From e, To e, if From e \<ge> n then ''from point out of bounds'' else ''to point out of bounds''))"

section \<open>Depth-first search\<close>

text \<open>
  The recursive function \<open>visit\<close>, on a list of points that are visited one after the other. The points
  that follow a point are a parameter, as the search of the reversed graph has the same shape. The array of
  marks has an entry for every node.
\<close>

function visit :: "(nat \<Rightarrow> nat list option) \<Rightarrow> nat list \<Rightarrow> bool list \<times> nat list \<Rightarrow> (bool list \<times> nat list) option" where
  "visit nexts [] st = Some st"
| "visit nexts (p # ps) (visited, order) =
     (if p \<ge> length visited \<or> visited ! p then visit nexts ps (visited, order)
      else case nexts p of
        None \<Rightarrow> None
      | Some ss \<Rightarrow>
          (case visit nexts ss (visited[p := True], order) of
             None \<Rightarrow> None
           | Some (visited, order) \<Rightarrow> visit nexts ps (visited, order @ [p])))"
  by pat_completeness auto

abbreviation white :: "bool list \<Rightarrow> nat" where "white visited \<equiv> length (filter Not visited)"

lemma white_mark: "p < length visited \<Longrightarrow> \<not> visited ! p \<Longrightarrow> white (visited[p := True]) < white visited"
proof (induction visited arbitrary: p)
  case (Cons v vs)
  then show ?case by (cases p) auto
qed simp

lemma visit_white:
  assumes "visit_dom (nexts, ps, st)" "visit nexts ps st = Some (visited', order')"
  shows "white visited' \<le> white (fst st)"
  using assms
proof (induction nexts ps st arbitrary: visited' order' rule: visit.pinduct)
  case (1 nexts st)
  then show ?case by (cases st) (simp add: visit.psimps)
next
  case (2 nexts p ps visited order)
  show ?case
  proof (cases "p \<ge> length visited \<or> visited ! p")
    case True
    then show ?thesis using 2 by (simp add: visit.psimps)
  next
    case False
    then obtain ss vis ord where s: "nexts p = Some ss" "visit nexts ss (visited[p := True], order) = Some (vis, ord)"
      "visit nexts ps (vis, ord @ [p]) = Some (visited', order')"
      using 2(1,5) by (auto simp: visit.psimps split: option.splits)
    have "white vis \<le> white (visited[p := True])" using 2(3) [OF False s(1)] s(2) by simp
    moreover have "white visited' \<le> white vis" using 2(4) [OF False s(1,2)] s(3) by simp
    ultimately show ?thesis using white_mark [of p visited] False by simp
  qed
qed

termination visit
proof (relation "measures [\<lambda>(_, _, visited, _). white visited, \<lambda>(_, ps, _). length ps]", goal_cases)
  case (4 nexts p ps visited order ss x vis ord)
  then show ?case using visit_white [of nexts ss "(visited[p := True], order)" vis ord] white_mark [of p visited] by simp
qed (simp_all add: white_mark)

text \<open>Reverse post-order: the search from the entry, and its order backwards.\<close>

definition post_order :: "nat \<Rightarrow> (nat \<Rightarrow> nat list option) \<Rightarrow> nat \<Rightarrow> (bool list \<times> nat list) option" where
  "post_order n nexts start = visit nexts [start] (replicate n False, [])"

abbreviation succs_at :: "CFG \<Rightarrow> nat \<Rightarrow> nat list option" where
  "succs_at c p \<equiv> (if p < length (c_succs c) then Some (c_succs c ! p) else None)"

definition RPOReadOnly :: "CFG \<Rightarrow> (nat list \<times> CFG) option" where
  "RPOReadOnly c =
     (if length (c_rpo c) > 0 then Some (c_rpo c, c)
      else case post_order (length (c_nodes c)) (succs_at c) (c_entry c) of
        None \<Rightarrow> None
      | Some (_, order) \<Rightarrow> Some (rev order, c\<lparr>c_rpo := rev order\<rparr>))"

definition Reachable :: "CFG \<Rightarrow> nat set option" where
  "Reachable c =
     map_option (\<lambda>(visited, _). set (filter (\<lambda>p. visited ! p) [0..<length visited]))
       (post_order (length (c_nodes c)) (succs_at c) (c_entry c))"

definition UnreachablePoints :: "CFG \<Rightarrow> nat list option" where
  "UnreachablePoints c =
     map_option (\<lambda>reachable. filter (\<lambda>p. p \<notin> reachable) (map to_point [0..<length (c_nodes c)])) (Reachable c)"

section \<open>What the search finds\<close>

lemma visit_Some:
  assumes "\<And>p. P p \<Longrightarrow> \<exists>ss. nexts p = Some ss \<and> (\<forall>s \<in> set ss. P s)" and "\<forall>p \<in> set ps. P p"
  shows "\<exists>st'. visit nexts ps st = Some st'"
  using assms
proof (induction nexts ps st rule: visit.induct)
  case (2 nexts p ps visited order)
  show ?case
  proof (cases "p \<ge> length visited \<or> visited ! p")
    case True
    then show ?thesis using 2 by simp
  next
    case False
    obtain ss where s: "nexts p = Some ss" "\<forall>s \<in> set ss. P s" using 2(4) [of p] 2(5) by auto
    obtain vis ord where v: "visit nexts ss (visited[p := True], order) = Some (vis, ord)"
      using 2(2) [OF False s(1) 2(4) s(2)] by auto
    have "\<exists>st'. visit nexts ps (vis, ord @ [p]) = Some st'" using 2(3) [OF False s(1) v refl 2(4)] 2(5) by simp
    then show ?thesis using False s v by simp
  qed
qed simp

text \<open>Every point of a post-order is a root or follows a point after it.\<close>

fun parented :: "(nat \<Rightarrow> nat set) \<Rightarrow> nat set \<Rightarrow> nat list \<Rightarrow> bool" where
  "parented S R [] \<longleftrightarrow> True"
| "parented S R (v # xs) \<longleftrightarrow> (v \<in> R \<or> (\<exists>u \<in> set xs. v \<in> S u)) \<and> parented S R xs"

lemma parented_append: "parented S R (xs @ ys) \<longleftrightarrow> parented S (R \<union> (\<Union>u \<in> set ys. S u)) xs \<and> parented S R ys"
  by (induction xs) auto

lemma parented_mono: "parented S R xs \<Longrightarrow> R \<subseteq> R' \<Longrightarrow> parented S R' xs"
  by (induction xs) auto

definition next_set :: "(nat \<Rightarrow> nat list option) \<Rightarrow> nat \<Rightarrow> nat set" where
  "next_set nexts u = (case nexts u of None \<Rightarrow> {} | Some ss \<Rightarrow> set ss)"

definition searched :: "(nat \<Rightarrow> nat list option) \<Rightarrow> nat set \<Rightarrow> bool list \<Rightarrow> bool list \<Rightarrow> nat list \<Rightarrow> bool" where
  "searched nexts R vis vis' new \<longleftrightarrow>
     length vis' = length vis \<and> distinct new \<and> set new = {p. p < length vis \<and> vis' ! p \<and> \<not> vis ! p} \<and>
     (\<forall>p < length vis. vis ! p \<longrightarrow> vis' ! p) \<and> (\<forall>p \<in> R. p < length vis \<longrightarrow> vis' ! p) \<and>
     (\<forall>u \<in> set new. \<forall>v \<in> next_set nexts u. v < length vis \<longrightarrow> vis' ! v) \<and> parented (next_set nexts) R new"

lemma searchedD:
  assumes "searched nexts R vis vis' new"
  shows "length vis' = length vis" "distinct new" "p \<in> set new \<longleftrightarrow> p < length vis \<and> vis' ! p \<and> \<not> vis ! p"
    "p < length vis \<Longrightarrow> vis ! p \<Longrightarrow> vis' ! p" "p \<in> R \<Longrightarrow> p < length vis \<Longrightarrow> vis' ! p"
    "u \<in> set new \<Longrightarrow> v \<in> next_set nexts u \<Longrightarrow> v < length vis \<Longrightarrow> vis' ! v" "parented (next_set nexts) R new"
  using assms unfolding searched_def by blast+

lemma searchedI:
  assumes "length vis' = length vis" "distinct new" "\<And>p. p \<in> set new \<longleftrightarrow> p < length vis \<and> vis' ! p \<and> \<not> vis ! p"
    "\<And>p. p < length vis \<Longrightarrow> vis ! p \<Longrightarrow> vis' ! p" "\<And>p. p \<in> R \<Longrightarrow> p < length vis \<Longrightarrow> vis' ! p"
    "\<And>u v. u \<in> set new \<Longrightarrow> v \<in> next_set nexts u \<Longrightarrow> v < length vis \<Longrightarrow> vis' ! v" "parented (next_set nexts) R new"
  shows "searched nexts R vis vis' new"
  unfolding searched_def using assms by blast

lemma searched_skip:
  assumes "searched nexts R vis vis' new" "p \<ge> length vis \<or> vis ! p"
  shows "searched nexts (insert p R) vis vis' new"
proof (rule searchedI)
  note s = searchedD [OF assms(1)]
  show "vis' ! q" if "q \<in> insert p R" "q < length vis" for q using that assms(2) s(4,5) by auto
  show "parented (next_set nexts) (insert p R) new" by (rule parented_mono [OF s(7)]) blast
qed (use searchedD [OF assms(1)] in blast)+

lemma searched_step:
  assumes p: "p < length vis" "\<not> vis ! p" "nexts p = Some ss"
    and a: "searched nexts (set ss) (vis[p := True]) vis1 new1" and b: "searched nexts R vis1 vis2 new2"
  shows "searched nexts (insert p R) vis vis2 (new1 @ p # new2)"
proof (rule searchedI)
  note A = searchedD [OF a] and B = searchedD [OF b]
  have np: "next_set nexts p = set ss" using p(3) by (simp add: next_set_def)
  have len: "length vis1 = length vis" "length vis2 = length vis" using A(1) B(1) by simp_all
  have p1: "vis1 ! p" using A(4) [of p] p(1) by simp
  have m1: "vis1 ! q" if "q < length vis" "vis ! q" for q using A(4) [of q] that by (cases "q = p") simp_all
  have m2: "vis2 ! q" if "q < length vis" "vis1 ! q" for q using B(4) [of q] that len by simp
  have n1: "q \<in> set new1 \<longleftrightarrow> q < length vis \<and> vis1 ! q \<and> \<not> vis ! q \<and> q \<noteq> p" for q
    using A(3) [of q] p(1) by (cases "q = p") simp_all
  have n2: "q \<in> set new2 \<longleftrightarrow> q < length vis \<and> vis2 ! q \<and> \<not> vis1 ! q" for q using B(3) [of q] len by simp
  have disj: "set new1 \<inter> set new2 = {}" using n1 n2 by blast
  show "length vis2 = length vis" by (rule len)
  show "distinct (new1 @ p # new2)" using A(2) B(2) n1 [of p] n2 [of p] p1 disj by simp
  show "q \<in> set (new1 @ p # new2) \<longleftrightarrow> q < length vis \<and> vis2 ! q \<and> \<not> vis ! q" for q
    unfolding set_append list.set Un_iff insert_iff n1 n2 using p p1 m1 m2 by blast
  show "vis2 ! q" if "q < length vis" "vis ! q" for q using that m1 m2 by blast
  show "vis2 ! q" if "q \<in> insert p R" "q < length vis" for q using that B(5) [of q] len p1 m2 by auto
  show "vis2 ! v" if u: "u \<in> set (new1 @ p # new2)" and v: "v \<in> next_set nexts u" "v < length vis" for u v
  proof -
    consider "u \<in> set new1" | "u = p" | "u \<in> set new2" using u by auto
    then show ?thesis
      using A(5) [of v] A(6) [of u v] B(6) [of u v] v m2 len np by cases auto
  qed
  have "parented (next_set nexts) (insert p R \<union> (\<Union>u \<in> set (p # new2). next_set nexts u)) new1"
    by (rule parented_mono [OF A(7)]) (use np in auto)
  moreover have "parented (next_set nexts) (insert p R) new2" by (rule parented_mono [OF B(7)]) blast
  ultimately show "parented (next_set nexts) (insert p R) (new1 @ p # new2)" by (simp add: parented_append)
qed

lemma visit_searched:
  "visit nexts ps (vis, order) = Some (vis', order') \<Longrightarrow> \<exists>new. order' = order @ new \<and> searched nexts (set ps) vis vis' new"
proof (induction nexts ps "(vis, order)" arbitrary: vis order vis' order' rule: visit.induct)
  case (1 nexts)
  then show ?case by (auto simp: searched_def)
next
  case (2 nexts p ps vis order)
  show ?case
  proof (cases "p \<ge> length vis \<or> vis ! p")
    case True
    then have "\<exists>new. order' = order @ new \<and> searched nexts (set ps) vis vis' new" using 2 by simp
    then show ?thesis using searched_skip True by (metis list.simps(15))
  next
    case False
    then obtain ss vis1 ord where s: "nexts p = Some ss" "visit nexts ss (vis[p := True], order) = Some (vis1, ord)"
      "visit nexts ps (vis1, ord @ [p]) = Some (vis', order')"
      using 2(4) by (auto split: option.splits)
    obtain new1 where n1: "ord = order @ new1" "searched nexts (set ss) (vis[p := True]) vis1 new1"
      using 2(2) [OF False s(1) s(2)] by blast
    obtain new2 where n2: "order' = (ord @ [p]) @ new2" "searched nexts (set ps) vis1 vis' new2"
      using 2(3) [OF False s(1,2) refl s(3)] by blast
    show ?thesis using n1 n2 searched_step [OF _ _ s(1) n1(2) n2(2)] False by auto
  qed
qed

lemma post_order_spec:
  assumes "post_order n nexts start = Some (vis, order)" "start < n"
  shows "length vis = n" "distinct order" "set order = {p. p < n \<and> vis ! p}" "last order = start" "order \<noteq> []"
    "u \<in> set order \<Longrightarrow> v \<in> next_set nexts u \<Longrightarrow> v < n \<Longrightarrow> v \<in> set order" "parented (next_set nexts) {start} order"
proof -
  have s: "searched nexts {start} (replicate n False) vis order"
    using visit_searched [OF assms(1) [unfolded post_order_def]] by simp
  note S = searchedD [OF s]
  show "length vis = n" using S(1) by simp
  show "distinct order" by (rule S(2))
  show "parented (next_set nexts) {start} order" by (rule S(7))
  show o: "set order = {p. p < n \<and> vis ! p}"
  proof (rule set_eqI)
    show "q \<in> set order \<longleftrightarrow> q \<in> {p. p < n \<and> vis ! p}" for q using S(3) [of q] by (cases "q < n") simp_all
  qed
  show "v \<in> set order" if "u \<in> set order" "v \<in> next_set nexts u" "v < n"
    using S(6) [OF that(1,2)] that(3) unfolding o by simp
  show "last order = start" "order \<noteq> []" using assms by (auto simp: post_order_def split: option.splits)
qed

section \<open>The invariant of a graph\<close>

text \<open>
  The adjacency lists are the edges in the order they were added, every edge is within them, and the
  cached order is that of the present graph.
\<close>

definition cfg_ok :: "CFG \<Rightarrow> bool" where
  "cfg_ok c \<longleftrightarrow>
     length (c_preds c) = length (c_succs c) \<and> 2 \<le> length (c_succs c) \<and> 2 \<le> length (c_nodes c) \<and>
     c_entry c = 0 \<and> c_exit c = 1 \<and>
     (\<forall>e \<in> set (c_edges c). From e < length (c_succs c) \<and> To e < length (c_succs c)) \<and>
     (\<forall>p. adj (c_succs c) p = map To (filter (\<lambda>e. From e = p) (c_edges c))) \<and>
     (\<forall>p. adj (c_preds c) p = map From (filter (\<lambda>e. To e = p) (c_edges c))) \<and>
     (\<forall>p < length (c_nodes c). Point (c_nodes c ! p) = to_point p) \<and>
     (c_rpo c = [] \<or> (\<exists>vis. post_order (length (c_nodes c)) (succs_at c) 0 = Some (vis, rev (c_rpo c))))"

lemma cfg_okD:
  assumes "cfg_ok c"
  shows "length (c_preds c) = length (c_succs c)" "2 \<le> length (c_succs c)" "2 \<le> length (c_nodes c)" "c_entry c = 0" "c_exit c = 1"
    "e \<in> set (c_edges c) \<Longrightarrow> From e < length (c_succs c) \<and> To e < length (c_succs c)"
    "adj (c_succs c) p = map To (filter (\<lambda>e. From e = p) (c_edges c))"
    "adj (c_preds c) p = map From (filter (\<lambda>e. To e = p) (c_edges c))"
    "p < length (c_nodes c) \<Longrightarrow> Point (c_nodes c ! p) = to_point p"
    "c_rpo c \<noteq> [] \<Longrightarrow> \<exists>vis. post_order (length (c_nodes c)) (succs_at c) 0 = Some (vis, rev (c_rpo c))"
  using assms unfolding cfg_ok_def by blast+

lemma adj_simps:
  "adj (xs @ replicate k []) p = adj xs p"
  "i < length xs \<Longrightarrow> adj (xs[i := v]) p = (if p = i then v else adj xs p)"
  by (auto simp: adj_def nth_append nth_list_update)

lemma ensureAdjacency_ok:
  assumes "cfg_ok c" "c_rpo c = []"
  shows "cfg_ok (ensureAdjacencyLen n c)" "n \<le> length (c_succs (ensureAdjacencyLen n c))" "c_rpo (ensureAdjacencyLen n c) = []"
  using assms by (auto simp: cfg_ok_def ensureAdjacencyLen_def Let_def adj_simps)

lemma invalidate_ok: "cfg_ok c \<Longrightarrow> cfg_ok (invalidateRPO c)"
  by (simp add: cfg_ok_def invalidateRPO_def)

lemma new_node_ok:
  assumes "cfg_ok c" "c_rpo c = []" "Point nd = to_point (length (c_nodes c))"
  shows "cfg_ok (c\<lparr>c_nodes := c_nodes c @ [nd]\<rparr>)"
  using assms by (auto simp: cfg_ok_def nth_append less_Suc_eq)

lemma AddNode_ok: "cfg_ok c \<Longrightarrow> cfg_ok (snd (AddNode kind target callee c))"
  unfolding AddNode_def Let_def snd_conv
  by (rule ensureAdjacency_ok(1), rule new_node_ok, rule invalidate_ok) (simp_all add: invalidateRPO_def)

lemma AddBranch_ok: "cfg_ok c \<Longrightarrow> cfg_ok (snd (AddBranch condVar condCheck c))"
  unfolding AddBranch_def Let_def snd_conv
  by (rule new_node_ok, rule invalidate_ok) (simp_all add: invalidateRPO_def)

lemma AddEdge_ok:
  assumes "cfg_ok c"
  shows "cfg_ok (AddEdge from to cond c)"
proof -
  define d where "d = ensureAdjacencyLen (max from to + 1) (invalidateRPO c)"
  have d: "cfg_ok d" "max from to + 1 \<le> length (c_succs d)" "c_rpo d = []"
    unfolding d_def by (rule ensureAdjacency_ok, rule invalidate_ok [OF assms], simp add: invalidateRPO_def)+
  have e: "AddEdge from to cond c = d\<lparr>c_edges := c_edges d @ [\<lparr>From = from, To = to, Cond = cond\<rparr>],
      c_succs := (c_succs d)[from := c_succs d ! from @ [to]], c_preds := (c_preds d)[to := c_preds d ! to @ [from]]\<rparr>"
    by (simp add: AddEdge_def d_def ensureAdjacencyLen_def invalidateRPO_def Let_def)
  have r: "from < length (c_succs d)" "to < length (c_preds d)" using d(2) cfg_okD(1) [OF d(1)] by simp_all
  then have "c_succs d ! from = adj (c_succs d) from" "c_preds d ! to = adj (c_preds d) to" by (simp_all add: adj_def)
  then show ?thesis using d(1,3) r unfolding e by (auto simp: cfg_ok_def adj_simps)
qed

lemma adj_remove_pred: "adj (remove_pred from to ps) p = (if p = to then filter (\<lambda>q. q \<noteq> from) (adj ps p) else adj ps p)"
  by (auto simp: remove_pred_def adj_def nth_list_update)

lemma adj_remove_preds:
  "adj (fold (remove_pred from) ss ps) p = (if p \<in> set ss then filter (\<lambda>q. q \<noteq> from) (adj ps p) else adj ps p)"
  by (induction ss arbitrary: ps) (auto simp: adj_remove_pred)

lemma length_remove_preds: "length (fold (remove_pred from) ss ps) = length ps"
  by (induction ss arbitrary: ps) (auto simp: remove_pred_def)

lemma RemoveOutgoing_ok:
  assumes "cfg_ok c"
  shows "cfg_ok (RemoveOutgoing from c)"
proof (cases "from \<ge> length (c_succs c) \<or> c_succs c ! from = []")
  case True
  then show ?thesis using assms by (auto simp: RemoveOutgoing_def Let_def)
next
  case False
  define ss where "ss = adj (c_succs c) from"
  define d where "d = c\<lparr>c_rpo := [], c_edges := filter (\<lambda>e. From e \<noteq> from) (c_edges c), c_succs := (c_succs c)[from := []],
    c_preds := fold (remove_pred from) ss (c_preds c)\<rparr>"
  have eq: "RemoveOutgoing from c = d"
    using False by (simp add: RemoveOutgoing_def invalidateRPO_def d_def ss_def adj_def Let_def)
  note C = cfg_okD [OF assms]
  have "adj (c_succs d) p = map To (filter (\<lambda>e. From e = p) (c_edges d))" for p
  proof (cases "p = from")
    case True
    then show ?thesis using False by (simp add: d_def adj_simps)
  next
    case p: False
    have "filter (\<lambda>e. From e = p) (filter (\<lambda>e. From e \<noteq> from) (c_edges c)) = filter (\<lambda>e. From e = p) (c_edges c)"
      unfolding filter_filter by (rule filter_cong) (use p in auto)
    then show ?thesis using False p C(7) [of p] by (simp add: d_def adj_simps)
  qed
  moreover have "adj (c_preds d) p = map From (filter (\<lambda>e. To e = p) (c_edges d))" for p
  proof -
    have "adj (c_preds d) p = filter (\<lambda>q. q \<noteq> from) (adj (c_preds c) p)"
    proof (cases "p \<in> set ss")
      case True
      then show ?thesis by (simp add: d_def adj_remove_preds)
    next
      case p: False
      then have "From e \<noteq> from" if "e \<in> set (c_edges c)" "To e = p" for e using that C(7) [of "from"] by (auto simp: ss_def)
      then have "filter (\<lambda>q. q \<noteq> from) (adj (c_preds c) p) = adj (c_preds c) p" unfolding C(8) by (auto simp: filter_id_conv)
      then show ?thesis using p by (simp add: d_def adj_remove_preds)
    qed
    also have "\<dots> = map From (filter (\<lambda>e. To e = p) (c_edges d))"
      unfolding C(8) d_def by (simp add: filter_map comp_def filter_filter conj_commute)
    finally show ?thesis .
  qed
  ultimately show ?thesis unfolding eq using C(1-5,9) C(6) by (simp add: cfg_ok_def d_def length_remove_preds)
qed

lemma CFG_New_ok: "cfg_ok (fst (CFG_New counter))"
proof -
  have "\<forall>p < 2. Point ([zero_node\<lparr>Point := 0, Kind := a\<rparr>, zero_node\<lparr>Point := 1, Kind := b\<rparr>] ! p) = to_point p" for a b
    by (auto simp: less_2_cases_iff to_point_def)
  then show ?thesis
    by (auto simp: CFG_New_def AddNode_def ensureAdjacencyLen_def invalidateRPO_def to_point_def Let_def cfg_ok_def adj_def nth_Cons' less_2_cases_iff)
qed

section \<open>The interface of a graph\<close>

text \<open>The methods of the interface \<open>Graph\<close>, as the values they return.\<close>

record Graph =
  g_ID :: u64
  g_Entry :: nat
  g_Exit :: nat
  g_Node :: "nat \<Rightarrow> cfg_node option"
  g_RPO :: "nat list"
  g_Predecessors :: "nat \<Rightarrow> nat list"
  g_Successor :: "nat \<Rightarrow> nat"
  g_Successors :: "nat \<Rightarrow> nat list"
  g_Edges :: "Edge list"
  g_Size :: nat
  g_EdgeCond :: "nat \<Rightarrow> nat \<Rightarrow> bool \<times> bool"
  g_IsJoin :: "nat \<Rightarrow> bool"
  g_IsBranch :: "nat \<Rightarrow> bool"

definition CFG_Graph :: "CFG \<Rightarrow> Graph option" where
  "CFG_Graph c = (case RPOReadOnly c of
      None \<Rightarrow> None
    | Some (rpo, c) \<Rightarrow> Some \<lparr>g_ID = c_id c, g_Entry = c_entry c, g_Exit = c_exit c, g_Node = CFG_Node c, g_RPO = rpo,
        g_Predecessors = Predecessors c, g_Successor = Successor c, g_Successors = Successors c, g_Edges = c_edges c,
        g_Size = CFG_Size c, g_EdgeCond = EdgeCond c, g_IsJoin = IsJoin c, g_IsBranch = IsBranch c\<rparr>)"

text \<open>
  What the analyses rely on: the order starts at the entry, names a point once, is closed under the edges
  between nodes, and has a predecessor of every other point before it.
\<close>

definition flow_ok :: "Graph \<Rightarrow> bool" where
  "flow_ok g \<longleftrightarrow>
     g_Entry g < g_Size g \<and> g_Exit g < g_Size g \<and> g_RPO g \<noteq> [] \<and> hd (g_RPO g) = g_Entry g \<and> distinct (g_RPO g) \<and>
     (\<forall>p \<in> set (g_RPO g). p < g_Size g) \<and>
     (\<forall>u \<in> set (g_RPO g). \<forall>v < g_Size g. u \<in> set (g_Predecessors g v) \<longrightarrow> v \<in> set (g_RPO g)) \<and>
     (\<forall>j < length (g_RPO g). 0 < j \<longrightarrow> (\<exists>i < j. g_RPO g ! i \<in> set (g_Predecessors g (g_RPO g ! j)))) \<and>
     (\<forall>u v. v \<in> set (g_Successors g u) \<longleftrightarrow> u \<in> set (g_Predecessors g v))"

lemma flow_okD:
  assumes "flow_ok g"
  shows "g_Entry g < g_Size g" "g_Exit g < g_Size g" "g_RPO g \<noteq> []" "hd (g_RPO g) = g_Entry g" "distinct (g_RPO g)"
    "p \<in> set (g_RPO g) \<Longrightarrow> p < g_Size g"
    "u \<in> set (g_RPO g) \<Longrightarrow> u \<in> set (g_Predecessors g v) \<Longrightarrow> v < g_Size g \<Longrightarrow> v \<in> set (g_RPO g)"
    "j < length (g_RPO g) \<Longrightarrow> 0 < j \<Longrightarrow> \<exists>i < j. g_RPO g ! i \<in> set (g_Predecessors g (g_RPO g ! j))"
    "v \<in> set (g_Successors g u) \<longleftrightarrow> u \<in> set (g_Predecessors g v)"
  using assms unfolding flow_ok_def by blast+

lemma parented_nth: "parented S R xs \<Longrightarrow> j < length xs \<Longrightarrow> xs ! j \<in> R \<or> (\<exists>i > j. i < length xs \<and> xs ! j \<in> S (xs ! i))"
proof (induction xs arbitrary: j)
  case (Cons v xs)
  show ?case
  proof (cases j)
    case 0
    have "\<exists>i < length xs. v \<in> S (xs ! i)" if "u \<in> set xs" "v \<in> S u" for u using that by (auto simp: in_set_conv_nth)
    then have "v \<in> R \<or> (\<exists>i < length xs. v \<in> S (xs ! i))" using Cons.prems(1) by auto
    then show ?thesis
    proof
      assume "\<exists>i < length xs. v \<in> S (xs ! i)"
      then obtain i where "i < length xs" "v \<in> S (xs ! i)" by blast
      then show ?thesis using 0 by (intro disjI2 exI [of _ "Suc i"]) simp
    qed (simp add: 0)
  next
    case (Suc k)
    then have "xs ! k \<in> R \<or> (\<exists>i > k. i < length xs \<and> xs ! k \<in> S (xs ! i))" using Cons by simp
    then show ?thesis
    proof
      assume "\<exists>i > k. i < length xs \<and> xs ! k \<in> S (xs ! i)"
      then obtain i where "i > k" "i < length xs" "xs ! k \<in> S (xs ! i)" by blast
      then show ?thesis using Suc by (intro disjI2 exI [of _ "Suc i"]) simp
    qed (simp add: Suc)
  qed
qed simp

lemma rpo_laws:
  assumes "post_order n nexts start = Some (vis, order)" "start < n"
  shows "rev order \<noteq> []" "hd (rev order) = start" "distinct (rev order)" "p \<in> set (rev order) \<Longrightarrow> p < n"
    "u \<in> set (rev order) \<Longrightarrow> v \<in> next_set nexts u \<Longrightarrow> v < n \<Longrightarrow> v \<in> set (rev order)"
    "j < length (rev order) \<Longrightarrow> 0 < j \<Longrightarrow> \<exists>i < j. rev order ! j \<in> next_set nexts (rev order ! i)"
proof -
  note S = post_order_spec [OF assms]
  show "\<exists>i < j. rev order ! j \<in> next_set nexts (rev order ! i)" if j: "j < length (rev order)" "0 < j"
  proof -
    let ?m = "length order"
    have k: "?m - Suc j < ?m" "rev order ! j = order ! (?m - Suc j)" using j by (simp_all add: rev_nth)
    have "order ! (?m - Suc j) \<noteq> start"
    proof -
      have "start = order ! (?m - 1)" using S(4) last_conv_nth [OF S(5)] by simp
      moreover have "?m - Suc j \<noteq> ?m - 1" using j by auto
      ultimately show ?thesis using nth_eq_iff_index_eq [OF S(2), of "?m - Suc j" "?m - 1"] k(1) by simp
    qed
    then obtain i where i: "i > ?m - Suc j" "i < ?m" "order ! (?m - Suc j) \<in> next_set nexts (order ! i)"
      using parented_nth [OF S(7) k(1)] by auto
    have "rev order ! (?m - Suc i) = order ! i" using i(2) by (simp add: rev_nth)
    moreover have "?m - Suc i < j" using i j by auto
    ultimately show ?thesis using i(3) unfolding k(2) by (intro exI [of _ "?m - Suc i"]) simp
  qed
  show "hd (rev order) = start" using S(4,5) by (simp add: hd_rev)
  show "v \<in> set (rev order)" if "u \<in> set (rev order)" "v \<in> next_set nexts u" "v < n" using S(6) that by simp
  show "p < n" if "p \<in> set (rev order)" using that unfolding set_rev S(3) by simp
qed (use post_order_spec(2,5) [OF assms] in simp_all)

lemma RPO_fresh:
  assumes "cfg_ok c"
  obtains vis order where "post_order (length (c_nodes c)) (succs_at c) 0 = Some (vis, order)" "RPOReadOnly c = Some (rev order, c\<lparr>c_rpo := rev order\<rparr>)"
proof -
  note C = cfg_okD [OF assms]
  have "\<exists>st. post_order (length (c_nodes c)) (succs_at c) 0 = Some st"
    unfolding post_order_def
  proof (rule visit_Some [where P = "\<lambda>p. p < length (c_succs c)"])
    fix p
    assume p: "p < length (c_succs c)"
    then have "c_succs c ! p = map To (filter (\<lambda>e. From e = p) (c_edges c))" using C(7) [of p] by (simp add: adj_def)
    then have "\<forall>s \<in> set (c_succs c ! p). s < length (c_succs c)" using C(6) by auto
    then show "\<exists>ss. succs_at c p = Some ss \<and> (\<forall>s \<in> set ss. s < length (c_succs c))" using p by simp
  qed (use C(2) in auto)
  then obtain vis order where s: "post_order (length (c_nodes c)) (succs_at c) 0 = Some (vis, order)" by auto
  show ?thesis
  proof (cases "c_rpo c = []")
    case True
    then have "RPOReadOnly c = Some (rev order, c\<lparr>c_rpo := rev order\<rparr>)" using s C(4) by (simp add: RPOReadOnly_def)
    then show ?thesis using s that by blast
  next
    case False
    then have "c_rpo c = rev order" using C(10) s by (metis option.inject prod.inject rev_rev_ident)
    then have "RPOReadOnly c = Some (rev order, c\<lparr>c_rpo := rev order\<rparr>)" using False by (simp add: RPOReadOnly_def)
    then show ?thesis using s that by blast
  qed
qed

lemma adjacency_dual: "cfg_ok c \<Longrightarrow> v \<in> set (Successors c u) \<longleftrightarrow> u \<in> set (Predecessors c v)"
  using cfg_okD(7,8) [of c] by (auto simp: Successors_def Predecessors_def)

lemma next_set_succs: "next_set (succs_at c) u = set (Successors c u)"
  by (simp add: next_set_def Successors_def adj_def)

lemma CFG_graph_ok:
  assumes "cfg_ok c"
  shows "\<exists>g. CFG_Graph c = Some g \<and> flow_ok g"
proof -
  note C = cfg_okD [OF assms]
  obtain vis order where o: "post_order (length (c_nodes c)) (succs_at c) 0 = Some (vis, order)"
    and r: "RPOReadOnly c = Some (rev order, c\<lparr>c_rpo := rev order\<rparr>)" by (rule RPO_fresh [OF assms])
  have n: "0 < length (c_nodes c)" "1 < length (c_nodes c)" using C(3) by linarith+
  note R = rpo_laws [OF o n(1), unfolded next_set_succs adjacency_dual [OF assms]]
  let ?d = "c\<lparr>c_rpo := rev order\<rparr>"
  have eq: "Predecessors ?d = Predecessors c" "Successors ?d = Successors c" "c_entry ?d = 0" "c_exit ?d = 1"
    "CFG_Size ?d = length (c_nodes c)"
    using C(4,5) by (simp_all add: fun_eq_iff Predecessors_def Successors_def CFG_Size_def)
  obtain g where g: "CFG_Graph c = Some g" "g_Entry g = 0" "g_Exit g = 1" "g_RPO g = rev order" "g_Size g = length (c_nodes c)"
    "g_Predecessors g = Predecessors c" "g_Successors g = Successors c"
    by (simp add: CFG_Graph_def r eq del: One_nat_def)
  have "flow_ok g" unfolding flow_ok_def g(2-)
    using R n adjacency_dual [OF assms] by blast
  then show ?thesis using g(1) by blast
qed

section \<open>Graphs that a program builds\<close>

inductive built :: "CFG \<Rightarrow> bool" where
  new: "built (fst (CFG_New counter))"
| node: "built c \<Longrightarrow> built (snd (AddNode kind target callee c))"
| branch: "built c \<Longrightarrow> built (snd (AddBranch condVar condCheck c))"
| edge: "built c \<Longrightarrow> built (AddEdge src dst cond c)"
| remove: "built c \<Longrightarrow> built (RemoveOutgoing src c)"
| order: "built c \<Longrightarrow> RPOReadOnly c = Some (rpo, c') \<Longrightarrow> built c'"

lemma RPO_ok:
  assumes "cfg_ok c" "RPOReadOnly c = Some (rpo, c')"
  shows "cfg_ok c'"
proof -
  obtain vis ord where o: "post_order (length (c_nodes c)) (succs_at c) 0 = Some (vis, ord)"
    "RPOReadOnly c = Some (rev ord, c\<lparr>c_rpo := rev ord\<rparr>)" by (rule RPO_fresh [OF assms(1)])
  then have "c' = c\<lparr>c_rpo := rev ord\<rparr>" using assms(2) by simp
  then show ?thesis using assms(1) o(1) by (simp add: cfg_ok_def cong: if_cong)
qed

lemma built_ok: "built c \<Longrightarrow> cfg_ok c"
  by (induction rule: built.induct) (simp_all add: CFG_New_ok AddNode_ok AddBranch_ok AddEdge_ok RemoveOutgoing_ok RPO_ok)

text \<open>
  In every graph that a program builds, the successors and predecessors of a point are the
  ends of its edges in the order in which they were added, joins and branches are the points with more than
  one edge, and an edge has a condition exactly when it is there.
\<close>

theorem cfg_adjacency:
  assumes "built c"
  shows "Successors c p = map To (filter (\<lambda>e. From e = p) (c_edges c)) \<and>
    Predecessors c p = map From (filter (\<lambda>e. To e = p) (c_edges c)) \<and>
    (IsJoin c p \<longleftrightarrow> 1 < length (Predecessors c p)) \<and> (IsBranch c p \<longleftrightarrow> 1 < length (Successors c p)) \<and>
    (snd (EdgeCond c p q) \<longleftrightarrow> q \<in> set (Successors c p))"
proof -
  note C = cfg_okD [OF built_ok [OF assms]]
  have "snd (EdgeCond c p q) \<longleftrightarrow> (\<exists>e \<in> set (c_edges c). From e = p \<and> To e = q)"
    by (auto simp: EdgeCond_def find_None_iff split: option.splits dest!: find_Some_iff [THEN iffD1])
  moreover have "IsJoin c p \<longleftrightarrow> 1 < length (Predecessors c p)" "IsBranch c p \<longleftrightarrow> 1 < length (Successors c p)"
    by (auto simp: IsJoin_def IsBranch_def Predecessors_def Successors_def adj_def)
  ultimately show ?thesis using C(7,8) [of p] by (auto simp: Successors_def Predecessors_def)
qed

text \<open>A graph with one edge, for the witnesses.\<close>

definition edge_graph :: CFG where "edge_graph = AddEdge 0 1 True (fst (CFG_New 0))"

lemma edge_graph_built: "built edge_graph"
  unfolding edge_graph_def by (intro built.intros)

lemma edge_graph_eq: "c_nodes edge_graph = [zero_node\<lparr>Point := 0, Kind := NodeEntry\<rparr>, zero_node\<lparr>Point := 1, Kind := NodeExit\<rparr>] \<and>
    c_edges edge_graph = [\<lparr>From = 0, To = 1, Cond = True\<rparr>] \<and> c_succs edge_graph = [[1], []] \<and> c_preds edge_graph = [[], [0]] \<and>
    c_entry edge_graph = 0 \<and> c_exit edge_graph = 1 \<and> c_rpo edge_graph = []"
  by (simp add: edge_graph_def CFG_New_def AddNode_def AddEdge_def ensureAdjacencyLen_def invalidateRPO_def to_point_def zero_node_def Let_def)

theorem cfg_adjacency_witness: "built edge_graph \<and> Successors edge_graph 0 = [1] \<and> snd (EdgeCond edge_graph 0 1)"
  using cfg_adjacency [OF edge_graph_built, of 0 1] edge_graph_built by (simp add: edge_graph_eq)

lemma rpo_closure:
  assumes "hd r = e" "r \<noteq> []" "\<forall>p \<in> set r. p < n" "\<And>u v. u \<in> set r \<Longrightarrow> v \<in> S u \<Longrightarrow> v < n \<Longrightarrow> v \<in> set r"
    "\<And>j. j < length r \<Longrightarrow> 0 < j \<Longrightarrow> \<exists>i < j. r ! j \<in> S (r ! i)"
  shows "p \<in> set r \<longleftrightarrow> (e, p) \<in> {(u, v). v < n \<and> v \<in> S u}\<^sup>*"
proof
  have "(e, r ! j) \<in> {(u, v). v < n \<and> v \<in> S u}\<^sup>*" if "j < length r" for j
    using that
  proof (induction j rule: less_induct)
    case (less j)
    show ?case
    proof (cases "j = 0")
      case True
      then show ?thesis using assms(1,2) by (simp add: hd_conv_nth)
    next
      case False
      then obtain i where i: "i < j" "r ! j \<in> S (r ! i)" using assms(5) [OF less.prems] by blast
      then have "(e, r ! i) \<in> {(u, v). v < n \<and> v \<in> S u}\<^sup>*" using less by simp
      moreover have "(r ! i, r ! j) \<in> {(u, v). v < n \<and> v \<in> S u}" using i(2) assms(3) less.prems by simp
      ultimately show ?thesis by (rule rtrancl_into_rtrancl)
    qed
  qed
  then show "p \<in> set r \<Longrightarrow> (e, p) \<in> {(u, v). v < n \<and> v \<in> S u}\<^sup>*" by (auto simp: in_set_conv_nth)
  show "(e, p) \<in> {(u, v). v < n \<and> v \<in> S u}\<^sup>* \<Longrightarrow> p \<in> set r"
  proof (induction rule: rtrancl_induct)
    case base
    then show ?case using assms(1,2) by auto
  qed (use assms(4) in blast)
qed

text \<open>
  C28: The reverse post-order of a graph that a program builds is computed without an index out of range and
  is kept until the graph changes. It starts at the entry, has every node that can be reached
  once and no other, and for each other node one of its predecessors before it. \<open>Reachable\<close> returns the same
  nodes and \<open>UnreachablePoints\<close> all others.
\<close>

theorem rpo_order:
  assumes "built c"
  shows "\<exists>r c'. RPOReadOnly c = Some (r, c') \<and> RPOReadOnly c' = Some (r, c') \<and> distinct r \<and> r \<noteq> [] \<and> hd r = c_entry c \<and>
    (\<forall>p. p \<in> set r \<longleftrightarrow> (c_entry c, p) \<in> {(u, v). v < CFG_Size c \<and> v \<in> set (Successors c u)}\<^sup>*) \<and>
    (\<forall>j < length r. 0 < j \<longrightarrow> (\<exists>i < j. r ! i \<in> set (Predecessors c (r ! j)))) \<and>
    Reachable c = Some (set r) \<and> UnreachablePoints c = Some (filter (\<lambda>p. p \<notin> set r) (map to_point [0..<CFG_Size c]))"
proof -
  note ok = built_ok [OF assms]
  note C = cfg_okD [OF ok]
  obtain vis ord where o: "post_order (length (c_nodes c)) (succs_at c) 0 = Some (vis, ord)"
    and r: "RPOReadOnly c = Some (rev ord, c\<lparr>c_rpo := rev ord\<rparr>)" by (rule RPO_fresh [OF ok])
  have n: "0 < length (c_nodes c)" using C(3) by linarith
  note R = rpo_laws [OF o n, unfolded next_set_succs] and S = post_order_spec [OF o n]
  let ?c = "c\<lparr>c_rpo := rev ord\<rparr>"
  have again: "RPOReadOnly ?c = Some (rev ord, ?c)" using R(1) by (simp add: RPOReadOnly_def)
  have reach: "Reachable c = Some (set (rev ord))" using o S(1,3) C(4) by (auto simp: Reachable_def)
  have un: "UnreachablePoints c = Some (filter (\<lambda>p. p \<notin> set (rev ord)) (map to_point [0..<CFG_Size c]))"
    by (simp only: UnreachablePoints_def reach option.map CFG_Size_def)
  have hd: "hd (rev ord) = c_entry c" using R(2) C(4) by simp
  have cl: "p \<in> set (rev ord) \<longleftrightarrow> (c_entry c, p) \<in> {(u, v). v < CFG_Size c \<and> v \<in> set (Successors c u)}\<^sup>*" for p
    unfolding C(4) CFG_Size_def by (rule rpo_closure [OF R(2,1) ballI [OF R(4)] R(5,6)])
  have pred: "\<exists>i < j. rev ord ! i \<in> set (Predecessors c (rev ord ! j))" if "j < length (rev ord)" "0 < j" for j
    using R(6) [OF that] adjacency_dual [OF ok] by blast
  show ?thesis
    by (intro exI [of _ "rev ord"] exI [of _ ?c] conjI allI impI) (rule r again R(3) R(1) hd cl pred reach un; assumption)+
qed

theorem rpo_order_witness: "\<exists>r c'. RPOReadOnly edge_graph = Some (r, c') \<and> Reachable edge_graph = Some (set r) \<and> hd r = 0"
  using rpo_order [OF edge_graph_built] by (auto simp: edge_graph_eq)

end
