(* ===== verification/Dominators.thy ===== *)
theory Dominators
  imports FlowGraph
begin

text \<open>
  Dominators, \<open>compiler/cfg/analysis/dominators.go\<close>: immediate dominators by iteration in reverse
  post-order, the dominator tree, dominance frontiers, and the same for the reversed graph. A loop that
  climbs from dominator to dominator may run forever on a bad array, so it is a partial function,
  and \<open>None\<close> is a computation that does not return. The arrays have an entry for every node and
  hold points only.
\<close>

section \<open>Immediate dominators\<close>

definition rpo_numbers :: "nat \<Rightarrow> nat list \<Rightarrow> nat list" where
  "rpo_numbers graphSize rpo =
     fold (\<lambda>(i, p) rpoNum. if p \<ge> graphSize then rpoNum else rpoNum[p := i]) (List.enumerate 0 rpo) (replicate graphSize 0)"

text \<open>The arrays \<open>idomByPoint\<close> and \<open>hasIDom\<close>.\<close>

type_synonym idoms = "nat list \<times> bool list"

text \<open>An inner loop of \<open>intersect\<close>, for one finger.\<close>

partial_function (option) climb :: "nat list \<Rightarrow> nat list \<Rightarrow> nat \<Rightarrow> nat \<Rightarrow> nat option" where
  "climb rpoNum idom finger other =
     (if rpoNum ! finger > rpoNum ! other then climb rpoNum idom (idom ! finger) other else Some finger)"

partial_function (option) intersect :: "nat list \<Rightarrow> nat list \<Rightarrow> nat \<Rightarrow> nat \<Rightarrow> nat option" where
  "intersect rpoNum idom finger1 finger2 =
     (if finger1 = finger2 then Some finger1
      else do {
        finger1 \<leftarrow> climb rpoNum idom finger1 finger2;
        finger2 \<leftarrow> climb rpoNum idom finger2 finger1;
        intersect rpoNum idom finger1 finger2
      })"

text \<open>The loop that intersects with the other defined predecessors.\<close>

fun meet_preds :: "nat list \<Rightarrow> idoms \<Rightarrow> nat list \<Rightarrow> nat \<Rightarrow> nat option" where
  "meet_preds rpoNum st [] newIdom = Some newIdom"
| "meet_preds rpoNum (idom, has) (p # ps) newIdom =
     (if p = newIdom then meet_preds rpoNum (idom, has) ps newIdom
      else if p \<ge> length has then meet_preds rpoNum (idom, has) ps newIdom
      else if has ! p then do {
        newIdom \<leftarrow> intersect rpoNum idom p newIdom;
        meet_preds rpoNum (idom, has) ps newIdom
      }
      else meet_preds rpoNum (idom, has) ps newIdom)"

text \<open>The body of the loop over the blocks, with the flag \<open>changed\<close>.\<close>

definition update_block :: "Graph \<Rightarrow> nat list \<Rightarrow> nat \<Rightarrow> idoms \<times> bool \<Rightarrow> (idoms \<times> bool) option" where
  "update_block g rpoNum b s = (case s of ((idom, has), changed) \<Rightarrow>
     if b = g_Entry g then Some s
     else if b \<ge> g_Size g then Some s
     else case find (\<lambda>p. p < g_Size g \<and> has ! p) (g_Predecessors g b) of
       None \<Rightarrow> Some s
     | Some newIdom \<Rightarrow> do {
         newIdom \<leftarrow> meet_preds rpoNum (idom, has) (g_Predecessors g b) newIdom;
         Some (if \<not> has ! b \<or> idom ! b \<noteq> newIdom then ((idom[b := newIdom], has[b := True]), True) else s)
       })"

fun update_blocks :: "Graph \<Rightarrow> nat list \<Rightarrow> nat list \<Rightarrow> idoms \<times> bool \<Rightarrow> (idoms \<times> bool) option" where
  "update_blocks g rpoNum [] s = Some s"
| "update_blocks g rpoNum (b # bs) s = do { s \<leftarrow> update_block g rpoNum b s; update_blocks g rpoNum bs s }"

partial_function (option) fixed_point :: "Graph \<Rightarrow> nat list \<Rightarrow> idoms \<Rightarrow> idoms option" where
  "fixed_point g rpoNum st = do {
     (st, changed) \<leftarrow> update_blocks g rpoNum (g_RPO g) (st, False);
     if changed then fixed_point g rpoNum st else Some st
   }"

definition immediate_dominators :: "Graph \<Rightarrow> nat list \<Rightarrow> idoms option" where
  "immediate_dominators g rpoNum =
     fixed_point g rpoNum ((replicate (g_Size g) 0)[g_Entry g := g_Entry g], (replicate (g_Size g) False)[g_Entry g := True])"

section \<open>Dominator tree\<close>

definition sort_points :: "nat list \<Rightarrow> nat list \<Rightarrow> nat list" where
  "sort_points rpoNum ps = sort_key (\<lambda>p. rpoNum ! p) ps"

text \<open>The order in which Go ranges over the map \<open>idom\<close> is the parameter \<open>range_map\<close>.\<close>

definition ComputeDominators :: "(nat list \<Rightarrow> nat list) \<Rightarrow> Graph \<Rightarrow> ((nat \<rightharpoonup> nat) \<times> (nat \<rightharpoonup> nat list)) option" where
  "ComputeDominators range_map g =
     (let rpo = g_RPO g; graphSize = g_Size g; entry = g_Entry g in
      if length rpo = 0 \<or> graphSize = 0 \<or> entry \<ge> graphSize then Some (Map.empty, Map.empty)
      else let rpoNum = rpo_numbers graphSize rpo in do {
        (idomByPoint, hasIDom) \<leftarrow> immediate_dominators g rpoNum;
        let points = filter (\<lambda>p. p < graphSize \<and> hasIDom ! p) rpo;
            idom = fold (\<lambda>p m. m(p \<mapsto> idomByPoint ! p)) points Map.empty;
            domTree = fold (\<lambda>n t. case idom n of
                Some parent \<Rightarrow> if n \<noteq> parent then t(parent \<mapsto> (case t parent of Some cs \<Rightarrow> cs | None \<Rightarrow> []) @ [n]) else t
              | None \<Rightarrow> t) (range_map (remdups points)) Map.empty
        in Some (idom, \<lambda>p. map_option (sort_points rpoNum) (domTree p))
      })"

section \<open>Dominance frontier\<close>

abbreviation minPredecessorsForDF :: nat where "minPredecessorsForDF \<equiv> 2"

text \<open>The loop over the dominators of a predecessor; every turn marks one more node.\<close>

function run_up :: "idoms \<Rightarrow> nat \<Rightarrow> nat \<Rightarrow> u32 \<Rightarrow> nat \<Rightarrow> nat list list \<times> u32 list \<Rightarrow> nat list list \<times> u32 list" where
  "run_up (idom, has) block domBlock epoch runner (df, mark) =
     (if runner = domBlock \<or> runner \<ge> length mark \<or> mark ! runner = epoch then (df, mark)
      else let df' = df[runner := df ! runner @ [block]]; mark' = mark[runner := epoch] in
        if \<not> has ! runner \<or> idom ! runner = runner then (df', mark')
        else run_up (idom, has) block domBlock epoch (idom ! runner) (df', mark'))"
  by pat_completeness auto

lemma marks_decrease:
  "r < length mark \<Longrightarrow> mark ! r \<noteq> epoch \<Longrightarrow> length (filter (\<lambda>m. m \<noteq> epoch) (mark[r := epoch])) < length (filter (\<lambda>m. m \<noteq> epoch) mark)"
proof (induction mark arbitrary: r)
  case (Cons m ms)
  then show ?case by (cases r) auto
qed simp

termination run_up
  by (relation "measure (\<lambda>(_, _, _, epoch, _, _, mark). length (filter (\<lambda>m. m \<noteq> epoch) mark))") (simp_all add: marks_decrease)

type_synonym frontier_state = "nat list list \<times> u32 list \<times> u32"

definition frontier_block :: "Graph \<Rightarrow> idoms \<Rightarrow> nat \<Rightarrow> frontier_state \<Rightarrow> frontier_state" where
  "frontier_block g st block s = (case (st, s) of ((idom, has), (df, mark, epoch)) \<Rightarrow>
     let graphSize = g_Size g; preds = g_Predecessors g block in
     if block \<ge> graphSize then s
     else if length preds < minPredecessorsForDF then s
     else if \<not> has ! block then s
     else let domBlock = idom ! block; epoch = epoch + 1;
              (mark, epoch) = (if epoch = 0 then (replicate graphSize 0, 1) else (mark, epoch));
              (df, mark) = fold (\<lambda>pred s. if pred \<ge> graphSize then s else run_up (idom, has) block domBlock epoch pred s) preds (df, mark)
       in (df, mark, epoch))"

definition computeDominanceFrontierDense :: "Graph \<Rightarrow> nat list \<Rightarrow> nat list \<Rightarrow> idoms \<Rightarrow> nat list list" where
  "computeDominanceFrontierDense g rpo rpoNum st =
     (let graphSize = g_Size g in
      if graphSize = 0 \<or> length rpo = 0 then []
      else case fold (frontier_block g st) rpo (replicate graphSize [], replicate graphSize 0, 1) of
        (df, _, _) \<Rightarrow> map (sort_points rpoNum) df)"

definition ComputeDominanceFrontier :: "Graph \<Rightarrow> (nat \<rightharpoonup> nat) \<Rightarrow> nat \<rightharpoonup> nat list" where
  "ComputeDominanceFrontier g idom =
     (let rpo = g_RPO g; graphSize = g_Size g in
      if length rpo = 0 \<or> graphSize = 0 then Map.empty
      else let rpoNum = rpo_numbers graphSize rpo;
               idomByPoint = map (\<lambda>p. case idom p of Some d \<Rightarrow> d | None \<Rightarrow> 0) [0..<graphSize];
               hasIDom = map (\<lambda>p. idom p \<noteq> None) [0..<graphSize];
               df = computeDominanceFrontierDense g rpo rpoNum (idomByPoint, hasIDom)
        in (\<lambda>p. if p < length df \<and> df ! p \<noteq> [] then Some (df ! p) else None))"

section \<open>Both together\<close>

record DenseDomInfo =
  dense_tree :: "nat list list"
  dense_frontier :: "nat list list"

definition ComputeDomInfoDense :: "Graph \<Rightarrow> DenseDomInfo option" where
  "ComputeDomInfoDense g =
     (let rpo = g_RPO g; graphSize = g_Size g in
      if length rpo = 0 \<or> graphSize = 0 \<or> g_Entry g \<ge> graphSize then Some \<lparr>dense_tree = [], dense_frontier = []\<rparr>
      else let rpoNum = rpo_numbers graphSize rpo in do {
        (idomByPoint, hasIDom) \<leftarrow> immediate_dominators g rpoNum;
        let domTree = fold (\<lambda>block t.
              if block \<ge> graphSize \<or> \<not> hasIDom ! block then t
              else let parent = idomByPoint ! block in
                if block \<noteq> parent \<and> parent < graphSize then t[parent := t ! parent @ [block]] else t) rpo (replicate graphSize [])
        in Some \<lparr>dense_tree = map (sort_points rpoNum) domTree,
             dense_frontier = computeDominanceFrontierDense g rpo rpoNum (idomByPoint, hasIDom)\<rparr>
      })"

record DomInfo =
  ImmediateDominators :: "nat \<rightharpoonup> nat"
  DominatorTree :: "nat \<rightharpoonup> nat list"
  DominanceFrontier :: "nat \<rightharpoonup> nat list"

definition ComputeDomInfo :: "(nat list \<Rightarrow> nat list) \<Rightarrow> Graph \<Rightarrow> DomInfo option" where
  "ComputeDomInfo range_map g = do {
     (idom, domTree) \<leftarrow> ComputeDominators range_map g;
     Some \<lparr>ImmediateDominators = idom, DominatorTree = domTree, DominanceFrontier = ComputeDominanceFrontier g idom\<rparr>
   }"

section \<open>Queries\<close>

text \<open>The loop of \<open>Dominates\<close>.\<close>

partial_function (option) dominates_loop :: "(nat \<rightharpoonup> nat) \<Rightarrow> nat \<Rightarrow> nat \<Rightarrow> bool option" where
  "dominates_loop idom pointA runner = (case idom runner of
      None \<Rightarrow> Some False
    | Some parent \<Rightarrow>
        if parent = runner then Some False
        else if parent = pointA then Some True
        else dominates_loop idom pointA parent)"

definition Dominates :: "(nat \<rightharpoonup> nat) \<Rightarrow> nat \<Rightarrow> nat \<Rightarrow> bool option" where
  "Dominates idom pointA pointB = (if pointA = pointB then Some True else dominates_loop idom pointA pointB)"

definition StrictlyDominates :: "(nat \<rightharpoonup> nat) \<Rightarrow> nat \<Rightarrow> nat \<Rightarrow> bool option" where
  "StrictlyDominates idom pointA pointB = (if pointA = pointB then Some False else Dominates idom pointA pointB)"

section \<open>The reversed graph\<close>

text \<open>The search follows the predecessors of a graph, which are empty for a point that it does not have.\<close>

definition reversed_RPO :: "Graph \<Rightarrow> nat list" where
  "reversed_RPO g = (case post_order (g_Size g) (\<lambda>p. Some (g_Predecessors g p)) (g_Exit g) of
      Some (_, order) \<Rightarrow> rev order
    | None \<Rightarrow> [])"

definition reversedGraph :: "Graph \<Rightarrow> Graph" where
  "reversedGraph g = \<lparr>g_ID = g_ID g, g_Entry = g_Exit g, g_Exit = g_Entry g, g_Node = g_Node g, g_RPO = reversed_RPO g,
     g_Predecessors = g_Successors g,
     g_Successor = (\<lambda>p. case g_Predecessors g p of q # _ \<Rightarrow> q | [] \<Rightarrow> p),
     g_Successors = g_Predecessors g,
     g_Edges = map (\<lambda>e. \<lparr>From = To e, To = From e, Cond = Cond e\<rparr>) (g_Edges g),
     g_Size = g_Size g, g_EdgeCond = (\<lambda>from to. g_EdgeCond g to from),
     g_IsJoin = g_IsBranch g, g_IsBranch = g_IsJoin g\<rparr>"

definition ComputePostDominators :: "(nat list \<Rightarrow> nat list) \<Rightarrow> Graph \<Rightarrow> ((nat \<rightharpoonup> nat) \<times> (nat \<rightharpoonup> nat list)) option" where
  "ComputePostDominators range_map g = ComputeDominators range_map (reversedGraph g)"

definition PostDominates :: "(nat \<rightharpoonup> nat) \<Rightarrow> nat \<Rightarrow> nat \<Rightarrow> bool option" where
  "PostDominates postIdom pointA pointB = Dominates postIdom pointA pointB"

end
