(* ===== verification/DomTree.thy ===== *)
theory DomTree
  imports Dominators
begin

text \<open>
  The tree behind the arrays of \<open>dominators.go\<close>: the ancestors of a point, the nearest common
  ancestor that \<open>intersect\<close> finds, and what moving a point to another parent does to the ancestors of
  all points.
\<close>

section \<open>Ancestors\<close>

definition anc :: "nat \<Rightarrow> (nat \<Rightarrow> nat) \<Rightarrow> nat \<Rightarrow> nat \<Rightarrow> bool" where
  "anc e par = (\<lambda>p q. p \<noteq> e \<and> q = par p)\<^sup>*\<^sup>*"

text \<open>Every point but the root has a parent with a smaller number.\<close>

definition tree :: "(nat \<Rightarrow> nat) \<Rightarrow> nat \<Rightarrow> (nat \<Rightarrow> nat) \<Rightarrow> nat set \<Rightarrow> bool" where
  "tree num e par D \<longleftrightarrow> e \<in> D \<and> inj_on num D \<and> (\<forall>p \<in> D. p \<noteq> e \<longrightarrow> par p \<in> D \<and> num (par p) < num p)"

lemma treeD:
  assumes "tree num e par D"
  shows "e \<in> D" "inj_on num D" "p \<in> D \<Longrightarrow> p \<noteq> e \<Longrightarrow> par p \<in> D" "p \<in> D \<Longrightarrow> p \<noteq> e \<Longrightarrow> num (par p) < num p"
  using assms unfolding tree_def by blast+

lemma anc_refl [simp, intro]: "anc e par p p"
  by (simp add: anc_def)

lemma anc_parent: "p \<noteq> e \<Longrightarrow> anc e par p (par p)"
  unfolding anc_def by (rule r_into_rtranclp) simp

lemma anc_trans: "anc e par p q \<Longrightarrow> anc e par q r \<Longrightarrow> anc e par p r"
  unfolding anc_def by (rule rtranclp_trans)

lemma anc_step: "anc e par p q \<longleftrightarrow> p = q \<or> p \<noteq> e \<and> anc e par (par p) q"
proof
  show "anc e par p q \<Longrightarrow> p = q \<or> p \<noteq> e \<and> anc e par (par p) q"
    unfolding anc_def by (erule converse_rtranclpE) auto
  show "p = q \<or> p \<noteq> e \<and> anc e par (par p) q \<Longrightarrow> anc e par p q"
    using anc_trans [OF anc_parent] by blast
qed

lemma anc_root: "anc e par e q \<longleftrightarrow> q = e"
  using anc_step [of e par e q] by auto

lemma anc_in:
  assumes "tree num e par D" "p \<in> D" "anc e par p q"
  shows "q \<in> D \<and> num q \<le> num p"
  using assms(3) unfolding anc_def
proof (induction rule: rtranclp_induct)
  case (step y z)
  then show ?case using treeD(3,4) [OF assms(1), of y] by auto
qed (use assms(2) in simp)

lemma anc_lt:
  assumes "tree num e par D" "p \<in> D" "anc e par p q" "p \<noteq> q"
  shows "num q < num p"
  using anc_in [OF assms(1-3)] assms(2,4) treeD(2) [OF assms(1)] by (auto simp: inj_on_def le_less)

lemma anc_to_root:
  assumes "tree num e par D" "p \<in> D"
  shows "anc e par p e"
  using assms(2)
proof (induction "num p" arbitrary: p rule: less_induct)
  case less
  show ?case
  proof (cases "p = e")
    case False
    then show ?thesis using less treeD(3,4) [OF assms(1), of p] anc_step [of e par p e] by blast
  qed simp
qed

text \<open>The ancestors of a point are in one line.\<close>

lemma anc_linear:
  assumes "tree num e par D" "p \<in> D" "anc e par p a" "anc e par p b" "num b \<le> num a"
  shows "anc e par a b"
  using assms(2-4)
proof (induction "num p" arbitrary: p rule: less_induct)
  case less
  show ?case
  proof (cases "p = a")
    case True
    then show ?thesis using less by simp
  next
    case False
    then have p: "p \<noteq> e" "anc e par (par p) a" using less.prems(2) anc_step [of e par p a] by blast+
    have "num a < num p" by (rule anc_lt [OF assms(1) less.prems(1,2) False])
    then have "p \<noteq> b" using assms(5) by auto
    then have "anc e par (par p) b" using less.prems(3) anc_step [of e par p b] by blast
    then show ?thesis using less.hyps treeD(3,4) [OF assms(1) less.prems(1) p(1)] p(2) by blast
  qed
qed

section \<open>Moving a point\<close>

text \<open>Only the part of a line above the point that moves can change.\<close>

lemma anc_keep:
  assumes "tree num e par D" "x \<in> D" "anc e par x a" "num p \<le> num a" "\<And>y. y \<noteq> p \<Longrightarrow> par' y = par y" "p \<in> D \<or> num p < num a"
  shows "anc e par' x a"
  using assms(2,3)
proof (induction "num x" arbitrary: x rule: less_induct)
  case less
  show ?case
  proof (cases "x = a")
    case False
    then have x: "x \<noteq> e" "anc e par (par x) a" using less.prems(2) anc_step [of e par x a] by blast+
    have "num a < num x" by (rule anc_lt [OF assms(1) less.prems False])
    then have "x \<noteq> p" using assms(4) by auto
    moreover have "anc e par' (par x) a" using less.hyps treeD(3,4) [OF assms(1) less.prems(1) x(1)] x(2) by blast
    ultimately show ?thesis using x(1) assms(5) [of x] anc_step [of e par' x a] by simp
  qed simp
qed

lemma anc_below:
  assumes "tree num e par D" "x \<in> D" "num x < num p" "\<And>y. y \<noteq> p \<Longrightarrow> par' y = par y"
  shows "anc e par' x a \<longleftrightarrow> anc e par x a"
  using assms(2,3)
proof (induction "num x" arbitrary: x rule: less_induct)
  case less
  show ?case
  proof (cases "x = e")
    case False
    note t = treeD(3,4) [OF assms(1) less.prems(1) False]
    have "x \<noteq> p" using less.prems(2) by auto
    then show ?thesis
      using less.hyps [OF t(2,1)] t(2) less.prems(2) assms(4) [of x] anc_step [of e par x a] anc_step [of e par' x a] by simp
  qed (simp add: anc_root)
qed

lemma anc_aside:
  assumes "tree num e par D" "x \<in> D" "\<not> anc e par x p" "\<And>y. y \<noteq> p \<Longrightarrow> par' y = par y"
  shows "anc e par' x a \<longleftrightarrow> anc e par x a"
  using assms(2,3)
proof (induction "num x" arbitrary: x rule: less_induct)
  case less
  show ?case
  proof (cases "x = e")
    case False
    note t = treeD(3,4) [OF assms(1) less.prems(1) False]
    have "x \<noteq> p" "\<not> anc e par (par x) p" using less.prems(2) anc_step [of e par x p] False by blast+
    then show ?thesis
      using less.hyps [OF t(2,1)] assms(4) [of x] anc_step [of e par x a] anc_step [of e par' x a] by simp
  qed (simp add: anc_root)
qed

lemma anc_cong:
  assumes "tree num e par D" "\<And>x. x \<in> D \<Longrightarrow> par' x = par x" "x \<in> D"
  shows "anc e par' x a \<longleftrightarrow> anc e par x a"
  using assms(3)
proof (induction "num x" arbitrary: x rule: less_induct)
  case less
  show ?case
  proof (cases "x = e")
    case False
    then show ?thesis
      using less.hyps [OF treeD(4,3) [OF assms(1) less.prems False]] assms(2) [OF less.prems]
        anc_step [of e par x a] anc_step [of e par' x a] less.prems treeD(3) [OF assms(1) less.prems False] by simp
  qed (simp add: anc_root)
qed

lemma tree_move:
  assumes "tree num e par D" "inj_on num (insert p D)" "c \<in> D" "num c < num p" "p \<noteq> e"
  shows "tree num e (par(p := c)) (insert p D)"
  using assms unfolding tree_def by auto

text \<open>After a point has moved, a line goes up to it as before and on from its new parent.\<close>

lemma anc_moved:
  assumes t: "tree num e par D" and p: "p \<in> D" "p \<noteq> e" and c: "c \<in> D" "num c < num p" and x: "x \<in> D" "anc e par x p"
  shows "anc e (par(p := c)) x a \<longleftrightarrow> anc e par x a \<and> num p \<le> num a \<or> anc e par c a"
proof -
  let ?par = "par(p := c)"
  have t': "tree num e ?par D" using tree_move [OF t _ c p(2)] treeD(2) [OF t] p(1) by (simp add: insert_absorb)
  have xp: "anc e ?par x p" by (rule anc_keep [OF t x, of p]) (use p in simp_all)
  have pc: "anc e ?par p b \<longleftrightarrow> b = p \<or> anc e par c b" for b
    using anc_step [of e ?par p b] anc_below [OF t c, of ?par b] p(2) by auto
  show ?thesis
  proof
    assume a: "anc e ?par x a"
    show "anc e par x a \<and> num p \<le> num a \<or> anc e par c a"
    proof (cases "num p \<le> num a")
      case True
      then have "anc e par x a" by (intro anc_keep [OF t' x(1) a, of p]) (use p in simp_all)
      then show ?thesis using True by blast
    next
      case False
      then have "anc e ?par p a" by (intro anc_linear [OF t' x(1) xp a]) simp
      then show ?thesis using False pc by auto
    qed
  next
    assume "anc e par x a \<and> num p \<le> num a \<or> anc e par c a"
    then show "anc e ?par x a"
    proof
      assume a: "anc e par x a \<and> num p \<le> num a"
      show ?thesis by (rule anc_keep [OF t x(1), of _ p]) (use a p in simp_all)
    next
      assume "anc e par c a"
      then have "anc e ?par p a" using pc by blast
      then show ?thesis by (rule anc_trans [OF xp])
    qed
  qed
qed

section \<open>Intersection\<close>

text \<open>A point is the nearest common ancestor of a set of points.\<close>

definition nearest :: "nat \<Rightarrow> (nat \<Rightarrow> nat) \<Rightarrow> nat set \<Rightarrow> nat \<Rightarrow> bool" where
  "nearest e par Q c \<longleftrightarrow> (\<forall>q \<in> Q. anc e par q c) \<and> (\<forall>d. (\<forall>q \<in> Q. anc e par q d) \<longrightarrow> anc e par c d)"

lemma nearestD: "nearest e par Q c \<Longrightarrow> q \<in> Q \<Longrightarrow> anc e par q c" "nearest e par Q c \<Longrightarrow> (\<And>q. q \<in> Q \<Longrightarrow> anc e par q d) \<Longrightarrow> anc e par c d"
  unfolding nearest_def by blast+

lemma climb_spec:
  assumes "tree ((!) N) e ((!) idom) D" "f \<in> D" "N ! e \<le> N ! other"
  shows "\<exists>f'. climb N idom f other = Some f' \<and> anc e ((!) idom) f f' \<and> N ! f' \<le> N ! other \<and>
    (\<forall>d. anc e ((!) idom) f d \<longrightarrow> N ! d \<le> N ! other \<longrightarrow> anc e ((!) idom) f' d)"
  using assms(2)
proof (induction "N ! f" arbitrary: f rule: less_induct)
  case less
  show ?case
  proof (cases "N ! f > N ! other")
    case True
    then have f: "f \<noteq> e" using assms(3) by auto
    note t = treeD(3,4) [OF assms(1) less.prems f]
    obtain f' where f': "climb N idom (idom ! f) other = Some f'" "anc e ((!) idom) (idom ! f) f'" "N ! f' \<le> N ! other"
      "\<And>d. anc e ((!) idom) (idom ! f) d \<Longrightarrow> N ! d \<le> N ! other \<Longrightarrow> anc e ((!) idom) f' d"
      using less.hyps [OF t(2,1)] by blast
    have "climb N idom f other = Some f'" unfolding climb.simps [of N idom f other] using f'(1) True by simp
    moreover have "anc e ((!) idom) f f'" using f'(2) f anc_step [of e "(!) idom" f f'] by simp
    moreover have "anc e ((!) idom) f' d" if "anc e ((!) idom) f d" "N ! d \<le> N ! other" for d
    proof -
      have "f \<noteq> d" using that(2) True by auto
      then show ?thesis using f'(4) that anc_step [of e "(!) idom" f d] by blast
    qed
    ultimately show ?thesis using f'(3) by blast
  next
    case False
    then have "climb N idom f other = Some f" unfolding climb.simps [of N idom f other] by simp
    then show ?thesis using False by auto
  qed
qed

lemma intersect_spec:
  assumes t: "tree ((!) N) e ((!) idom) D" and e: "N ! e = 0" and "f1 \<in> D" "f2 \<in> D"
  shows "\<exists>c. intersect N idom f1 f2 = Some c \<and> nearest e ((!) idom) {f1, f2} c"
  using assms(3,4)
proof (induction "N ! f1 + N ! f2" arbitrary: f1 f2 rule: less_induct)
  case less
  let ?anc = "anc e ((!) idom)"
  show ?case
  proof (cases "f1 = f2")
    case True
    then have "intersect N idom f1 f2 = Some f1" unfolding intersect.simps [of N idom f1 f2] by simp
    then show ?thesis using True by (auto simp: nearest_def)
  next
    case False
    obtain g1 where g1: "climb N idom f1 f2 = Some g1" "?anc f1 g1" "N ! g1 \<le> N ! f2"
      "\<And>d. ?anc f1 d \<Longrightarrow> N ! d \<le> N ! f2 \<Longrightarrow> ?anc g1 d"
      using climb_spec [OF t less.prems(1), of f2] e by auto
    obtain g2 where g2: "climb N idom f2 g1 = Some g2" "?anc f2 g2" "N ! g2 \<le> N ! g1"
      "\<And>d. ?anc f2 d \<Longrightarrow> N ! d \<le> N ! g1 \<Longrightarrow> ?anc g2 d"
      using climb_spec [OF t less.prems(2), of g1] e by auto
    have D: "g1 \<in> D" "N ! g1 \<le> N ! f1" "g2 \<in> D" "N ! g2 \<le> N ! f2"
      using anc_in [OF t less.prems(1) g1(2)] anc_in [OF t less.prems(2) g2(2)] by simp_all
    have "N ! f1 \<noteq> N ! f2" using treeD(2) [OF t] less.prems False by (auto simp: inj_on_def)
    then have "N ! g1 + N ! g2 < N ! f1 + N ! f2" using D g1(3) g2(3) by linarith
    from less.hyps [OF this D(1,3)] obtain c where c: "intersect N idom g1 g2 = Some c" "nearest e ((!) idom) {g1, g2} c" by blast
    have "intersect N idom f1 f2 = Some c" unfolding intersect.simps [of N idom f1 f2] using c(1) g1(1) g2(1) False by simp
    moreover have "?anc f1 c" "?anc f2 c" using nearestD(1) [OF c(2)] g1(2) g2(2) anc_trans by blast+
    moreover have "?anc c d" if d: "?anc f1 d" "?anc f2 d" for d
    proof -
      have "?anc g1 d" using g1(4) d anc_in [OF t less.prems(2) d(2)] by blast
      moreover have "?anc g2 d" using g2(4) d(2) anc_in [OF t D(1) calculation] by blast
      ultimately show ?thesis using nearestD(2) [OF c(2)] by blast
    qed
    ultimately show ?thesis unfolding nearest_def by blast
  qed
qed

end
