(* ===== verification/DomProof.thy ===== *)
theory DomProof
  imports DomTree
begin

text \<open>
  The iteration of \<open>dominators.go\<close> finds the dominators. Its invariant says that every dominator of a
  point is an ancestor, that the graph has a way from a parent to its child through points with larger
  numbers only, and that a point never has to move down again. So it ends, and where it ends the
  ancestors of a point are its dominators.
\<close>

section \<open>Dominance\<close>

definition edge :: "Graph \<Rightarrow> nat \<Rightarrow> nat \<Rightarrow> bool" where
  "edge g u v \<longleftrightarrow> u < g_Size g \<and> v < g_Size g \<and> u \<in> set (g_Predecessors g v)"

inductive walk :: "Graph \<Rightarrow> nat \<Rightarrow> nat list \<Rightarrow> nat \<Rightarrow> bool" for g where
  walk_start: "walk g u [u] u"
| walk_step: "walk g u ps v \<Longrightarrow> edge g v w \<Longrightarrow> walk g u (ps @ [w]) w"

text \<open>A point dominates another when every walk to it from the entry comes by.\<close>

definition dominates :: "Graph \<Rightarrow> nat \<Rightarrow> nat \<Rightarrow> bool" where
  "dominates g a b \<longleftrightarrow> (\<forall>ps. walk g (g_Entry g) ps b \<longrightarrow> a \<in> set ps)"

lemma walk_ends: "walk g u ps v \<Longrightarrow> ps \<noteq> [] \<and> hd ps = u \<and> last ps = v"
  by (induction rule: walk.induct) auto

lemma walk_append: "walk g v qs w \<Longrightarrow> walk g u ps v \<Longrightarrow> walk g u (ps @ tl qs) w"
proof (induction rule: walk.induct)
  case (walk_step v qs w x)
  then show ?case using walk_ends [OF walk_step(1)] walk.walk_step [of g u "ps @ tl qs" w x] by simp
qed simp

lemma walk_in:
  assumes "flow_ok g" "u \<in> set (g_RPO g)" "walk g u ps v"
  shows "set ps \<subseteq> set (g_RPO g) \<and> v \<in> set (g_RPO g)"
  using assms(3,2)
proof (induction rule: walk.induct)
  case (walk_step u ps v w)
  then show ?case using flow_okD(7) [OF assms(1), of v w] by (auto simp: edge_def)
qed simp

lemma entry_in: "flow_ok g \<Longrightarrow> g_Entry g \<in> set (g_RPO g)"
  using flow_okD(3,4) [of g] hd_in_set [of "g_RPO g"] by simp

text \<open>The points of the order are those with a walk from the entry.\<close>

lemma rpo_reachable:
  assumes "flow_ok g"
  shows "p \<in> set (g_RPO g) \<longleftrightarrow> (\<exists>ps. walk g (g_Entry g) ps p)"
proof
  have "\<exists>ps. walk g (g_Entry g) ps (g_RPO g ! j)" if "j < length (g_RPO g)" for j
    using that
  proof (induction j rule: less_induct)
    case (less j)
    show ?case
    proof (cases "j = 0")
      case True
      then show ?thesis using flow_okD(3,4) [OF assms] walk_start [of g "g_Entry g"] by (auto simp: hd_conv_nth)
    next
      case False
      then obtain i where i: "i < j" "g_RPO g ! i \<in> set (g_Predecessors g (g_RPO g ! j))" using flow_okD(8) [OF assms less.prems] by blast
      then obtain ps where "walk g (g_Entry g) ps (g_RPO g ! i)" using less by force
      moreover have "edge g (g_RPO g ! i) (g_RPO g ! j)" using i less.prems flow_okD(6) [OF assms] by (simp add: edge_def)
      ultimately show ?thesis using walk_step by blast
    qed
  qed
  then show "\<exists>ps. walk g (g_Entry g) ps p" if "p \<in> set (g_RPO g)" using that by (auto simp: in_set_conv_nth)
  show "p \<in> set (g_RPO g)" if "\<exists>ps. walk g (g_Entry g) ps p" using that walk_in [OF assms entry_in [OF assms]] by blast
qed

lemma dominates_pred: "dominates g d b \<Longrightarrow> d \<noteq> b \<Longrightarrow> edge g q b \<Longrightarrow> dominates g d q"
  unfolding dominates_def using walk_step by fastforce

section \<open>Numbers\<close>

abbreviation num :: "Graph \<Rightarrow> nat \<Rightarrow> nat" where
  "num g \<equiv> (!) (rpo_numbers (g_Size g) (g_RPO g))"

definition number_from :: "nat \<Rightarrow> nat \<Rightarrow> nat list \<Rightarrow> nat list \<Rightarrow> nat list" where
  "number_from n k r N = fold (\<lambda>(i, p) N. if p \<ge> n then N else N[p := i]) (List.enumerate k r) N"

lemma numbers_fold:
  assumes "distinct r" "\<forall>p \<in> set r. p < n" "length N = n"
  shows "length (number_from n k r N) = n \<and> (\<forall>i < length r. number_from n k r N ! (r ! i) = k + i) \<and>
    (\<forall>q. q \<notin> set r \<longrightarrow> number_from n k r N ! q = N ! q)"
  using assms
proof (induction r arbitrary: k N)
  case (Cons p r)
  have p: "p < n" "p \<notin> set r" using Cons.prems by simp_all
  let ?F = "number_from n (Suc k) r (N[p := k])"
  have IH: "length ?F = n \<and> (\<forall>i < length r. ?F ! (r ! i) = Suc k + i) \<and> (\<forall>q. q \<notin> set r \<longrightarrow> ?F ! q = N[p := k] ! q)"
    by (rule Cons.IH) (use Cons.prems in simp_all)
  have F: "number_from n k (p # r) N = ?F" using p by (simp add: number_from_def)
  have "?F ! ((p # r) ! i) = k + i" if "i < length (p # r)" for i
    using that IH p Cons.prems(3) by (cases i) auto
  moreover have "?F ! q = N ! q" if "q \<notin> set (p # r)" for q using that IH by auto
  ultimately show ?case unfolding F using IH by blast
qed (simp add: number_from_def)

lemma num_nth:
  assumes "flow_ok g" "i < length (g_RPO g)"
  shows "num g (g_RPO g ! i) = i"
proof -
  have "\<forall>p \<in> set (g_RPO g). p < g_Size g" using flow_okD(6) [OF assms(1)] by blast
  from numbers_fold [OF flow_okD(5) [OF assms(1)] this, of "replicate (g_Size g) 0" 0] assms(2)
  show ?thesis by (simp add: rpo_numbers_def number_from_def)
qed

lemma num_index:
  assumes "flow_ok g" "p \<in> set (g_RPO g)"
  shows "num g p < length (g_RPO g)" "g_RPO g ! num g p = p"
  using assms(2) num_nth [OF assms(1)] by (auto simp: in_set_conv_nth)

lemma num_inj: "flow_ok g \<Longrightarrow> inj_on (num g) (set (g_RPO g))"
  by (rule inj_onI) (metis num_index(2))

lemma num_entry: "flow_ok g \<Longrightarrow> num g (g_Entry g) = 0"
  using num_nth [of g 0] flow_okD(3,4) [of g] by (simp add: hd_conv_nth)

lemma earlier_pred:
  assumes "flow_ok g" "p \<in> set (g_RPO g)" "p \<noteq> g_Entry g"
  shows "\<exists>w \<in> set (g_Predecessors g p). w \<in> set (g_RPO g) \<and> num g w < num g p"
proof -
  note p = num_index [OF assms(1,2)]
  have "num g p \<noteq> 0"
  proof
    assume "num g p = 0"
    then have "p = hd (g_RPO g)" using p flow_okD(3) [OF assms(1)] by (simp add: hd_conv_nth)
    then show False using assms(3) flow_okD(4) [OF assms(1)] by simp
  qed
  then obtain i where i: "i < num g p" "g_RPO g ! i \<in> set (g_Predecessors g p)" using flow_okD(8) [OF assms(1) p(1)] p(2) by auto
  then have "num g (g_RPO g ! i) = i" "g_RPO g ! i \<in> set (g_RPO g)" using num_nth [OF assms(1), of i] p(1) by simp_all
  then show ?thesis using i by (intro bexI [of _ "g_RPO g ! i"]) simp_all
qed

section \<open>The invariant of the iteration\<close>

definition dpreds :: "Graph \<Rightarrow> nat set \<Rightarrow> nat \<Rightarrow> nat set" where
  "dpreds g D v = set (g_Predecessors g v) \<inter> D"

lemma dpreds_mono: "q \<in> dpreds g D v \<Longrightarrow> q \<in> dpreds g (insert b D) v"
  by (simp add: dpreds_def)

text \<open>
  At position \<open>i\<close> of a pass. The last two conjuncts are why parents only move up: the parent of a point
  is no higher than the common ancestor of its predecessors, and a point that this pass has not come to
  yet still shares with an earlier predecessor the ancestors that have not moved in this pass.
\<close>

definition dom_inv :: "Graph \<Rightarrow> nat \<Rightarrow> (nat \<Rightarrow> nat) \<Rightarrow> nat set \<Rightarrow> bool" where
  "dom_inv g i par D \<longleftrightarrow> (let e = g_Entry g in
     D \<subseteq> set (g_RPO g) \<and> par e = e \<and> tree (num g) e par D \<and>
     (\<forall>p \<in> D. p \<noteq> e \<longrightarrow> (\<exists>ps. walk g (par p) ps p \<and> (\<forall>q \<in> set (tl ps). num g (par p) < num g q))) \<and>
     (\<forall>p \<in> D. \<forall>d. dominates g d p \<longrightarrow> anc e par p d) \<and>
     (\<forall>p \<in> D. p \<noteq> e \<longrightarrow> (\<forall>c. (\<forall>q \<in> dpreds g D p. anc e par q c) \<longrightarrow> anc e par (par p) c)) \<and>
     (\<forall>p \<in> D. p \<noteq> e \<longrightarrow> (\<exists>w \<in> dpreds g D p. num g w < num g p \<and>
        (if num g p < i then anc e par w (par p) else \<forall>y. anc e par (par p) y \<and> i \<le> num g y \<longrightarrow> anc e par w y))) \<and>
     (\<forall>j < i. j < length (g_RPO g) \<longrightarrow> g_RPO g ! j \<in> D))"

lemma dom_invD:
  assumes "dom_inv g i par D"
  shows "D \<subseteq> set (g_RPO g)" "par (g_Entry g) = g_Entry g" "tree (num g) (g_Entry g) par D"
    "p \<in> D \<Longrightarrow> p \<noteq> g_Entry g \<Longrightarrow> \<exists>ps. walk g (par p) ps p \<and> (\<forall>q \<in> set (tl ps). num g (par p) < num g q)"
    "p \<in> D \<Longrightarrow> dominates g d p \<Longrightarrow> anc (g_Entry g) par p d"
    "p \<in> D \<Longrightarrow> p \<noteq> g_Entry g \<Longrightarrow> (\<And>q. q \<in> dpreds g D p \<Longrightarrow> anc (g_Entry g) par q c) \<Longrightarrow> anc (g_Entry g) par (par p) c"
    "p \<in> D \<Longrightarrow> p \<noteq> g_Entry g \<Longrightarrow> \<exists>w \<in> dpreds g D p. num g w < num g p \<and>
        (if num g p < i then anc (g_Entry g) par w (par p)
         else \<forall>y. anc (g_Entry g) par (par p) y \<and> i \<le> num g y \<longrightarrow> anc (g_Entry g) par w y)"
    "j < i \<Longrightarrow> j < length (g_RPO g) \<Longrightarrow> g_RPO g ! j \<in> D"
  using assms unfolding dom_inv_def Let_def by blast+

lemma dom_invI:
  assumes "D \<subseteq> set (g_RPO g)" "par (g_Entry g) = g_Entry g" "tree (num g) (g_Entry g) par D"
    "\<And>p. p \<in> D \<Longrightarrow> p \<noteq> g_Entry g \<Longrightarrow> \<exists>ps. walk g (par p) ps p \<and> (\<forall>q \<in> set (tl ps). num g (par p) < num g q)"
    "\<And>p d. p \<in> D \<Longrightarrow> dominates g d p \<Longrightarrow> anc (g_Entry g) par p d"
    "\<And>p c. p \<in> D \<Longrightarrow> p \<noteq> g_Entry g \<Longrightarrow> (\<And>q. q \<in> dpreds g D p \<Longrightarrow> anc (g_Entry g) par q c) \<Longrightarrow> anc (g_Entry g) par (par p) c"
    "\<And>p. p \<in> D \<Longrightarrow> p \<noteq> g_Entry g \<Longrightarrow> \<exists>w \<in> dpreds g D p. num g w < num g p \<and>
        (if num g p < i then anc (g_Entry g) par w (par p)
         else \<forall>y. anc (g_Entry g) par (par p) y \<and> i \<le> num g y \<longrightarrow> anc (g_Entry g) par w y)"
    "\<And>j. j < i \<Longrightarrow> j < length (g_RPO g) \<Longrightarrow> g_RPO g ! j \<in> D"
  shows "dom_inv g i par D"
  unfolding dom_inv_def Let_def using assms by blast

text \<open>From an ancestor there is a walk through points with larger numbers.\<close>

lemma anc_walk:
  assumes inv: "dom_inv g i par D" and x: "x \<in> D" "anc (g_Entry g) par x a"
  shows "\<exists>ps. walk g a ps x \<and> (\<forall>q \<in> set (tl ps). num g a < num g q)"
  using x
proof (induction "num g x" arbitrary: x rule: less_induct)
  case less
  show ?case
  proof (cases "x = a")
    case True
    then show ?thesis using walk_start by (intro exI [of _ "[a]"]) simp
  next
    case False
    then have e: "x \<noteq> g_Entry g" "anc (g_Entry g) par (par x) a" using less.prems(2) anc_step [of "g_Entry g" par x a] by blast+
    note t = dom_invD(3) [OF inv]
    note p = treeD(3,4) [OF t less.prems(1) e(1)]
    obtain ps where ps: "walk g a ps (par x)" "\<forall>q \<in> set (tl ps). num g a < num g q" using less.hyps [OF p(2,1) e(2)] by blast
    obtain qs where qs: "walk g (par x) qs x" "\<forall>q \<in> set (tl qs). num g (par x) < num g q" using dom_invD(4) [OF inv less.prems(1) e(1)] by blast
    have "num g a \<le> num g (par x)" using anc_in [OF t p(1) e(2)] by simp
    then have "\<forall>q \<in> set (tl (ps @ tl qs)). num g a < num g q" using ps(2) qs(2) walk_ends [OF ps(1)] by (cases ps) auto
    then show ?thesis using walk_append [OF qs(1) ps(1)] by blast
  qed
qed

text \<open>A dominator of a point that is numbered below one of its ancestors dominates that ancestor.\<close>

lemma dominates_ancestor:
  assumes inv: "dom_inv g i par D" and x: "x \<in> D" "anc (g_Entry g) par x b" and d: "dominates g d x" "num g d < num g b"
  shows "dominates g d b"
  unfolding dominates_def
proof (intro allI impI)
  fix ps
  assume ps: "walk g (g_Entry g) ps b"
  obtain qs where qs: "walk g b qs x" "\<forall>q \<in> set (tl qs). num g b < num g q" using anc_walk [OF inv x] by blast
  have "d \<in> set (ps @ tl qs)" using d(1) walk_append [OF qs(1) ps] unfolding dominates_def by blast
  then show "d \<in> set ps" using qs(2) d(2) by auto
qed

section \<open>A step\<close>

text \<open>The situation in which a block gets the nearest common ancestor of its predecessors as its parent.\<close>

definition moving :: "Graph \<Rightarrow> nat \<Rightarrow> (nat \<Rightarrow> nat) \<Rightarrow> nat set \<Rightarrow> nat \<Rightarrow> nat \<Rightarrow> bool" where
  "moving g i par D b c \<longleftrightarrow> flow_ok g \<and> dom_inv g i par D \<and> b \<in> set (g_RPO g) \<and> num g b = i \<and> b \<noteq> g_Entry g \<and>
     nearest (g_Entry g) par (dpreds g D b) c"

lemma movingD:
  assumes "moving g i par D b c"
  shows "flow_ok g" "dom_inv g i par D" "b \<in> set (g_RPO g)" "num g b = i" "b \<noteq> g_Entry g"
    "nearest (g_Entry g) par (dpreds g D b) c"
  using assms unfolding moving_def by blast+

lemma moving_pred:
  assumes "moving g i par D b c"
  shows "\<exists>w \<in> dpreds g D b. w \<in> D \<and> num g w < num g b \<and> anc (g_Entry g) par w c"
proof -
  note m = movingD [OF assms]
  obtain w where w: "w \<in> set (g_Predecessors g b)" "w \<in> set (g_RPO g)" "num g w < num g b" using earlier_pred [OF m(1,3,5)] by blast
  have "w \<in> D" using dom_invD(8) [OF m(2), of "num g w"] num_index [OF m(1) w(2)] w(3) m(4) by simp
  then show ?thesis using w nearestD(1) [OF m(6), of w] by (auto simp: dpreds_def)
qed

lemma moving_parent:
  assumes "moving g i par D b c"
  shows "c \<in> D" "num g c < num g b"
proof -
  note m = movingD [OF assms]
  obtain w where "w \<in> D" "num g w < num g b" "anc (g_Entry g) par w c" using moving_pred [OF assms] by blast
  then show "c \<in> D" "num g c < num g b" using anc_in [OF dom_invD(3) [OF m(2)], of w c] by auto
qed

lemma moved_tree:
  assumes "moving g i par D b c"
  shows "tree (num g) (g_Entry g) (par(b := c)) (insert b D)"
proof -
  note m = movingD [OF assms]
  have "insert b D \<subseteq> set (g_RPO g)" using m(3) dom_invD(1) [OF m(2)] by simp
  then have "inj_on (num g) (insert b D)" by (rule inj_on_subset [OF num_inj [OF m(1)]])
  then show ?thesis by (rule tree_move [OF dom_invD(3) [OF m(2)] _ moving_parent [OF assms] m(5)])
qed

lemma moved_aside:
  assumes "moving g i par D b c" "x \<in> D" "\<not> anc (g_Entry g) par x b \<or> num g x < num g b"
  shows "anc (g_Entry g) (par(b := c)) x a \<longleftrightarrow> anc (g_Entry g) par x a"
proof -
  note t = dom_invD(3) [OF movingD(2) [OF assms(1)]]
  have "\<not> anc (g_Entry g) par x b" using assms(3) anc_in [OF t assms(2), of b] by auto
  then show ?thesis by (rule anc_aside [OF t assms(2)]) simp
qed

lemma moved_block:
  assumes "moving g i par D b c"
  shows "anc (g_Entry g) (par(b := c)) b a \<longleftrightarrow> a = b \<or> anc (g_Entry g) par c a"
  using anc_step [of "g_Entry g" "par(b := c)" b a] movingD(5) [OF assms]
    moved_aside [OF assms moving_parent(1) [OF assms], of a] moving_parent(2) [OF assms] by auto

text \<open>Lines through a block that had a parent before get shorter.\<close>

lemma moved_through:
  assumes "moving g i par D b c" "x \<in> D" "anc (g_Entry g) par x b"
  shows "anc (g_Entry g) (par(b := c)) x a \<longleftrightarrow> anc (g_Entry g) par x a \<and> num g b \<le> num g a \<or> anc (g_Entry g) par c a"
    "anc (g_Entry g) par b c" "b \<in> D" "anc (g_Entry g) par (par b) c"
proof -
  note m = movingD [OF assms(1)]
  note t = dom_invD(3) [OF m(2)]
  show b: "b \<in> D" using anc_in [OF t assms(2,3)] by simp
  show "anc (g_Entry g) (par(b := c)) x a \<longleftrightarrow> anc (g_Entry g) par x a \<and> num g b \<le> num g a \<or> anc (g_Entry g) par c a"
    by (rule anc_moved [OF t b m(5) moving_parent [OF assms(1)] assms(2,3)])
  show "anc (g_Entry g) par (par b) c" by (rule dom_invD(6) [OF m(2) b m(5)]) (rule nearestD(1) [OF m(6)])
  then show "anc (g_Entry g) par b c" using anc_trans [OF anc_parent [OF m(5)]] by blast
qed

lemma moved_shrinks:
  assumes "moving g i par D b c" "x \<in> D" "anc (g_Entry g) (par(b := c)) x a"
  shows "anc (g_Entry g) par x a"
proof (cases "anc (g_Entry g) par x b")
  case True
  note th = moved_through [OF assms(1,2) True]
  show ?thesis using assms(3) th(1) [of a] anc_trans [OF anc_trans [OF True th(2)]] by blast
next
  case False
  then show ?thesis using moved_aside [OF assms(1,2)] assms(3) by blast
qed

text \<open>A dominator of the block is an ancestor of its new parent.\<close>

lemma moved_dominator:
  assumes "moving g i par D b c" "dominates g d b" "d \<noteq> b"
  shows "anc (g_Entry g) par c d"
proof (rule nearestD(2) [OF movingD(6) [OF assms(1)]])
  fix q
  assume q: "q \<in> dpreds g D b"
  note m = movingD [OF assms(1)]
  have "edge g q b" using q dom_invD(1) [OF m(2)] flow_okD(6) [OF m(1)] m(3) by (auto simp: edge_def dpreds_def)
  then have "dominates g d q" by (rule dominates_pred [OF assms(2,3)])
  then show "anc (g_Entry g) par q d" using dom_invD(5) [OF m(2)] q by (simp add: dpreds_def)
qed

lemma moved_walk:
  assumes "moving g i par D b c"
  shows "\<exists>ps. walk g c ps b \<and> (\<forall>q \<in> set (tl ps). num g c < num g q)"
proof -
  note m = movingD [OF assms]
  obtain w where w: "w \<in> dpreds g D b" "w \<in> D" "anc (g_Entry g) par w c" using moving_pred [OF assms] by blast
  obtain ps where ps: "walk g c ps w" "\<forall>q \<in> set (tl ps). num g c < num g q" using anc_walk [OF m(2) w(2,3)] by blast
  have "edge g w b" using w(1) dom_invD(1) [OF m(2)] flow_okD(6) [OF m(1)] m(3) by (auto simp: edge_def dpreds_def)
  then have "walk g c (ps @ [b]) b" by (rule walk_step [OF ps(1)])
  moreover have "\<forall>q \<in> set (tl (ps @ [b])). num g c < num g q"
    using ps(2) walk_ends [OF ps(1)] moving_parent(2) [OF assms] by (cases ps) auto
  ultimately show ?thesis by blast
qed

lemma moved_sound:
  assumes "moving g i par D b c" "x \<in> insert b D" "dominates g d x"
  shows "anc (g_Entry g) (par(b := c)) x d"
proof (cases "x = b")
  case True
  then show ?thesis using moved_block [OF assms(1)] moved_dominator [OF assms(1)] assms(3) by blast
next
  case False
  then have x: "x \<in> D" using assms(2) by simp
  note inv = movingD(2) [OF assms(1)]
  have d: "anc (g_Entry g) par x d" by (rule dom_invD(5) [OF inv x assms(3)])
  show ?thesis
  proof (cases "anc (g_Entry g) par x b")
    case True
    show ?thesis
    proof (cases "num g b \<le> num g d")
      case False
      then have "dominates g d b" by (intro dominates_ancestor [OF inv x True assms(3)]) simp
      then show ?thesis using moved_through(1) [OF assms(1) x True] moved_dominator [OF assms(1)] False by auto
    qed (use moved_through(1) [OF assms(1) x True] d in blast)
  qed (use moved_aside [OF assms(1) x] d in blast)
qed

lemma moved_mono:
  assumes m: "moving g i par D b c" and x: "x \<in> insert b D" "x \<noteq> g_Entry g"
    and a: "\<And>q. q \<in> dpreds g (insert b D) x \<Longrightarrow> anc (g_Entry g) (par(b := c)) q a"
  shows "anc (g_Entry g) (par(b := c)) ((par(b := c)) x) a"
proof -
  note M = movingD [OF m] and inv = movingD(2) [OF m]
  have old: "anc (g_Entry g) par q a" if "q \<in> dpreds g D x" for q
    using moved_shrinks [OF m] a [OF dpreds_mono [OF that]] that by (simp add: dpreds_def)
  show ?thesis
  proof (cases "x = b")
    case True
    then have "anc (g_Entry g) par c a" using nearestD(2) [OF M(6)] old by blast
    then show ?thesis using moved_aside [OF m moving_parent(1) [OF m]] moving_parent(2) [OF m] True by simp
  next
    case False
    then have D: "x \<in> D" using x by simp
    note p = treeD(3,4) [OF dom_invD(3) [OF inv] D x(2)]
    have up: "anc (g_Entry g) par (par x) a" by (rule dom_invD(6) [OF inv D x(2) old])
    show ?thesis
    proof (cases "anc (g_Entry g) par (par x) b")
      case True
      note th = moved_through(1) [OF m p(1) True]
      have "num g b \<le> num g (par x)" using anc_in [OF dom_invD(3) [OF inv] p(1) True] by simp
      then obtain w where w: "w \<in> dpreds g D x" "anc (g_Entry g) par w b"
        using dom_invD(7) [OF inv D x(2)] True p(2) M(4) by auto
      have "w \<in> D" using w(1) by (simp add: dpreds_def)
      from moved_through(1) [OF m this w(2), of a] a [OF dpreds_mono [OF w(1)]] up th [of a] False show ?thesis by auto
    qed (use moved_aside [OF m p(1)] up False in auto)
  qed
qed

lemma moved_fresh:
  assumes m: "moving g i par D b c" and x: "x \<in> insert b D" "x \<noteq> g_Entry g"
  shows "\<exists>w \<in> dpreds g (insert b D) x. num g w < num g x \<and>
    (if num g x < i + 1 then anc (g_Entry g) (par(b := c)) w ((par(b := c)) x)
     else \<forall>y. anc (g_Entry g) (par(b := c)) ((par(b := c)) x) y \<and> i + 1 \<le> num g y \<longrightarrow> anc (g_Entry g) (par(b := c)) w y)"
proof (cases "x = b")
  case True
  obtain w where w: "w \<in> dpreds g D b" "w \<in> D" "num g w < num g b" "anc (g_Entry g) par w c" using moving_pred [OF m] by blast
  then show ?thesis using moved_aside [OF m w(2), of c] movingD(4) [OF m] True dpreds_mono [OF w(1), of b] by (intro bexI [of _ w]) simp_all
next
  case False
  then have D: "x \<in> D" using x by simp
  note M = movingD [OF m] and inv = movingD(2) [OF m]
  obtain w where w: "w \<in> dpreds g D x" "num g w < num g x"
    "if num g x < i then anc (g_Entry g) par w (par x)
     else \<forall>y. anc (g_Entry g) par (par x) y \<and> i \<le> num g y \<longrightarrow> anc (g_Entry g) par w y"
    using dom_invD(7) [OF inv D x(2)] by blast
  have wD: "w \<in> D" and px: "par x \<in> D" using w(1) treeD(3) [OF dom_invD(3) [OF inv] D x(2)] by (simp_all add: dpreds_def)
  have ne: "num g x \<noteq> i" using False M(3,4) D dom_invD(1) [OF inv] num_inj [OF M(1)] by (auto simp: inj_on_def)
  show ?thesis
  proof (rule bexI [OF _ dpreds_mono [OF w(1)]])
    have "anc (g_Entry g) (par(b := c)) w y" if "anc (g_Entry g) (par(b := c)) (par x) y" "i + 1 \<le> num g y" "\<not> num g x < i" for y
    proof -
      have y: "anc (g_Entry g) par w y" using moved_shrinks [OF m px that(1)] w(3) that by simp
      show ?thesis using moved_through(1) [OF m wD, of y] moved_aside [OF m wD, of y] y that(2) M(4) by auto
    qed
    moreover have "anc (g_Entry g) (par(b := c)) w (par x)" if "num g x < i"
      using w(2,3) moved_aside [OF m wD, of "par x"] M(4) that by simp
    ultimately show "num g w < num g x \<and>
      (if num g x < i + 1 then anc (g_Entry g) (par(b := c)) w ((par(b := c)) x)
       else \<forall>y. anc (g_Entry g) (par(b := c)) ((par(b := c)) x) y \<and> i + 1 \<le> num g y \<longrightarrow> anc (g_Entry g) (par(b := c)) w y)"
      using w(2) ne False by (cases "num g x < i") auto
  qed
qed

lemma dom_inv_step:
  assumes m: "moving g i par D b c"
  shows "dom_inv g (i + 1) (par(b := c)) (insert b D)"
proof (rule dom_invI)
  note M = movingD [OF m] and inv = movingD(2) [OF m]
  show "insert b D \<subseteq> set (g_RPO g)" using M(3) dom_invD(1) [OF inv] by simp
  show "(par(b := c)) (g_Entry g) = g_Entry g" using M(5) dom_invD(2) [OF inv] by simp
  show "\<exists>ps. walk g ((par(b := c)) p) ps p \<and> (\<forall>q \<in> set (tl ps). num g ((par(b := c)) p) < num g q)"
    if "p \<in> insert b D" "p \<noteq> g_Entry g" for p
    using moved_walk [OF m] dom_invD(4) [OF inv] that by (cases "p = b") auto
  show "g_RPO g ! j \<in> insert b D" if "j < i + 1" "j < length (g_RPO g)" for j
    using that dom_invD(8) [OF inv, of j] num_index(2) [OF M(1,3)] M(4) by (cases "j = i") auto
qed (use moved_tree [OF m] moved_sound [OF m] moved_mono [OF m] moved_fresh [OF m] in blast)+

text \<open>The entry is the only point that a pass leaves alone.\<close>

lemma dom_inv_entry:
  assumes "flow_ok g" "dom_inv g 0 par D"
  shows "dom_inv g 1 par D"
proof (rule dom_invI)
  note inv = assms(2)
  fix p
  assume p: "p \<in> D" "p \<noteq> g_Entry g"
  then have "p \<in> set (g_RPO g)" using dom_invD(1) [OF inv] by blast
  then have ne: "num g p \<noteq> 0" using inj_onD [OF num_inj [OF assms(1)] _ _ entry_in [OF assms(1)], of p] num_entry [OF assms(1)] p(2) by metis
  obtain w where w: "w \<in> dpreds g D p" "num g w < num g p" "\<forall>y. anc (g_Entry g) par (par p) y \<longrightarrow> anc (g_Entry g) par w y"
    using dom_invD(7) [OF inv p] by (metis le0 not_less0)
  then show "\<exists>w \<in> dpreds g D p. num g w < num g p \<and> (if num g p < 1 then anc (g_Entry g) par w (par p)
      else \<forall>y. anc (g_Entry g) par (par p) y \<and> 1 \<le> num g y \<longrightarrow> anc (g_Entry g) par w y)" using ne by (intro bexI [of _ w]) simp_all
next
  show "g_RPO g ! j \<in> D" if "j < 1" "j < length (g_RPO g)" for j
    using that treeD(1) [OF dom_invD(3) [OF assms(2)]] flow_okD(3,4) [OF assms(1)] by (simp add: hd_conv_nth)
qed (use dom_invD(1-6) [OF assms(2)] in blast)+

text \<open>The end of a pass is the start of the next.\<close>

lemma dom_inv_pass:
  assumes "flow_ok g" "dom_inv g (length (g_RPO g)) par D"
  shows "dom_inv g 0 par D"
proof (rule dom_invI)
  note inv = assms(2)
  fix p
  assume p: "p \<in> D" "p \<noteq> g_Entry g"
  then have "num g p < length (g_RPO g)" using num_index(1) [OF assms(1)] dom_invD(1) [OF inv] by blast
  then obtain w where w: "w \<in> dpreds g D p" "num g w < num g p" "anc (g_Entry g) par w (par p)" using dom_invD(7) [OF inv p] by auto
  then show "\<exists>w \<in> dpreds g D p. num g w < num g p \<and> (if num g p < 0 then anc (g_Entry g) par w (par p)
      else \<forall>y. anc (g_Entry g) par (par p) y \<and> 0 \<le> num g y \<longrightarrow> anc (g_Entry g) par w y)" using anc_trans [OF w(3)] by (intro bexI [of _ w]) simp_all
qed (use dom_invD(1-6) [OF assms(2)] in blast)+

section \<open>The loops\<close>

definition defined :: "bool list \<Rightarrow> nat set" where
  "defined has = {p. p < length has \<and> has ! p}"

lemma nearest_merge:
  assumes a: "nearest e par {p, q} c" and b: "nearest e par (insert c Q) d"
  shows "nearest e par (insert q (insert p Q)) d"
  unfolding nearest_def
proof (intro conjI ballI allI impI)
  have "anc e par c d" using nearestD(1) [OF b] by simp
  then show "anc e par x d" if "x \<in> insert q (insert p Q)" for x
    using that nearestD(1) [OF a, of x] nearestD(1) [OF b, of x] anc_trans [of e par x c d] by auto
  fix y
  assume y: "\<forall>x \<in> insert q (insert p Q). anc e par x y"
  then have "anc e par c y" using nearestD(2) [OF a, of y] by blast
  then show "anc e par d y" using nearestD(2) [OF b, of y] y by blast
qed

lemma meet_preds_spec:
  assumes t: "tree ((!) N) e ((!) idom) (defined has)" and e: "N ! e = 0" and "c \<in> defined has"
  shows "\<exists>d. meet_preds N (idom, has) ps c = Some d \<and> nearest e ((!) idom) (insert c (set ps \<inter> defined has)) d"
  using assms(3)
proof (induction ps arbitrary: c)
  case Nil
  then show ?case by (auto simp: nearest_def)
next
  case (Cons p ps)
  show ?case
  proof (cases "p \<noteq> c \<and> p \<in> defined has")
    case True
    obtain c0 where c0: "intersect N idom p c = Some c0" "nearest e ((!) idom) {p, c} c0"
      using intersect_spec [OF t e] True Cons.prems by blast
    have "c0 \<in> defined has" using anc_in [OF t, of p c0] nearestD(1) [OF c0(2), of p] True by blast
    then obtain d where d: "meet_preds N (idom, has) ps c0 = Some d" "nearest e ((!) idom) (insert c0 (set ps \<inter> defined has)) d"
      using Cons.IH by blast
    have "insert c (set (p # ps) \<inter> defined has) = insert c (insert p (set ps \<inter> defined has))" using True by auto
    moreover have "meet_preds N (idom, has) (p # ps) c = Some d" using d(1) c0(1) True by (simp add: defined_def)
    ultimately show ?thesis using nearest_merge [OF c0(2) d(2)] by metis
  next
    case False
    then have "insert c (set (p # ps) \<inter> defined has) = insert c (set ps \<inter> defined has)" by auto
    moreover have "meet_preds N (idom, has) (p # ps) c = meet_preds N (idom, has) ps c" using False by (auto simp: defined_def)
    ultimately show ?thesis using Cons by metis
  qed
qed

definition idoms_inv :: "Graph \<Rightarrow> nat \<Rightarrow> idoms \<Rightarrow> bool" where
  "idoms_inv g i st \<longleftrightarrow> length (fst st) = g_Size g \<and> length (snd st) = g_Size g \<and> dom_inv g i ((!) (fst st)) (defined (snd st))"

text \<open>What the loop changes.\<close>

definition set_idom :: "nat \<Rightarrow> nat \<Rightarrow> idoms \<Rightarrow> idoms" where
  "set_idom b c st = ((fst st)[b := c], (snd st)[b := True])"

lemma set_idom_same: "snd st ! b \<Longrightarrow> set_idom b (fst st ! b) st = st"
  by (cases st) (simp add: set_idom_def list_update_same_conv, metis list_update_id)

lemma set_idom_fun:
  assumes "b < length (fst st)" "b < length (snd st)"
  shows "(!) (fst (set_idom b c st)) = ((!) (fst st))(b := c)" "defined (snd (set_idom b c st)) = insert b (defined (snd st))"
  using assms by (auto simp: set_idom_def fun_eq_iff nth_list_update defined_def)

abbreviation numbers :: "Graph \<Rightarrow> nat list" where "numbers g \<equiv> rpo_numbers (g_Size g) (g_RPO g)"

lemma update_block_spec:
  assumes ok: "flow_ok g" and inv: "idoms_inv g i st" and b: "b \<in> set (g_RPO g)" "num g b = i" "b \<noteq> g_Entry g"
  shows "\<exists>c. moving g i ((!) (fst st)) (defined (snd st)) b c \<and>
    update_block g (numbers g) b (st, changed) = Some (if b \<in> defined (snd st) \<and> fst st ! b = c then (st, changed) else (set_idom b c st, True))"
proof -
  obtain idom has where st: "st = (idom, has)" by force
  have len: "length idom = g_Size g" "length has = g_Size g" and I: "dom_inv g i ((!) idom) (defined has)"
    using inv by (simp_all add: idoms_inv_def st)
  have bn: "b < g_Size g" using flow_okD(6) [OF ok b(1)] .
  obtain w where w: "w \<in> set (g_Predecessors g b)" "w \<in> set (g_RPO g)" "num g w < num g b" using earlier_pred [OF ok b(1,3)] by blast
  have wD: "w \<in> defined has" using dom_invD(8) [OF I, of "num g w"] num_index [OF ok w(2)] w(3) b(2) by simp
  obtain q where q: "find (\<lambda>p. p < g_Size g \<and> has ! p) (g_Predecessors g b) = Some q" "q \<in> set (g_Predecessors g b)" "q \<in> defined has"
  proof (cases "find (\<lambda>p. p < g_Size g \<and> has ! p) (g_Predecessors g b)")
    case None
    then show ?thesis using w(1) wD len by (auto simp: find_None_iff defined_def)
  next
    case (Some q)
    then have "q \<in> set (g_Predecessors g b)" "q \<in> defined has" using len by (auto simp: find_Some_iff defined_def)
    then show ?thesis using that [OF Some] by blast
  qed
  obtain c where c: "meet_preds (numbers g) (idom, has) (g_Predecessors g b) q = Some c"
    "nearest (g_Entry g) ((!) idom) (insert q (set (g_Predecessors g b) \<inter> defined has)) c"
    using meet_preds_spec [OF dom_invD(3) [OF I] num_entry [OF ok] q(3)] by blast
  have "insert q (set (g_Predecessors g b) \<inter> defined has) = dpreds g (defined has) b" using q by (auto simp: dpreds_def)
  then have m: "moving g i ((!) idom) (defined has) b c" using c(2) ok I b by (simp add: moving_def)
  have "update_block g (numbers g) b (st, changed) =
      Some (if b \<in> defined has \<and> idom ! b = c then (st, changed) else (set_idom b c st, True))"
    using b(3) bn q(1) c(1) len by (auto simp: update_block_def st set_idom_def defined_def)
  then show ?thesis using m by (auto simp: st)
qed

text \<open>The sum of the numbers of all parents goes down with every change.\<close>

definition pot :: "Graph \<Rightarrow> idoms \<Rightarrow> nat" where
  "pot g st = (\<Sum>p \<in> set (g_RPO g). if p \<in> defined (snd st) then num g (fst st ! p) else length (g_RPO g))"

lemma pot_less:
  assumes ok: "flow_ok g" and inv: "idoms_inv g i st" and m: "moving g i ((!) (fst st)) (defined (snd st)) b c"
    and ch: "\<not> (b \<in> defined (snd st) \<and> fst st ! b = c)"
  shows "pot g (set_idom b c st) < pot g st"
proof -
  note M = movingD [OF m]
  have bn: "b < length (fst st)" "b < length (snd st)" using inv flow_okD(6) [OF ok M(3)] by (simp_all add: idoms_inv_def)
  note f = set_idom_fun [OF bn]
  have c: "c \<in> defined (snd st)" "c \<in> set (g_RPO g)" using moving_parent(1) [OF m] dom_invD(1) [OF M(2)] by blast+
  have lt: "num g c < (if b \<in> defined (snd st) then num g (fst st ! b) else length (g_RPO g))"
  proof (cases "b \<in> defined (snd st)")
    case True
    note t = dom_invD(3) [OF M(2)]
    have "anc (g_Entry g) ((!) (fst st)) (fst st ! b) c" using moved_through(4) [OF m True] by blast
    then have "num g c < num g (fst st ! b)" using anc_lt [OF t treeD(3) [OF t True M(5)]] ch True by blast
    then show ?thesis using True by simp
  next
    case False
    then show ?thesis using num_index(1) [OF ok c(2)] by simp
  qed
  have le: "(if p \<in> defined (snd (set_idom b c st)) then num g (fst (set_idom b c st) ! p) else length (g_RPO g)) \<le>
      (if p \<in> defined (snd st) then num g (fst st ! p) else length (g_RPO g))" for p
    using lt unfolding f by (cases "p = b") (simp_all split: if_splits)
  show ?thesis unfolding pot_def
  proof (rule sum_strict_mono_ex1 [OF _ ballI [OF le]])
    show "\<exists>p \<in> set (g_RPO g). (if p \<in> defined (snd (set_idom b c st)) then num g (fst (set_idom b c st) ! p) else length (g_RPO g)) <
      (if p \<in> defined (snd st) then num g (fst st ! p) else length (g_RPO g))"
      using lt M(3) unfolding f by (intro bexI [of _ b]) simp_all
  qed simp
qed

text \<open>A block that a pass leaves as it is.\<close>

definition settled :: "Graph \<Rightarrow> idoms \<Rightarrow> nat \<Rightarrow> bool" where
  "settled g st b \<longleftrightarrow> b = g_Entry g \<or> b \<in> defined (snd st) \<and> nearest (g_Entry g) ((!) (fst st)) (dpreds g (defined (snd st)) b) (fst st ! b)"

lemma update_block_step:
  assumes ok: "flow_ok g" and inv: "idoms_inv g i st" and i: "i < length (g_RPO g)"
  shows "\<exists>st' changed'. update_block g (numbers g) (g_RPO g ! i) (st, changed) = Some (st', changed') \<and> idoms_inv g (i + 1) st' \<and>
    (pot g st' < pot g st \<and> changed' \<or> st' = st \<and> changed' = changed \<and> settled g st (g_RPO g ! i))"
proof (cases "i = 0")
  case True
  then have "g_RPO g ! i = g_Entry g" using flow_okD(3,4) [OF ok] by (simp add: hd_conv_nth)
  then show ?thesis using inv dom_inv_entry [OF ok] True by (auto simp: update_block_def settled_def idoms_inv_def split: prod.splits)
next
  case False
  let ?b = "g_RPO g ! i"
  have b: "?b \<in> set (g_RPO g)" "num g ?b = i" using i num_nth [OF ok i] by simp_all
  then have e: "?b \<noteq> g_Entry g" using num_entry [OF ok] False by metis
  obtain c where m: "moving g i ((!) (fst st)) (defined (snd st)) ?b c"
    and u: "update_block g (numbers g) ?b (st, changed) =
      Some (if ?b \<in> defined (snd st) \<and> fst st ! ?b = c then (st, changed) else (set_idom ?b c st, True))"
    using update_block_spec [OF ok inv b e] by blast
  have bn: "?b < length (fst st)" "?b < length (snd st)" using inv flow_okD(6) [OF ok b(1)] by (simp_all add: idoms_inv_def)
  have inv': "idoms_inv g (i + 1) (set_idom ?b c st)"
    using dom_inv_step [OF m] inv unfolding idoms_inv_def set_idom_fun [OF bn] by (simp add: set_idom_def)
  show ?thesis
  proof (cases "?b \<in> defined (snd st) \<and> fst st ! ?b = c")
    case True
    then have "set_idom ?b c st = st" using set_idom_same [of st ?b] by (auto simp: defined_def)
    moreover have "settled g st ?b" using True movingD(6) [OF m] by (simp add: settled_def)
    ultimately show ?thesis using u inv' True by simp
  next
    case False
    then have "update_block g (numbers g) ?b (st, changed) = Some (set_idom ?b c st, True)" using u by (simp only: if_False)
    then show ?thesis using inv' pot_less [OF ok inv m False] by blast
  qed
qed

lemma update_blocks_spec:
  assumes ok: "flow_ok g"
  shows "idoms_inv g i st \<Longrightarrow> i \<le> length (g_RPO g) \<Longrightarrow>
    \<exists>st' changed'. update_blocks g (numbers g) (drop i (g_RPO g)) (st, changed) = Some (st', changed') \<and> idoms_inv g (length (g_RPO g)) st' \<and>
    (pot g st' < pot g st \<and> changed' \<or> st' = st \<and> changed' = changed \<and> (\<forall>b \<in> set (drop i (g_RPO g)). settled g st b))"
proof (induction "length (g_RPO g) - i" arbitrary: i st changed)
  case 0
  then show ?case by simp
next
  case (Suc k)
  then have i: "i < length (g_RPO g)" by simp
  obtain st1 ch1 where s1: "update_block g (numbers g) (g_RPO g ! i) (st, changed) = Some (st1, ch1)" "idoms_inv g (i + 1) st1"
    "pot g st1 < pot g st \<and> ch1 \<or> st1 = st \<and> ch1 = changed \<and> settled g st (g_RPO g ! i)"
    using update_block_step [OF ok Suc.prems(1) i] by blast
  have "k = length (g_RPO g) - (i + 1)" "i + 1 \<le> length (g_RPO g)" using Suc(2) i by simp_all
  from Suc.hyps(1) [OF this(1) s1(2) this(2), of ch1] obtain st2 ch2 where
    s2: "update_blocks g (numbers g) (drop (i + 1) (g_RPO g)) (st1, ch1) = Some (st2, ch2)" "idoms_inv g (length (g_RPO g)) st2"
    "pot g st2 < pot g st1 \<and> ch2 \<or> st2 = st1 \<and> ch2 = ch1 \<and> (\<forall>b \<in> set (drop (i + 1) (g_RPO g)). settled g st1 b)" by blast
  have d: "drop i (g_RPO g) = g_RPO g ! i # drop (i + 1) (g_RPO g)" using i by (simp add: Cons_nth_drop_Suc)
  have "update_blocks g (numbers g) (drop i (g_RPO g)) (st, changed) = Some (st2, ch2)" unfolding d using s1(1) s2(1) by simp
  then show ?case unfolding d using s1(3) s2(2,3) by fastforce
qed

lemma fixed_point_spec:
  assumes ok: "flow_ok g"
  shows "idoms_inv g 0 st \<Longrightarrow> \<exists>st'. fixed_point g (numbers g) st = Some st' \<and> idoms_inv g 0 st' \<and> (\<forall>b \<in> set (g_RPO g). settled g st' b)"
proof (induction "pot g st" arbitrary: st rule: less_induct)
  case less
  obtain st1 ch where s: "update_blocks g (numbers g) (g_RPO g) (st, False) = Some (st1, ch)" "idoms_inv g (length (g_RPO g)) st1"
    "pot g st1 < pot g st \<and> ch \<or> st1 = st \<and> \<not> ch \<and> (\<forall>b \<in> set (g_RPO g). settled g st b)"
    using update_blocks_spec [OF ok less.prems le0, of False] by auto
  have i: "idoms_inv g 0 st1" using s(2) dom_inv_pass [OF ok] by (simp add: idoms_inv_def)
  show ?case
  proof (cases ch)
    case True
    then have "\<exists>st'. fixed_point g (numbers g) st1 = Some st' \<and> idoms_inv g 0 st' \<and> (\<forall>b \<in> set (g_RPO g). settled g st' b)"
      using less.hyps i s(3) by blast
    then show ?thesis unfolding fixed_point.simps [of g "numbers g" st] using s(1) True by simp
  next
    case False
    then show ?thesis unfolding fixed_point.simps [of g "numbers g" st] using s less.prems by auto
  qed
qed

lemma initial_inv:
  assumes ok: "flow_ok g"
  shows "idoms_inv g 0 ((replicate (g_Size g) 0)[g_Entry g := g_Entry g], (replicate (g_Size g) False)[g_Entry g := True])"
proof -
  have e: "g_Entry g < g_Size g" by (rule flow_okD(1) [OF ok])
  have d: "defined ((replicate (g_Size g) False)[g_Entry g := True]) = {g_Entry g}" using e by (auto simp: defined_def nth_list_update)
  have "dominates g d (g_Entry g) \<Longrightarrow> d = g_Entry g" for d using walk_start [of g "g_Entry g"] by (fastforce simp: dominates_def)
  then show ?thesis unfolding idoms_inv_def fst_conv snd_conv d
    using e entry_in [OF ok] by (auto simp: dom_inv_def tree_def Let_def anc_root)
qed

text \<open>The iteration ends, and the ancestors of a point are then its dominators.\<close>

definition solved :: "Graph \<Rightarrow> idoms \<Rightarrow> bool" where
  "solved g st \<longleftrightarrow> idoms_inv g 0 st \<and> defined (snd st) = set (g_RPO g) \<and> (\<forall>b \<in> set (g_RPO g). settled g st b)"

lemma immediate_dominators_spec:
  assumes ok: "flow_ok g"
  shows "\<exists>st. immediate_dominators g (numbers g) = Some st \<and> solved g st"
proof -
  obtain st where st: "immediate_dominators g (numbers g) = Some st" "idoms_inv g 0 st" "\<forall>b \<in> set (g_RPO g). settled g st b"
    using fixed_point_spec [OF ok initial_inv [OF ok]] by (auto simp: immediate_dominators_def)
  have I: "dom_inv g 0 ((!) (fst st)) (defined (snd st))" using st(2) by (simp add: idoms_inv_def)
  have "set (g_RPO g) \<subseteq> defined (snd st)" using st(3) treeD(1) [OF dom_invD(3) [OF I]] by (auto simp: settled_def)
  then show ?thesis using st dom_invD(1) [OF I] by (auto simp: solved_def)
qed

lemma solved_dominates:
  assumes ok: "flow_ok g" and s: "solved g st" and b: "b \<in> set (g_RPO g)"
  shows "anc (g_Entry g) ((!) (fst st)) b d \<longleftrightarrow> dominates g d b"
proof
  let ?anc = "anc (g_Entry g) ((!) (fst st))"
  have I: "dom_inv g 0 ((!) (fst st)) (defined (snd st))" and D: "defined (snd st) = set (g_RPO g)"
    using s unfolding solved_def idoms_inv_def by blast+
  show "dominates g d b \<Longrightarrow> ?anc b d" using dom_invD(5) [OF I] b D by simp
  have "\<forall>d. ?anc v d \<longrightarrow> d \<in> set ps" if "walk g u ps v" "u = g_Entry g" for u ps v
    using that
  proof (induction rule: walk.induct)
    case (walk_start u)
    then show ?case by (simp add: anc_root)
  next
    case (walk_step u ps v w)
    have v: "v \<in> set (g_RPO g)" using walk_in [OF ok entry_in [OF ok]] walk_step.hyps(1) walk_step.prems by blast
    then have w: "w \<in> set (g_RPO g)" "v \<in> dpreds g (defined (snd st)) w"
      using walk_step.hyps(2) flow_okD(7) [OF ok v] by (auto simp: edge_def dpreds_def D)
    have "w \<noteq> g_Entry g \<Longrightarrow> ?anc v (fst st ! w)" using s w nearestD(1) by (auto simp: solved_def settled_def)
    then show ?case using walk_step.IH [OF walk_step.prems] anc_step [of "g_Entry g" "(!) (fst st)" w] anc_trans by fastforce
  qed
  then show "?anc b d \<Longrightarrow> dominates g d b" by (simp add: dominates_def)
qed

end
