(* ===== verification/DomFrontier.thy ===== *)
theory DomFrontier
  imports DomProof "HOL-Library.Multiset"
begin

text \<open>
  Dominance frontiers of \<open>dominators.go\<close>: for every block the loop over its predecessors and their
  dominators appends the block once to exactly the points it should, although the marks of the points are
  shared by all blocks and the epoch that they carry wraps around.
\<close>

section \<open>A solved tree\<close>

text \<open>What the frontier needs of the two arrays.\<close>

definition dom_tree :: "Graph \<Rightarrow> idoms \<Rightarrow> bool" where
  "dom_tree g st \<longleftrightarrow> length (fst st) = g_Size g \<and> length (snd st) = g_Size g \<and> defined (snd st) = set (g_RPO g) \<and>
     fst st ! g_Entry g = g_Entry g \<and> tree (num g) (g_Entry g) ((!) (fst st)) (set (g_RPO g)) \<and>
     (\<forall>b \<in> set (g_RPO g). \<forall>d. anc (g_Entry g) ((!) (fst st)) b d \<longleftrightarrow> dominates g d b)"

lemma dom_treeD:
  assumes "dom_tree g st"
  shows "length (fst st) = g_Size g" "length (snd st) = g_Size g" "defined (snd st) = set (g_RPO g)"
    "fst st ! g_Entry g = g_Entry g" "tree (num g) (g_Entry g) ((!) (fst st)) (set (g_RPO g))"
    "b \<in> set (g_RPO g) \<Longrightarrow> anc (g_Entry g) ((!) (fst st)) b d \<longleftrightarrow> dominates g d b"
  using assms unfolding dom_tree_def by blast+

lemma solved_tree: "flow_ok g \<Longrightarrow> solved g st \<Longrightarrow> dom_tree g st"
  using solved_dominates [of g st] dom_invD(2,3) [of g 0 "(!) (fst st)" "defined (snd st)"]
  by (auto simp: dom_tree_def solved_def idoms_inv_def)

lemma dom_tree_cong:
  assumes "flow_ok g" "dom_tree g (idom, has)" "length idom' = g_Size g" "length has' = g_Size g"
    "\<And>p. p \<in> set (g_RPO g) \<Longrightarrow> idom' ! p = idom ! p" "defined has' = set (g_RPO g)"
  shows "dom_tree g (idom', has')"
proof -
  note T = dom_treeD [OF assms(2), unfolded fst_conv snd_conv]
  have "tree (num g) (g_Entry g) ((!) idom') (set (g_RPO g))" using T(5) assms(5) by (simp add: tree_def)
  moreover have "anc (g_Entry g) ((!) idom') b d \<longleftrightarrow> dominates g d b" if "b \<in> set (g_RPO g)" for b d
    using anc_cong [OF T(5) assms(5) that] T(6) [OF that] by blast
  ultimately show ?thesis using assms(3-6) T(4) entry_in [OF assms(1)] by (simp add: dom_tree_def)
qed

text \<open>The parent of a block dominates its predecessors.\<close>

lemma pred_below:
  assumes ok: "flow_ok g" and t: "dom_tree g st" and y: "y \<in> set (g_RPO g)" and q: "q \<in> set (g_Predecessors g y)" "q \<in> set (g_RPO g)"
  shows "anc (g_Entry g) ((!) (fst st)) q (fst st ! y)"
proof (cases "y = g_Entry g")
  case True
  then show ?thesis using anc_to_root [OF dom_treeD(5) [OF t] q(2)] dom_treeD(4) [OF t] by simp
next
  case False
  note p = treeD(3,4) [OF dom_treeD(5) [OF t] y False]
  have "dominates g (fst st ! y) y" using dom_treeD(6) [OF t y] anc_parent [OF False] by blast
  moreover have "edge g q y" using q y flow_okD(6) [OF ok] by (simp add: edge_def)
  moreover have "fst st ! y \<noteq> y" using p(2) by auto
  ultimately have "dominates g (fst st ! y) q" using dominates_pred by blast
  then show ?thesis using dom_treeD(6) [OF t q(2)] by blast
qed

lemma strict_parent:
  assumes t: "dom_tree g st" and y: "y \<in> set (g_RPO g)" "y \<noteq> g_Entry g"
  shows "anc (g_Entry g) ((!) (fst st)) (fst st ! y) a \<longleftrightarrow> a \<noteq> y \<and> dominates g a y"
proof -
  note T = dom_treeD(5) [OF t]
  note p = treeD(3,4) [OF T y]
  have "anc (g_Entry g) ((!) (fst st)) (fst st ! y) a \<Longrightarrow> a \<noteq> y" using anc_in [OF T p(1), of a] p(2) by auto
  then show ?thesis using dom_treeD(6) [OF t y(1), of a] anc_step [of "g_Entry g" "(!) (fst st)" y a] y(2) by blast
qed

section \<open>Running up from a predecessor\<close>

text \<open>The points that a run from a predecessor marks.\<close>

definition run_set :: "Graph \<Rightarrow> nat list \<Rightarrow> nat \<Rightarrow> nat \<Rightarrow> nat set" where
  "run_set g idom parent q =
     (if q \<in> set (g_RPO g) then {b. anc (g_Entry g) ((!) idom) q b \<and> \<not> anc (g_Entry g) ((!) idom) parent b} else {q})"

lemma run_up_stop: "runner = d \<or> runner \<ge> length mark \<or> mark ! runner = epoch \<Longrightarrow> run_up st y d epoch runner (df, mark) = (df, mark)"
  by (cases st) simp

lemma run_up_go:
  assumes "runner \<noteq> d" "runner < length mark" "mark ! runner \<noteq> epoch"
  shows "run_up (idom, has) y d epoch runner (df, mark) =
    (if \<not> has ! runner \<or> idom ! runner = runner then (df[runner := df ! runner @ [y]], mark[runner := epoch])
     else run_up (idom, has) y d epoch (idom ! runner) (df[runner := df ! runner @ [y]], mark[runner := epoch]))"
  using assms by (simp add: Let_def)

text \<open>What a run leaves of the marks and the frontiers.\<close>

definition ran :: "nat set \<Rightarrow> nat \<Rightarrow> u32 \<Rightarrow> nat list list \<times> u32 list \<Rightarrow> nat list list \<times> u32 list \<Rightarrow> bool" where
  "ran S y epoch s s' \<longleftrightarrow> length (fst s') = length (fst s) \<and> length (snd s') = length (snd s) \<and>
     (\<forall>b < length (snd s). snd s' ! b = (if b \<in> S then epoch else snd s ! b) \<and>
        fst s' ! b = fst s ! b @ (if b \<in> S \<and> snd s ! b \<noteq> epoch then [y] else []))"

lemma ran_none: "(\<And>b. b \<in> S \<Longrightarrow> b < length (snd s) \<Longrightarrow> snd s ! b = epoch) \<Longrightarrow> ran S y epoch s s"
  by (auto simp: ran_def)

lemma ran_one:
  assumes "r < length mark" "length df = length mark" "mark ! r \<noteq> epoch"
  shows "ran {r} y epoch (df, mark) (df[r := df ! r @ [y]], mark[r := epoch])"
  using assms by (simp add: ran_def nth_list_update)

lemma ran_trans:
  assumes "ran S y epoch s s'" "ran T y epoch s' s''"
  shows "ran (S \<union> T) y epoch s s''"
  using assms unfolding ran_def by auto

lemma run_up_ran:
  assumes t: "dom_tree g (idom, has)" and d: "d \<in> set (g_RPO g)" and len: "length mark = g_Size g" "length df = g_Size g"
    and r: "runner < g_Size g" "runner \<in> set (g_RPO g) \<Longrightarrow> anc (g_Entry g) ((!) idom) runner d"
    and cl: "\<And>a b. runner \<in> set (g_RPO g) \<Longrightarrow> a \<in> set (g_RPO g) \<Longrightarrow> mark ! a = epoch \<Longrightarrow> num g a \<le> num g runner \<Longrightarrow>
      anc (g_Entry g) ((!) idom) a b \<Longrightarrow> \<not> anc (g_Entry g) ((!) idom) d b \<Longrightarrow> mark ! b = epoch"
  shows "ran (run_set g idom d runner) y epoch (df, mark) (run_up (idom, has) y d epoch runner (df, mark))"
proof (cases "runner \<in> set (g_RPO g)")
  case False
  then have "runner \<noteq> d" "\<not> has ! runner" using d dom_treeD(2,3) [OF t] r(1) by (auto simp: defined_def)
  moreover have S: "run_set g idom d runner = {runner}" using False by (simp add: run_set_def)
  ultimately show ?thesis
    using run_up_stop [of runner d mark epoch "(idom, has)" y df] run_up_go [of runner d mark epoch idom has y df] len r(1)
      ran_none [of "{runner}" "(df, mark)" epoch y] ran_one [of runner mark df epoch y]
    by (cases "mark ! runner = epoch") simp_all
next
  case True
  then show ?thesis using r(2) cl len
  proof (induction "num g runner" arbitrary: runner df mark rule: less_induct)
    case less
    note T = dom_treeD(5) [OF t, unfolded fst_conv]
    note rd = less.prems(2) [OF less.prems(1)]
    have rn: "runner < length mark" using less.prems(1,4) dom_treeD(2,3) [OF t] by (auto simp: defined_def)
    have hs: "has ! runner" using less.prems(1) dom_treeD(3) [OF t] by (auto simp: defined_def)
    show ?case
    proof (cases "runner = d \<or> mark ! runner = epoch")
      case True
      then have "snd (df, mark) ! b = epoch" if "b \<in> run_set g idom d runner" for b
        using that less.prems(1) less.prems(3) [of runner b] by (auto simp: run_set_def)
      then show ?thesis using ran_none run_up_stop [of runner d mark epoch] True by metis
    next
      case False
      have ne: "runner \<noteq> g_Entry g" using rd False by (auto simp: anc_root)
      let ?p = "idom ! runner" and ?df = "df[runner := df ! runner @ [y]]" and ?mark = "mark[runner := epoch]"
      note p = treeD(3,4) [OF T less.prems(1) ne]
      have pd: "anc (g_Entry g) ((!) idom) ?p d" using rd False anc_step [of "g_Entry g" "(!) idom" runner d] by blast
      have "?p \<noteq> runner" using p(2) by auto
      then have go: "run_up (idom, has) y d epoch runner (df, mark) = run_up (idom, has) y d epoch ?p (?df, ?mark)"
        using run_up_go [of runner d mark epoch idom has y df] False rn hs by simp
      have "ran (run_set g idom d ?p) y epoch (?df, ?mark) (run_up (idom, has) y d epoch ?p (?df, ?mark))"
      proof (rule less.hyps [OF p(2,1) pd])
        fix a b
        assume a: "a \<in> set (g_RPO g)" "?mark ! a = epoch" "num g a \<le> num g ?p" "anc (g_Entry g) ((!) idom) a b" "\<not> anc (g_Entry g) ((!) idom) d b"
        then have "a \<noteq> runner" using p(2) by auto
        then have "mark ! b = epoch" using less.prems(3) [OF less.prems(1) a(1) _ _ a(4,5)] a(2,3) p(2) by simp
        then show "?mark ! b = epoch" using rn by (cases "b = runner") simp_all
      qed (use less.prems(4,5) in simp_all)
      from ran_trans [OF ran_one [OF rn _ ] this] have "ran ({runner} \<union> run_set g idom d ?p) y epoch (df, mark) (run_up (idom, has) y d epoch runner (df, mark))"
        using False less.prems(4,5) go by simp
      moreover have "\<not> anc (g_Entry g) ((!) idom) d runner"
        using anc_in [OF T d, of runner] anc_lt [OF T less.prems(1) rd] False by auto
      then have "{runner} \<union> run_set g idom d ?p = run_set g idom d runner"
        using p(1) less.prems(1) ne anc_step [of "g_Entry g" "(!) idom" runner] by (auto simp: run_set_def)
      ultimately show ?thesis by simp
    qed
  qed
qed

section \<open>All predecessors of a block\<close>

definition block_set :: "Graph \<Rightarrow> nat list \<Rightarrow> nat \<Rightarrow> nat list \<Rightarrow> nat set" where
  "block_set g idom y qs = (\<Union>q \<in> {q \<in> set qs. q < g_Size g}. run_set g idom (idom ! y) q)"

lemma run_set_closed:
  assumes "dom_tree g (idom, has)" "a \<in> block_set g idom y qs" "a \<in> set (g_RPO g)" "anc (g_Entry g) ((!) idom) a b"
    "\<not> anc (g_Entry g) ((!) idom) (idom ! y) b"
  shows "b \<in> block_set g idom y qs"
proof -
  obtain q where q: "q \<in> set qs" "q < g_Size g" "a \<in> run_set g idom (idom ! y) q" using assms(2) by (auto simp: block_set_def)
  then have "b \<in> run_set g idom (idom ! y) q" using assms(3-5) anc_trans by (auto simp: run_set_def split: if_splits)
  then show ?thesis using q by (auto simp: block_set_def)
qed

lemma preds_ran:
  assumes ok: "flow_ok g" and t: "dom_tree g (idom, has)" and y: "y \<in> set (g_RPO g)" and len: "length mark = g_Size g" "length df = g_Size g"
    and fresh: "epoch \<notin> set mark" and qs: "set qs \<subseteq> set (g_Predecessors g y)"
  shows "ran (block_set g idom y qs) y epoch (df, mark)
    (fold (\<lambda>pred s. if pred \<ge> g_Size g then s else run_up (idom, has) y (idom ! y) epoch pred s) qs (df, mark))"
  using qs
proof (induction qs rule: rev_induct)
  case Nil
  then show ?case by (simp add: block_set_def ran_def)
next
  case (snoc q qs)
  let ?s = "fold (\<lambda>pred s. if pred \<ge> g_Size g then s else run_up (idom, has) y (idom ! y) epoch pred s) qs (df, mark)"
  have IH: "ran (block_set g idom y qs) y epoch (df, mark) ?s" using snoc by simp
  obtain df1 mark1 where s: "?s = (df1, mark1)" by force
  have l1: "length mark1 = g_Size g" "length df1 = g_Size g" using IH len by (simp_all add: ran_def s)
  show ?case
  proof (cases "q < g_Size g")
    case True
    note T = dom_treeD(5) [OF t, unfolded fst_conv]
    have d: "idom ! y \<in> set (g_RPO g)" using treeD(3) [OF T y] dom_treeD(4) [OF t] y by (cases "y = g_Entry g") simp_all
    have m: "mark1 ! a = epoch \<longleftrightarrow> a \<in> block_set g idom y qs" if "a < g_Size g" for a
      using IH fresh len that nth_mem [of a mark] by (auto simp: ran_def s)
    have "ran (run_set g idom (idom ! y) q) y epoch (df1, mark1) (run_up (idom, has) y (idom ! y) epoch q (df1, mark1))"
    proof (rule run_up_ran [OF t d l1 True])
      show "anc (g_Entry g) ((!) idom) q (idom ! y)" if "q \<in> set (g_RPO g)"
        using pred_below [OF ok t y _ that] snoc.prems by simp
      fix a b
      assume a: "a \<in> set (g_RPO g)" "mark1 ! a = epoch" "anc (g_Entry g) ((!) idom) a b" "\<not> anc (g_Entry g) ((!) idom) (idom ! y) b"
      have b: "b \<in> set (g_RPO g)" using anc_in [OF T a(1,3)] by simp
      show "mark1 ! b = epoch"
        using run_set_closed [OF t _ a(1,3,4)] a(2) m [OF flow_okD(6) [OF ok a(1)]] m [OF flow_okD(6) [OF ok b]] by blast
    qed
    from ran_trans [OF IH [unfolded s] this]
    have "ran (block_set g idom y qs \<union> run_set g idom (idom ! y) q) y epoch (df, mark) (run_up (idom, has) y (idom ! y) epoch q (df1, mark1))" .
    moreover have "block_set g idom y (qs @ [q]) = block_set g idom y qs \<union> run_set g idom (idom ! y) q" using True by (auto simp: block_set_def)
    ultimately show ?thesis using True by (simp add: s)
  next
    case False
    then have "block_set g idom y (qs @ [q]) = block_set g idom y qs" by (auto simp: block_set_def)
    then show ?thesis using IH False by simp
  qed
qed

section \<open>All blocks\<close>

definition in_frontier :: "Graph \<Rightarrow> nat list \<Rightarrow> nat \<Rightarrow> nat \<Rightarrow> bool" where
  "in_frontier g idom b y \<longleftrightarrow> minPredecessorsForDF \<le> length (g_Predecessors g y) \<and> b \<in> block_set g idom y (g_Predecessors g y)"

definition frontier_inv :: "Graph \<Rightarrow> nat list \<Rightarrow> nat list \<Rightarrow> frontier_state \<Rightarrow> bool" where
  "frontier_inv g idom ys s \<longleftrightarrow> (case s of (df, mark, epoch) \<Rightarrow>
     length df = g_Size g \<and> length mark = g_Size g \<and> (\<forall>m \<in> set mark. m \<le> epoch) \<and>
     (\<forall>b < g_Size g. df ! b = filter (in_frontier g idom b) ys))"

text \<open>The next epoch is on none of the marks, also when it wraps around.\<close>

lemma next_epoch:
  fixes epoch :: u32
  assumes "\<forall>m \<in> set mark. m \<le> epoch" "(mark', epoch') = (if epoch + 1 = 0 then (replicate n 0, 1) else (mark, epoch + 1))"
  shows "epoch' \<notin> set mark' \<and> (\<forall>m \<in> set mark'. m \<le> epoch')"
proof (cases "epoch + 1 = 0")
  case True
  then show ?thesis using assms(2) by (auto split: if_splits)
next
  case False
  then have "epoch < epoch + 1" by unat_arith
  then show ?thesis using assms False by (auto dest: order.strict_trans1)
qed

lemma frontier_block_inv:
  assumes ok: "flow_ok g" and t: "dom_tree g (idom, has)" and y: "y \<in> set (g_RPO g)" and inv: "frontier_inv g idom ys s"
  shows "frontier_inv g idom (ys @ [y]) (frontier_block g (idom, has) y s)"
proof -
  obtain df mark epoch where s: "s = (df, mark, epoch)" by (cases s)
  have I: "length df = g_Size g" "length mark = g_Size g" "\<forall>m \<in> set mark. m \<le> epoch"
    "\<And>b. b < g_Size g \<Longrightarrow> df ! b = filter (in_frontier g idom b) ys" using inv by (simp_all add: frontier_inv_def s)
  have yn: "y < g_Size g" and hy: "has ! y" using y flow_okD(6) [OF ok] dom_treeD(3) [OF t] by (auto simp: defined_def)
  show ?thesis
  proof (cases "length (g_Predecessors g y) < minPredecessorsForDF")
    case True
    then show ?thesis using inv by (simp add: frontier_block_def s frontier_inv_def in_frontier_def Let_def)
  next
    case False
    obtain mark1 epoch1 where e: "(mark1, epoch1) = (if epoch + 1 = 0 then (replicate (g_Size g) 0, 1) else (mark, epoch + 1))" by (metis surj_pair)
    have l1: "length mark1 = g_Size g" using e I(2) by (auto split: if_splits)
    note fresh = next_epoch [OF I(3) e]
    obtain df2 mark2 where f: "fold (\<lambda>pred s. if pred \<ge> g_Size g then s else run_up (idom, has) y (idom ! y) epoch1 pred s) (g_Predecessors g y) (df, mark1) = (df2, mark2)"
      by force
    have R: "ran (block_set g idom y (g_Predecessors g y)) y epoch1 (df, mark1) (df2, mark2)"
      using preds_ran [OF ok t y l1 I(1) conjunct1 [OF fresh] subset_refl] f by simp
    have fb: "frontier_block g (idom, has) y s = (df2, mark2, epoch1)"
      using yn hy False f by (simp add: frontier_block_def s Let_def e [symmetric] del: One_nat_def)
    have l2: "length df2 = g_Size g" "length mark2 = g_Size g" using R I(1) l1 by (simp_all add: ran_def)
    have "mark2 ! b \<le> epoch1" if "b < g_Size g" for b
      using R fresh l1 that nth_mem [of b mark1] by (simp add: ran_def)
    then have "\<forall>m \<in> set mark2. m \<le> epoch1" using l2 by (auto simp: in_set_conv_nth)
    moreover have "df2 ! b = filter (in_frontier g idom b) (ys @ [y])" if "b < g_Size g" for b
      using R fresh l1 I(4) [OF that] that False nth_mem [of b mark1] by (auto simp: ran_def in_frontier_def)
    ultimately show ?thesis using l2 by (simp add: fb frontier_inv_def)
  qed
qed

lemma frontier_inv_all:
  assumes "flow_ok g" "dom_tree g (idom, has)" "set ys \<subseteq> set (g_RPO g)"
  shows "frontier_inv g idom ys (fold (frontier_block g (idom, has)) ys (replicate (g_Size g) [], replicate (g_Size g) 0, 1))"
  using assms(3)
proof (induction ys rule: rev_induct)
  case Nil
  then show ?case by (simp add: frontier_inv_def)
next
  case (snoc y ys)
  then show ?case using frontier_block_inv [OF assms(1,2)] by simp
qed

section \<open>Order\<close>

lemma filter_eq_single: "distinct ys \<Longrightarrow> k \<in> set ys \<Longrightarrow> filter (\<lambda>x. k = x) ys = [k]"
  by (induction ys) (auto simp: filter_empty_conv)

lemma sort_points_rpo:
  assumes ok: "flow_ok g" and xs: "mset xs = mset (filter P (g_RPO g))"
  shows "sort_points (numbers g) xs = filter P (g_RPO g)"
  unfolding sort_points_def
proof (rule properties_for_sort_key [OF xs [symmetric]])
  have inj: "num g a = num g b \<longleftrightarrow> a = b" if "a \<in> set (g_RPO g)" "b \<in> set (g_RPO g)" for a b
    using inj_onD [OF num_inj [OF ok] _ that] by auto
  have d: "distinct (filter P (g_RPO g))" "distinct xs" and sx: "set xs = set (filter P (g_RPO g))"
    using flow_okD(5) [OF ok] xs mset_eq_imp_distinct_iff [OF xs] mset_eq_setD [OF xs] by simp_all
  show "filter (\<lambda>x. num g k = num g x) (filter P (g_RPO g)) = filter (\<lambda>x. num g k = num g x) xs" if k: "k \<in> set (filter P (g_RPO g))" for k
  proof -
    have f: "filter (\<lambda>x. num g k = num g x) ys = [k]" if "distinct ys" "set ys = set (filter P (g_RPO g))" for ys
    proof -
      have "filter (\<lambda>x. num g k = num g x) ys = filter (\<lambda>x. k = x) ys" by (rule filter_cong) (use that inj k in auto)
      moreover have "filter (\<lambda>x. k = x) ys = [k]" using filter_eq_single [OF that(1)] that(2) k by simp
      ultimately show ?thesis by simp
    qed
    show ?thesis unfolding f [OF d(1) refl] f [OF d(2) sx] by (rule refl)
  qed
  have "sorted (map (num g) (g_RPO g))" using num_nth [OF ok] by (auto simp: sorted_iff_nth_mono)
  then show "sorted (map (num g) (filter P (g_RPO g)))" by (rule sorted_filter)
qed

lemma dense_frontier_spec:
  assumes ok: "flow_ok g" and t: "dom_tree g (idom, has)" and b: "b < g_Size g"
  shows "length (computeDominanceFrontierDense g (g_RPO g) (numbers g) (idom, has)) = g_Size g"
    "computeDominanceFrontierDense g (g_RPO g) (numbers g) (idom, has) ! b = filter (in_frontier g idom b) (g_RPO g)"
proof -
  obtain df mark epoch where s: "fold (frontier_block g (idom, has)) (g_RPO g) (replicate (g_Size g) [], replicate (g_Size g) 0, 1) = (df, mark, epoch)"
    by (metis surj_pair)
  have I: "length df = g_Size g" "\<And>b. b < g_Size g \<Longrightarrow> df ! b = filter (in_frontier g idom b) (g_RPO g)"
    using frontier_inv_all [OF ok t subset_refl] by (simp_all add: s frontier_inv_def)
  have eq: "computeDominanceFrontierDense g (g_RPO g) (numbers g) (idom, has) = map (sort_points (numbers g)) df"
    using b flow_okD(3) [OF ok] by (simp add: computeDominanceFrontierDense_def Let_def s)
  show "length (computeDominanceFrontierDense g (g_RPO g) (numbers g) (idom, has)) = g_Size g" by (simp add: eq I(1))
  show "computeDominanceFrontierDense g (g_RPO g) (numbers g) (idom, has) ! b = filter (in_frontier g idom b) (g_RPO g)"
    using sort_points_rpo [OF ok refl] b by (simp add: eq I)
qed

text \<open>For reachable points that is the definition of the dominance frontier.\<close>

definition frontier :: "Graph \<Rightarrow> nat \<Rightarrow> nat \<Rightarrow> bool" where
  "frontier g b y \<longleftrightarrow> (\<exists>q \<in> set (g_Predecessors g y). (\<exists>ps. walk g (g_Entry g) ps q) \<and> dominates g b q) \<and> \<not> (b \<noteq> y \<and> dominates g b y)"

lemma in_frontier_iff:
  assumes ok: "flow_ok g" and t: "dom_tree g (idom, has)" and b: "b \<in> set (g_RPO g)" and y: "y \<in> set (g_RPO g)" "y \<noteq> g_Entry g"
  shows "in_frontier g idom b y \<longleftrightarrow> frontier g b y"
proof -
  note sp = strict_parent [OF t y, unfolded fst_conv] and da = dom_treeD(6) [OF t, unfolded fst_conv]
  have "b \<in> block_set g idom y (g_Predecessors g y) \<longleftrightarrow>
      (\<exists>q \<in> set (g_Predecessors g y). q \<in> set (g_RPO g) \<and> anc (g_Entry g) ((!) idom) q b \<and> \<not> anc (g_Entry g) ((!) idom) (idom ! y) b)"
    using b flow_okD(6) [OF ok] by (auto simp: block_set_def run_set_def split: if_splits)
  also have "\<dots> \<longleftrightarrow> frontier g b y" unfolding frontier_def rpo_reachable [OF ok, symmetric] using sp da by blast
  finally have eq: "b \<in> block_set g idom y (g_Predecessors g y) \<longleftrightarrow> frontier g b y" .
  have "minPredecessorsForDF \<le> length (g_Predecessors g y)" if "frontier g b y"
  proof (rule ccontr)
    assume "\<not> minPredecessorsForDF \<le> length (g_Predecessors g y)"
    moreover obtain w where w: "w \<in> set (g_Predecessors g y)" "w \<in> set (g_RPO g)" "num g w < num g y" using earlier_pred [OF ok y] by blast
    ultimately have ps: "g_Predecessors g y = [w]" by (cases "g_Predecessors g y") (auto simp: Suc_le_eq)
    have bw: "dominates g b w" "\<not> (b \<noteq> y \<and> dominates g b y)" using that ps unfolding frontier_def by auto
    have "b \<in> set ps" if "walk g (g_Entry g) ps y" for ps
      using that y(2)
    proof (cases rule: walk.cases)
      case (walk_step qs v)
      then have "walk g (g_Entry g) qs w" using ps by (simp add: edge_def)
      then show ?thesis using bw(1) walk_step(1) by (auto simp: dominates_def)
    qed simp
    then have "dominates g y w" using bw by (auto simp: dominates_def)
    then have "anc (g_Entry g) ((!) idom) w y" using da [OF w(2)] by blast
    then show False using anc_in [OF dom_treeD(5) [OF t, unfolded fst_conv] w(2)] w(3) by fastforce
  qed
  then show ?thesis using eq by (auto simp: in_frontier_def)
qed

text \<open>
  What the code computes for all points. The entry, which is its own immediate dominator, ends the climb, and it
  is looked at only when it has two predecessors. A point that cannot be reached has no dominator; it gets
  the blocks it is a predecessor of.
\<close>

definition computed_frontier :: "Graph \<Rightarrow> nat \<Rightarrow> nat \<Rightarrow> bool" where
  "computed_frontier g b y \<longleftrightarrow>
     (if \<exists>ps. walk g (g_Entry g) ps b
      then frontier g b y \<and> (y = g_Entry g \<longrightarrow> b \<noteq> y \<and> minPredecessorsForDF \<le> length (g_Predecessors g y))
      else b \<in> set (g_Predecessors g y) \<and> minPredecessorsForDF \<le> length (g_Predecessors g y))"

lemma in_frontier_entry:
  assumes ok: "flow_ok g" and t: "dom_tree g (idom, has)" and b: "b \<in> set (g_RPO g)"
  shows "in_frontier g idom b (g_Entry g) \<longleftrightarrow>
    frontier g b (g_Entry g) \<and> b \<noteq> g_Entry g \<and> minPredecessorsForDF \<le> length (g_Predecessors g (g_Entry g))"
proof -
  note da = dom_treeD(6) [OF t, unfolded fst_conv] and e = dom_treeD(4) [OF t, unfolded fst_conv]
  have not_dom: "\<not> (b \<noteq> g_Entry g \<and> dominates g b (g_Entry g))"
    using walk.walk_start [of g "g_Entry g"] by (auto simp: dominates_def)
  have "b \<in> block_set g idom (g_Entry g) (g_Predecessors g (g_Entry g)) \<longleftrightarrow>
      (\<exists>q \<in> set (g_Predecessors g (g_Entry g)). q \<in> set (g_RPO g) \<and> dominates g b q) \<and> b \<noteq> g_Entry g"
    using b flow_okD(6) [OF ok] da by (auto simp: block_set_def run_set_def e anc_root split: if_splits)
  then show ?thesis using not_dom unfolding in_frontier_def frontier_def rpo_reachable [OF ok, symmetric] by blast
qed

lemma in_frontier_computed:
  assumes ok: "flow_ok g" and t: "dom_tree g (idom, has)" and b: "b < g_Size g" and y: "y \<in> set (g_RPO g)"
  shows "in_frontier g idom b y \<longleftrightarrow> computed_frontier g b y"
proof (cases "b \<in> set (g_RPO g)")
  case True
  then show ?thesis
    using in_frontier_iff [OF ok t True y] in_frontier_entry [OF ok t True] unfolding computed_frontier_def rpo_reachable [OF ok, symmetric]
    by (cases "y = g_Entry g") auto
next
  case False
  have "b \<notin> run_set g idom (idom ! y) q" if "q \<in> set (g_RPO g)" for q
    using anc_in [OF dom_treeD(5) [OF t, unfolded fst_conv] that] that False by (auto simp: run_set_def)
  then have "b \<in> block_set g idom y (g_Predecessors g y) \<longleftrightarrow> b \<in> set (g_Predecessors g y)"
    using b False by (auto simp: block_set_def run_set_def)
  then show ?thesis using False unfolding computed_frontier_def in_frontier_def rpo_reachable [OF ok, symmetric] by auto
qed

end
