(* ===== verification/DomProps.thy ===== *)
theory DomProps
  imports DomFrontier
begin

text \<open>
  What \<open>dominators.go\<close> computes for the graphs of \<open>cfg.go\<close>: dominators, the dominator tree, dominance
  frontiers, and post-dominators as the dominators of the reversed graph. The analyses are proved once
  for every graph that keeps the laws of the interface, in the locale \<open>flow_graph\<close>.
\<close>

section \<open>Results of the analysis\<close>

lemma fold_map_upd: "fold (\<lambda>p m. m(p \<mapsto> f p)) xs m = (\<lambda>p. if p \<in> set xs then Some (f p) else m p)"
  by (induction xs arbitrary: m) (auto simp: fun_eq_iff)

definition add_child :: "(nat \<rightharpoonup> nat) \<Rightarrow> nat \<Rightarrow> (nat \<rightharpoonup> nat list) \<Rightarrow> (nat \<rightharpoonup> nat list)" where
  "add_child idom n t = (case idom n of
      Some parent \<Rightarrow> if n \<noteq> parent then t(parent \<mapsto> (case t parent of Some cs \<Rightarrow> cs | None \<Rightarrow> []) @ [n]) else t
    | None \<Rightarrow> t)"

definition opt_list :: "'a list option \<Rightarrow> 'a list" where
  "opt_list x = (case x of Some xs \<Rightarrow> xs | None \<Rightarrow> [])"

lemma fold_add_child:
  "opt_list (fold (add_child idom) xs t p) = opt_list (t p) @ filter (\<lambda>n. n \<noteq> p \<and> idom n = Some p) xs"
proof (induction xs arbitrary: t)
  case (Cons n xs)
  have "opt_list (add_child idom n t p) = opt_list (t p) @ (if n \<noteq> p \<and> idom n = Some p then [n] else [])"
    by (auto simp: add_child_def opt_list_def split: option.splits)
  then show ?case using Cons [of "add_child idom n t"] by simp
qed (simp add: opt_list_def)

text \<open>The immediate dominators of a graph, as the map that is returned.\<close>

definition idom_map :: "Graph \<Rightarrow> idoms \<Rightarrow> nat \<rightharpoonup> nat" where
  "idom_map g st = (\<lambda>p. if p \<in> set (g_RPO g) then Some (fst st ! p) else None)"

lemma solved_points:
  assumes "flow_ok g" "solved g st"
  shows "filter (\<lambda>p. p < g_Size g \<and> snd st ! p) (g_RPO g) = g_RPO g" "remdups (g_RPO g) = g_RPO g"
proof -
  have "p < g_Size g \<and> snd st ! p" if "p \<in> set (g_RPO g)" for p
    using that assms flow_okD(6) [OF assms(1)] by (auto simp: solved_def defined_def)
  then show "filter (\<lambda>p. p < g_Size g \<and> snd st ! p) (g_RPO g) = g_RPO g" by simp
  show "remdups (g_RPO g) = g_RPO g" using flow_okD(5) [OF assms(1)] by simp
qed

lemma ComputeDominators_spec:
  assumes ok: "flow_ok g" and rng: "\<And>xs. mset (range_map xs) = mset xs"
  obtains st domTree where "immediate_dominators g (numbers g) = Some st" "solved g st"
    "ComputeDominators range_map g = Some (idom_map g st, domTree)"
    "\<And>p. opt_list (domTree p) = filter (\<lambda>n. n \<noteq> p \<and> idom_map g st n = Some p) (g_RPO g)"
proof -
  obtain idom has where s: "immediate_dominators g (numbers g) = Some (idom, has)" "solved g (idom, has)"
    using immediate_dominators_spec [OF ok] by auto
  let ?idom = "idom_map g (idom, has)"
  let ?t = "fold (add_child ?idom) (range_map (g_RPO g)) Map.empty"
  have im: "fold (\<lambda>p m. m(p \<mapsto> idom ! p)) (g_RPO g) Map.empty = ?idom" by (simp add: fold_map_upd idom_map_def fun_eq_iff)
  have ne: "g_RPO g \<noteq> []" "g_Size g \<noteq> 0" "\<not> g_Entry g \<ge> g_Size g" using flow_okD(1,3) [OF ok] by auto
  note pts = solved_points [OF ok s(2), unfolded snd_conv]
  have c: "ComputeDominators range_map g = Some (?idom, \<lambda>p. map_option (sort_points (numbers g)) (?t p))"
    unfolding ComputeDominators_def Let_def using ne s(1) by (simp add: pts im add_child_def [abs_def])
  have "opt_list (map_option (sort_points (numbers g)) (?t p)) = filter (\<lambda>n. n \<noteq> p \<and> ?idom n = Some p) (g_RPO g)" for p
  proof -
    have "opt_list (map_option (sort_points (numbers g)) (?t p)) = sort_points (numbers g) (opt_list (?t p))"
      by (cases "?t p") (simp_all add: opt_list_def sort_points_def)
    also have "opt_list (?t p) = filter (\<lambda>n. n \<noteq> p \<and> ?idom n = Some p) (range_map (g_RPO g))"
      unfolding fold_add_child by (simp add: opt_list_def)
    also have "sort_points (numbers g) \<dots> = filter (\<lambda>n. n \<noteq> p \<and> ?idom n = Some p) (g_RPO g)"
      by (rule sort_points_rpo [OF ok]) (simp add: rng)
    finally show ?thesis .
  qed
  then show ?thesis using that s c by blast
qed

lemma dominates_loop_spec:
  assumes t: "dom_tree g st" and b: "b \<in> set (g_RPO g)"
  shows "dominates_loop (idom_map g st) a b = Some (a \<noteq> b \<and> dominates g a b)"
  using b
proof (induction "num g b" arbitrary: b rule: less_induct)
  case less
  note T = dom_treeD(5) [OF t]
  have ib: "idom_map g st b = Some (fst st ! b)" using less.prems by (simp add: idom_map_def)
  show ?case
  proof (cases "b = g_Entry g")
    case True
    have "dominates g a b \<longleftrightarrow> a = b" using dom_treeD(6) [OF t less.prems, of a] True by (simp add: anc_root)
    then show ?thesis unfolding dominates_loop.simps [of _ a b] ib using dom_treeD(4) [OF t] True by simp
  next
    case False
    note p = treeD(3,4) [OF T less.prems False]
    have ne: "fst st ! b \<noteq> b" using p(2) by auto
    have sd: "a \<noteq> b \<and> dominates g a b \<longleftrightarrow> dominates g a (fst st ! b)"
      using strict_parent [OF t less.prems False, of a] dom_treeD(6) [OF t p(1), of a] by blast
    have "dominates g a (fst st ! b)" if "fst st ! b = a" using that dom_treeD(6) [OF t p(1), of a] by auto
    then show ?thesis
      unfolding dominates_loop.simps [of _ a b] ib sd using less.hyps [OF p(2,1)] ne by auto
  qed
qed

lemma Dominates_spec:
  assumes ok: "flow_ok g" and t: "dom_tree g st"
  shows "b \<in> set (g_RPO g) \<Longrightarrow> Dominates (idom_map g st) a b = Some (dominates g a b)"
    "b \<notin> set (g_RPO g) \<Longrightarrow> Dominates (idom_map g st) a b = Some (a = b)"
proof -
  show "Dominates (idom_map g st) a b = Some (dominates g a b)" if "b \<in> set (g_RPO g)"
    using dominates_loop_spec [OF t that, of a] dom_treeD(6) [OF t that, of b] by (auto simp: Dominates_def)
  show "Dominates (idom_map g st) a b = Some (a = b)" if "b \<notin> set (g_RPO g)"
    unfolding Dominates_def dominates_loop.simps [of _ a b] using that by (simp add: idom_map_def)
qed

text \<open>The arrays that \<open>ComputeDominanceFrontier\<close> makes from the map are as good as those of the iteration.\<close>

lemma frontier_arrays:
  assumes ok: "flow_ok g" and t: "dom_tree g st"
  shows "dom_tree g (map (\<lambda>p. case idom_map g st p of Some d \<Rightarrow> d | None \<Rightarrow> 0) [0..<g_Size g], map (\<lambda>p. idom_map g st p \<noteq> None) [0..<g_Size g])"
proof (rule dom_tree_cong [OF ok, of "fst st" "snd st"])
  show "defined (map (\<lambda>p. idom_map g st p \<noteq> None) [0..<g_Size g]) = set (g_RPO g)"
    using flow_okD(6) [OF ok] by (auto simp: defined_def idom_map_def split: if_splits)
  show "map (\<lambda>p. case idom_map g st p of Some d \<Rightarrow> d | None \<Rightarrow> 0) [0..<g_Size g] ! p = fst st ! p" if "p \<in> set (g_RPO g)" for p
    using that flow_okD(6) [OF ok that] by (simp add: idom_map_def)
qed (use t in simp_all)

lemma Frontier_spec:
  assumes ok: "flow_ok g" and t: "dom_tree g st" and b: "b < g_Size g"
  shows "opt_list (ComputeDominanceFrontier g (idom_map g st) b) = filter (computed_frontier g b) (g_RPO g)"
proof -
  let ?idom = "map (\<lambda>p. case idom_map g st p of Some d \<Rightarrow> d | None \<Rightarrow> 0) [0..<g_Size g]"
  have ne: "g_RPO g \<noteq> []" using flow_okD(3) [OF ok] .
  note fa = frontier_arrays [OF ok t]
  have "opt_list (ComputeDominanceFrontier g (idom_map g st) b) = filter (in_frontier g ?idom b) (g_RPO g)"
    using b ne dense_frontier_spec [OF ok fa b] unfolding ComputeDominanceFrontier_def Let_def by (auto simp: opt_list_def)
  also have "\<dots> = filter (computed_frontier g b) (g_RPO g)"
    by (rule filter_cong) (use in_frontier_computed [OF ok fa b] in auto)
  finally show ?thesis .
qed

section \<open>The dense arrays\<close>

definition add_dense :: "nat \<Rightarrow> nat list \<Rightarrow> bool list \<Rightarrow> nat \<Rightarrow> nat list list \<Rightarrow> nat list list" where
  "add_dense n idom has block t =
     (if n \<le> block \<or> \<not> has ! block then t
      else if block \<noteq> idom ! block \<and> idom ! block < n then t[idom ! block := t ! (idom ! block) @ [block]] else t)"

lemma fold_add_dense:
  assumes "\<forall>b \<in> set xs. b < n \<and> has ! b \<and> idom ! b < n"
  shows "length t = n \<Longrightarrow> length (fold (add_dense n idom has) xs t) = n \<and>
    (\<forall>p < n. fold (add_dense n idom has) xs t ! p = t ! p @ filter (\<lambda>b. b \<noteq> p \<and> idom ! b = p) xs)"
  using assms
proof (induction xs arbitrary: t)
  case (Cons b xs)
  have "length (add_dense n idom has b t) = n"
    "\<forall>p < n. add_dense n idom has b t ! p = t ! p @ (if b \<noteq> p \<and> idom ! b = p then [b] else [])"
    using Cons.prems by (auto simp: add_dense_def Let_def nth_list_update)
  then show ?case using Cons.IH [of "add_dense n idom has b t"] Cons.prems(2) by simp
qed simp

lemma frontier_arrays_same:
  assumes ok: "flow_ok g" and t: "dom_tree g (idom, has)" and t': "dom_tree g (idom', has')"
    and eq: "\<And>p. p \<in> set (g_RPO g) \<Longrightarrow> idom' ! p = idom ! p" and y: "y \<in> set (g_RPO g)"
  shows "in_frontier g idom' b y \<longleftrightarrow> in_frontier g idom b y"
proof -
  note T = dom_treeD(5) [OF t, unfolded fst_conv]
  have d: "idom ! y \<in> set (g_RPO g)" using treeD(3) [OF T y] dom_treeD(4) [OF t] y by (cases "y = g_Entry g") simp_all
  have "run_set g idom' (idom' ! y) q = run_set g idom (idom ! y) q" for q
    using anc_cong [OF T eq, of "idom ! y"] anc_cong [OF T eq, of q] d eq [OF y] by (auto simp: run_set_def)
  then show ?thesis by (simp add: in_frontier_def block_set_def)
qed

lemma Dense_spec:
  assumes ok: "flow_ok g" and s: "immediate_dominators g (numbers g) = Some st" "solved g st"
  obtains dense where "ComputeDomInfoDense g = Some dense"
    "\<And>p. p < g_Size g \<Longrightarrow> dense_tree dense ! p = filter (\<lambda>n. n \<noteq> p \<and> idom_map g st n = Some p) (g_RPO g)"
    "\<And>p. p < g_Size g \<Longrightarrow> dense_frontier dense ! p = opt_list (ComputeDominanceFrontier g (idom_map g st) p)"
proof -
  obtain idom has where st: "st = (idom, has)" by force
  have t: "dom_tree g (idom, has)" using solved_tree [OF ok s(2)] st by simp
  let ?tree = "fold (add_dense (g_Size g) idom has) (g_RPO g) (replicate (g_Size g) [])"
  define dense where "dense = \<lparr>dense_tree = map (sort_points (numbers g)) ?tree,
    dense_frontier = computeDominanceFrontierDense g (g_RPO g) (numbers g) (idom, has)\<rparr>"
  have c: "ComputeDomInfoDense g = Some dense"
    unfolding ComputeDomInfoDense_def Let_def dense_def using flow_okD(1,3) [OF ok] s(1)
    by (simp add: st add_dense_def [abs_def])
  have b: "\<forall>b \<in> set (g_RPO g). b < g_Size g \<and> has ! b \<and> idom ! b < g_Size g"
  proof
    fix b
    assume b: "b \<in> set (g_RPO g)"
    note T = dom_treeD(5) [OF t, unfolded fst_conv]
    have "idom ! b \<in> set (g_RPO g)" using treeD(3) [OF T b] dom_treeD(4) [OF t] b by (cases "b = g_Entry g") simp_all
    then show "b < g_Size g \<and> has ! b \<and> idom ! b < g_Size g"
      using b flow_okD(6) [OF ok] dom_treeD(3) [OF t] by (auto simp: st defined_def)
  qed
  note F = fold_add_dense [OF b, of "replicate (g_Size g) []"]
  have "dense_tree dense ! p = filter (\<lambda>n. n \<noteq> p \<and> idom_map g st n = Some p) (g_RPO g)" if "p < g_Size g" for p
  proof -
    have "dense_tree dense ! p = sort_points (numbers g) (filter (\<lambda>n. n \<noteq> p \<and> idom ! n = p) (g_RPO g))"
      using F that by (simp add: dense_def)
    also have "\<dots> = filter (\<lambda>n. n \<noteq> p \<and> idom ! n = p) (g_RPO g)" by (rule sort_points_rpo [OF ok refl])
    also have "\<dots> = filter (\<lambda>n. n \<noteq> p \<and> idom_map g st n = Some p) (g_RPO g)" by (rule filter_cong) (auto simp: idom_map_def st)
    finally show ?thesis .
  qed
  moreover have "dense_frontier dense ! p = opt_list (ComputeDominanceFrontier g (idom_map g st) p)" if p: "p < g_Size g" for p
  proof -
    let ?idom = "map (\<lambda>p. case idom_map g st p of Some d \<Rightarrow> d | None \<Rightarrow> 0) [0..<g_Size g]"
    let ?has = "map (\<lambda>p. idom_map g st p \<noteq> None) [0..<g_Size g]"
    have fa: "dom_tree g (?idom, ?has)" using frontier_arrays [OF ok t] by (simp add: st)
    note D = dense_frontier_spec [OF ok fa p]
    have "opt_list (ComputeDominanceFrontier g (idom_map g st) p) = filter (in_frontier g ?idom p) (g_RPO g)"
      using p flow_okD(3) [OF ok] D unfolding ComputeDominanceFrontier_def Let_def by (auto simp: opt_list_def)
    also have "\<dots> = filter (in_frontier g idom p) (g_RPO g)"
    proof (rule filter_cong [OF refl], rule frontier_arrays_same [OF ok t fa])
      show "?idom ! q = idom ! q" if "q \<in> set (g_RPO g)" for q using that flow_okD(6) [OF ok that] by (simp add: idom_map_def st)
    qed
    also have "\<dots> = dense_frontier dense ! p" using dense_frontier_spec(2) [OF ok t p] by (simp add: dense_def)
    finally show ?thesis by simp
  qed
  ultimately show ?thesis using that c by blast
qed

section \<open>The reversed graph\<close>

lemma reversed_ok:
  assumes ok: "flow_ok g"
  shows "flow_ok (reversedGraph g)"
proof -
  let ?next = "\<lambda>p. Some (g_Predecessors g p)"
  obtain vis order where o: "post_order (g_Size g) ?next (g_Exit g) = Some (vis, order)"
    using visit_Some [of "\<lambda>_. True" ?next "[g_Exit g]" "(replicate (g_Size g) False, [])"] by (auto simp: post_order_def)
  have r: "g_RPO (reversedGraph g) = rev order" by (simp add: reversedGraph_def reversed_RPO_def o)
  have f: "g_Entry (reversedGraph g) = g_Exit g" "g_Exit (reversedGraph g) = g_Entry g" "g_Size (reversedGraph g) = g_Size g"
    "g_Predecessors (reversedGraph g) = g_Successors g" "g_Successors (reversedGraph g) = g_Predecessors g"
    by (simp_all add: reversedGraph_def)
  have n: "next_set ?next u = set (g_Predecessors g u)" for u by (simp add: next_set_def)
  note R = rpo_laws [OF o flow_okD(2) [OF ok], unfolded n]
  show ?thesis unfolding flow_ok_def f r flow_okD(9) [OF ok] using R flow_okD(1,2) [OF ok] by blast
qed

lemma walk_reverse:
  assumes "\<And>u v. edge g' u v \<longleftrightarrow> edge g v u" "walk g u ps v"
  shows "walk g' v (rev ps) u"
  using assms(2)
proof (induction rule: walk.induct)
  case (walk_start u)
  then show ?case using walk.walk_start [of g' u] by simp
next
  case (walk_step u ps v w)
  have "walk g' w ([w] @ [v]) v" by (rule walk.walk_step [OF walk.walk_start]) (simp add: assms(1) walk_step)
  from walk_append [OF walk_step.IH this] have "walk g' w ([w, v] @ tl (rev ps)) u" by simp
  moreover have "[w, v] @ tl (rev ps) = rev (ps @ [w])" using walk_ends [OF walk_step.hyps(1)] by (cases ps rule: rev_cases) auto
  ultimately show ?case by simp
qed

lemma reversed_edge: "flow_ok g \<Longrightarrow> edge (reversedGraph g) u v \<longleftrightarrow> edge g v u"
  using flow_okD(9) [of g u v] by (auto simp: edge_def reversedGraph_def)

text \<open>A point post-dominates another when every walk from it to the exit comes by.\<close>

definition post_dominates :: "Graph \<Rightarrow> nat \<Rightarrow> nat \<Rightarrow> bool" where
  "post_dominates g a b \<longleftrightarrow> (\<forall>ps. walk g b ps (g_Exit g) \<longrightarrow> a \<in> set ps)"

lemma reversed_walk:
  assumes "flow_ok g"
  shows "walk (reversedGraph g) u ps v \<longleftrightarrow> walk g v (rev ps) u"
  using walk_reverse [of g "reversedGraph g" u ps v] walk_reverse [of "reversedGraph g" g v "rev ps" u] reversed_edge [OF assms] by auto

lemma reversed_dominates:
  assumes "flow_ok g"
  shows "dominates (reversedGraph g) a b \<longleftrightarrow> post_dominates g a b"
proof -
  have e: "g_Entry (reversedGraph g) = g_Exit g" by (simp add: reversedGraph_def)
  show ?thesis unfolding dominates_def post_dominates_def e reversed_walk [OF assms] by (metis rev_rev_ident set_rev)
qed

section \<open>The analyses of an interface\<close>

text \<open>A provider of graphs promises the laws of the interface.\<close>

locale flow_graph =
  fixes ok :: "'g \<Rightarrow> bool" and graph :: "'g \<Rightarrow> Graph"
  assumes laws: "ok c \<Longrightarrow> flow_ok (graph c)"
begin

lemma dominators:
  assumes "ok c" "\<And>xs. mset (range_map xs) = mset xs"
  shows "\<exists>idom domTree. ComputeDominators range_map (graph c) = Some (idom, domTree) \<and>
    (\<forall>a b. Dominates idom a b = Some (if \<exists>ps. walk (graph c) (g_Entry (graph c)) ps b then dominates (graph c) a b else a = b)) \<and>
    (\<forall>p. opt_list (domTree p) = filter (\<lambda>n. n \<noteq> p \<and> idom n = Some p) (g_RPO (graph c)))"
proof -
  note g = laws [OF assms(1)]
  obtain st domTree where s: "solved (graph c) st" "ComputeDominators range_map (graph c) = Some (idom_map (graph c) st, domTree)"
    "\<And>p. opt_list (domTree p) = filter (\<lambda>n. n \<noteq> p \<and> idom_map (graph c) st n = Some p) (g_RPO (graph c))"
    using ComputeDominators_spec [OF g assms(2)] by blast
  have "Dominates (idom_map (graph c) st) a b = Some (if \<exists>ps. walk (graph c) (g_Entry (graph c)) ps b then dominates (graph c) a b else a = b)" for a b
    using Dominates_spec [OF g solved_tree [OF g s(1)], of b a] rpo_reachable [OF g, of b] by auto
  then show ?thesis using s(2,3) by blast
qed

lemma immediate:
  assumes "ok c" "\<And>xs. mset (range_map xs) = mset xs" "ComputeDominators range_map (graph c) = Some (idom, domTree)"
  shows "dom idom = {p. \<exists>ps. walk (graph c) (g_Entry (graph c)) ps p}"
    "idom b = Some d \<Longrightarrow> b \<noteq> g_Entry (graph c) \<Longrightarrow>
      d \<noteq> b \<and> dominates (graph c) d b \<and> (\<forall>a. a \<noteq> b \<and> dominates (graph c) a b \<longrightarrow> dominates (graph c) a d)"
proof -
  note g = laws [OF assms(1)]
  obtain st where s: "solved (graph c) st" "idom = idom_map (graph c) st"
    by (rule ComputeDominators_spec [OF g assms(2)]) (use assms(3) in auto)
  note t = solved_tree [OF g s(1)]
  show "dom idom = {p. \<exists>ps. walk (graph c) (g_Entry (graph c)) ps p}"
    unfolding s(2) rpo_reachable [OF g, symmetric] by (auto simp: idom_map_def split: if_splits)
  show "d \<noteq> b \<and> dominates (graph c) d b \<and> (\<forall>a. a \<noteq> b \<and> dominates (graph c) a b \<longrightarrow> dominates (graph c) a d)"
    if d: "idom b = Some d" and b: "b \<noteq> g_Entry (graph c)"
  proof -
    have m: "b \<in> set (g_RPO (graph c))" "d = fst st ! b" using d by (auto simp: s(2) idom_map_def split: if_splits)
    note p = treeD(3,4) [OF dom_treeD(5) [OF t] m(1) b]
    show ?thesis using strict_parent [OF t m(1) b] dom_treeD(6) [OF t p(1)] unfolding m(2) by blast
  qed
qed

lemma frontiers:
  assumes "ok c" "\<And>xs. mset (range_map xs) = mset xs"
  shows "\<exists>info dense. ComputeDomInfo range_map (graph c) = Some info \<and> ComputeDomInfoDense (graph c) = Some dense \<and>
    (\<forall>b < g_Size (graph c). opt_list (DominanceFrontier info b) = filter (computed_frontier (graph c) b) (g_RPO (graph c))) \<and>
    (\<forall>p < g_Size (graph c). dense_tree dense ! p = opt_list (DominatorTree info p) \<and>
      dense_frontier dense ! p = opt_list (DominanceFrontier info p))"
proof -
  note g = laws [OF assms(1)]
  obtain st domTree where s: "immediate_dominators (graph c) (numbers (graph c)) = Some st" "solved (graph c) st"
    "ComputeDominators range_map (graph c) = Some (idom_map (graph c) st, domTree)"
    "\<And>p. opt_list (domTree p) = filter (\<lambda>n. n \<noteq> p \<and> idom_map (graph c) st n = Some p) (g_RPO (graph c))"
    by (rule ComputeDominators_spec [OF g assms(2)]) blast
  obtain dense where d: "ComputeDomInfoDense (graph c) = Some dense"
    "\<And>p. p < g_Size (graph c) \<Longrightarrow> dense_tree dense ! p = filter (\<lambda>n. n \<noteq> p \<and> idom_map (graph c) st n = Some p) (g_RPO (graph c))"
    "\<And>p. p < g_Size (graph c) \<Longrightarrow> dense_frontier dense ! p = opt_list (ComputeDominanceFrontier (graph c) (idom_map (graph c) st) p)"
    by (rule Dense_spec [OF g s(1,2)]) blast
  obtain info where i: "ComputeDomInfo range_map (graph c) = Some info" "DominatorTree info = domTree"
    "DominanceFrontier info = ComputeDominanceFrontier (graph c) (idom_map (graph c) st)"
    by (simp add: ComputeDomInfo_def s(3))
  show ?thesis
    using i d s(4) Frontier_spec [OF g solved_tree [OF g s(2)]] by force
qed

end

text \<open>The graphs that a program builds keep the laws, and so do their reversals.\<close>

lemma built_graph: "built c \<Longrightarrow> \<exists>g. CFG_Graph c = Some g \<and> flow_ok g"
  using CFG_graph_ok built_ok by blast

interpretation cfg: flow_graph built "\<lambda>c. the (CFG_Graph c)"
  by unfold_locales (use built_graph in fastforce)

interpretation rev_cfg: flow_graph built "\<lambda>c. reversedGraph (the (CFG_Graph c))"
  by unfold_locales (rule reversed_ok [OF cfg.laws])

section \<open>Properties\<close>

text \<open>
  C2: For every graph that a program builds the iteration ends, and \<open>Dominates\<close> on its result answers whether
  every walk from the entry to a point comes by another, for every point that can be reached; for the
  others it answers whether the points are equal. Maps may be ranged over in any order.
\<close>

theorem dominators_correct:
  assumes "built c" "CFG_Graph c = Some g" "\<forall>xs. mset (range_map xs) = mset xs"
  shows "\<exists>idom domTree. ComputeDominators range_map g = Some (idom, domTree) \<and>
    (\<forall>a b. Dominates idom a b = Some (if \<exists>ps. walk g (g_Entry g) ps b then dominates g a b else a = b)) \<and>
    (\<forall>a b. StrictlyDominates idom a b = Some (a \<noteq> b \<and> (\<exists>ps. walk g (g_Entry g) ps b) \<and> dominates g a b))"
proof -
  obtain idom domTree where c: "ComputeDominators range_map g = Some (idom, domTree)"
    and d: "\<And>a b. Dominates idom a b = Some (if \<exists>ps. walk g (g_Entry g) ps b then dominates g a b else a = b)"
    using cfg.dominators [OF assms(1), of range_map] assms(2,3) by auto
  have "StrictlyDominates idom a b = Some (a \<noteq> b \<and> (\<exists>ps. walk g (g_Entry g) ps b) \<and> dominates g a b)" for a b
    by (simp add: StrictlyDominates_def d)
  then show ?thesis using c d by blast
qed

text \<open>The graph of the witnesses.\<close>

definition edge_view :: Graph where "edge_view = the (CFG_Graph edge_graph)"

lemma edge_view: "CFG_Graph edge_graph = Some edge_view"
  using built_graph [OF edge_graph_built] by (auto simp: edge_view_def)

theorem dominators_correct_witness:
  "\<exists>idom domTree. ComputeDominators id edge_view = Some (idom, domTree) \<and> Dominates idom 0 0 = Some True"
  using dominators_correct [OF edge_graph_built edge_view, of id] by (auto simp: Dominates_def)

text \<open>
  The result of \<open>ComputeDominators\<close> has the points that can be reached from the entry, and
  for each of them but the entry the immediate dominator: it dominates the point, and every other dominator of the
  point dominates it. The children in the dominator tree are the points with that immediate
  dominator, in reverse post-order.
\<close>

theorem immediate_dominators_correct:
  assumes "built c" "CFG_Graph c = Some g" "\<forall>xs. mset (range_map xs) = mset xs" "ComputeDominators range_map g = Some (idom, domTree)"
  shows "dom idom = {p. \<exists>ps. walk g (g_Entry g) ps p} \<and>
    (\<forall>b d. idom b = Some d \<and> b \<noteq> g_Entry g \<longrightarrow>
      d \<noteq> b \<and> dominates g d b \<and> (\<forall>a. a \<noteq> b \<and> dominates g a b \<longrightarrow> dominates g a d)) \<and>
    (\<forall>p. opt_list (domTree p) = filter (\<lambda>n. n \<noteq> p \<and> idom n = Some p) (g_RPO g))"
proof -
  have g: "the (CFG_Graph c) = g" using assms(2) by simp
  have m: "mset (range_map xs) = mset xs" for xs using assms(3) by blast
  note I = cfg.immediate [OF assms(1) m, unfolded g, OF assms(4)]
  have "\<forall>p. opt_list (domTree p) = filter (\<lambda>n. n \<noteq> p \<and> idom n = Some p) (g_RPO g)"
    using cfg.dominators [OF assms(1) m, unfolded g] assms(4) by simp
  then show ?thesis using I by blast
qed

theorem immediate_dominators_correct_witness:
  "\<exists>idom domTree. ComputeDominators id edge_view = Some (idom, domTree) \<and> dom idom = {p. \<exists>ps. walk edge_view (g_Entry edge_view) ps p}"
proof -
  obtain idom domTree where c: "ComputeDominators id edge_view = Some (idom, domTree)"
    using cfg.dominators [OF edge_graph_built, of id] by (auto simp: edge_view)
  then show ?thesis using immediate_dominators_correct [OF edge_graph_built edge_view _ c] by auto
qed

text \<open>
  C16: The dominance frontier that is computed for a point \<open>b\<close> has, in reverse post-order and each once, the
  points \<open>y\<close> with a reachable predecessor that \<open>b\<close> dominates and that \<open>b\<close> does not strictly dominate
  itself. There are two departures. The entry counts for a point other than itself, and only
  if it has two predecessors; and a point that cannot be reached gets the points of which it is a
  predecessor and that have another one. The dense variant computes the same tree and the same
  frontiers, also when the 32-bit epoch of its marks wraps around.
\<close>

theorem dominance_frontier_exact:
  assumes "built c" "CFG_Graph c = Some g" "\<forall>xs. mset (range_map xs) = mset xs"
  shows "\<exists>info dense. ComputeDomInfo range_map g = Some info \<and> ComputeDomInfoDense g = Some dense \<and>
    (\<forall>b < g_Size g. opt_list (DominanceFrontier info b) = filter (\<lambda>y.
       if \<exists>ps. walk g (g_Entry g) ps b
       then (\<exists>q \<in> set (g_Predecessors g y). (\<exists>ps. walk g (g_Entry g) ps q) \<and> dominates g b q) \<and> \<not> (b \<noteq> y \<and> dominates g b y)
         \<and> (y = g_Entry g \<longrightarrow> b \<noteq> y \<and> 2 \<le> length (g_Predecessors g y))
       else b \<in> set (g_Predecessors g y) \<and> 2 \<le> length (g_Predecessors g y)) (g_RPO g)) \<and>
    (\<forall>p < g_Size g. dense_tree dense ! p = opt_list (DominatorTree info p) \<and>
      dense_frontier dense ! p = opt_list (DominanceFrontier info p))"
proof -
  have g: "the (CFG_Graph c) = g" using assms(2) by simp
  have m: "mset (range_map xs) = mset xs" for xs using assms(3) by blast
  have "computed_frontier g b = (\<lambda>y. if \<exists>ps. walk g (g_Entry g) ps b
       then (\<exists>q \<in> set (g_Predecessors g y). (\<exists>ps. walk g (g_Entry g) ps q) \<and> dominates g b q) \<and> \<not> (b \<noteq> y \<and> dominates g b y)
         \<and> (y = g_Entry g \<longrightarrow> b \<noteq> y \<and> 2 \<le> length (g_Predecessors g y))
       else b \<in> set (g_Predecessors g y) \<and> 2 \<le> length (g_Predecessors g y))" for b
    by (rule ext) (auto simp: computed_frontier_def frontier_def)
  then show ?thesis using cfg.frontiers [OF assms(1) m, unfolded g] by (simp only:)
qed

theorem dominance_frontier_exact_witness:
  "\<exists>info dense. ComputeDomInfo id edge_view = Some info \<and> ComputeDomInfoDense edge_view = Some dense \<and>
    (\<forall>p < g_Size edge_view. dense_tree dense ! p = opt_list (DominatorTree info p))"
  using dominance_frontier_exact [OF edge_graph_built edge_view, of id] by auto

text \<open>
  C27: \<open>PostDominates\<close> on the dominators of the reversed graph answers whether every walk from a point to the
  exit comes by another, for every point from which the exit can be reached.
\<close>

theorem post_dominators_correct:
  assumes "built c" "CFG_Graph c = Some g" "\<forall>xs. mset (range_map xs) = mset xs"
  shows "\<exists>postIdom domTree. ComputePostDominators range_map g = Some (postIdom, domTree) \<and>
    (\<forall>a b. (\<exists>ps. walk g b ps (g_Exit g)) \<longrightarrow> PostDominates postIdom a b = Some (post_dominates g a b))"
proof -
  have g: "the (CFG_Graph c) = g" using assms(2) by simp
  have ok: "flow_ok g" using cfg.laws [OF assms(1)] unfolding g .
  have m: "mset (range_map xs) = mset xs" for xs using assms(3) by blast
  have e: "g_Entry (reversedGraph g) = g_Exit g" by (simp add: reversedGraph_def)
  have w: "\<exists>ps. walk (reversedGraph g) (g_Exit g) ps b" if "walk g b ps (g_Exit g)" for b ps
    using that reversed_walk [OF ok, of "g_Exit g" "rev ps" b] by auto
  show ?thesis
    using rev_cfg.dominators [OF assms(1) m, unfolded g e reversed_dominates [OF ok]] w
    unfolding ComputePostDominators_def PostDominates_def by fastforce
qed

theorem post_dominators_correct_witness:
  "\<exists>postIdom domTree. ComputePostDominators id edge_view = Some (postIdom, domTree) \<and> PostDominates postIdom 1 1 = Some True"
  using post_dominators_correct [OF edge_graph_built edge_view, of id] by (auto simp: PostDominates_def Dominates_def)

end
