(* ===== verification/Paths.thy ===== *)
theory Paths
  imports Integers "HOL-Library.Char_ord" "HOL-Library.List_Lexorder"
begin

text \<open>
  Access paths, the identity mechanism of type narrowing (\<open>types/constraint/path.go\<close>,
  \<open>types/constraint/path_helpers.go\<close>), and the decimal parser they use
  (\<open>types/numparse/numparse.go\<close>). A path is a root, which is an SSA symbol with a version or a
  textual placeholder, and a list of field and index steps. The lemmas show that \<open>Equal\<close> is an
  equivalence that the hash respects, that a canonical key identifies a path, that placeholder
  names and their indices correspond, and which pairs \<open>Less\<close> orders.

  A Go string is its list of bytes, one \<open>char\<close> each; Go compares strings bytewise, which is the
  lexicographic order of the lists. A Go \<open>int\<close> is an \<open>int\<close> of 64 bits.
\<close>

section \<open>Decimal numbers\<close>

definition digit_char :: "nat \<Rightarrow> char" where
  "digit_char d = char_of (48 + d)"

fun format_nat :: "nat \<Rightarrow> string" where
  "format_nat n = (if n < 10 then [digit_char n] else format_nat (n div 10) @ [digit_char (n mod 10)])"

declare format_nat.simps [simp del]

text \<open>\<open>strconv.Itoa\<close>, and \<open>strconv.FormatUint\<close> in base 10 on the value of the word.\<close>

definition Itoa :: "int \<Rightarrow> string" where
  "Itoa i = (if i < 0 then CHR ''-'' # format_nat (nat (- i)) else format_nat (nat i))"

definition is_digit :: "char \<Rightarrow> bool" where
  "is_digit c \<longleftrightarrow> 48 \<le> (of_char c :: nat) \<and> (of_char c :: nat) \<le> 57"

fun parse_digits :: "int \<Rightarrow> string \<Rightarrow> int option" where
  "parse_digits v [] = Some v"
| "parse_digits v (ch # s) =
     (if \<not> is_digit ch then None
      else let digit = of_char ch - 48 in
        if v > (MaxInt64 - digit) div 10 then None
        else parse_digits (wrap64 (wrap64 (v * 10) + digit)) s)"

definition ParseNonNegativeDecimalInt :: "string \<Rightarrow> int option" where
  "ParseNonNegativeDecimalInt s = (if s = [] then None else parse_digits 0 s)"

section \<open>Paths\<close>

datatype SegmentKind = SegmentField | SegmentIndexString | SegmentIndexInt

fun segment_kind_ord :: "SegmentKind \<Rightarrow> nat" where
  "segment_kind_ord SegmentField = 0"
| "segment_kind_ord SegmentIndexString = 1"
| "segment_kind_ord SegmentIndexInt = 2"

record Segment =
  SegKind :: SegmentKind
  SegName :: string
  SegIndex :: int

record Path =
  Root :: string
  Symbol :: u64
  Segments :: "Segment list"
  Version :: int

definition empty_path :: Path where
  "empty_path = \<lparr>Root = [], Symbol = 0, Segments = [], Version = 0\<rparr>"

definition path_IsEmpty :: "Path \<Rightarrow> bool" where
  "path_IsEmpty p \<longleftrightarrow> Root p = [] \<and> Symbol p = 0"

definition HasSymbol :: "Path \<Rightarrow> bool" where
  "HasSymbol p \<longleftrightarrow> Symbol p \<noteq> 0"

definition NewPath :: "u64 \<Rightarrow> string \<Rightarrow> Path" where
  "NewPath symbol name = \<lparr>Root = name, Symbol = symbol, Segments = [], Version = 0\<rparr>"

definition NewPlaceholder :: "int \<Rightarrow> Path" where
  "NewPlaceholder index =
     (if index < 0 then empty_path
      else \<lparr>Root = CHR ''$'' # Itoa index, Symbol = 0, Segments = [], Version = 0\<rparr>)"

definition Append :: "Path \<Rightarrow> Segment \<Rightarrow> Path" where
  "Append p seg = (if path_IsEmpty p then empty_path else p\<lparr>Segments := Segments p @ [seg]\<rparr>)"

definition Field :: "Path \<Rightarrow> string \<Rightarrow> Path" where
  "Field p name = Append p \<lparr>SegKind = SegmentField, SegName = name, SegIndex = 0\<rparr>"

definition IndexStr :: "Path \<Rightarrow> string \<Rightarrow> Path" where
  "IndexStr p key = Append p \<lparr>SegKind = SegmentIndexString, SegName = key, SegIndex = 0\<rparr>"

definition IndexInt :: "Path \<Rightarrow> int \<Rightarrow> Path" where
  "IndexInt p index = Append p \<lparr>SegKind = SegmentIndexInt, SegName = [], SegIndex = index\<rparr>"

definition path_Parent :: "Path \<Rightarrow> Path" where
  "path_Parent p = (if Segments p = [] then empty_path else p\<lparr>Segments := butlast (Segments p)\<rparr>)"

definition LastSegment :: "Path \<Rightarrow> Segment option" where
  "LastSegment p = (if Segments p = [] then None else Some (last (Segments p)))"

definition IsFieldAccess :: "Path \<Rightarrow> bool" where
  "IsFieldAccess p = (if Segments p = [] then False else SegKind (last (Segments p)) = SegmentField)"

definition FieldName :: "Path \<Rightarrow> string" where
  "FieldName p =
     (case LastSegment p of
        Some seg \<Rightarrow> if SegKind seg = SegmentField then SegName seg else []
      | None \<Rightarrow> [])"

section \<open>Keys and display\<close>

fun quote_key :: "string \<Rightarrow> string" where
  "quote_key [] = []"
| "quote_key (c # key) =
     (if c = CHR 0x5C \<or> c = CHR 0x22 then CHR 0x5C # c # quote_key key else c # quote_key key)"

definition writeQuotedPathIndex :: "string \<Rightarrow> string" where
  "writeQuotedPathIndex key = [CHR ''['', CHR 0x22] @ quote_key key @ [CHR 0x22, CHR '']'']"

fun FormatSegments :: "Segment list \<Rightarrow> string" where
  "FormatSegments [] = []"
| "FormatSegments (seg # segs) =
     (case SegKind seg of
        SegmentField \<Rightarrow> CHR ''.'' # SegName seg
      | SegmentIndexString \<Rightarrow> writeQuotedPathIndex (SegName seg)
      | SegmentIndexInt \<Rightarrow> CHR ''['' # Itoa (SegIndex seg) @ '']'') @ FormatSegments segs"

definition FormatUint :: "u64 \<Rightarrow> string" where
  "FormatUint n = format_nat (unat n)"

definition path_Key :: "Path \<Rightarrow> string" where
  "path_Key p =
     (if path_IsEmpty p then []
      else (if Symbol p \<noteq> 0
            then ''sym'' @ FormatUint (Symbol p) @
                 (if Version p \<noteq> 0 then CHR ''@'' # Itoa (Version p) else [])
            else Root p)
           @ FormatSegments (Segments p))"

fun display_segments :: "Segment list \<Rightarrow> string" where
  "display_segments [] = []"
| "display_segments (seg # segs) =
     (case SegKind seg of
        SegmentField \<Rightarrow> CHR ''.'' # SegName seg
      | SegmentIndexString \<Rightarrow> CHR ''['' # SegName seg @ '']''
      | SegmentIndexInt \<Rightarrow> CHR ''['' # Itoa (SegIndex seg) @ '']'') @ display_segments segs"

definition path_String :: "Path \<Rightarrow> string" where
  "path_String p =
     (if Root p = [] \<and> Symbol p = 0 then []
      else (if Root p \<noteq> [] then Root p else ''$sym'' @ FormatUint (Symbol p))
           @ display_segments (Segments p))"

definition DisplayRoot :: "Path \<Rightarrow> (u64 \<Rightarrow> string) option \<Rightarrow> string" where
  "DisplayRoot p nameResolver =
     (case nameResolver of
        Some resolve \<Rightarrow>
          if Symbol p \<noteq> 0 \<and> resolve (Symbol p) \<noteq> [] then resolve (Symbol p) else Root p
      | None \<Rightarrow> Root p)"

section \<open>Identity, hash and order\<close>

fun segments_equal :: "Segment list \<Rightarrow> Segment list \<Rightarrow> bool" where
  "segments_equal (a # as) (b # bs) =
     (if SegKind a \<noteq> SegKind b \<or> SegName a \<noteq> SegName b \<or> SegIndex a \<noteq> SegIndex b then False
      else segments_equal as bs)"
| "segments_equal _ _ = True"

definition path_Equal :: "Path \<Rightarrow> Path \<Rightarrow> bool" where
  "path_Equal p q =
     (if (Symbol p \<noteq> 0 \<or> Symbol q \<noteq> 0) \<and> Symbol p \<noteq> Symbol q then False
      else if (Symbol p \<noteq> 0 \<or> Symbol q \<noteq> 0) \<and> Version p \<noteq> Version q then False
      else if \<not> (Symbol p \<noteq> 0 \<or> Symbol q \<noteq> 0) \<and> Root p \<noteq> Root q then False
      else if length (Segments p) \<noteq> length (Segments q) then False
      else segments_equal (Segments p) (Segments q))"

definition str_bytes :: "string \<Rightarrow> u8 list" where
  "str_bytes s = map of_char s"

fun hash_segments :: "u64 \<Rightarrow> Segment list \<Rightarrow> u64" where
  "hash_segments h [] = h"
| "hash_segments h (seg # segs) =
     (let h = HashCombine h (of_nat (segment_kind_ord (SegKind seg))) in
      case SegKind seg of
        SegmentField \<Rightarrow> hash_segments (HashCombine h (FnvString (str_bytes (SegName seg)))) segs
      | SegmentIndexString \<Rightarrow> hash_segments (HashCombine h (FnvString (str_bytes (SegName seg)))) segs
      | SegmentIndexInt \<Rightarrow> hash_segments (HashCombine h (of_int (SegIndex seg))) segs)"

definition path_Hash :: "Path \<Rightarrow> u64" where
  "path_Hash p =
     (if Root p = [] \<and> Symbol p = 0 then 0
      else hash_segments
        (if Symbol p \<noteq> 0 then HashCombine (HashCombine 0 (Symbol p)) (of_int (Version p))
         else FnvString (str_bytes (Root p)))
        (Segments p))"

fun segments_less :: "Segment list \<Rightarrow> Segment list \<Rightarrow> bool" where
  "segments_less (a # as) (b # bs) =
     (if SegKind a \<noteq> SegKind b then segment_kind_ord (SegKind a) < segment_kind_ord (SegKind b)
      else if SegName a \<noteq> SegName b then SegName a < SegName b
      else if SegIndex a \<noteq> SegIndex b then SegIndex a < SegIndex b
      else segments_less as bs)"
| "segments_less _ _ = False"

definition path_Less :: "Path \<Rightarrow> Path \<Rightarrow> bool" where
  "path_Less p q =
     (if (Symbol p \<noteq> 0 \<and> Symbol q \<noteq> 0) \<and> Symbol p \<noteq> Symbol q then Symbol p < Symbol q
      else if (Symbol p \<noteq> 0 \<and> Symbol q \<noteq> 0) \<and> Version p \<noteq> Version q then Version p < Version q
      else if \<not> (Symbol p \<noteq> 0 \<and> Symbol q \<noteq> 0) \<and> Root p \<noteq> Root q then Root p < Root q
      else if length (Segments p) \<noteq> length (Segments q)
        then length (Segments p) < length (Segments q)
      else segments_less (Segments p) (Segments q))"

section \<open>Placeholders\<close>

definition has_prefix :: "string \<Rightarrow> string \<Rightarrow> bool" where
  "has_prefix s pre \<longleftrightarrow> take (length pre) s = pre"

definition has_suffix :: "string \<Rightarrow> string \<Rightarrow> bool" where
  "has_suffix s suf \<longleftrightarrow> length suf \<le> length s \<and> drop (length s - length suf) s = suf"

definition parseNonNegativeDecimal :: "string \<Rightarrow> int" where
  "parseNonNegativeDecimal s =
     (case ParseNonNegativeDecimalInt s of None \<Rightarrow> -1 | Some v \<Rightarrow> v)"

text \<open>\<open>s[i:j]\<close> of a Go string, for bounds that are in range.\<close>

definition slice_of :: "nat \<Rightarrow> nat \<Rightarrow> string \<Rightarrow> string" where
  "slice_of i j s = take (j - i) (drop i s)"

definition PlaceholderIndexFromString :: "string \<Rightarrow> int" where
  "PlaceholderIndexFromString s =
     (if length s \<ge> 2 \<and> s ! 0 = CHR ''$'' then parseNonNegativeDecimal (drop 1 s)
      else if has_prefix s ''param['' \<and> has_suffix s '']''
        then parseNonNegativeDecimal (slice_of 6 (length s - 1) s)
      else -1)"

definition ParamPath :: "int \<Rightarrow> Path" where
  "ParamPath index = NewPlaceholder index"

definition RetPath :: "int \<Rightarrow> Path" where
  "RetPath index =
     (if index < 0 then empty_path
      else \<lparr>Root = ''ret['' @ Itoa index @ '']'', Symbol = 0, Segments = [], Version = 0\<rparr>)"

definition ReturnIndexFromString :: "string \<Rightarrow> int" where
  "ReturnIndexFromString s =
     (if has_prefix s ''ret['' \<and> has_suffix s '']''
      then parseNonNegativeDecimal (slice_of 4 (length s - 1) s)
      else -1)"

definition IsReturnPath :: "Path \<Rightarrow> bool" where
  "IsReturnPath p \<longleftrightarrow> Symbol p = 0 \<and> length (Segments p) = 0 \<and> ReturnIndexFromString (Root p) \<ge> 0"

definition PlaceholderIndex :: "Path \<Rightarrow> int" where
  "PlaceholderIndex p = PlaceholderIndexFromString (Root p)"

definition IsPlaceholder :: "Path \<Rightarrow> bool" where
  "IsPlaceholder p \<longleftrightarrow> Symbol p = 0 \<and> PlaceholderIndex p \<ge> 0"

definition ValidateSymbol :: "Path \<Rightarrow> string" where
  "ValidateSymbol p =
     (if path_IsEmpty p then []
      else if IsPlaceholder p then []
      else if Symbol p = 0 \<and> Root p \<noteq> [] then ''resolved path missing Symbol: '' @ Root p
      else [])"

definition PlaceholderArgIndex :: "Path \<Rightarrow> nat \<Rightarrow> nat option" where
  "PlaceholderArgIndex path argCount =
     (if \<not> IsPlaceholder path then None
      else let idx = PlaceholderIndex path in
        if idx < 0 \<or> idx \<ge> int argCount then None else Some (nat idx))"

definition path_Substitute :: "Path \<Rightarrow> Path list \<Rightarrow> Path option" where
  "path_Substitute p args =
     (if path_IsEmpty p then None
      else if \<not> IsPlaceholder p then Some p
      else let idx = PlaceholderIndex p in
        if idx \<ge> int (length args) then None
        else let argPath = args ! nat idx in
          if path_IsEmpty argPath then None
          else Some (argPath\<lparr>Segments := Segments argPath @ Segments p\<rparr>))"

section \<open>Decimal round trip\<close>

lemma digit_char_props:
  assumes "d < 10"
  shows "is_digit (digit_char d)" and "(of_char (digit_char d) :: int) - 48 = int d"
proof -
  have n: "(of_char (digit_char d) :: nat) = 48 + d"
    using assms by (simp add: digit_char_def)
  then show "is_digit (digit_char d)" using assms by (simp add: is_digit_def)
  have "(of_char (digit_char d) :: int) = int (of_char (digit_char d))" by (simp only: of_nat_of_char)
  with n show "(of_char (digit_char d) :: int) - 48 = int d" by simp
qed

text \<open>The number a string of digits denotes.\<close>

definition decimal_value :: "string \<Rightarrow> int" where
  "decimal_value s = foldl (\<lambda>v c. v * 10 + (of_char c - 48)) 0 s"

lemma decimal_value_foldl:
  "foldl (\<lambda>v c. v * 10 + (of_char c - 48)) v s = v * 10 ^ length s + decimal_value s"
  unfolding decimal_value_def
proof (induction s arbitrary: v)
  case (Cons c s)
  show ?case
    using Cons [of "v * 10 + (of_char c - 48)"] Cons [of "of_char c - 48"] by (simp add: algebra_simps)
qed simp

lemma decimal_value_simps [simp]:
  "decimal_value [] = 0"
  "decimal_value (c # s) = (of_char c - 48) * 10 ^ length s + decimal_value s"
  "decimal_value (s @ [c]) = decimal_value s * 10 + (of_char c - 48)"
  using decimal_value_foldl [of "of_char c - 48" s] by (simp_all add: decimal_value_def)

lemma digit_value:
  "is_digit c \<Longrightarrow> 0 \<le> (of_char c :: int) - 48 \<and> (of_char c :: int) - 48 \<le> 9"
proof -
  assume "is_digit c"
  then have "48 \<le> int (of_char c)" "int (of_char c) \<le> 57" by (simp_all add: is_digit_def del: of_nat_of_char)
  then show ?thesis unfolding of_nat_of_char by linarith
qed

lemma decimal_value_nonneg: "list_all is_digit s \<Longrightarrow> 0 \<le> decimal_value s"
proof (induction s)
  case (Cons c s)
  then show ?case using digit_value [of c] by simp
qed simp

lemma parse_digits_spec:
  assumes "0 \<le> v" "v \<le> MaxInt64"
  shows "parse_digits v s =
    (if list_all is_digit s \<and> v * 10 ^ length s + decimal_value s \<le> MaxInt64
     then Some (v * 10 ^ length s + decimal_value s) else None)"
  using assms
proof (induction s arbitrary: v)
  case (Cons c s)
  show ?case
  proof (cases "is_digit c")
    case False
    then show ?thesis by simp
  next
    case digit: True
    define d :: int where "d = of_char c - 48"
    have d: "0 \<le> d" "d \<le> 9" using digit_value [OF digit] by (simp_all add: d_def)
    show ?thesis
    proof (cases "v > (MaxInt64 - d) div 10")
      case True
      then have big: "v * 10 + d > MaxInt64" by linarith
      have "list_all is_digit s \<Longrightarrow> v * 10 ^ length (c # s) + decimal_value (c # s) > MaxInt64"
      proof -
        assume a: "list_all is_digit s"
        have "(v * 10 + d) * 1 \<le> (v * 10 + d) * 10 ^ length s"
          by (rule mult_left_mono) (use Cons.prems d in auto)
        then show ?thesis using decimal_value_nonneg [OF a] big by (simp add: d_def algebra_simps)
      qed
      with True digit show ?thesis by (auto simp: Let_def d_def)
    next
      case False
      then have small: "v * 10 + d \<le> MaxInt64" by linarith
      have "is_int64 (v * 10)" "is_int64 (v * 10 + d)"
        using small Cons.prems d by (simp_all add: is_int64_def)
      then have "parse_digits v (c # s) = parse_digits (v * 10 + d) s"
        using False digit by (simp add: Let_def d_def)
      also have "\<dots> = (if list_all is_digit s \<and> (v * 10 + d) * 10 ^ length s + decimal_value s \<le> MaxInt64
          then Some ((v * 10 + d) * 10 ^ length s + decimal_value s) else None)"
        using Cons.IH [of "v * 10 + d"] small Cons.prems d by simp
      finally show ?thesis using digit by (simp add: d_def algebra_simps)
    qed
  qed
qed simp

lemma parse_decimal_spec:
  "ParseNonNegativeDecimalInt s =
     (if s \<noteq> [] \<and> list_all is_digit s \<and> decimal_value s \<le> MaxInt64 then Some (decimal_value s) else None)"
  using parse_digits_spec [of 0 s] by (simp add: ParseNonNegativeDecimalInt_def)

lemma format_nat_props:
  "format_nat n \<noteq> [] \<and> list_all is_digit (format_nat n) \<and> decimal_value (format_nat n) = int n"
proof (induction n rule: format_nat.induct)
  case (1 n)
  show ?case
  proof (cases "n < 10")
    case True
    then show ?thesis using digit_char_props [of n] by (simp add: format_nat.simps [of n])
  next
    case False
    have "int (n div 10) * 10 + int (n mod 10) = int (n div 10 * 10 + n mod 10)"
      by (simp only: of_nat_add of_nat_mult of_nat_numeral)
    with False show ?thesis
      using 1 digit_char_props [of "n mod 10"] by (simp add: format_nat.simps [of n])
  qed
qed

lemmas format_nat_digits = format_nat_props [THEN conjunct2, THEN conjunct1]
lemmas format_nat_value = format_nat_props [THEN conjunct2, THEN conjunct2]
lemmas format_nat_nonempty [simp] = format_nat_props [THEN conjunct1]

lemma format_nat_inj [simp]: "format_nat m = format_nat n \<longleftrightarrow> m = n"
  by (metis format_nat_value of_nat_eq_iff)

lemma parse_Itoa: "0 \<le> i \<Longrightarrow> i \<le> MaxInt64 \<Longrightarrow> ParseNonNegativeDecimalInt (Itoa i) = Some i"
  by (simp add: parse_decimal_spec Itoa_def format_nat_digits format_nat_value)

lemma minus_not_digit: "\<not> is_digit (CHR ''-'')" by (simp add: is_digit_def)

lemma Itoa_inj [simp]: "Itoa i = Itoa j \<longleftrightarrow> i = j"
proof
  have no: "format_nat n \<noteq> CHR ''-'' # s" "CHR ''-'' # s \<noteq> format_nat n" for n s
    using format_nat_digits [of n] minus_not_digit by (metis list.pred_inject(2))+
  assume e: "Itoa i = Itoa j"
  show "i = j"
  proof (cases "i < 0")
    case True
    then show ?thesis using e no by (auto simp: Itoa_def split: if_splits)
  next
    case False
    then show ?thesis using e no by (auto simp: Itoa_def split: if_splits)
  qed
qed simp

section \<open>Identity\<close>

lemma segments_equal_iff: "length as = length bs \<Longrightarrow> segments_equal as bs \<longleftrightarrow> as = bs"
  by (induction as bs rule: segments_equal.induct) auto

text \<open>What identifies a path: the symbol with its version, or the placeholder text, and the steps.\<close>

definition path_root :: "Path \<Rightarrow> (u64 \<times> int) + string" where
  "path_root p = (if Symbol p \<noteq> 0 then Inl (Symbol p, Version p) else Inr (Root p))"

lemma path_Equal_iff: "path_Equal p q \<longleftrightarrow> path_root p = path_root q \<and> Segments p = Segments q"
  by (auto simp: path_Equal_def path_root_def segments_equal_iff split: if_splits)

lemma path_Equal_refl [simp]: "path_Equal p p" by (simp add: path_Equal_iff)

lemma path_Equal_sym: "path_Equal p q \<longleftrightarrow> path_Equal q p" by (auto simp: path_Equal_iff)

lemma path_Equal_trans: "path_Equal p q \<Longrightarrow> path_Equal q r \<Longrightarrow> path_Equal p r"
  by (simp add: path_Equal_iff)

lemma path_Equal_Hash: "path_Equal p q \<Longrightarrow> path_Hash p = path_Hash q"
  by (auto simp: path_Equal_iff path_root_def path_Hash_def split: if_splits)

lemma path_Equal_IsEmpty: "path_Equal p q \<Longrightarrow> path_IsEmpty p = path_IsEmpty q"
  by (auto simp: path_Equal_iff path_root_def path_IsEmpty_def split: if_splits)

lemma path_Equal_Key: "path_Equal p q \<Longrightarrow> path_Key p = path_Key q"
  by (auto simp: path_Equal_iff path_root_def path_Key_def path_IsEmpty_def split: if_splits)

section \<open>Keys identify paths\<close>

text \<open>Field names that cannot be confused with the start of the next step, as Lua identifiers are.\<close>

definition seg_ok :: "Segment \<Rightarrow> bool" where
  "seg_ok s \<longleftrightarrow>
     (case SegKind s of
        SegmentField \<Rightarrow> list_all (\<lambda>c. c \<noteq> CHR ''.'' \<and> c \<noteq> CHR ''['') (SegName s) \<and> SegIndex s = 0
      | SegmentIndexString \<Rightarrow> SegIndex s = 0
      | SegmentIndexInt \<Rightarrow> SegName s = [])"

definition path_ok :: "Path \<Rightarrow> bool" where
  "path_ok p \<longleftrightarrow>
     (Symbol p \<noteq> 0 \<or> (\<exists>n. Root p = CHR ''$'' # format_nat n)) \<and> list_all seg_ok (Segments p)"

definition starts_step :: "string \<Rightarrow> bool" where
  "starts_step s \<longleftrightarrow> s = [] \<or> hd s = CHR ''.'' \<or> hd s = CHR ''[''"

lemma starts_step_Format: "starts_step (FormatSegments segs)"
  by (cases segs) (auto simp: starts_step_def writeQuotedPathIndex_def split: SegmentKind.splits)

text \<open>A prefix over one class of characters ends where the class does.\<close>

lemma append_unique:
  assumes "list_all P xs" "list_all P ys" "us = [] \<or> \<not> P (hd us)" "vs = [] \<or> \<not> P (hd vs)" "xs @ us = ys @ vs"
  shows "xs = ys \<and> us = vs"
proof -
  have "takeWhile P (xs @ us) = xs" "takeWhile P (ys @ vs) = ys"
    using assms(1-4) by (auto simp: takeWhile_append list_all_iff takeWhile_eq_Nil_iff)
  with assms(5) show ?thesis by auto
qed

lemma quote_key_unique:
  "quote_key a @ CHR 0x22 # us = quote_key b @ CHR 0x22 # vs \<Longrightarrow> a = b \<and> us = vs"
proof (induction a arbitrary: b)
  case Nil
  then show ?case by (cases b) (auto split: if_splits)
next
  case (Cons c a)
  then show ?case by (cases b) (auto split: if_splits)
qed

definition itoa_char :: "char \<Rightarrow> bool" where
  "itoa_char c \<longleftrightarrow> is_digit c \<or> c = CHR ''-''"

lemma Itoa_chars: "list_all itoa_char (Itoa i)" "Itoa i \<noteq> []"
proof -
  have "list_all itoa_char (format_nat n)" for n
    using format_nat_digits [of n] by (auto simp: list_all_iff itoa_char_def)
  then show "list_all itoa_char (Itoa i)" by (simp add: Itoa_def itoa_char_def)
qed (simp add: Itoa_def)

lemma itoa_char_not [simp]:
  "\<not> itoa_char (CHR '']'')" "\<not> itoa_char (CHR ''['')" "\<not> itoa_char (CHR ''.'')" "\<not> itoa_char (CHR 0x22)"
  "\<not> is_digit (CHR ''@'')" "\<not> is_digit (CHR ''.'')" "\<not> is_digit (CHR ''['')"
  by (simp_all add: itoa_char_def is_digit_def)

lemma Itoa_hd: "itoa_char (hd (Itoa i @ s))"
  using Itoa_chars [of i] by (cases "Itoa i") auto

lemma FormatSegments_inj:
  assumes "list_all seg_ok as" "list_all seg_ok bs" "FormatSegments as = FormatSegments bs"
  shows "as = bs"
  using assms
proof (induction as arbitrary: bs)
  case Nil
  then show ?case by (cases bs) (auto simp: writeQuotedPathIndex_def split: SegmentKind.splits)
next
  case (Cons a as)
  from Cons.prems obtain b bs' where bs: "bs = b # bs'"
    by (cases bs) (auto simp: writeQuotedPathIndex_def split: SegmentKind.splits)
  have ok: "seg_ok a" "seg_ok b" "list_all seg_ok as" "list_all seg_ok bs'"
    using Cons.prems bs by auto
  have step: "FormatSegments as = FormatSegments bs' \<Longrightarrow> as = bs'"
    using Cons.IH ok by blast
  have ne: "Itoa i @ s \<noteq> CHR 0x22 # t" "CHR 0x22 # t \<noteq> Itoa i @ s" for i s t
    using Itoa_hd [of i s] by (metis itoa_char_not(4) list.sel(1))+
  have e: "FormatSegments (a # as) = FormatSegments (b # bs')" using Cons.prems bs by simp
  have "SegKind a = SegKind b \<and> SegName a = SegName b \<and> SegIndex a = SegIndex b \<and> as = bs'"
  proof (cases "SegKind a")
    case SegmentField
    then have kb: "SegKind b = SegmentField"
      using e by (auto simp: writeQuotedPathIndex_def split: SegmentKind.splits)
    have "SegName a = SegName b \<and> FormatSegments as = FormatSegments bs'"
    proof (rule append_unique [where P = "\<lambda>c. c \<noteq> CHR ''.'' \<and> c \<noteq> CHR ''[''"])
      show "SegName a @ FormatSegments as = SegName b @ FormatSegments bs'"
        using e SegmentField kb by simp
    qed (use ok SegmentField kb starts_step_Format [of as] starts_step_Format [of bs'] in
        \<open>auto simp: seg_ok_def starts_step_def\<close>)
    then show ?thesis using step ok SegmentField kb by (simp add: seg_ok_def)
  next
    case SegmentIndexString
    then have kb: "SegKind b = SegmentIndexString"
      using e ne by (auto simp: writeQuotedPathIndex_def split: SegmentKind.splits)
    have "SegName a = SegName b \<and> CHR '']'' # FormatSegments as = CHR '']'' # FormatSegments bs'"
      by (rule quote_key_unique) (use e SegmentIndexString kb in \<open>simp add: writeQuotedPathIndex_def\<close>)
    then show ?thesis using step ok SegmentIndexString kb by (simp add: seg_ok_def)
  next
    case SegmentIndexInt
    then have kb: "SegKind b = SegmentIndexInt"
      using e ne by (auto simp: writeQuotedPathIndex_def split: SegmentKind.splits)
    have "Itoa (SegIndex a) = Itoa (SegIndex b) \<and> CHR '']'' # FormatSegments as = CHR '']'' # FormatSegments bs'"
      by (rule append_unique [where P = itoa_char])
        (use e SegmentIndexInt kb Itoa_chars in auto)
    then show ?thesis using step ok SegmentIndexInt kb by (simp add: seg_ok_def)
  qed
  then show ?case using bs by simp
qed

lemma step_not_at: "FormatSegments segs \<noteq> CHR ''@'' # s" "CHR ''@'' # s \<noteq> FormatSegments segs"
proof -
  show "FormatSegments segs \<noteq> CHR ''@'' # s"
    using starts_step_Format [of segs] by (auto simp: starts_step_def)
  then show "CHR ''@'' # s \<noteq> FormatSegments segs" by metis
qed

lemma step_not_digit:
  "FormatSegments segs = [] \<or> \<not> is_digit (hd (FormatSegments segs))"
  "FormatSegments segs = [] \<or> \<not> itoa_char (hd (FormatSegments segs))"
  using starts_step_Format [of segs] by (auto simp: starts_step_def)

definition version_suffix :: "int \<Rightarrow> string" where
  "version_suffix v = (if v \<noteq> 0 then CHR ''@'' # Itoa v else [])"

lemma version_suffix_unique:
  assumes "version_suffix v @ FormatSegments as = version_suffix w @ FormatSegments bs"
  shows "v = w \<and> FormatSegments as = FormatSegments bs"
proof (cases "v \<noteq> 0 \<and> w \<noteq> 0")
  case True
  then have e: "Itoa v @ FormatSegments as = Itoa w @ FormatSegments bs"
    using assms by (simp add: version_suffix_def)
  have "Itoa v = Itoa w \<and> FormatSegments as = FormatSegments bs"
    by (rule append_unique [where P = itoa_char, OF Itoa_chars(1) Itoa_chars(1) step_not_digit(2) step_not_digit(2) e])
  then show ?thesis by simp
next
  case False
  then show ?thesis using assms step_not_at by (auto simp: version_suffix_def split: if_splits)
qed

lemma path_Key_root:
  assumes "path_ok p" "path_ok q" "path_Key p = path_Key q"
  shows "path_root p = path_root q \<and> FormatSegments (Segments p) = FormatSegments (Segments q)"
proof (cases "Symbol p \<noteq> 0 \<and> Symbol q \<noteq> 0")
  case True
  let ?u = "version_suffix (Version p) @ FormatSegments (Segments p)"
  let ?v = "version_suffix (Version q) @ FormatSegments (Segments q)"
  have e: "FormatUint (Symbol p) @ ?u = FormatUint (Symbol q) @ ?v"
    using assms(3) True by (simp add: path_Key_def path_IsEmpty_def version_suffix_def)
  have nd: "version_suffix v @ FormatSegments segs = [] \<or> \<not> is_digit (hd (version_suffix v @ FormatSegments segs))"
    for v segs using step_not_digit(1) [of segs] by (simp add: version_suffix_def)
  have "FormatUint (Symbol p) = FormatUint (Symbol q) \<and> ?u = ?v"
    by (rule append_unique [where P = is_digit, OF _ _ nd nd e]) (simp_all add: FormatUint_def format_nat_digits)
  then show ?thesis
    using version_suffix_unique True by (auto simp: path_root_def FormatUint_def dest: unsigned_word_eqI)
next
  case False
  have mixed: "Symbol p = 0 \<and> Symbol q = 0"
    using False assms by (auto simp: path_Key_def path_IsEmpty_def path_ok_def split: if_splits)
  then obtain m n where r: "Root p = CHR ''$'' # format_nat m" "Root q = CHR ''$'' # format_nat n"
    using assms(1,2) by (auto simp: path_ok_def)
  then have e: "format_nat m @ FormatSegments (Segments p) = format_nat n @ FormatSegments (Segments q)"
    using assms(3) mixed by (simp add: path_Key_def path_IsEmpty_def)
  have "format_nat m = format_nat n \<and> FormatSegments (Segments p) = FormatSegments (Segments q)"
    by (rule append_unique [where P = is_digit, OF format_nat_digits format_nat_digits step_not_digit(1) step_not_digit(1) e])
  then show ?thesis using mixed r by (simp add: path_root_def)
qed

text \<open>
  C35: the key of a path is its identity: for resolved paths and placeholders whose field names
  hold no \<open>.\<close> and no \<open>[\<close>, as Lua identifiers do not, two paths have the same key exactly when
  \<open>Equal\<close> says they are the same, and equal paths have equal hashes.
\<close>

theorem path_key_identity:
  assumes "path_ok p" "path_ok q"
  shows "(path_Key p = path_Key q \<longleftrightarrow> path_Equal p q) \<and> (path_Equal p q \<longrightarrow> path_Hash p = path_Hash q)"
proof -
  have "path_Equal p q" if k: "path_Key p = path_Key q"
  proof -
    have "Segments p = Segments q"
      using path_Key_root [OF assms k] assms FormatSegments_inj by (auto simp: path_ok_def)
    with path_Key_root [OF assms k] show ?thesis by (simp add: path_Equal_iff)
  qed
  then show ?thesis by (blast dest: path_Equal_Key path_Equal_Hash)
qed

theorem path_key_identity_witness:
  "path_Key (Field (NewPath 5 ''x'') ''name'') = path_Key (Field (NewPath 5 ''y'') ''name'')
     \<longleftrightarrow> path_Equal (Field (NewPath 5 ''x'') ''name'') (Field (NewPath 5 ''y'') ''name'')"
  using path_key_identity [of "Field (NewPath 5 ''x'') ''name''" "Field (NewPath 5 ''y'') ''name''"]
  by (simp add: path_ok_def Field_def Append_def path_IsEmpty_def NewPath_def seg_ok_def)

section \<open>Placeholder names\<close>

lemma has_suffix_snoc [simp]: "has_suffix (s @ [c]) [c]" "has_suffix (c' # s @ [c]) [c]"
  by (simp_all add: has_suffix_def)

lemma parseNonNegativeDecimal_Itoa:
  "0 \<le> i \<Longrightarrow> i \<le> MaxInt64 \<Longrightarrow> parseNonNegativeDecimal (Itoa i) = i"
  by (simp add: parseNonNegativeDecimal_def parse_Itoa)

lemma parseNonNegativeDecimal_spec:
  "parseNonNegativeDecimal s =
     (if s \<noteq> [] \<and> list_all is_digit s \<and> decimal_value s \<le> MaxInt64 then decimal_value s else -1)"
  by (simp add: parseNonNegativeDecimal_def parse_decimal_spec)

lemma PlaceholderIndex_dollar:
  "PlaceholderIndexFromString (CHR ''$'' # s) = parseNonNegativeDecimal s"
  by (cases s) (simp_all add: PlaceholderIndexFromString_def has_prefix_def parseNonNegativeDecimal_spec)

lemma PlaceholderIndex_param:
  "PlaceholderIndexFromString (''param['' @ s @ '']'') = parseNonNegativeDecimal s"
  by (simp add: PlaceholderIndexFromString_def has_prefix_def slice_of_def has_suffix_def)

lemma ReturnIndex_ret: "ReturnIndexFromString (''ret['' @ s @ '']'') = parseNonNegativeDecimal s"
  by (simp add: ReturnIndexFromString_def has_prefix_def slice_of_def has_suffix_def)

text \<open>The strings that denote a placeholder: \<open>$N\<close> and \<open>param[N]\<close> with \<open>N\<close> a decimal \<open>int\<close>.\<close>

lemma PlaceholderIndex_cases:
  assumes "PlaceholderIndexFromString s \<ge> 0"
  obtains d where "s = CHR ''$'' # d \<or> s = ''param['' @ d @ '']''"
    and "PlaceholderIndexFromString s = parseNonNegativeDecimal d"
proof (cases "length s \<ge> 2 \<and> s ! 0 = CHR ''$''")
  case True
  then have "s = CHR ''$'' # drop 1 s" by (cases s) auto
  then show ?thesis using PlaceholderIndex_dollar that by metis
next
  case False
  then have pre: "has_prefix s ''param[''" and suf: "has_suffix s '']''"
    using assms by (auto simp: PlaceholderIndexFromString_def split: if_splits)
  from suf have s: "s = butlast s @ '']''"
    by (metis append_butlast_last_id has_suffix_def append_take_drop_id butlast_conv_take length_Cons
        list.size(3) One_nat_def)
  have "length s \<noteq> 6"
    using pre suf by (auto simp: has_prefix_def has_suffix_def dest: arg_cong [where f = last])
  moreover have "length s \<ge> 6"
    using pre by (auto simp: has_prefix_def dest: arg_cong [where f = length])
  ultimately have "take 6 (butlast s) = ''param[''"
    using pre by (simp add: has_prefix_def take_butlast eval_nat_numeral)
  then have "s = ''param['' @ drop 6 (butlast s) @ '']''"
    using s by (metis append_assoc append_take_drop_id)
  then show ?thesis using PlaceholderIndex_param that by metis
qed

text \<open>
  decimal placeholder indices are parsed exactly: a string parses iff it is a non-empty run of
  digits whose value fits a 64-bit \<open>int\<close>, and the result is that value; so the names built for
  parameter \<open>i\<close> and return slot \<open>i\<close> read back as \<open>i\<close>, and neither is taken for the other.
\<close>

theorem placeholder_names_roundtrip:
  assumes "0 \<le> i" "i \<le> MaxInt64"
  shows "(ParseNonNegativeDecimalInt s =
            (if s \<noteq> [] \<and> list_all is_digit s \<and> decimal_value s \<le> MaxInt64
             then Some (decimal_value s) else None))
       \<and> PlaceholderIndex (ParamPath i) = i \<and> IsPlaceholder (ParamPath i)
       \<and> \<not> IsReturnPath (ParamPath i)
       \<and> ReturnIndexFromString (Root (RetPath i)) = i \<and> IsReturnPath (RetPath i)
       \<and> \<not> IsPlaceholder (RetPath i)"
proof -
  have param: "Root (ParamPath i) = CHR ''$'' # Itoa i" "Symbol (ParamPath i) = 0"
    using assms by (simp_all add: ParamPath_def NewPlaceholder_def)
  have ret: "Root (RetPath i) = ''ret['' @ Itoa i @ '']''" "Symbol (RetPath i) = 0" "Segments (RetPath i) = []"
    using assms by (simp_all add: RetPath_def)
  have 1: "PlaceholderIndex (ParamPath i) = i"
    using assms param by (simp add: PlaceholderIndex_def PlaceholderIndex_dollar parseNonNegativeDecimal_Itoa)
  have 2: "ReturnIndexFromString (Root (RetPath i)) = i"
    using assms by (simp only: ret ReturnIndex_ret parseNonNegativeDecimal_Itoa)
  have 3: "ReturnIndexFromString (Root (ParamPath i)) = -1"
    by (simp add: param ReturnIndexFromString_def has_prefix_def)
  have 4: "PlaceholderIndexFromString (Root (RetPath i)) = -1"
    by (simp add: ret PlaceholderIndexFromString_def has_prefix_def)
  show ?thesis
    using assms 1 2 3 4 param ret by (simp add: parse_decimal_spec IsPlaceholder_def IsReturnPath_def PlaceholderIndex_def)
qed

theorem placeholder_names_roundtrip_witness:
  "PlaceholderIndex (ParamPath 12) = 12 \<and> ReturnIndexFromString (Root (RetPath 12)) = 12
     \<and> ParseNonNegativeDecimalInt ''012'' = Some 12"
  using placeholder_names_roundtrip [of 12 "''012''"] by (simp add: is_digit_def)

section \<open>Order\<close>

lemma segments_less_asym: "length as = length bs \<Longrightarrow> segments_less as bs \<Longrightarrow> \<not> segments_less bs as"
  by (induction as bs rule: segments_less.induct) (auto split: if_splits)

lemma segments_less_total: "length as = length bs \<Longrightarrow> as \<noteq> bs \<Longrightarrow> segments_less as bs \<or> segments_less bs as"
proof (induction as bs rule: segments_less.induct)
  case (1 a as b bs)
  have "SegKind a \<noteq> SegKind b \<Longrightarrow> segment_kind_ord (SegKind a) \<noteq> segment_kind_ord (SegKind b)"
    by (cases "SegKind a"; cases "SegKind b") auto
  with 1 show ?case by (auto simp: neq_iff)
qed auto

lemma segments_less_trans:
  "length as = length bs \<Longrightarrow> length bs = length cs \<Longrightarrow> segments_less as bs \<Longrightarrow> segments_less bs cs
     \<Longrightarrow> segments_less as cs"
proof (induction as bs arbitrary: cs rule: segments_less.induct)
  case (1 a as b bs)
  then obtain c cs' where cs: "cs = c # cs'" by (cases cs) auto
  from 1 show ?case unfolding cs by (auto split: if_splits)
qed auto

text \<open>
  \<open>Less\<close> compares symbols only when both paths have one, and the display text otherwise. On paths
  that all have a symbol, or all have none, it is a strict total order on identities.
\<close>

definition same_root_kind :: "Path \<Rightarrow> Path \<Rightarrow> bool" where
  "same_root_kind p q \<longleftrightarrow> (Symbol p = 0 \<longleftrightarrow> Symbol q = 0)"

definition segs_before :: "Segment list \<Rightarrow> Segment list \<Rightarrow> bool" where
  "segs_before as bs \<longleftrightarrow> length as < length bs \<or> length as = length bs \<and> segments_less as bs"

lemma segs_before_asym: "segs_before as bs \<Longrightarrow> \<not> segs_before bs as"
  using segments_less_asym by (auto simp: segs_before_def)

lemma segs_before_irrefl [simp]: "\<not> segs_before as as"
  using segs_before_asym by blast

lemma segs_before_total: "as \<noteq> bs \<Longrightarrow> segs_before as bs \<or> segs_before bs as"
  using segments_less_total [of as bs] by (auto simp: segs_before_def)

lemma segs_before_trans: "segs_before as bs \<Longrightarrow> segs_before bs cs \<Longrightarrow> segs_before as cs"
  using segments_less_trans [of as bs cs] by (auto simp: segs_before_def)

lemma path_Less_symbols:
  "Symbol p \<noteq> 0 \<Longrightarrow> Symbol q \<noteq> 0 \<Longrightarrow> path_Less p q \<longleftrightarrow>
     Symbol p < Symbol q \<or> Symbol p = Symbol q \<and>
       (Version p < Version q \<or> Version p = Version q \<and> segs_before (Segments p) (Segments q))"
  by (simp add: path_Less_def segs_before_def)

lemma path_Less_roots:
  "Symbol p = 0 \<or> Symbol q = 0 \<Longrightarrow> path_Less p q \<longleftrightarrow>
     Root p < Root q \<or> Root p = Root q \<and> segs_before (Segments p) (Segments q)"
  by (auto simp: path_Less_def segs_before_def)

lemmas path_Less_iff = path_Less_symbols path_Less_roots

lemma path_Less_asym: "path_Less p q \<Longrightarrow> \<not> path_Less q p"
proof (cases "Symbol p = 0 \<or> Symbol q = 0")
  case True
  then have "Symbol q = 0 \<or> Symbol p = 0" by blast
  note roots = path_Less_roots [OF True] path_Less_roots [OF this]
  assume "path_Less p q"
  then show ?thesis unfolding roots using segs_before_asym by (metis less_asym)
next
  case False
  then have ne: "Symbol p \<noteq> 0" "Symbol q \<noteq> 0" by simp_all
  note symbols = path_Less_symbols [OF ne] path_Less_symbols [OF ne(2,1)]
  assume "path_Less p q"
  then show ?thesis unfolding symbols using segs_before_asym by (metis less_asym)
qed

lemma path_Less_total:
  "same_root_kind p q \<Longrightarrow> \<not> path_Equal p q \<Longrightarrow> path_Less p q \<or> path_Less q p"
  using segs_before_total [of "Segments p" "Segments q"]
  by (cases "Symbol p = 0"; cases "Symbol q = 0")
    (auto simp: path_Less_iff path_Equal_iff path_root_def same_root_kind_def)

lemma path_Less_not_Equal: "same_root_kind p q \<Longrightarrow> path_Equal p q \<Longrightarrow> \<not> path_Less p q"
  by (cases "Symbol p = 0"; cases "Symbol q = 0")
    (simp_all add: path_Less_iff path_Equal_iff path_root_def same_root_kind_def)

lemma path_Less_trans:
  assumes "same_root_kind p q" "same_root_kind q r" "path_Less p q" "path_Less q r"
  shows "path_Less p r"
  using assms segs_before_trans [of "Segments p" "Segments q" "Segments r"]
  by (cases "Symbol p = 0") (auto simp: path_Less_iff same_root_kind_def)

text \<open>Across the two kinds it is not transitive: a symbol can come after a placeholder it precedes.\<close>

lemma path_Less_cycle:
  "\<exists>p q r. path_Less p q \<and> path_Less q r \<and> path_Less r p"
proof -
  let ?p = "NewPath 1 ''z''" and ?q = "NewPath 2 ''a''" and ?r = "NewPath 0 ''m''"
  have "path_Less ?p ?q" "path_Less ?q ?r" "path_Less ?r ?p"
    by (simp_all add: path_Less_def NewPath_def less_char_def)
  then show ?thesis by blast
qed

end
