(* ===== verification/Constraints.thy ===== *)
theory Constraints
  imports Paths Values
begin

text \<open>
  Narrowing constraints (\<open>types/constraint/constraint.go\<close>), the type keys they carry
  (\<open>types/narrow/type_key.go\<close>), the path traversals \<open>types/constraint/path_visit.go\<close> and
  \<open>types/constraint/path_map.go\<close>, and the literal types of \<open>types/typ/literal.go\<close>, which are
  values of the interface \<open>typ.Type\<close> that constraints compare. The lemmas show that \<open>Equals\<close> is
  an equivalence respected by \<open>Hash\<close> and \<open>Kind\<close>, that the endpoints of an equality are put in a
  canonical order, and which paths the traversals reach.

  The interface \<open>typ.Type\<close> is a type parameter with the record of the methods that the constraints
  call; \<open>nil\<close> is \<open>None\<close>. Constraints are Go values, never boxed pointers.
\<close>

section \<open>The type interface\<close>

record 'ty type_methods =
  ty_String :: "'ty \<Rightarrow> string"
  ty_Hash :: "'ty \<Rightarrow> u64"
  ty_Equals :: "'ty \<Rightarrow> 'ty \<Rightarrow> bool"

section \<open>Type keys\<close>

datatype TypeKeyKind = TypeKeyInvalid | TypeKeyBuiltin | TypeKeyHash

record TypeKey =
  tk_Kind :: TypeKeyKind
  tk_Name :: string
  tk_Hash :: u64

definition zero_type_key :: TypeKey where
  "zero_type_key = \<lparr>tk_Kind = TypeKeyInvalid, tk_Name = [], tk_Hash = 0\<rparr>"

definition BuiltinTypeKey :: "string \<Rightarrow> TypeKey" where
  "BuiltinTypeKey name =
     (if name = [] then zero_type_key else \<lparr>tk_Kind = TypeKeyBuiltin, tk_Name = name, tk_Hash = 0\<rparr>)"

definition HashTypeKey :: "u64 \<Rightarrow> TypeKey" where
  "HashTypeKey hash =
     (if hash = 0 then zero_type_key else \<lparr>tk_Kind = TypeKeyHash, tk_Name = [], tk_Hash = hash\<rparr>)"

definition tk_IsZero :: "TypeKey \<Rightarrow> bool" where
  "tk_IsZero k \<longleftrightarrow> tk_Kind k = TypeKeyInvalid"

definition Hash64 :: "TypeKey \<Rightarrow> u64" where
  "Hash64 k =
     (case tk_Kind k of
        TypeKeyBuiltin \<Rightarrow> HashCombine 1 (FnvString (str_bytes (tk_Name k)))
      | TypeKeyHash \<Rightarrow> HashCombine 2 (tk_Hash k)
      | TypeKeyInvalid \<Rightarrow> 0)"

definition tk_Equal :: "TypeKey \<Rightarrow> TypeKey \<Rightarrow> bool" where
  "tk_Equal k other \<longleftrightarrow> tk_Kind k = tk_Kind other \<and> tk_Name k = tk_Name other \<and> tk_Hash k = tk_Hash other"

section \<open>Constraint terms\<close>

datatype 'ty Constraint =
    Truthy Path
  | Falsy Path
  | IsNil Path
  | NotNil Path
  | HasType Path TypeKey
  | NotHasType Path TypeKey
  | HasField Path string
  | FieldEquals Path string "'ty option"
  | FieldNotEquals Path string "'ty option"
  | IndexEquals Path "'ty option" "'ty option"
  | IndexNotEquals Path "'ty option" "'ty option"
  | EqPath Path Path
  | NotEqPath Path Path
  | FieldEqualsPath Path string Path
  | FieldNotEqualsPath Path string Path
  | IndexEqualsPath Path "'ty option" Path
  | IndexNotEqualsPath Path "'ty option" Path
  | KeyOf Path Path

text \<open>The kinds are numbered from \<open>KindInvalid = 0\<close>, as \<open>iota\<close> does.\<close>

fun Kind :: "'ty Constraint \<Rightarrow> nat" where
  "Kind (Truthy _) = 1"
| "Kind (Falsy _) = 2"
| "Kind (IsNil _) = 3"
| "Kind (NotNil _) = 4"
| "Kind (HasType _ _) = 5"
| "Kind (NotHasType _ _) = 6"
| "Kind (HasField _ _) = 7"
| "Kind (FieldEquals _ _ _) = 8"
| "Kind (FieldNotEquals _ _ _) = 9"
| "Kind (IndexEquals _ _ _) = 10"
| "Kind (IndexNotEquals _ _ _) = 11"
| "Kind (EqPath _ _) = 12"
| "Kind (NotEqPath _ _) = 13"
| "Kind (FieldEqualsPath _ _ _) = 14"
| "Kind (FieldNotEqualsPath _ _ _) = 15"
| "Kind (IndexEqualsPath _ _ _) = 16"
| "Kind (IndexNotEqualsPath _ _ _) = 17"
| "Kind (KeyOf _ _) = 18"

definition NewEqPath :: "Path \<Rightarrow> Path \<Rightarrow> 'ty Constraint" where
  "NewEqPath left right = (if path_Less right left then EqPath right left else EqPath left right)"

definition NewNotEqPath :: "Path \<Rightarrow> Path \<Rightarrow> 'ty Constraint" where
  "NewNotEqPath left right = (if path_Less right left then NotEqPath right left else NotEqPath left right)"

text \<open>The parent that narrowing a field also concerns; it does not carry the version.\<close>

definition parent_field_path :: "Path \<Rightarrow> Path list" where
  "parent_field_path p =
     (if length (Segments p) > 0 \<and> SegKind (last (Segments p)) = SegmentField
      then [\<lparr>Root = Root p, Symbol = Symbol p,
             Segments = (if length (Segments p) > 1 then butlast (Segments p) else []), Version = 0\<rparr>]
      else [])"

fun constraint_Paths :: "'ty Constraint \<Rightarrow> Path list" where
  "constraint_Paths (Truthy p) = p # parent_field_path p"
| "constraint_Paths (Falsy p) = p # parent_field_path p"
| "constraint_Paths (IsNil p) = [p]"
| "constraint_Paths (NotNil p) = [p]"
| "constraint_Paths (HasType p _) = [p]"
| "constraint_Paths (NotHasType p _) = [p]"
| "constraint_Paths (HasField p _) = [p]"
| "constraint_Paths (FieldEquals t _ _) = t # parent_field_path t"
| "constraint_Paths (FieldNotEquals t _ _) = t # parent_field_path t"
| "constraint_Paths (IndexEquals t _ _) = [t]"
| "constraint_Paths (IndexNotEquals t _ _) = [t]"
| "constraint_Paths (EqPath l r) = [l, r]"
| "constraint_Paths (NotEqPath l r) = [l, r]"
| "constraint_Paths (FieldEqualsPath t _ v) = [t, v] @ parent_field_path t"
| "constraint_Paths (FieldNotEqualsPath t _ v) = [t, v] @ parent_field_path t"
| "constraint_Paths (IndexEqualsPath t _ v) = [t, v]"
| "constraint_Paths (IndexNotEqualsPath t _ v) = [t, v]"
| "constraint_Paths (KeyOf t k) = [t, k]"

section \<open>Hash, equality and text\<close>

definition hashPathConstraint :: "nat \<Rightarrow> Path \<Rightarrow> u64" where
  "hashPathConstraint kind path = HashCombine (of_nat kind) (path_Hash path)"

definition hash_opt :: "'ty type_methods \<Rightarrow> u64 \<Rightarrow> 'ty option \<Rightarrow> u64" where
  "hash_opt I h v = (case v of None \<Rightarrow> h | Some t \<Rightarrow> HashCombine h (ty_Hash I t))"

fun constraint_Hash :: "'ty type_methods \<Rightarrow> 'ty Constraint \<Rightarrow> u64" where
  "constraint_Hash I (Truthy p) = hashPathConstraint 1 p"
| "constraint_Hash I (Falsy p) = hashPathConstraint 2 p"
| "constraint_Hash I (IsNil p) = hashPathConstraint 3 p"
| "constraint_Hash I (NotNil p) = hashPathConstraint 4 p"
| "constraint_Hash I (HasType p k) = HashCombine (hashPathConstraint 5 p) (Hash64 k)"
| "constraint_Hash I (NotHasType p k) = HashCombine (hashPathConstraint 6 p) (Hash64 k)"
| "constraint_Hash I (HasField p f) = HashCombine (hashPathConstraint 7 p) (FnvString (str_bytes f))"
| "constraint_Hash I (FieldEquals t f v) =
     hash_opt I (HashCombine (hashPathConstraint 8 t) (FnvString (str_bytes f))) v"
| "constraint_Hash I (FieldNotEquals t f v) =
     hash_opt I (HashCombine (hashPathConstraint 9 t) (FnvString (str_bytes f))) v"
| "constraint_Hash I (IndexEquals t k v) = hash_opt I (hash_opt I (hashPathConstraint 10 t) k) v"
| "constraint_Hash I (IndexNotEquals t k v) = hash_opt I (hash_opt I (hashPathConstraint 11 t) k) v"
| "constraint_Hash I (EqPath l r) = HashCombine (HashCombine 12 (path_Hash l)) (path_Hash r)"
| "constraint_Hash I (NotEqPath l r) = HashCombine (HashCombine 13 (path_Hash l)) (path_Hash r)"
| "constraint_Hash I (FieldEqualsPath t f v) =
     HashCombine (HashCombine (hashPathConstraint 14 t) (FnvString (str_bytes f))) (path_Hash v)"
| "constraint_Hash I (FieldNotEqualsPath t f v) =
     HashCombine (HashCombine (hashPathConstraint 15 t) (FnvString (str_bytes f))) (path_Hash v)"
| "constraint_Hash I (IndexEqualsPath t k v) =
     HashCombine (hash_opt I (hashPathConstraint 16 t) k) (path_Hash v)"
| "constraint_Hash I (IndexNotEqualsPath t k v) =
     HashCombine (hash_opt I (hashPathConstraint 17 t) k) (path_Hash v)"
| "constraint_Hash I (KeyOf t k) = HashCombine (HashCombine 18 (path_Hash t)) (path_Hash k)"

text \<open>Two nil-able type values: equal when both are nil, or when \<open>Equals\<close> says so.\<close>

fun opt_equals :: "'ty type_methods \<Rightarrow> 'ty option \<Rightarrow> 'ty option \<Rightarrow> bool" where
  "opt_equals I None None = True"
| "opt_equals I (Some a) (Some b) = ty_Equals I a b"
| "opt_equals I _ _ = False"

fun constraint_Equals :: "'ty type_methods \<Rightarrow> 'ty Constraint \<Rightarrow> 'ty Constraint \<Rightarrow> bool" where
  "constraint_Equals I (Truthy p) other =
     (case other of Truthy q \<Rightarrow> path_Equal p q | _ \<Rightarrow> False)"
| "constraint_Equals I (Falsy p) other =
     (case other of Falsy q \<Rightarrow> path_Equal p q | _ \<Rightarrow> False)"
| "constraint_Equals I (IsNil p) other =
     (case other of IsNil q \<Rightarrow> path_Equal p q | _ \<Rightarrow> False)"
| "constraint_Equals I (NotNil p) other =
     (case other of NotNil q \<Rightarrow> path_Equal p q | _ \<Rightarrow> False)"
| "constraint_Equals I (HasType p k) other =
     (case other of HasType q l \<Rightarrow> (path_Equal p q \<and> tk_Equal k l) | _ \<Rightarrow> False)"
| "constraint_Equals I (NotHasType p k) other =
     (case other of NotHasType q l \<Rightarrow> (path_Equal p q \<and> tk_Equal k l) | _ \<Rightarrow> False)"
| "constraint_Equals I (HasField p f) other =
     (case other of HasField q g \<Rightarrow> (path_Equal p q \<and> f = g) | _ \<Rightarrow> False)"
| "constraint_Equals I (FieldEquals t f v) other =
     (case other of FieldEquals t' f' v' \<Rightarrow> (path_Equal t t' \<and> f = f' \<and> opt_equals I v v') | _ \<Rightarrow> False)"
| "constraint_Equals I (FieldNotEquals t f v) other =
     (case other of FieldNotEquals t' f' v' \<Rightarrow> (path_Equal t t' \<and> f = f' \<and> opt_equals I v v') | _ \<Rightarrow> False)"
| "constraint_Equals I (IndexEquals t k v) other =
     (case other of IndexEquals t' k' v' \<Rightarrow> (path_Equal t t' \<and> opt_equals I k k' \<and> opt_equals I v v') | _ \<Rightarrow> False)"
| "constraint_Equals I (IndexNotEquals t k v) other =
     (case other of IndexNotEquals t' k' v' \<Rightarrow> (path_Equal t t' \<and> opt_equals I k k' \<and> opt_equals I v v') | _ \<Rightarrow> False)"
| "constraint_Equals I (EqPath l r) other =
     (case other of EqPath l' r' \<Rightarrow> (path_Equal l l' \<and> path_Equal r r') | _ \<Rightarrow> False)"
| "constraint_Equals I (NotEqPath l r) other =
     (case other of NotEqPath l' r' \<Rightarrow> (path_Equal l l' \<and> path_Equal r r') | _ \<Rightarrow> False)"
| "constraint_Equals I (FieldEqualsPath t f v) other =
     (case other of FieldEqualsPath t' f' v' \<Rightarrow> (path_Equal t t' \<and> f = f' \<and> path_Equal v v') | _ \<Rightarrow> False)"
| "constraint_Equals I (FieldNotEqualsPath t f v) other =
     (case other of FieldNotEqualsPath t' f' v' \<Rightarrow> (path_Equal t t' \<and> f = f' \<and> path_Equal v v') | _ \<Rightarrow> False)"
| "constraint_Equals I (IndexEqualsPath t k v) other =
     (case other of IndexEqualsPath t' k' v' \<Rightarrow> (path_Equal t t' \<and> path_Equal v v' \<and> opt_equals I k k') | _ \<Rightarrow> False)"
| "constraint_Equals I (IndexNotEqualsPath t k v) other =
     (case other of IndexNotEqualsPath t' k' v' \<Rightarrow> (path_Equal t t' \<and> path_Equal v v' \<and> opt_equals I k k') | _ \<Rightarrow> False)"
| "constraint_Equals I (KeyOf t k) other =
     (case other of KeyOf t' k' \<Rightarrow> (path_Equal t t' \<and> path_Equal k k') | _ \<Rightarrow> False)"

definition key_text :: "'ty type_methods \<Rightarrow> 'ty option \<Rightarrow> string" where
  "key_text I k = (case k of None \<Rightarrow> ''?'' | Some t \<Rightarrow> ty_String I t)"

fun constraint_String :: "'ty type_methods \<Rightarrow> 'ty Constraint \<Rightarrow> string" where
  "constraint_String I (Truthy p) = ''truthy('' @ path_String p @ '')''"
| "constraint_String I (Falsy p) = ''falsy('' @ path_String p @ '')''"
| "constraint_String I (IsNil p) = ''isnil('' @ path_String p @ '')''"
| "constraint_String I (NotNil p) = ''notnil('' @ path_String p @ '')''"
| "constraint_String I (HasType p _) = ''hastype('' @ path_String p @ '')''"
| "constraint_String I (NotHasType p _) = ''nothastype('' @ path_String p @ '')''"
| "constraint_String I (HasField p f) = ''hasfield('' @ path_String p @ ''.'' @ f @ '')''"
| "constraint_String I (FieldEquals t f _) = ''field('' @ path_String t @ ''.'' @ f @ '')''"
| "constraint_String I (FieldNotEquals t f _) = ''fieldNot('' @ path_String t @ ''.'' @ f @ '')''"
| "constraint_String I (IndexEquals t k _) = ''index('' @ path_String t @ ''['' @ key_text I k @ ''])''"
| "constraint_String I (IndexNotEquals t k _) = ''indexNot('' @ path_String t @ ''['' @ key_text I k @ ''])''"
| "constraint_String I (EqPath l r) = ''eq('' @ path_String l @ '','' @ path_String r @ '')''"
| "constraint_String I (NotEqPath l r) = ''noteq('' @ path_String l @ '','' @ path_String r @ '')''"
| "constraint_String I (FieldEqualsPath t f v) =
     ''fieldEq('' @ path_String t @ ''.'' @ f @ '','' @ path_String v @ '')''"
| "constraint_String I (FieldNotEqualsPath t f v) =
     ''fieldNotEq('' @ path_String t @ ''.'' @ f @ '','' @ path_String v @ '')''"
| "constraint_String I (IndexEqualsPath t k v) =
     ''indexEq('' @ path_String t @ ''['' @ key_text I k @ ''],'' @ path_String v @ '')''"
| "constraint_String I (IndexNotEqualsPath t k v) =
     ''indexNotEq('' @ path_String t @ ''['' @ key_text I k @ ''],'' @ path_String v @ '')''"
| "constraint_String I (KeyOf t k) = ''keyof('' @ path_String t @ '','' @ path_String k @ '')''"

section \<open>Substitution and traversal of paths\<close>

definition sub2 :: "Path \<Rightarrow> Path \<Rightarrow> Path list \<Rightarrow> (Path \<Rightarrow> Path \<Rightarrow> 'ty Constraint) \<Rightarrow> 'ty Constraint option" where
  "sub2 p q args build =
     (case (path_Substitute p args, path_Substitute q args) of
        (Some l, Some r) \<Rightarrow> Some (build l r)
      | _ \<Rightarrow> None)"

fun constraint_Substitute :: "'ty Constraint \<Rightarrow> Path list \<Rightarrow> 'ty Constraint option" where
  "constraint_Substitute (Truthy p) args = map_option Truthy (path_Substitute p args)"
| "constraint_Substitute (Falsy p) args = map_option Falsy (path_Substitute p args)"
| "constraint_Substitute (IsNil p) args = map_option IsNil (path_Substitute p args)"
| "constraint_Substitute (NotNil p) args = map_option NotNil (path_Substitute p args)"
| "constraint_Substitute (HasType p k) args = map_option (\<lambda>q. HasType q k) (path_Substitute p args)"
| "constraint_Substitute (NotHasType p k) args = map_option (\<lambda>q. NotHasType q k) (path_Substitute p args)"
| "constraint_Substitute (HasField p f) args = map_option (\<lambda>q. HasField q f) (path_Substitute p args)"
| "constraint_Substitute (FieldEquals t f v) args = map_option (\<lambda>q. FieldEquals q f v) (path_Substitute t args)"
| "constraint_Substitute (FieldNotEquals t f v) args =
     map_option (\<lambda>q. FieldNotEquals q f v) (path_Substitute t args)"
| "constraint_Substitute (IndexEquals t k v) args = map_option (\<lambda>q. IndexEquals q k v) (path_Substitute t args)"
| "constraint_Substitute (IndexNotEquals t k v) args =
     map_option (\<lambda>q. IndexNotEquals q k v) (path_Substitute t args)"
| "constraint_Substitute (EqPath l r) args = sub2 l r args NewEqPath"
| "constraint_Substitute (NotEqPath l r) args = sub2 l r args NewNotEqPath"
| "constraint_Substitute (FieldEqualsPath t f v) args = sub2 t v args (\<lambda>t' v'. FieldEqualsPath t' f v')"
| "constraint_Substitute (FieldNotEqualsPath t f v) args = sub2 t v args (\<lambda>t' v'. FieldNotEqualsPath t' f v')"
| "constraint_Substitute (IndexEqualsPath t k v) args = sub2 t v args (\<lambda>t' v'. IndexEqualsPath t' k v')"
| "constraint_Substitute (IndexNotEqualsPath t k v) args = sub2 t v args (\<lambda>t' v'. IndexNotEqualsPath t' k v')"
| "constraint_Substitute (KeyOf t k) args = sub2 t k args KeyOf"

text \<open>
  \<open>MapPaths\<close> keeps a constraint over two paths when the mapper applies to at least one of them.
\<close>

definition mapPathPair ::
  "Path \<Rightarrow> Path \<Rightarrow> (Path \<Rightarrow> Path option) \<Rightarrow> (Path \<Rightarrow> Path \<Rightarrow> 'ty Constraint) \<Rightarrow> 'ty Constraint option" where
  "mapPathPair a b fn build =
     (case (fn a, fn b) of
        (None, None) \<Rightarrow> None
      | (Some a', None) \<Rightarrow> Some (build a' b)
      | (None, Some b') \<Rightarrow> Some (build a b')
      | (Some a', Some b') \<Rightarrow> Some (build a' b'))"

fun MapPaths :: "'ty Constraint \<Rightarrow> (Path \<Rightarrow> Path option) \<Rightarrow> 'ty Constraint option" where
  "MapPaths (Truthy p) fn = map_option Truthy (fn p)"
| "MapPaths (Falsy p) fn = map_option Falsy (fn p)"
| "MapPaths (IsNil p) fn = map_option IsNil (fn p)"
| "MapPaths (NotNil p) fn = map_option NotNil (fn p)"
| "MapPaths (HasType p k) fn = map_option (\<lambda>q. HasType q k) (fn p)"
| "MapPaths (NotHasType p k) fn = map_option (\<lambda>q. NotHasType q k) (fn p)"
| "MapPaths (HasField p f) fn = map_option (\<lambda>q. HasField q f) (fn p)"
| "MapPaths (FieldEquals t f v) fn = map_option (\<lambda>q. FieldEquals q f v) (fn t)"
| "MapPaths (FieldNotEquals t f v) fn = map_option (\<lambda>q. FieldNotEquals q f v) (fn t)"
| "MapPaths (IndexEquals t k v) fn = map_option (\<lambda>q. IndexEquals q k v) (fn t)"
| "MapPaths (IndexNotEquals t k v) fn = map_option (\<lambda>q. IndexNotEquals q k v) (fn t)"
| "MapPaths (EqPath l r) fn = mapPathPair l r fn NewEqPath"
| "MapPaths (NotEqPath l r) fn = mapPathPair l r fn NewNotEqPath"
| "MapPaths (FieldEqualsPath t f v) fn = mapPathPair t v fn (\<lambda>t' v'. FieldEqualsPath t' f v')"
| "MapPaths (FieldNotEqualsPath t f v) fn = mapPathPair t v fn (\<lambda>t' v'. FieldNotEqualsPath t' f v')"
| "MapPaths (IndexEqualsPath t k v) fn = mapPathPair t v fn (\<lambda>t' v'. IndexEqualsPath t' k v')"
| "MapPaths (IndexNotEqualsPath t k v) fn = mapPathPair t v fn (\<lambda>t' v'. IndexNotEqualsPath t' k v')"
| "MapPaths (KeyOf t k) fn = mapPathPair t k fn KeyOf"

text \<open>
  The visitor is a closure: it may update the state it captured, and stops the traversal by
  returning true.
\<close>

type_synonym 's visitor = "Path \<Rightarrow> 's \<Rightarrow> bool \<times> 's"

fun visit_seq :: "Path list \<Rightarrow> 's visitor \<Rightarrow> 's \<Rightarrow> bool \<times> 's" where
  "visit_seq [] fn s = (False, s)"
| "visit_seq (p # ps) fn s = (case fn p s of (True, s') \<Rightarrow> (True, s') | (False, s') \<Rightarrow> visit_seq ps fn s')"

definition visitParentFieldPath :: "Path \<Rightarrow> 's visitor \<Rightarrow> 's \<Rightarrow> bool \<times> 's" where
  "visitParentFieldPath path fn s =
     (if length (Segments path) = 0 then (False, s)
      else if SegKind (last (Segments path)) \<noteq> SegmentField then (False, s)
      else fn \<lparr>Root = Root path, Symbol = Symbol path,
               Segments = (if length (Segments path) > 1 then butlast (Segments path) else []),
               Version = 0\<rparr> s)"

definition visit_with_parent :: "Path \<Rightarrow> 's visitor \<Rightarrow> 's \<Rightarrow> bool \<times> 's" where
  "visit_with_parent path fn s =
     (case fn path s of (True, s') \<Rightarrow> (True, s') | (False, s') \<Rightarrow> visitParentFieldPath path fn s')"

fun VisitPaths :: "'ty Constraint \<Rightarrow> 's visitor \<Rightarrow> 's \<Rightarrow> bool \<times> 's" where
  "VisitPaths (Truthy p) fn s = visit_with_parent p fn s"
| "VisitPaths (Falsy p) fn s = visit_with_parent p fn s"
| "VisitPaths (IsNil p) fn s = fn p s"
| "VisitPaths (NotNil p) fn s = fn p s"
| "VisitPaths (HasType p _) fn s = fn p s"
| "VisitPaths (NotHasType p _) fn s = fn p s"
| "VisitPaths (HasField p _) fn s = fn p s"
| "VisitPaths (FieldEquals t _ _) fn s = visit_with_parent t fn s"
| "VisitPaths (FieldNotEquals t _ _) fn s = visit_with_parent t fn s"
| "VisitPaths (IndexEquals t _ _) fn s = fn t s"
| "VisitPaths (IndexNotEquals t _ _) fn s = fn t s"
| "VisitPaths (EqPath l r) fn s = visit_seq [l, r] fn s"
| "VisitPaths (NotEqPath l r) fn s = visit_seq [l, r] fn s"
| "VisitPaths (FieldEqualsPath t _ v) fn s = visit_seq [t, v] fn s"
| "VisitPaths (FieldNotEqualsPath t _ v) fn s = visit_seq [t, v] fn s"
| "VisitPaths (IndexEqualsPath t _ v) fn s = visit_seq [t, v] fn s"
| "VisitPaths (IndexNotEqualsPath t _ v) fn s = visit_seq [t, v] fn s"
| "VisitPaths (KeyOf t k) fn s = visit_seq [t, k] fn s"

definition FirstPath :: "'ty Constraint \<Rightarrow> Path option" where
  "FirstPath c = snd (VisitPaths c (\<lambda>p _. (True, Some p)) None)"

section \<open>Literal types\<close>

text \<open>
  The literals that the constructors of \<open>typ/literal.go\<close> build. \<open>strconv.Quote\<close>,
  \<open>strconv.FormatFloat\<close> and Go's conversion of a float to \<open>uint64\<close>, which is
  implementation-specific out of range, are the parameters \<open>quot\<close>, \<open>fmt\<close> and \<open>conv\<close>.
\<close>

datatype Literal =
    LiteralBool bool
  | LiteralInt int
  | LiteralNumber float64
  | LiteralString string

text \<open>\<open>kind.Literal\<close> is 22; \<open>Boolean\<close>, \<open>Number\<close>, \<open>Integer\<close> and \<open>String\<close> are 1 to 4.\<close>

fun lit_Base :: "Literal \<Rightarrow> u64" where
  "lit_Base (LiteralBool _) = 1"
| "lit_Base (LiteralNumber _) = 2"
| "lit_Base (LiteralInt _) = 3"
| "lit_Base (LiteralString _) = 4"

fun lit_Hash :: "(float64 \<Rightarrow> u64) \<Rightarrow> Literal \<Rightarrow> u64" where
  "lit_Hash conv (LiteralBool v) =
     (if v then HashCombine (HashCombine 22 1) 1 else HashCombine 22 1)"
| "lit_Hash conv (LiteralInt v) = HashCombine (HashCombine 22 3) (of_int v)"
| "lit_Hash conv (LiteralNumber v) = HashCombine (HashCombine 22 2) (conv v)"
| "lit_Hash conv (LiteralString v) = HashCombine (HashCombine 22 4) (FnvString (str_bytes v))"

fun lit_String :: "(string \<Rightarrow> string) \<Rightarrow> (float64 \<Rightarrow> string) \<Rightarrow> Literal \<Rightarrow> string" where
  "lit_String quot fmt (LiteralBool v) = (if v then ''true'' else ''false'')"
| "lit_String quot fmt (LiteralInt v) = Itoa v"
| "lit_String quot fmt (LiteralNumber v) = fmt v"
| "lit_String quot fmt (LiteralString v) = quot v"

text \<open>The values are compared with Go's \<open>==\<close>, for which NaN differs from itself.\<close>

fun lit_Equals :: "Literal \<Rightarrow> Literal \<Rightarrow> bool" where
  "lit_Equals (LiteralNumber v) (LiteralNumber w) = (v \<noteq> FNaN \<and> v = w)"
| "lit_Equals l ol = (l = ol)"

definition literal_methods ::
  "(string \<Rightarrow> string) \<Rightarrow> (float64 \<Rightarrow> string) \<Rightarrow> (float64 \<Rightarrow> u64) \<Rightarrow> Literal type_methods" where
  "literal_methods quot fmt conv =
     \<lparr>ty_String = lit_String quot fmt, ty_Hash = lit_Hash conv, ty_Equals = lit_Equals\<rparr>"

section \<open>What constraints rely on in types\<close>

definition type_laws :: "'ty type_methods \<Rightarrow> bool" where
  "type_laws I \<longleftrightarrow>
     (\<forall>a b. ty_Equals I a b \<longrightarrow> ty_Equals I b a \<and> ty_Hash I a = ty_Hash I b)
   \<and> (\<forall>a b c. ty_Equals I a b \<longrightarrow> ty_Equals I b c \<longrightarrow> ty_Equals I a c)"

lemma tk_Equal_iff [simp]: "tk_Equal k l \<longleftrightarrow> k = l"
  by (cases k; cases l) (auto simp: tk_Equal_def)

lemma constraint_Equals_Kind: "constraint_Equals I c d \<Longrightarrow> Kind c = Kind d"
  by (cases c) (simp_all split: Constraint.splits)

locale type_interface =
  fixes I :: "'ty type_methods"
  assumes Equals_sym: "ty_Equals I a b \<Longrightarrow> ty_Equals I b a"
    and Equals_trans: "ty_Equals I a b \<Longrightarrow> ty_Equals I b c \<Longrightarrow> ty_Equals I a c"
    and Equals_Hash: "ty_Equals I a b \<Longrightarrow> ty_Hash I a = ty_Hash I b"
begin

lemma opt_sym: "opt_equals I u v \<Longrightarrow> opt_equals I v u"
  by (cases u; cases v) (auto intro: Equals_sym)

lemma opt_trans: "opt_equals I u v \<Longrightarrow> opt_equals I v w \<Longrightarrow> opt_equals I u w"
  by (cases u; cases v; cases w) (auto intro: Equals_trans)

lemma opt_Hash: "opt_equals I u v \<Longrightarrow> \<forall>h. hash_opt I h u = hash_opt I h v"
  by (cases u; cases v) (auto simp: hash_opt_def Equals_Hash)

lemma constraint_sym: "constraint_Equals I c d \<Longrightarrow> constraint_Equals I d c"
  by (cases c) (simp_all add: path_Equal_sym opt_sym split: Constraint.splits)

lemma constraint_Hash: "constraint_Equals I c d \<Longrightarrow> constraint_Hash I c = constraint_Hash I d"
  by (cases c)
    (auto simp: hashPathConstraint_def dest!: path_Equal_Hash opt_Hash split: Constraint.splits)

lemma constraint_trans:
  "constraint_Equals I c d \<Longrightarrow> constraint_Equals I d e \<Longrightarrow> constraint_Equals I c e"
  by (cases c) (auto split: Constraint.splits intro: path_Equal_trans opt_trans)

end

lemma type_interface_iff: "type_interface I \<longleftrightarrow> type_laws I"
  unfolding type_interface_def type_laws_def by blast

interpretation lit: type_interface "literal_methods quot fmt conv" for quot fmt conv
proof
  fix a b c
  show "ty_Equals (literal_methods quot fmt conv) a b \<Longrightarrow> ty_Equals (literal_methods quot fmt conv) b a"
    by (cases a; cases b) (auto simp: literal_methods_def)
  show "ty_Equals (literal_methods quot fmt conv) a b \<Longrightarrow> ty_Equals (literal_methods quot fmt conv) b c
      \<Longrightarrow> ty_Equals (literal_methods quot fmt conv) a c"
    by (cases a; cases b; cases c) (auto simp: literal_methods_def)
  show "ty_Equals (literal_methods quot fmt conv) a b \<Longrightarrow>
      ty_Hash (literal_methods quot fmt conv) a = ty_Hash (literal_methods quot fmt conv) b"
    by (cases a; cases b) (auto simp: literal_methods_def)
qed

lemma literal_type_laws: "type_laws (literal_methods quot fmt conv)"
  using lit.type_interface_axioms by (simp add: type_interface_iff)

text \<open>
  For types whose \<open>Equals\<close> is symmetric, transitive and respected by their hash, the same
  holds for constraints, and equal constraints have the same kind: so the hash index of a
  conjunction never separates equal constraints.
\<close>

theorem constraint_equality:
  assumes "type_laws I"
  shows "(constraint_Equals I c d \<longrightarrow>
            constraint_Equals I d c \<and> constraint_Hash I c = constraint_Hash I d \<and> Kind c = Kind d)
       \<and> (constraint_Equals I c d \<longrightarrow> constraint_Equals I d e \<longrightarrow> constraint_Equals I c e)"
proof -
  have t: "type_interface I" using assms by (simp add: type_interface_iff)
  show ?thesis
    using type_interface.constraint_sym [OF t] type_interface.constraint_Hash [OF t]
      type_interface.constraint_trans [OF t] constraint_Equals_Kind by blast
qed

theorem constraint_equality_witness:
  "constraint_Hash (literal_methods id (\<lambda>_. []) (\<lambda>_. 0)) (FieldEquals (NewPath 1 ''x'') ''tag'' (Some (LiteralString ''a'')))
     = constraint_Hash (literal_methods id (\<lambda>_. []) (\<lambda>_. 0)) (FieldEquals (NewPath 1 ''y'') ''tag'' (Some (LiteralString ''a'')))"
proof -
  let ?I = "literal_methods id (\<lambda>_. []) (\<lambda>_. 0)"
  have "constraint_Equals ?I (FieldEquals (NewPath 1 ''x'') ''tag'' (Some (LiteralString ''a'')))
      (FieldEquals (NewPath 1 ''y'') ''tag'' (Some (LiteralString ''a'')))"
    by (simp add: path_Equal_def NewPath_def literal_methods_def)
  then show ?thesis using constraint_equality [OF literal_type_laws] by blast
qed

section \<open>Canonical endpoints\<close>

lemma path_Less_cong:
  assumes "path_Equal l l'" "path_Equal r r'" "same_root_kind l r"
  shows "path_Less l r \<longleftrightarrow> path_Less l' r'"
  using assms
  by (cases "Symbol l = 0"; cases "Symbol l' = 0"; cases "Symbol r = 0"; cases "Symbol r' = 0")
    (simp_all add: path_Less_iff path_Equal_iff path_root_def same_root_kind_def)

lemma neither_Less:
  "same_root_kind l r \<Longrightarrow> \<not> path_Less l r \<Longrightarrow> \<not> path_Less r l \<Longrightarrow> path_Equal l r \<and> path_Equal r l"
  using path_Less_total path_Equal_sym by blast

lemma NewEqPath_Less:
  "path_Less l r \<Longrightarrow> NewEqPath l r = EqPath l r" "path_Less l r \<Longrightarrow> NewEqPath r l = EqPath l r"
  "path_Less l r \<Longrightarrow> NewNotEqPath l r = NotEqPath l r" "path_Less l r \<Longrightarrow> NewNotEqPath r l = NotEqPath l r"
  "\<not> path_Less r l \<Longrightarrow> NewEqPath l r = EqPath l r" "\<not> path_Less r l \<Longrightarrow> NewNotEqPath l r = NotEqPath l r"
  using path_Less_asym by (simp_all add: NewEqPath_def NewNotEqPath_def)

text \<open>
  An equality or inequality of two paths does not depend on the order of its endpoints, as
  long as both are symbols or both are placeholders: the two constructions are \<open>Equals\<close> and have
  the same hash.
\<close>

theorem eq_path_canonical:
  assumes "same_root_kind l r"
  shows "constraint_Equals I (NewEqPath l r) (NewEqPath r l)
       \<and> constraint_Equals I (NewNotEqPath l r) (NewNotEqPath r l)
       \<and> constraint_Hash I (NewEqPath l r) = constraint_Hash I (NewEqPath r l)
       \<and> constraint_Hash I (NewNotEqPath l r) = constraint_Hash I (NewNotEqPath r l)"
proof -
  consider "path_Less l r" | "path_Less r l" | "\<not> path_Less l r" "\<not> path_Less r l" by blast
  then show ?thesis
  proof cases
    case 3
    then show ?thesis
      using neither_Less [OF assms 3] path_Equal_Hash [of l r] by (simp add: NewEqPath_Less(5,6))
  qed (simp_all add: NewEqPath_Less(1-4))
qed

theorem eq_path_canonical_witness:
  "constraint_Equals (literal_methods id (\<lambda>_. []) (\<lambda>_. 0))
     (NewEqPath (NewPath 2 ''b'') (NewPath 1 ''a'')) (NewEqPath (NewPath 1 ''a'') (NewPath 2 ''b''))"
  by (rule eq_path_canonical [THEN conjunct1]) (simp add: same_root_kind_def NewPath_def)

text \<open>Between a symbol and a placeholder shown by the same name the order is not canonical.\<close>

lemma eq_path_mixed_not_canonical:
  "\<exists>l r. \<not> constraint_Equals I (NewEqPath l r) (NewEqPath r l)"
proof -
  let ?l = "NewPath 1 ''x''" and ?r = "NewPath 0 ''x''"
  have "\<not> path_Less ?l ?r" "\<not> path_Less ?r ?l" "\<not> path_Equal ?l ?r"
    by (simp_all add: path_Less_def path_Equal_def NewPath_def)
  then have "\<not> constraint_Equals I (NewEqPath ?l ?r) (NewEqPath ?r ?l)" by (simp add: NewEqPath_def)
  then show ?thesis by blast
qed

section \<open>Traversal\<close>

lemma visitParentFieldPath_seq: "visitParentFieldPath p fn s = visit_seq (parent_field_path p) fn s"
  by (auto simp: visitParentFieldPath_def parent_field_path_def split: prod.splits bool.splits)

lemma visit_with_parent_seq: "visit_with_parent p fn s = visit_seq (p # parent_field_path p) fn s"
  by (simp add: visit_with_parent_def visitParentFieldPath_seq split: prod.splits bool.splits)

lemma visit_seq_one: "visit_seq [p] fn s = fn p s"
  by (simp split: prod.splits bool.splits)

text \<open>The equalities of a field with a path, whose \<open>Paths\<close> add the parent of the target.\<close>

fun field_path_equality :: "'ty Constraint \<Rightarrow> bool" where
  "field_path_equality (FieldEqualsPath _ _ _) = True"
| "field_path_equality (FieldNotEqualsPath _ _ _) = True"
| "field_path_equality _ = False"

text \<open>
  \<open>VisitPaths\<close> calls its visitor on the paths that \<open>Paths\<close> lists, in that order and up to the
  first that stops it, for every visitor; only for the equality or inequality of a field with a
  path does it leave out the parent of the target. \<open>FirstPath\<close> is the first of \<open>Paths\<close>.
\<close>

theorem visit_paths_exact:
  "VisitPaths c fn s =
     visit_seq (if field_path_equality c then take 2 (constraint_Paths c) else constraint_Paths c) fn s
   \<and> FirstPath c = Some (hd (constraint_Paths c))"
proof -
  have "VisitPaths c fn s =
     visit_seq (if field_path_equality c then take 2 (constraint_Paths c) else constraint_Paths c) fn s"
    by (cases c) (simp_all only: VisitPaths.simps visit_with_parent_seq visit_seq_one constraint_Paths.simps
        field_path_equality.simps if_True if_False append_Cons append_Nil take_Suc_Cons take_0 numeral_2_eq_2)
  moreover have "FirstPath c = Some (hd (constraint_Paths c))"
    by (cases c) (simp_all add: FirstPath_def visit_with_parent_seq)
  ultimately show ?thesis by simp
qed

end
