(* ===== verification/Conditions.thy ===== *)
theory Conditions
  imports Constraints
begin

text \<open>
  Conditions in disjunctive normal form (\<open>types/constraint/condition.go\<close>): a disjunction of
  canonical conjunctions of constraints, with conjunction, disjunction, negation, substitution
  and the normalization that keeps at most \<open>DefaultMaxDisjuncts\<close> disjuncts.

  \<open>sort.Sort\<close> of the Go library does not fix the order of elements that compare equal, so the
  sorting of constraints and of disjuncts is a parameter that takes the comparison. The pools of
  scratch slices hold no state between calls, and the cached text of a constraint is the text.
\<close>

section \<open>Sorting keys\<close>

record 'ty constraintWithHash =
  cwh_c :: "'ty Constraint"
  cwh_h :: u64
  cwh_k :: nat

record 'ty disjunctWithHash =
  dwh_conj :: "'ty Constraint list"
  dwh_hashes :: "u64 list"
  dwh_hash :: u64

record 'ty sorters =
  sort_constraints :: "('ty constraintWithHash \<Rightarrow> 'ty constraintWithHash \<Rightarrow> bool)
      \<Rightarrow> 'ty constraintWithHash list \<Rightarrow> 'ty constraintWithHash list"
  sort_disjuncts :: "('ty disjunctWithHash \<Rightarrow> 'ty disjunctWithHash \<Rightarrow> bool)
      \<Rightarrow> 'ty disjunctWithHash list \<Rightarrow> 'ty disjunctWithHash list"

record 'ty Condition =
  Disjuncts :: "'ty Constraint list list"
  normalized :: bool

definition DefaultMaxDisjuncts :: nat where "DefaultMaxDisjuncts = 32"

definition constraintSorter_Less ::
  "'ty type_methods \<Rightarrow> 'ty constraintWithHash \<Rightarrow> 'ty constraintWithHash \<Rightarrow> bool" where
  "constraintSorter_Less I a b =
     (if cwh_h a \<noteq> cwh_h b then cwh_h a < cwh_h b
      else if cwh_k a \<noteq> cwh_k b then cwh_k a < cwh_k b
      else if constraint_Equals I (cwh_c a) (cwh_c b) then False
      else constraint_String I (cwh_c a) < constraint_String I (cwh_c b))"

section \<open>Canonical conjunctions\<close>

fun dedup_sorted ::
  "'ty type_methods \<Rightarrow> 'ty constraintWithHash list \<Rightarrow> 'ty constraintWithHash list \<Rightarrow> 'ty constraintWithHash list" where
  "dedup_sorted I written [] = written"
| "dedup_sorted I written (x # xs) =
     (if written \<noteq> [] \<and> cwh_h (last written) = cwh_h x \<and> constraint_Equals I (cwh_c (last written)) (cwh_c x)
      then dedup_sorted I written xs
      else dedup_sorted I (written @ [x]) xs)"

definition with_hash :: "'ty type_methods \<Rightarrow> 'ty Constraint \<Rightarrow> 'ty constraintWithHash" where
  "with_hash I c = \<lparr>cwh_c = c, cwh_h = constraint_Hash I c, cwh_k = Kind c\<rparr>"

definition canonicalize_pair :: "'ty type_methods \<Rightarrow> 'ty Constraint \<Rightarrow> 'ty Constraint \<Rightarrow> 'ty Constraint list" where
  "canonicalize_pair I x y =
     (let h0 = constraint_Hash I x; h1 = constraint_Hash I y; k0 = Kind x; k1 = Kind y in
      if h0 = h1 \<and> k0 = k1 \<and> constraint_Equals I x y then [x]
      else if h0 < h1 then [x, y]
      else if h0 > h1 then [y, x]
      else if k0 < k1 then [x, y]
      else if k0 > k1 then [y, x]
      else if constraint_String I x \<le> constraint_String I y then [x, y]
      else [y, x])"

fun canonicalizeConjunction :: "'ty type_methods \<Rightarrow> 'ty sorters \<Rightarrow> 'ty Constraint list \<Rightarrow> 'ty Constraint list" where
  "canonicalizeConjunction I S [] = []"
| "canonicalizeConjunction I S [x] = [x]"
| "canonicalizeConjunction I S [x, y] = canonicalize_pair I x y"
| "canonicalizeConjunction I S (x # y # z # items) =
     map cwh_c (dedup_sorted I []
       (sort_constraints S (constraintSorter_Less I) (map (with_hash I) (x # y # z # items))))"

definition NewConjunction :: "'ty type_methods \<Rightarrow> 'ty sorters \<Rightarrow> 'ty Constraint list \<Rightarrow> 'ty Constraint list" where
  "NewConjunction I S items = (if items = [] then [] else canonicalizeConjunction I S items)"

function search_hash :: "'ty type_methods \<Rightarrow> 'ty Constraint list \<Rightarrow> u64 \<Rightarrow> nat \<Rightarrow> nat \<Rightarrow> nat" where
  "search_hash I cs h lo hi =
     (if lo < hi then
        let mid = lo + (hi - lo) div 2 in
        if constraint_Hash I (cs ! mid) < h then search_hash I cs h (mid + 1) hi
        else search_hash I cs h lo mid
      else lo)"
  by auto
termination by (relation "measure (\<lambda>(_, _, _, lo, hi). hi - lo)") (auto simp: Let_def)

declare search_hash.simps [simp del]

fun scan_hash :: "'ty type_methods \<Rightarrow> 'ty Constraint list \<Rightarrow> u64 \<Rightarrow> 'ty Constraint \<Rightarrow> bool" where
  "scan_hash I [] h c = False"
| "scan_hash I (item # items) h c =
     (if constraint_Hash I item \<noteq> h then False
      else if constraint_Equals I item c then True
      else scan_hash I items h c)"

definition ConjunctionContains :: "'ty type_methods \<Rightarrow> 'ty Constraint list \<Rightarrow> 'ty Constraint \<Rightarrow> bool" where
  "ConjunctionContains I cs c =
     (if length cs = 0 then False
      else let h = constraint_Hash I c in
        if length cs \<le> 4
        then list_ex (\<lambda>item. constraint_Hash I item = h \<and> constraint_Equals I item c) cs
        else scan_hash I (drop (search_hash I cs h 0 (length cs)) cs) h c)"

definition conjunctionHash :: "'ty type_methods \<Rightarrow> 'ty Constraint list \<Rightarrow> u64" where
  "conjunctionHash I cs =
     (if cs = [] then 0 else foldl (\<lambda>h c. HashCombine h (constraint_Hash I c)) FnvOffset64 cs)"

definition compareConstraints ::
  "'ty type_methods \<Rightarrow> 'ty Constraint \<Rightarrow> u64 \<Rightarrow> 'ty Constraint \<Rightarrow> u64 \<Rightarrow> int" where
  "compareConstraints I a aHash b bHash =
     (if aHash < bHash then -1
      else if aHash > bHash then 1
      else if Kind a < Kind b then -1
      else if Kind a > Kind b then 1
      else if constraint_Equals I a b then 0
      else if constraint_String I a < constraint_String I b then -1
      else if constraint_String I a > constraint_String I b then 1
      else 0)"

fun merge_loop ::
  "'ty type_methods \<Rightarrow> 'ty sorters \<Rightarrow> 'ty Constraint list \<Rightarrow> 'ty Constraint list \<Rightarrow> 'ty Constraint list
     \<Rightarrow> 'ty Constraint list" where
  "merge_loop I S out (x # a) (y # b) =
     (let cmp = compareConstraints I x (constraint_Hash I x) y (constraint_Hash I y) in
      if cmp < 0 then merge_loop I S (out @ [x]) a (y # b)
      else if cmp > 0 then merge_loop I S (out @ [y]) (x # a) b
      else if constraint_Equals I x y then merge_loop I S (out @ [x]) a b
      else canonicalizeConjunction I S (out @ (x # a) @ (y # b)))"
| "merge_loop I S out a b = out @ a @ b"

definition mergeConjunctions ::
  "'ty type_methods \<Rightarrow> 'ty sorters \<Rightarrow> 'ty Constraint list \<Rightarrow> 'ty Constraint list \<Rightarrow> 'ty Constraint list" where
  "mergeConjunctions I S a b =
     (if a = [] then b else if b = [] then a else merge_loop I S [] a b)"

definition intersectConjunctions ::
  "'ty type_methods \<Rightarrow> 'ty Constraint list \<Rightarrow> 'ty Constraint list \<Rightarrow> 'ty Constraint list" where
  "intersectConjunctions I a b =
     (if a = [] \<or> b = [] then []
      else let (a, b) = (if length a > length b then (b, a) else (a, b)) in
        filter (\<lambda>ct. ConjunctionContains I b ct) a)"

section \<open>Contradictions and subsumption\<close>

fun nil_fact :: "'ty Constraint \<Rightarrow> (Path \<times> nat) option" where
  "nil_fact (IsNil p) = Some (p, 1)"
| "nil_fact (NotNil p) = Some (p, 2)"
| "nil_fact (Truthy p) = Some (p, 3)"
| "nil_fact (Falsy p) = Some (p, 4)"
| "nil_fact _ = None"

definition nil_conflict :: "'ty Constraint \<Rightarrow> 'ty Constraint \<Rightarrow> bool" where
  "nil_conflict left right =
     (case (nil_fact left, nil_fact right) of
        (Some (leftPath, leftKind), Some (rightPath, rightKind)) \<Rightarrow>
          path_Equal leftPath rightPath \<and>
          (leftKind = 1 \<and> (rightKind = 2 \<or> rightKind = 3) \<or>
           leftKind = 2 \<and> rightKind = 1 \<or>
           leftKind = 3 \<and> (rightKind = 1 \<or> rightKind = 4) \<or>
           leftKind = 4 \<and> rightKind = 3)
      | _ \<Rightarrow> False)"

fun conjunctionImpossible :: "'ty Constraint list \<Rightarrow> bool" where
  "conjunctionImpossible [] = False"
| "conjunctionImpossible (left # items) =
     (if list_ex (nil_conflict left) items then True else conjunctionImpossible items)"

text \<open>
  The scan of \<open>b\<close> keeps its position between the constraints of \<open>a\<close>: \<open>bs\<close> is the rest of \<open>b\<close>
  with its hashes.
\<close>

fun subsumes_loop ::
  "'ty type_methods \<Rightarrow> (u64 \<times> 'ty Constraint) list \<Rightarrow> (u64 \<times> 'ty Constraint) list \<Rightarrow> bool" where
  "subsumes_loop I [] bs = True"
| "subsumes_loop I ((targetHash, ct) # as) bs =
     (let bs = dropWhile (\<lambda>(h, _). h < targetHash) bs in
      if bs = [] \<or> fst (hd bs) > targetHash then False
      else if list_ex (\<lambda>(h, b). h = targetHash \<and> constraint_Equals I b ct)
                (takeWhile (\<lambda>(h, _). h \<le> targetHash) bs)
      then subsumes_loop I as bs
      else False)"

definition subsumes_core ::
  "'ty type_methods \<Rightarrow> 'ty Constraint list \<Rightarrow> u64 list \<Rightarrow> 'ty Constraint list \<Rightarrow> u64 list \<Rightarrow> bool" where
  "subsumes_core I a aHashes b bHashes =
     (if length a = 0 then True
      else if length a > length b then False
      else subsumes_loop I (zip aHashes a) (zip bHashes b))"

definition conjunctionSubsumes :: "'ty type_methods \<Rightarrow> 'ty Constraint list \<Rightarrow> 'ty Constraint list \<Rightarrow> bool" where
  "conjunctionSubsumes I a b =
     subsumes_core I a (map (constraint_Hash I) a) b (map (constraint_Hash I) b)"

definition conjunctionSubsumesWithHashes ::
  "'ty type_methods \<Rightarrow> 'ty Constraint list \<Rightarrow> u64 list \<Rightarrow> 'ty Constraint list \<Rightarrow> u64 list \<Rightarrow> bool" where
  "conjunctionSubsumesWithHashes I a aHashes b bHashes =
     (if length aHashes \<noteq> length a \<or> length bHashes \<noteq> length b then conjunctionSubsumes I a b
      else subsumes_core I a aHashes b bHashes)"

text \<open>Hash lists that are nil are \<open>None\<close>.\<close>

definition conjunctionEquals ::
  "'ty type_methods \<Rightarrow> 'ty Constraint list \<Rightarrow> u64 list option \<Rightarrow> 'ty Constraint list \<Rightarrow> u64 list option \<Rightarrow> bool" where
  "conjunctionEquals I a aHashes b bHashes =
     (if length a \<noteq> length b then False
      else list_all (\<lambda>i.
        (case (aHashes, bHashes) of (Some ah, Some bh) \<Rightarrow> ah ! i = bh ! i | _ \<Rightarrow> True)
        \<and> constraint_Equals I (a ! i) (b ! i)) [0..<length a])"

section \<open>Normalization\<close>

fun disjunct_less_loop ::
  "'ty type_methods \<Rightarrow> ('ty Constraint \<times> u64) list \<Rightarrow> ('ty Constraint \<times> u64) list \<Rightarrow> bool" where
  "disjunct_less_loop I ((a, ha) # as) ((b, hb) # bs) =
     (if ha \<noteq> hb then ha < hb
      else if Kind a \<noteq> Kind b then Kind a < Kind b
      else if constraint_Equals I a b then disjunct_less_loop I as bs
      else if constraint_String I a \<noteq> constraint_String I b then constraint_String I a < constraint_String I b
      else disjunct_less_loop I as bs)"
| "disjunct_less_loop I _ _ = False"

definition disjunctSorter_Less ::
  "'ty type_methods \<Rightarrow> 'ty disjunctWithHash \<Rightarrow> 'ty disjunctWithHash \<Rightarrow> bool" where
  "disjunctSorter_Less I a b =
     (if length (dwh_conj a) \<noteq> length (dwh_conj b) then length (dwh_conj a) < length (dwh_conj b)
      else if dwh_hash a \<noteq> dwh_hash b then dwh_hash a < dwh_hash b
      else disjunct_less_loop I (zip (dwh_conj a) (dwh_hashes a)) (zip (dwh_conj b) (dwh_hashes b)))"

definition constraintHashesAndConjunctionHash ::
  "'ty type_methods \<Rightarrow> 'ty Constraint list \<Rightarrow> u64 list \<times> u64" where
  "constraintHashesAndConjunctionHash I cs =
     (if cs = [] then ([], 0)
      else (map (constraint_Hash I) cs,
            foldl (\<lambda>h c. HashCombine h (constraint_Hash I c)) FnvOffset64 cs))"

definition with_hashes :: "'ty type_methods \<Rightarrow> 'ty Constraint list \<Rightarrow> 'ty disjunctWithHash" where
  "with_hashes I d =
     (let (hashes, h) = constraintHashesAndConjunctionHash I d in
      \<lparr>dwh_conj = d, dwh_hashes = hashes, dwh_hash = h\<rparr>)"

fun keep_disjuncts ::
  "'ty type_methods \<Rightarrow> 'ty disjunctWithHash list \<Rightarrow> 'ty disjunctWithHash list \<Rightarrow> 'ty disjunctWithHash list" where
  "keep_disjuncts I kept [] = kept"
| "keep_disjuncts I kept (dh # rest) =
     (if list_ex (\<lambda>kh. dwh_hash dh = dwh_hash kh \<and>
           conjunctionEquals I (dwh_conj dh) (Some (dwh_hashes dh)) (dwh_conj kh) (Some (dwh_hashes kh))) kept
      then keep_disjuncts I kept rest
      else if list_ex (\<lambda>kh. conjunctionSubsumesWithHashes I
           (dwh_conj kh) (dwh_hashes kh) (dwh_conj dh) (dwh_hashes dh)) kept
      then keep_disjuncts I kept rest
      else keep_disjuncts I (kept @ [dh]) rest)"

definition TrueCondition :: "'ty Condition" where
  "TrueCondition = \<lparr>Disjuncts = [[]], normalized = True\<rparr>"

definition FalseCondition :: "'ty Condition" where
  "FalseCondition = \<lparr>Disjuncts = [], normalized = True\<rparr>"

definition IsFalse :: "'ty Condition \<Rightarrow> bool" where
  "IsFalse c \<longleftrightarrow> length (Disjuncts c) = 0"

definition IsTrue :: "'ty Condition \<Rightarrow> bool" where
  "IsTrue c \<longleftrightarrow> list_ex (\<lambda>d. length d = 0) (Disjuncts c)"

definition HasConstraints :: "'ty Condition \<Rightarrow> bool" where
  "HasConstraints c \<longleftrightarrow> list_ex (\<lambda>d. length d > 0) (Disjuncts c)"

definition NumDisjuncts :: "'ty Condition \<Rightarrow> nat" where
  "NumDisjuncts c = length (Disjuncts c)"

definition DisjunctConstraints :: "'ty Condition \<Rightarrow> int \<Rightarrow> 'ty Constraint list" where
  "DisjunctConstraints c i =
     (if i < 0 \<or> i \<ge> int (length (Disjuncts c)) then [] else Disjuncts c ! nat i)"

definition AllConstraints :: "'ty Condition \<Rightarrow> 'ty Constraint list" where
  "AllConstraints c = concat (Disjuncts c)"

text \<open>The first of the shortest disjuncts.\<close>

fun min_disjunct :: "nat \<Rightarrow> nat \<Rightarrow> nat \<Rightarrow> 'a list list \<Rightarrow> nat \<times> nat" where
  "min_disjunct minIdx minLen i [] = (minIdx, minLen)"
| "min_disjunct minIdx minLen i (d # ds) =
     (if length d < minLen then min_disjunct i (length d) (Suc i) ds
      else min_disjunct minIdx minLen (Suc i) ds)"

definition must_of :: "'ty type_methods \<Rightarrow> 'ty Constraint list list \<Rightarrow> 'ty Constraint list" where
  "must_of I ds =
     (if length ds = 0 then []
      else if length ds = 1 then ds ! 0
      else let (minIdx, minLen) = min_disjunct 0 (length (ds ! 0)) 1 (drop 1 ds) in
        if minLen = 0 then []
        else filter (\<lambda>ct. list_all (\<lambda>i. i = minIdx \<or> ConjunctionContains I (ds ! i) ct) [0..<length ds])
               (ds ! minIdx))"

definition MustConstraints :: "'ty type_methods \<Rightarrow> 'ty Condition \<Rightarrow> 'ty Constraint list" where
  "MustConstraints I c = must_of I (Disjuncts c)"

definition normalizeCondition ::
  "'ty type_methods \<Rightarrow> 'ty sorters \<Rightarrow> 'ty Condition \<Rightarrow> 'ty Condition" where
  "normalizeCondition I S c =
     (let ds = (if \<not> normalized c \<and> length (Disjuncts c) > 0
                then filter (\<lambda>d. \<not> conjunctionImpossible d) (Disjuncts c) else Disjuncts c) in
      if length ds = 0 then \<lparr>Disjuncts = ds, normalized = True\<rparr>
      else if list_ex (\<lambda>d. length d = 0) ds then TrueCondition
      else if length ds = 1 then \<lparr>Disjuncts = ds, normalized = True\<rparr>
      else
        let kept = keep_disjuncts I [] (sort_disjuncts S (disjunctSorter_Less I) (map (with_hashes I) ds));
            result = map dwh_conj kept in
        if length kept > DefaultMaxDisjuncts then
          let must = must_of I result in
          if length must = 0 then TrueCondition else \<lparr>Disjuncts = [must], normalized = True\<rparr>
        else \<lparr>Disjuncts = result, normalized = True\<rparr>)"

section \<open>Building conditions\<close>

definition FromConjunction :: "'ty Constraint list \<Rightarrow> 'ty Condition" where
  "FromConjunction items =
     (if length items = 0 then TrueCondition else \<lparr>Disjuncts = [items], normalized = False\<rparr>)"

definition FromConstraints :: "'ty type_methods \<Rightarrow> 'ty sorters \<Rightarrow> 'ty Constraint list \<Rightarrow> 'ty Condition" where
  "FromConstraints I S items =
     (if length items = 0 then TrueCondition
      else let cs = canonicalizeConjunction I S items in
        if conjunctionImpossible cs then FalseCondition
        else \<lparr>Disjuncts = [cs], normalized = True\<rparr>)"

definition FromDisjuncts :: "'ty type_methods \<Rightarrow> 'ty sorters \<Rightarrow> 'ty Constraint list list \<Rightarrow> 'ty Condition" where
  "FromDisjuncts I S conjunctions =
     (if length conjunctions = 0 then TrueCondition
      else normalizeCondition I S
        \<lparr>Disjuncts = map (canonicalizeConjunction I S) conjunctions, normalized = False\<rparr>)"

section \<open>Conjunction, disjunction and negation\<close>

definition and_merge ::
  "'ty type_methods \<Rightarrow> 'ty sorters \<Rightarrow> 'ty Constraint list \<Rightarrow> 'ty Constraint list \<Rightarrow> 'ty Constraint list" where
  "and_merge I S da db =
     (if length da = 0 then db else if length db = 0 then da else mergeConjunctions I S da db)"

definition and_product ::
  "'ty type_methods \<Rightarrow> 'ty sorters \<Rightarrow> 'ty Constraint list list \<Rightarrow> 'ty Constraint list list \<Rightarrow> 'ty Constraint list list" where
  "and_product I S as bs = concat (map (\<lambda>da. map (\<lambda>db. and_merge I S da db) bs) as)"

lemma FromConstraints_length: "length (Disjuncts (FromConstraints I S items)) \<le> 1"
  by (simp add: FromConstraints_def TrueCondition_def FalseCondition_def Let_def)

function cond_And :: "'ty type_methods \<Rightarrow> 'ty sorters \<Rightarrow> 'ty Condition \<Rightarrow> 'ty Condition \<Rightarrow> 'ty Condition" where
  "cond_And I S a b =
     (if IsFalse a \<or> IsFalse b then FalseCondition
      else if IsTrue a then b
      else if IsTrue b then a
      else if length (Disjuncts a) = 1 \<and> length (Disjuncts b) = 1 then
        let merged = mergeConjunctions I S (Disjuncts a ! 0) (Disjuncts b ! 0) in
        if conjunctionImpossible merged then FalseCondition
        else \<lparr>Disjuncts = [merged], normalized = True\<rparr>
      else if length (Disjuncts a) * length (Disjuncts b) > DefaultMaxDisjuncts then
        let (keep, drp) = (if length (Disjuncts a) < length (Disjuncts b) then (a, b) else (b, a));
            must = MustConstraints I drp in
        if length must = 0 then keep
        else cond_And I S keep (FromConstraints I S must)
      else normalizeCondition I S
        \<lparr>Disjuncts = and_product I S (Disjuncts a) (Disjuncts b), normalized = False\<rparr>)"
  by pat_completeness auto
termination cond_And
proof (relation "measure (\<lambda>(_, _, a, b). if length (Disjuncts b) \<le> 1
      then if length (Disjuncts a) \<le> 1 then 0 else 1 else 2 :: nat)", goal_cases)
  case (2 I S a b p keep drp must)
  have one: "length (Disjuncts (FromConstraints I S must)) \<le> 1" by (rule FromConstraints_length)
  have ne: "length (Disjuncts a) \<noteq> 0" "length (Disjuncts b) \<noteq> 0" using 2(1) by (auto simp: IsFalse_def)
  show ?case
  proof (cases "length (Disjuncts b) = 1")
    case True
    then have "\<not> length (Disjuncts a) \<le> 1" using 2(4) ne by (auto simp: le_Suc_eq)
    moreover have "length (Disjuncts keep) \<le> 1" using True ne 2(6,7) by (auto split: if_splits)
    ultimately show ?thesis using True one by simp
  next
    case False
    then show ?thesis using one ne by (simp add: le_Suc_eq)
  qed
qed simp

declare cond_And.simps [simp del]

definition cond_Or :: "'ty type_methods \<Rightarrow> 'ty sorters \<Rightarrow> 'ty Condition \<Rightarrow> 'ty Condition \<Rightarrow> 'ty Condition" where
  "cond_Or I S a b =
     (if IsFalse a then b
      else if IsFalse b then a
      else if IsTrue a \<or> IsTrue b then TrueCondition
      else
        let out = Disjuncts a @ Disjuncts b in
        if length out > DefaultMaxDisjuncts then
          let common = intersectConjunctions I (MustConstraints I a) (MustConstraints I b) in
          if length common = 0 then TrueCondition
          else \<lparr>Disjuncts = [common], normalized = True\<rparr>
        else normalizeCondition I S \<lparr>Disjuncts = out, normalized = normalized a \<and> normalized b\<rparr>)"

fun NegateConstraint :: "'ty Constraint \<Rightarrow> 'ty Constraint option" where
  "NegateConstraint (Truthy p) = Some (Falsy p)"
| "NegateConstraint (Falsy p) = Some (Truthy p)"
| "NegateConstraint (IsNil p) = Some (NotNil p)"
| "NegateConstraint (NotNil p) = Some (IsNil p)"
| "NegateConstraint (HasType p k) = Some (NotHasType p k)"
| "NegateConstraint (NotHasType p k) = Some (HasType p k)"
| "NegateConstraint (EqPath l r) = Some (NewNotEqPath l r)"
| "NegateConstraint (NotEqPath l r) = Some (NewEqPath l r)"
| "NegateConstraint (FieldEqualsPath t f v) = Some (FieldNotEqualsPath t f v)"
| "NegateConstraint (FieldNotEqualsPath t f v) = Some (FieldEqualsPath t f v)"
| "NegateConstraint (FieldEquals t f v) = Some (FieldNotEquals t f v)"
| "NegateConstraint (FieldNotEquals t f v) = Some (FieldEquals t f v)"
| "NegateConstraint (IndexEquals t k v) = Some (IndexNotEquals t k v)"
| "NegateConstraint (IndexNotEquals t k v) = Some (IndexEquals t k v)"
| "NegateConstraint (IndexEqualsPath t k v) = Some (IndexNotEqualsPath t k v)"
| "NegateConstraint (IndexNotEqualsPath t k v) = Some (IndexEqualsPath t k v)"
| "NegateConstraint (HasField _ _) = None"
| "NegateConstraint (KeyOf _ _) = None"

definition negateConjunction :: "'ty type_methods \<Rightarrow> 'ty sorters \<Rightarrow> 'ty Constraint list \<Rightarrow> 'ty Condition" where
  "negateConjunction I S cs =
     (if length cs = 0 then FalseCondition
      else
        let disjuncts = map (\<lambda>neg. [neg]) (List.map_filter NegateConstraint cs) in
        if length disjuncts = 0 then TrueCondition
        else normalizeCondition I S \<lparr>Disjuncts = disjuncts, normalized = False\<rparr>)"

fun not_loop ::
  "'ty type_methods \<Rightarrow> 'ty sorters \<Rightarrow> 'ty Condition \<Rightarrow> 'ty Constraint list list \<Rightarrow> 'ty Condition" where
  "not_loop I S result [] = normalizeCondition I S result"
| "not_loop I S result (cs # css) =
     (let result = cond_And I S result (negateConjunction I S cs) in
      if IsFalse result then result else not_loop I S result css)"

definition cond_Not :: "'ty type_methods \<Rightarrow> 'ty sorters \<Rightarrow> 'ty Condition \<Rightarrow> 'ty Condition" where
  "cond_Not I S c =
     (if IsFalse c then TrueCondition
      else if IsTrue c then FalseCondition
      else not_loop I S TrueCondition (Disjuncts c))"

section \<open>Comparison and substitution\<close>

definition cond_Equals :: "'ty type_methods \<Rightarrow> 'ty Condition \<Rightarrow> 'ty Condition \<Rightarrow> bool" where
  "cond_Equals I c other =
     (if length (Disjuncts c) \<noteq> length (Disjuncts other) then False
      else list_all (\<lambda>i. conjunctionEquals I (Disjuncts c ! i) None (Disjuncts other ! i) None)
             [0..<length (Disjuncts c)])"

definition cond_Subsumes :: "'ty type_methods \<Rightarrow> 'ty Condition \<Rightarrow> 'ty Condition \<Rightarrow> bool" where
  "cond_Subsumes I c other =
     (if IsTrue c then True
      else if IsTrue other then IsTrue c
      else if IsFalse c then IsFalse other
      else if IsFalse other then True
      else list_all (\<lambda>otherD.
        list_ex (\<lambda>cD. conjunctionSubsumesWithHashes I
            cD (map (constraint_Hash I) cD) otherD (map (constraint_Hash I) otherD)) (Disjuncts c))
        (Disjuncts other))"

definition cond_Hash :: "'ty type_methods \<Rightarrow> 'ty Condition \<Rightarrow> u64" where
  "cond_Hash I c =
     (if length (Disjuncts c) = 0 then 0
      else foldl (\<lambda>h d. HashCombine h (conjunctionHash I d)) FnvOffset64 (Disjuncts c))"

definition substitutePath :: "Path \<Rightarrow> Path list \<Rightarrow> Path" where
  "substitutePath p args =
     (if \<not> IsPlaceholder p then p
      else case PlaceholderArgIndex p (length args) of
        None \<Rightarrow> empty_path
      | Some idx \<Rightarrow>
          let arg = args ! idx in
          if path_IsEmpty arg then empty_path
          else if length (Segments p) = 0 then arg
          else \<lparr>Root = Root arg, Symbol = Symbol arg, Segments = Segments arg @ Segments p, Version = 0\<rparr>)"

definition substituteConstraint :: "'ty Constraint \<Rightarrow> Path list \<Rightarrow> 'ty Constraint option" where
  "substituteConstraint c args =
     MapPaths c (\<lambda>p. let sub = substitutePath p args in if path_IsEmpty sub then None else Some sub)"

definition SubstituteConjunction ::
  "'ty type_methods \<Rightarrow> 'ty sorters \<Rightarrow> 'ty Constraint list \<Rightarrow> Path list \<Rightarrow> 'ty Constraint list" where
  "SubstituteConjunction I S cs args =
     (if length cs = 0 then cs
      else canonicalizeConjunction I S (List.map_filter (\<lambda>c. substituteConstraint c args) cs))"

definition cond_Substitute ::
  "'ty type_methods \<Rightarrow> 'ty sorters \<Rightarrow> 'ty Condition \<Rightarrow> Path list \<Rightarrow> 'ty Condition" where
  "cond_Substitute I S c args =
     (if length (Disjuncts c) = 0 then c
      else normalizeCondition I S
        \<lparr>Disjuncts = map (\<lambda>cs. if length cs = 0 then cs else SubstituteConjunction I S cs args) (Disjuncts c),
         normalized = False\<rparr>)"

definition rename_path :: "((u64 \<times> int) \<times> int) list \<Rightarrow> Path \<Rightarrow> Path option" where
  "rename_path renames p =
     (if Symbol p = 0 \<or> Version p = 0 then Some p
      else case map_of renames (Symbol p, Version p) of
        Some to \<Rightarrow> Some (p\<lparr>Version := to\<rparr>)
      | None \<Rightarrow> Some p)"

text \<open>Renaming never fails, so no mapped constraint is nil.\<close>

definition RenameVersions ::
  "'ty type_methods \<Rightarrow> 'ty sorters \<Rightarrow> 'ty Condition \<Rightarrow> ((u64 \<times> int) \<times> int) list \<Rightarrow> 'ty Condition" where
  "RenameVersions I S c renames =
     (if renames = [] \<or> \<not> HasConstraints c then c
      else normalizeCondition I S
        \<lparr>Disjuncts = map (\<lambda>cs. canonicalizeConjunction I S
            (List.map_filter (\<lambda>ct. MapPaths ct (rename_path renames)) cs)) (Disjuncts c),
         normalized = False\<rparr>)"

end
