(* ===== verification/CondSemantics.thy ===== *)
theory CondSemantics
  imports Conditions "HOL-Library.Multiset"
begin

text \<open>
  What a condition means. A world gives a value to every symbol version and placeholder, a result
  to every field and index step, and answers to the type and membership questions that constraints
  ask; a constraint holds in a world or not, a conjunction when all its constraints hold, and a
  condition when one of its disjuncts does. The lemmas relate each step of normalization, which works on
  hashes and texts, to this meaning.
\<close>

record ('v, 'ty) world =
  w_nil :: 'v
  w_false :: 'v
  w_symbol :: "u64 \<Rightarrow> int \<Rightarrow> 'v"
  w_text :: "string \<Rightarrow> 'v"
  w_step :: "'v \<Rightarrow> Segment \<Rightarrow> 'v"
  w_has_type :: "'v \<Rightarrow> TypeKey \<Rightarrow> bool"
  w_has_field :: "'v \<Rightarrow> string \<Rightarrow> bool"
  w_index :: "'v \<Rightarrow> 'ty option \<Rightarrow> 'v"
  w_literal :: "'ty option \<Rightarrow> 'v"
  w_key_of :: "'v \<Rightarrow> 'v \<Rightarrow> bool"

definition root_value :: "('v, 'ty) world \<Rightarrow> Path \<Rightarrow> 'v" where
  "root_value w p = (if Symbol p \<noteq> 0 then w_symbol w (Symbol p) (Version p) else w_text w (Root p))"

definition path_value :: "('v, 'ty) world \<Rightarrow> Path \<Rightarrow> 'v" where
  "path_value w p = foldl (w_step w) (root_value w p) (Segments p)"

definition field_value :: "('v, 'ty) world \<Rightarrow> Path \<Rightarrow> string \<Rightarrow> 'v" where
  "field_value w p f = w_step w (path_value w p) \<lparr>SegKind = SegmentField, SegName = f, SegIndex = 0\<rparr>"

text \<open>Lua truthiness: everything but \<open>nil\<close> and \<open>false\<close>.\<close>

definition is_truthy :: "('v, 'ty) world \<Rightarrow> 'v \<Rightarrow> bool" where
  "is_truthy w v \<longleftrightarrow> v \<noteq> w_nil w \<and> v \<noteq> w_false w"

fun holds :: "('v, 'ty) world \<Rightarrow> 'ty Constraint \<Rightarrow> bool" where
  "holds w (Truthy p) = is_truthy w (path_value w p)"
| "holds w (Falsy p) = (\<not> is_truthy w (path_value w p))"
| "holds w (IsNil p) = (path_value w p = w_nil w)"
| "holds w (NotNil p) = (path_value w p \<noteq> w_nil w)"
| "holds w (HasType p k) = w_has_type w (path_value w p) k"
| "holds w (NotHasType p k) = (\<not> w_has_type w (path_value w p) k)"
| "holds w (HasField p f) = w_has_field w (path_value w p) f"
| "holds w (FieldEquals t f v) = (field_value w t f = w_literal w v)"
| "holds w (FieldNotEquals t f v) = (field_value w t f \<noteq> w_literal w v)"
| "holds w (IndexEquals t k v) = (w_index w (path_value w t) k = w_literal w v)"
| "holds w (IndexNotEquals t k v) = (w_index w (path_value w t) k \<noteq> w_literal w v)"
| "holds w (EqPath l r) = (path_value w l = path_value w r)"
| "holds w (NotEqPath l r) = (path_value w l \<noteq> path_value w r)"
| "holds w (FieldEqualsPath t f v) = (field_value w t f = path_value w v)"
| "holds w (FieldNotEqualsPath t f v) = (field_value w t f \<noteq> path_value w v)"
| "holds w (IndexEqualsPath t k v) = (w_index w (path_value w t) k = path_value w v)"
| "holds w (IndexNotEqualsPath t k v) = (w_index w (path_value w t) k \<noteq> path_value w v)"
| "holds w (KeyOf t k) = w_key_of w (path_value w t) (path_value w k)"

definition conj_holds :: "('v, 'ty) world \<Rightarrow> 'ty Constraint list \<Rightarrow> bool" where
  "conj_holds w cs \<longleftrightarrow> (\<forall>c\<in>set cs. holds w c)"

definition dnf_holds :: "('v, 'ty) world \<Rightarrow> 'ty Constraint list list \<Rightarrow> bool" where
  "dnf_holds w ds \<longleftrightarrow> (\<exists>d\<in>set ds. conj_holds w d)"

definition cond_holds :: "('v, 'ty) world \<Rightarrow> 'ty Condition \<Rightarrow> bool" where
  "cond_holds w c \<longleftrightarrow> dnf_holds w (Disjuncts c)"

text \<open>
  The meaning of a type value in a world depends only on what \<open>Equals\<close> compares, and sorting only
  permutes.
\<close>

definition world_ok :: "'ty type_methods \<Rightarrow> ('v, 'ty) world \<Rightarrow> bool" where
  "world_ok I w \<longleftrightarrow>
     (\<forall>a b. ty_Equals I a b \<longrightarrow>
        w_literal w (Some a) = w_literal w (Some b) \<and> (\<forall>v. w_index w v (Some a) = w_index w v (Some b)))"

definition sorts_permute :: "'ty sorters \<Rightarrow> bool" where
  "sorts_permute S \<longleftrightarrow>
     (\<forall>lt xs. mset (sort_constraints S lt xs) = mset xs)
   \<and> (\<forall>lt xs. mset (sort_disjuncts S lt xs) = mset xs)"

lemma sorts_permuteD:
  assumes "sorts_permute S"
  shows "set (sort_constraints S lt xs) = set xs" "length (sort_constraints S lt xs) = length xs"
    "set (sort_disjuncts S lt2 ys) = set ys" "length (sort_disjuncts S lt2 ys) = length ys"
  using assms unfolding sorts_permute_def by (metis mset_eq_setD mset_eq_length)+

lemma conj_holds_simps [simp]:
  "conj_holds w []" "conj_holds w (c # cs) \<longleftrightarrow> holds w c \<and> conj_holds w cs"
  "conj_holds w (as @ bs) \<longleftrightarrow> conj_holds w as \<and> conj_holds w bs"
  by (auto simp: conj_holds_def)

lemma dnf_holds_simps [simp]:
  "\<not> dnf_holds w []" "dnf_holds w (d # ds) \<longleftrightarrow> conj_holds w d \<or> dnf_holds w ds"
  "dnf_holds w (as @ bs) \<longleftrightarrow> dnf_holds w as \<or> dnf_holds w bs"
  by (auto simp: dnf_holds_def)

lemma cond_holds_simps [simp]:
  "cond_holds w TrueCondition" "\<not> cond_holds w FalseCondition"
  "cond_holds w \<lparr>Disjuncts = ds, normalized = b\<rparr> = dnf_holds w ds"
  by (simp_all add: cond_holds_def TrueCondition_def FalseCondition_def)

lemma conj_holds_set: "set as = set bs \<Longrightarrow> conj_holds w as = conj_holds w bs"
  by (simp add: conj_holds_def)

section \<open>Constraints\<close>

lemma path_value_Equal: "path_Equal p q \<Longrightarrow> path_value w p = path_value w q"
  by (auto simp: path_Equal_iff path_root_def path_value_def root_value_def split: if_splits)

lemma holds_NewEqPath [simp]:
  "holds w (NewEqPath l r) \<longleftrightarrow> path_value w l = path_value w r"
  "holds w (NewNotEqPath l r) \<longleftrightarrow> path_value w l \<noteq> path_value w r"
  by (auto simp: NewEqPath_def NewNotEqPath_def)

lemma opt_equals_world:
  assumes "world_ok I w" "opt_equals I u v"
  shows "w_literal w u = w_literal w v \<and> (\<forall>x. w_index w x u = w_index w x v)"
  using assms by (cases u; cases v) (auto simp: world_ok_def)

lemma holds_Equals:
  assumes "world_ok I w" "constraint_Equals I c d"
  shows "holds w c = holds w d"
  using assms(2)
  by (cases c) (auto simp: field_value_def dest!: path_value_Equal [of _ _ w] opt_equals_world [OF assms(1)]
      split: Constraint.splits)

lemma holds_Negate: "NegateConstraint c = Some d \<Longrightarrow> holds w d \<longleftrightarrow> \<not> holds w c"
  by (cases c) auto

lemma nil_conflict_holds: "nil_conflict c d \<Longrightarrow> \<not> (holds w c \<and> holds w d)"
proof -
  assume a: "nil_conflict c d"
  then obtain p i q j where f: "nil_fact c = Some (p, i)" "nil_fact d = Some (q, j)" and e: "path_Equal p q"
    by (auto simp: nil_conflict_def split: option.splits)
  have "path_value w p = path_value w q" using e by (rule path_value_Equal)
  then show ?thesis using a f by (cases c; cases d) (auto simp: nil_conflict_def is_truthy_def)
qed

lemma impossible_holds: "conjunctionImpossible cs \<Longrightarrow> \<not> conj_holds w cs"
  by (induction cs) (auto simp: list_ex_iff conj_holds_def split: if_splits dest: nil_conflict_holds)

section \<open>Conjunctions\<close>

lemma dedup_sorted_covers:
  "set (dedup_sorted I written xs) \<subseteq> set written \<union> set xs \<and> set written \<subseteq> set (dedup_sorted I written xs)
   \<and> (\<forall>x\<in>set xs. \<exists>y\<in>set (dedup_sorted I written xs). y = x \<or> constraint_Equals I (cwh_c y) (cwh_c x))"
proof (induction I written xs rule: dedup_sorted.induct)
  case (2 I written x xs)
  show ?case
  proof (cases "written \<noteq> [] \<and> cwh_h (last written) = cwh_h x \<and> constraint_Equals I (cwh_c (last written)) (cwh_c x)")
    case True
    then have "last written \<in> set (dedup_sorted I written xs)"
      using 2(1) [OF True] last_in_set [of written] by blast
    with True 2(1) [OF True] show ?thesis by auto
  next
    case False
    have "dedup_sorted I written (x # xs) = dedup_sorted I (written @ [x]) xs"
      by (simp only: dedup_sorted.simps False if_False)
    with 2(2) [OF False] show ?thesis by auto
  qed
qed simp

text \<open>
  Canonicalization keeps, up to \<open>Equals\<close>, the constraints it is given and adds none.
\<close>

lemma canonicalize_covers:
  assumes "sorts_permute S"
  shows "set (canonicalizeConjunction I S items) \<subseteq> set items
       \<and> (\<forall>x\<in>set items. \<exists>y\<in>set (canonicalizeConjunction I S items). y = x \<or> constraint_Equals I y x)"
proof (cases "(I, S, items)" rule: canonicalizeConjunction.cases)
  case (3 I S x y)
  then show ?thesis by (auto simp: canonicalize_pair_def Let_def)
next
  case (4 I' S' x y z rest)
  define srt where "srt = sort_constraints S (constraintSorter_Less I) (map (with_hash I) items)"
  have c: "canonicalizeConjunction I S items = map cwh_c (dedup_sorted I [] srt)"
    using 4 by (simp add: srt_def)
  have s: "set srt = with_hash I ` set items"
    by (simp add: srt_def sorts_permuteD [OF assms])
  have w [simp]: "cwh_c (with_hash I x) = x" for x by (simp add: with_hash_def)
  show ?thesis
  proof (intro conjI ballI)
    show "set (canonicalizeConjunction I S items) \<subseteq> set items"
      using dedup_sorted_covers [of I "[]" srt] s by (auto simp: c)
    fix x assume "x \<in> set items"
    then have "with_hash I x \<in> set srt" by (simp add: s)
    then obtain y where "y \<in> set (dedup_sorted I [] srt)"
        "y = with_hash I x \<or> constraint_Equals I (cwh_c y) (cwh_c (with_hash I x))"
      using dedup_sorted_covers [of I "[]" srt] by blast
    then show "\<exists>y\<in>set (canonicalizeConjunction I S items). y = x \<or> constraint_Equals I y x"
      by (auto simp: c intro!: bexI [of _ y])
  qed
qed auto

lemma covers_holds:
  assumes "world_ok I w" "set bs \<subseteq> set as" "\<forall>x\<in>set as. \<exists>y\<in>set bs. y = x \<or> constraint_Equals I y x"
  shows "conj_holds w bs = conj_holds w as"
  using assms(2,3) holds_Equals [OF assms(1)] unfolding conj_holds_def by blast

lemma canonicalize_holds:
  "world_ok I w \<Longrightarrow> sorts_permute S \<Longrightarrow> conj_holds w (canonicalizeConjunction I S items) = conj_holds w items"
  using canonicalize_covers [of S I items] covers_holds [of I w] by blast

lemma merge_loop_holds:
  assumes "world_ok I w" "sorts_permute S"
  shows "conj_holds w (merge_loop I S out a b) = (conj_holds w out \<and> conj_holds w a \<and> conj_holds w b)"
  using assms
proof (induction I S out a b rule: merge_loop.induct)
  case (1 I S out x a y b)
  have "constraint_Equals I x y \<Longrightarrow> holds w x = holds w y" by (rule holds_Equals [OF 1(4)])
  with 1 show ?case by (auto simp: Let_def canonicalize_holds)
qed simp_all

lemma contains_sound:
  "ConjunctionContains I cs c \<Longrightarrow> \<exists>d\<in>set cs. constraint_Equals I d c"
proof -
  have scan: "scan_hash I xs h c \<Longrightarrow> \<exists>d\<in>set xs. constraint_Equals I d c" for xs h
    by (induction xs) (auto split: if_splits)
  assume "ConjunctionContains I cs c"
  then show ?thesis
    by (auto simp: ConjunctionContains_def Let_def list_ex_iff split: if_splits dest!: scan dest: in_set_dropD)
qed

lemma merge_holds:
  "world_ok I w \<Longrightarrow> sorts_permute S \<Longrightarrow>
     conj_holds w (mergeConjunctions I S a b) = (conj_holds w a \<and> conj_holds w b)"
  by (simp add: mergeConjunctions_def merge_loop_holds)

lemma intersect_sound:
  assumes "world_ok I w" "conj_holds w a \<or> conj_holds w b"
  shows "conj_holds w (intersectConjunctions I a b)"
proof -
  have "conj_holds w (filter (ConjunctionContains I ys) xs)" if "conj_holds w xs \<or> conj_holds w ys" for xs ys
    using that contains_sound [of I ys] holds_Equals [OF assms(1)] unfolding conj_holds_def by auto
  with assms(2) show ?thesis by (auto simp: intersectConjunctions_def)
qed

section \<open>Facts of every disjunct\<close>

lemma min_disjunct_range:
  "min_disjunct m l i ds = (m', l') \<Longrightarrow> m' = m \<or> i \<le> m' \<and> m' < i + length ds"
  by (induction m l i ds rule: min_disjunct.induct) (auto split: if_splits)

lemma must_of_cases:
  obtains "must_of I ds = []"
  | k P where "k < length ds" "must_of I ds = filter P (ds ! k)"
      "\<And>c i. P c \<Longrightarrow> i < length ds \<Longrightarrow> i = k \<or> ConjunctionContains I (ds ! i) c"
proof (cases "length ds \<le> 1")
  case True
  then consider "ds = []" | d where "ds = [d]" by (cases ds) auto
  then show ?thesis
  proof cases
    case 2
    then show ?thesis by (intro that(2) [of 0 "\<lambda>_. True"]) (simp_all add: must_of_def)
  qed (use that(1) in \<open>simp add: must_of_def\<close>)
next
  case False
  obtain m l where ml: "min_disjunct 0 (length (ds ! 0)) 1 (drop 1 ds) = (m, l)" by fastforce
  let ?P = "\<lambda>ct. list_all (\<lambda>i. i = m \<or> ConjunctionContains I (ds ! i) ct) [0..<length ds]"
  have must: "must_of I ds = (if l = 0 then [] else filter ?P (ds ! m))"
    using False ml by (auto simp: must_of_def)
  show ?thesis
  proof (cases "l = 0")
    case nz: False
    have "must_of I ds = filter ?P (ds ! m)" using must nz by (simp only: if_False)
    moreover have "m < length ds" using min_disjunct_range [OF ml] False by auto
    moreover have "i = m \<or> ConjunctionContains I (ds ! i) c" if "?P c" "i < length ds" for c i
      using that by (simp add: list_all_iff)
    ultimately show ?thesis by (intro that(2) [of m ?P])
  qed (use must that(1) in simp)
qed

lemma must_sound:
  assumes "world_ok I w" "dnf_holds w ds"
  shows "conj_holds w (must_of I ds)"
proof (rule must_of_cases [of I ds])
  fix k P assume k: "k < length ds" "must_of I ds = filter P (ds ! k)"
    and P: "\<And>c i. P c \<Longrightarrow> i < length ds \<Longrightarrow> i = k \<or> ConjunctionContains I (ds ! i) c"
  from assms(2) obtain i where i: "i < length ds" "conj_holds w (ds ! i)"
    by (auto simp: dnf_holds_def in_set_conv_nth)
  show ?thesis
    unfolding conj_holds_def k(2)
  proof
    fix c assume c: "c \<in> set (filter P (ds ! k))"
    show "holds w c"
      using P [of c i] c i contains_sound [of I "ds ! i" c] holds_Equals [OF assms(1)]
      by (auto simp: conj_holds_def)
  qed
qed simp

lemma impossible_filter: "conjunctionImpossible (filter P cs) \<Longrightarrow> conjunctionImpossible cs"
  by (induction cs) (auto simp: list_ex_iff split: if_splits)

lemma must_possible: "(\<And>d. d \<in> set ds \<Longrightarrow> \<not> conjunctionImpossible d) \<Longrightarrow> \<not> conjunctionImpossible (must_of I ds)"
  by (rule must_of_cases [of I ds]) (auto dest: impossible_filter)

section \<open>Subsumption\<close>

lemma subsumes_loop_sound:
  "subsumes_loop I as bs \<Longrightarrow> (h, c) \<in> set as \<Longrightarrow> \<exists>(h', b)\<in>set bs. constraint_Equals I b c"
proof (induction I as bs rule: subsumes_loop.induct)
  case (2 I t ct as bs)
  define bs' where "bs' = dropWhile (\<lambda>(h, _). h < t) bs"
  have sub: "set bs' \<subseteq> set bs" "set (takeWhile (\<lambda>(h, _). h \<le> t) bs') \<subseteq> set bs'"
    by (auto simp: bs'_def dest: set_dropWhileD set_takeWhileD)
  have step: "list_ex (\<lambda>(h, b). h = t \<and> constraint_Equals I b ct) (takeWhile (\<lambda>(h, _). h \<le> t) bs')"
      "subsumes_loop I as bs'" "\<not> (bs' = [] \<or> fst (hd bs') > t)"
    using 2(2) by (auto simp: Let_def bs'_def split: if_splits)
  from 2(3) consider "(h, c) = (t, ct)" | "(h, c) \<in> set as" by auto
  then show ?case
  proof cases
    case 1
    then show ?thesis using step(1) sub by (fastforce simp: list_ex_iff)
  next
    case 2
    then show ?thesis using "2.IH" [OF bs'_def step(3,1,2)] sub by fastforce
  qed
qed simp

lemma subsumes_core_sound:
  assumes "subsumes_core I a ah b bh" "length ah = length a" "c \<in> set a"
  shows "\<exists>d\<in>set b. constraint_Equals I d c"
proof -
  have "a \<noteq> []" using assms by auto
  then have l: "subsumes_loop I (zip ah a) (zip bh b)"
    using assms(1) by (auto simp: subsumes_core_def split: if_splits)
  obtain h where "(h, c) \<in> set (zip ah a)"
    using assms(2,3) by (metis in_set_impl_in_set_zip2)
  from subsumes_loop_sound [OF l this] show ?thesis by (auto dest: set_zip_rightD)
qed

lemma subsumes_sound:
  "conjunctionSubsumesWithHashes I a ah b bh \<Longrightarrow> c \<in> set a \<Longrightarrow> \<exists>d\<in>set b. constraint_Equals I d c"
  by (auto simp: conjunctionSubsumesWithHashes_def conjunctionSubsumes_def split: if_splits
      dest: subsumes_core_sound)

lemma subsumes_holds:
  assumes "world_ok I w" "conjunctionSubsumesWithHashes I a ah b bh" "conj_holds w b"
  shows "conj_holds w a"
  using subsumes_sound [OF assms(2)] assms(3) holds_Equals [OF assms(1)] unfolding conj_holds_def by blast

lemma conjunctionEquals_nth:
  "conjunctionEquals I a ah b bh \<Longrightarrow> length a = length b \<and> (\<forall>i<length a. constraint_Equals I (a ! i) (b ! i))"
  by (auto simp: conjunctionEquals_def list_all_iff split: if_splits)

lemma conjunctionEquals_holds:
  assumes "world_ok I w" "conjunctionEquals I a ah b bh"
  shows "conj_holds w a = conj_holds w b"
proof -
  have "\<forall>i<length a. holds w (a ! i) = holds w (b ! i)"
    using conjunctionEquals_nth [OF assms(2)] holds_Equals [OF assms(1)] by blast
  then show ?thesis using conjunctionEquals_nth [OF assms(2)] by (simp add: conj_holds_def all_set_conv_all_nth)
qed

section \<open>Normalization\<close>

definition redundant :: "'ty type_methods \<Rightarrow> 'ty disjunctWithHash list \<Rightarrow> 'ty disjunctWithHash \<Rightarrow> bool" where
  "redundant I kept dh \<longleftrightarrow>
     (\<exists>kh\<in>set kept. dwh_hash dh = dwh_hash kh \<and>
        conjunctionEquals I (dwh_conj dh) (Some (dwh_hashes dh)) (dwh_conj kh) (Some (dwh_hashes kh)))
   \<or> (\<exists>kh\<in>set kept. conjunctionSubsumesWithHashes I (dwh_conj kh) (dwh_hashes kh) (dwh_conj dh) (dwh_hashes dh))"

lemma keep_disjuncts_Cons:
  "keep_disjuncts I kept (dh # rest) = keep_disjuncts I (if redundant I kept dh then kept else kept @ [dh]) rest"
  by (auto simp: redundant_def list_ex_iff)

declare keep_disjuncts.simps(2) [simp del]

lemma redundant_nonempty: "redundant I kept dh \<Longrightarrow> kept \<noteq> []"
  by (auto simp: redundant_def)

lemma keep_disjuncts_sub:
  "set (keep_disjuncts I kept rest) \<subseteq> set kept \<union> set rest
   \<and> length (keep_disjuncts I kept rest) \<le> length kept + length rest
   \<and> (kept @ rest \<noteq> [] \<longrightarrow> keep_disjuncts I kept rest \<noteq> [])"
proof (induction rest arbitrary: kept)
  case (Cons dh rest)
  show ?case
    using Cons [of kept] Cons [of "kept @ [dh]"] redundant_nonempty [of I kept dh]
    by (auto simp: keep_disjuncts_Cons)
qed simp

lemma redundant_holds:
  assumes "world_ok I w" "redundant I kept dh" "conj_holds w (dwh_conj dh)"
  shows "dnf_holds w (map dwh_conj kept)"
proof -
  obtain kh where "kh \<in> set kept" "conj_holds w (dwh_conj kh)"
    using assms conjunctionEquals_holds [OF assms(1)] subsumes_holds [OF assms(1)]
    unfolding redundant_def by blast
  then show ?thesis by (auto simp: dnf_holds_def)
qed

lemma keep_disjuncts_holds:
  assumes "world_ok I w"
  shows "dnf_holds w (map dwh_conj (keep_disjuncts I kept rest)) =
         (dnf_holds w (map dwh_conj kept) \<or> dnf_holds w (map dwh_conj rest))"
proof (induction rest arbitrary: kept)
  case (Cons dh rest)
  show ?case
    using Cons redundant_holds [OF assms, of kept dh] by (auto simp: keep_disjuncts_Cons)
qed simp

definition possible_disjuncts :: "'ty Condition \<Rightarrow> 'ty Constraint list list" where
  "possible_disjuncts c =
     (if normalized c then Disjuncts c else filter (\<lambda>d. \<not> conjunctionImpossible d) (Disjuncts c))"

lemma possible_disjuncts_holds: "dnf_holds w (possible_disjuncts c) = cond_holds w c"
  using impossible_holds by (auto simp: possible_disjuncts_def cond_holds_def dnf_holds_def)

lemma normalizeCondition_cases:
  assumes "sorts_permute S"
  obtains "possible_disjuncts c = []" "normalizeCondition I S c = FalseCondition"
  | "list_ex (\<lambda>d. d = []) (possible_disjuncts c)" "normalizeCondition I S c = TrueCondition"
  | d where "possible_disjuncts c = [d]" "d \<noteq> []" "normalizeCondition I S c = \<lparr>Disjuncts = [d], normalized = True\<rparr>"
  | kept where "kept \<noteq> []" "set kept \<subseteq> set (possible_disjuncts c)" "\<forall>d\<in>set (possible_disjuncts c). d \<noteq> []"
      "length kept \<le> length (possible_disjuncts c)"
      "\<And>w :: ('v, 'ty) world. world_ok I w \<Longrightarrow> dnf_holds w kept = dnf_holds w (possible_disjuncts c)"
      "normalizeCondition I S c =
         (if length kept > DefaultMaxDisjuncts
          then if must_of I kept = [] then TrueCondition else \<lparr>Disjuncts = [must_of I kept], normalized = True\<rparr>
          else \<lparr>Disjuncts = kept, normalized = True\<rparr>)"
proof -
  define ds where "ds = possible_disjuncts c"
  have n: "normalizeCondition I S c =
      (if length ds = 0 then \<lparr>Disjuncts = ds, normalized = True\<rparr>
      else if list_ex (\<lambda>d. length d = 0) ds then TrueCondition
      else if length ds = 1 then \<lparr>Disjuncts = ds, normalized = True\<rparr>
      else
        let kept = keep_disjuncts I [] (sort_disjuncts S (disjunctSorter_Less I) (map (with_hashes I) ds));
            result = map dwh_conj kept in
        if length kept > DefaultMaxDisjuncts then
          let must = must_of I result in
          if length must = 0 then TrueCondition else \<lparr>Disjuncts = [must], normalized = True\<rparr>
        else \<lparr>Disjuncts = result, normalized = True\<rparr>)"
  proof -
    have "(if \<not> normalized c \<and> length (Disjuncts c) > 0
        then filter (\<lambda>d. \<not> conjunctionImpossible d) (Disjuncts c) else Disjuncts c) = ds"
      by (auto simp: ds_def possible_disjuncts_def)
    then show ?thesis unfolding normalizeCondition_def by simp
  qed
  consider "ds = []" | "ds \<noteq> []" "list_ex (\<lambda>d. d = []) ds" | d where "ds = [d]" "d \<noteq> []"
    | "length ds > 1" "\<not> list_ex (\<lambda>d. d = []) ds"
    by (cases ds rule: list.exhaust; cases "tl ds") auto
  then show ?thesis
  proof cases
    case 4
    define srt where "srt = sort_disjuncts S (disjunctSorter_Less I) (map (with_hashes I) ds)"
    define kept where "kept = map dwh_conj (keep_disjuncts I [] srt)"
    have wc [simp]: "dwh_conj (with_hashes I d) = d" for d by (simp add: with_hashes_def split: prod.splits)
    have s: "set srt = with_hashes I ` set ds" "length srt = length ds"
      by (simp_all add: srt_def sorts_permuteD [OF assms])
    show ?thesis
    proof (rule that(4) [of kept])
      show "kept \<noteq> []" using keep_disjuncts_sub [of I "[]" srt] s 4 by (auto simp: kept_def)
      show "set kept \<subseteq> set (possible_disjuncts c)" "length kept \<le> length (possible_disjuncts c)"
        using keep_disjuncts_sub [of I "[]" srt] s by (auto simp: kept_def ds_def [symmetric])
      show "\<forall>d\<in>set (possible_disjuncts c). d \<noteq> []" using 4 by (auto simp: ds_def [symmetric] list_ex_iff)
      show "dnf_holds w kept = dnf_holds w (possible_disjuncts c)" if "world_ok I w" for w :: "('v, 'ty) world"
        using keep_disjuncts_holds [OF that, of "[]" srt] s by (simp add: kept_def ds_def [symmetric] dnf_holds_def)
      show "normalizeCondition I S c =
         (if length kept > DefaultMaxDisjuncts
          then if must_of I kept = [] then TrueCondition else \<lparr>Disjuncts = [must_of I kept], normalized = True\<rparr>
          else \<lparr>Disjuncts = kept, normalized = True\<rparr>)"
        unfolding n using 4 by (auto simp: Let_def kept_def srt_def)
    qed
  qed (use n that in \<open>auto simp: ds_def [symmetric] FalseCondition_def list_ex_iff\<close>)
qed

end
