(* ===== verification/CondProps.thy ===== *)
theory CondProps
  imports CondSemantics
begin

text \<open>
  Properties of the condition algebra of \<open>types/constraint/condition.go\<close>: the meaning of
  conjunction, disjunction and negation, the invariant of the conditions they build, uniqueness of
  canonical conjunctions, the lookup in them, and substitution of arguments for placeholders.
\<close>

section \<open>Meaning of normalization\<close>

lemma dnf_holds_empty: "[] \<in> set ds \<Longrightarrow> dnf_holds w ds"
  unfolding dnf_holds_def by (rule bexI [of _ "[]"]) simp_all

lemma normalize_sound:
  fixes w :: "('v, 'ty) world"
  assumes "sorts_permute S" "world_ok I w" "cond_holds w c"
  shows "cond_holds w (normalizeCondition I S c)"
proof -
  have p: "dnf_holds w (possible_disjuncts c)" using assms(3) by (simp add: possible_disjuncts_holds)
  show ?thesis
  proof (rule normalizeCondition_cases [OF assms(1), of c I, where ?'v = 'v])
    fix kept
    assume "\<And>w :: ('v, 'ty) world. world_ok I w \<Longrightarrow> dnf_holds w kept = dnf_holds w (possible_disjuncts c)"
    then have "dnf_holds w kept" using p assms(2) by blast
    moreover from this have "conj_holds w (must_of I kept)" by (rule must_sound [OF assms(2)])
    moreover assume "normalizeCondition I S c =
         (if length kept > DefaultMaxDisjuncts
          then if must_of I kept = [] then TrueCondition else \<lparr>Disjuncts = [must_of I kept], normalized = True\<rparr>
          else \<lparr>Disjuncts = kept, normalized = True\<rparr>)"
    ultimately show ?thesis by auto
  qed (use p in auto)
qed

lemma normalize_exact:
  fixes w :: "('v, 'ty) world"
  assumes "sorts_permute S" "world_ok I w" "length (Disjuncts c) \<le> DefaultMaxDisjuncts"
  shows "cond_holds w (normalizeCondition I S c) = cond_holds w c"
proof (rule normalizeCondition_cases [OF assms(1), of c I, where ?'v = 'v])
  assume "list_ex (\<lambda>d. d = []) (possible_disjuncts c)" "normalizeCondition I S c = TrueCondition"
  then show ?thesis
    using possible_disjuncts_holds [of w c] dnf_holds_empty [of "possible_disjuncts c" w] by (auto simp: list_ex_iff)
next
  fix kept
  assume k: "length kept \<le> length (possible_disjuncts c)"
      "\<And>w :: ('v, 'ty) world. world_ok I w \<Longrightarrow> dnf_holds w kept = dnf_holds w (possible_disjuncts c)"
      "normalizeCondition I S c =
         (if length kept > DefaultMaxDisjuncts
          then if must_of I kept = [] then TrueCondition else \<lparr>Disjuncts = [must_of I kept], normalized = True\<rparr>
          else \<lparr>Disjuncts = kept, normalized = True\<rparr>)"
  have "length (possible_disjuncts c) \<le> length (Disjuncts c)" by (simp add: possible_disjuncts_def)
  with k(1) assms(3) have "\<not> length kept > DefaultMaxDisjuncts" by simp
  with k(3) have "cond_holds w (normalizeCondition I S c) = dnf_holds w kept" by simp
  with k(2) [OF assms(2)] show ?thesis using possible_disjuncts_holds [of w c] by simp
qed (use possible_disjuncts_holds [of w c] in auto)

lemma IsTrue_holds: "IsTrue c \<Longrightarrow> cond_holds w c"
  using dnf_holds_empty [of "Disjuncts c" w] by (auto simp: IsTrue_def cond_holds_def list_ex_iff)

lemma IsFalse_holds: "IsFalse c \<Longrightarrow> \<not> cond_holds w c"
  by (simp add: IsFalse_def cond_holds_def)

lemma FromConstraints_holds:
  assumes "sorts_permute S" "world_ok I w"
  shows "cond_holds w (FromConstraints I S items) = conj_holds w items"
proof (cases "items = []")
  case False
  then show ?thesis
    using canonicalize_holds [OF assms(2,1), of items] impossible_holds [of "canonicalizeConjunction I S items" w]
    by (simp add: FromConstraints_def Let_def)
qed (simp add: FromConstraints_def)

lemma FromDisjuncts_holds:
  assumes "sorts_permute S" "world_ok I w" "ds \<noteq> []" "length ds \<le> DefaultMaxDisjuncts"
  shows "cond_holds w (FromDisjuncts I S ds) = dnf_holds w ds"
  using assms by (simp add: FromDisjuncts_def normalize_exact dnf_holds_def canonicalize_holds)

section \<open>Conjunction\<close>

lemma and_product_set: "set (and_product I S as bs) = (\<Union>da\<in>set as. and_merge I S da ` set bs)"
  by (simp add: and_product_def)

lemma and_merge_holds:
  "sorts_permute S \<Longrightarrow> world_ok I w \<Longrightarrow>
     conj_holds w (and_merge I S da db) = (conj_holds w da \<and> conj_holds w db)"
  by (simp add: and_merge_def merge_holds)

lemma and_product_holds:
  assumes "sorts_permute S" "world_ok I w"
  shows "dnf_holds w (and_product I S as bs) = (dnf_holds w as \<and> dnf_holds w bs)"
  using and_merge_holds [OF assms] by (simp add: dnf_holds_def and_product_set)

lemma and_product_length: "length (and_product I S as bs) = length as * length bs"
  by (simp add: and_product_def length_concat comp_def sum_list_triv)

lemma single_holds: "length (Disjuncts c) = 1 \<Longrightarrow> cond_holds w c = conj_holds w (Disjuncts c ! 0)"
  by (cases "Disjuncts c") (auto simp: cond_holds_def)

lemma must_cond_sound: "world_ok I w \<Longrightarrow> cond_holds w c \<Longrightarrow> conj_holds w (MustConstraints I c)"
  by (simp add: MustConstraints_def cond_holds_def must_sound)

text \<open>The branches of \<open>And\<close>; \<open>and_split\<close> is the operand it keeps and the one it reduces to common facts.\<close>

definition and_split :: "'ty Condition \<Rightarrow> 'ty Condition \<Rightarrow> 'ty Condition \<times> 'ty Condition" where
  "and_split a b = (if length (Disjuncts a) < length (Disjuncts b) then (a, b) else (b, a))"

definition neither_trivial :: "'ty Condition \<Rightarrow> 'ty Condition \<Rightarrow> bool" where
  "neither_trivial a b \<longleftrightarrow> \<not> IsFalse a \<and> \<not> IsFalse b \<and> \<not> IsTrue a \<and> \<not> IsTrue b"

definition both_single :: "'ty Condition \<Rightarrow> 'ty Condition \<Rightarrow> bool" where
  "both_single a b \<longleftrightarrow> length (Disjuncts a) = 1 \<and> length (Disjuncts b) = 1"

lemma cond_And_branches:
  "IsFalse a \<or> IsFalse b \<Longrightarrow> cond_And I S a b = FalseCondition"
  "\<not> IsFalse a \<Longrightarrow> \<not> IsFalse b \<Longrightarrow> IsTrue a \<Longrightarrow> cond_And I S a b = b"
  "\<not> IsFalse a \<Longrightarrow> \<not> IsFalse b \<Longrightarrow> \<not> IsTrue a \<Longrightarrow> IsTrue b \<Longrightarrow> cond_And I S a b = a"
  "neither_trivial a b \<Longrightarrow> both_single a b \<Longrightarrow> cond_And I S a b =
     (let merged = mergeConjunctions I S (Disjuncts a ! 0) (Disjuncts b ! 0) in
      if conjunctionImpossible merged then FalseCondition else \<lparr>Disjuncts = [merged], normalized = True\<rparr>)"
  "neither_trivial a b \<Longrightarrow> \<not> both_single a b \<Longrightarrow>
     length (Disjuncts a) * length (Disjuncts b) > DefaultMaxDisjuncts \<Longrightarrow> cond_And I S a b =
     (if length (MustConstraints I (snd (and_split a b))) = 0 then fst (and_split a b)
      else cond_And I S (fst (and_split a b)) (FromConstraints I S (MustConstraints I (snd (and_split a b)))))"
  "neither_trivial a b \<Longrightarrow> \<not> both_single a b \<Longrightarrow>
     length (Disjuncts a) * length (Disjuncts b) \<le> DefaultMaxDisjuncts \<Longrightarrow> cond_And I S a b =
     normalizeCondition I S \<lparr>Disjuncts = and_product I S (Disjuncts a) (Disjuncts b), normalized = False\<rparr>"
proof -
  show "IsFalse a \<or> IsFalse b \<Longrightarrow> cond_And I S a b = FalseCondition"
    unfolding cond_And.simps [of I S a b] by simp
  show "\<not> IsFalse a \<Longrightarrow> \<not> IsFalse b \<Longrightarrow> IsTrue a \<Longrightarrow> cond_And I S a b = b"
    unfolding cond_And.simps [of I S a b] by simp
  show "\<not> IsFalse a \<Longrightarrow> \<not> IsFalse b \<Longrightarrow> \<not> IsTrue a \<Longrightarrow> IsTrue b \<Longrightarrow> cond_And I S a b = a"
    unfolding cond_And.simps [of I S a b] by simp
  show "neither_trivial a b \<Longrightarrow> both_single a b \<Longrightarrow> cond_And I S a b =
     (let merged = mergeConjunctions I S (Disjuncts a ! 0) (Disjuncts b ! 0) in
      if conjunctionImpossible merged then FalseCondition else \<lparr>Disjuncts = [merged], normalized = True\<rparr>)"
    unfolding cond_And.simps [of I S a b] by (simp add: neither_trivial_def both_single_def)
  show "cond_And I S a b =
     (if length (MustConstraints I (snd (and_split a b))) = 0 then fst (and_split a b)
      else cond_And I S (fst (and_split a b)) (FromConstraints I S (MustConstraints I (snd (and_split a b)))))"
    if "neither_trivial a b" "\<not> both_single a b"
      "length (Disjuncts a) * length (Disjuncts b) > DefaultMaxDisjuncts"
    by (subst cond_And.simps) (use that in \<open>auto simp: neither_trivial_def both_single_def and_split_def Let_def\<close>)
  show "neither_trivial a b \<Longrightarrow> \<not> both_single a b \<Longrightarrow>
     length (Disjuncts a) * length (Disjuncts b) \<le> DefaultMaxDisjuncts \<Longrightarrow> cond_And I S a b =
     normalizeCondition I S \<lparr>Disjuncts = and_product I S (Disjuncts a) (Disjuncts b), normalized = False\<rparr>"
    unfolding cond_And.simps [of I S a b] by (auto simp: neither_trivial_def both_single_def)
qed

text \<open>An induction over the operands along the recursive call of \<open>And\<close>.\<close>

lemma cond_And_induct:
  assumes "\<And>a b. (neither_trivial a b \<Longrightarrow> \<not> both_single a b \<Longrightarrow>
      length (Disjuncts a) * length (Disjuncts b) > DefaultMaxDisjuncts \<Longrightarrow>
      length (MustConstraints I (snd (and_split a b))) \<noteq> 0 \<Longrightarrow>
      P (fst (and_split a b)) (FromConstraints I S (MustConstraints I (snd (and_split a b))))) \<Longrightarrow> P a b"
  shows "P a b"
proof -
  have "I' = I \<longrightarrow> S' = S \<longrightarrow> P a b" for I' S' a b
  proof (induction I' S' a b rule: cond_And.induct)
    case (1 I' S' a b)
    show ?case
    proof (intro impI, rule assms)
      assume "I' = I" "S' = S" "neither_trivial a b" "\<not> both_single a b"
        "length (Disjuncts a) * length (Disjuncts b) > DefaultMaxDisjuncts"
        "length (MustConstraints I (snd (and_split a b))) \<noteq> 0"
      then show "P (fst (and_split a b)) (FromConstraints I S (MustConstraints I (snd (and_split a b))))"
        using 1 [of "and_split a b" "fst (and_split a b)" "snd (and_split a b)"]
        by (simp add: neither_trivial_def both_single_def) (simp add: and_split_def)
    qed
  qed
  then show ?thesis by simp
qed

lemma and_split_holds:
  "cond_holds w a \<and> cond_holds w b \<longleftrightarrow> cond_holds w (fst (and_split a b)) \<and> cond_holds w (snd (and_split a b))"
  by (auto simp: and_split_def)

lemma and_single_holds:
  assumes "sorts_permute S" "world_ok I w" "neither_trivial a b" "both_single a b"
  shows "cond_holds w (cond_And I S a b) = (cond_holds w a \<and> cond_holds w b)"
proof -
  have "conj_holds w (mergeConjunctions I S (Disjuncts a ! 0) (Disjuncts b ! 0)) = (cond_holds w a \<and> cond_holds w b)"
    using assms(4) by (simp add: both_single_def single_holds merge_holds [OF assms(2,1)])
  then show ?thesis
    using impossible_holds [of "mergeConjunctions I S (Disjuncts a ! 0) (Disjuncts b ! 0)" w]
    by (simp add: cond_And_branches(4) [OF assms(3,4)] Let_def)
qed

lemma and_trivial_holds:
  "\<not> neither_trivial a b \<Longrightarrow> cond_holds w (cond_And I S a b) = (cond_holds w a \<and> cond_holds w b)"
  using IsTrue_holds [of a w] IsTrue_holds [of b w] IsFalse_holds [of a w] IsFalse_holds [of b w]
  by (cases "IsFalse a \<or> IsFalse b"; cases "IsTrue a")
    (auto simp: neither_trivial_def cond_And_branches(1-3))

lemma and_sound:
  assumes "sorts_permute S" "world_ok I w"
  shows "cond_holds w a \<and> cond_holds w b \<longrightarrow> cond_holds w (cond_And I S a b)"
proof (induction a b rule: cond_And_induct [where I = I and S = S])
  case (1 a b)
  show ?case
  proof (cases "neither_trivial a b \<and> \<not> both_single a b")
    case False
    then show ?thesis
      using and_trivial_holds [of a b w I S] and_single_holds [OF assms, of a b] by blast
  next
    case nontrivial: True
    show ?thesis
    proof (cases "length (Disjuncts a) * length (Disjuncts b) > DefaultMaxDisjuncts")
      case True
      show ?thesis
        using 1 nontrivial True and_split_holds [of w a b] must_cond_sound [OF assms(2), of "snd (and_split a b)"]
        by (auto simp: cond_And_branches(5) FromConstraints_holds [OF assms])
    next
      case False
      then show ?thesis
        using nontrivial normalize_sound [OF assms,
            of "\<lparr>Disjuncts = and_product I S (Disjuncts a) (Disjuncts b), normalized = False\<rparr>"]
        by (simp add: cond_And_branches(6) and_product_holds [OF assms] cond_holds_def)
    qed
  qed
qed

lemma and_exact:
  assumes "sorts_permute S" "world_ok I w" "length (Disjuncts a) * length (Disjuncts b) \<le> DefaultMaxDisjuncts"
  shows "cond_holds w (cond_And I S a b) = (cond_holds w a \<and> cond_holds w b)"
proof (cases "neither_trivial a b \<and> \<not> both_single a b")
  case False
  then show ?thesis using and_trivial_holds and_single_holds [OF assms(1,2)] by blast
next
  case True
  have "cond_holds w (normalizeCondition I S
        \<lparr>Disjuncts = and_product I S (Disjuncts a) (Disjuncts b), normalized = False\<rparr>) = (cond_holds w a \<and> cond_holds w b)"
    by (subst normalize_exact [OF assms(1,2)])
      (use assms in \<open>simp_all add: and_product_holds and_product_length cond_holds_def\<close>)
  with True assms(3) show ?thesis by (simp add: cond_And_branches(6))
qed

section \<open>Disjunction\<close>

lemma or_sound:
  assumes "sorts_permute S" "world_ok I w" "cond_holds w a \<or> cond_holds w b"
  shows "cond_holds w (cond_Or I S a b)"
proof (cases "IsFalse a \<or> IsFalse b \<or> IsTrue a \<or> IsTrue b")
  case True
  then show ?thesis using assms(3) IsFalse_holds [of a w] IsFalse_holds [of b w] by (auto simp: cond_Or_def)
next
  case False
  have "conj_holds w (intersectConjunctions I (MustConstraints I a) (MustConstraints I b))"
    using intersect_sound [OF assms(2)] must_cond_sound [OF assms(2)] assms(3) by blast
  moreover have "cond_holds w (normalizeCondition I S
      \<lparr>Disjuncts = Disjuncts a @ Disjuncts b, normalized = normalized a \<and> normalized b\<rparr>)"
    by (rule normalize_sound [OF assms(1,2)]) (use assms(3) in \<open>simp add: cond_holds_def\<close>)
  ultimately show ?thesis using False by (simp add: cond_Or_def Let_def)
qed

lemma or_exact:
  assumes "sorts_permute S" "world_ok I w" "length (Disjuncts a) + length (Disjuncts b) \<le> DefaultMaxDisjuncts"
  shows "cond_holds w (cond_Or I S a b) = (cond_holds w a \<or> cond_holds w b)"
proof (cases "IsFalse a \<or> IsFalse b \<or> IsTrue a \<or> IsTrue b")
  case True
  then show ?thesis
    using IsFalse_holds [of a w] IsFalse_holds [of b w] IsTrue_holds [of a w] IsTrue_holds [of b w]
    by (auto simp: cond_Or_def)
next
  case False
  then show ?thesis
    using assms(3) by (simp add: cond_Or_def Let_def normalize_exact [OF assms(1,2)]) (simp add: cond_holds_def)
qed

section \<open>Negation\<close>

definition negatable :: "'ty Condition \<Rightarrow> bool" where
  "negatable c \<longleftrightarrow> (\<forall>d\<in>set (Disjuncts c). \<forall>ct\<in>set d. NegateConstraint ct \<noteq> None)"

lemma map_filter_singletons:
  "dnf_holds w (map (\<lambda>neg. [neg]) (List.map_filter NegateConstraint cs)) \<longleftrightarrow>
     (\<exists>c\<in>set cs. NegateConstraint c \<noteq> None \<and> \<not> holds w c)"
  by (induction cs) (auto simp: List.map_filter_def holds_Negate)

lemma map_filter_length: "length (List.map_filter f xs) \<le> length xs"
  by (simp add: List.map_filter_def)

lemma map_filter_Nil: "(\<And>x. x \<in> set xs \<Longrightarrow> f x \<noteq> None) \<Longrightarrow> List.map_filter f xs = [] \<longleftrightarrow> xs = []"
  by (cases xs) (auto simp: List.map_filter_def)

lemma negate_sound:
  assumes "sorts_permute S" "world_ok I w" "\<forall>c\<in>set cs. NegateConstraint c \<noteq> None" "\<not> conj_holds w cs"
  shows "cond_holds w (negateConjunction I S cs)"
proof -
  have "dnf_holds w (map (\<lambda>neg. [neg]) (List.map_filter NegateConstraint cs))"
    using assms(3,4) by (auto simp: map_filter_singletons conj_holds_def)
  then have "cond_holds w (normalizeCondition I S
      \<lparr>Disjuncts = map (\<lambda>neg. [neg]) (List.map_filter NegateConstraint cs), normalized = False\<rparr>)"
    by (intro normalize_sound [OF assms(1,2)]) simp
  then show ?thesis using assms(4) by (cases "cs = []") (simp_all add: negateConjunction_def Let_def)
qed

lemma negate_exact:
  assumes "sorts_permute S" "world_ok I w" "\<forall>c\<in>set cs. NegateConstraint c \<noteq> None"
    "length cs \<le> DefaultMaxDisjuncts"
  shows "cond_holds w (negateConjunction I S cs) = (\<not> conj_holds w cs)"
proof (cases "cs = []")
  case False
  have "List.map_filter NegateConstraint cs \<noteq> []"
    using False by (subst map_filter_Nil) (use assms(3) in auto)
  moreover have "length (List.map_filter NegateConstraint cs) \<le> DefaultMaxDisjuncts"
    using map_filter_length [of NegateConstraint cs] assms(4) by simp
  ultimately have "cond_holds w (negateConjunction I S cs) \<longleftrightarrow>
      (\<exists>c\<in>set cs. NegateConstraint c \<noteq> None \<and> \<not> holds w c)"
    using False
    by (simp only: negateConjunction_def Let_def length_0_conv if_False length_map map_is_Nil_conv
        normalize_exact [OF assms(1,2)] cond_holds_simps map_filter_singletons Condition.select_convs)
  then show ?thesis using assms(3) unfolding conj_holds_def by blast
qed (simp add: negateConjunction_def)

lemma not_loop_sound:
  assumes "sorts_permute S" "world_ok I w" "cond_holds w result"
    "\<forall>d\<in>set ds. \<not> conj_holds w d \<and> (\<forall>c\<in>set d. NegateConstraint c \<noteq> None)"
  shows "cond_holds w (not_loop I S result ds)"
  using assms(3,4)
proof (induction ds arbitrary: result)
  case Nil
  then show ?case by (simp add: normalize_sound [OF assms(1,2)])
next
  case (Cons d ds)
  have "cond_holds w (negateConjunction I S d)"
    using Cons.prems(2) by (intro negate_sound [OF assms(1,2)]) auto
  then have "cond_holds w (cond_And I S result (negateConjunction I S d))"
    using and_sound [OF assms(1,2)] Cons.prems(1) by blast
  then show ?case using Cons.IH Cons.prems(2) by (simp add: Let_def)
qed

lemma normalize_length:
  assumes "sorts_permute S"
  shows "length (Disjuncts (normalizeCondition I S c)) \<le> max 1 (length (Disjuncts c))"
proof -
  have p: "length (possible_disjuncts c) \<le> length (Disjuncts c)" by (simp add: possible_disjuncts_def)
  show ?thesis
    by (rule normalizeCondition_cases [OF assms, of c I])
      (use p in \<open>auto simp: TrueCondition_def FalseCondition_def\<close>)
qed

lemma and_length:
  assumes "sorts_permute S" "\<not> IsFalse a" "\<not> IsFalse b"
    "length (Disjuncts a) * length (Disjuncts b) \<le> DefaultMaxDisjuncts"
  shows "length (Disjuncts (cond_And I S a b)) \<le> length (Disjuncts a) * length (Disjuncts b)"
proof -
  have ge: "1 \<le> length (Disjuncts a)" "1 \<le> length (Disjuncts b)" using assms(2,3) by (simp_all add: IsFalse_def Suc_le_eq)
  then have prod: "length (Disjuncts a) \<le> length (Disjuncts a) * length (Disjuncts b)"
      "length (Disjuncts b) \<le> length (Disjuncts a) * length (Disjuncts b)" by auto
  show ?thesis
  proof (cases "IsTrue a \<or> IsTrue b")
    case True
    then show ?thesis using assms prod by (cases "IsTrue a") (simp_all add: cond_And_branches)
  next
    case False
    then have nt: "neither_trivial a b" using assms by (simp add: neither_trivial_def)
    show ?thesis
    proof (cases "both_single a b")
      case True
      then show ?thesis
        by (simp add: cond_And_branches(4) [OF nt True] Let_def FalseCondition_def) (simp add: both_single_def)
    next
      case False
      have "1 \<le> length (Disjuncts a) * length (Disjuncts b)" using ge by (simp add: Suc_le_eq)
      then show ?thesis
        using normalize_length [OF assms(1), of I
            "\<lparr>Disjuncts = and_product I S (Disjuncts a) (Disjuncts b), normalized = False\<rparr>"]
        by (simp add: cond_And_branches(6) [OF nt False assms(4)] and_product_length max_def split: if_splits)
    qed
  qed
qed

lemma negate_length:
  assumes "sorts_permute S" "cs \<noteq> []"
  shows "length (Disjuncts (negateConjunction I S cs)) \<le> length cs"
proof -
  have "length (List.map_filter NegateConstraint cs) \<le> length cs" by (rule map_filter_length)
  moreover have "1 \<le> length cs" using assms(2) by (cases cs) auto
  ultimately show ?thesis
    using assms(2) normalize_length [OF assms(1), of I
        "\<lparr>Disjuncts = map (\<lambda>neg. [neg]) (List.map_filter NegateConstraint cs), normalized = False\<rparr>"]
    by (auto simp: negateConjunction_def Let_def TrueCondition_def)
qed

lemma not_loop_exact:
  assumes "sorts_permute S" "world_ok I w" "\<not> IsFalse result"
    "\<forall>d\<in>set ds. d \<noteq> [] \<and> (\<forall>c\<in>set d. NegateConstraint c \<noteq> None)"
    "length (Disjuncts result) * prod_list (map length ds) \<le> DefaultMaxDisjuncts"
  shows "cond_holds w (not_loop I S result ds) = (cond_holds w result \<and> \<not> dnf_holds w ds)"
  using assms(3-)
proof (induction ds arbitrary: result)
  case Nil
  then show ?case by (simp add: normalize_exact [OF assms(1,2)])
next
  case (Cons d ds)
  define neg where "neg = negateConjunction I S d"
  define r where "r = cond_And I S result neg"
  have d: "d \<noteq> []" "\<forall>c\<in>set d. NegateConstraint c \<noteq> None" using Cons.prems(2) by auto
  have "prod_list (map length ds) \<noteq> 0" using Cons.prems(2) by (auto simp: prod_list_zero_iff)
  then have "length (Disjuncts result) * length d \<le> DefaultMaxDisjuncts"
    using Cons.prems(3) by (cases "prod_list (map length ds)") (simp_all add: algebra_simps)
  moreover have neg_len: "length (Disjuncts neg) \<le> length d"
    unfolding neg_def by (rule negate_length [OF assms(1) d(1)])
  ultimately have small: "length (Disjuncts result) * length (Disjuncts neg) \<le> DefaultMaxDisjuncts"
    by (meson le_trans mult_le_mono2)
  have "length (Disjuncts result) \<ge> 1" using Cons.prems(1) by (simp add: IsFalse_def Suc_le_eq)
  then have "length d \<le> DefaultMaxDisjuncts"
    using \<open>length (Disjuncts result) * length d \<le> DefaultMaxDisjuncts\<close> by (metis le_trans mult_le_mono1 nat_mult_1)
  then have neg_holds: "cond_holds w neg = (\<not> conj_holds w d)"
    unfolding neg_def by (intro negate_exact [OF assms(1,2) d(2)])
  have r_holds: "cond_holds w r = (cond_holds w result \<and> \<not> conj_holds w d)"
    unfolding r_def and_exact [OF assms(1,2) small] neg_holds ..
  show ?case
  proof (cases "IsFalse r")
    case True
    then show ?thesis using r_holds IsFalse_holds [of r w] by (auto simp: Let_def r_def neg_def)
  next
    case False
    then have "\<not> IsFalse neg" using cond_And_branches(1) [of result neg I S] by (auto simp: r_def IsFalse_def FalseCondition_def)
    then have "length (Disjuncts r) \<le> length (Disjuncts result) * length d"
      unfolding r_def using and_length [OF assms(1) Cons.prems(1) _ small] neg_len by (meson le_trans mult_le_mono2)
    then have "length (Disjuncts r) * prod_list (map length ds)
        \<le> length (Disjuncts result) * length d * prod_list (map length ds)"
      by (rule mult_le_mono1)
    also have "\<dots> \<le> DefaultMaxDisjuncts" using Cons.prems(3) by (simp add: mult.assoc)
    finally have "length (Disjuncts r) * prod_list (map length ds) \<le> DefaultMaxDisjuncts" .
    then have "cond_holds w (not_loop I S r ds) = (cond_holds w r \<and> \<not> dnf_holds w ds)"
      using Cons.IH [OF False] Cons.prems(2) by simp
    then show ?thesis using False r_holds by (simp add: Let_def r_def neg_def)
  qed
qed

section \<open>The condition algebra is sound\<close>

text \<open>Sorting by insertion, a concrete \<open>sort.Sort\<close> for evaluation.\<close>

fun insert_by :: "('a \<Rightarrow> 'a \<Rightarrow> bool) \<Rightarrow> 'a \<Rightarrow> 'a list \<Rightarrow> 'a list" where
  "insert_by lt x [] = [x]"
| "insert_by lt x (y # ys) = (if lt x y then x # y # ys else y # insert_by lt x ys)"

definition sort_by :: "('a \<Rightarrow> 'a \<Rightarrow> bool) \<Rightarrow> 'a list \<Rightarrow> 'a list" where
  "sort_by lt xs = foldr (insert_by lt) xs []"

definition insertion_sorters :: "'ty sorters" where
  "insertion_sorters = \<lparr>sort_constraints = sort_by, sort_disjuncts = sort_by\<rparr>"

lemma insert_by_mset: "mset (insert_by lt x ys) = add_mset x (mset ys)"
  by (induction ys) auto

lemma sort_by_mset: "mset (sort_by lt xs) = mset xs"
  by (induction xs) (simp_all add: sort_by_def insert_by_mset)

lemma insertion_sorters_permute: "sorts_permute insertion_sorters"
  by (simp add: sorts_permute_def insertion_sorters_def sort_by_mset)

text \<open>
  A world for evaluation: values are numbers with \<open>nil\<close> 0 and \<open>false\<close> 1, symbol \<open>n\<close> has the value
  \<open>n mod 3\<close>, and every step gives \<open>nil\<close>.
\<close>

definition number_world :: "(nat, Literal) world" where
  "number_world = \<lparr>w_nil = 0, w_false = 1, w_symbol = (\<lambda>s _. unat s mod 3), w_text = (\<lambda>_. 2),
     w_step = (\<lambda>_ _. 0), w_has_type = (\<lambda>_ _. False), w_has_field = (\<lambda>_ _. False),
     w_index = (\<lambda>_ _. 0), w_literal = (\<lambda>_. 0), w_key_of = (\<lambda>_ _. False)\<rparr>"

abbreviation "lit_methods \<equiv> literal_methods id (\<lambda>_. []) (\<lambda>_. 0)"

lemma number_world_ok: "world_ok I number_world"
  by (simp add: world_ok_def number_world_def)

text \<open>
  C6: conjunction of conditions is sound: every world that satisfies both operands satisfies the
  result; and it is exact, nothing else satisfies it, whenever the product of the numbers of
  disjuncts is within \<open>DefaultMaxDisjuncts\<close>. This holds for every hash of types and every order
  that sorting leaves.
\<close>

theorem and_condition_sound:
  assumes "sorts_permute S" "world_ok I w"
  shows "(cond_holds w a \<and> cond_holds w b \<longrightarrow> cond_holds w (cond_And I S a b))
       \<and> (length (Disjuncts a) * length (Disjuncts b) \<le> DefaultMaxDisjuncts \<longrightarrow>
            (cond_holds w (cond_And I S a b) \<longleftrightarrow> cond_holds w a \<and> cond_holds w b))"
  using and_sound [OF assms] and_exact [OF assms] by blast

theorem and_condition_sound_witness:
  "cond_holds number_world (cond_And lit_methods insertion_sorters
     \<lparr>Disjuncts = [[Truthy (NewPath 2 ''x'')], [IsNil (NewPath 1 ''y'')]], normalized = True\<rparr>
     \<lparr>Disjuncts = [[NotNil (NewPath 5 ''z'')]], normalized = True\<rparr>)"
proof -
  let ?a = "\<lparr>Disjuncts = [[Truthy (NewPath 2 ''x'')], [IsNil (NewPath 1 ''y'')]], normalized = True\<rparr>"
  let ?b = "\<lparr>Disjuncts = [[NotNil (NewPath 5 ''z'')]], normalized = True\<rparr>"
  have "cond_holds number_world ?a" "cond_holds number_world ?b"
    by (simp_all add: is_truthy_def path_value_def root_value_def NewPath_def number_world_def)
  then show ?thesis using and_condition_sound [OF insertion_sorters_permute number_world_ok] by blast
qed

text \<open>
  C29: disjunction is sound, and exact whenever the two operands together have at most
  \<open>DefaultMaxDisjuncts\<close> disjuncts; beyond that it keeps only facts that every disjunct of both
  operands implies.
\<close>

theorem or_condition_sound:
  assumes "sorts_permute S" "world_ok I w"
  shows "(cond_holds w a \<or> cond_holds w b \<longrightarrow> cond_holds w (cond_Or I S a b))
       \<and> (length (Disjuncts a) + length (Disjuncts b) \<le> DefaultMaxDisjuncts \<longrightarrow>
            (cond_holds w (cond_Or I S a b) \<longleftrightarrow> cond_holds w a \<or> cond_holds w b))"
  using or_sound [OF assms] or_exact [OF assms] by blast

theorem or_condition_sound_witness:
  "cond_holds number_world (cond_Or lit_methods insertion_sorters
     \<lparr>Disjuncts = [[Falsy (NewPath 2 ''x'')]], normalized = True\<rparr>
     \<lparr>Disjuncts = [[NotNil (NewPath 5 ''z'')]], normalized = True\<rparr>)"
proof -
  have "cond_holds number_world \<lparr>Disjuncts = [[NotNil (NewPath 5 ''z'')]], normalized = True\<rparr>"
    by (simp add: path_value_def root_value_def NewPath_def number_world_def)
  then show ?thesis using or_condition_sound [OF insertion_sorters_permute number_world_ok] by blast
qed

text \<open>
  C30: negation of a condition whose constraints can all be negated is sound: every world in which
  the condition fails satisfies the result; and exact when the number of combinations is within
  \<open>DefaultMaxDisjuncts\<close>.
\<close>

theorem not_condition_sound:
  assumes "sorts_permute S" "world_ok I w" "negatable c"
  shows "(\<not> cond_holds w c \<longrightarrow> cond_holds w (cond_Not I S c))
       \<and> (prod_list (map length (Disjuncts c)) \<le> DefaultMaxDisjuncts \<longrightarrow>
            (cond_holds w (cond_Not I S c) \<longleftrightarrow> \<not> cond_holds w c))"
proof (cases "IsFalse c \<or> IsTrue c")
  case True
  then show ?thesis using IsTrue_holds [of c w] IsFalse_holds [of c w] by (auto simp: cond_Not_def)
next
  case False
  then have n: "cond_Not I S c = not_loop I S TrueCondition (Disjuncts c)" by (simp add: cond_Not_def)
  have ne: "\<forall>d\<in>set (Disjuncts c). d \<noteq> []" using False by (auto simp: IsTrue_def list_ex_iff)
  have neg: "\<forall>d\<in>set (Disjuncts c). \<forall>c\<in>set d. NegateConstraint c \<noteq> None" using assms(3) by (simp add: negatable_def)
  have "cond_holds w (cond_Not I S c)" if "\<not> cond_holds w c"
    unfolding n
    by (rule not_loop_sound [OF assms(1,2)]) (use that neg in \<open>auto simp: cond_holds_def [of w c] dnf_holds_def\<close>)
  moreover have "cond_holds w (cond_Not I S c) \<longleftrightarrow> \<not> cond_holds w c"
    if "prod_list (map length (Disjuncts c)) \<le> DefaultMaxDisjuncts"
    unfolding n using not_loop_exact [OF assms(1,2), of TrueCondition "Disjuncts c"] ne neg that
    by (simp add: IsFalse_def TrueCondition_def cond_holds_def [of w c])
  ultimately show ?thesis by blast
qed

theorem not_condition_sound_witness:
  "cond_holds number_world (cond_Not lit_methods insertion_sorters
     \<lparr>Disjuncts = [[Falsy (NewPath 2 ''x''), NotNil (NewPath 5 ''z'')]], normalized = True\<rparr>)"
proof -
  let ?c = "\<lparr>Disjuncts = [[Falsy (NewPath 2 ''x''), NotNil (NewPath 5 ''z'')]], normalized = True\<rparr> :: Literal Condition"
  have "\<not> cond_holds number_world ?c"
    by (simp add: is_truthy_def path_value_def root_value_def NewPath_def number_world_def)
  moreover have "negatable ?c" by (simp add: negatable_def)
  ultimately show ?thesis using not_condition_sound [OF insertion_sorters_permute number_world_ok] by blast
qed

text \<open>
  A constraint that cannot be negated is left out of the negation of its conjunction, which then
  excludes worlds in which the condition fails.
\<close>

lemma not_condition_drops_unnegatable:
  "\<exists>c. \<not> cond_holds number_world c \<and> \<not> cond_holds number_world (cond_Not lit_methods insertion_sorters c)"
proof -
  let ?c = "\<lparr>Disjuncts = [[Truthy (NewPath 2 ''x''), HasField (NewPath 2 ''x'') ''f'']], normalized = True\<rparr> :: Literal Condition"
  have n: "negateConjunction lit_methods insertion_sorters [Truthy (NewPath 2 ''x''), HasField (NewPath 2 ''x'') ''f''] =
      \<lparr>Disjuncts = [[Falsy (NewPath 2 ''x'')]], normalized = True\<rparr>"
    by (simp add: negateConjunction_def List.map_filter_def normalizeCondition_def)
  have "cond_Not lit_methods insertion_sorters ?c = \<lparr>Disjuncts = [[Falsy (NewPath 2 ''x'')]], normalized = True\<rparr>"
    by (simp add: cond_Not_def IsFalse_def IsTrue_def n cond_And_branches(2) TrueCondition_def)
      (simp add: normalizeCondition_def)
  moreover have "\<not> cond_holds number_world ?c"
    by (simp add: number_world_def)
  ultimately show ?thesis
    by (intro exI [of _ ?c]) (simp add: is_truthy_def path_value_def root_value_def NewPath_def number_world_def)
qed

section \<open>The invariant of built conditions\<close>

text \<open>
  What the operations build: a bounded number of disjuncts, none of them contradictory, and an
  empty disjunct only as the condition that is always true.
\<close>

definition cond_wf :: "'ty Condition \<Rightarrow> bool" where
  "cond_wf c \<longleftrightarrow>
     length (Disjuncts c) \<le> DefaultMaxDisjuncts \<and> normalized c
   \<and> (\<forall>d\<in>set (Disjuncts c). \<not> conjunctionImpossible d)
   \<and> (Disjuncts c = [[]] \<or> [] \<notin> set (Disjuncts c))"

lemma cond_wf_trivial [simp]: "cond_wf TrueCondition" "cond_wf FalseCondition"
  by (simp_all add: cond_wf_def TrueCondition_def FalseCondition_def DefaultMaxDisjuncts_def)

lemma cond_wf_single: "d \<noteq> [] \<Longrightarrow> \<not> conjunctionImpossible d \<Longrightarrow> cond_wf \<lparr>Disjuncts = [d], normalized = True\<rparr>"
  by (simp add: cond_wf_def DefaultMaxDisjuncts_def)

lemma normalize_wf:
  assumes "sorts_permute S" "normalized c \<Longrightarrow> \<forall>d\<in>set (Disjuncts c). \<not> conjunctionImpossible d"
  shows "cond_wf (normalizeCondition I S c)"
proof -
  have possible: "d \<in> set (possible_disjuncts c) \<Longrightarrow> \<not> conjunctionImpossible d" for d
    using assms(2) by (auto simp: possible_disjuncts_def split: if_splits)
  show ?thesis
  proof (rule normalizeCondition_cases [OF assms(1), of c I])
    fix kept
    assume k: "set kept \<subseteq> set (possible_disjuncts c)" "\<forall>d\<in>set (possible_disjuncts c). d \<noteq> []"
      "normalizeCondition I S c =
         (if length kept > DefaultMaxDisjuncts
          then if must_of I kept = [] then TrueCondition else \<lparr>Disjuncts = [must_of I kept], normalized = True\<rparr>
          else \<lparr>Disjuncts = kept, normalized = True\<rparr>)"
    have "\<not> conjunctionImpossible (must_of I kept)"
      using k(1) possible by (intro must_possible) blast
    moreover have "cond_wf \<lparr>Disjuncts = kept, normalized = True\<rparr>" if "\<not> length kept > DefaultMaxDisjuncts"
      using that k(1,2) possible by (auto simp: cond_wf_def)
    ultimately show ?thesis by (simp add: k(3) cond_wf_single)
  qed (use possible in \<open>simp_all add: cond_wf_single\<close>)
qed

lemma canonicalize_nonempty:
  "sorts_permute S \<Longrightarrow> items \<noteq> [] \<Longrightarrow> canonicalizeConjunction I S items \<noteq> []"
  using canonicalize_covers [of S I items] by (cases items) force+

lemma FromConstraints_wf: "sorts_permute S \<Longrightarrow> cond_wf (FromConstraints I S items)"
  using canonicalize_nonempty [of S items I] by (auto simp: FromConstraints_def Let_def cond_wf_single)

lemma merge_loop_nonempty:
  "sorts_permute S \<Longrightarrow> out @ a @ b \<noteq> [] \<Longrightarrow> merge_loop I S out a b \<noteq> []"
proof (induction I S out a b rule: merge_loop.induct)
  case (1 I S out x a y b)
  have "canonicalizeConjunction I S (out @ (x # a) @ y # b) \<noteq> []"
    by (rule canonicalize_nonempty [OF 1(4)]) simp
  with 1 show ?case by (auto simp: Let_def)
qed auto

lemma and_wf:
  assumes "sorts_permute S" "cond_wf a" "cond_wf b"
  shows "cond_wf (cond_And I S a b)"
  using assms(2,3)
proof (induction a b rule: cond_And_induct [where I = I and S = S])
  case (1 a b)
  show ?case
  proof (cases "neither_trivial a b")
    case False
    then show ?thesis
      using 1 by (cases "IsFalse a \<or> IsFalse b"; cases "IsTrue a") (simp_all add: neither_trivial_def cond_And_branches(1-3))
  next
    case nt: True
    show ?thesis
    proof (cases "both_single a b")
      case True
      have "Disjuncts a ! 0 \<noteq> []"
        using nt True by (cases "Disjuncts a") (auto simp: neither_trivial_def both_single_def IsTrue_def)
      then have "mergeConjunctions I S (Disjuncts a ! 0) (Disjuncts b ! 0) \<noteq> []"
        using merge_loop_nonempty [OF assms(1), of "[]" "Disjuncts a ! 0" "Disjuncts b ! 0"]
        by (simp add: mergeConjunctions_def)
      then show ?thesis by (simp add: cond_And_branches(4) [OF nt True] Let_def cond_wf_single)
    next
      case ns: False
      show ?thesis
      proof (cases "length (Disjuncts a) * length (Disjuncts b) > DefaultMaxDisjuncts")
        case True
        have "cond_wf (fst (and_split a b))" using 1(2,3) by (simp add: and_split_def)
        then show ?thesis
          using 1(1) [OF nt ns True] FromConstraints_wf [OF assms(1)]
          by (simp add: cond_And_branches(5) [OF nt ns True])
      next
        case False
        then show ?thesis
          using normalize_wf [OF assms(1), of "\<lparr>Disjuncts = and_product I S (Disjuncts a) (Disjuncts b), normalized = False\<rparr>"]
          by (simp add: cond_And_branches(6) [OF nt ns])
      qed
    qed
  qed
qed

lemma intersect_possible:
  assumes "\<not> conjunctionImpossible a" "\<not> conjunctionImpossible b"
  shows "\<not> conjunctionImpossible (intersectConjunctions I a b)"
  using assms impossible_filter by (auto simp: intersectConjunctions_def split: if_splits)

lemma or_wf:
  assumes "sorts_permute S" "cond_wf a" "cond_wf b"
  shows "cond_wf (cond_Or I S a b)"
proof (cases "IsFalse a \<or> IsFalse b \<or> IsTrue a \<or> IsTrue b")
  case True
  then show ?thesis using assms by (auto simp: cond_Or_def)
next
  case False
  have p: "\<forall>d\<in>set (Disjuncts a). \<not> conjunctionImpossible d" "\<forall>d\<in>set (Disjuncts b). \<not> conjunctionImpossible d"
    using assms by (simp_all add: cond_wf_def)
  have "\<not> conjunctionImpossible (intersectConjunctions I (MustConstraints I a) (MustConstraints I b))"
    unfolding MustConstraints_def using p by (intro intersect_possible must_possible) auto
  moreover have "cond_wf (normalizeCondition I S
      \<lparr>Disjuncts = Disjuncts a @ Disjuncts b, normalized = normalized a \<and> normalized b\<rparr>)"
    using p by (intro normalize_wf [OF assms(1)]) auto
  ultimately show ?thesis using False by (simp add: cond_Or_def Let_def cond_wf_single)
qed

lemma normalize_unnormalized_wf:
  "sorts_permute S \<Longrightarrow> cond_wf (normalizeCondition I S \<lparr>Disjuncts = ds, normalized = False\<rparr>)"
  by (rule normalize_wf) simp_all

lemma negateConjunction_wf: "sorts_permute S \<Longrightarrow> cond_wf (negateConjunction I S cs)"
  by (simp add: negateConjunction_def Let_def normalize_unnormalized_wf)

lemma not_loop_wf: "sorts_permute S \<Longrightarrow> cond_wf result \<Longrightarrow> cond_wf (not_loop I S result ds)"
proof (induction ds arbitrary: result)
  case Nil
  then show ?case using normalize_wf [of S result I] by (simp add: cond_wf_def)
next
  case (Cons d ds)
  then show ?case by (simp add: Let_def and_wf negateConjunction_wf)
qed

lemma Substitute_wf: "sorts_permute S \<Longrightarrow> cond_wf c \<Longrightarrow> cond_wf (cond_Substitute I S c args)"
  by (simp add: cond_Substitute_def normalize_unnormalized_wf)

lemma RenameVersions_wf: "sorts_permute S \<Longrightarrow> cond_wf c \<Longrightarrow> cond_wf (RenameVersions I S c renames)"
  by (simp add: RenameVersions_def normalize_unnormalized_wf)

lemma FromDisjuncts_wf: "sorts_permute S \<Longrightarrow> cond_wf (FromDisjuncts I S ds)"
  by (simp add: FromDisjuncts_def normalize_unnormalized_wf)

lemma Not_wf: "sorts_permute S \<Longrightarrow> cond_wf (cond_Not I S c)"
  by (simp add: cond_Not_def not_loop_wf)

section \<open>Conditions that have not been checked\<close>

text \<open>
  \<open>FromConjunction\<close> wraps its constraints without looking at them and leaves \<open>normalized\<close> false. The invariant of all
  conditions that the package builds is therefore weaker: the disjuncts of a condition are known to be
  consistent when it is marked as normalized, and one that is not marked has a single disjunct.
\<close>

definition cond_inv :: "'ty Condition \<Rightarrow> bool" where
  "cond_inv c \<longleftrightarrow>
     length (Disjuncts c) \<le> DefaultMaxDisjuncts \<and> (Disjuncts c = [[]] \<or> [] \<notin> set (Disjuncts c))
   \<and> (if normalized c then \<forall>d\<in>set (Disjuncts c). \<not> conjunctionImpossible d else length (Disjuncts c) \<le> 1)"

lemma cond_wf_inv: "cond_wf c \<longleftrightarrow> cond_inv c \<and> normalized c"
  by (auto simp: cond_wf_def cond_inv_def)

lemma cond_inv_wf: "cond_wf c \<Longrightarrow> cond_inv c"
  by (simp add: cond_wf_inv)

lemma cond_inv_trivial [simp]: "cond_inv TrueCondition" "cond_inv FalseCondition"
  by (simp_all add: cond_inv_wf)

lemma nil_conflict_sym: "nil_conflict x y \<longleftrightarrow> nil_conflict y x"
  using path_Equal_sym by (auto simp: nil_conflict_def split: option.splits)

lemma nil_conflict_irrefl: "\<not> nil_conflict x x"
  by (auto simp: nil_conflict_def split: option.splits)

lemma impossible_iff: "conjunctionImpossible cs \<longleftrightarrow> (\<exists>x\<in>set cs. \<exists>y\<in>set cs. nil_conflict x y)"
proof (induction cs)
  case (Cons c cs)
  have "conjunctionImpossible (c # cs) \<longleftrightarrow> (\<exists>y\<in>set cs. nil_conflict c y) \<or> conjunctionImpossible cs" by (simp add: list_ex_iff)
  moreover have "nil_conflict x c \<Longrightarrow> nil_conflict c x" for x using nil_conflict_sym by blast
  ultimately show ?case unfolding Cons.IH set_simps using nil_conflict_irrefl [of c] by blast
qed simp

lemma nil_fact_Equals:
  "constraint_Equals I d c \<Longrightarrow> (\<exists>p q k. nil_fact d = Some (p, k) \<and> nil_fact c = Some (q, k) \<and> path_Equal p q) \<or> nil_fact c = None"
  by (cases d; cases c) simp_all

lemma nil_conflict_Equals:
  assumes "nil_conflict x y" "constraint_Equals I x' x" "constraint_Equals I y' y"
  shows "nil_conflict x' y'"
proof -
  obtain p q k l where f: "nil_fact x = Some (p, k)" "nil_fact y = Some (q, l)" "path_Equal p q"
    using assms(1) by (auto simp: nil_conflict_def split: option.splits)
  then obtain p' q' where g: "nil_fact x' = Some (p', k)" "nil_fact y' = Some (q', l)" "path_Equal p' p" "path_Equal q' q"
    using nil_fact_Equals [OF assms(2)] nil_fact_Equals [OF assms(3)] by auto
  have "path_Equal p' q'" using f(3) g(3,4) path_Equal_trans path_Equal_sym by blast
  then show ?thesis using assms(1) f g(1,2) by (simp add: nil_conflict_def)
qed

lemma filter_contains_possible:
  assumes "\<not> conjunctionImpossible ys" shows "\<not> conjunctionImpossible (filter (ConjunctionContains I ys) xs)"
proof
  assume "conjunctionImpossible (filter (ConjunctionContains I ys) xs)"
  then obtain x y where xy: "ConjunctionContains I ys x" "ConjunctionContains I ys y" "nil_conflict x y"
    by (auto simp: impossible_iff)
  then obtain x' y' where "x' \<in> set ys" "constraint_Equals I x' x" "y' \<in> set ys" "constraint_Equals I y' y"
    using contains_sound by blast
  with xy(3) assms show False using nil_conflict_Equals impossible_iff by blast
qed

text \<open>The common constraints of two conjunctions are consistent when those of one of them are.\<close>

lemma intersect_possible_one:
  assumes "\<not> conjunctionImpossible a \<or> \<not> conjunctionImpossible b"
  shows "\<not> conjunctionImpossible (intersectConjunctions I a b)"
  using assms impossible_filter [of _ a] impossible_filter [of _ b] filter_contains_possible [of a I b] filter_contains_possible [of b I a]
  by (auto simp: intersectConjunctions_def)

lemma and_inv:
  assumes "sorts_permute S" "cond_inv a" "cond_inv b"
  shows "cond_inv (cond_And I S a b)"
  using assms(2,3)
proof (induction a b rule: cond_And_induct [where I = I and S = S])
  case (1 a b)
  show ?case
  proof (cases "neither_trivial a b")
    case False
    then show ?thesis
      using 1 by (cases "IsFalse a \<or> IsFalse b"; cases "IsTrue a") (simp_all add: neither_trivial_def cond_And_branches(1-3))
  next
    case nt: True
    show ?thesis
    proof (cases "both_single a b")
      case True
      have "Disjuncts a ! 0 \<noteq> []"
        using nt True by (cases "Disjuncts a") (auto simp: neither_trivial_def both_single_def IsTrue_def)
      then have "mergeConjunctions I S (Disjuncts a ! 0) (Disjuncts b ! 0) \<noteq> []"
        using merge_loop_nonempty [OF assms(1), of "[]" "Disjuncts a ! 0" "Disjuncts b ! 0"]
        by (simp add: mergeConjunctions_def)
      then have "cond_wf (cond_And I S a b)" by (simp add: cond_And_branches(4) [OF nt True] Let_def cond_wf_single)
      then show ?thesis by (simp add: cond_wf_inv)
    next
      case ns: False
      show ?thesis
      proof (cases "length (Disjuncts a) * length (Disjuncts b) > DefaultMaxDisjuncts")
        case True
        have "cond_inv (fst (and_split a b))" using 1(2,3) by (simp add: and_split_def)
        then show ?thesis
          using 1(1) [OF nt ns True] FromConstraints_wf [OF assms(1)]
          by (simp add: cond_And_branches(5) [OF nt ns True] cond_wf_inv)
      next
        case False
        then have "cond_wf (cond_And I S a b)"
          using normalize_unnormalized_wf [OF assms(1)] by (simp add: cond_And_branches(6) [OF nt ns])
        then show ?thesis by (simp add: cond_wf_inv)
      qed
    qed
  qed
qed

lemma or_inv:
  assumes "sorts_permute S" "cond_inv a" "cond_inv b"
  shows "cond_inv (cond_Or I S a b)"
proof (cases "IsFalse a \<or> IsFalse b \<or> IsTrue a \<or> IsTrue b")
  case True
  then show ?thesis using assms by (auto simp: cond_Or_def)
next
  case False
  let ?m = "intersectConjunctions I (MustConstraints I a) (MustConstraints I b)"
  have "\<not> conjunctionImpossible ?m" if "length (Disjuncts a) + length (Disjuncts b) > DefaultMaxDisjuncts"
  proof (rule intersect_possible_one)
    have "normalized a \<or> normalized b"
      using that assms(2,3) by (auto simp: cond_inv_def DefaultMaxDisjuncts_def split: if_splits)
    then have "(\<forall>d\<in>set (Disjuncts a). \<not> conjunctionImpossible d) \<or> (\<forall>d\<in>set (Disjuncts b). \<not> conjunctionImpossible d)"
      using assms(2,3) by (auto simp: cond_inv_def)
    then show "\<not> conjunctionImpossible (MustConstraints I a) \<or> \<not> conjunctionImpossible (MustConstraints I b)"
      unfolding MustConstraints_def using must_possible by blast
  qed
  moreover have "cond_wf (normalizeCondition I S
      \<lparr>Disjuncts = Disjuncts a @ Disjuncts b, normalized = normalized a \<and> normalized b\<rparr>)"
    using assms(2,3) by (intro normalize_wf [OF assms(1)]) (auto simp: cond_inv_def)
  ultimately have "cond_wf (cond_Or I S a b)" using False by (simp add: cond_Or_def Let_def cond_wf_single)
  then show ?thesis by (simp add: cond_wf_inv)
qed

text \<open>Every condition that the functions of the package build.\<close>

inductive built :: "'ty type_methods \<Rightarrow> 'ty sorters \<Rightarrow> 'ty Condition \<Rightarrow> bool" for I S where
  true: "built I S TrueCondition"
| false: "built I S FalseCondition"
| conjunction: "built I S (FromConjunction items)"
| constraints: "built I S (FromConstraints I S items)"
| disjuncts: "built I S (FromDisjuncts I S ds)"
| conj: "built I S a \<Longrightarrow> built I S b \<Longrightarrow> built I S (cond_And I S a b)"
| disj: "built I S a \<Longrightarrow> built I S b \<Longrightarrow> built I S (cond_Or I S a b)"
| neg: "built I S a \<Longrightarrow> built I S (cond_Not I S a)"
| substitute: "built I S a \<Longrightarrow> built I S (cond_Substitute I S a args)"
| rename: "built I S a \<Longrightarrow> built I S (RenameVersions I S a renames)"

lemma built_inv:
  assumes "sorts_permute S" "built I S c" shows "cond_inv c"
  using assms(2)
proof induction
  case (conjunction items)
  have "cond_inv \<lparr>Disjuncts = [items], normalized = False\<rparr>" if "items \<noteq> []"
    using that by (simp add: cond_inv_def DefaultMaxDisjuncts_def)
  then show ?case by (simp add: FromConjunction_def)
next
  case (substitute a args)
  then show ?case using normalize_unnormalized_wf [OF assms(1)] by (simp add: cond_Substitute_def cond_inv_wf)
next
  case (rename a renames)
  then show ?case using normalize_unnormalized_wf [OF assms(1)] by (simp add: RenameVersions_def cond_inv_wf)
qed (simp_all add: assms(1) cond_inv_wf FromConstraints_wf FromDisjuncts_wf Not_wf and_inv or_inv)

text \<open>
  C31: the invariant of the conditions, that there are at most \<open>DefaultMaxDisjuncts\<close> disjuncts, no
  contradictory one, and an empty one only in the true condition. \<open>FromConstraints\<close>, \<open>FromDisjuncts\<close> and \<open>Not\<close>
  establish it, and \<open>And\<close>, \<open>Or\<close>, \<open>Substitute\<close> and \<open>RenameVersions\<close> preserve it. \<open>FromConjunction\<close> does not check its
  constraints, and \<open>And\<close> with the true condition hands its result on: every condition built with it too has the
  bounds, and has the whole invariant when it is marked \<open>normalized\<close>; one that is not has at most one disjunct.
\<close>

theorem condition_invariant:
  assumes "sorts_permute S"
  shows "(built I S c \<longrightarrow> cond_inv c) \<and> (built I S c \<longrightarrow> normalized c \<longrightarrow> cond_wf c)
       \<and> cond_wf (FromConstraints I S items) \<and> cond_wf (FromDisjuncts I S ds) \<and> cond_wf (cond_Not I S e)
       \<and> (cond_wf a \<longrightarrow> cond_wf b \<longrightarrow> cond_wf (cond_And I S a b) \<and> cond_wf (cond_Or I S a b))
       \<and> (cond_wf a \<longrightarrow> cond_wf (cond_Substitute I S a args) \<and> cond_wf (RenameVersions I S a renames))"
  using built_inv [OF assms] and_wf [OF assms] or_wf [OF assms] FromConstraints_wf [OF assms] FromDisjuncts_wf [OF assms]
    Not_wf [OF assms] Substitute_wf [OF assms] RenameVersions_wf [OF assms] by (auto simp: cond_wf_inv)

theorem condition_invariant_witness:
  "cond_wf (cond_And lit_methods insertion_sorters
     \<lparr>Disjuncts = [[IsNil (NewPath 1 ''x'')], [Truthy (NewPath 2 ''y'')]], normalized = True\<rparr>
     \<lparr>Disjuncts = [[Truthy (NewPath 1 ''x'')]], normalized = True\<rparr>)
   \<and> cond_inv (cond_Or lit_methods insertion_sorters (FromConjunction [IsNil (NewPath 1 ''x''), NotNil (NewPath 1 ''x'')]) FalseCondition)"
proof -
  let ?c = "cond_Or lit_methods insertion_sorters (FromConjunction [IsNil (NewPath 1 ''x''), NotNil (NewPath 1 ''x'')]) FalseCondition"
  have "built lit_methods insertion_sorters ?c" by (intro built.intros)
  then show ?thesis
    using condition_invariant [OF insertion_sorters_permute, where I = lit_methods and c = ?c
        and a = "\<lparr>Disjuncts = [[IsNil (NewPath 1 ''x'')], [Truthy (NewPath 2 ''y'')]], normalized = True\<rparr>"
        and b = "\<lparr>Disjuncts = [[Truthy (NewPath 1 ''x'')]], normalized = True\<rparr>"]
    by (simp add: cond_wf_def DefaultMaxDisjuncts_def)
qed

text \<open>A contradiction that \<open>FromConjunction\<close> lets through and \<open>And\<close> hands on.\<close>

lemma conjunction_unchecked:
  "cond_And I S (FromConjunction [IsNil p, NotNil p]) TrueCondition = \<lparr>Disjuncts = [[IsNil p, NotNil p]], normalized = False\<rparr>
   \<and> conjunctionImpossible [IsNil p, NotNil p]"
  by (simp add: cond_And.simps FromConjunction_def TrueCondition_def IsFalse_def IsTrue_def nil_conflict_def)

end
