(* ===== verification/CondCanon.thy ===== *)
theory CondCanon
  imports CondProps "HOL-Library.Product_Lexorder"
begin

text \<open>
  Canonical conjunctions. Where hash, kind and text together separate the constraints at hand that are not
  \<open>Equals\<close>, canonicalization gives one list, whatever order and repetitions it is given; merging two canonical conjunctions gives the canonical form of their
  concatenation; and the binary search and the subsumption scan answer exactly the membership
  questions they stand for.
\<close>

section \<open>Hash order\<close>

text \<open>What \<open>sort.Sort\<close> promises: a sorted result for a comparison that is a strict weak order.\<close>

definition strict_weak :: "('a \<Rightarrow> 'a \<Rightarrow> bool) \<Rightarrow> 'a set \<Rightarrow> bool" where
  "strict_weak lt A \<longleftrightarrow>
     (\<forall>x\<in>A. \<forall>y\<in>A. lt x y \<longrightarrow> \<not> lt y x) \<and> (\<forall>x\<in>A. \<forall>y\<in>A. \<forall>z\<in>A. lt x z \<longrightarrow> lt x y \<or> lt y z)"

definition sorts_sort :: "'ty sorters \<Rightarrow> bool" where
  "sorts_sort S \<longleftrightarrow>
     (\<forall>lt xs. strict_weak lt (set xs) \<longrightarrow> sorted_wrt (\<lambda>a b. \<not> lt b a) (sort_constraints S lt xs))"

definition no_collisions :: "'ty type_methods \<Rightarrow> 'ty Constraint set \<Rightarrow> bool" where
  "no_collisions I A \<longleftrightarrow>
     (\<forall>a\<in>A. \<forall>b\<in>A. constraint_Hash I a = constraint_Hash I b \<longrightarrow> constraint_Equals I a b)"

definition hash_increasing :: "'ty type_methods \<Rightarrow> 'ty Constraint list \<Rightarrow> bool" where
  "hash_increasing I cs \<longleftrightarrow> sorted_wrt (<) (map (constraint_Hash I) cs)"

definition hash_sorted :: "'ty type_methods \<Rightarrow> 'ty Constraint list \<Rightarrow> bool" where
  "hash_sorted I cs \<longleftrightarrow> sorted (map (constraint_Hash I) cs)"

lemma hash_increasing_sorted: "hash_increasing I cs \<Longrightarrow> hash_sorted I cs"
  by (simp add: hash_increasing_def hash_sorted_def strict_sorted_imp_sorted)

lemma no_collisions_mono: "no_collisions I A \<Longrightarrow> B \<subseteq> A \<Longrightarrow> no_collisions I B"
  by (auto simp: no_collisions_def)

lemma with_hash_simps [simp]:
  "cwh_c (with_hash I c) = c" "cwh_h (with_hash I c) = constraint_Hash I c" "cwh_k (with_hash I c) = Kind c"
  by (simp_all add: with_hash_def)

lemma sorter_Less_hash:
  assumes "no_collisions I A" "a \<in> A" "b \<in> A"
  shows "constraintSorter_Less I (with_hash I a) (with_hash I b) \<longleftrightarrow> constraint_Hash I a < constraint_Hash I b"
proof (cases "constraint_Hash I a = constraint_Hash I b")
  case True
  then have "constraint_Equals I a b" using assms by (auto simp: no_collisions_def)
  with True show ?thesis by (simp add: constraintSorter_Less_def constraint_Equals_Kind)
qed (simp add: constraintSorter_Less_def)

lemma sorter_strict_weak:
  assumes "no_collisions I (set items)"
  shows "strict_weak (constraintSorter_Less I) (set (map (with_hash I) items))"
  unfolding strict_weak_def
  by (auto simp: sorter_Less_hash [OF assms])

lemma sorted_by_hash:
  assumes "sorts_permute S" "sorts_sort S" "no_collisions I (set items)"
  shows "sorted (map cwh_h (sort_constraints S (constraintSorter_Less I) (map (with_hash I) items)))"
proof -
  let ?s = "sort_constraints S (constraintSorter_Less I) (map (with_hash I) items)"
  have set: "set ?s = with_hash I ` set items" using sorts_permuteD(1) [OF assms(1)] by simp
  have "sorted_wrt (\<lambda>a b. \<not> constraintSorter_Less I b a) ?s"
    using assms(2) sorter_strict_weak [OF assms(3)] by (auto simp: sorts_sort_def)
  then have "sorted_wrt (\<lambda>a b. cwh_h a \<le> cwh_h b) ?s"
    by (rule sorted_wrt_mono_rel [rotated]) (auto simp: set sorter_Less_hash [OF assms(3)])
  then show ?thesis by (simp add: sorted_map)
qed

lemma dedup_sorted_increasing:
  assumes "sorted_wrt (<) (map cwh_h written)" "sorted (map cwh_h xs)"
    "\<forall>u\<in>set written. \<forall>x\<in>set xs. cwh_h u \<le> cwh_h x"
    "\<forall>u\<in>set written \<union> set xs. \<forall>x\<in>set xs. cwh_h u = cwh_h x \<longrightarrow> constraint_Equals I (cwh_c u) (cwh_c x)"
  shows "sorted_wrt (<) (map cwh_h (dedup_sorted I written xs))"
  using assms
proof (induction xs arbitrary: written)
  case (Cons x xs)
  show ?case
  proof (cases "written \<noteq> [] \<and> cwh_h (last written) = cwh_h x")
    case True
    then have "constraint_Equals I (cwh_c (last written)) (cwh_c x)"
      using Cons.prems(4) last_in_set [of written] by auto
    with True have "dedup_sorted I written (x # xs) = dedup_sorted I written xs" by simp
    then show ?thesis using Cons.IH [of written] Cons.prems by simp
  next
    case False
    then have d: "dedup_sorted I written (x # xs) = dedup_sorted I (written @ [x]) xs" by auto
    have "cwh_h u < cwh_h x" if "u \<in> set written" for u
    proof -
      have "cwh_h u \<le> cwh_h (last written)"
        using Cons.prems(1) that by (cases written rule: rev_cases) (auto simp: sorted_wrt_append)
      moreover have "cwh_h (last written) \<le> cwh_h x" using Cons.prems(3) that by (cases written) auto
      ultimately show ?thesis using False that by (cases written) auto
    qed
    then show ?thesis
      unfolding d using Cons.prems by (intro Cons.IH) (auto simp: sorted_wrt_append)
  qed
qed simp

lemma canonicalize_increasing:
  assumes "sorts_permute S" "sorts_sort S" "no_collisions I (set items)"
  shows "hash_increasing I (canonicalizeConjunction I S items)"
proof (cases "(I, S, items)" rule: canonicalizeConjunction.cases)
  case (3 I' S' x y)
  then show ?thesis
    using assms(3) constraint_Equals_Kind [of I x y]
    by (auto simp: canonicalize_pair_def Let_def hash_increasing_def no_collisions_def)
next
  case (4 I' S' x y z rest)
  define srt where "srt = sort_constraints S (constraintSorter_Less I) (map (with_hash I) items)"
  have set: "set srt = with_hash I ` set items" by (simp add: srt_def sorts_permuteD [OF assms(1)])
  have "sorted_wrt (<) (map cwh_h (dedup_sorted I [] srt))"
  proof (rule dedup_sorted_increasing)
    show "sorted (map cwh_h srt)" unfolding srt_def by (rule sorted_by_hash [OF assms])
  qed (use assms(3) in \<open>auto simp: set no_collisions_def\<close>)
  moreover have "map cwh_h (dedup_sorted I [] srt) = map (constraint_Hash I) (map cwh_c (dedup_sorted I [] srt))"
    using dedup_sorted_covers [of I "[]" srt] set by (auto simp: o_def)
  moreover have "canonicalizeConjunction I S items = map cwh_c (dedup_sorted I [] srt)"
    using 4 by (simp add: srt_def)
  ultimately show ?thesis by (simp add: hash_increasing_def)
qed (auto simp: hash_increasing_def)

section \<open>Uniqueness\<close>

text \<open>Two lists with the same constraints, up to \<open>Equals\<close>.\<close>

definition same_constraints :: "'ty type_methods \<Rightarrow> 'ty Constraint list \<Rightarrow> 'ty Constraint list \<Rightarrow> bool" where
  "same_constraints I as bs \<longleftrightarrow>
     (\<forall>x\<in>set as. \<exists>y\<in>set bs. y = x \<or> constraint_Equals I y x)
   \<and> (\<forall>y\<in>set bs. \<exists>x\<in>set as. x = y \<or> constraint_Equals I x y)"

lemma Equals_hash: "type_laws I \<Longrightarrow> constraint_Equals I x y \<Longrightarrow> constraint_Hash I x = constraint_Hash I y"
  using type_interface.constraint_Hash by (simp add: type_interface_iff [symmetric])

lemma Equals_trans:
  "type_laws I \<Longrightarrow> constraint_Equals I x y \<Longrightarrow> constraint_Equals I y z \<Longrightarrow> constraint_Equals I x z"
  using type_interface.constraint_trans by (simp add: type_interface_iff [symmetric])

lemma same_constraints_hashes:
  assumes "type_laws I" "same_constraints I as bs"
  shows "constraint_Hash I ` set as = constraint_Hash I ` set bs"
proof -
  have "constraint_Hash I x \<in> constraint_Hash I ` set bs" if "x \<in> set as" for x
    using assms(2) that Equals_hash [OF assms(1)] unfolding same_constraints_def by (metis imageI)
  moreover have "constraint_Hash I y \<in> constraint_Hash I ` set as" if "y \<in> set bs" for y
    using assms(2) that Equals_hash [OF assms(1)] unfolding same_constraints_def by (metis imageI)
  ultimately show ?thesis by blast
qed

lemma conjunctionHash_hashes:
  assumes "map (constraint_Hash I) as = map (constraint_Hash I) bs"
  shows "conjunctionHash I as = conjunctionHash I bs"
proof -
  have h: "conjunctionHash I cs = (if map (constraint_Hash I) cs = [] then 0
      else foldl HashCombine FnvOffset64 (map (constraint_Hash I) cs))" for cs
    by (simp add: conjunctionHash_def foldl_map)
  show ?thesis unfolding h assms ..
qed

lemma increasing_unique:
  assumes "type_laws I" "no_collisions I (set as \<union> set bs)" "hash_increasing I as" "hash_increasing I bs"
    "same_constraints I as bs"
  shows "conjunctionEquals I as None bs None \<and> conjunctionHash I as = conjunctionHash I bs"
proof -
  have m: "map (constraint_Hash I) as = map (constraint_Hash I) bs"
  proof (rule strict_sorted_equal)
    show "set (map (constraint_Hash I) as) = set (map (constraint_Hash I) bs)"
      using same_constraints_hashes [OF assms(1,5)] by simp
  qed (use assms(3,4) in \<open>simp_all add: hash_increasing_def\<close>)
  then have len: "length as = length bs" using map_eq_imp_length_eq by blast
  have "constraint_Equals I (as ! i) (bs ! i)" if "i < length as" for i
  proof -
    have "constraint_Hash I (as ! i) = constraint_Hash I (bs ! i)"
      using m that len by (metis nth_map)
    then show ?thesis using assms(2) that len by (auto simp: no_collisions_def)
  qed
  then have "conjunctionEquals I as None bs None" using len by (simp add: conjunctionEquals_def list_all_iff)
  moreover have "conjunctionHash I as = conjunctionHash I bs" by (rule conjunctionHash_hashes [OF m])
  ultimately show ?thesis by blast
qed

lemma canonicalize_same: "sorts_permute S \<Longrightarrow> same_constraints I (canonicalizeConjunction I S items) items"
  using canonicalize_covers [of S I items] unfolding same_constraints_def by blast

lemma same_constraints_trans:
  assumes "type_laws I" "same_constraints I as bs" "same_constraints I bs cs"
  shows "same_constraints I as cs"
proof -
  note t = Equals_trans [OF assms(1)]
  show ?thesis
    unfolding same_constraints_def
  proof (intro conjI ballI)
    fix x assume "x \<in> set as"
    then obtain y where y: "y \<in> set bs" "y = x \<or> constraint_Equals I y x"
      using assms(2) unfolding same_constraints_def by blast
    then obtain z where "z \<in> set cs" "z = y \<or> constraint_Equals I z y"
      using assms(3) unfolding same_constraints_def by blast
    with y t show "\<exists>z\<in>set cs. z = x \<or> constraint_Equals I z x" by blast
  next
    fix z assume "z \<in> set cs"
    then obtain y where y: "y \<in> set bs" "y = z \<or> constraint_Equals I y z"
      using assms(3) unfolding same_constraints_def by blast
    then obtain x where "x \<in> set as" "x = y \<or> constraint_Equals I x y"
      using assms(2) unfolding same_constraints_def by blast
    with y t show "\<exists>x\<in>set as. x = z \<or> constraint_Equals I x z" by blast
  qed
qed

lemma same_constraints_sym:
  assumes "type_laws I" shows "same_constraints I as bs \<Longrightarrow> same_constraints I bs as"
  unfolding same_constraints_def by blast

section \<open>Uniqueness with collisions\<close>

text \<open>
  Where hashes collide, the kind and the text of the constraints break the tie. They can do so when they tell
  apart what is not \<open>Equals\<close>, and when constraints that are \<open>Equals\<close> and collide with another have
  one text.
\<close>

definition collides :: "'ty type_methods \<Rightarrow> 'ty Constraint set \<Rightarrow> 'ty Constraint \<Rightarrow> bool" where
  "collides I A c \<longleftrightarrow> (\<exists>d\<in>A. constraint_Hash I d = constraint_Hash I c \<and> \<not> constraint_Equals I d c)"

definition ties_broken :: "'ty type_methods \<Rightarrow> 'ty Constraint set \<Rightarrow> bool" where
  "ties_broken I A \<longleftrightarrow>
     (\<forall>a\<in>A. \<forall>b\<in>A. constraint_Hash I a = constraint_Hash I b \<longrightarrow> Kind a = Kind b \<longrightarrow>
        constraint_String I a = constraint_String I b \<longrightarrow> constraint_Equals I a b)
   \<and> (\<forall>a\<in>A. \<forall>b\<in>A. constraint_Equals I a b \<longrightarrow> collides I A a \<longrightarrow> constraint_String I a = constraint_String I b)"

definition tie_key :: "'ty type_methods \<Rightarrow> 'ty Constraint set \<Rightarrow> 'ty Constraint \<Rightarrow> u64 \<times> nat \<times> string" where
  "tie_key I A c = (constraint_Hash I c, if collides I A c then (Kind c, constraint_String I c) else (0, []))"

definition unrepeated :: "'ty type_methods \<Rightarrow> 'ty Constraint list \<Rightarrow> bool" where
  "unrepeated I cs \<longleftrightarrow> sorted_wrt (\<lambda>x y. \<not> constraint_Equals I x y) cs"

lemma Equals_sym: "type_laws I \<Longrightarrow> constraint_Equals I x y \<Longrightarrow> constraint_Equals I y x"
  using type_interface.constraint_sym by (simp add: type_interface_iff [symmetric])

lemma no_collisions_ties: "no_collisions I A \<Longrightarrow> ties_broken I A"
  by (auto simp: no_collisions_def ties_broken_def collides_def)

lemma collides_Equals:
  assumes "type_laws I" "constraint_Equals I x y"
  shows "collides I A x \<longleftrightarrow> collides I A y"
proof -
  have "constraint_Equals I d x \<longleftrightarrow> constraint_Equals I d y" for d
    using Equals_trans [OF assms(1)] Equals_sym [OF assms(1)] assms(2) by blast
  then show ?thesis unfolding collides_def using Equals_hash [OF assms] by simp
qed

lemma tie_key_Equals:
  assumes "type_laws I" "ties_broken I A" "x \<in> A" "y \<in> A"
  shows "tie_key I A x = tie_key I A y \<longleftrightarrow> constraint_Equals I x y"
proof
  assume k: "tie_key I A x = tie_key I A y"
  show "constraint_Equals I x y"
  proof (cases "collides I A x \<and> collides I A y")
    case True
    then have "constraint_Hash I x = constraint_Hash I y" "Kind x = Kind y" "constraint_String I x = constraint_String I y"
      using k by (simp_all add: tie_key_def)
    then show ?thesis using assms(2-4) unfolding ties_broken_def by blast
  next
    case False
    have h: "constraint_Hash I x = constraint_Hash I y" using k by (simp add: tie_key_def)
    from False have "constraint_Equals I y x \<or> constraint_Equals I x y" using h assms(3,4) unfolding collides_def by metis
    then show ?thesis using Equals_sym [OF assms(1)] by blast
  qed
next
  assume e: "constraint_Equals I x y"
  have "collides I A x \<Longrightarrow> constraint_String I x = constraint_String I y"
    using assms(2-4) e unfolding ties_broken_def by blast
  then show "tie_key I A x = tie_key I A y"
    using collides_Equals [OF assms(1) e] Equals_hash [OF assms(1) e] constraint_Equals_Kind [OF e] by (auto simp: tie_key_def)
qed

lemma sorter_Less_key:
  assumes "type_laws I" "ties_broken I A" "x \<in> A" "y \<in> A"
  shows "constraintSorter_Less I (with_hash I x) (with_hash I y) \<longleftrightarrow> tie_key I A x < tie_key I A y"
proof (cases "constraint_Hash I x = constraint_Hash I y \<and> \<not> constraint_Equals I x y")
  case True
  then have "\<not> constraint_Equals I y x" using Equals_sym [OF assms(1)] by blast
  then have "collides I A x" "collides I A y" using True assms(3,4) by (auto simp: collides_def)
  then have k: "tie_key I A x = (constraint_Hash I y, Kind x, constraint_String I x)" "tie_key I A y = (constraint_Hash I y, Kind y, constraint_String I y)"
    using True by (simp_all add: tie_key_def)
  have "constraintSorter_Less I (with_hash I x) (with_hash I y) \<longleftrightarrow>
      (if Kind x \<noteq> Kind y then Kind x < Kind y else constraint_String I x < constraint_String I y)"
    using True by (simp add: constraintSorter_Less_def)
  then show ?thesis unfolding k by auto
next
  case False
  show ?thesis
  proof (cases "constraint_Hash I x = constraint_Hash I y")
    case True
    with False have e: "constraint_Equals I x y" by blast
    then have "tie_key I A x = tie_key I A y" using tie_key_Equals [OF assms] by blast
    then show ?thesis using True e by (simp add: constraintSorter_Less_def constraint_Equals_Kind)
  qed (auto simp: tie_key_def constraintSorter_Less_def)
qed

lemma dedup_sorted_key:
  assumes "sorted_wrt (<) (map (f \<circ> cwh_c) written)" "sorted (map (f \<circ> cwh_c) xs)"
    "\<forall>u\<in>set written. \<forall>x\<in>set xs. f (cwh_c u) \<le> f (cwh_c x)"
    "\<forall>u\<in>set written \<union> set xs. \<forall>x\<in>set xs. f (cwh_c u) = f (cwh_c x) \<longleftrightarrow> cwh_h u = cwh_h x \<and> constraint_Equals I (cwh_c u) (cwh_c x)"
  shows "sorted_wrt (<) (map (f \<circ> cwh_c) (dedup_sorted I written xs))"
  using assms
proof (induction xs arbitrary: written)
  case (Cons x xs)
  show ?case
  proof (cases "written \<noteq> [] \<and> f (cwh_c (last written)) = f (cwh_c x)")
    case True
    then have "dedup_sorted I written (x # xs) = dedup_sorted I written xs"
      using Cons.prems(4) last_in_set [of written] by auto
    then show ?thesis using Cons.IH [of written] Cons.prems by simp
  next
    case False
    then have d: "dedup_sorted I written (x # xs) = dedup_sorted I (written @ [x]) xs"
      using Cons.prems(4) last_in_set [of written] by auto
    have "f (cwh_c u) < f (cwh_c x)" if "u \<in> set written" for u
    proof -
      have "f (cwh_c u) \<le> f (cwh_c (last written))"
        using Cons.prems(1) that by (cases written rule: rev_cases) (auto simp: sorted_wrt_append)
      moreover have "f (cwh_c (last written)) \<le> f (cwh_c x)" using Cons.prems(3) that by (cases written) auto
      ultimately show ?thesis using False that by (cases written) auto
    qed
    then show ?thesis
      unfolding d using Cons.prems by (intro Cons.IH) (auto simp: sorted_wrt_append)
  qed
qed simp

lemma canonicalize_keys:
  assumes "sorts_permute S" "sorts_sort S" "type_laws I" "ties_broken I A" "set items \<subseteq> A"
  shows "sorted_wrt (<) (map (tie_key I A) (canonicalizeConjunction I S items))"
proof (cases "(I, S, items)" rule: canonicalizeConjunction.cases)
  case (3 I' S' x y)
  then have xy: "x \<in> A" "y \<in> A" using assms(5) by auto
  note L = sorter_Less_key [OF assms(3,4)] and E = tie_key_Equals [OF assms(3,4) xy]
  show ?thesis
  proof (cases "constraint_Equals I x y")
    case True
    then show ?thesis using 3 constraint_Equals_Kind [OF True] Equals_hash [OF assms(3) True] by (simp add: canonicalize_pair_def)
  next
    case False
    have "constraint_String I x \<noteq> constraint_String I y" if "constraint_Hash I x = constraint_Hash I y" "Kind x = Kind y"
      using assms(4) xy False that unfolding ties_broken_def by blast
    then have "canonicalize_pair I x y = (if constraintSorter_Less I (with_hash I x) (with_hash I y) then [x, y] else [y, x])"
      using False by (auto simp: canonicalize_pair_def Let_def constraintSorter_Less_def)
    moreover have "tie_key I A x \<noteq> tie_key I A y" using E False by blast
    ultimately show ?thesis using 3 L [OF xy] by auto
  qed
next
  case (4 I' S' x y z rest)
  define srt where "srt = sort_constraints S (constraintSorter_Less I) (map (with_hash I) items)"
  let ?f = "tie_key I A"
  have set: "set srt = with_hash I ` set items" by (simp add: srt_def sorts_permuteD [OF assms(1)])
  have inA: "cwh_c u \<in> A" "with_hash I (cwh_c u) = u" if "u \<in> set srt" for u using that assms(5) by (auto simp: set)
  have L: "constraintSorter_Less I u v \<longleftrightarrow> ?f (cwh_c u) < ?f (cwh_c v)" if "u \<in> set srt" "v \<in> set srt" for u v
    using sorter_Less_key [OF assms(3,4) inA(1) [OF that(1)] inA(1) [OF that(2)]] inA(2) that by simp
  have "strict_weak (constraintSorter_Less I) (set (map (with_hash I) items))"
    using L unfolding strict_weak_def set_map set [symmetric] by (auto intro: less_trans)
  then have "sorted_wrt (\<lambda>a b. \<not> constraintSorter_Less I b a) srt"
    using assms(2) unfolding srt_def by (simp add: sorts_sort_def)
  then have "sorted_wrt (\<lambda>a b. ?f (cwh_c a) \<le> ?f (cwh_c b)) srt"
    by (rule sorted_wrt_mono_rel [rotated]) (auto simp: L)
  then have "sorted (map (?f \<circ> cwh_c) srt)" by (simp add: sorted_map)
  moreover have "?f (cwh_c u) = ?f (cwh_c v) \<longleftrightarrow> cwh_h u = cwh_h v \<and> constraint_Equals I (cwh_c u) (cwh_c v)"
    if "u \<in> set srt" "v \<in> set srt" for u v
    using tie_key_Equals [OF assms(3,4) inA(1) [OF that(1)] inA(1) [OF that(2)]] Equals_hash [OF assms(3)] that by (auto simp: set)
  ultimately have "sorted_wrt (<) (map (?f \<circ> cwh_c) (dedup_sorted I [] srt))" by (intro dedup_sorted_key) auto
  moreover have "canonicalizeConjunction I S items = map cwh_c (dedup_sorted I [] srt)"
    using 4 by (simp add: srt_def)
  ultimately show ?thesis by simp
qed auto

lemma keys_unique:
  assumes "type_laws I" "ties_broken I A" "set as \<subseteq> A" "set bs \<subseteq> A" "same_constraints I as bs"
    "sorted_wrt (<) (map (tie_key I A) as)" "sorted_wrt (<) (map (tie_key I A) bs)"
  shows "conjunctionEquals I as None bs None \<and> conjunctionHash I as = conjunctionHash I bs"
proof -
  note E = tie_key_Equals [OF assms(1,2)]
  have sub: "tie_key I A ` set xs \<subseteq> tie_key I A ` set ys"
    if A: "set xs \<subseteq> A" "set ys \<subseteq> A" and c: "\<forall>x\<in>set xs. \<exists>y\<in>set ys. y = x \<or> constraint_Equals I y x" for xs ys
  proof (rule image_subsetI)
    fix x assume x: "x \<in> set xs"
    then obtain y where y: "y \<in> set ys" "y = x \<or> constraint_Equals I y x" using c by blast
    moreover have "x \<in> A" "y \<in> A" using x y(1) A by blast+
    ultimately have "tie_key I A x = tie_key I A y" using E [of y x] by auto
    then show "tie_key I A x \<in> tie_key I A ` set ys" using y(1) by (rule image_eqI)
  qed
  have m: "map (tie_key I A) as = map (tie_key I A) bs"
  proof (rule strict_sorted_equal [OF assms(7,6)])
    show "set (map (tie_key I A) as) = set (map (tie_key I A) bs)"
      using sub [OF assms(3,4)] sub [OF assms(4,3)] assms(5) unfolding same_constraints_def set_map by blast
  qed
  then have len: "length as = length bs" using map_eq_imp_length_eq by blast
  have "constraint_Equals I (as ! i) (bs ! i)" if "i < length as" for i
  proof -
    have "tie_key I A (as ! i) = tie_key I A (bs ! i)" using m that len by (metis nth_map)
    then show ?thesis using E [of "as ! i" "bs ! i"] assms(3,4) that len by (metis nth_mem subsetD)
  qed
  then have "conjunctionEquals I as None bs None" using len by (simp add: conjunctionEquals_def list_all_iff)
  moreover have "map (constraint_Hash I) as = map (constraint_Hash I) bs"
  proof -
    have h: "map (constraint_Hash I) cs = map fst (map (tie_key I A) cs)" for cs by (simp add: tie_key_def)
    show ?thesis unfolding h m ..
  qed
  then have "conjunctionHash I as = conjunctionHash I bs" by (rule conjunctionHash_hashes)
  ultimately show ?thesis by blast
qed

lemma keys_ordered:
  assumes "type_laws I" "ties_broken I A" "set cs \<subseteq> A" "sorted_wrt (<) (map (tie_key I A) cs)"
  shows "hash_sorted I cs \<and> unrepeated I cs"
proof -
  have lt: "constraint_Hash I x \<le> constraint_Hash I y" "\<not> constraint_Equals I x y"
    if "x \<in> set cs" "y \<in> set cs" "tie_key I A x < tie_key I A y" for x y
  proof -
    show "constraint_Hash I x \<le> constraint_Hash I y" using that(3) by (auto simp: tie_key_def)
    have "x \<in> A" "y \<in> A" using that(1,2) assms(3) by blast+
    then show "\<not> constraint_Equals I x y" using tie_key_Equals [OF assms(1,2), of x y] that(3) by auto
  qed
  have k: "sorted_wrt (\<lambda>x y. tie_key I A x < tie_key I A y) cs" using assms(4) by (simp add: sorted_wrt_map)
  have "sorted_wrt (\<lambda>x y. constraint_Hash I x \<le> constraint_Hash I y) cs" "sorted_wrt (\<lambda>x y. \<not> constraint_Equals I x y) cs"
    by (rule sorted_wrt_mono_rel [OF _ k]; use lt in blast)+
  then show ?thesis by (simp add: hash_sorted_def unrepeated_def sorted_map)
qed

text \<open>
  C32: canonicalization is canonical: two lists with the same constraints, in any order and with any
  repetitions, give conjunctions that are equal element by element and have the same hash; they are in hash order
  and repeat nothing. The types have lawful equality, and constraints whose hashes collide are told
  apart by kind and text, which break the tie: those that agree in all three are \<open>Equals\<close>, and
  those that are \<open>Equals\<close> and collide with another constraint have the same text.
\<close>

theorem canonical_form_unique:
  assumes "sorts_permute S" "sorts_sort S" "type_laws I"
    "ties_broken I (set as \<union> set bs)" "same_constraints I as bs"
  shows "conjunctionEquals I (canonicalizeConjunction I S as) None (canonicalizeConjunction I S bs) None
       \<and> conjunctionHash I (canonicalizeConjunction I S as) = conjunctionHash I (canonicalizeConjunction I S bs)
       \<and> hash_sorted I (canonicalizeConjunction I S as) \<and> unrepeated I (canonicalizeConjunction I S as)"
proof -
  let ?a = "canonicalizeConjunction I S as" and ?b = "canonicalizeConjunction I S bs" and ?A = "set as \<union> set bs"
  have sub: "set ?a \<subseteq> ?A" "set ?b \<subseteq> ?A" using canonicalize_covers [OF assms(1)] by blast+
  have inc: "sorted_wrt (<) (map (tie_key I ?A) ?a)" "sorted_wrt (<) (map (tie_key I ?A) ?b)"
    by (rule canonicalize_keys [OF assms(1-4)]; blast)+
  have "same_constraints I ?a ?b"
    using canonicalize_same [OF assms(1)] same_constraints_trans [OF assms(3)]
      same_constraints_sym [OF assms(3)] assms(5) by blast
  then show ?thesis using keys_unique [OF assms(3,4) sub _ inc] keys_ordered [OF assms(3,4) sub(1) inc(1)] by blast
qed

text \<open>The insertion sort used for evaluation keeps both promises of \<open>sort.Sort\<close>.\<close>

lemma insert_by_set: "set (insert_by lt x ys) = insert x (set ys)"
  by (induction ys) auto

lemma insert_by_sorted:
  assumes "strict_weak lt (insert x (set ys))" "sorted_wrt (\<lambda>a b. \<not> lt b a) ys"
  shows "sorted_wrt (\<lambda>a b. \<not> lt b a) (insert_by lt x ys)"
  using assms
proof (induction ys)
  case (Cons y ys)
  have sub: "strict_weak lt (insert x (set ys))" using Cons.prems(1) by (auto simp: strict_weak_def)
  show ?case
  proof (cases "lt x y")
    case True
    have "\<not> lt z x" if "z \<in> set (y # ys)" for z
      using True Cons.prems that unfolding strict_weak_def by (metis insertCI list.set(2) sorted_wrt.simps(2) set_ConsD)
    with True Cons.prems show ?thesis by simp
  next
    case False
    then show ?thesis using Cons.IH [OF sub] Cons.prems(2) by (auto simp: insert_by_set)
  qed
qed simp

lemma sort_by_sorted: "strict_weak lt (set xs) \<Longrightarrow> sorted_wrt (\<lambda>a b. \<not> lt b a) (sort_by lt xs)"
proof (induction xs)
  case (Cons x xs)
  have set: "set (sort_by lt xs) = set xs" by (metis sort_by_mset set_mset_mset)
  have "strict_weak lt (set xs)" using Cons.prems by (auto simp: strict_weak_def)
  then have "sorted_wrt (\<lambda>a b. \<not> lt b a) (insert_by lt x (sort_by lt xs))"
    using Cons by (intro insert_by_sorted) (simp_all add: set)
  then show ?case by (simp add: sort_by_def)
qed (simp add: sort_by_def)

lemma insertion_sorters_sort: "sorts_sort insertion_sorters"
  by (simp add: sorts_sort_def insertion_sorters_def sort_by_sorted)

text \<open>Literal types that all have the same hash, for a witness with a collision.\<close>

definition flat_methods :: "Literal type_methods" where
  "flat_methods = lit_methods\<lparr>ty_Hash := (\<lambda>_. 0)\<rparr>"

lemma flat_type_laws: "type_laws flat_methods"
proof -
  have q: "ty_Equals flat_methods = ty_Equals lit_methods" "ty_Hash flat_methods = (\<lambda>_. 0)" by (simp_all add: flat_methods_def)
  show ?thesis using literal_type_laws [of id "\<lambda>_. []" "\<lambda>_. 0"] unfolding type_laws_def q by blast
qed

theorem canonical_form_unique_witness:
  "(let a = IndexEquals (NewPath 1 ''x'') (Some (LiteralBool True)) None; b = IndexEquals (NewPath 1 ''x'') (Some (LiteralBool False)) None in
    constraint_Hash flat_methods a = constraint_Hash flat_methods b \<and> \<not> constraint_Equals flat_methods a b \<and>
    conjunctionEquals flat_methods (canonicalizeConjunction flat_methods insertion_sorters [a, b]) None
      (canonicalizeConjunction flat_methods insertion_sorters [b, a, b]) None)"
proof -
  let ?a = "IndexEquals (NewPath 1 ''x'') (Some (LiteralBool True)) None" and ?b = "IndexEquals (NewPath 1 ''x'') (Some (LiteralBool False)) None"
  have e: "constraint_Hash flat_methods ?a = constraint_Hash flat_methods ?b" "constraint_Equals flat_methods ?a ?a" "constraint_Equals flat_methods ?b ?b"
    "\<not> constraint_Equals flat_methods ?a ?b" "\<not> constraint_Equals flat_methods ?b ?a"
    by (simp_all add: flat_methods_def literal_methods_def hash_opt_def)
  have s: "constraint_String flat_methods ?a \<noteq> constraint_String flat_methods ?b"
    by (simp add: flat_methods_def literal_methods_def key_text_def)
  have "ties_broken flat_methods (set [?a, ?b] \<union> set [?b, ?a, ?b])"
    using e s s [symmetric] by (simp add: ties_broken_def del: constraint_Hash.simps constraint_Equals.simps constraint_String.simps)
  moreover have "same_constraints flat_methods [?a, ?b] [?b, ?a, ?b]"
    by (simp add: same_constraints_def del: constraint_Equals.simps)
  ultimately show ?thesis
    using canonical_form_unique [OF insertion_sorters_permute insertion_sorters_sort flat_type_laws] e unfolding Let_def by blast
qed

section \<open>Merging\<close>

lemma compare_hash:
  assumes "no_collisions I A" "x \<in> A" "y \<in> A"
  shows "compareConstraints I x (constraint_Hash I x) y (constraint_Hash I y) =
    (if constraint_Hash I x < constraint_Hash I y then -1
     else if constraint_Hash I x > constraint_Hash I y then 1 else 0)"
proof (cases "constraint_Hash I x = constraint_Hash I y")
  case True
  then have "constraint_Equals I x y" using assms by (auto simp: no_collisions_def)
  with True show ?thesis by (simp add: compareConstraints_def constraint_Equals_Kind)
qed (auto simp: compareConstraints_def)

lemma merge_loop_step:
  assumes "no_collisions I A" "x \<in> A" "y \<in> A"
  shows "merge_loop I S out (x # a) (y # b) =
    (if constraint_Hash I x < constraint_Hash I y then merge_loop I S (out @ [x]) a (y # b)
     else if constraint_Hash I x > constraint_Hash I y then merge_loop I S (out @ [y]) (x # a) b
     else merge_loop I S (out @ [x]) a b)"
proof -
  have "constraint_Hash I x = constraint_Hash I y \<Longrightarrow> constraint_Equals I x y"
    using assms by (auto simp: no_collisions_def)
  then show ?thesis
    by (auto simp: Let_def compare_hash [OF assms])
qed

lemma hash_increasing_append:
  "hash_increasing I (as @ bs) \<longleftrightarrow>
     hash_increasing I as \<and> hash_increasing I bs
     \<and> (\<forall>a\<in>set as. \<forall>b\<in>set bs. constraint_Hash I a < constraint_Hash I b)"
  by (auto simp: hash_increasing_def sorted_wrt_append)

lemma hash_increasing_Cons:
  "hash_increasing I (a # bs) \<longleftrightarrow>
     hash_increasing I bs \<and> (\<forall>b\<in>set bs. constraint_Hash I a < constraint_Hash I b)"
  by (auto simp: hash_increasing_def)

lemma merge_loop_increasing:
  assumes "no_collisions I (set a \<union> set b)" "hash_increasing I (out @ a)" "hash_increasing I (out @ b)"
  shows "hash_increasing I (merge_loop I S out a b)"
  using assms
proof (induction I S out a b rule: merge_loop.induct)
  case (1 I S out x a y b)
  let ?H = "constraint_Hash I"
  have eq: "?H x = ?H y \<Longrightarrow> constraint_Equals I x y"
    using 1(4) by (auto simp: no_collisions_def)
  have step: "merge_loop I S out (x # a) (y # b) =
    (if ?H x < ?H y then merge_loop I S (out @ [x]) a (y # b)
     else if ?H x > ?H y then merge_loop I S (out @ [y]) (x # a) b
     else merge_loop I S (out @ [x]) a b)"
    by (rule merge_loop_step [OF 1(4)]) simp_all
  have cmp: "compareConstraints I x (?H x) y (?H y) =
    (if ?H x < ?H y then -1 else if ?H x > ?H y then 1 else 0)"
    by (rule compare_hash [OF 1(4)]) simp_all
  have nc: "no_collisions I (set a \<union> set (y # b))" "no_collisions I (set (x # a) \<union> set b)" "no_collisions I (set a \<union> set b)"
    using 1(4) by (auto intro: no_collisions_mono)
  note inc = 1(5,6) [unfolded hash_increasing_append hash_increasing_Cons]
  consider (less) "?H x < ?H y" | (greater) "?H x > ?H y" | (equal) "?H x = ?H y" by fastforce
  then show ?case
  proof cases
    case less
    have "hash_increasing I (merge_loop I S (out @ [x]) a (y # b))"
      by (rule 1(1) [OF refl _ nc(1)])
        (use less inc in \<open>auto simp: cmp hash_increasing_append hash_increasing_Cons\<close>)
    then show ?thesis unfolding step using less by simp
  next
    case greater
    have "hash_increasing I (merge_loop I S (out @ [y]) (x # a) b)"
      by (rule 1(2) [OF refl _ _ nc(2)])
        (use greater inc in \<open>auto simp: cmp hash_increasing_append hash_increasing_Cons\<close>)
    then show ?thesis unfolding step using greater by auto
  next
    case equal
    have zero: "\<not> compareConstraints I x (?H x) y (?H y) < 0" "\<not> 0 < compareConstraints I x (?H x) y (?H y)"
      unfolding cmp using equal by simp_all
    have "hash_increasing I (merge_loop I S (out @ [x]) a b)"
      by (rule 1(3) [OF refl zero eq [OF equal] nc(3)])
        (use equal inc in \<open>auto simp: hash_increasing_append hash_increasing_Cons\<close>)
    then show ?thesis unfolding step using equal by simp
  qed
qed auto

lemma merge_loop_covers:
  assumes "sorts_permute S" "type_laws I"
  shows "set (merge_loop I S out a b) \<subseteq> set (out @ a @ b)
       \<and> (\<forall>x\<in>set (out @ a @ b). \<exists>y\<in>set (merge_loop I S out a b). y = x \<or> constraint_Equals I y x)"
  using assms
proof (induction I S out a b rule: merge_loop.induct)
  case (1 I S out x a y b)
  define cmp where "cmp = compareConstraints I x (constraint_Hash I x) y (constraint_Hash I y)"
  consider (less) "cmp < 0" | (greater) "cmp > 0" | (eq) "cmp = 0" "constraint_Equals I x y"
    | (tie) "cmp = 0" "\<not> constraint_Equals I x y" by linarith
  then show ?case
  proof cases
    case less
    then show ?thesis using 1(1) [OF cmp_def less 1(4,5)] by (simp add: cmp_def [symmetric])
  next
    case greater
    then show ?thesis using 1(2) [OF cmp_def _ _ 1(4,5)] by (auto simp: cmp_def [symmetric])
  next
    case eq
    have ih: "set (merge_loop I S (out @ [x]) a b) \<subseteq> set ((out @ [x]) @ a @ b)"
      "\<forall>z\<in>set ((out @ [x]) @ a @ b). \<exists>w\<in>set (merge_loop I S (out @ [x]) a b). w = z \<or> constraint_Equals I w z"
      using 1(3) [OF cmp_def _ _ _ 1(4,5)] eq by auto
    have "merge_loop I S out (x # a) (y # b) = merge_loop I S (out @ [x]) a b"
      using eq by (simp add: cmp_def [symmetric])
    moreover have "constraint_Equals I w y" if "w = x \<or> constraint_Equals I w x" for w
      using that eq(2) Equals_trans [OF 1(5)] by blast
    moreover obtain w where "w \<in> set (merge_loop I S (out @ [x]) a b)" "w = x \<or> constraint_Equals I w x"
      using ih(2) by auto
    ultimately show ?thesis using ih by auto
  next
    case tie
    then have "merge_loop I S out (x # a) (y # b) = canonicalizeConjunction I S (out @ (x # a) @ (y # b))"
      by (simp add: cmp_def [symmetric])
    then show ?thesis using canonicalize_covers [OF 1(4), of I "out @ (x # a) @ (y # b)"] by simp
  qed
qed auto

lemma merge_same:
  "sorts_permute S \<Longrightarrow> type_laws I \<Longrightarrow> same_constraints I (mergeConjunctions I S a b) (a @ b)"
  using merge_loop_covers [of S I "[]" a b]
  by (auto simp: mergeConjunctions_def same_constraints_def)

lemma merge_increasing:
  assumes "no_collisions I (set a \<union> set b)" "hash_increasing I a" "hash_increasing I b"
  shows "hash_increasing I (mergeConjunctions I S a b)"
  using merge_loop_increasing [OF assms(1), of "[]"] assms by (simp add: mergeConjunctions_def)

text \<open>
  merging two canonical conjunctions is the canonical form of their concatenation: the linear
  merge gives the list that sorting and removing duplicates would give, up to \<open>Equals\<close>, with
  the same hash.
\<close>

theorem merge_is_canonical:
  assumes "sorts_permute S" "sorts_sort S" "type_laws I"
    "no_collisions I (set a \<union> set b)" "hash_increasing I a" "hash_increasing I b"
  shows "conjunctionEquals I (mergeConjunctions I S a b) None (canonicalizeConjunction I S (a @ b)) None
       \<and> conjunctionHash I (mergeConjunctions I S a b) = conjunctionHash I (canonicalizeConjunction I S (a @ b))"
proof (rule increasing_unique [OF assms(3)])
  have sub: "set (mergeConjunctions I S a b) \<subseteq> set a \<union> set b"
    using merge_loop_covers [OF assms(1,3), of "[]" a b] by (auto simp: mergeConjunctions_def)
  moreover have "set (canonicalizeConjunction I S (a @ b)) \<subseteq> set a \<union> set b"
    using canonicalize_covers [OF assms(1), of I "a @ b"] by simp
  ultimately show "no_collisions I (set (mergeConjunctions I S a b) \<union> set (canonicalizeConjunction I S (a @ b)))"
    by (intro no_collisions_mono [OF assms(4)]) blast
  show "hash_increasing I (mergeConjunctions I S a b)" by (rule merge_increasing [OF assms(4-6)])
  show "hash_increasing I (canonicalizeConjunction I S (a @ b))"
    by (rule canonicalize_increasing [OF assms(1,2)]) (use assms(4) in simp)
  show "same_constraints I (mergeConjunctions I S a b) (canonicalizeConjunction I S (a @ b))"
    using merge_same [OF assms(1,3), of a b] canonicalize_same [OF assms(1), of I "a @ b"]
      same_constraints_trans [OF assms(3)] same_constraints_sym [OF assms(3)] by blast
qed

theorem merge_is_canonical_witness:
  "conjunctionEquals lit_methods
     (mergeConjunctions lit_methods insertion_sorters [Truthy (NewPath 1 ''x'')] [Truthy (NewPath 1 ''y'')]) None
     (canonicalizeConjunction lit_methods insertion_sorters [Truthy (NewPath 1 ''x''), Truthy (NewPath 1 ''y'')]) None"
proof -
  let ?t = "Truthy (NewPath 1 ''x'')" and ?u = "Truthy (NewPath 1 ''y'')"
  have "no_collisions lit_methods (set [?t] \<union> set [?u])"
    by (auto simp: no_collisions_def path_Equal_def NewPath_def)
  moreover have "hash_increasing lit_methods [?t]" "hash_increasing lit_methods [?u]"
    by (simp_all add: hash_increasing_def)
  ultimately show ?thesis
    using merge_is_canonical [OF insertion_sorters_permute insertion_sorters_sort literal_type_laws, where a = "[?t]" and b = "[?u]"]
    by simp
qed

section \<open>Lookup\<close>

lemma search_hash_spec:
  assumes "hash_sorted I cs" "lo \<le> hi" "hi \<le> length cs"
    "\<forall>i<lo. constraint_Hash I (cs ! i) < h" "\<forall>i<length cs. hi \<le> i \<longrightarrow> h \<le> constraint_Hash I (cs ! i)"
  shows "search_hash I cs h lo hi \<le> length cs
       \<and> (\<forall>i < search_hash I cs h lo hi. constraint_Hash I (cs ! i) < h)
       \<and> (\<forall>i<length cs. search_hash I cs h lo hi \<le> i \<longrightarrow> h \<le> constraint_Hash I (cs ! i))"
  using assms
proof (induction I cs h lo hi rule: search_hash.induct)
  case (1 I cs h lo hi)
  let ?H = "\<lambda>i. constraint_Hash I (cs ! i)"
  have mono: "?H i \<le> ?H j" if "i \<le> j" "j < length cs" for i j
    using sorted_nth_mono [OF 1(3) [unfolded hash_sorted_def] that(1)] that by simp
  show ?case
  proof (cases "lo < hi")
    case True
    define mid where "mid = lo + (hi - lo) div 2"
    have mid: "lo \<le> mid" "mid < hi" using True by (auto simp: mid_def)
    show ?thesis
    proof (cases "?H mid < h")
      case less: True
      have "\<forall>i<mid + 1. ?H i < h"
      proof (intro allI impI)
        fix i assume "i < mid + 1"
        then have "?H i \<le> ?H mid" using mid 1(5) by (intro mono) auto
        with less show "?H i < h" by (rule le_less_trans [rotated])
      qed
      then have "search_hash I cs h (mid + 1) hi \<le> length cs
         \<and> (\<forall>i < search_hash I cs h (mid + 1) hi. ?H i < h)
         \<and> (\<forall>i<length cs. search_hash I cs h (mid + 1) hi \<le> i \<longrightarrow> h \<le> ?H i)"
        using mid 1(5,7) by (intro 1(1) [OF True mid_def less 1(3)]) simp_all
      moreover have "search_hash I cs h lo hi = search_hash I cs h (mid + 1) hi"
        unfolding search_hash.simps [of I cs h lo hi] using True less by (simp only: Let_def mid_def if_True)
      ultimately show ?thesis by simp
    next
      case ge: False
      have "\<forall>i<length cs. mid \<le> i \<longrightarrow> h \<le> ?H i"
      proof (intro allI impI)
        fix i assume "i < length cs" "mid \<le> i"
        then have "?H mid \<le> ?H i" by (intro mono)
        with ge show "h \<le> ?H i" by simp
      qed
      then have "search_hash I cs h lo mid \<le> length cs
         \<and> (\<forall>i < search_hash I cs h lo mid. ?H i < h)
         \<and> (\<forall>i<length cs. search_hash I cs h lo mid \<le> i \<longrightarrow> h \<le> ?H i)"
        using mid 1(5,6) by (intro 1(2) [OF True mid_def ge 1(3)]) simp_all
      moreover have "search_hash I cs h lo hi = search_hash I cs h lo mid"
        unfolding search_hash.simps [of I cs h lo hi] using True ge by (simp only: Let_def mid_def if_True if_False)
      ultimately show ?thesis by simp
    qed
  next
    case False
    then have "search_hash I cs h lo hi = lo" unfolding search_hash.simps [of I cs h lo hi] by simp
    moreover have "lo = hi" using False 1(4) by simp
    ultimately show ?thesis using 1(5-7) by simp
  qed
qed

lemma scan_hash_spec:
  "sorted (map (constraint_Hash I) cs) \<Longrightarrow> \<forall>c\<in>set cs. h \<le> constraint_Hash I c \<Longrightarrow>
     scan_hash I cs h c \<longleftrightarrow> (\<exists>d\<in>set cs. constraint_Hash I d = h \<and> constraint_Equals I d c)"
proof (induction cs)
  case (Cons x cs)
  show ?case
  proof (cases "constraint_Hash I x = h")
    case True
    then show ?thesis using Cons by auto
  next
    case False
    then have "h < constraint_Hash I x" using Cons.prems by auto
    then have "\<forall>d\<in>set (x # cs). constraint_Hash I d \<noteq> h" using Cons.prems by fastforce
    then show ?thesis by simp
  qed
qed simp

lemma contains_exact:
  assumes "type_laws I" "hash_sorted I cs"
  shows "ConjunctionContains I cs c \<longleftrightarrow> (\<exists>d\<in>set cs. constraint_Equals I d c)"
proof -
  let ?h = "constraint_Hash I c"
  let ?r = "search_hash I cs ?h 0 (length cs)"
  have eq: "constraint_Equals I d c \<Longrightarrow> constraint_Hash I d = ?h" for d
    by (rule Equals_hash [OF assms(1)])
  have r: "?r \<le> length cs" "\<forall>i<?r. constraint_Hash I (cs ! i) < ?h"
      "\<forall>i<length cs. ?r \<le> i \<longrightarrow> ?h \<le> constraint_Hash I (cs ! i)"
    using search_hash_spec [OF assms(2), of 0 "length cs" ?h] by auto
  have "\<forall>d\<in>set (drop ?r cs). ?h \<le> constraint_Hash I d"
    using r(3) by (auto simp: in_set_conv_nth)
  then have scan: "scan_hash I (drop ?r cs) ?h c \<longleftrightarrow>
      (\<exists>d\<in>set (drop ?r cs). constraint_Hash I d = ?h \<and> constraint_Equals I d c)"
    using assms(2) by (intro scan_hash_spec) (simp_all add: hash_sorted_def sorted_wrt_drop flip: drop_map)
  have "d \<in> set (drop ?r cs)" if d: "d \<in> set cs" "constraint_Equals I d c" for d
  proof -
    obtain i where i: "i < length cs" "d = cs ! i" using d(1) by (auto simp: in_set_conv_nth)
    with r(2) eq [OF d(2)] have "?r \<le> i" by (metis linorder_not_less order_less_irrefl)
    with i show ?thesis by (auto simp: in_set_conv_nth intro!: exI [of _ "i - ?r"])
  qed
  with scan eq show ?thesis
    by (auto simp: ConjunctionContains_def Let_def list_ex_iff dest: in_set_dropD)
qed

abbreviation hashed :: "'ty type_methods \<Rightarrow> 'ty Constraint list \<Rightarrow> (u64 \<times> 'ty Constraint) list" where
  "hashed I cs \<equiv> map (\<lambda>c. (constraint_Hash I c, c)) cs"

lemma zip_hashed: "zip (map (constraint_Hash I) cs) cs = hashed I cs"
  by (induction cs) auto

lemma in_dropWhile: "x \<in> set xs \<Longrightarrow> \<not> P x \<Longrightarrow> x \<in> set (dropWhile P xs)"
  by (induction xs) auto

lemma in_takeWhile_sorted:
  "sorted (map f xs) \<Longrightarrow> x \<in> set xs \<Longrightarrow> f x \<le> t \<Longrightarrow> x \<in> set (takeWhile (\<lambda>y. f y \<le> t) xs)"
  by (induction xs) (auto intro: order_trans)

lemma sorted_dropWhile_map: "sorted (map f xs) \<Longrightarrow> sorted (map f (dropWhile P xs))"
  by (induction xs) auto

lemma subsumes_loop_complete:
  assumes "type_laws I" "sorted (map (constraint_Hash I) a)" "sorted (map (constraint_Hash I) b)"
    "\<forall>c\<in>set a. \<exists>d\<in>set b. constraint_Equals I d c"
  shows "subsumes_loop I (hashed I a) (hashed I b)"
  using assms(2-)
proof (induction a arbitrary: b)
  case (Cons c a)
  let ?H = "constraint_Hash I"
  define b' where "b' = dropWhile (\<lambda>d. ?H d < ?H c) b"
  have dw: "dropWhile (\<lambda>(h, _). h < ?H c) (hashed I b) = hashed I b'"
    by (simp add: b'_def dropWhile_map o_def)
  have sb: "sorted (map ?H b')" unfolding b'_def by (rule sorted_dropWhile_map [OF Cons.prems(2)])
  obtain d where d: "d \<in> set b" "constraint_Equals I d c" using Cons.prems(3) by auto
  have hd: "?H d = ?H c" using Equals_hash [OF assms(1) d(2)] .
  have db: "d \<in> set b'" unfolding b'_def using d(1) hd by (intro in_dropWhile) simp_all
  have "\<not> (hashed I b' = [] \<or> fst (hd (hashed I b')) > ?H c)"
    using db sb hd by (cases b') auto
  moreover have "list_ex (\<lambda>(h, b). h = ?H c \<and> constraint_Equals I b c) (takeWhile (\<lambda>(h, _). h \<le> ?H c) (hashed I b'))"
  proof -
    have "d \<in> set (takeWhile (\<lambda>y. ?H y \<le> ?H c) b')"
      by (rule in_takeWhile_sorted [OF sb db]) (simp add: hd)
    then show ?thesis using d(2) hd by (auto simp: takeWhile_map o_def list_ex_iff)
  qed
  moreover have "subsumes_loop I (hashed I a) (hashed I b')"
  proof (rule Cons.IH [OF _ sb])
    show "\<forall>x\<in>set a. \<exists>d\<in>set b'. constraint_Equals I d x"
    proof
      fix x assume x: "x \<in> set a"
      then obtain y where y: "y \<in> set b" "constraint_Equals I y x" using Cons.prems(3) by auto
      have "?H c \<le> ?H y" using Equals_hash [OF assms(1) y(2)] Cons.prems(1) x by simp
      then have "y \<in> set b'" unfolding b'_def using y(1) by (intro in_dropWhile) simp_all
      with y(2) show "\<exists>d\<in>set b'. constraint_Equals I d x" by (rule bexI)
    qed
  qed (use Cons.prems(1) in simp)
  ultimately show ?case by (simp only: list.map subsumes_loop.simps Let_def dw if_False if_True)
qed simp

lemma unrepeated_length:
  assumes "type_laws I" "unrepeated I a" "\<forall>c\<in>set a. \<exists>d\<in>set b. constraint_Equals I d c"
  shows "length a \<le> length b"
proof -
  obtain f where f: "\<And>c. c \<in> set a \<Longrightarrow> f c \<in> set b \<and> constraint_Equals I (f c) c" using assms(3) by metis
  have apart: "\<not> constraint_Equals I (a ! i) (a ! j)" if "i < j" "j < length a" for i j
    using assms(2) that by (auto simp: unrepeated_def sorted_wrt_iff_nth_less)
  have "inj_on (\<lambda>i. f (a ! i)) {..<length a}"
  proof (rule linorder_inj_onI')
    fix i j assume ij: "i \<in> {..<length a}" "j \<in> {..<length a}" "i < j"
    show "f (a ! i) \<noteq> f (a ! j)"
    proof
      assume e: "f (a ! i) = f (a ! j)"
      have "constraint_Equals I (f (a ! i)) (a ! i)" "constraint_Equals I (f (a ! i)) (a ! j)"
        using f [of "a ! i"] f [of "a ! j"] ij unfolding e by auto
      then have "constraint_Equals I (a ! i) (a ! j)" using Equals_sym [OF assms(1)] Equals_trans [OF assms(1)] by blast
      then show False using apart ij by auto
    qed
  qed
  then have "length a = card ((\<lambda>i. f (a ! i)) ` {..<length a})" by (simp add: card_image)
  also have "\<dots> \<le> card (set b)" using f by (intro card_mono) auto
  also have "\<dots> \<le> length b" by (rule card_length)
  finally show ?thesis .
qed

lemma subsumes_exact:
  assumes "type_laws I" "hash_sorted I a" "unrepeated I a" "hash_sorted I b"
  shows "conjunctionSubsumes I a b \<longleftrightarrow> (\<forall>c\<in>set a. \<exists>d\<in>set b. constraint_Equals I d c)"
proof
  assume "conjunctionSubsumes I a b"
  then show "\<forall>c\<in>set a. \<exists>d\<in>set b. constraint_Equals I d c"
    using subsumes_core_sound [of I a "map (constraint_Hash I) a" b "map (constraint_Hash I) b"]
    by (simp add: conjunctionSubsumes_def)
next
  assume c: "\<forall>c\<in>set a. \<exists>d\<in>set b. constraint_Equals I d c"
  have "\<not> length a > length b" using unrepeated_length [OF assms(1,3) c] by simp
  moreover have "subsumes_loop I (hashed I a) (hashed I b)"
    using subsumes_loop_complete [OF assms(1) _ _ c] assms(2,4) by (simp add: hash_sorted_def)
  ultimately show "conjunctionSubsumes I a b"
    by (simp add: conjunctionSubsumes_def subsumes_core_def zip_hashed)
qed

text \<open>
  C33: lookups in a conjunction in hash order are exact, hash collisions included: the binary search
  of \<open>ConjunctionContains\<close> finds a constraint iff an equal one is there, and the linear subsumption scan
  of a conjunction in hash order that repeats no constraint holds iff every constraint of it has an equal
  one in the other. The types have lawful equality.
\<close>

theorem conjunction_lookup_exact:
  assumes "type_laws I" "hash_sorted I b"
  shows "(ConjunctionContains I b c \<longleftrightarrow> (\<exists>d\<in>set b. constraint_Equals I d c))
       \<and> (hash_sorted I a \<and> unrepeated I a \<longrightarrow>
            (conjunctionSubsumes I a b \<longleftrightarrow> (\<forall>x\<in>set a. \<exists>d\<in>set b. constraint_Equals I d x)))"
  using contains_exact [OF assms] subsumes_exact [OF assms(1) _ _ assms(2)] by blast

theorem conjunction_lookup_exact_witness:
  "(let a = IndexEquals (NewPath 1 ''x'') (Some (LiteralBool True)) None; b = IndexEquals (NewPath 1 ''x'') (Some (LiteralBool False)) None in
    ConjunctionContains flat_methods [a, b] b \<and> conjunctionSubsumes flat_methods [a, b] [b, a])"
proof -
  let ?a = "IndexEquals (NewPath 1 ''x'') (Some (LiteralBool True)) None" and ?b = "IndexEquals (NewPath 1 ''x'') (Some (LiteralBool False)) None"
  have e: "constraint_Hash flat_methods ?a = constraint_Hash flat_methods ?b" "constraint_Equals flat_methods ?a ?a" "constraint_Equals flat_methods ?b ?b"
    "\<not> constraint_Equals flat_methods ?a ?b"
    by (simp_all add: flat_methods_def literal_methods_def hash_opt_def)
  have h: "hash_sorted flat_methods [?a, ?b]" "hash_sorted flat_methods [?b, ?a]" "unrepeated flat_methods [?a, ?b]"
    using e by (simp_all add: hash_sorted_def unrepeated_def del: constraint_Hash.simps constraint_Equals.simps)
  show ?thesis
    using conjunction_lookup_exact [OF flat_type_laws h(1), of ?b "[]"] conjunction_lookup_exact [OF flat_type_laws h(2), of ?b "[?a, ?b]"] h e
    by (simp add: Let_def del: constraint_Hash.simps constraint_Equals.simps)
qed

end
