(* ===== verification/CondSubst.thy ===== *)
theory CondSubst
  imports CondProps
begin

text \<open>
  Substitution of argument paths for placeholders, with which a function's refinement is applied at
  a call. The meaning is binding: a constraint over \<open>$i\<close> after substitution says about the caller's
  world what it said before about the world in which \<open>$i\<close> is the value of argument \<open>i\<close>.
\<close>

definition bind_args :: "('v, 'ty) world \<Rightarrow> Path list \<Rightarrow> ('v, 'ty) world" where
  "bind_args w args = w\<lparr>w_text := (\<lambda>s.
     let i = PlaceholderIndexFromString s in
     if 0 \<le> i \<and> i < int (length args) \<and> \<not> path_IsEmpty (args ! nat i)
     then path_value w (args ! nat i) else w_text w s)\<rparr>"

lemma bind_args_simps [simp]:
  "w_nil (bind_args w args) = w_nil w" "w_false (bind_args w args) = w_false w"
  "w_symbol (bind_args w args) = w_symbol w" "w_step (bind_args w args) = w_step w"
  "w_has_type (bind_args w args) = w_has_type w" "w_has_field (bind_args w args) = w_has_field w"
  "w_index (bind_args w args) = w_index w" "w_literal (bind_args w args) = w_literal w"
  "w_key_of (bind_args w args) = w_key_of w" "is_truthy (bind_args w args) v = is_truthy w v"
  by (simp_all add: bind_args_def is_truthy_def)

text \<open>The placeholder \<open>p\<close> stands for an argument that is there and not empty.\<close>

definition bound :: "Path \<Rightarrow> Path list \<Rightarrow> bool" where
  "bound p args \<longleftrightarrow>
     IsPlaceholder p \<and> PlaceholderIndex p < int (length args) \<and> \<not> path_IsEmpty (args ! nat (PlaceholderIndex p))"

lemma path_value_bound:
  "bound p args \<Longrightarrow>
     path_value (bind_args w args) p =
       foldl (w_step w) (path_value w (args ! nat (PlaceholderIndex p))) (Segments p)"
  by (auto simp: bound_def path_value_def root_value_def IsPlaceholder_def PlaceholderIndex_def bind_args_def Let_def)

lemma path_value_unbound: "\<not> bound p args \<Longrightarrow> path_value (bind_args w args) p = path_value w p"
  by (auto simp: bound_def path_value_def root_value_def IsPlaceholder_def PlaceholderIndex_def bind_args_def Let_def)

lemma path_value_append: "path_value w (p\<lparr>Segments := Segments p @ segs\<rparr>) = foldl (w_step w) (path_value w p) segs"
  by (simp add: path_value_def root_value_def)

section \<open>Constraints\<close>

lemma path_Substitute_value:
  assumes "path_Substitute p args = Some q"
  shows "path_value w q = path_value (bind_args w args) p"
proof (cases "IsPlaceholder p")
  case True
  then have "bound p args" and "q = (args ! nat (PlaceholderIndex p))\<lparr>Segments :=
      Segments (args ! nat (PlaceholderIndex p)) @ Segments p\<rparr>"
    using assms by (auto simp: path_Substitute_def bound_def Let_def split: if_splits)
  then show ?thesis by (simp add: path_value_bound path_value_append)
next
  case False
  then have "q = p" "\<not> bound p args"
    using assms by (auto simp: path_Substitute_def bound_def split: if_splits)
  then show ?thesis by (simp add: path_value_unbound)
qed

lemma sub2_Some:
  "sub2 p q args build = Some c \<Longrightarrow>
     \<exists>l r. path_Substitute p args = Some l \<and> path_Substitute q args = Some r \<and> c = build l r"
  by (auto simp: sub2_def split: option.splits)

lemma field_value_value: "path_value w q = path_value v p \<Longrightarrow> w_step w = w_step v \<Longrightarrow> field_value w q f = field_value v p f"
  by (simp add: field_value_def)

text \<open>
  Substitution in a constraint is exact: when it succeeds, the result holds in the caller's
  world iff the constraint holds in the world where each placeholder is the value of its argument,
  versions included.
\<close>

theorem constraint_substitute_exact:
  assumes "constraint_Substitute c args = Some d"
  shows "holds w d \<longleftrightarrow> holds (bind_args w args) c"
proof -
  note v = path_Substitute_value [of _ args _ w]
  show ?thesis
    using assms by (cases c) (auto dest!: sub2_Some v simp: field_value_def)
qed

theorem constraint_substitute_exact_witness:
  "holds number_world (Truthy (Field (NewPath 7 ''t'') ''name'')) \<longleftrightarrow>
     holds (bind_args number_world [NewPath 7 ''t'']) (Truthy (Field (ParamPath 0) ''name''))"
proof (rule constraint_substitute_exact)
  show "constraint_Substitute (Truthy (Field (ParamPath 0) ''name'')) [NewPath 7 ''t''] =
      Some (Truthy (Field (NewPath 7 ''t'') ''name'') :: Literal Constraint)"
    by code_simp
qed

section \<open>Conditions\<close>

text \<open>The path mapper of \<open>substituteConstraint\<close>.\<close>

definition sub_path :: "Path list \<Rightarrow> Path \<Rightarrow> Path option" where
  "sub_path args p = (let sub = substitutePath p args in if path_IsEmpty sub then None else Some sub)"

definition unversioned :: "Path list \<Rightarrow> bool" where
  "unversioned args \<longleftrightarrow> (\<forall>a\<in>set args. Symbol a \<noteq> 0 \<longrightarrow> Version a = 0)"

lemma substituteConstraint_sub: "substituteConstraint c args = MapPaths c (sub_path args)"
  by (simp add: substituteConstraint_def sub_path_def [abs_def])

lemma empty_path_IsEmpty [simp]: "path_IsEmpty empty_path"
  by (simp add: path_IsEmpty_def empty_path_def)

lemma sub_path_bound:
  assumes "bound p args"
  shows "sub_path args p = Some (if Segments p = [] then args ! nat (PlaceholderIndex p)
    else \<lparr>Root = Root (args ! nat (PlaceholderIndex p)), Symbol = Symbol (args ! nat (PlaceholderIndex p)),
          Segments = Segments (args ! nat (PlaceholderIndex p)) @ Segments p, Version = 0\<rparr>)"
  using assms by (auto simp: bound_def sub_path_def substitutePath_def PlaceholderArgIndex_def IsPlaceholder_def
      Let_def path_IsEmpty_def)

lemma sub_path_unbound: "\<not> bound p args \<Longrightarrow> sub_path args p = Some q \<Longrightarrow> q = p"
  by (auto simp: bound_def sub_path_def substitutePath_def PlaceholderArgIndex_def Let_def split: if_splits)

lemma sub_path_Some:
  assumes "unversioned args" "sub_path args p = Some q"
  shows "path_value w q = path_value (bind_args w args) p"
proof (cases "bound p args")
  case True
  let ?a = "args ! nat (PlaceholderIndex p)"
  have "?a \<in> set args" using True by (auto simp: bound_def IsPlaceholder_def)
  then have "Symbol ?a \<noteq> 0 \<longrightarrow> Version ?a = 0" using assms(1) by (auto simp: unversioned_def)
  then have "path_value w \<lparr>Root = Root ?a, Symbol = Symbol ?a, Segments = Segments ?a @ Segments p, Version = 0\<rparr>
      = foldl (w_step w) (path_value w ?a) (Segments p)"
    by (simp add: path_value_def root_value_def)
  then show ?thesis
    using assms(2) by (cases "Segments p = []") (simp_all add: sub_path_bound [OF True] path_value_bound [OF True])
next
  case False
  then show ?thesis using sub_path_unbound [OF False assms(2)] by (simp add: path_value_unbound)
qed

lemma sub_path_None: "sub_path args p = None \<Longrightarrow> path_value w p = path_value (bind_args w args) p"
  using sub_path_bound [of p args] path_value_unbound [of p args w] by (cases "bound p args") auto

lemma MapPaths_pair:
  assumes "unversioned args" "mapPathPair p q (sub_path args) build = Some c"
  shows "\<exists>l r. c = build l r \<and> path_value w l = path_value (bind_args w args) p
      \<and> path_value w r = path_value (bind_args w args) q"
proof -
  obtain l r where "c = build l r" "sub_path args p = Some l \<or> sub_path args p = None \<and> l = p"
      "sub_path args q = Some r \<or> sub_path args q = None \<and> r = q"
    using assms(2) by (cases "sub_path args p"; cases "sub_path args q") (auto simp: mapPathPair_def)
  then show ?thesis
    using sub_path_Some [OF assms(1), of _ _ w] sub_path_None [of args _ w] by blast
qed

lemma substituteConstraint_holds:
  assumes "unversioned args" "substituteConstraint c args = Some d"
  shows "holds w d \<longleftrightarrow> holds (bind_args w args) c"
  using assms(2) unfolding substituteConstraint_sub
  by (cases c)
    (auto dest!: MapPaths_pair [OF assms(1), of _ _ _ _ w] sub_path_Some [OF assms(1), of _ _ w] simp: field_value_def)

lemma map_filter_holds:
  assumes "\<And>c d. f c = Some d \<Longrightarrow> holds w d = holds v c"
  shows "conj_holds v cs \<longrightarrow> conj_holds w (List.map_filter f cs)"
    and "(\<forall>c\<in>set cs. f c \<noteq> None) \<Longrightarrow> conj_holds w (List.map_filter f cs) = conj_holds v cs"
  using assms by (induction cs) (auto simp: List.map_filter_def)

lemma SubstituteConjunction_holds:
  assumes "sorts_permute S" "world_ok I w" "unversioned args"
  shows "conj_holds (bind_args w args) cs \<longrightarrow> conj_holds w (SubstituteConjunction I S cs args)"
    and "(\<forall>c\<in>set cs. substituteConstraint c args \<noteq> None) \<Longrightarrow>
      conj_holds w (SubstituteConjunction I S cs args) = conj_holds (bind_args w args) cs"
  using map_filter_holds [of "\<lambda>c. substituteConstraint c args" w "bind_args w args" cs,
      OF substituteConstraint_holds [OF assms(3)]]
  by (auto simp: SubstituteConjunction_def canonicalize_holds [OF assms(2,1)])

text \<open>
  C34: applying a refinement at a call is sound: for arguments without a version, whenever the
  condition holds in the world with the arguments bound to the placeholders, the substituted condition holds
  in the caller's world, although a constraint over a missing argument is dropped; and it is exact
  when none is and there are at most \<open>DefaultMaxDisjuncts\<close> disjuncts.
\<close>

theorem condition_substitute_sound:
  assumes "sorts_permute S" "world_ok I w" "unversioned args"
  shows "(cond_holds (bind_args w args) c \<longrightarrow> cond_holds w (cond_Substitute I S c args))
       \<and> ((\<forall>d\<in>set (Disjuncts c). \<forall>ct\<in>set d. substituteConstraint ct args \<noteq> None) \<longrightarrow>
          length (Disjuncts c) \<le> DefaultMaxDisjuncts \<longrightarrow>
            (cond_holds w (cond_Substitute I S c args) \<longleftrightarrow> cond_holds (bind_args w args) c))"
proof (cases "Disjuncts c = []")
  case True
  then show ?thesis by (simp add: cond_Substitute_def cond_holds_def)
next
  case False
  let ?sub = "\<lambda>cs. if length cs = 0 then cs else SubstituteConjunction I S cs args"
  let ?c = "\<lparr>Disjuncts = map ?sub (Disjuncts c), normalized = False\<rparr>"
  have e: "cond_Substitute I S c args = normalizeCondition I S ?c" using False by (simp add: cond_Substitute_def)
  have s: "conj_holds (bind_args w args) d \<longrightarrow> conj_holds w (?sub d)" for d
    using SubstituteConjunction_holds(1) [OF assms, of d] by simp
  have x: "conj_holds w (?sub d) = conj_holds (bind_args w args) d"
    if "\<forall>ct\<in>set d. substituteConstraint ct args \<noteq> None" for d
    using SubstituteConjunction_holds(2) [OF assms that] by simp
  have "cond_holds w ?c" if "cond_holds (bind_args w args) c"
    using that s by (fastforce simp: cond_holds_def dnf_holds_def)
  then have 1: "cond_holds w (cond_Substitute I S c args)" if "cond_holds (bind_args w args) c"
    unfolding e using that normalize_sound [OF assms(1,2)] by blast
  have 2: "cond_holds w (cond_Substitute I S c args) = cond_holds (bind_args w args) c"
    if "\<forall>d\<in>set (Disjuncts c). \<forall>ct\<in>set d. substituteConstraint ct args \<noteq> None"
      "length (Disjuncts c) \<le> DefaultMaxDisjuncts"
  proof -
    have "cond_holds w ?c = (\<exists>d\<in>set (Disjuncts c). conj_holds w (?sub d))"
      unfolding cond_holds_simps dnf_holds_def set_map by blast
    also have "\<dots> = cond_holds (bind_args w args) c"
      using x that(1) unfolding cond_holds_def dnf_holds_def by blast
    finally show ?thesis unfolding e using normalize_exact [OF assms(1,2), of ?c] that(2) by simp
  qed
  show ?thesis using 1 2 by blast
qed

theorem condition_substitute_sound_witness:
  "cond_holds number_world (cond_Substitute lit_methods insertion_sorters
     \<lparr>Disjuncts = [[Truthy (ParamPath 0)]], normalized = True\<rparr> [NewPath 2 ''x''])"
proof -
  have "unversioned [NewPath 2 ''x'']" by (simp add: unversioned_def NewPath_def)
  moreover have "path_value (bind_args number_world [NewPath 2 ''x'']) (ParamPath 0) = 2" by code_simp
  then have "cond_holds (bind_args number_world [NewPath 2 ''x'']) \<lparr>Disjuncts = [[Truthy (ParamPath 0)]], normalized = True\<rparr>"
    by (simp add: is_truthy_def number_world_def)
  ultimately show ?thesis
    using condition_substitute_sound [OF insertion_sorters_permute number_world_ok] by blast
qed

text \<open>
  With a versioned argument the two substitutions differ: the one of conditions drops the version
  when the placeholder has steps.
\<close>

lemma substitutePath_drops_version:
  "\<exists>p args q. path_Substitute p args = Some q \<and> \<not> path_Equal (substitutePath p args) q"
proof -
  let ?p = "Field (ParamPath 0) ''f''" and ?a = "(NewPath 5 ''x'')\<lparr>Version := 2\<rparr>"
  have "path_Substitute ?p [?a] = Some (Field ?a ''f'')" by code_simp
  moreover have "\<not> path_Equal (substitutePath ?p [?a]) (Field ?a ''f'')" by code_simp
  ultimately show ?thesis by blast
qed

end
