(* ===== verification/Components.thy ===== *)
theory Components
  imports Prelude
begin

text \<open>
  Strongly connected components by Tarjan's algorithm (\<open>internal/scc.go\<close>), with which the checker
  orders mutually recursive functions. The result is shown to be the components of the graph, each
  sorted, with the components that one depends on before it.

  Go's maps from symbols are functions to options; a missing key reads as 0 or false. The stack is a
  list with its top first. The number of visited symbols is taken not to overflow an \<open>int\<close>. An empty
  stack where the code pops is \<open>None\<close>, the panic it would be.
\<close>

section \<open>The algorithm\<close>

type_synonym adjacency = "(u64 \<times> u64 list) list"

record sccState =
  scc_index :: nat
  indices :: "u64 \<Rightarrow> nat option"
  lowlinks :: "u64 \<Rightarrow> nat option"
  onStack :: "u64 \<Rightarrow> bool"
  scc_stack :: "u64 list"
  scc_sccs :: "u64 list list"

definition map_read :: "('k \<Rightarrow> nat option) \<Rightarrow> 'k \<Rightarrow> nat" where
  "map_read m k = (case m k of None \<Rightarrow> 0 | Some n \<Rightarrow> n)"

abbreviation idx :: "sccState \<Rightarrow> u64 \<Rightarrow> nat" where "idx s \<equiv> map_read (indices s)"
abbreviation low :: "sccState \<Rightarrow> u64 \<Rightarrow> nat" where "low s \<equiv> map_read (lowlinks s)"

definition sorted_successors :: "adjacency \<Rightarrow> u64 \<Rightarrow> u64 list" where
  "sorted_successors adj vertex = sort (case map_of adj vertex of None \<Rightarrow> [] | Some xs \<Rightarrow> xs)"

definition enter_vertex :: "u64 \<Rightarrow> sccState \<Rightarrow> sccState" where
  "enter_vertex vertex s =
     s\<lparr>indices := (indices s)(vertex \<mapsto> scc_index s), lowlinks := (lowlinks s)(vertex \<mapsto> scc_index s),
       scc_index := scc_index s + 1, scc_stack := vertex # scc_stack s, onStack := (onStack s)(vertex := True)\<rparr>"

fun pop_component ::
  "u64 \<Rightarrow> u64 list \<Rightarrow> (u64 \<Rightarrow> bool) \<Rightarrow> u64 list \<Rightarrow> (u64 list \<times> (u64 \<Rightarrow> bool) \<times> u64 list) option" where
  "pop_component vertex [] on scc = None"
| "pop_component vertex (node # stk) on scc =
     (let on = on(node := False); scc = scc @ [node] in
      if node = vertex then Some (stk, on, scc) else pop_component vertex stk on scc)"

definition finish_vertex :: "u64 \<Rightarrow> sccState \<Rightarrow> sccState option" where
  "finish_vertex vertex s =
     (if low s vertex = idx s vertex then
        case pop_component vertex (scc_stack s) (onStack s) [] of
          None \<Rightarrow> None
        | Some (stk, on, scc) \<Rightarrow>
            Some (s\<lparr>scc_stack := stk, onStack := on, scc_sccs := scc_sccs s @ [sort scc]\<rparr>)
      else Some s)"

definition lower_to :: "u64 \<Rightarrow> nat \<Rightarrow> sccState \<Rightarrow> sccState" where
  "lower_to vertex n s = (if n < low s vertex then s\<lparr>lowlinks := (lowlinks s)(vertex \<mapsto> n)\<rparr> else s)"

partial_function (option) visit_successors ::
  "adjacency \<Rightarrow> u64 \<Rightarrow> u64 list \<Rightarrow> sccState \<Rightarrow> sccState option" where
  "visit_successors adj vertex ws s =
     (case ws of
        [] \<Rightarrow> finish_vertex vertex s
      | successor # ws \<Rightarrow>
          if indices s successor = None then
            Option.bind (visit_successors adj successor (sorted_successors adj successor) (enter_vertex successor s))
              (\<lambda>s. visit_successors adj vertex ws (lower_to vertex (low s successor) s))
          else if onStack s successor then
            visit_successors adj vertex ws (lower_to vertex (idx s successor) s)
          else visit_successors adj vertex ws s)"

declare visit_successors.simps [code]

definition strongconnect :: "adjacency \<Rightarrow> u64 \<Rightarrow> sccState \<Rightarrow> sccState option" where
  "strongconnect adj vertex s = visit_successors adj vertex (sorted_successors adj vertex) (enter_vertex vertex s)"

fun scc_roots :: "adjacency \<Rightarrow> u64 list \<Rightarrow> sccState \<Rightarrow> sccState option" where
  "scc_roots adj [] s = Some s"
| "scc_roots adj (v # vs) s =
     (if indices s v = None then Option.bind (strongconnect adj v s) (scc_roots adj vs)
      else scc_roots adj vs s)"

definition ComputeSCCs :: "adjacency \<Rightarrow> u64 list list option" where
  "ComputeSCCs adj =
     (if adj = [] then Some []
      else map_option scc_sccs (scc_roots adj (sort (map fst adj))
        \<lparr>scc_index = 0, indices = Map.empty, lowlinks = Map.empty, onStack = (\<lambda>_. False), scc_stack = [], scc_sccs = []\<rparr>))"

section \<open>Graph and components\<close>

definition edge :: "adjacency \<Rightarrow> u64 \<Rightarrow> u64 \<Rightarrow> bool" where
  "edge adj x y \<longleftrightarrow> y \<in> set (sorted_successors adj x)"

abbreviation reach :: "adjacency \<Rightarrow> u64 \<Rightarrow> u64 \<Rightarrow> bool" where
  "reach adj \<equiv> (edge adj)\<^sup>*\<^sup>*"

definition is_component :: "adjacency \<Rightarrow> u64 list \<Rightarrow> bool" where
  "is_component adj C \<longleftrightarrow>
     C \<noteq> [] \<and> sorted C \<and> distinct C
   \<and> (\<forall>x\<in>set C. \<forall>y. y \<in> set C \<longleftrightarrow> reach adj x y \<and> reach adj y x)"

text \<open>Every component, and every edge out of it leads into it or into a component before it.\<close>

fun ordered_components :: "adjacency \<Rightarrow> u64 set \<Rightarrow> u64 list list \<Rightarrow> bool" where
  "ordered_components adj before [] = True"
| "ordered_components adj before (C # Cs) \<longleftrightarrow>
     is_component adj C \<and> (\<forall>x\<in>set C. \<forall>y. edge adj x y \<longrightarrow> y \<in> set C \<union> before)
   \<and> ordered_components adj (before \<union> set C) Cs"

lemma ordered_components_snoc:
  "ordered_components adj before (Cs @ [C]) \<longleftrightarrow>
     ordered_components adj before Cs \<and> is_component adj C
   \<and> (\<forall>x\<in>set C. \<forall>y. edge adj x y \<longrightarrow> y \<in> set C \<union> before \<union> set (concat Cs))"
  by (induction Cs arbitrary: before) (auto simp: Un_assoc)

lemma ordered_components_closed:
  "ordered_components adj before Cs \<Longrightarrow> x \<in> set (concat Cs) \<Longrightarrow> edge adj x y \<Longrightarrow> y \<in> set (concat Cs) \<union> before"
  by (induction Cs arbitrary: before) (simp, fastforce)

lemma closed_reach:
  assumes "reach adj x y" "x \<in> A" "\<And>x y. x \<in> A \<Longrightarrow> edge adj x y \<Longrightarrow> y \<in> A"
  shows "y \<in> A"
  using assms by (induction rule: rtranclp_induct) auto

section \<open>The invariant\<close>

text \<open>
  \<open>G\<close> is the set of vertices that are entered and not finished. Every vertex on the stack that was
  entered after such a vertex is reachable from it, and reaches one that was entered before.
\<close>

definition state_ok :: "adjacency \<Rightarrow> u64 set \<Rightarrow> sccState \<Rightarrow> bool" where
  "state_ok adj G s \<longleftrightarrow>
     (\<forall>x n. indices s x = Some n \<longrightarrow> n < scc_index s)
   \<and> dom (indices s) = set (scc_stack s) \<union> set (concat (scc_sccs s))
   \<and> distinct (scc_stack s @ concat (scc_sccs s))
   \<and> (\<forall>x. onStack s x \<longleftrightarrow> x \<in> set (scc_stack s))
   \<and> sorted_wrt (\<lambda>x y. idx s y < idx s x) (scc_stack s)
   \<and> G \<subseteq> set (scc_stack s)
   \<and> (\<forall>y\<in>G. \<forall>x\<in>set (scc_stack s). idx s y \<le> idx s x \<longrightarrow> reach adj y x)
   \<and> (\<forall>x\<in>set (scc_stack s). \<exists>y\<in>G. idx s y \<le> idx s x \<and> reach adj x y)
   \<and> (\<forall>x\<in>set (scc_stack s) - G. \<forall>y. edge adj x y \<longrightarrow> y \<in> dom (indices s))
   \<and> ordered_components adj {} (scc_sccs s)"

lemma state_okD:
  assumes "state_ok adj G s"
  shows "indices s x = Some n \<Longrightarrow> n < scc_index s"
    and "dom (indices s) = set (scc_stack s) \<union> set (concat (scc_sccs s))"
    and "distinct (scc_stack s @ concat (scc_sccs s))"
    and "onStack s x \<longleftrightarrow> x \<in> set (scc_stack s)"
    and "sorted_wrt (\<lambda>x y. idx s y < idx s x) (scc_stack s)"
    and "G \<subseteq> set (scc_stack s)"
    and "y \<in> G \<Longrightarrow> x \<in> set (scc_stack s) \<Longrightarrow> idx s y \<le> idx s x \<Longrightarrow> reach adj y x"
    and "x \<in> set (scc_stack s) \<Longrightarrow> \<exists>y\<in>G. idx s y \<le> idx s x \<and> reach adj x y"
    and "x \<in> set (scc_stack s) \<Longrightarrow> x \<notin> G \<Longrightarrow> edge adj x y \<Longrightarrow> y \<in> dom (indices s)"
    and "ordered_components adj {} (scc_sccs s)"
  using assms unfolding state_ok_def by blast+

lemma state_okI:
  assumes "\<And>x n. indices s x = Some n \<Longrightarrow> n < scc_index s"
    and "dom (indices s) = set (scc_stack s) \<union> set (concat (scc_sccs s))"
    and "distinct (scc_stack s @ concat (scc_sccs s))"
    and "\<And>x. onStack s x \<longleftrightarrow> x \<in> set (scc_stack s)"
    and "sorted_wrt (\<lambda>x y. idx s y < idx s x) (scc_stack s)"
    and "G \<subseteq> set (scc_stack s)"
    and "\<And>x y. y \<in> G \<Longrightarrow> x \<in> set (scc_stack s) \<Longrightarrow> idx s y \<le> idx s x \<Longrightarrow> reach adj y x"
    and "\<And>x. x \<in> set (scc_stack s) \<Longrightarrow> \<exists>y\<in>G. idx s y \<le> idx s x \<and> reach adj x y"
    and "\<And>x y. x \<in> set (scc_stack s) \<Longrightarrow> x \<notin> G \<Longrightarrow> edge adj x y \<Longrightarrow> y \<in> dom (indices s)"
    and "ordered_components adj {} (scc_sccs s)"
  shows "state_ok adj G s"
  using assms unfolding state_ok_def by blast

text \<open>
  What the low link of an unfinished vertex says, \<open>done\<close> being the successors looked at: a vertex
  on the stack that it reaches, and no edge found so far leads further down the stack.
\<close>

definition low_ok :: "adjacency \<Rightarrow> sccState \<Rightarrow> u64 \<Rightarrow> u64 set \<Rightarrow> bool" where
  "low_ok adj s v finished \<longleftrightarrow>
     low s v \<le> idx s v
   \<and> (\<exists>u\<in>set (scc_stack s). idx s u = low s v \<and> reach adj v u)
   \<and> (\<forall>x\<in>set (scc_stack s). \<forall>y\<in>set (scc_stack s). idx s v < idx s x \<longrightarrow> edge adj x y \<longrightarrow> low s v \<le> idx s y)
   \<and> (\<forall>y\<in>finished \<inter> set (scc_stack s). low s v \<le> idx s y)
   \<and> finished \<subseteq> dom (indices s)"

lemma low_okD:
  assumes "low_ok adj s v finished"
  shows "low s v \<le> idx s v" and "\<exists>u\<in>set (scc_stack s). idx s u = low s v \<and> reach adj v u"
    and "x \<in> set (scc_stack s) \<Longrightarrow> y \<in> set (scc_stack s) \<Longrightarrow> idx s v < idx s x \<Longrightarrow> edge adj x y \<Longrightarrow> low s v \<le> idx s y"
    and "y \<in> finished \<Longrightarrow> y \<in> set (scc_stack s) \<Longrightarrow> low s v \<le> idx s y" and "finished \<subseteq> dom (indices s)"
  using assms unfolding low_ok_def by blast+

lemma low_okI:
  assumes "low s v \<le> idx s v" and "\<exists>u\<in>set (scc_stack s). idx s u = low s v \<and> reach adj v u"
    and "\<And>x y. x \<in> set (scc_stack s) \<Longrightarrow> y \<in> set (scc_stack s) \<Longrightarrow> idx s v < idx s x \<Longrightarrow> edge adj x y \<Longrightarrow> low s v \<le> idx s y"
    and "\<And>y. y \<in> finished \<Longrightarrow> y \<in> set (scc_stack s) \<Longrightarrow> low s v \<le> idx s y" and "finished \<subseteq> dom (indices s)"
  shows "low_ok adj s v finished"
  using assms unfolding low_ok_def by blast

section \<open>Finishing a vertex\<close>

lemma pop_component_append:
  "vertex \<notin> set A \<Longrightarrow> pop_component vertex (A @ vertex # B) on scc =
     Some (B, (\<lambda>x. on x \<and> x \<notin> set (A @ [vertex])), scc @ A @ [vertex])"
proof (induction A arbitrary: on scc)
  case Nil
  then show ?case by (auto simp: fun_eq_iff)
next
  case (Cons a A)
  then show ?case by (auto simp: Let_def fun_eq_iff)
qed

lemma stack_above:
  assumes "state_ok adj G s" "scc_stack s = A @ v # B"
  shows "x \<in> set A \<Longrightarrow> idx s v < idx s x" and "x \<in> set B \<Longrightarrow> idx s x < idx s v"
    and "x \<in> set (scc_stack s) \<Longrightarrow> idx s v \<le> idx s x \<longleftrightarrow> x \<in> set (A @ [v])"
    and "v \<notin> set A" "v \<notin> set B"
  using state_okD(3,5) [OF assms(1)] unfolding assms(2) by (fastforce simp: sorted_wrt_append)+

lemma finish_keep:
  assumes "state_ok adj G s" "v \<in> G" "low_ok adj s v (set (sorted_successors adj v))" "low s v < idx s v"
  shows "finish_vertex v s = Some s" and "state_ok adj (G - {v}) s"
proof -
  show "finish_vertex v s = Some s" using assms(4) by (simp add: finish_vertex_def)
  obtain u where u: "u \<in> set (scc_stack s)" "idx s u = low s v" "reach adj v u" using low_okD(2) [OF assms(3)] by blast
  obtain y where y: "y \<in> G" "idx s y \<le> idx s u" "reach adj u y" using state_okD(8) [OF assms(1) u(1)] by blast
  have y': "y \<in> G - {v}" "idx s y < idx s v" "reach adj v y"
    using y u assms(4) by auto
  show "state_ok adj (G - {v}) s"
  proof (rule state_okI)
    fix x assume "x \<in> set (scc_stack s)"
    then obtain z where z: "z \<in> G" "idx s z \<le> idx s x" "reach adj x z" using state_okD(8) [OF assms(1)] by blast
    show "\<exists>y\<in>G - {v}. idx s y \<le> idx s x \<and> reach adj x y"
    proof (cases "z = v")
      case True
      then show ?thesis using y' z by (intro bexI [of _ y]) auto
    next
      case False
      then show ?thesis using z by blast
    qed
  next
    fix x w assume x: "x \<in> set (scc_stack s)" "x \<notin> G - {v}" "edge adj x w"
    show "w \<in> dom (indices s)"
    proof (cases "x = v")
      case True
      then show ?thesis using x(3) low_okD(5) [OF assms(3)] by (auto simp: edge_def)
    next
      case False
      then show ?thesis using x state_okD(9) [OF assms(1)] by blast
    qed
  next
    show "G - {v} \<subseteq> set (scc_stack s)" using state_okD(6) [OF assms(1)] by blast
  next
    fix x y assume "y \<in> G - {v}" "x \<in> set (scc_stack s)" "idx s y \<le> idx s x"
    then show "reach adj y x" using state_okD(7) [OF assms(1)] by blast
  qed (use state_okD(1-5,10) [OF assms(1)] in \<open>simp_all\<close>)
qed

lemma popped_edges:
  assumes "state_ok adj G s" "scc_stack s = A @ v # B" "v \<in> G" "G \<subseteq> set (v # B)"
    "low_ok adj s v (set (sorted_successors adj v))" "low s v = idx s v"
    "x \<in> set (A @ [v])" "edge adj x y"
  shows "y \<in> set (A @ [v]) \<union> set (concat (scc_sccs s))"
proof -
  note above = stack_above [OF assms(1,2)]
  have x: "x \<in> set (scc_stack s)" using assms(2,7) by auto
  have dom: "y \<in> dom (indices s)"
  proof (cases "x = v")
    case True
    then show ?thesis using assms(8) low_okD(5) [OF assms(5)] by (auto simp: edge_def)
  next
    case False
    then have "x \<notin> G" using assms(4,7) above(1,2) [of x] by fastforce
    then show ?thesis using state_okD(9) [OF assms(1) x _ assms(8)] by blast
  qed
  have "y \<in> set (A @ [v])" if y: "y \<in> set (scc_stack s)"
  proof -
    have "low s v \<le> idx s y"
    proof (cases "x = v")
      case True
      then show ?thesis using assms(8) low_okD(4) [OF assms(5) _ y] by (auto simp: edge_def)
    next
      case False
      then show ?thesis using low_okD(3) [OF assms(5) x y _ assms(8)] assms(7) above(1) [of x] by auto
    qed
    then show ?thesis using assms(6) above(3) [OF y] by simp
  qed
  then show ?thesis using dom state_okD(2) [OF assms(1)] by blast
qed

lemma popped_component:
  assumes "state_ok adj G s" "scc_stack s = A @ v # B" "v \<in> G" "G \<subseteq> set (v # B)"
    "low_ok adj s v (set (sorted_successors adj v))" "low s v = idx s v"
  shows "is_component adj (sort (A @ [v]))"
proof -
  let ?T = "set (A @ [v])" and ?E = "set (concat (scc_sccs s))"
  note above = stack_above [OF assms(1,2)]
  have fwd: "reach adj v x" if "x \<in> ?T" for x
    using state_okD(7) [OF assms(1,3), of x] above(3) [of x] that assms(2) by auto
  have bwd: "reach adj x v" if "x \<in> ?T" for x
  proof -
    have "x \<in> set (scc_stack s)" using that assms(2) by auto
    then obtain y where y: "y \<in> G" "reach adj x y" using state_okD(8) [OF assms(1)] by blast
    then have "idx s y \<le> idx s v" using assms(4) above(2) [of y] by fastforce
    then have "reach adj y v" using state_okD(7) [OF assms(1) y(1), of v] assms(2) by simp
    then show ?thesis using y(2) by simp
  qed
  have E: "y \<in> ?E" if "reach adj x y" "x \<in> ?E" for x y
    using closed_reach [OF that] ordered_components_closed [OF state_okD(10) [OF assms(1)]] by blast
  have disj: "?T \<inter> ?E = {}" using state_okD(3) [OF assms(1)] assms(2) by auto
  have inside: "y \<in> ?T" if "x \<in> ?T" "reach adj x y" "reach adj y x" for x y
  proof -
    have "y \<in> ?T \<union> ?E"
      using that(2) by (rule closed_reach)
        (use that(1) popped_edges [OF assms] ordered_components_closed [OF state_okD(10) [OF assms(1)]] in \<open>blast\<close>)+
    moreover have "y \<notin> ?E" using E [OF that(3)] that(1) disj by blast
    ultimately show ?thesis by blast
  qed
  have "y \<in> ?T \<longleftrightarrow> reach adj x y \<and> reach adj y x" if "x \<in> ?T" for x y
    using inside [OF that] fwd bwd that by (meson rtranclp_trans)
  moreover have "distinct (A @ [v])" using state_okD(3) [OF assms(1)] assms(2) by auto
  moreover have "set (sort (A @ [v])) = ?T" and "sort (A @ [v]) \<noteq> []"
    by (simp_all only: set_sort) (metis Nil_is_append_conv length_0_conv length_sort not_Cons_self2)
  ultimately show ?thesis
    unfolding is_component_def by (simp only: sorted_sort distinct_sort) blast
qed

lemma finish_pop:
  assumes "state_ok adj G s" "scc_stack s = A @ v # B" "v \<in> G" "G \<subseteq> set (v # B)"
    "low_ok adj s v (set (sorted_successors adj v))" "low s v = idx s v"
  defines "s' \<equiv> s\<lparr>scc_stack := B, onStack := (\<lambda>x. onStack s x \<and> x \<notin> set (A @ [v])),
      scc_sccs := scc_sccs s @ [sort (A @ [v])]\<rparr>"
  shows "finish_vertex v s = Some s'" and "state_ok adj (G - {v}) s'"
proof -
  note above = stack_above [OF assms(1,2)]
  have sets: "set (scc_stack s) = set (A @ [v]) \<union> set B" using assms(2) by auto
  have fields: "indices s' = indices s" "scc_index s' = scc_index s" "scc_stack s' = B"
    "scc_sccs s' = scc_sccs s @ [sort (A @ [v])]" "onStack s' x \<longleftrightarrow> onStack s x \<and> x \<notin> set (A @ [v])" for x
    by (simp_all add: s'_def)
  have elems: "set (concat (scc_sccs s')) = set (concat (scc_sccs s)) \<union> set (A @ [v])"
    by (simp only: fields concat_append concat.simps set_append set_sort) simp
  show "finish_vertex v s = Some s'"
    using assms(6) above(4) by (simp add: finish_vertex_def assms(2) pop_component_append s'_def)
  show "state_ok adj (G - {v}) s'"
  proof (rule state_okI)
    show "\<And>x n. indices s' x = Some n \<Longrightarrow> n < scc_index s'" using state_okD(1) [OF assms(1)] by (simp add: fields)
    show "dom (indices s') = set (scc_stack s') \<union> set (concat (scc_sccs s'))"
      unfolding elems using state_okD(2) [OF assms(1)] sets by (auto simp: fields)
    show "distinct (scc_stack s' @ concat (scc_sccs s'))"
      using state_okD(3) [OF assms(1)] unfolding fields assms(2)
      by (simp only: concat_append concat.simps distinct_append distinct_sort set_append set_sort append_Nil2) auto
    show "onStack s' x \<longleftrightarrow> x \<in> set (scc_stack s')" for x
      using state_okD(4) [OF assms(1), of x] sets state_okD(3) [OF assms(1)] assms(2) by (auto simp: fields)
    show "sorted_wrt (\<lambda>x y. idx s' y < idx s' x) (scc_stack s')"
      using state_okD(5) [OF assms(1)] by (simp add: fields assms(2) sorted_wrt_append)
    show "G - {v} \<subseteq> set (scc_stack s')" using assms(4) by (auto simp: fields)
    show "reach adj y x" if "y \<in> G - {v}" "x \<in> set (scc_stack s')" "idx s' y \<le> idx s' x" for x y
      using state_okD(7) [OF assms(1), of y x] that sets by (auto simp: fields)
    show "\<exists>y\<in>G - {v}. idx s' y \<le> idx s' x \<and> reach adj x y" if "x \<in> set (scc_stack s')" for x
    proof -
      have x: "x \<in> set B" using that by (simp add: fields)
      then obtain y where "y \<in> G" "idx s y \<le> idx s x" "reach adj x y"
        using state_okD(8) [OF assms(1), of x] sets by blast
      moreover have "y \<noteq> v" using calculation(2) above(2) [OF x] by auto
      ultimately show ?thesis by (auto simp: fields)
    qed
    show "y \<in> dom (indices s')" if "x \<in> set (scc_stack s')" "x \<notin> G - {v}" "edge adj x y" for x y
      using state_okD(9) [OF assms(1), of x y] that sets above(5) by (auto simp: fields)
    show "ordered_components adj {} (scc_sccs s')"
      using state_okD(10) [OF assms(1)] popped_component [OF assms(1-6)] popped_edges [OF assms(1-6)]
      unfolding fields ordered_components_snoc set_sort by blast
  qed
qed

section \<open>Entering a vertex and returning from it\<close>

lemma idx_mono: "indices s \<subseteq>\<^sub>m indices s' \<Longrightarrow> x \<in> dom (indices s) \<Longrightarrow> idx s' x = idx s x"
  by (auto simp: map_le_def map_read_def)

lemma stack_dom: "state_ok adj G s \<Longrightarrow> x \<in> set (scc_stack s) \<Longrightarrow> x \<in> dom (indices s)"
  using state_okD(2) by blast

lemma idx_less: "state_ok adj G s \<Longrightarrow> x \<in> dom (indices s) \<Longrightarrow> idx s x < scc_index s"
  using state_okD(1) by (fastforce simp: map_read_def)

lemma map_read_upd [simp]: "map_read (m(k \<mapsto> n)) x = (if x = k then n else map_read m x)"
  by (simp add: map_read_def)

lemma enter_fields:
  "indices (enter_vertex w s) = (indices s)(w \<mapsto> scc_index s)" "scc_index (enter_vertex w s) = scc_index s + 1"
  "scc_stack (enter_vertex w s) = w # scc_stack s" "scc_sccs (enter_vertex w s) = scc_sccs s"
  "onStack (enter_vertex w s) = (onStack s)(w := True)" "lowlinks (enter_vertex w s) = (lowlinks s)(w \<mapsto> scc_index s)"
  by (auto simp: enter_vertex_def)

lemma enter_ok:
  assumes "state_ok adj G s" "indices s w = None" "\<And>y. y \<in> G \<Longrightarrow> reach adj y w"
  shows "state_ok adj (insert w G) (enter_vertex w s)"
proof -
  have new: "w \<notin> set (scc_stack s)" "w \<notin> set (concat (scc_sccs s))" "w \<notin> G"
    using assms(2) state_okD(2,6) [OF assms(1)] by auto
  have less: "idx s x < scc_index s" if "x \<in> set (scc_stack s)" for x
    using idx_less [OF assms(1) stack_dom [OF assms(1) that]] .
  have neq: "x \<noteq> w" if "x \<in> set (scc_stack s)" for x using that new by blast
  show ?thesis
  proof (rule state_okI)
    show "n < scc_index (enter_vertex w s)" if "indices (enter_vertex w s) x = Some n" for x n
      using that state_okD(1) [OF assms(1), of x n] by (auto simp: enter_fields split: if_splits)
    show "sorted_wrt (\<lambda>x y. idx (enter_vertex w s) y < idx (enter_vertex w s) x) (scc_stack (enter_vertex w s))"
      using sorted_wrt_mono_rel [OF _ state_okD(5) [OF assms(1)]] neq less by (simp add: enter_fields)
    show "reach adj y x" if "y \<in> insert w G" "x \<in> set (scc_stack (enter_vertex w s))"
      "idx (enter_vertex w s) y \<le> idx (enter_vertex w s) x" for x y
      using that assms(3) [of y] state_okD(7) [OF assms(1), of y x] less [of x] new(3)
      by (auto simp: enter_fields split: if_splits)
    show "\<exists>y\<in>insert w G. idx (enter_vertex w s) y \<le> idx (enter_vertex w s) x \<and> reach adj x y"
      if "x \<in> set (scc_stack (enter_vertex w s))" for x
    proof (cases "x = w")
      case False
      then have "x \<in> set (scc_stack s)" using that by (simp add: enter_fields)
      then obtain y where "y \<in> G" "idx s y \<le> idx s x" "reach adj x y"
        using state_okD(8) [OF assms(1), of x] by blast
      then show ?thesis using False new(3) by (intro bexI [of _ y]) (auto simp: enter_fields)
    qed (auto simp: enter_fields)
    show "y \<in> dom (indices (enter_vertex w s))" if "x \<in> set (scc_stack (enter_vertex w s))" "x \<notin> insert w G" "edge adj x y" for x y
      using that state_okD(9) [OF assms(1), of x y] by (auto simp: enter_fields)
  qed (use state_okD(2-4,6,10) [OF assms(1)] new in \<open>auto simp: enter_fields\<close>)
qed

lemma enter_low:
  assumes "state_ok adj G s" "indices s w = None"
  shows "low_ok adj (enter_vertex w s) w {}"
proof (rule low_okI)
  fix x y assume "x \<in> set (scc_stack (enter_vertex w s))" "idx (enter_vertex w s) w < idx (enter_vertex w s) x"
  then have False
    using idx_less [OF assms(1) stack_dom [OF assms(1)], of x] by (auto simp: enter_fields split: if_splits)
  then show "low (enter_vertex w s) w \<le> idx (enter_vertex w s) y" ..
qed (auto simp: enter_fields)

lemma lower_fields:
  "indices (lower_to v n s) = indices s" "scc_index (lower_to v n s) = scc_index s"
  "scc_stack (lower_to v n s) = scc_stack s" "scc_sccs (lower_to v n s) = scc_sccs s"
  "onStack (lower_to v n s) = onStack s" "low (lower_to v n s) v = min n (low s v)"
  "x \<noteq> v \<Longrightarrow> lowlinks (lower_to v n s) x = lowlinks s x"
  by (auto simp: lower_to_def map_read_def)

lemma state_ok_lower: "state_ok adj G (lower_to v n s) \<longleftrightarrow> state_ok adj G s"
  by (simp add: state_ok_def lower_fields)

text \<open>
  A vertex is finished: its component is emitted, or it stays on the stack, above what was below it
  when it was entered.
\<close>

definition visited :: "adjacency \<Rightarrow> u64 set \<Rightarrow> u64 set \<Rightarrow> u64 \<Rightarrow> u64 list \<Rightarrow> sccState \<Rightarrow> sccState \<Rightarrow> bool" where
  "visited adj V G v B s s' \<longleftrightarrow>
     state_ok adj (G - {v}) s' \<and> indices s \<subseteq>\<^sub>m indices s' \<and> dom (indices s') \<subseteq> V
   \<and> (\<forall>x\<in>G - {v}. lowlinks s' x = lowlinks s x)
   \<and> (scc_stack s' = B \<and> low s' v = idx s' v
     \<or> (\<exists>A. scc_stack s' = A @ v # B \<and> low s' v < idx s' v \<and> low_ok adj s' v (set (sorted_successors adj v))))"

lemma finish_visited:
  assumes "state_ok adj G s" "scc_stack s = A @ v # B" "v \<in> G" "G \<subseteq> set (v # B)"
    "low_ok adj s v (set (sorted_successors adj v))" "dom (indices s) \<subseteq> V"
  shows "\<exists>s'. finish_vertex v s = Some s' \<and> visited adj V G v B s s'"
proof (cases "low s v = idx s v")
  case True
  then show ?thesis using finish_pop [OF assms(1-5) True] assms(6) by (simp add: visited_def)
next
  case False
  then have "low s v < idx s v" using low_okD(1) [OF assms(5)] by simp
  then show ?thesis using finish_keep [OF assms(1,3,5)] assms(2,5,6) by (simp add: visited_def)
qed

text \<open>After the call on a new successor the low link of the caller covers that successor as well.\<close>

lemma returned_facts:
  assumes ok: "state_ok adj G s" "scc_stack s = A @ v # B" "v \<in> G" "low_ok adj s v D"
    and new: "indices s w = None"
    and ret: "visited adj V (insert w G) w (scc_stack s) (enter_vertex w s) s1"
  shows "state_ok adj G s1" and "low s1 v = low s v" and "insert w D \<subseteq> dom (indices s1)"
    and "x \<in> set (scc_stack s) \<Longrightarrow> idx s1 x = idx s x" and "idx s1 v = idx s v" and "idx s v < idx s1 w"
    and "\<exists>u\<in>set (scc_stack s). idx s1 u = low s v \<and> reach adj v u"
proof -
  have "insert w G - {w} = G" using new state_okD(2,6) [OF ok(1)] by auto
  then have s1: "indices (enter_vertex w s) \<subseteq>\<^sub>m indices s1" "state_ok adj G s1"
    "\<forall>x\<in>G. lowlinks s1 x = lowlinks (enter_vertex w s) x"
    using ret by (auto simp: visited_def)
  have neq: "v \<noteq> w" using new ok(2) stack_dom [OF ok(1), of v] by auto
  have dom: "insert w (dom (indices s)) \<subseteq> dom (indices s1)"
    using map_le_implies_dom_le [OF s1(1)] by (simp add: enter_fields)
  have stk: "idx s1 x = idx s x" if "x \<in> set (scc_stack s)" for x
    using idx_mono [OF s1(1), of x] stack_dom [OF ok(1) that] new by (auto simp: enter_fields)
  show "state_ok adj G s1" by (rule s1(2))
  show "low s1 v = low s v" using s1(3) ok(3) neq by (simp add: enter_fields map_read_def)
  show "insert w D \<subseteq> dom (indices s1)" using dom low_okD(5) [OF ok(4)] by blast
  show "x \<in> set (scc_stack s) \<Longrightarrow> idx s1 x = idx s x" by (rule stk)
  show "idx s1 v = idx s v" using stk [of v] ok(2) by simp
  show "idx s v < idx s1 w"
    using idx_mono [OF s1(1), of w] idx_less [OF ok(1) stack_dom [OF ok(1)], of v] ok(2) by (simp add: enter_fields)
  show "\<exists>u\<in>set (scc_stack s). idx s1 u = low s v \<and> reach adj v u" using low_okD(2) [OF ok(4)] stk by metis
qed

lemma returned_popped:
  assumes ok: "state_ok adj G s" "scc_stack s = A @ v # B" "v \<in> G" "low_ok adj s v D"
    and new: "indices s w = None"
    and ret: "visited adj V (insert w G) w (scc_stack s) (enter_vertex w s) s1"
    and popped: "scc_stack s1 = scc_stack s" "low s1 w = idx s1 w"
  shows "low_ok adj (lower_to v (low s1 w) s1) v (insert w D)"
proof -
  note facts = returned_facts [OF ok new ret]
  have m: "min (low s1 w) (low s1 v) = low s v" using facts(2,6) popped(2) low_okD(1) [OF ok(4)] by simp
  show ?thesis
  proof (rule low_okI)
    show "low (lower_to v (low s1 w) s1) v \<le> idx (lower_to v (low s1 w) s1) y"
      if "y \<in> insert w D" "y \<in> set (scc_stack (lower_to v (low s1 w) s1))" for y
      using that popped(1) low_okD(1) [OF ok(4)] low_okD(4) [OF ok(4), of y] facts(4) [of y] facts(6)
      by (auto simp: lower_fields m)
    show "low (lower_to v (low s1 w) s1) v \<le> idx (lower_to v (low s1 w) s1) y"
      if "x \<in> set (scc_stack (lower_to v (low s1 w) s1))" "y \<in> set (scc_stack (lower_to v (low s1 w) s1))"
        "idx (lower_to v (low s1 w) s1) v < idx (lower_to v (low s1 w) s1) x" "edge adj x y" for x y
      using that popped(1) low_okD(3) [OF ok(4), of x y] facts(4) [of y] facts(4) [of x] facts(5)
      by (auto simp: lower_fields m)
  qed (use popped(1) low_okD(1) [OF ok(4)] facts(3,5,7) in \<open>auto simp: lower_fields m\<close>)
qed

lemma returned_kept:
  assumes ok: "state_ok adj G s" "scc_stack s = A @ v # B" "v \<in> G" "low_ok adj s v D"
    and new: "indices s w = None" and edge: "edge adj v w"
    and ret: "visited adj V (insert w G) w (scc_stack s) (enter_vertex w s) s1"
    and kept: "scc_stack s1 = A' @ w # scc_stack s" "low_ok adj s1 w (set (sorted_successors adj w))"
  shows "low_ok adj (lower_to v (low s1 w) s1) v (insert w D)"
proof -
  note facts = returned_facts [OF ok new ret]
  note above = stack_above [OF facts(1) kept(1)]
  note old = low_okD [OF ok(4)] and below = low_okD [OF kept(2)]
  let ?n = "min (low s1 w) (low s v)"
  have high: "y \<in> set (scc_stack s) \<or> ?n \<le> idx s1 y" if "y \<in> set (scc_stack s1)" for y
    using above(3) [OF that] that kept(1) facts(6) old(1) by auto
  have "\<exists>u\<in>set (scc_stack s1). idx s1 u = ?n \<and> reach adj v u"
  proof (cases "low s1 w < low s v")
    case True
    obtain u where "u \<in> set (scc_stack s1)" "idx s1 u = low s1 w" "reach adj w u" using below(2) by blast
    then show ?thesis using True edge by (intro bexI [of _ u]) auto
  qed (use facts(7) kept(1) in \<open>auto\<close>)
  moreover have "?n \<le> idx s1 y" if "y \<in> insert w D" "y \<in> set (scc_stack s1)" for y
    using that high [of y] old(1) old(4) [of y] facts(4) [of y] facts(6) by auto
  moreover have "?n \<le> idx s1 y"
    if xy: "x \<in> set (scc_stack s1)" "y \<in> set (scc_stack s1)" "idx s1 v < idx s1 x" "edge adj x y" for x y
  proof (cases "x \<in> set (scc_stack s)")
    case True
    then show ?thesis
      using old(3) [OF True _ _ xy(4)] xy(3) facts(4) [OF True] facts(4) [of y] high [OF xy(2)] facts(5) by auto
  next
    case False
    then have "x = w \<or> idx s1 w < idx s1 x" using xy(1) kept(1) above(1) by auto
    then show ?thesis using below(4) [of y] below(3) [OF xy(1,2) _ xy(4)] xy(2,4) by (auto simp: edge_def)
  qed
  ultimately show ?thesis
    using facts(2,3,5) old(1) by (auto simp: low_ok_def lower_fields)
qed

lemma returned_low:
  assumes "state_ok adj G s" "scc_stack s = A @ v # B" "v \<in> G" "low_ok adj s v D"
    and "indices s w = None" and "edge adj v w"
    and ret: "visited adj V (insert w G) w (scc_stack s) (enter_vertex w s) s1"
  shows "low_ok adj (lower_to v (low s1 w) s1) v (insert w D)"
  using returned_popped [OF assms(1-5) ret] returned_kept [OF assms(1-6) ret] ret unfolding visited_def by blast

lemma seen_low:
  assumes "low_ok adj s v D" "w \<in> dom (indices s)" "edge adj v w"
  shows "w \<in> set (scc_stack s) \<Longrightarrow> low_ok adj (lower_to v (idx s w) s) v (insert w D)"
    and "w \<notin> set (scc_stack s) \<Longrightarrow> low_ok adj s v (insert w D)"
proof -
  show "low_ok adj (lower_to v (idx s w) s) v (insert w D)" if w: "w \<in> set (scc_stack s)"
  proof (rule low_okI)
    show "\<exists>u\<in>set (scc_stack (lower_to v (idx s w) s)).
        idx (lower_to v (idx s w) s) u = low (lower_to v (idx s w) s) v \<and> reach adj v u"
      using low_okD(2) [OF assms(1)] w assms(3) by (cases "idx s w < low s v") (auto simp: lower_fields)
    show "low (lower_to v (idx s w) s) v \<le> idx (lower_to v (idx s w) s) y"
      if "y \<in> insert w D" "y \<in> set (scc_stack (lower_to v (idx s w) s))" for y
      using that low_okD(4) [OF assms(1), of y] by (auto simp: lower_fields)
    show "low (lower_to v (idx s w) s) v \<le> idx (lower_to v (idx s w) s) y"
      if "x \<in> set (scc_stack (lower_to v (idx s w) s))" "y \<in> set (scc_stack (lower_to v (idx s w) s))"
        "idx (lower_to v (idx s w) s) v < idx (lower_to v (idx s w) s) x" "edge adj x y" for x y
      using that low_okD(3) [OF assms(1), of x y] by (auto simp: lower_fields)
  qed (use low_okD(1,5) [OF assms(1)] assms(2) in \<open>auto simp: lower_fields\<close>)
  show "low_ok adj s v (insert w D)" if "w \<notin> set (scc_stack s)"
    using assms that unfolding low_ok_def by blast
qed

section \<open>The search\<close>

lemma card_shrink: "finite V \<Longrightarrow> A \<subseteq> B \<Longrightarrow> card (V - B) \<le> card (V - A)"
  by (intro card_mono) auto

lemma card_shrink_less: "finite V \<Longrightarrow> w \<in> V \<Longrightarrow> w \<notin> A \<Longrightarrow> card (V - insert w A) < card (V - A)"
  by (intro psubset_card_mono) auto

text \<open>What holds of a vertex \<open>v\<close> whose successors \<open>ws\<close> are still to be looked at, \<open>ds\<close> before them.\<close>

definition searching :: "adjacency \<Rightarrow> u64 set \<Rightarrow> u64 set \<Rightarrow> u64 \<Rightarrow> u64 list \<Rightarrow> u64 list \<Rightarrow> sccState \<Rightarrow> bool" where
  "searching adj V G v ws B s \<longleftrightarrow>
     state_ok adj G s \<and> v \<in> G \<and> G \<subseteq> set (v # B) \<and> dom (indices s) \<subseteq> V
   \<and> (\<exists>A. scc_stack s = A @ v # B)
   \<and> (\<exists>ds. sorted_successors adj v = ds @ ws \<and> low_ok adj s v (set ds))"

lemma searchingD:
  assumes "searching adj V G v ws B s"
  obtains A ds where "state_ok adj G s" "v \<in> G" "G \<subseteq> set (v # B)" "dom (indices s) \<subseteq> V"
    "scc_stack s = A @ v # B" "sorted_successors adj v = ds @ ws" "low_ok adj s v (set ds)"
  using assms unfolding searching_def by blast

lemma searching_nil: "searching adj V G v [] B s \<Longrightarrow> \<exists>s'. finish_vertex v s = Some s' \<and> visited adj V G v B s s'"
  by (elim searchingD) (metis append_Nil2 finish_visited)

lemma searching_edge: "searching adj V G v (w # ws) B s \<Longrightarrow> edge adj v w"
  by (elim searchingD) (simp add: edge_def)

lemma searching_in: "searching adj V G v ws B s \<Longrightarrow> v \<in> V"
  by (elim searchingD) (metis in_set_conv_decomp stack_dom subsetD)

lemma searching_new: "searching adj V G v ws B s \<Longrightarrow> indices s w = None \<Longrightarrow> w \<notin> G"
  by (elim searchingD) (metis domIff state_okD(6) stack_dom subsetD)

lemma searching_enter:
  assumes "searching adj V G v (w # ws) B s" "indices s w = None" "w \<in> V"
  shows "searching adj V (insert w G) w (sorted_successors adj w) (scc_stack s) (enter_vertex w s)"
proof -
  obtain A ds where s: "state_ok adj G s" "v \<in> G" "G \<subseteq> set (v # B)" "dom (indices s) \<subseteq> V"
    "scc_stack s = A @ v # B" by (rule searchingD [OF assms(1)])
  have "reach adj y w" if "y \<in> G" for y
  proof -
    have "idx s y \<le> idx s v" using that s(3) stack_above(2) [OF s(1,5), of y] by fastforce
    then have "reach adj y v" using state_okD(7) [OF s(1) that, of v] s(5) by simp
    then show ?thesis using searching_edge [OF assms(1)] by simp
  qed
  then show ?thesis
    using enter_ok [OF s(1) assms(2)] enter_low [OF s(1) assms(2)] s(3-5) assms(3)
    unfolding searching_def by (auto simp: enter_fields)
qed

lemma searching_return:
  assumes "searching adj V G v (w # ws) B s" "indices s w = None"
    "visited adj V (insert w G) w (scc_stack s) (enter_vertex w s) s1"
  shows "searching adj V G v ws B (lower_to v (low s1 w) s1)"
proof -
  obtain A ds where s: "state_ok adj G s" "v \<in> G" "G \<subseteq> set (v # B)" "dom (indices s) \<subseteq> V"
    "scc_stack s = A @ v # B" "sorted_successors adj v = ds @ w # ws" "low_ok adj s v (set ds)"
    by (rule searchingD [OF assms(1)])
  have "insert w G - {w} = G" using assms(2) state_okD(2,6) [OF s(1)] by auto
  then have s1: "state_ok adj G s1" "dom (indices s1) \<subseteq> V" "\<exists>A. scc_stack s1 = A @ v # B"
    using assms(3) s(5) unfolding visited_def by (metis append.assoc append_Cons)+
  have low: "low_ok adj (lower_to v (low s1 w) s1) v (set (ds @ [w]))"
    using returned_low [OF s(1,5,2,7) assms(2) searching_edge [OF assms(1)] assms(3)] by simp
  have "sorted_successors adj v = (ds @ [w]) @ ws" using s(6) by simp
  then show ?thesis
    unfolding searching_def using low s1 s(2,3) by (simp only: state_ok_lower lower_fields) blast
qed

lemma searching_seen:
  assumes "searching adj V G v (w # ws) B s" "indices s w \<noteq> None"
  shows "onStack s w \<Longrightarrow> searching adj V G v ws B (lower_to v (idx s w) s)"
    and "\<not> onStack s w \<Longrightarrow> searching adj V G v ws B s"
proof -
  obtain A ds where s: "state_ok adj G s" "v \<in> G" "G \<subseteq> set (v # B)" "dom (indices s) \<subseteq> V"
    "scc_stack s = A @ v # B" "sorted_successors adj v = ds @ w # ws" "low_ok adj s v (set ds)"
    by (rule searchingD [OF assms(1)])
  have w: "w \<in> dom (indices s)" using assms(2) by blast
  have succs: "sorted_successors adj v = (ds @ [w]) @ ws" using s(6) by simp
  note low = seen_low [OF s(7) w searching_edge [OF assms(1)]]
  show "searching adj V G v ws B (lower_to v (idx s w) s)" if "onStack s w"
  proof -
    have "low_ok adj (lower_to v (idx s w) s) v (set (ds @ [w]))"
      using low(1) that state_okD(4) [OF s(1)] by simp
    then show ?thesis
      unfolding searching_def state_ok_lower lower_fields using s(1-5) succs by blast
  qed
  show "searching adj V G v ws B s" if "\<not> onStack s w"
  proof -
    have "low_ok adj s v (set (ds @ [w]))" using low(2) that state_okD(4) [OF s(1)] by simp
    then show ?thesis unfolding searching_def using s succs by blast
  qed
qed

text \<open>What the rest of a search adds to what it has done.\<close>

lemma visited_trans:
  assumes "visited adj V G v B s1 s'" "indices s \<subseteq>\<^sub>m indices s1" "\<And>x. x \<in> G - {v} \<Longrightarrow> lowlinks s1 x = lowlinks s x"
  shows "visited adj V G v B s s'"
  using assms map_le_trans unfolding visited_def by (metis (no_types, lifting))

lemma returned_mono:
  assumes "visited adj V (insert w G) w B (enter_vertex w s) s1" "indices s w = None" "w \<notin> G"
  shows "indices s \<subseteq>\<^sub>m indices s1" and "x \<in> G \<Longrightarrow> lowlinks s1 x = lowlinks s x"
proof -
  have "indices s \<subseteq>\<^sub>m indices (enter_vertex w s)" using assms(2) by (auto simp: enter_fields map_le_def)
  then show "indices s \<subseteq>\<^sub>m indices s1" using assms(1) map_le_trans unfolding visited_def by blast
  show "lowlinks s1 x = lowlinks s x" if "x \<in> G"
    using assms(1,3) that unfolding visited_def by (auto simp: enter_fields)
qed

theorem visit_ok:
  assumes "finite V" "\<And>x y. x \<in> V \<Longrightarrow> edge adj x y \<Longrightarrow> y \<in> V"
  shows "card (V - dom (indices s)) < n \<Longrightarrow> searching adj V G v ws B s \<Longrightarrow>
    \<exists>s'. visit_successors adj v ws s = Some s' \<and> visited adj V G v B s s'"
proof (induction n arbitrary: G v ws B s)
  case (Suc n)
  note outer = Suc.IH
  show ?case using Suc.prems
  proof (induction ws arbitrary: s)
    case Nil
    then show ?case using searching_nil by (simp add: visit_successors.simps)
  next
    case (Cons w ws)
    have w: "w \<in> V" using assms(2) [OF searching_in searching_edge] Cons.prems(2) by blast
    show ?case
    proof (cases "indices s w = None")
      case True
      have "card (V - dom (indices (enter_vertex w s))) < n"
        using card_shrink_less [OF assms(1) w, of "dom (indices s)"] True Cons.prems(1) by (simp add: enter_fields domIff)
      then obtain s1 where s1: "visit_successors adj w (sorted_successors adj w) (enter_vertex w s) = Some s1"
        "visited adj V (insert w G) w (scc_stack s) (enter_vertex w s) s1"
        using outer [OF _ searching_enter [OF Cons.prems(2) True w]] by blast
      let ?s = "lower_to v (low s1 w) s1"
      have le: "indices s \<subseteq>\<^sub>m indices ?s" "\<And>x. x \<in> G - {v} \<Longrightarrow> lowlinks ?s x = lowlinks s x"
        using returned_mono [OF s1(2) True searching_new [OF Cons.prems(2) True]] by (simp_all add: lower_fields)
      have "card (V - dom (indices ?s)) < Suc n"
        using card_shrink [OF assms(1) map_le_implies_dom_le [OF le(1)]] Cons.prems(1) by simp
      then obtain s' where "visit_successors adj v ws ?s = Some s'" "visited adj V G v B ?s s'"
        using Cons.IH [OF _ searching_return [OF Cons.prems(2) True s1(2)]] by blast
      then show ?thesis
        using True s1(1) visited_trans [OF _ le] by (subst visit_successors.simps) simp
    next
      case False
      note seen = searching_seen [OF Cons.prems(2) False]
      show ?thesis
      proof (cases "onStack s w")
        case True
        then obtain s' where "visit_successors adj v ws (lower_to v (idx s w) s) = Some s'"
          "visited adj V G v B (lower_to v (idx s w) s) s'"
          using Cons.IH [OF _ seen(1) [OF True]] Cons.prems(1) by (auto simp: lower_fields)
        then show ?thesis
          using True False visited_trans [of adj V G v B "lower_to v (idx s w) s" s' s]
          by (subst visit_successors.simps) (auto simp: lower_fields)
      next
        case off: False
        then show ?thesis
          using Cons.IH [OF Cons.prems(1) seen(2) [OF off]] False by (subst visit_successors.simps) auto
      qed
    qed
  qed
qed simp

section \<open>The components\<close>

definition symbols :: "adjacency \<Rightarrow> u64 set" where
  "symbols adj = set (map fst adj) \<union> \<Union> (set ` set (map snd adj))"

lemma finite_symbols: "finite (symbols adj)"
  by (simp add: symbols_def)

lemma edge_symbols: "edge adj x y \<Longrightarrow> y \<in> symbols adj"
  unfolding edge_def sorted_successors_def symbols_def
  by (cases "map_of adj x") (auto dest!: map_of_SomeD intro: bexI [rotated])

lemma edge_of_key:
  assumes "distinct (map fst adj)" "y \<in> symbols adj" "y \<notin> set (map fst adj)"
  shows "\<exists>x\<in>set (map fst adj). edge adj x y"
proof -
  obtain x ys where "(x, ys) \<in> set adj" "y \<in> set ys" using assms(2,3) by (auto simp: symbols_def)
  then show ?thesis using assms(1) by (force simp: edge_def sorted_successors_def)
qed

lemma idle_stack: "state_ok adj {} s \<Longrightarrow> scc_stack s = []"
  using state_okD(8) [of adj "{}" s] by (cases "scc_stack s") auto

lemma strongconnect_ok:
  assumes "state_ok adj {} s" "dom (indices s) \<subseteq> symbols adj" "indices s v = None" "v \<in> symbols adj"
  shows "\<exists>s'. strongconnect adj v s = Some s' \<and> state_ok adj {} s' \<and> (indices s)(v \<mapsto> scc_index s) \<subseteq>\<^sub>m indices s'
    \<and> dom (indices s') \<subseteq> symbols adj"
proof -
  have "searching adj (symbols adj) {v} v (sorted_successors adj v) [] (enter_vertex v s)"
    using enter_ok [OF assms(1,3)] enter_low [OF assms(1,3)] idle_stack [OF assms(1)] assms(2,4)
    unfolding searching_def by (auto simp: enter_fields)
  then obtain s' where "strongconnect adj v s = Some s'" "visited adj (symbols adj) {v} v [] (enter_vertex v s) s'"
    using visit_ok [OF finite_symbols, of adj] edge_symbols unfolding strongconnect_def by blast
  then show ?thesis by (simp add: visited_def enter_fields)
qed

lemma scc_roots_ok:
  assumes "state_ok adj {} s" "dom (indices s) \<subseteq> symbols adj" "set vs \<subseteq> symbols adj"
  shows "\<exists>s'. scc_roots adj vs s = Some s' \<and> state_ok adj {} s' \<and> dom (indices s) \<union> set vs \<subseteq> dom (indices s')
    \<and> dom (indices s') \<subseteq> symbols adj"
  using assms
proof (induction vs arbitrary: s)
  case (Cons v vs)
  show ?case
  proof (cases "indices s v")
    case None
    obtain s1 where s1: "strongconnect adj v s = Some s1" "state_ok adj {} s1"
      "(indices s)(v \<mapsto> scc_index s) \<subseteq>\<^sub>m indices s1" "dom (indices s1) \<subseteq> symbols adj"
      using strongconnect_ok [OF Cons.prems(1,2) None] Cons.prems(3) by auto
    have grow: "insert v (dom (indices s)) \<subseteq> dom (indices s1)" using map_le_implies_dom_le [OF s1(3)] by simp
    obtain s' where s': "scc_roots adj vs s1 = Some s'" "state_ok adj {} s'"
      "dom (indices s1) \<union> set vs \<subseteq> dom (indices s')" "dom (indices s') \<subseteq> symbols adj"
      using Cons.IH [OF s1(2,4)] Cons.prems(3) by auto
    have "scc_roots adj (v # vs) s = Some s'" using None s1(1) s'(1) by simp
    moreover have "dom (indices s) \<union> set (v # vs) \<subseteq> dom (indices s')" using grow s'(3) by auto
    ultimately show ?thesis using s'(2,4) by blast
  next
    case (Some i)
    obtain s' where s': "scc_roots adj vs s = Some s'" "state_ok adj {} s'"
      "dom (indices s) \<union> set vs \<subseteq> dom (indices s')" "dom (indices s') \<subseteq> symbols adj"
      using Cons.IH [OF Cons.prems(1,2)] Cons.prems(3) by auto
    have "scc_roots adj (v # vs) s = Some s'" using Some s'(1) by simp
    moreover have "dom (indices s) \<union> set (v # vs) \<subseteq> dom (indices s')" using Some s'(3) by auto
    ultimately show ?thesis using s'(2,4) by blast
  qed
qed simp

lemma components_found:
  assumes "distinct (map fst adj)"
  shows "\<exists>sccs. ComputeSCCs adj = Some sccs \<and> ordered_components adj {} sccs
    \<and> distinct (concat sccs) \<and> set (concat sccs) = symbols adj"
proof (cases "adj = []")
  case False
  let ?s = "\<lparr>scc_index = 0, indices = Map.empty, lowlinks = Map.empty, onStack = (\<lambda>_. False), scc_stack = [], scc_sccs = []\<rparr>"
  have "state_ok adj {} ?s" by (simp add: state_ok_def)
  then obtain s where s: "scc_roots adj (sort (map fst adj)) ?s = Some s" "state_ok adj {} s"
    "set (map fst adj) \<subseteq> dom (indices s)" "dom (indices s) \<subseteq> symbols adj"
    using scc_roots_ok [of adj ?s "sort (map fst adj)"] by (auto simp: symbols_def)
  have "dom (indices s) = set (concat (scc_sccs s))" "distinct (concat (scc_sccs s))"
    using state_okD(2,3) [OF s(2)] idle_stack [OF s(2)] by auto
  moreover have "symbols adj \<subseteq> set (concat (scc_sccs s))"
    using edge_of_key [OF assms] ordered_components_closed [OF state_okD(10) [OF s(2)]] s(3) calculation(1) by fastforce
  ultimately show ?thesis
    using False s state_okD(10) [OF s(2)] by (auto simp: ComputeSCCs_def)
qed (simp add: ComputeSCCs_def symbols_def)

section \<open>Symbols\<close>

text \<open>The checker's interface to it (\<open>compiler/check/returns/scc.go\<close>); a symbol is a 64-bit number.\<close>

definition SortedSymbolIDs :: "(u64 \<times> 'a) list \<Rightarrow> u64 list" where
  "SortedSymbolIDs m = sort (map fst m)"

definition sorted_edges :: "adjacency \<Rightarrow> u64 \<Rightarrow> u64 list" where
  "sorted_edges adj k = (let edges = (case map_of adj k of None \<Rightarrow> [] | Some xs \<Rightarrow> xs)
     in if length edges > 1 then sort edges else edges)"

definition ComputeSymbolSCCs :: "adjacency \<Rightarrow> u64 list list option" where
  "ComputeSymbolSCCs adj =
     (if adj = [] then Some [] else ComputeSCCs (map (\<lambda>k. (k, sorted_edges adj k)) (SortedSymbolIDs adj)))"

lemma set_sorted_edges: "set (sorted_edges adj k) = set (sorted_successors adj k)"
  by (simp add: sorted_edges_def sorted_successors_def Let_def)

lemma symbol_graph_edge: "edge (map (\<lambda>k. (k, sorted_edges adj k)) (SortedSymbolIDs adj)) = edge adj"
proof (intro ext)
  fix x y
  have m: "map_of (map (\<lambda>k. (k, sorted_edges adj k)) (SortedSymbolIDs adj)) x =
      (if x \<in> set (map fst adj) then Some (sorted_edges adj x) else None)"
    by (simp add: map_of_map_restrict SortedSymbolIDs_def restrict_map_def)
  have n: "map_of adj x = None" if "x \<notin> set (map fst adj)" using that by (simp add: map_of_eq_None_iff)
  show "edge (map (\<lambda>k. (k, sorted_edges adj k)) (SortedSymbolIDs adj)) x y = edge adj x y"
    unfolding edge_def sorted_successors_def [of "map _ _"] m using set_sorted_edges [of adj x] n
    by (auto simp: sorted_successors_def)
qed

lemma ordered_components_cong: "edge adj = edge adj' \<Longrightarrow> ordered_components adj B Cs = ordered_components adj' B Cs"
  by (induction Cs arbitrary: B) (simp_all add: is_component_def)

lemma symbol_components_found:
  assumes "distinct (map fst adj)"
  shows "\<exists>sccs. ComputeSymbolSCCs adj = Some sccs \<and> ordered_components adj {} sccs
    \<and> distinct (concat sccs) \<and> set (concat sccs) = symbols adj"
proof (cases "adj = []")
  case False
  let ?g = "map (\<lambda>k. (k, sorted_edges adj k)) (SortedSymbolIDs adj)"
  have "distinct (map fst ?g)" using assms by (simp add: SortedSymbolIDs_def comp_def)
  moreover have "symbols ?g = symbols adj"
    unfolding symbols_def using assms
    by (fastforce simp: SortedSymbolIDs_def set_sorted_edges sorted_successors_def dest: map_of_SomeD split: option.splits)
  ultimately show ?thesis
    using components_found [of ?g] False ordered_components_cong [OF symbol_graph_edge [of adj]]
    by (simp add: ComputeSymbolSCCs_def)
qed (simp add: ComputeSymbolSCCs_def symbols_def)

text \<open>
  C7: For every graph of symbols the search ends, without popping an empty stack, and returns its
  strongly connected components: every symbol that is a key or a successor is in exactly one list; the
  symbols of a list are sorted and are all those that reach one of them and are reached from it; and
  every edge out of a list leads into it or into an earlier list, so that what a component depends on
  comes before it. The conversion from and to symbols keeps all of this.
\<close>

theorem ComputeSCCs_components:
  assumes "distinct (map fst adj)"
  shows "(\<exists>sccs. ComputeSCCs adj = Some sccs \<and> ordered_components adj {} sccs
      \<and> distinct (concat sccs) \<and> set (concat sccs) = symbols adj)
    \<and> (\<exists>sccs. ComputeSymbolSCCs adj = Some sccs \<and> ordered_components adj {} sccs
      \<and> distinct (concat sccs) \<and> set (concat sccs) = symbols adj)"
  using components_found [OF assms] symbol_components_found [OF assms] by blast

theorem ComputeSCCs_components_witness:
  "(\<exists>sccs. ComputeSCCs [(2, [1]), (1, [2, 3])] = Some sccs \<and> ordered_components [(2, [1]), (1, [2, 3])] {} sccs
      \<and> distinct (concat sccs) \<and> set (concat sccs) = symbols [(2, [1]), (1, [2, 3])])
   \<and> ComputeSCCs [(2, [1]), (1, [2, 3])] = Some [[3], [1, 2]]
   \<and> ComputeSymbolSCCs [(2, [1]), (1, [2, 3])] = Some [[3], [1, 2]]"
proof (intro conjI)
  show "\<exists>sccs. ComputeSCCs [(2, [1]), (1, [2, 3])] = Some sccs \<and> ordered_components [(2, [1]), (1, [2, 3])] {} sccs
      \<and> distinct (concat sccs) \<and> set (concat sccs) = symbols [(2, [1]), (1, [2, 3])]"
    by (rule ComputeSCCs_components [THEN conjunct1]) simp
  show "ComputeSCCs [(2, [1]), (1, [2, 3])] = Some [[3], [1, 2]]" by code_simp
  show "ComputeSymbolSCCs [(2, [1]), (1, [2, 3])] = Some [[3], [1, 2]]" by code_simp
qed

end
