(* ===== verification/Budget.thy ===== *)
theory Budget
  imports Components
begin

text \<open>
  How many rounds the checker iterates over a chunk (\<open>compiler/check/pipeline/budget.go\<close>): from the
  nesting of its functions and from the longest chain of calls between them, which is read off the
  strongly connected components. Both numbers are shown to be the maxima they are meant to be.

  The store is an interface of the checker; a record holds its answers. \<open>Graphs\<close> lists the function
  graphs in the order in which Go ranges over the map, each with the candidate symbols of its call
  sites, \<open>FunctionRefBySym\<close> gives the graph of a symbol, and \<open>NestedMetaFor\<close> the parent of a graph.
  Depths are taken not to overflow an \<open>int\<close>.
\<close>

section \<open>The call graph\<close>

record IterationStore =
  Graphs :: "(u64 \<times> u64 list list) list"
  FunctionRefBySym :: "u64 \<Rightarrow> u64 option"
  NestedMetaFor :: "u64 \<Rightarrow> u64 option"

fun callee_of :: "IterationStore \<Rightarrow> u64 list \<Rightarrow> u64 option" where
  "callee_of st [] = None"
| "callee_of st (candidate # candidates) =
     (case FunctionRefBySym st candidate of
        None \<Rightarrow> callee_of st candidates
      | Some g \<Rightarrow> if g = 0 then callee_of st candidates else Some g)"

definition add_callee :: "IterationStore \<Rightarrow> u64 list \<Rightarrow> u64 list \<Rightarrow> u64 list" where
  "add_callee st callees candidates =
     (case callee_of st candidates of
        None \<Rightarrow> callees
      | Some g \<Rightarrow> if g \<in> set (map fst (Graphs st)) \<and> g \<notin> set callees then callees @ [g] else callees)"

definition call_graph :: "IterationStore \<Rightarrow> adjacency" where
  "call_graph st = map (\<lambda>(g, sites). (g, foldl (add_callee st) [] sites)) (Graphs st)"

section \<open>The longest chain of calls\<close>

definition component_index :: "u64 list list \<Rightarrow> u64 \<Rightarrow> nat option" where
  "component_index sccs =
     foldl (\<lambda>m (i, scc). foldl (\<lambda>m g. m(g \<mapsto> i)) m scc) Map.empty (enumerate 0 sccs)"

definition deepen :: "(u64 \<Rightarrow> nat option) \<Rightarrow> nat \<Rightarrow> nat list \<Rightarrow> u64 \<Rightarrow> nat list" where
  "deepen component i depth callee =
     (let c = map_read component callee in
      if c \<noteq> i then depth[i := max (depth ! i) (depth ! c + 1)] else depth)"

definition deepen_component :: "adjacency \<Rightarrow> (u64 \<Rightarrow> nat option) \<Rightarrow> nat \<Rightarrow> u64 list \<Rightarrow> nat list \<Rightarrow> nat list" where
  "deepen_component adj component i scc depth =
     foldl (\<lambda>depth g. foldl (deepen component i) depth (case map_of adj g of None \<Rightarrow> [] | Some gs \<Rightarrow> gs)) depth scc"

definition chain_depth :: "adjacency \<Rightarrow> u64 list list \<Rightarrow> nat" where
  "chain_depth adj sccs =
     snd (foldl (\<lambda>(depth, maxDepth) (i, scc).
            let depth = deepen_component adj (component_index sccs) i scc depth in (depth, max maxDepth (depth ! i)))
          (replicate (length sccs) 0, 0) (enumerate 0 sccs))"

definition callChainDepth :: "IterationStore \<Rightarrow> nat option" where
  "callChainDepth st = (let adj = call_graph st in map_option (chain_depth adj) (ComputeSCCs adj))"

section \<open>The nesting of functions and the budget\<close>

partial_function (option) depthOf :: "IterationStore \<Rightarrow> u64 \<Rightarrow> (u64 \<Rightarrow> nat option) \<Rightarrow> (nat \<times> (u64 \<Rightarrow> nat option)) option" where
  "depthOf st g depths =
     (case depths g of
        Some d \<Rightarrow> Some (d, depths)
      | None \<Rightarrow>
          (case NestedMetaFor st g of
             None \<Rightarrow> Some (0, depths(g \<mapsto> 0))
           | Some parent \<Rightarrow>
               if parent = 0 \<or> parent = g then Some (0, depths(g \<mapsto> 0))
               else Option.bind (depthOf st parent (depths(g \<mapsto> 0)))
                 (\<lambda>(d, depths). Some (d + 1, depths(g \<mapsto> d + 1)))))"

declare depthOf.simps [code]

fun nesting_loop :: "IterationStore \<Rightarrow> u64 list \<Rightarrow> (u64 \<Rightarrow> nat option) \<Rightarrow> nat \<Rightarrow> nat option" where
  "nesting_loop st [] depths maxDepth = Some maxDepth"
| "nesting_loop st (g # gs) depths maxDepth =
     Option.bind (depthOf st g depths) (\<lambda>(d, depths). nesting_loop st gs depths (max maxDepth d))"

definition nestingDepth :: "IterationStore \<Rightarrow> nat option" where
  "nestingDepth st = nesting_loop st (map fst (Graphs st)) Map.empty 0"

definition structuralDepth :: "IterationStore option \<Rightarrow> nat option" where
  "structuralDepth store =
     (case store of
        None \<Rightarrow> Some 0
      | Some st \<Rightarrow> Option.bind (nestingDepth st) (\<lambda>n. Option.bind (callChainDepth st) (\<lambda>c. Some (2 * n + 4 * c))))"

definition roundSettleMargin :: nat where "roundSettleMargin = 4"

definition roundBudget :: "int \<Rightarrow> IterationStore option \<Rightarrow> int option" where
  "roundBudget MaxIterations store =
     map_option (\<lambda>d. max MaxIterations (max 1 (int (d + roundSettleMargin)))) (structuralDepth store)"

section \<open>What the numbers are\<close>

text \<open>\<open>x\<close> calls \<open>y\<close>: the first candidate of some call site of \<open>x\<close> that has a graph has the graph \<open>y\<close>.\<close>

definition calls :: "IterationStore \<Rightarrow> u64 \<Rightarrow> u64 \<Rightarrow> bool" where
  "calls st x y \<longleftrightarrow> y \<in> set (map fst (Graphs st))
   \<and> (\<exists>sites candidates. (x, sites) \<in> set (Graphs st) \<and> candidates \<in> set sites \<and> callee_of st candidates = Some y)"

text \<open>\<open>chain r n x\<close>: from \<open>x\<close> a path leaves \<open>n\<close> times a set of mutually related elements.\<close>

inductive chain :: "(u64 \<Rightarrow> u64 \<Rightarrow> bool) \<Rightarrow> nat \<Rightarrow> u64 \<Rightarrow> bool" for r where
  chain_zero: "chain r 0 x"
| chain_inside: "r\<^sup>*\<^sup>* x y \<Longrightarrow> r\<^sup>*\<^sup>* y x \<Longrightarrow> chain r n y \<Longrightarrow> chain r n x"
| chain_cross: "r x y \<Longrightarrow> \<not> r\<^sup>*\<^sup>* y x \<Longrightarrow> chain r n y \<Longrightarrow> chain r (Suc n) x"

definition encloses :: "IterationStore \<Rightarrow> u64 \<Rightarrow> u64 \<Rightarrow> bool" where
  "encloses st p g \<longleftrightarrow> NestedMetaFor st g = Some p \<and> p \<noteq> 0 \<and> p \<noteq> g"

text \<open>\<open>nested st n g\<close>: the graph \<open>g\<close> has \<open>n\<close> enclosing graphs.\<close>

inductive nested :: "IterationStore \<Rightarrow> nat \<Rightarrow> u64 \<Rightarrow> bool" for st where
  nested_root: "(\<And>p. \<not> encloses st p g) \<Longrightarrow> nested st 0 g"
| nested_inner: "encloses st p g \<Longrightarrow> nested st n p \<Longrightarrow> nested st (Suc n) g"

inductive_cases nested_rootE: "nested st 0 g"
inductive_cases nested_innerE: "nested st (Suc n) g"

definition greatest :: "(nat \<Rightarrow> bool) \<Rightarrow> nat \<Rightarrow> bool" where
  "greatest P n \<longleftrightarrow> P n \<and> (\<forall>m. P m \<longrightarrow> m \<le> n)"

section \<open>Edges of the call graph\<close>

lemma add_callees:
  "set (foldl (add_callee st) acc sites) =
     set acc \<union> {y \<in> set (map fst (Graphs st)). \<exists>c\<in>set sites. callee_of st c = Some y}"
proof (induction sites arbitrary: acc)
  case (Cons c sites)
  show ?case unfolding foldl.simps Cons.IH by (cases "callee_of st c") (auto simp: add_callee_def)
qed simp

lemma call_graph_keys: "map fst (call_graph st) = map fst (Graphs st)"
  by (auto simp: call_graph_def)

lemma call_graph_member:
  "(x, ys) \<in> set (call_graph st) \<longleftrightarrow> (\<exists>sites. (x, sites) \<in> set (Graphs st) \<and> ys = foldl (add_callee st) [] sites)"
  unfolding call_graph_def by force

lemma call_graph_edge:
  assumes "distinct (map fst (Graphs st))"
  shows "edge (call_graph st) x y \<longleftrightarrow> calls st x y"
proof -
  have d: "distinct (map fst (call_graph st))" using assms by (simp add: call_graph_keys)
  have "edge (call_graph st) x y \<longleftrightarrow> (\<exists>ys. map_of (call_graph st) x = Some ys \<and> y \<in> set ys)"
    by (cases "map_of (call_graph st) x") (simp_all add: edge_def sorted_successors_def)
  also have "\<dots> \<longleftrightarrow> (\<exists>ys. (x, ys) \<in> set (call_graph st) \<and> y \<in> set ys)"
    by (simp only: map_of_eq_Some_iff [OF d])
  also have "\<dots> \<longleftrightarrow> (\<exists>sites. (x, sites) \<in> set (Graphs st) \<and> y \<in> set (foldl (add_callee st) [] sites))"
    by (auto simp: call_graph_member)
  also have "\<dots> \<longleftrightarrow> calls st x y" unfolding calls_def add_callees by auto
  finally show ?thesis .
qed

lemma call_graph_symbols: "symbols (call_graph st) = set (map fst (Graphs st))"
  unfolding symbols_def call_graph_keys by (auto simp: call_graph_def add_callees)

section \<open>Nesting\<close>

lemma nested_unique: "nested st n g \<Longrightarrow> nested st m g \<Longrightarrow> m = n"
proof (induction arbitrary: m rule: nested.induct)
  case (nested_root g)
  then show ?case by (auto elim: nested.cases)
next
  case (nested_inner p g n)
  note enc = nested_inner.hyps(1) and IH = nested_inner.IH
  from nested_inner.prems show ?case
  proof cases
    case (nested_inner q k)
    then have "q = p" using enc by (simp add: encloses_def)
    then show ?thesis using nested_inner IH by simp
  qed (use enc in \<open>blast\<close>)
qed

text \<open>
  Up to the depth \<open>n\<close> the memo is right: what it holds of the graphs below the current one, which
  are being looked at, does not matter for it.
\<close>

definition memo_ok :: "IterationStore \<Rightarrow> nat \<Rightarrow> (u64 \<Rightarrow> nat option) \<Rightarrow> bool" where
  "memo_ok st n depths \<longleftrightarrow> (\<forall>x d k. depths x = Some d \<longrightarrow> nested st k x \<longrightarrow> k \<le> n \<longrightarrow> d = k)"

definition same_above :: "IterationStore \<Rightarrow> nat \<Rightarrow> (u64 \<Rightarrow> nat option) \<Rightarrow> (u64 \<Rightarrow> nat option) \<Rightarrow> bool" where
  "same_above st n depths depths' \<longleftrightarrow> (\<forall>x k. nested st k x \<longrightarrow> n < k \<longrightarrow> depths' x = depths x)"

lemma memo_okD: "memo_ok st n depths \<Longrightarrow> depths x = Some d \<Longrightarrow> nested st k x \<Longrightarrow> k \<le> n \<Longrightarrow> d = k"
  by (simp add: memo_ok_def)

lemma memo_set:
  assumes "nested st n g"
  shows "memo_ok st n depths \<Longrightarrow> memo_ok st n (depths(g \<mapsto> n))"
    and "same_above st n depths (depths(g \<mapsto> n))"
  using nested_unique [OF assms] unfolding memo_ok_def same_above_def by (auto split: if_splits)

lemma memo_begin:
  assumes "nested st (Suc n) g" "memo_ok st (Suc n) depths"
  shows "memo_ok st n (depths(g \<mapsto> d))"
  unfolding memo_ok_def
proof (intro allI impI)
  fix x c k assume x: "(depths(g \<mapsto> d)) x = Some c" "nested st k x" "k \<le> n"
  then have "x \<noteq> g" using nested_unique [OF assms(1), of k] by auto
  then show "c = k" using x memo_okD [OF assms(2)] by simp
qed

lemma memo_above:
  assumes "memo_ok st m depths" "memo_ok st n depths'" "same_above st n depths depths'"
  shows "memo_ok st m depths'"
  using assms unfolding memo_ok_def same_above_def by (metis not_le_imp_less)

lemma memo_return:
  assumes "nested st (Suc n) g" "memo_ok st (Suc n) depths" "memo_ok st n d'" "same_above st n (depths(g \<mapsto> 0)) d'"
  shows "memo_ok st (Suc n) (d'(g \<mapsto> Suc n))" and "same_above st (Suc n) depths (d'(g \<mapsto> Suc n))"
proof -
  show "same_above st (Suc n) depths (d'(g \<mapsto> Suc n))"
    using assms(4) nested_unique [OF assms(1)] unfolding same_above_def by fastforce
  show "memo_ok st (Suc n) (d'(g \<mapsto> Suc n))"
    unfolding memo_ok_def
  proof (intro allI impI)
    fix x d k assume x: "(d'(g \<mapsto> Suc n)) x = Some d" "nested st k x" "k \<le> Suc n"
    consider "x = g" | "x \<noteq> g" "k \<le> n" | "x \<noteq> g" "n < k" by linarith
    then show "d = k"
    proof cases
      case 1
      then show ?thesis using x nested_unique [OF assms(1), of k] by simp
    next
      case 2
      then show ?thesis using x memo_okD [OF assms(3)] by simp
    next
      case 3
      then have "depths x = Some d" using x assms(4) unfolding same_above_def by fastforce
      then show ?thesis using memo_okD [OF assms(2)] x by blast
    qed
  qed
qed

lemma depthOf_nested:
  assumes "nested st n g" "memo_ok st n depths"
  shows "\<exists>d'. depthOf st g depths = Some (n, d') \<and> memo_ok st n d' \<and> same_above st n depths d'"
  using assms
proof (induction arbitrary: depths rule: nested.induct)
  case (nested_root g)
  have g: "nested st 0 g" using nested_root.hyps by (rule nested.nested_root)
  show ?case
  proof (cases "depths g")
    case None
    then have "depthOf st g depths = Some (0, depths(g \<mapsto> 0))"
      using nested_root.hyps by (subst depthOf.simps) (auto simp: encloses_def split: option.split)
    then show ?thesis using memo_set [OF g] nested_root.prems by blast
  next
    case (Some d)
    then have "d = 0" using memo_okD [OF nested_root.prems Some g] by simp
    then show ?thesis using Some nested_root.prems by (subst depthOf.simps) (simp add: same_above_def)
  qed
next
  case (nested_inner p g n)
  have g: "nested st (Suc n) g" by (rule nested.nested_inner [OF nested_inner.hyps])
  show ?case
  proof (cases "depths g")
    case None
    obtain d' where d': "depthOf st p (depths(g \<mapsto> 0)) = Some (n, d')" "memo_ok st n d'"
      "same_above st n (depths(g \<mapsto> 0)) d'"
      using nested_inner.IH [OF memo_begin [OF g nested_inner.prems]] by blast
    have "depthOf st g depths = Some (Suc n, d'(g \<mapsto> Suc n))"
      using None nested_inner.hyps(1) d'(1) by (subst depthOf.simps) (simp add: encloses_def)
    then show ?thesis using memo_return [OF g nested_inner.prems d'(2,3)] by blast
  next
    case (Some d)
    then have "d = Suc n" using memo_okD [OF nested_inner.prems Some g] by simp
    then show ?thesis using Some nested_inner.prems by (subst depthOf.simps) (simp add: same_above_def)
  qed
qed

lemma nesting_loop_max:
  assumes "\<And>m. memo_ok st m depths" "\<And>g. g \<in> set gs \<Longrightarrow> \<exists>n. nested st n g"
  shows "\<exists>d. nesting_loop st gs depths b = Some d \<and> (\<forall>g\<in>set gs. \<forall>n. nested st n g \<longrightarrow> n \<le> d) \<and> b \<le> d
    \<and> (d = b \<or> (\<exists>g\<in>set gs. nested st d g))"
  using assms
proof (induction gs arbitrary: depths b)
  case (Cons g gs)
  obtain n where n: "nested st n g" using Cons.prems(2) by fastforce
  obtain d' where d': "depthOf st g depths = Some (n, d')" "memo_ok st n d'" "same_above st n depths d'"
    using depthOf_nested [OF n Cons.prems(1)] by blast
  have "memo_ok st m d'" for m by (rule memo_above [OF Cons.prems(1) d'(2,3)])
  then obtain d where d: "nesting_loop st gs d' (max b n) = Some d" "\<forall>g\<in>set gs. \<forall>n. nested st n g \<longrightarrow> n \<le> d"
    "max b n \<le> d" "d = max b n \<or> (\<exists>g\<in>set gs. nested st d g)"
    using Cons.IH [of d' "max b n"] Cons.prems(2) by auto
  have "\<forall>g\<in>set (g # gs). \<forall>n. nested st n g \<longrightarrow> n \<le> d" using d(2,3) nested_unique [OF n] by auto
  moreover have "d = b \<or> (\<exists>g\<in>set (g # gs). nested st d g)" using d(4) n by (auto simp: max_def)
  ultimately show ?case using d(1,3) d'(1) by auto
qed simp

lemma nestingDepth_greatest:
  assumes "Graphs st \<noteq> []" "\<And>g. g \<in> set (map fst (Graphs st)) \<Longrightarrow> \<exists>n. nested st n g"
  shows "\<exists>d. nestingDepth st = Some d \<and> greatest (\<lambda>n. \<exists>g\<in>set (map fst (Graphs st)). nested st n g) d"
proof -
  obtain d where d: "nestingDepth st = Some d" "\<And>g n. g \<in> set (map fst (Graphs st)) \<Longrightarrow> nested st n g \<Longrightarrow> n \<le> d"
    "d = 0 \<or> (\<exists>g\<in>set (map fst (Graphs st)). nested st d g)"
    using nesting_loop_max [of st Map.empty "map fst (Graphs st)" 0] assms(2) unfolding nestingDepth_def
    by (auto simp: memo_ok_def)
  have "\<exists>g\<in>set (map fst (Graphs st)). nested st d g"
  proof (cases "d = 0")
    case True
    obtain g where g: "g \<in> set (map fst (Graphs st))" using assms(1) by (cases "Graphs st") auto
    then obtain n where "nested st n g" using assms(2) by blast
    then show ?thesis using d(2) [OF g] g True by (metis le_zero_eq)
  qed (use d(3) in \<open>blast\<close>)
  then show ?thesis using d(1,2) unfolding greatest_def by blast
qed

section \<open>Chains of calls\<close>

lemma index_inner: "foldl (\<lambda>m g. m(g \<mapsto> i)) m scc g = (if g \<in> set scc then Some i else m g)"
  by (induction scc arbitrary: m) auto

lemma index_outer:
  "foldl (\<lambda>m (i, scc). foldl (\<lambda>m g. m(g \<mapsto> i)) m scc) m (enumerate k sccs) g = m g" if "g \<notin> set (concat sccs)"
  using that by (induction sccs arbitrary: m k) (auto simp: index_inner)

lemma component_index_nth:
  assumes "distinct (concat sccs)" "i < length sccs" "g \<in> set (sccs ! i)"
  shows "map_read (component_index sccs) g = i"
proof -
  have "foldl (\<lambda>m (i, scc). foldl (\<lambda>m g. m(g \<mapsto> i)) m scc) m (enumerate k sccs) g = Some (k + i)" for m k
    using assms
  proof (induction sccs arbitrary: m k i)
    case (Cons scc sccs)
    show ?case
    proof (cases i)
      case 0
      then have "g \<in> set scc" "g \<notin> set (concat sccs)" using Cons.prems by auto
      then show ?thesis using 0 by (simp add: index_outer del: set_concat fun_upd_apply) (simp add: index_inner)
    next
      case (Suc j)
      then show ?thesis using Cons.IH [where i = j and k = "Suc k"] Cons.prems by simp
    qed
  qed simp
  from this [of Map.empty 0] show ?thesis by (simp add: component_index_def map_read_def)
qed

text \<open>What looking at the callees \<open>Y\<close> of component \<open>i\<close> does to the depths.\<close>

definition raised :: "(u64 \<Rightarrow> nat option) \<Rightarrow> nat \<Rightarrow> nat list \<Rightarrow> u64 set \<Rightarrow> nat list \<Rightarrow> bool" where
  "raised component i depth Y depth' \<longleftrightarrow>
     length depth' = length depth \<and> (\<forall>k. k \<noteq> i \<longrightarrow> depth' ! k = depth ! k) \<and> depth ! i \<le> depth' ! i
   \<and> (\<forall>y\<in>Y. map_read component y \<noteq> i \<longrightarrow> depth ! map_read component y + 1 \<le> depth' ! i)
   \<and> (depth' ! i = depth ! i \<or> (\<exists>y\<in>Y. map_read component y \<noteq> i \<and> depth' ! i = depth ! map_read component y + 1))"

lemma raised_refl: "raised component i depth {} depth"
  by (simp add: raised_def)

lemma raised_trans:
  assumes "raised component i depth Y d" "raised component i d Z depth'"
  shows "raised component i depth (Y \<union> Z) depth'"
  using assms unfolding raised_def
  by (intro conjI ballI impI) (simp_all, (metis le_trans UnE UnI1 UnI2)+)

lemma raised_deepen: "i < length depth \<Longrightarrow> raised component i depth {y} (deepen component i depth y)"
  by (auto simp: raised_def deepen_def Let_def max_def)

lemma raised_callees: "i < length depth \<Longrightarrow> raised component i depth (set ys) (foldl (deepen component i) depth ys)"
proof (induction ys arbitrary: depth)
  case (Cons y ys)
  have "i < length (deepen component i depth y)" using Cons.prems by (simp add: deepen_def Let_def)
  then show ?case using raised_trans [OF raised_deepen Cons.IH] Cons.prems by simp
qed (simp add: raised_refl)

lemma raised_component:
  "i < length depth \<Longrightarrow> raised component i depth {y. \<exists>x\<in>set scc. edge adj x y} (deepen_component adj component i scc depth)"
  unfolding deepen_component_def
proof (induction scc arbitrary: depth)
  case (Cons x scc)
  let ?d = "foldl (deepen component i) depth (case map_of adj x of None \<Rightarrow> [] | Some gs \<Rightarrow> gs)"
  have d: "raised component i depth {y. edge adj x y} ?d"
    using raised_callees [OF Cons.prems, of component "case map_of adj x of None \<Rightarrow> [] | Some gs \<Rightarrow> gs"]
    unfolding edge_def sorted_successors_def by (simp only: set_sort Collect_mem_eq)
  then have "i < length ?d" using Cons.prems by (simp add: raised_def)
  from raised_trans [OF d Cons.IH [OF this]] show ?case by (simp add: Collect_disj_eq)
qed (simp add: raised_refl)

lemma ordered_components_nth:
  assumes "ordered_components adj B Cs" "k < length Cs"
  shows "is_component adj (Cs ! k)"
    and "x \<in> set (Cs ! k) \<Longrightarrow> edge adj x y \<Longrightarrow> y \<in> set (Cs ! k) \<or> y \<in> B \<or> (\<exists>j<k. y \<in> set (Cs ! j))"
proof -
  show "is_component adj (Cs ! k)" using assms by (induction Cs arbitrary: B k) (auto simp: nth_Cons split: nat.split)
  show "y \<in> set (Cs ! k) \<or> y \<in> B \<or> (\<exists>j<k. y \<in> set (Cs ! j))" if "x \<in> set (Cs ! k)" "edge adj x y"
    using assms that
  proof (induction Cs arbitrary: B k)
    case (Cons C Cs)
    show ?case
    proof (cases k)
      case (Suc k')
      then have "y \<in> set (Cs ! k') \<or> y \<in> B \<union> set C \<or> (\<exists>j<k'. y \<in> set (Cs ! j))"
        using Cons.IH [of "B \<union> set C" k'] Cons.prems by simp
      then show ?thesis using Suc by (auto intro: exI [of _ 0] exI [of _ "Suc j" for j])
    qed (use Cons.prems in \<open>auto\<close>)
  qed simp
qed

text \<open>
  The depth of a component is the longest chain from each of its elements, once it is right for the
  components before it.
\<close>

lemma component_depth:
  assumes sccs: "ordered_components adj {} sccs" "distinct (concat sccs)" "i < length sccs"
    and below: "\<And>k x. k < i \<Longrightarrow> x \<in> set (sccs ! k) \<Longrightarrow> greatest (\<lambda>n. chain (edge adj) n x) (depth ! k)"
    and "depth ! i = 0" "length depth = length sccs"
    and "raised (component_index sccs) i depth {y. \<exists>x\<in>set (sccs ! i). edge adj x y} depth'"
    and x: "x \<in> set (sccs ! i)"
  shows "greatest (\<lambda>n. chain (edge adj) n x) (depth' ! i)"
proof -
  let ?C = "set (sccs ! i)"
  note index = component_index_nth [OF sccs(2)]
  have comp: "y \<in> ?C \<longleftrightarrow> reach adj x y \<and> reach adj y x" if "x \<in> ?C" for x y
    using ordered_components_nth(1) [OF sccs(1,3)] that unfolding is_component_def by blast
  have out: "\<exists>k<i. y \<in> set (sccs ! k)" if "x \<in> ?C" "edge adj x y" "y \<notin> ?C" for x y
    using ordered_components_nth(2) [OF sccs(1,3) that(1,2)] that(3) by blast
  have "chain (edge adj) (depth' ! i) x"
  proof (cases "depth' ! i = 0")
    case False
    then obtain z y where y: "z \<in> ?C" "edge adj z y" "map_read (component_index sccs) y \<noteq> i"
      "depth' ! i = depth ! map_read (component_index sccs) y + 1"
      using assms(5,7) unfolding raised_def by auto
    then have "y \<notin> ?C" using index [OF sccs(3)] by blast
    then obtain k where k: "k < i" "y \<in> set (sccs ! k)" using out y(1,2) by blast
    then have "chain (edge adj) (depth ! k) y" "\<not> reach adj y z"
      using below comp [OF y(1), of y] y(2) \<open>y \<notin> ?C\<close> unfolding greatest_def by blast+
    then have "chain (edge adj) (depth' ! i) z"
      using chain_cross [of "edge adj" z y, OF y(2)] y(4) index [OF _ k(2)] k(1) sccs(3) by simp
    then show ?thesis using chain_inside comp [OF x, of z] y(1) by blast
  qed (simp add: chain_zero)
  moreover have "n \<le> depth' ! i" if "chain (edge adj) n x" for n
    using that x
  proof (induction rule: chain.induct)
    case (chain_inside x y n)
    then show ?case using comp [of x y] by blast
  next
    case (chain_cross x y n)
    then have "y \<notin> ?C" using comp [of x y] by blast
    then obtain k where k: "k < i" "y \<in> set (sccs ! k)" using out chain_cross by blast
    then have "map_read (component_index sccs) y = k" using index sccs(3) by simp
    moreover have "n \<le> depth ! k" using below [OF k] chain_cross.hyps(3) unfolding greatest_def by blast
    ultimately show ?case using assms(7) chain_cross k(1) unfolding raised_def by fastforce
  qed simp
  ultimately show ?thesis unfolding greatest_def by blast
qed

definition depths_ok :: "adjacency \<Rightarrow> u64 list list \<Rightarrow> nat \<Rightarrow> nat list \<Rightarrow> nat \<Rightarrow> bool" where
  "depths_ok adj sccs i depth maxDepth \<longleftrightarrow>
     length depth = length sccs \<and> (\<forall>k. i \<le> k \<longrightarrow> k < length sccs \<longrightarrow> depth ! k = 0)
   \<and> (\<forall>k<i. \<forall>x\<in>set (sccs ! k). greatest (\<lambda>n. chain (edge adj) n x) (depth ! k))
   \<and> (\<forall>k<i. depth ! k \<le> maxDepth) \<and> (maxDepth = 0 \<or> (\<exists>k<i. depth ! k = maxDepth))"

lemma depths_ok_step:
  assumes "ordered_components adj {} sccs" "distinct (concat sccs)" "i < length sccs" "depths_ok adj sccs i depth maxDepth"
  defines "d \<equiv> deepen_component adj (component_index sccs) i (sccs ! i) depth"
  shows "depths_ok adj sccs (Suc i) d (max maxDepth (d ! i))"
proof -
  have ok: "length depth = length sccs" "depth ! i = 0" "\<And>k. i \<le> k \<Longrightarrow> k < length sccs \<Longrightarrow> depth ! k = 0"
    "\<And>k x. k < i \<Longrightarrow> x \<in> set (sccs ! k) \<Longrightarrow> greatest (\<lambda>n. chain (edge adj) n x) (depth ! k)"
    "\<And>k. k < i \<Longrightarrow> depth ! k \<le> maxDepth" "maxDepth = 0 \<or> (\<exists>k<i. depth ! k = maxDepth)"
    using assms(3,4) unfolding depths_ok_def by auto
  have r: "raised (component_index sccs) i depth {y. \<exists>x\<in>set (sccs ! i). edge adj x y} d"
    unfolding d_def using raised_component ok(1) assms(3) by simp
  have d: "length d = length sccs" "\<And>k. k \<noteq> i \<Longrightarrow> d ! k = depth ! k" using r ok(1) unfolding raised_def by auto
  have "greatest (\<lambda>n. chain (edge adj) n x) (d ! k)" if "k < Suc i" "x \<in> set (sccs ! k)" for k x
    using that component_depth [OF assms(1-3) ok(4,2,1) r] ok(4) d(2) by (cases "k = i") auto
  moreover have "d ! k = 0" if "Suc i \<le> k" "k < length sccs" for k using that ok(3) d(2) by simp
  moreover have "d ! k \<le> max maxDepth (d ! i)" if "k < Suc i" for k
    using that ok(5) [of k] d(2) [of k] by (cases "k = i") auto
  moreover have "max maxDepth (d ! i) = 0 \<or> (\<exists>k<Suc i. d ! k = max maxDepth (d ! i))"
    using ok(6) d(2) by (cases "d ! i < maxDepth") (force simp: less_Suc_eq)+
  ultimately show ?thesis unfolding depths_ok_def using d(1) by blast
qed

lemma depths_ok_loop:
  assumes "ordered_components adj {} sccs" "distinct (concat sccs)" "sccs = pre @ rest" "depths_ok adj sccs (length pre) depth maxDepth"
  shows "\<exists>depth' m. foldl (\<lambda>(depth, maxDepth) (i, scc).
      let depth = deepen_component adj (component_index sccs) i scc depth in (depth, max maxDepth (depth ! i)))
      (depth, maxDepth) (enumerate (length pre) rest) = (depth', m) \<and> depths_ok adj sccs (length sccs) depth' m"
  using assms(3,4)
proof (induction rest arbitrary: pre depth maxDepth)
  case (Cons scc rest)
  have scc: "length pre < length sccs" "sccs ! length pre = scc" using Cons.prems(1) by simp_all
  show ?case
    using Cons.IH [of "pre @ [scc]"] depths_ok_step [OF assms(1,2) scc(1) Cons.prems(2)] Cons.prems(1) scc(2)
    by (simp add: Let_def)
qed simp

lemma chain_depth_greatest:
  assumes "ordered_components adj {} sccs" "distinct (concat sccs)" "sccs \<noteq> []"
  shows "greatest (\<lambda>n. \<exists>x\<in>set (concat sccs). chain (edge adj) n x) (chain_depth adj sccs)"
proof -
  have "depths_ok adj sccs 0 (replicate (length sccs) 0) 0" by (simp add: depths_ok_def)
  then obtain depth where d: "depths_ok adj sccs (length sccs) depth (chain_depth adj sccs)"
    using depths_ok_loop [OF assms(1,2), of "[]" sccs "replicate (length sccs) 0" 0]
    unfolding chain_depth_def by auto
  have elem: "\<exists>x. x \<in> set (sccs ! k)" if "k < length sccs" for k
    using ordered_components_nth(1) [OF assms(1) that] unfolding is_component_def by (cases "sccs ! k") auto
  have "\<exists>k<length sccs. depth ! k = chain_depth adj sccs"
    using d assms(3) unfolding depths_ok_def by (metis le_zero_eq length_greater_0_conv)
  then obtain k where k: "k < length sccs" "depth ! k = chain_depth adj sccs" by blast
  then obtain x where x: "x \<in> set (sccs ! k)" using elem by blast
  then have "chain (edge adj) (chain_depth adj sccs) x"
    using d k unfolding depths_ok_def greatest_def by metis
  moreover have "x \<in> set (concat sccs)" using x k(1) by (auto intro: bexI [OF _ nth_mem])
  ultimately have "\<exists>x\<in>set (concat sccs). chain (edge adj) (chain_depth adj sccs) x" by blast
  moreover have "n \<le> chain_depth adj sccs" if "x \<in> set (concat sccs)" "chain (edge adj) n x" for x n
  proof -
    obtain C where "C \<in> set sccs" "x \<in> set C" using \<open>x \<in> set (concat sccs)\<close> by auto
    then obtain k where "k < length sccs" "x \<in> set (sccs ! k)" by (metis in_set_conv_nth)
    then show ?thesis using d that(2) unfolding depths_ok_def greatest_def by (meson le_trans)
  qed
  ultimately show ?thesis unfolding greatest_def by blast
qed

section \<open>The number of rounds\<close>

lemma callChainDepth_greatest:
  assumes "distinct (map fst (Graphs st))" "Graphs st \<noteq> []"
  shows "\<exists>c. callChainDepth st = Some c \<and> greatest (\<lambda>n. \<exists>g\<in>set (map fst (Graphs st)). chain (calls st) n g) c"
proof -
  have r: "edge (call_graph st) = calls st" using call_graph_edge [OF assms(1)] by blast
  obtain sccs where sccs: "ComputeSCCs (call_graph st) = Some sccs" "ordered_components (call_graph st) {} sccs"
    "distinct (concat sccs)" "set (concat sccs) = set (map fst (Graphs st))"
    using components_found [of "call_graph st"] assms(1) unfolding call_graph_keys call_graph_symbols by blast
  then have "sccs \<noteq> []" using assms(2) by (cases "Graphs st") auto
  from chain_depth_greatest [OF sccs(2,3) this] show ?thesis
    using sccs(1,4) by (simp add: callChainDepth_def r del: set_concat)
qed

text \<open>
  C36: The number of rounds the driver runs for a chunk is the configured one, one, or four more than
  twice the depth of the innermost function plus four times the longest chain of calls, whichever is
  the largest. The depth of a function is the number of functions around it; a chain of calls counts
  the calls that leave a set of mutually recursive functions, along any path of the call graph. It is
  required that every graph has finitely many graphs around it. The order in which the graphs are looked at makes no
  difference to this.
\<close>

theorem round_budget_exact:
  assumes "distinct (map fst (Graphs st))" "Graphs st \<noteq> []"
    "\<And>g. g \<in> set (map fst (Graphs st)) \<Longrightarrow> \<exists>n. nested st n g"
  shows "\<exists>d c. roundBudget MaxIterations (Some st) = Some (max MaxIterations (max 1 (2 * int d + 4 * int c + 4)))
    \<and> greatest (\<lambda>n. \<exists>g\<in>set (map fst (Graphs st)). nested st n g) d
    \<and> greatest (\<lambda>n. \<exists>g\<in>set (map fst (Graphs st)). chain (calls st) n g) c"
proof -
  obtain d where d: "nestingDepth st = Some d" "greatest (\<lambda>n. \<exists>g\<in>set (map fst (Graphs st)). nested st n g) d"
    using nestingDepth_greatest [OF assms(2,3)] by blast
  obtain c where c: "callChainDepth st = Some c" "greatest (\<lambda>n. \<exists>g\<in>set (map fst (Graphs st)). chain (calls st) n g) c"
    using callChainDepth_greatest [OF assms(1,2)] by blast
  have "roundBudget MaxIterations (Some st) = Some (max MaxIterations (max 1 (2 * int d + 4 * int c + 4)))"
    using d(1) c(1) by (simp add: roundBudget_def structuralDepth_def roundSettleMargin_def algebra_simps)
  then show ?thesis using d(2) c(2) by blast
qed

text \<open>Three functions: the second is nested in the first and calls the third, which calls itself.\<close>

definition example_store :: IterationStore where
  "example_store = \<lparr>Graphs = [(1, []), (2, [[7, 9], [9]]), (3, [[9]])], FunctionRefBySym = [9 \<mapsto> 3, 7 \<mapsto> 0],
     NestedMetaFor = [2 \<mapsto> 1]\<rparr>"

lemma example_nested: "nested example_store 0 1" "nested example_store (Suc 0) 2" "nested example_store 0 3"
proof -
  show one: "nested example_store 0 1" and "nested example_store 0 3"
    by (rule nested_root; simp add: encloses_def example_store_def)+
  show "nested example_store (Suc 0) 2"
    by (rule nested_inner [OF _ one]) (simp add: encloses_def example_store_def)
qed

theorem round_budget_exact_witness:
  "(\<exists>d c. roundBudget 3 (Some example_store) = Some (max 3 (max 1 (2 * int d + 4 * int c + 4)))
     \<and> greatest (\<lambda>n. \<exists>g\<in>set (map fst (Graphs example_store)). nested example_store n g) d
     \<and> greatest (\<lambda>n. \<exists>g\<in>set (map fst (Graphs example_store)). chain (calls example_store) n g) c)
   \<and> roundBudget 3 (Some example_store) = Some 10"
proof
  have graphs: "map fst (Graphs example_store) = [1, 2, 3]" by (simp add: example_store_def)
  show "\<exists>d c. roundBudget 3 (Some example_store) = Some (max 3 (max 1 (2 * int d + 4 * int c + 4)))
     \<and> greatest (\<lambda>n. \<exists>g\<in>set (map fst (Graphs example_store)). nested example_store n g) d
     \<and> greatest (\<lambda>n. \<exists>g\<in>set (map fst (Graphs example_store)). chain (calls example_store) n g) c"
    using example_nested by (intro round_budget_exact) (auto simp: graphs, simp add: example_store_def)
  show "roundBudget 3 (Some example_store) = Some 10" by code_simp
qed

end
