(* ===== verification/Exprs.thy ===== *)
theory Exprs
  imports Paths
begin

text \<open>
  Arithmetic expressions over names, lengths, parameters and return values
  (\<open>types/constraint/expr.go\<close>, \<open>types/constraint/expr_compare.go\<close>): evaluation with the checked
  64-bit operations, substitution, the names in an expression and simplification. The lemmas show
  that substitution is evaluation in the changed environment, that evaluation looks at no other names,
  and that simplification keeps every value.

  An environment and a substitution are maps from names. A pair of a value and \<open>true\<close> is \<open>Some\<close> of
  the value. An operator that is none of the five constants is \<open>OpOther\<close>. A nil expression occurs
  only as an argument of \<open>ExprEquals\<close>, where it is \<open>None\<close>; inside an expression it would panic.
\<close>

section \<open>Model\<close>

datatype Op = OpAdd | OpSub | OpMul | OpDiv | OpMod | OpOther int

fun op_String :: "Op \<Rightarrow> string" where
  "op_String OpAdd = ''+''"
| "op_String OpSub = ''-''"
| "op_String OpMul = ''*''"
| "op_String OpDiv = ''/''"
| "op_String OpMod = ''%''"
| "op_String (OpOther n) = ''?''"

datatype Expr =
    Var string
  | Const int
  | BinOp Op Expr Expr
  | Len string
  | Param int
  | Ret int
  | ParamLen int
  | RetLen int
  | MinE Expr Expr
  | MaxE Expr Expr

definition paramExprKey :: "int \<Rightarrow> string" where "paramExprKey index = ''param['' @ Itoa index @ '']''"
definition retExprKey :: "int \<Rightarrow> string" where "retExprKey index = ''ret['' @ Itoa index @ '']''"
definition paramLenExprKey :: "int \<Rightarrow> string" where "paramLenExprKey index = paramExprKey index @ ''.len''"
definition retLenExprKey :: "int \<Rightarrow> string" where "retLenExprKey index = retExprKey index @ ''.len''"

fun expr_String :: "Expr \<Rightarrow> string" where
  "expr_String (Var name) = name"
| "expr_String (Const v) = Itoa v"
| "expr_String (BinOp op l r) = ''('' @ expr_String l @ '' '' @ op_String op @ '' '' @ expr_String r @ '')''"
| "expr_String (Len n) = ''len('' @ n @ '')''"
| "expr_String (Param i) = paramExprKey i"
| "expr_String (Ret i) = retExprKey i"
| "expr_String (ParamLen i) = ''len('' @ paramExprKey i @ '')''"
| "expr_String (RetLen i) = ''len('' @ retExprKey i @ '')''"
| "expr_String (MinE l r) = ''min('' @ expr_String l @ '', '' @ expr_String r @ '')''"
| "expr_String (MaxE l r) = ''max('' @ expr_String l @ '', '' @ expr_String r @ '')''"

definition substituted :: "Expr \<Rightarrow> Expr option \<Rightarrow> Expr" where
  "substituted e found = (case found of Some e' \<Rightarrow> e' | None \<Rightarrow> e)"

fun expr_Substitute :: "Expr \<Rightarrow> (string \<Rightarrow> Expr option) \<Rightarrow> Expr" where
  "expr_Substitute (Var name) subst = substituted (Var name) (subst name)"
| "expr_Substitute (Const v) subst = Const v"
| "expr_Substitute (BinOp op l r) subst = BinOp op (expr_Substitute l subst) (expr_Substitute r subst)"
| "expr_Substitute (Len n) subst = substituted (Len n) (subst (n @ ''.len''))"
| "expr_Substitute (Param i) subst = substituted (Param i) (subst (paramExprKey i))"
| "expr_Substitute (Ret i) subst = substituted (Ret i) (subst (retExprKey i))"
| "expr_Substitute (ParamLen i) subst = substituted (ParamLen i) (subst (paramLenExprKey i))"
| "expr_Substitute (RetLen i) subst = substituted (RetLen i) (subst (retLenExprKey i))"
| "expr_Substitute (MinE l r) subst = MinE (expr_Substitute l subst) (expr_Substitute r subst)"
| "expr_Substitute (MaxE l r) subst = MaxE (expr_Substitute l subst) (expr_Substitute r subst)"

definition collectVars :: "string list list \<Rightarrow> string list" where
  "collectVars vars = sort (remdups (concat vars))"

fun Variables :: "Expr \<Rightarrow> string list" where
  "Variables (Var name) = [name]"
| "Variables (Const v) = []"
| "Variables (BinOp op l r) = collectVars [Variables l, Variables r]"
| "Variables (Len n) = [n @ ''.len'']"
| "Variables (Param i) = [paramExprKey i]"
| "Variables (Ret i) = [retExprKey i]"
| "Variables (ParamLen i) = [paramLenExprKey i]"
| "Variables (RetLen i) = [retLenExprKey i]"
| "Variables (MinE l r) = collectVars [Variables l, Variables r]"
| "Variables (MaxE l r) = collectVars [Variables l, Variables r]"

fun eval_op :: "Op \<Rightarrow> int \<Rightarrow> int \<Rightarrow> int option" where
  "eval_op OpAdd l r = SafeAdd l r"
| "eval_op OpSub l r = SafeSub l r"
| "eval_op OpMul l r = SafeMul l r"
| "eval_op OpDiv l r = (if r = 0 then None else if l = MinInt64 \<and> r = -1 then None else Some (go_quot l r))"
| "eval_op OpMod l r = (if r = 0 then None else if l = MinInt64 \<and> r = -1 then Some 0 else Some (go_rem l r))"
| "eval_op (OpOther n) l r = None"

definition both :: "int option \<Rightarrow> int option \<Rightarrow> (int \<Rightarrow> int \<Rightarrow> int option) \<Rightarrow> int option" where
  "both left right f = Option.bind left (\<lambda>l. Option.bind right (f l))"

fun Eval :: "Expr \<Rightarrow> (string \<Rightarrow> int option) \<Rightarrow> int option" where
  "Eval (Var name) env = env name"
| "Eval (Const v) env = Some v"
| "Eval (BinOp op l r) env = both (Eval l env) (Eval r env) (eval_op op)"
| "Eval (Len n) env = env (n @ ''.len'')"
| "Eval (Param i) env = env (paramExprKey i)"
| "Eval (Ret i) env = env (retExprKey i)"
| "Eval (ParamLen i) env = env (paramLenExprKey i)"
| "Eval (RetLen i) env = env (retLenExprKey i)"
| "Eval (MinE l r) env = both (Eval l env) (Eval r env) (\<lambda>l r. Some (if l < r then l else r))"
| "Eval (MaxE l r) env = both (Eval l env) (Eval r env) (\<lambda>l r. Some (if l > r then l else r))"

fun as_const :: "Expr \<Rightarrow> int option" where
  "as_const (Const v) = Some v"
| "as_const e = None"

definition simplify_min :: "Expr \<Rightarrow> Expr \<Rightarrow> Expr" where
  "simplify_min left right =
     (case (as_const left, as_const right) of
        (Some l, Some r) \<Rightarrow> if l < r then Const l else Const r
      | _ \<Rightarrow> MinE left right)"

definition simplify_max :: "Expr \<Rightarrow> Expr \<Rightarrow> Expr" where
  "simplify_max left right =
     (case (as_const left, as_const right) of
        (Some l, Some r) \<Rightarrow> if l > r then Const l else Const r
      | _ \<Rightarrow> MaxE left right)"

definition simplify_binop :: "Op \<Rightarrow> Expr \<Rightarrow> Expr \<Rightarrow> Expr" where
  "simplify_binop op left right =
     (let lc = as_const left; rc = as_const right in
      case both lc rc (eval_op op) of
        Some result \<Rightarrow> Const result
      | None \<Rightarrow>
          if op = OpAdd \<and> lc = Some 0 then right
          else if op = OpAdd \<and> rc = Some 0 then left
          else if op = OpSub \<and> rc = Some 0 then left
          else if op = OpMul \<and> lc = Some 1 then right
          else if op = OpMul \<and> rc = Some 1 then left
          else if op = OpMul \<and> (lc = Some 0 \<or> rc = Some 0) then Const 0
          else BinOp op left right)"

fun Simplify :: "Expr \<Rightarrow> Expr" where
  "Simplify (BinOp op l r) = simplify_binop op (Simplify l) (Simplify r)"
| "Simplify (MinE l r) = simplify_min (Simplify l) (Simplify r)"
| "Simplify (MaxE l r) = simplify_max (Simplify l) (Simplify r)"
| "Simplify e = e"

fun expr_equals :: "Expr \<Rightarrow> Expr \<Rightarrow> bool" where
  "expr_equals (Var a) e = (case e of Var b \<Rightarrow> a = b | _ \<Rightarrow> False)"
| "expr_equals (Const a) e = (case e of Const b \<Rightarrow> a = b | _ \<Rightarrow> False)"
| "expr_equals (Len a) e = (case e of Len b \<Rightarrow> a = b | _ \<Rightarrow> False)"
| "expr_equals (Param a) e = (case e of Param b \<Rightarrow> a = b | _ \<Rightarrow> False)"
| "expr_equals (Ret a) e = (case e of Ret b \<Rightarrow> a = b | _ \<Rightarrow> False)"
| "expr_equals (ParamLen a) e = (case e of ParamLen b \<Rightarrow> a = b | _ \<Rightarrow> False)"
| "expr_equals (RetLen a) e = (case e of RetLen b \<Rightarrow> a = b | _ \<Rightarrow> False)"
| "expr_equals (BinOp op l r) e =
     (case e of BinOp op2 l2 r2 \<Rightarrow> op = op2 \<and> expr_equals l l2 \<and> expr_equals r r2 | _ \<Rightarrow> False)"
| "expr_equals (MinE l r) e = (case e of MinE l2 r2 \<Rightarrow> expr_equals l l2 \<and> expr_equals r r2 | _ \<Rightarrow> False)"
| "expr_equals (MaxE l r) e = (case e of MaxE l2 r2 \<Rightarrow> expr_equals l l2 \<and> expr_equals r r2 | _ \<Rightarrow> False)"

definition ExprEquals :: "Expr option \<Rightarrow> Expr option \<Rightarrow> bool" where
  "ExprEquals a b = (case (a, b) of (None, None) \<Rightarrow> True | (Some a, Some b) \<Rightarrow> expr_equals a b | _ \<Rightarrow> False)"

subsection \<open>Comparisons\<close>

text \<open>The relation is a \<open>uint8\<close>; \<open>OtherRel\<close> is a value that is none of the six constants.\<close>

datatype ExprRel = ExprEq | ExprNe | ExprLt | ExprLe | ExprGt | ExprGe | OtherRel nat

fun rel_String :: "ExprRel \<Rightarrow> string" where
  "rel_String ExprEq = ''==''"
| "rel_String ExprNe = ''!=''"
| "rel_String ExprLt = ''<''"
| "rel_String ExprLe = ''<=''"
| "rel_String ExprGt = ''>''"
| "rel_String ExprGe = ''>=''"
| "rel_String (OtherRel n) = ''?''"

record ExprCompare =
  Rel :: ExprRel
  CmpLeft :: Expr
  CmpRight :: Expr

definition compare_String :: "ExprCompare \<Rightarrow> string" where
  "compare_String c = ''('' @ expr_String (CmpLeft c) @ '' '' @ rel_String (Rel c) @ '' '' @ expr_String (CmpRight c) @ '')''"

definition compare_Equals :: "ExprCompare \<Rightarrow> ExprCompare \<Rightarrow> bool" where
  "compare_Equals c other \<longleftrightarrow> Rel c = Rel other \<and> ExprEquals (Some (CmpLeft c)) (Some (CmpLeft other))
     \<and> ExprEquals (Some (CmpRight c)) (Some (CmpRight other))"

section \<open>Values\<close>

lemma both_Some: "both a b f = Some v \<longleftrightarrow> (\<exists>l r. a = Some l \<and> b = Some r \<and> f l r = Some v)"
  by (cases a; cases b) (auto simp: both_def)

lemma both_simps [simp]: "both (Some l) (Some r) f = f l r" "both None b f = None" "both a None f = None"
  by (cases a; simp add: both_def)+

definition env_ok :: "(string \<Rightarrow> int option) \<Rightarrow> bool" where
  "env_ok env \<longleftrightarrow> (\<forall>k v. env k = Some v \<longrightarrow> is_int64 v)"

fun expr_ok :: "Expr \<Rightarrow> bool" where
  "expr_ok (Const v) = is_int64 v"
| "expr_ok (BinOp op l r) = (expr_ok l \<and> expr_ok r)"
| "expr_ok (MinE l r) = (expr_ok l \<and> expr_ok r)"
| "expr_ok (MaxE l r) = (expr_ok l \<and> expr_ok r)"
| "expr_ok e = True"

lemma go_rem_int64: "b \<noteq> 0 \<Longrightarrow> is_int64 a \<Longrightarrow> is_int64 b \<Longrightarrow> is_int64 (go_rem a b)"
  using go_rem_bound [of b a] by (auto simp: is_int64_def)

lemma eval_op_int64:
  assumes "is_int64 l" "is_int64 r" "eval_op op l r = Some v"
  shows "is_int64 v"
  using assms by (cases op) (auto simp: SafeAdd_exact SafeSub_exact SafeMul_exact go_quot_def go_rem_int64 is_int64_def [of 0] split: if_splits)

lemma Eval_int64:
  assumes "env_ok env" "expr_ok e" "Eval e env = Some v"
  shows "is_int64 v"
proof -
  have env: "is_int64 x" if "env k = Some x" for k x using assms(1) that by (simp add: env_ok_def)
  show ?thesis using assms(2,3)
proof (induction e arbitrary: v)
  case (BinOp op l r)
  then obtain x y where "Eval l env = Some x" "Eval r env = Some y" "eval_op op x y = Some v" by (auto simp: both_Some)
  then show ?case using BinOp eval_op_int64 [of x y op v] by simp
qed (use env in \<open>auto simp: both_Some split: if_splits\<close>)
qed

section \<open>Simplification\<close>

lemma as_const_Some: "as_const e = Some v \<longleftrightarrow> e = Const v"
  by (cases e) auto

lemma simplify_binop_sound:
  assumes "both (Eval l env) (Eval r env) (eval_op op) = Some v"
    and "\<And>x. Eval l env = Some x \<Longrightarrow> is_int64 x" "\<And>x. Eval r env = Some x \<Longrightarrow> is_int64 x"
  shows "Eval (simplify_binop op l r) env = Some v"
proof -
  obtain x y where xy: "Eval l env = Some x" "Eval r env = Some y" "eval_op op x y = Some v"
    using assms(1) by (auto simp: both_Some)
  have i: "is_int64 x" "is_int64 y" using assms(2,3) xy by auto
  show ?thesis
  proof (cases "both (as_const l) (as_const r) (eval_op op)")
    case (Some result)
    then show ?thesis using xy by (auto simp: simplify_binop_def both_Some as_const_Some)
  next
    case None
    then show ?thesis
      using xy i
      by (auto simp: simplify_binop_def Let_def as_const_Some SafeAdd_exact SafeSub_exact SafeMul_exact is_int64_def [of 0] is_int64_def [of 1]
          split: if_splits)
  qed
qed

lemma simplify_minmax_sound:
  "Eval (simplify_min l r) env = Eval (MinE l r) env" "Eval (simplify_max l r) env = Eval (MaxE l r) env"
  by (auto simp: simplify_min_def simplify_max_def as_const_Some split: option.split)

lemma simplify_binop_ok: "expr_ok l \<Longrightarrow> expr_ok r \<Longrightarrow> expr_ok (simplify_binop op l r)"
proof (cases "both (as_const l) (as_const r) (eval_op op)")
  case None
  then show "expr_ok l \<Longrightarrow> expr_ok r \<Longrightarrow> ?thesis" by (simp add: simplify_binop_def Let_def is_int64_def [of 0])
next
  case (Some v)
  then obtain x y where "l = Const x" "r = Const y" "eval_op op x y = Some v" by (auto simp: both_Some as_const_Some)
  then show "expr_ok l \<Longrightarrow> expr_ok r \<Longrightarrow> ?thesis" using Some eval_op_int64 [of x y op v] by (simp add: simplify_binop_def)
qed

lemma Simplify_ok: "expr_ok e \<Longrightarrow> expr_ok (Simplify e)"
  by (induction e)
    (auto simp: simplify_binop_ok simplify_min_def simplify_max_def as_const_Some split: option.split)

lemma Simplify_sound:
  assumes "env_ok env"
  shows "expr_ok e \<Longrightarrow> Eval e env = Some v \<Longrightarrow> Eval (Simplify e) env = Some v"
proof (induction e arbitrary: v)
  case (BinOp op l r)
  then obtain x y where xy: "Eval l env = Some x" "Eval r env = Some y" "eval_op op x y = Some v" by (auto simp: both_Some)
  have "Eval (Simplify l) env = Some x" "Eval (Simplify r) env = Some y" using BinOp xy by auto
  then show ?case
    using simplify_binop_sound [of "Simplify l" env "Simplify r" op v] xy(3)
      Eval_int64 [OF assms _ xy(1)] Eval_int64 [OF assms _ xy(2)] BinOp.prems(1) by simp
qed (auto simp: simplify_minmax_sound both_Some)

text \<open>What is left after simplification cannot be simplified further.\<close>

lemma simplify_again:
  assumes "Simplify l = l" "Simplify r = r"
  shows "Simplify (simplify_binop op l r) = simplify_binop op l r"
    "Simplify (simplify_min l r) = simplify_min l r" "Simplify (simplify_max l r) = simplify_max l r"
  using assms
  by (auto simp: simplify_binop_def simplify_min_def simplify_max_def Let_def split: option.splits if_splits)

lemma Simplify_idem: "Simplify (Simplify e) = Simplify e"
  by (induction e) (simp_all add: simplify_again)

lemma set_collectVars: "set (collectVars vars) = \<Union> (set ` set vars)"
  by (simp add: collectVars_def)

lemma Variables_Simplify: "set (Variables (Simplify e)) \<subseteq> set (Variables e)"
proof (induction e)
  case (BinOp op l r)
  have "set (Variables (simplify_binop op a b)) \<subseteq> set (Variables a) \<union> set (Variables b)" for a b
    by (auto simp: simplify_binop_def Let_def set_collectVars split: option.split if_split)
  then show ?case using BinOp by (fastforce simp: set_collectVars)
next
  case (MinE l r)
  have "set (Variables (simplify_min a b)) \<subseteq> set (Variables a) \<union> set (Variables b)" for a b
    by (auto simp: simplify_min_def set_collectVars split: option.split)
  then show ?case using MinE by (fastforce simp: set_collectVars)
next
  case (MaxE l r)
  have "set (Variables (simplify_max a b)) \<subseteq> set (Variables a) \<union> set (Variables b)" for a b
    by (auto simp: simplify_max_def set_collectVars split: option.split)
  then show ?case using MaxE by (fastforce simp: set_collectVars)
qed simp_all

lemma Variables_nil: "collectVars vars = [] \<longleftrightarrow> (\<forall>vs\<in>set vars. vs = [])"
  by (simp only: set_empty [symmetric, of "collectVars vars"] set_collectVars) auto

lemma Simplify_closed:
  "expr_ok e \<Longrightarrow> Variables e = [] \<Longrightarrow> Eval e env = Some v \<Longrightarrow> Simplify e = Const v"
proof (induction e arbitrary: v)
  case (BinOp op l r)
  then obtain x y where "Eval l env = Some x" "Eval r env = Some y" "eval_op op x y = Some v" by (auto simp: both_Some)
  then show ?case using BinOp by (simp add: Variables_nil simplify_binop_def)
next
  case (MinE l r)
  then show ?case by (fastforce simp: Variables_nil simplify_min_def both_Some)
next
  case (MaxE l r)
  then show ?case by (fastforce simp: Variables_nil simplify_max_def both_Some)
qed auto

section \<open>Substitution\<close>

definition subst_env :: "(string \<Rightarrow> Expr option) \<Rightarrow> (string \<Rightarrow> int option) \<Rightarrow> string \<Rightarrow> int option" where
  "subst_env subst env k = (case subst k of Some e \<Rightarrow> Eval e env | None \<Rightarrow> env k)"

lemma Eval_substituted:
  "Eval e env = env k \<Longrightarrow> Eval (substituted e (subst k)) env = subst_env subst env k"
  by (simp add: substituted_def subst_env_def split: option.split)

lemma Eval_Substitute: "Eval (expr_Substitute e subst) env = Eval e (subst_env subst env)"
  by (induction e) (simp_all add: Eval_substituted)

lemma Variables_substituted:
  assumes "Variables e = [k]"
  shows "set (Variables (substituted e (subst k))) =
     (\<Union>k\<in>set (Variables e). case subst k of Some e' \<Rightarrow> set (Variables e') | None \<Rightarrow> {k})"
  unfolding assms by (simp add: substituted_def assms split: option.split)

lemma Variables_Substitute:
  "set (Variables (expr_Substitute e subst)) =
     (\<Union>k\<in>set (Variables e). case subst k of Some e' \<Rightarrow> set (Variables e') | None \<Rightarrow> {k})"
proof (induction e)
  case (BinOp op l r)
  then show ?case by (simp only: expr_Substitute.simps Variables.simps set_collectVars) simp
next
  case (MinE l r)
  then show ?case by (simp only: expr_Substitute.simps Variables.simps set_collectVars) simp
next
  case (MaxE l r)
  then show ?case by (simp only: expr_Substitute.simps Variables.simps set_collectVars) simp
qed (simp_all only: expr_Substitute.simps Variables_substituted Variables.simps, simp)

lemma Eval_Variables: "(\<And>k. k \<in> set (Variables e) \<Longrightarrow> env k = env' k) \<Longrightarrow> Eval e env = Eval e env'"
  by (induction e) (simp_all add: set_collectVars)

lemma Eval_defined: "Eval e env = Some v \<Longrightarrow> set (Variables e) \<subseteq> dom env"
  by (induction e arbitrary: v) (fastforce simp: set_collectVars both_Some)+

lemma Variables_sorted: "sorted (Variables e) \<and> distinct (Variables e)"
  by (induction e) (simp_all add: collectVars_def)

section \<open>Properties\<close>

lemma expr_equals_iff: "expr_equals a b \<longleftrightarrow> a = b"
  by (induction a arbitrary: b) (auto split: Expr.split)

lemma ExprEquals_iff: "ExprEquals a b \<longleftrightarrow> a = b"
  by (simp add: ExprEquals_def expr_equals_iff split: option.split)

lemma compare_Equals_iff: "compare_Equals c d \<longleftrightarrow> c = d"
  by (auto simp: compare_Equals_def ExprEquals_iff)

text \<open>
  C37: Simplification keeps the value of an expression wherever it has one, in 64-bit arithmetic that
  reports overflow; it leaves nothing to simplify, brings in no names, and turns an expression without
  names that has a value into that constant.
\<close>

theorem simplify_correct:
  assumes "expr_ok e" "env_ok env" "Eval e env = Some v"
  shows "Eval (Simplify e) env = Some v \<and> is_int64 v \<and> Simplify (Simplify e) = Simplify e
    \<and> set (Variables (Simplify e)) \<subseteq> set (Variables e) \<and> (Variables e = [] \<longrightarrow> Simplify e = Const v)"
  using Simplify_sound [OF assms(2,1,3)] Eval_int64 [OF assms(2,1,3)] Simplify_idem Variables_Simplify
    Simplify_closed [OF assms(1) _ assms(3)] by blast

theorem simplify_correct_witness:
  "(let e = BinOp OpAdd (BinOp OpMul (Const 1) (Var ''x'')) (MinE (Const 2) (Const 0)); env = [''x'' \<mapsto> 7] in
     Eval e env = Some 7 \<and> Simplify e = Var ''x'' \<and> Eval (Simplify e) env = Some 7)"
proof -
  let ?e = "BinOp OpAdd (BinOp OpMul (Const 1) (Var ''x'')) (MinE (Const 2) (Const 0))" and ?env = "[''x'' \<mapsto> 7]"
  have v: "Eval ?e ?env = Some 7" by code_simp
  have "expr_ok ?e" "env_ok ?env" by (simp_all add: is_int64_def env_ok_def)
  from simplify_correct [OF this v] have "Eval (Simplify ?e) ?env = Some 7" by blast
  moreover have "Simplify ?e = Var ''x''" by code_simp
  ultimately show ?thesis using v by (simp only: Let_def)
qed

text \<open>
  Evaluating after a substitution is evaluating in the environment in which every substituted name
  has the value of its expression, undefined values and overflow included. The names of an expression
  are listed once each, in order; evaluation needs all of them and looks at no others; and the names after
  a substitution are those of the expressions put in and those left alone.
\<close>

theorem expr_substitution_exact:
  "Eval (expr_Substitute e subst) env = Eval e (\<lambda>k. case subst k of Some e' \<Rightarrow> Eval e' env | None \<Rightarrow> env k)
   \<and> set (Variables (expr_Substitute e subst)) =
       (\<Union>k\<in>set (Variables e). case subst k of Some e' \<Rightarrow> set (Variables e') | None \<Rightarrow> {k})
   \<and> sorted (Variables e) \<and> distinct (Variables e)
   \<and> (Eval e env \<noteq> None \<longrightarrow> set (Variables e) \<subseteq> dom env)
   \<and> Eval e (env |` set (Variables e)) = Eval e env"
proof -
  have "subst_env subst env = (\<lambda>k. case subst k of Some e' \<Rightarrow> Eval e' env | None \<Rightarrow> env k)"
    by (simp add: subst_env_def fun_eq_iff)
  moreover have "Eval e (env |` set (Variables e)) = Eval e env" by (rule Eval_Variables) simp
  ultimately show ?thesis
    using Eval_Substitute [of e subst env] Variables_Substitute [of e subst] Variables_sorted [of e] Eval_defined [of e env] by auto
qed

theorem expr_substitution_exact_witness:
  "Eval (expr_Substitute (BinOp OpSub (ParamLen 0) (Var ''i'')) [''param[0].len'' \<mapsto> Len ''a'']) [''a.len'' \<mapsto> 5, ''i'' \<mapsto> 2] = Some 3"
proof -
  have "Eval (BinOp OpSub (ParamLen 0) (Var ''i''))
      (\<lambda>k. case [''param[0].len'' \<mapsto> Len ''a''] k of Some e' \<Rightarrow> Eval e' [''a.len'' \<mapsto> 5, ''i'' \<mapsto> 2]
        | None \<Rightarrow> [''a.len'' \<mapsto> 5, ''i'' \<mapsto> 2] k) = Some 3" by code_simp
  then show ?thesis
    using expr_substitution_exact [of "BinOp OpSub (ParamLen 0) (Var ''i'')" "[''param[0].len'' \<mapsto> Len ''a'']"] by simp
qed

end
