(* ===== verification/Atoms.thy ===== *)
theory Atoms
  imports CondSemantics
begin

text \<open>
  Numeric constraints (\<open>types/constraint/numeric.go\<close>) and the atoms to which type and numeric
  constraints are reduced for the solvers (\<open>types/constraint/atom.go\<close>). The lemmas show that equal
  constraints and atoms have equal hashes, and that an atom says what the constraint it was made of
  says, but for the offset of a length.

  The visitor by which Go dispatches on a constraint is a case distinction. Terms and atoms are structs
  with a tag. A pair of an atom and \<open>true\<close> is \<open>Some\<close> of the atom. A path key is a string.
\<close>

section \<open>Numeric constraints\<close>

datatype NumericConstraint =
    Le Path Path int
  | Lt Path Path
  | Ge Path Path
  | Gt Path Path
  | Eq Path Path
  | EqConst Path int
  | LeConst Path int
  | GeConst Path int
  | ModEq Path int int
  | LeLenOf Path Path int
  | LenGeConst Path int
  | LenEqConst Path int

fun NumKind :: "NumericConstraint \<Rightarrow> nat" where
  "NumKind (Le x y c) = 1"
| "NumKind (Lt x y) = 2"
| "NumKind (Ge x y) = 3"
| "NumKind (Gt x y) = 4"
| "NumKind (Eq x y) = 5"
| "NumKind (EqConst x c) = 6"
| "NumKind (LeConst x c) = 7"
| "NumKind (GeConst x c) = 8"
| "NumKind (ModEq x m r) = 9"
| "NumKind (LeLenOf x a off) = 10"
| "NumKind (LenGeConst a c) = 11"
| "NumKind (LenEqConst a c) = 12"

fun num_Paths :: "NumericConstraint \<Rightarrow> Path list" where
  "num_Paths (Le x y c) = [x, y]"
| "num_Paths (Lt x y) = [x, y]"
| "num_Paths (Ge x y) = [x, y]"
| "num_Paths (Gt x y) = [x, y]"
| "num_Paths (Eq x y) = [x, y]"
| "num_Paths (EqConst x c) = [x]"
| "num_Paths (LeConst x c) = [x]"
| "num_Paths (GeConst x c) = [x]"
| "num_Paths (ModEq x m r) = [x]"
| "num_Paths (LeLenOf x a off) = [x, a]"
| "num_Paths (LenGeConst a c) = [a]"
| "num_Paths (LenEqConst a c) = [a]"

definition hashNumConstraint :: "nat \<Rightarrow> Path \<Rightarrow> Path \<Rightarrow> int list \<Rightarrow> u64" where
  "hashNumConstraint kind a b extra =
     (let h = HashCombine (of_nat kind) (path_Hash a);
          h = (if path_IsEmpty b then h else HashCombine h (path_Hash b))
      in foldl (\<lambda>h v. HashCombine h (word_of_int v)) h extra)"

fun num_Hash :: "NumericConstraint \<Rightarrow> u64" where
  "num_Hash (Le x y c) = hashNumConstraint 1 x y [c]"
| "num_Hash (Lt x y) = hashNumConstraint 2 x y [0]"
| "num_Hash (Ge x y) = hashNumConstraint 3 x y [0]"
| "num_Hash (Gt x y) = hashNumConstraint 4 x y [0]"
| "num_Hash (Eq x y) = hashNumConstraint 5 x y [0]"
| "num_Hash (EqConst x c) = hashNumConstraint 6 x empty_path [c]"
| "num_Hash (LeConst x c) = hashNumConstraint 7 x empty_path [c]"
| "num_Hash (GeConst x c) = hashNumConstraint 8 x empty_path [c]"
| "num_Hash (ModEq x m r) = hashNumConstraint 9 x empty_path [m, r]"
| "num_Hash (LeLenOf x a off) = hashNumConstraint 10 x a [off]"
| "num_Hash (LenGeConst a c) = hashNumConstraint 11 a empty_path [c]"
| "num_Hash (LenEqConst a c) = hashNumConstraint 12 a empty_path [c]"

fun num_Equals :: "NumericConstraint \<Rightarrow> NumericConstraint \<Rightarrow> bool" where
  "num_Equals (Le x y c) n = (case n of Le x2 y2 c2 \<Rightarrow> path_Equal x x2 \<and> path_Equal y y2 \<and> c = c2 | _ \<Rightarrow> False)"
| "num_Equals (Lt x y) n = (case n of Lt x2 y2 \<Rightarrow> path_Equal x x2 \<and> path_Equal y y2 | _ \<Rightarrow> False)"
| "num_Equals (Ge x y) n = (case n of Ge x2 y2 \<Rightarrow> path_Equal x x2 \<and> path_Equal y y2 | _ \<Rightarrow> False)"
| "num_Equals (Gt x y) n = (case n of Gt x2 y2 \<Rightarrow> path_Equal x x2 \<and> path_Equal y y2 | _ \<Rightarrow> False)"
| "num_Equals (Eq x y) n = (case n of Eq x2 y2 \<Rightarrow> path_Equal x x2 \<and> path_Equal y y2 | _ \<Rightarrow> False)"
| "num_Equals (EqConst x c) n = (case n of EqConst x2 c2 \<Rightarrow> path_Equal x x2 \<and> c = c2 | _ \<Rightarrow> False)"
| "num_Equals (LeConst x c) n = (case n of LeConst x2 c2 \<Rightarrow> path_Equal x x2 \<and> c = c2 | _ \<Rightarrow> False)"
| "num_Equals (GeConst x c) n = (case n of GeConst x2 c2 \<Rightarrow> path_Equal x x2 \<and> c = c2 | _ \<Rightarrow> False)"
| "num_Equals (ModEq x m r) n = (case n of ModEq x2 m2 r2 \<Rightarrow> path_Equal x x2 \<and> m = m2 \<and> r = r2 | _ \<Rightarrow> False)"
| "num_Equals (LeLenOf x a off) n =
     (case n of LeLenOf x2 a2 off2 \<Rightarrow> path_Equal x x2 \<and> path_Equal a a2 \<and> off = off2 | _ \<Rightarrow> False)"
| "num_Equals (LenGeConst a c) n = (case n of LenGeConst a2 c2 \<Rightarrow> path_Equal a a2 \<and> c = c2 | _ \<Rightarrow> False)"
| "num_Equals (LenEqConst a c) n = (case n of LenEqConst a2 c2 \<Rightarrow> path_Equal a a2 \<and> c = c2 | _ \<Rightarrow> False)"

section \<open>Terms and atoms\<close>

type_synonym PathKey = string

datatype TermKind = TermKindInvalid | TermKindVar | TermKindLen | TermKindConst | TermKindNil

fun term_kind_ord :: "TermKind \<Rightarrow> nat" where
  "term_kind_ord TermKindInvalid = 0"
| "term_kind_ord TermKindVar = 1"
| "term_kind_ord TermKindLen = 2"
| "term_kind_ord TermKindConst = 3"
| "term_kind_ord TermKindNil = 4"

record Term =
  TKind :: TermKind
  TPath :: PathKey
  TConst :: int

definition TermZero :: Term where "TermZero = \<lparr>TKind = TermKindInvalid, TPath = [], TConst = 0\<rparr>"
definition TermVar :: "PathKey \<Rightarrow> Term" where "TermVar key = \<lparr>TKind = TermKindVar, TPath = key, TConst = 0\<rparr>"
definition TermLen :: "PathKey \<Rightarrow> Term" where "TermLen key = \<lparr>TKind = TermKindLen, TPath = key, TConst = 0\<rparr>"
definition TermConst :: "int \<Rightarrow> Term" where "TermConst c = \<lparr>TKind = TermKindConst, TPath = [], TConst = c\<rparr>"
definition TermNil :: Term where "TermNil = \<lparr>TKind = TermKindNil, TPath = [], TConst = 0\<rparr>"

definition IsVar :: "Term \<Rightarrow> bool" where "IsVar t \<longleftrightarrow> TKind t = TermKindVar"
definition IsLen :: "Term \<Rightarrow> bool" where "IsLen t \<longleftrightarrow> TKind t = TermKindLen"
definition IsConst :: "Term \<Rightarrow> bool" where "IsConst t \<longleftrightarrow> TKind t = TermKindConst"
definition IsNilTerm :: "Term \<Rightarrow> bool" where "IsNilTerm t \<longleftrightarrow> TKind t = TermKindNil"

definition term_Hash :: "Term \<Rightarrow> u64" where
  "term_Hash t =
     (let h = of_nat (term_kind_ord (TKind t)) in
      if TKind t = TermKindVar \<or> TKind t = TermKindLen then HashCombine h (FnvString (str_bytes (TPath t)))
      else if TKind t = TermKindConst then HashCombine h (word_of_int (TConst t)) else h)"

definition term_Equal :: "Term \<Rightarrow> Term \<Rightarrow> bool" where
  "term_Equal t other =
     (if TKind t \<noteq> TKind other then False
      else case TKind t of
        TermKindVar \<Rightarrow> TPath t = TPath other
      | TermKindLen \<Rightarrow> TPath t = TPath other
      | TermKindConst \<Rightarrow> TConst t = TConst other
      | TermKindNil \<Rightarrow> True
      | TermKindInvalid \<Rightarrow> False)"

definition term_String :: "Term \<Rightarrow> string" where
  "term_String t =
     (case TKind t of
        TermKindVar \<Rightarrow> TPath t
      | TermKindLen \<Rightarrow> ''len('' @ TPath t @ '')''
      | TermKindConst \<Rightarrow> Itoa (TConst t)
      | TermKindNil \<Rightarrow> ''nil''
      | TermKindInvalid \<Rightarrow> ''<invalid>'')"

definition term_Paths :: "Term \<Rightarrow> PathKey list" where
  "term_Paths t = (if TKind t = TermKindVar \<or> TKind t = TermKindLen then [TPath t] else [])"

datatype AtomKind = AtomKindInvalid | AtomKindEq | AtomKindNe | AtomKindLt | AtomKindLe | AtomKindGt
  | AtomKindGe | AtomKindHasType | AtomKindNotHasType | AtomKindTruthy | AtomKindFalsy | AtomKindModEq

fun atom_kind_ord :: "AtomKind \<Rightarrow> nat" where
  "atom_kind_ord AtomKindInvalid = 0"
| "atom_kind_ord AtomKindEq = 1"
| "atom_kind_ord AtomKindNe = 2"
| "atom_kind_ord AtomKindLt = 3"
| "atom_kind_ord AtomKindLe = 4"
| "atom_kind_ord AtomKindGt = 5"
| "atom_kind_ord AtomKindGe = 6"
| "atom_kind_ord AtomKindHasType = 7"
| "atom_kind_ord AtomKindNotHasType = 8"
| "atom_kind_ord AtomKindTruthy = 9"
| "atom_kind_ord AtomKindFalsy = 10"
| "atom_kind_ord AtomKindModEq = 11"

record Atom =
  AKind :: AtomKind
  ALeft :: Term
  ARight :: Term
  ATypeKey :: TypeKey
  AMod :: int
  ARem :: int

definition binary_atom :: "AtomKind \<Rightarrow> Term \<Rightarrow> Term \<Rightarrow> Atom" where
  "binary_atom k left right = \<lparr>AKind = k, ALeft = left, ARight = right, ATypeKey = zero_type_key, AMod = 0, ARem = 0\<rparr>"

definition AtomEq :: "Term \<Rightarrow> Term \<Rightarrow> Atom" where "AtomEq = binary_atom AtomKindEq"
definition AtomNe :: "Term \<Rightarrow> Term \<Rightarrow> Atom" where "AtomNe = binary_atom AtomKindNe"
definition AtomLt :: "Term \<Rightarrow> Term \<Rightarrow> Atom" where "AtomLt = binary_atom AtomKindLt"
definition AtomLe :: "Term \<Rightarrow> Term \<Rightarrow> Atom" where "AtomLe = binary_atom AtomKindLe"
definition AtomGt :: "Term \<Rightarrow> Term \<Rightarrow> Atom" where "AtomGt = binary_atom AtomKindGt"
definition AtomGe :: "Term \<Rightarrow> Term \<Rightarrow> Atom" where "AtomGe = binary_atom AtomKindGe"

definition AtomHasType :: "Term \<Rightarrow> TypeKey \<Rightarrow> Atom" where
  "AtomHasType t key = (binary_atom AtomKindHasType t TermZero)\<lparr>ATypeKey := key\<rparr>"
definition AtomNotHasType :: "Term \<Rightarrow> TypeKey \<Rightarrow> Atom" where
  "AtomNotHasType t key = (binary_atom AtomKindNotHasType t TermZero)\<lparr>ATypeKey := key\<rparr>"
definition AtomTruthy :: "Term \<Rightarrow> Atom" where "AtomTruthy t = binary_atom AtomKindTruthy t TermZero"
definition AtomFalsy :: "Term \<Rightarrow> Atom" where "AtomFalsy t = binary_atom AtomKindFalsy t TermZero"
definition AtomModEq :: "Term \<Rightarrow> int \<Rightarrow> int \<Rightarrow> Atom" where
  "AtomModEq t m r = (binary_atom AtomKindModEq t TermZero)\<lparr>AMod := m, ARem := r\<rparr>"

abbreviation is_relation :: "AtomKind \<Rightarrow> bool" where
  "is_relation k \<equiv> k \<in> {AtomKindEq, AtomKindNe, AtomKindLt, AtomKindLe, AtomKindGt, AtomKindGe}"

definition atom_Hash :: "Atom \<Rightarrow> u64" where
  "atom_Hash a =
     (let h = HashCombine (of_nat (atom_kind_ord (AKind a))) (term_Hash (ALeft a)) in
      if is_relation (AKind a) then HashCombine h (term_Hash (ARight a))
      else if AKind a = AtomKindHasType \<or> AKind a = AtomKindNotHasType then HashCombine h (Hash64 (ATypeKey a))
      else if AKind a = AtomKindModEq then HashCombine (HashCombine h (word_of_int (AMod a))) (word_of_int (ARem a))
      else h)"

definition atom_Equal :: "Atom \<Rightarrow> Atom \<Rightarrow> bool" where
  "atom_Equal a other =
     (if AKind a \<noteq> AKind other then False
      else if \<not> term_Equal (ALeft a) (ALeft other) then False
      else if is_relation (AKind a) then term_Equal (ARight a) (ARight other)
      else if AKind a = AtomKindHasType \<or> AKind a = AtomKindNotHasType then tk_Equal (ATypeKey a) (ATypeKey other)
      else if AKind a = AtomKindModEq then AMod a = AMod other \<and> ARem a = ARem other
      else AKind a = AtomKindTruthy \<or> AKind a = AtomKindFalsy)"

definition atom_Paths :: "Atom \<Rightarrow> PathKey list" where
  "atom_Paths a = term_Paths (ALeft a) @ term_Paths (ARight a)"

section \<open>Conversion\<close>

fun TypeConstraintToAtomWithResolver :: "'ty Constraint \<Rightarrow> (Path \<Rightarrow> PathKey) \<Rightarrow> Atom option" where
  "TypeConstraintToAtomWithResolver c resolve =
     (case c of
        Truthy p \<Rightarrow> Some (AtomTruthy (TermVar (resolve p)))
      | Falsy p \<Rightarrow> Some (AtomFalsy (TermVar (resolve p)))
      | IsNil p \<Rightarrow> Some (AtomEq (TermVar (resolve p)) TermNil)
      | NotNil p \<Rightarrow> Some (AtomNe (TermVar (resolve p)) TermNil)
      | HasType p k \<Rightarrow> Some (AtomHasType (TermVar (resolve p)) k)
      | NotHasType p k \<Rightarrow> Some (AtomNotHasType (TermVar (resolve p)) k)
      | EqPath l r \<Rightarrow> Some (AtomEq (TermVar (resolve l)) (TermVar (resolve r)))
      | NotEqPath l r \<Rightarrow> Some (AtomNe (TermVar (resolve l)) (TermVar (resolve r)))
      | _ \<Rightarrow> None)"

fun TypeConstraintToAtom :: "'ty Constraint \<Rightarrow> Atom option" where
  "TypeConstraintToAtom c =
     (case c of
        Truthy p \<Rightarrow> Some (AtomTruthy (TermVar (path_Key p)))
      | Falsy p \<Rightarrow> Some (AtomFalsy (TermVar (path_Key p)))
      | IsNil p \<Rightarrow> Some (AtomEq (TermVar (path_Key p)) TermNil)
      | NotNil p \<Rightarrow> Some (AtomNe (TermVar (path_Key p)) TermNil)
      | HasType p k \<Rightarrow> Some (AtomHasType (TermVar (path_Key p)) k)
      | NotHasType p k \<Rightarrow> Some (AtomNotHasType (TermVar (path_Key p)) k)
      | EqPath l r \<Rightarrow> Some (AtomEq (TermVar (path_Key l)) (TermVar (path_Key r)))
      | NotEqPath l r \<Rightarrow> Some (AtomNe (TermVar (path_Key l)) (TermVar (path_Key r)))
      | _ \<Rightarrow> None)"

fun NumericConstraintToAtom :: "NumericConstraint \<Rightarrow> Atom option" where
  "NumericConstraintToAtom (Lt x y) = Some (AtomLt (TermVar (path_Key x)) (TermVar (path_Key y)))"
| "NumericConstraintToAtom (Le x y c) =
     (if c = 0 then Some (AtomLe (TermVar (path_Key x)) (TermVar (path_Key y))) else None)"
| "NumericConstraintToAtom (Gt x y) = Some (AtomGt (TermVar (path_Key x)) (TermVar (path_Key y)))"
| "NumericConstraintToAtom (Ge x y) = Some (AtomGe (TermVar (path_Key x)) (TermVar (path_Key y)))"
| "NumericConstraintToAtom (Eq x y) = Some (AtomEq (TermVar (path_Key x)) (TermVar (path_Key y)))"
| "NumericConstraintToAtom (EqConst x c) = Some (AtomEq (TermVar (path_Key x)) (TermConst c))"
| "NumericConstraintToAtom (LeConst x c) = Some (AtomLe (TermVar (path_Key x)) (TermConst c))"
| "NumericConstraintToAtom (GeConst x c) = Some (AtomGe (TermVar (path_Key x)) (TermConst c))"
| "NumericConstraintToAtom (ModEq x m r) = Some (AtomModEq (TermVar (path_Key x)) m r)"
| "NumericConstraintToAtom (LeLenOf x a off) = Some (AtomLe (TermVar (path_Key x)) (TermLen (path_Key a)))"
| "NumericConstraintToAtom (LenGeConst a c) = None"
| "NumericConstraintToAtom (LenEqConst a c) = None"

record 'ty AtomResult =
  AtomList :: "Atom list"
  Leftover :: "'ty Constraint list"

definition add_atom :: "('ty Constraint \<Rightarrow> Atom option) \<Rightarrow> 'ty AtomResult \<Rightarrow> 'ty Constraint \<Rightarrow> 'ty AtomResult" where
  "add_atom convert result c =
     (case convert c of
        Some a \<Rightarrow> result\<lparr>AtomList := AtomList result @ [a]\<rparr>
      | None \<Rightarrow> result\<lparr>Leftover := Leftover result @ [c]\<rparr>)"

definition ToAtoms :: "'ty Constraint list \<Rightarrow> 'ty AtomResult" where
  "ToAtoms constraints = foldl (add_atom TypeConstraintToAtom) \<lparr>AtomList = [], Leftover = []\<rparr> constraints"

definition ToAtomsWithResolver :: "'ty Constraint list \<Rightarrow> (Path \<Rightarrow> PathKey) option \<Rightarrow> 'ty AtomResult" where
  "ToAtomsWithResolver constraints resolver =
     (case resolver of
        None \<Rightarrow> ToAtoms constraints
      | Some resolve \<Rightarrow> foldl (add_atom (\<lambda>c. TypeConstraintToAtomWithResolver c resolve))
          \<lparr>AtomList = [], Leftover = []\<rparr> constraints)"

section \<open>Equality and hashes\<close>

lemma hashNumConstraint_Equal:
  "path_Equal a a2 \<Longrightarrow> path_Equal b b2 \<Longrightarrow> hashNumConstraint k a b extra = hashNumConstraint k a2 b2 extra"
  using path_Equal_Hash [of a a2] path_Equal_Hash [of b b2] path_Equal_IsEmpty [of b b2]
  by (simp add: hashNumConstraint_def Let_def)

lemma num_Equals_Hash: "num_Equals c d \<Longrightarrow> num_Hash c = num_Hash d"
  by (cases c) (auto simp: hashNumConstraint_Equal split: NumericConstraint.splits)

lemma num_Equals_kind: "num_Equals c d \<Longrightarrow> NumKind c = NumKind d"
  by (cases c) (auto split: NumericConstraint.splits)

lemma num_Equals_refl: "num_Equals c c"
  by (cases c) auto

lemma num_Equals_sym: "num_Equals c d \<Longrightarrow> num_Equals d c"
  by (cases c) (auto simp: path_Equal_sym split: NumericConstraint.splits)

lemma term_Equal_Hash: "term_Equal t u \<Longrightarrow> term_Hash t = term_Hash u"
  by (auto simp: term_Equal_def term_Hash_def split: if_splits TermKind.splits)

lemma atom_Equal_Hash: "atom_Equal a b \<Longrightarrow> atom_Hash a = atom_Hash b"
  using term_Equal_Hash [of "ALeft a" "ALeft b"] term_Equal_Hash [of "ARight a" "ARight b"]
  by (cases "AKind b") (simp_all add: atom_Equal_def atom_Hash_def split: if_splits)

section \<open>Meaning\<close>

text \<open>
  A numeric constraint is about the integers of its paths and the lengths of its tables, which are
  known by their keys. An atom about types is about the values of its keys in a world.
\<close>

fun num_holds :: "(Path \<Rightarrow> PathKey) \<Rightarrow> (PathKey \<Rightarrow> int) \<Rightarrow> (PathKey \<Rightarrow> int) \<Rightarrow> NumericConstraint \<Rightarrow> bool" where
  "num_holds key val len (Le x y c) = (val (key x) - val (key y) \<le> c)"
| "num_holds key val len (Lt x y) = (val (key x) < val (key y))"
| "num_holds key val len (Ge x y) = (val (key x) \<ge> val (key y))"
| "num_holds key val len (Gt x y) = (val (key x) > val (key y))"
| "num_holds key val len (Eq x y) = (val (key x) = val (key y))"
| "num_holds key val len (EqConst x c) = (val (key x) = c)"
| "num_holds key val len (LeConst x c) = (val (key x) \<le> c)"
| "num_holds key val len (GeConst x c) = (val (key x) \<ge> c)"
| "num_holds key val len (ModEq x m r) = (val (key x) mod m = r)"
| "num_holds key val len (LeLenOf x a off) = (val (key x) \<le> len (key a) + off)"
| "num_holds key val len (LenGeConst a c) = (len (key a) \<ge> c)"
| "num_holds key val len (LenEqConst a c) = (len (key a) = c)"

definition term_num :: "(PathKey \<Rightarrow> int) \<Rightarrow> (PathKey \<Rightarrow> int) \<Rightarrow> Term \<Rightarrow> int" where
  "term_num val len t =
     (if IsVar t then val (TPath t) else if IsLen t then len (TPath t) else TConst t)"

definition atom_num :: "(PathKey \<Rightarrow> int) \<Rightarrow> (PathKey \<Rightarrow> int) \<Rightarrow> Atom \<Rightarrow> bool" where
  "atom_num val len a =
     (let l = term_num val len (ALeft a); r = term_num val len (ARight a) in
      case AKind a of
        AtomKindEq \<Rightarrow> l = r
      | AtomKindNe \<Rightarrow> l \<noteq> r
      | AtomKindLt \<Rightarrow> l < r
      | AtomKindLe \<Rightarrow> l \<le> r
      | AtomKindGt \<Rightarrow> l > r
      | AtomKindGe \<Rightarrow> l \<ge> r
      | AtomKindModEq \<Rightarrow> l mod AMod a = ARem a
      | _ \<Rightarrow> False)"

definition term_world :: "('v, 'ty) world \<Rightarrow> (PathKey \<Rightarrow> 'v) \<Rightarrow> Term \<Rightarrow> 'v" where
  "term_world w kv t = (if IsVar t then kv (TPath t) else w_nil w)"

definition atom_world :: "('v, 'ty) world \<Rightarrow> (PathKey \<Rightarrow> 'v) \<Rightarrow> Atom \<Rightarrow> bool" where
  "atom_world w kv a =
     (let l = term_world w kv (ALeft a); r = term_world w kv (ARight a) in
      case AKind a of
        AtomKindEq \<Rightarrow> l = r
      | AtomKindNe \<Rightarrow> l \<noteq> r
      | AtomKindTruthy \<Rightarrow> is_truthy w l
      | AtomKindFalsy \<Rightarrow> \<not> is_truthy w l
      | AtomKindHasType \<Rightarrow> w_has_type w l (ATypeKey a)
      | AtomKindNotHasType \<Rightarrow> \<not> w_has_type w l (ATypeKey a)
      | _ \<Rightarrow> False)"

lemmas atom_defs = AtomEq_def AtomNe_def AtomLt_def AtomLe_def AtomGt_def AtomGe_def AtomHasType_def
  AtomNotHasType_def AtomTruthy_def AtomFalsy_def AtomModEq_def binary_atom_def TermVar_def TermLen_def
  TermConst_def TermNil_def TermZero_def IsVar_def IsLen_def IsConst_def

lemma num_holds_Equals:
  assumes "num_Equals c d" "\<And>p q. path_Equal p q \<Longrightarrow> key p = key q"
  shows "num_holds key val len c = num_holds key val len d"
  using assms(1)
  by (cases c; cases d) (simp_all, (metis assms(2))+)

lemma numeric_atom_exact:
  assumes "NumericConstraintToAtom c = Some a" "\<And>x arr off. c = LeLenOf x arr off \<Longrightarrow> off = 0"
  shows "atom_num val len a \<longleftrightarrow> num_holds path_Key val len c"
  using assms by (cases c) (auto simp: atom_num_def term_num_def atom_defs split: if_splits)

lemma type_atom_exact:
  assumes "TypeConstraintToAtomWithResolver c resolve = Some a"
    "\<forall>p\<in>set (constraint_Paths c). kv (resolve p) = path_value w p"
  shows "atom_world w kv a \<longleftrightarrow> holds w c"
proof -
  have var: "atom_world w kv (AtomTruthy (TermVar k)) = is_truthy w (kv k)"
    "atom_world w kv (AtomFalsy (TermVar k)) = (\<not> is_truthy w (kv k))"
    "atom_world w kv (AtomEq (TermVar k) TermNil) = (kv k = w_nil w)"
    "atom_world w kv (AtomNe (TermVar k) TermNil) = (kv k \<noteq> w_nil w)"
    "atom_world w kv (AtomEq (TermVar k) (TermVar l)) = (kv k = kv l)"
    "atom_world w kv (AtomNe (TermVar k) (TermVar l)) = (kv k \<noteq> kv l)"
    "atom_world w kv (AtomHasType (TermVar k) t) = w_has_type w (kv k) t"
    "atom_world w kv (AtomNotHasType (TermVar k) t) = (\<not> w_has_type w (kv k) t)" for k l t
    by (simp_all add: atom_world_def term_world_def atom_defs)
  show ?thesis using assms by (cases c; clarsimp simp: var)
qed

lemma TypeConstraintToAtom_key: "TypeConstraintToAtom c = TypeConstraintToAtomWithResolver c path_Key"
  by (cases c) simp_all

lemma add_atoms_meaning:
  assumes "\<And>c a. c \<in> set cs \<Longrightarrow> convert c = Some a \<Longrightarrow> atom_world w kv a \<longleftrightarrow> holds w c"
  shows "(\<forall>a\<in>set (AtomList (foldl (add_atom convert) r cs)). atom_world w kv a)
      \<and> (\<forall>c\<in>set (Leftover (foldl (add_atom convert) r cs)). holds w c)
    \<longleftrightarrow> (\<forall>a\<in>set (AtomList r). atom_world w kv a) \<and> (\<forall>c\<in>set (Leftover r). holds w c) \<and> (\<forall>c\<in>set cs. holds w c)"
  using assms
proof (induction cs arbitrary: r)
  case (Cons c cs)
  have "(\<forall>a\<in>set (AtomList (add_atom convert r c)). atom_world w kv a) \<and> (\<forall>c\<in>set (Leftover (add_atom convert r c)). holds w c)
      \<longleftrightarrow> (\<forall>a\<in>set (AtomList r). atom_world w kv a) \<and> (\<forall>c\<in>set (Leftover r). holds w c) \<and> holds w c"
    using Cons.prems [of c] by (cases "convert c") (auto simp: add_atom_def)
  then show ?case using Cons.IH [of "add_atom convert r c"] Cons.prems by simp blast
qed simp

text \<open>The offset of a length bound is not part of the atom.\<close>

lemma length_offset_dropped:
  "\<exists>val len x arr a. num_holds path_Key val len (LeLenOf x arr 1)
     \<and> NumericConstraintToAtom (LeLenOf x arr 1) = Some a \<and> \<not> atom_num val len a"
proof -
  let ?x = "NewPath 1 ''i''" and ?a = "NewPath 2 ''t''"
  have "path_Key ?x \<noteq> path_Key ?a" by code_simp
  then show ?thesis
    by (intro exI [of _ "\<lambda>k. if k = path_Key ?x then 1 else 0"] exI [of _ "\<lambda>_. 0"] exI [of _ ?x] exI [of _ ?a])
      (simp add: atom_num_def term_num_def atom_defs)
qed

text \<open>The constraints for which there is an atom.\<close>

fun is_atomic :: "'ty Constraint \<Rightarrow> bool" where
  "is_atomic (Truthy p) = True"
| "is_atomic (Falsy p) = True"
| "is_atomic (IsNil p) = True"
| "is_atomic (NotNil p) = True"
| "is_atomic (HasType p k) = True"
| "is_atomic (NotHasType p k) = True"
| "is_atomic (EqPath l r) = True"
| "is_atomic (NotEqPath l r) = True"
| "is_atomic _ = False"

lemma add_atoms_split:
  assumes "\<And>c. convert c = None \<longleftrightarrow> \<not> is_atomic c"
  shows "Leftover (foldl (add_atom convert) r cs) = Leftover r @ filter (\<lambda>c. \<not> is_atomic c) cs
    \<and> length (AtomList (foldl (add_atom convert) r cs)) = length (AtomList r) + length (filter is_atomic cs)"
proof (induction cs arbitrary: r)
  case (Cons c cs)
  then show ?case using assms [of c] by (cases "convert c") (simp_all add: add_atom_def)
qed simp

lemma type_atom_None: "TypeConstraintToAtomWithResolver c resolve = None \<longleftrightarrow> \<not> is_atomic c"
  by (cases c) simp_all

definition resolver_key :: "(Path \<Rightarrow> PathKey) option \<Rightarrow> Path \<Rightarrow> PathKey" where
  "resolver_key resolver p = (case resolver of None \<Rightarrow> path_Key p | Some resolve \<Rightarrow> resolve p)"

lemma ToAtomsWithResolver_key:
  "ToAtomsWithResolver cs resolver =
     foldl (add_atom (\<lambda>c. TypeConstraintToAtomWithResolver c (resolver_key resolver))) \<lparr>AtomList = [], Leftover = []\<rparr> cs"
proof (cases resolver)
  case None
  then have "(\<lambda>c. TypeConstraintToAtomWithResolver c (resolver_key resolver)) = (TypeConstraintToAtom :: 'a Constraint \<Rightarrow> Atom option)"
    by (intro ext) (simp add: resolver_key_def split: Constraint.splits)
  then show ?thesis using None by (simp add: ToAtomsWithResolver_def ToAtoms_def del: TypeConstraintToAtomWithResolver.simps TypeConstraintToAtom.simps)
next
  case (Some resolve)
  then have "resolver_key resolver = resolve" by (intro ext) (simp add: resolver_key_def)
  then show ?thesis using Some by (simp add: ToAtomsWithResolver_def del: TypeConstraintToAtomWithResolver.simps)
qed

text \<open>
  C38: Splitting type constraints into atoms and a rest keeps their meaning, with a resolver and with the paths'
  own keys: all constraints hold in a world exactly when all atoms and the rest do, when the keys stand
  for the values of the paths. The rest is exactly the constraints for which there is no atom. A numeric
  constraint that becomes an atom means what the atom means, for every assignment of integers and
  lengths to keys; a bound by a length must have no offset, since the atom has none. Constraints that
  are \<open>Equals\<close> have the same hash, as have atoms that are \<open>Equal\<close>.
\<close>

theorem atoms_exact:
  assumes "\<And>p. p \<in> \<Union> (set ` constraint_Paths ` set cs) \<Longrightarrow>
      kv (case resolver of None \<Rightarrow> path_Key p | Some resolve \<Rightarrow> resolve p) = path_value w p"
    and "NumericConstraintToAtom n = Some a" "\<And>x arr off. n = LeLenOf x arr off \<Longrightarrow> off = 0"
  shows "(let result = ToAtomsWithResolver cs resolver in
      ((\<forall>a\<in>set (AtomList result). atom_world w kv a) \<and> (\<forall>c\<in>set (Leftover result). holds w c) \<longleftrightarrow> conj_holds w cs)
      \<and> Leftover result = filter (\<lambda>c. \<not> is_atomic c) cs \<and> length (AtomList result) = length (filter is_atomic cs))
    \<and> ToAtomsWithResolver cs None = ToAtoms cs
    \<and> (atom_num val len a \<longleftrightarrow> num_holds path_Key val len n)
    \<and> (num_Equals n n' \<longrightarrow> num_Hash n = num_Hash n') \<and> (atom_Equal a a' \<longrightarrow> atom_Hash a = atom_Hash a')"
proof -
  let ?key = "resolver_key resolver" and ?r = "ToAtomsWithResolver cs resolver"
  have kv: "\<forall>p\<in>set (constraint_Paths c). kv (?key p) = path_value w p" if "c \<in> set cs" for c
    unfolding resolver_key_def using assms(1) that by blast
  have "(\<forall>a\<in>set (AtomList ?r). atom_world w kv a) \<and> (\<forall>c\<in>set (Leftover ?r). holds w c) \<longleftrightarrow> conj_holds w cs"
    using add_atoms_meaning [of cs "\<lambda>c. TypeConstraintToAtomWithResolver c ?key" w kv "\<lparr>AtomList = [], Leftover = []\<rparr>"]
      type_atom_exact [of _ ?key _ kv w] kv
    by (simp add: ToAtomsWithResolver_key conj_holds_def del: TypeConstraintToAtomWithResolver.simps)
  moreover have "Leftover ?r = filter (\<lambda>c. \<not> is_atomic c) cs \<and> length (AtomList ?r) = length (filter is_atomic cs)"
    using add_atoms_split [where convert = "\<lambda>c. TypeConstraintToAtomWithResolver c ?key" and r = "\<lparr>AtomList = [], Leftover = []\<rparr>"
        and cs = cs, OF type_atom_None]
    by (simp add: ToAtomsWithResolver_key del: TypeConstraintToAtomWithResolver.simps)
  moreover have "ToAtomsWithResolver cs None = ToAtoms cs" by (simp add: ToAtomsWithResolver_def)
  ultimately show ?thesis
    using numeric_atom_exact [OF assms(2,3)] num_Equals_Hash atom_Equal_Hash by (simp add: Let_def)
qed

text \<open>A world in which the symbols are integers, \<open>nil\<close> is 0 and \<open>false\<close> is 1.\<close>

definition int_world :: "(int, Literal) world" where
  "int_world = \<lparr>w_nil = 0, w_false = 1, w_symbol = (\<lambda>s v. uint s + 1), w_text = (\<lambda>_. 0), w_step = (\<lambda>v _. v),
     w_has_type = (\<lambda>_ _. True), w_has_field = (\<lambda>_ _. True), w_index = (\<lambda>v _. v), w_literal = (\<lambda>_. 0), w_key_of = (\<lambda>_ _. True)\<rparr>"

theorem atoms_exact_witness:
  "(let p = NewPath 1 ''i''; result = ToAtoms [Truthy p, HasField p ''f''] in
     length (AtomList result) = 1 \<and> (\<forall>a\<in>set (AtomList result). atom_world int_world (\<lambda>_. 2) a)
     \<and> (\<forall>c\<in>set (Leftover result). holds int_world c))
   \<and> atom_num (\<lambda>_. 2) (\<lambda>_. 0) (AtomLe (TermVar (path_Key (NewPath 1 ''i''))) (TermConst 3))"
proof -
  let ?p = "NewPath 1 ''i''" and ?n = "LeConst (NewPath 1 ''i'') 3"
  have paths: "kv (case None of None \<Rightarrow> path_Key p | Some resolve \<Rightarrow> resolve p) = path_value int_world p"
    if "p \<in> \<Union> (set ` constraint_Paths ` set [Truthy ?p, HasField ?p ''f''])" "kv = (\<lambda>_. 2)" for p kv
    using that by (auto simp: path_value_def root_value_def int_world_def NewPath_def parent_field_path_def path_Parent_def)
  have "conj_holds int_world [Truthy ?p, HasField ?p ''f'']"
    by (simp add: is_truthy_def path_value_def root_value_def int_world_def NewPath_def)
  moreover have "num_holds path_Key (\<lambda>_. 2) (\<lambda>_. 0) ?n" by simp
  moreover have "ToAtomsWithResolver cs None = ToAtoms cs" for cs :: "Literal Constraint list"
    by (simp add: ToAtomsWithResolver_def)
  ultimately show ?thesis
    using atoms_exact [of "[Truthy ?p, HasField ?p ''f'']" "\<lambda>_. 2" None int_world ?n "AtomLe (TermVar (path_Key ?p)) (TermConst 3)"
        "\<lambda>_. 2" "\<lambda>_. 0" ?n "AtomLe (TermVar (path_Key ?p)) (TermConst 3)", OF paths]
    by (simp add: Let_def)
qed

end
