(* ===== verification/NumericState.thy ===== *)
theory NumericState
  imports Atoms "HOL-Library.AList" "HOL-Library.Product_Lexorder"
begin

text \<open>
  The compact state of the numeric analysis (\<open>types/flow/numeric/state.go\<close>): intervals, residues,
  differences and length facts about versioned path keys. A state stands for the assignments of
  integers and lengths that satisfy its facts. The lemmas show what applying a constraint, merging at a join,
  renaming and the satisfiability check do to this set.

  A Go map is an association list with distinct keys, in any order; a nil map of bounds or residues is
  \<open>None\<close>, since writing to it panics, and the result of the operations that write to one is \<open>None\<close> then.
  The other maps are made when they are first written to. A nil state is \<open>None\<close>.
\<close>

section \<open>Model\<close>

record Interval =
  Lower :: int
  Upper :: int

record ModResidue =
  mr_Modulus :: int
  mr_Residue :: int

record lenRefBound =
  RefArray :: PathKey
  RefOffset :: int

type_synonym relationKey = "PathKey \<times> PathKey"

record State =
  bounds :: "(PathKey \<times> Interval) list option"
  modular :: "(PathKey \<times> ModResidue) list option"
  relations :: "(relationKey \<times> int) list"
  lenRefs :: "(PathKey \<times> lenRefBound) list"
  lengthLower :: "(PathKey \<times> int) list"
  lengthExact :: "(PathKey \<times> int) list"
  unsat :: bool

definition facts :: "'a list option \<Rightarrow> 'a list" where
  "facts m = (case m of None \<Rightarrow> [] | Some xs \<Rightarrow> xs)"

definition SortedPathKeys :: "(PathKey \<times> 'v) list \<Rightarrow> PathKey list" where
  "SortedPathKeys m = sort (map fst m)"

definition sortedRelationKeys :: "(relationKey \<times> int) list \<Rightarrow> relationKey list" where
  "sortedRelationKeys m = sort (map fst m)"

definition minInt64 :: "int \<Rightarrow> int \<Rightarrow> int" where "minInt64 a b = (if a < b then a else b)"
definition maxInt64 :: "int \<Rightarrow> int \<Rightarrow> int" where "maxInt64 a b = (if a > b then a else b)"

definition unboundedInterval :: Interval where
  "unboundedInterval = \<lparr>Lower = MinInt64, Upper = MaxInt64\<rparr>"

definition NewState :: State where
  "NewState = \<lparr>bounds = Some [], modular = Some [], relations = [], lenRefs = [], lengthLower = [], lengthExact = [], unsat = False\<rparr>"

definition Bottom :: State where
  "Bottom = \<lparr>bounds = None, modular = None, relations = [], lenRefs = [], lengthLower = [], lengthExact = [], unsat = True\<rparr>"

definition IsUnsat :: "State option \<Rightarrow> bool" where
  "IsUnsat s = (case s of None \<Rightarrow> False | Some s \<Rightarrow> unsat s)"

definition state_Clone :: "State option \<Rightarrow> State option" where
  "state_Clone s =
     (case s of
        None \<Rightarrow> None
      | Some s \<Rightarrow>
          if unsat s then Some Bottom
          else Some (s\<lparr>bounds := Some (facts (bounds s)), modular := Some (facts (modular s))\<rparr>))"

definition isTop :: "State option \<Rightarrow> bool" where
  "isTop s =
     (case s of
        None \<Rightarrow> True
      | Some s \<Rightarrow> \<not> unsat s \<and> facts (bounds s) = [] \<and> facts (modular s) = [] \<and> relations s = [] \<and> lenRefs s = []
          \<and> lengthLower s = [] \<and> lengthExact s = [])"

subsection \<open>Join\<close>

definition intersectIntervals :: "Interval \<Rightarrow> Interval \<Rightarrow> Interval" where
  "intersectIntervals a b = \<lparr>Lower = maxInt64 (Lower a) (Lower b), Upper = minInt64 (Upper a) (Upper b)\<rparr>"

text \<open>The entries for the keys of \<open>a\<close> that \<open>b\<close> has too, where the values can be merged.\<close>

definition join_facts :: "('v \<Rightarrow> 'v \<Rightarrow> 'v option) \<Rightarrow> 'k list \<Rightarrow> ('k \<times> 'v) list \<Rightarrow> ('k \<times> 'v) list \<Rightarrow> ('k \<times> 'v) list" where
  "join_facts merge ks a b = List.map_filter (\<lambda>k.
     case (map_of a k, map_of b k) of
       (Some x, Some y) \<Rightarrow> map_option (Pair k) (merge x y)
     | _ \<Rightarrow> None) ks"

definition same :: "'v \<Rightarrow> 'v \<Rightarrow> 'v option" where
  "same x y = (if x = y then Some x else None)"

definition Join :: "State option \<Rightarrow> State option \<Rightarrow> State option" where
  "Join a b =
     (case (a, b) of
        (None, _) \<Rightarrow> state_Clone b
      | (Some sa, None) \<Rightarrow> if unsat sa then None else state_Clone a
      | (Some sa, Some sb) \<Rightarrow>
          if unsat sa then state_Clone b
          else if unsat sb then state_Clone a
          else let
            ba = facts (bounds sa); bb = facts (bounds sb);
            merged = join_facts (\<lambda>x y. Some (intersectIntervals x y)) (SortedPathKeys ba) ba bb
          in if \<exists>(_, i) \<in> set merged. Lower i > Upper i then Some Bottom
             else let
               ma = facts (modular sa); mb = facts (modular sb);
               result = \<lparr>bounds = Some (filter (\<lambda>(_, i). i \<noteq> unboundedInterval) merged),
                 modular = Some (join_facts same (SortedPathKeys ma) ma mb),
                 relations = join_facts (\<lambda>x y. Some (maxInt64 x y)) (sortedRelationKeys (relations sa)) (relations sa) (relations sb),
                 lenRefs = join_facts same (SortedPathKeys (lenRefs sa)) (lenRefs sa) (lenRefs sb),
                 lengthLower = join_facts (\<lambda>x y. Some (min x y)) (map fst (lengthLower sa)) (lengthLower sa) (lengthLower sb),
                 lengthExact = join_facts same (map fst (lengthExact sa)) (lengthExact sa) (lengthExact sb),
                 unsat = False\<rparr>
             in if isTop (Some result) then None else Some result)"

subsection \<open>Applying constraints\<close>

definition set_bounds :: "PathKey \<Rightarrow> Interval \<Rightarrow> State \<Rightarrow> State option" where
  "set_bounds v i s = (case bounds s of None \<Rightarrow> None | Some m \<Rightarrow> Some (s\<lparr>bounds := Some (AList.update v i m)\<rparr>))"

definition set_modular :: "PathKey \<Rightarrow> ModResidue \<Rightarrow> State \<Rightarrow> State option" where
  "set_modular v r s = (case modular s of None \<Rightarrow> None | Some m \<Rightarrow> Some (s\<lparr>modular := Some (AList.update v r m)\<rparr>))"

definition tighten_relation :: "relationKey \<Rightarrow> int \<Rightarrow> State \<Rightarrow> State" where
  "tighten_relation key c s =
     (case map_of (relations s) key of
        Some old \<Rightarrow> s\<lparr>relations := AList.update key (minInt64 old c) (relations s)\<rparr>
      | None \<Rightarrow> s\<lparr>relations := AList.update key c (relations s)\<rparr>)"

definition applyLeWithConst :: "PathKey \<Rightarrow> PathKey \<Rightarrow> int \<Rightarrow> State \<Rightarrow> State" where
  "applyLeWithConst x y c s = tighten_relation (x, y) c s"
definition applyLe :: "PathKey \<Rightarrow> PathKey \<Rightarrow> State \<Rightarrow> State" where "applyLe x y s = applyLeWithConst x y 0 s"
definition applyLt :: "PathKey \<Rightarrow> PathKey \<Rightarrow> State \<Rightarrow> State" where "applyLt x y s = tighten_relation (x, y) (- 1) s"
definition applyGe :: "PathKey \<Rightarrow> PathKey \<Rightarrow> State \<Rightarrow> State" where "applyGe x y s = tighten_relation (y, x) 0 s"
definition applyGt :: "PathKey \<Rightarrow> PathKey \<Rightarrow> State \<Rightarrow> State" where "applyGt x y s = tighten_relation (y, x) (- 1) s"
definition applyEq :: "PathKey \<Rightarrow> PathKey \<Rightarrow> State \<Rightarrow> State" where "applyEq x y s = applyLe y x (applyLe x y s)"

definition applyEqConst :: "PathKey \<Rightarrow> int \<Rightarrow> State \<Rightarrow> State option" where
  "applyEqConst v c s = set_bounds v \<lparr>Lower = c, Upper = c\<rparr> s"

definition applyLeConst :: "PathKey \<Rightarrow> int \<Rightarrow> State \<Rightarrow> State option" where
  "applyLeConst v c s =
     (case map_of (facts (bounds s)) v of
        Some b \<Rightarrow>
          let b = b\<lparr>Upper := minInt64 (Upper b) c\<rparr> in
          if Lower b > Upper b then Some (s\<lparr>unsat := True\<rparr>) else set_bounds v b s
      | None \<Rightarrow> set_bounds v \<lparr>Lower = MinInt64, Upper = c\<rparr> s)"

definition applyGeConst :: "PathKey \<Rightarrow> int \<Rightarrow> State \<Rightarrow> State option" where
  "applyGeConst v c s =
     (case map_of (facts (bounds s)) v of
        Some b \<Rightarrow>
          let b = b\<lparr>Lower := maxInt64 (Lower b) c\<rparr> in
          if Lower b > Upper b then Some (s\<lparr>unsat := True\<rparr>) else set_bounds v b s
      | None \<Rightarrow> set_bounds v \<lparr>Lower = c, Upper = MaxInt64\<rparr> s)"

definition applyModEq :: "PathKey \<Rightarrow> int \<Rightarrow> int \<Rightarrow> State \<Rightarrow> State option" where
  "applyModEq v m r s =
     (case map_of (facts (modular s)) v of
        Some existing \<Rightarrow> Some (if mr_Modulus existing \<noteq> m \<or> mr_Residue existing \<noteq> r then s\<lparr>unsat := True\<rparr> else s)
      | None \<Rightarrow> set_modular v \<lparr>mr_Modulus = m, mr_Residue = r\<rparr> s)"

definition applyLeLenOf :: "PathKey \<Rightarrow> PathKey \<Rightarrow> int \<Rightarrow> State \<Rightarrow> State" where
  "applyLeLenOf v arr offset s = s\<lparr>lenRefs := AList.update v \<lparr>RefArray = arr, RefOffset = offset\<rparr> (lenRefs s)\<rparr>"

definition applyLenGeConst :: "PathKey \<Rightarrow> int \<Rightarrow> State \<Rightarrow> State" where
  "applyLenGeConst key c s =
     (if c > (case map_of (lengthLower s) key of Some old \<Rightarrow> old | None \<Rightarrow> 0)
      then s\<lparr>lengthLower := AList.update key c (lengthLower s)\<rparr> else s)"

text \<open>A path that the resolver does not know has the empty key, and its constraint is skipped.\<close>

fun ApplyConstraintWithResolver :: "NumericConstraint \<Rightarrow> (Path \<Rightarrow> PathKey) option \<Rightarrow> State \<Rightarrow> State option" where
  "ApplyConstraintWithResolver c resolver s =
     (case resolver of
        None \<Rightarrow> Some s
      | Some resolve \<Rightarrow>
          if unsat s then Some s
          else if \<exists>p\<in>set (num_Paths c). resolve p = [] then Some s
          else case c of
            Le x y c \<Rightarrow> Some (applyLeWithConst (resolve x) (resolve y) c s)
          | Lt x y \<Rightarrow> Some (applyLt (resolve x) (resolve y) s)
          | Ge x y \<Rightarrow> Some (applyGe (resolve x) (resolve y) s)
          | Gt x y \<Rightarrow> Some (applyGt (resolve x) (resolve y) s)
          | Eq x y \<Rightarrow> Some (applyEq (resolve x) (resolve y) s)
          | EqConst x c \<Rightarrow> applyEqConst (resolve x) c s
          | LeConst x c \<Rightarrow> applyLeConst (resolve x) c s
          | GeConst x c \<Rightarrow> applyGeConst (resolve x) c s
          | ModEq x m r \<Rightarrow> applyModEq (resolve x) m r s
          | LeLenOf x a off \<Rightarrow> Some (applyLeLenOf (resolve x) (resolve a) off s)
          | LenGeConst a c \<Rightarrow> Some (applyLenGeConst (resolve a) c s)
          | LenEqConst a c \<Rightarrow> Some (s\<lparr>lengthExact := AList.update (resolve a) c (lengthExact s)\<rparr>))"

subsection \<open>Queries\<close>

definition BoundsFor :: "State option \<Rightarrow> PathKey \<Rightarrow> (int \<times> int) option" where
  "BoundsFor s key =
     (case s of
        None \<Rightarrow> None
      | Some s \<Rightarrow> map_option (\<lambda>i. (Lower i, Upper i)) (map_of (facts (bounds s)) key))"

definition LengthLowerBoundFor :: "State option \<Rightarrow> PathKey \<Rightarrow> int option" where
  "LengthLowerBoundFor s key = (case s of None \<Rightarrow> None | Some s \<Rightarrow> map_of (lengthLower s) key)"

definition LengthExactFor :: "State option \<Rightarrow> PathKey \<Rightarrow> int option" where
  "LengthExactFor s key = (case s of None \<Rightarrow> None | Some s \<Rightarrow> map_of (lengthExact s) key)"

definition ClearExactLengths :: "State option \<Rightarrow> State option" where
  "ClearExactLengths s = map_option (\<lambda>s. s\<lparr>lengthExact := []\<rparr>) s"

definition LenRefFor :: "State option \<Rightarrow> PathKey \<Rightarrow> PathKey option" where
  "LenRefFor s key = (case s of None \<Rightarrow> None | Some s \<Rightarrow> map_option RefArray (map_of (lenRefs s) key))"

definition LenRefWithOffsetFor :: "State option \<Rightarrow> PathKey \<Rightarrow> (PathKey \<times> int) option" where
  "LenRefWithOffsetFor s key =
     (case s of None \<Rightarrow> None | Some s \<Rightarrow> map_option (\<lambda>r. (RefArray r, RefOffset r)) (map_of (lenRefs s) key))"

definition SetUnsat :: "State \<Rightarrow> State" where "SetUnsat s = s\<lparr>unsat := True\<rparr>"

definition Relations :: "State option \<Rightarrow> (PathKey \<times> (PathKey \<times> int) list) list" where
  "Relations s =
     (case s of
        None \<Rightarrow> []
      | Some s \<Rightarrow> foldl (\<lambda>result rel.
          let inner = (case map_of result (fst rel) of None \<Rightarrow> [] | Some m \<Rightarrow> m)
          in AList.update (fst rel) (AList.update (snd rel) (the (map_of (relations s) rel)) inner) result)
          [] (sortedRelationKeys (relations s)))"

subsection \<open>Satisfiability\<close>

definition relax_edge :: "(relationKey \<times> int) list \<Rightarrow> (PathKey \<Rightarrow> int) \<times> bool \<Rightarrow> relationKey \<Rightarrow> (PathKey \<Rightarrow> int) \<times> bool" where
  "relax_edge rels st k =
     (case st of (distance, changed) \<Rightarrow>
        let w = the (map_of rels k) in
        if wrap64 (distance (snd k) + w) < distance (fst k) then (distance(fst k := wrap64 (distance (snd k) + w)), True)
        else (distance, changed))"

fun relax_rounds :: "(relationKey \<times> int) list \<Rightarrow> nat \<Rightarrow> (PathKey \<Rightarrow> int) \<Rightarrow> PathKey \<Rightarrow> int" where
  "relax_rounds rels 0 distance = distance"
| "relax_rounds rels (Suc n) distance =
     (case foldl (relax_edge rels) (distance, False) (sortedRelationKeys rels) of
        (distance, changed) \<Rightarrow> if changed then relax_rounds rels n distance else distance)"

definition relation_vars :: "(relationKey \<times> int) list \<Rightarrow> PathKey list" where
  "relation_vars rels = remdups (concat (map (\<lambda>k. [fst k, snd k]) (sortedRelationKeys rels)))"

definition checkDifferenceConstraints :: "(relationKey \<times> int) list \<Rightarrow> bool" where
  "checkDifferenceConstraints rels =
     (if rels = [] then True
      else let distance = relax_rounds rels (length (relation_vars rels)) (\<lambda>_. 0)
        in \<not> (\<exists>k\<in>set (sortedRelationKeys rels). wrap64 (distance (snd k) + the (map_of rels k)) < distance (fst k)))"

definition CheckSatisfiability :: "State \<Rightarrow> bool \<times> State" where
  "CheckSatisfiability s =
     (if unsat s then (False, s)
      else if \<exists>(_, b) \<in> set (facts (bounds s)). Lower b > Upper b then (False, s\<lparr>unsat := True\<rparr>)
      else if relations s \<noteq> [] \<and> \<not> checkDifferenceConstraints (relations s) then (False, s\<lparr>unsat := True\<rparr>)
      else (True, s))"

subsection \<open>Equality and renaming\<close>

definition same_entries :: "('k \<times> 'v) list \<Rightarrow> ('k \<times> 'v) list \<Rightarrow> bool" where
  "same_entries a b \<longleftrightarrow> length a = length b \<and> (\<forall>k\<in>set (map fst a). map_of b k = map_of a k)"

definition state_Equals :: "State option \<Rightarrow> State option \<Rightarrow> bool" where
  "state_Equals s other =
     (case (s, other) of
        (None, None) \<Rightarrow> True
      | (None, _) \<Rightarrow> isTop other
      | (_, None) \<Rightarrow> isTop s
      | (Some s, Some t) \<Rightarrow>
          if unsat s \<noteq> unsat t then False
          else if unsat s then True
          else same_entries (facts (bounds s)) (facts (bounds t)) \<and> same_entries (facts (modular s)) (facts (modular t))
            \<and> same_entries (relations s) (relations t) \<and> same_entries (lenRefs s) (lenRefs t)
            \<and> length (lengthLower s) = length (lengthLower t)
            \<and> (\<forall>(k, v)\<in>set (lengthLower s). (case map_of (lengthLower t) k of None \<Rightarrow> 0 | Some x \<Rightarrow> x) = v)
            \<and> same_entries (lengthExact s) (lengthExact t))"

definition renamed :: "(PathKey \<times> PathKey) list \<Rightarrow> PathKey \<Rightarrow> PathKey" where
  "renamed remap k = (case map_of remap k of Some mapped \<Rightarrow> mapped | None \<Rightarrow> k)"

definition rekey_facts :: "('k \<Rightarrow> 'k) \<Rightarrow> ('v \<Rightarrow> 'v) \<Rightarrow> 'k list \<Rightarrow> ('k \<times> 'v) list \<Rightarrow> ('k \<times> 'v) list" where
  "rekey_facts f g ks m = foldl (\<lambda>result k. AList.update (f k) (g (the (map_of m k))) result) [] ks"

definition Rekey :: "(PathKey \<times> PathKey) list \<Rightarrow> State option \<Rightarrow> State option" where
  "Rekey remap s =
     (case s of
        None \<Rightarrow> None
      | Some st \<Rightarrow>
          if remap = [] then s
          else if unsat st then Some Bottom
          else let r = renamed remap in
            Some \<lparr>bounds = Some (rekey_facts r id (SortedPathKeys (facts (bounds st))) (facts (bounds st))),
              modular = Some (rekey_facts r id (SortedPathKeys (facts (modular st))) (facts (modular st))),
              relations = rekey_facts (\<lambda>(x, y). (r x, r y)) id (sortedRelationKeys (relations st)) (relations st),
              lenRefs = rekey_facts r (\<lambda>ref. ref\<lparr>RefArray := r (RefArray ref)\<rparr>) (SortedPathKeys (lenRefs st)) (lenRefs st),
              lengthLower = rekey_facts r id (map fst (lengthLower st)) (lengthLower st),
              lengthExact = rekey_facts r id (map fst (lengthExact st)) (lengthExact st),
              unsat = False\<rparr>)"

end
