(* ===== verification/NumericProps.thy ===== *)
theory NumericProps
  imports NumericState
begin

text \<open>
  What the facts of a numeric state mean, and how the operations of \<open>types/flow/numeric/state.go\<close> change
  it. A state holds of an assignment of integers to keys and of lengths to the keys of tables.
\<close>

section \<open>Meaning\<close>

definition all_facts :: "('k \<Rightarrow> 'v \<Rightarrow> bool) \<Rightarrow> ('k \<Rightarrow> 'v option) \<Rightarrow> bool" where
  "all_facts P m \<longleftrightarrow> (\<forall>k v. m k = Some v \<longrightarrow> P k v)"

abbreviation in_interval :: "(PathKey \<Rightarrow> int) \<Rightarrow> PathKey \<Rightarrow> Interval \<Rightarrow> bool" where
  "in_interval val k i \<equiv> Lower i \<le> val k \<and> val k \<le> Upper i"
abbreviation has_residue :: "(PathKey \<Rightarrow> int) \<Rightarrow> PathKey \<Rightarrow> ModResidue \<Rightarrow> bool" where
  "has_residue val k m \<equiv> val k mod mr_Modulus m = mr_Residue m"
abbreviation diff_within :: "(PathKey \<Rightarrow> int) \<Rightarrow> relationKey \<Rightarrow> int \<Rightarrow> bool" where
  "diff_within val k c \<equiv> val (fst k) - val (snd k) \<le> c"
abbreviation below_len :: "(PathKey \<Rightarrow> int) \<Rightarrow> (PathKey \<Rightarrow> int) \<Rightarrow> PathKey \<Rightarrow> lenRefBound \<Rightarrow> bool" where
  "below_len val len k r \<equiv> val k \<le> len (RefArray r) + RefOffset r"

definition state_holds :: "(PathKey \<Rightarrow> int) \<Rightarrow> (PathKey \<Rightarrow> int) \<Rightarrow> State \<Rightarrow> bool" where
  "state_holds val len s \<longleftrightarrow>
     \<not> unsat s
   \<and> all_facts (in_interval val) (map_of (facts (bounds s)))
   \<and> all_facts (has_residue val) (map_of (facts (modular s)))
   \<and> all_facts (diff_within val) (map_of (relations s))
   \<and> all_facts (below_len val len) (map_of (lenRefs s))
   \<and> all_facts (\<lambda>k c. c \<le> len k) (map_of (lengthLower s))
   \<and> all_facts (\<lambda>k c. len k = c) (map_of (lengthExact s))"

text \<open>A nil state says nothing.\<close>

definition opt_holds :: "(PathKey \<Rightarrow> int) \<Rightarrow> (PathKey \<Rightarrow> int) \<Rightarrow> State option \<Rightarrow> bool" where
  "opt_holds val len s = (case s of None \<Rightarrow> True | Some s \<Rightarrow> state_holds val len s)"

definition usable :: "State \<Rightarrow> bool" where
  "usable s \<longleftrightarrow> unsat s \<or> bounds s \<noteq> None \<and> modular s \<noteq> None"

lemma facts_simps [simp]: "facts None = []" "facts (Some m) = m"
  by (simp_all add: facts_def)

lemma all_facts_empty [simp]: "all_facts P Map.empty"
  by (simp add: all_facts_def)

lemma all_facts_upd: "all_facts P (m(k \<mapsto> v)) \<longleftrightarrow> P k v \<and> all_facts P (m(k := None))"
  by (auto simp: all_facts_def)

lemma all_facts_none: "m k = None \<Longrightarrow> m(k := None) = m"
  by (rule fun_upd_triv [of m k, THEN trans [rotated]]) simp

lemma all_facts_split: "m k = Some v \<Longrightarrow> all_facts P m \<longleftrightarrow> P k v \<and> all_facts P (m(k := None))"
  unfolding all_facts_def by (metis fun_upd_apply option.distinct(1) option.inject)

lemma all_factsD: "all_facts P m \<Longrightarrow> m k = Some v \<Longrightarrow> P k v"
  by (simp add: all_facts_def)

lemma all_facts_del: "all_facts P m \<Longrightarrow> all_facts P (m(k := None))"
  by (simp add: all_facts_def)

lemma NewState_holds: "state_holds val len NewState" "usable NewState"
  by (simp_all add: state_holds_def NewState_def usable_def)

lemma Bottom_holds: "\<not> state_holds val len Bottom"
  by (simp add: state_holds_def Bottom_def)

lemma state_Clone_holds: "opt_holds val len (state_Clone s) \<longleftrightarrow> opt_holds val len s"
  by (auto simp: state_Clone_def opt_holds_def state_holds_def Bottom_def split: option.split)

lemma state_Clone_usable: "state_Clone s = Some t \<Longrightarrow> usable t"
  by (auto simp: state_Clone_def usable_def Bottom_def split: option.splits if_splits)

lemma isTop_holds: "isTop s \<Longrightarrow> opt_holds val len s"
  by (auto simp: isTop_def opt_holds_def state_holds_def split: option.splits)

section \<open>Applying a constraint\<close>

lemma tighten_relation_holds:
  "state_holds val len (tighten_relation k c s) \<longleftrightarrow> state_holds val len s \<and> diff_within val k c"
proof (cases "map_of (relations s) k")
  case None
  then show ?thesis
    by (auto simp: tighten_relation_def state_holds_def AList.update_conv' all_facts_upd all_facts_none)
next
  case (Some old)
  then show ?thesis
    using all_facts_split [of "map_of (relations s)" k old "diff_within val"]
    by (auto simp: tighten_relation_def state_holds_def AList.update_conv' all_facts_upd minInt64_def)
qed

lemma tighten_relation_usable: "usable (tighten_relation k c s) \<longleftrightarrow> usable s" "unsat (tighten_relation k c s) = unsat s"
  by (simp_all add: tighten_relation_def usable_def split: option.split)

lemmas apply_relation_defs = applyLeWithConst_def applyLe_def applyLt_def applyGe_def applyGt_def applyEq_def

lemma set_bounds_holds:
  assumes "set_bounds v i s = Some s'"
  shows "state_holds val len s' \<longleftrightarrow> in_interval val v i
     \<and> state_holds val len (s\<lparr>bounds := Some (AList.delete v (facts (bounds s)))\<rparr>)" and "usable s \<Longrightarrow> usable s'"
  using assms
  by (auto simp: set_bounds_def state_holds_def AList.update_conv' AList.delete_conv' all_facts_upd usable_def split: option.splits)

lemma without_bounds:
  "state_holds val len s \<longleftrightarrow> (case map_of (facts (bounds s)) v of Some i \<Rightarrow> in_interval val v i | None \<Rightarrow> True)
     \<and> state_holds val len (s\<lparr>bounds := Some (AList.delete v (facts (bounds s)))\<rparr>)"
  using all_facts_split [of "map_of (facts (bounds s))" v _ "in_interval val"] all_facts_none [of "map_of (facts (bounds s))" v]
  by (auto simp: state_holds_def AList.delete_conv' split: option.split)

lemma set_bounds_Some: "usable s \<Longrightarrow> \<not> unsat s \<Longrightarrow> \<exists>s'. set_bounds v i s = Some s'"
  by (auto simp: usable_def set_bounds_def)

lemma applyEqConst_holds:
  assumes "usable s" "\<not> unsat s"
  shows "\<exists>s'. applyEqConst v c s = Some s' \<and> usable s' \<and>
    (state_holds val len s' \<longleftrightarrow> val v = c \<and> state_holds val len (s\<lparr>bounds := Some (AList.delete v (facts (bounds s)))\<rparr>))"
proof -
  obtain s' where s': "set_bounds v \<lparr>Lower = c, Upper = c\<rparr> s = Some s'" using set_bounds_Some [OF assms] by blast
  show ?thesis
    using set_bounds_holds(1) [OF s', of val len] set_bounds_holds(2) [OF s'] s' assms(1)
    by (auto simp: applyEqConst_def)
qed

lemma applyLeConst_holds:
  assumes "usable s" "\<not> unsat s" "is_int64 (val v)"
  shows "\<exists>s'. applyLeConst v c s = Some s' \<and> usable s' \<and> (state_holds val len s' \<longleftrightarrow> state_holds val len s \<and> val v \<le> c)"
proof (cases "map_of (facts (bounds s)) v")
  case None
  obtain s' where s': "set_bounds v \<lparr>Lower = MinInt64, Upper = c\<rparr> s = Some s'" using set_bounds_Some [OF assms(1,2)] by blast
  then show ?thesis
    using set_bounds_holds(1) [OF s', of val len] set_bounds_holds(2) [OF s'] without_bounds [of val len s v] None assms
    by (auto simp: applyLeConst_def is_int64_def)
next
  case (Some b)
  let ?b = "b\<lparr>Upper := minInt64 (Upper b) c\<rparr>"
  show ?thesis
  proof (cases "Lower ?b > Upper ?b")
    case True
    have "\<not> (state_holds val len s \<and> val v \<le> c)"
      using True without_bounds [of val len s v] Some by (auto simp: minInt64_def split: if_splits)
    moreover have "\<not> state_holds val len (s\<lparr>unsat := True\<rparr>)" by (simp add: state_holds_def)
    ultimately show ?thesis using True Some by (auto simp: applyLeConst_def Let_def usable_def)
  next
    case False
    obtain s' where s': "set_bounds v ?b s = Some s'" using set_bounds_Some [OF assms(1,2)] by blast
    show ?thesis
      using set_bounds_holds(1) [OF s', of val len] set_bounds_holds(2) [OF s'] without_bounds [of val len s v] Some False s' assms(1)
      by (auto simp: applyLeConst_def Let_def minInt64_def)
  qed
qed

lemma applyGeConst_holds:
  assumes "usable s" "\<not> unsat s" "is_int64 (val v)"
  shows "\<exists>s'. applyGeConst v c s = Some s' \<and> usable s' \<and> (state_holds val len s' \<longleftrightarrow> state_holds val len s \<and> val v \<ge> c)"
proof (cases "map_of (facts (bounds s)) v")
  case None
  obtain s' where s': "set_bounds v \<lparr>Lower = c, Upper = MaxInt64\<rparr> s = Some s'" using set_bounds_Some [OF assms(1,2)] by blast
  then show ?thesis
    using set_bounds_holds(1) [OF s', of val len] set_bounds_holds(2) [OF s'] without_bounds [of val len s v] None assms
    by (auto simp: applyGeConst_def is_int64_def)
next
  case (Some b)
  let ?b = "b\<lparr>Lower := maxInt64 (Lower b) c\<rparr>"
  show ?thesis
  proof (cases "Lower ?b > Upper ?b")
    case True
    have "\<not> (state_holds val len s \<and> val v \<ge> c)"
      using True without_bounds [of val len s v] Some by (auto simp: maxInt64_def split: if_splits)
    moreover have "\<not> state_holds val len (s\<lparr>unsat := True\<rparr>)" by (simp add: state_holds_def)
    ultimately show ?thesis using True Some by (auto simp: applyGeConst_def Let_def usable_def)
  next
    case False
    obtain s' where s': "set_bounds v ?b s = Some s'" using set_bounds_Some [OF assms(1,2)] by blast
    show ?thesis
      using set_bounds_holds(1) [OF s', of val len] set_bounds_holds(2) [OF s'] without_bounds [of val len s v] Some False s' assms(1)
      by (auto simp: applyGeConst_def Let_def maxInt64_def)
  qed
qed

definition residue_conflict :: "State \<Rightarrow> PathKey \<Rightarrow> int \<Rightarrow> int \<Rightarrow> bool" where
  "residue_conflict s v m r \<longleftrightarrow>
     (\<exists>e. map_of (facts (modular s)) v = Some e \<and> (mr_Modulus e \<noteq> m \<or> mr_Residue e \<noteq> r))"

lemma applyModEq_holds:
  assumes "usable s" "\<not> unsat s" "\<not> residue_conflict s v m r"
  shows "\<exists>s'. applyModEq v m r s = Some s' \<and> usable s' \<and> (state_holds val len s' \<longleftrightarrow> state_holds val len s \<and> val v mod m = r)"
proof (cases "map_of (facts (modular s)) v")
  case None
  obtain ms where "modular s = Some ms" using assms(1,2) by (auto simp: usable_def)
  then show ?thesis
    using None assms(1)
    by (auto simp: applyModEq_def set_modular_def usable_def state_holds_def AList.update_conv' all_facts_upd all_facts_none)
next
  case (Some e)
  then show ?thesis
    using assms all_factsD [of "has_residue val" "map_of (facts (modular s))" v e]
    by (auto simp: applyModEq_def residue_conflict_def state_holds_def)
qed

lemma applyLenGeConst_holds:
  assumes "\<And>k. 0 \<le> len k"
  shows "state_holds val len (applyLenGeConst k c s) \<longleftrightarrow> state_holds val len s \<and> c \<le> len k"
proof (cases "map_of (lengthLower s) k")
  case None
  then show ?thesis
    using assms [of k] by (auto simp: applyLenGeConst_def state_holds_def AList.update_conv' all_facts_upd all_facts_none)
next
  case (Some old)
  then show ?thesis
    using all_facts_split [of "map_of (lengthLower s)" k old "\<lambda>k c. c \<le> len k"]
    by (auto simp: applyLenGeConst_def state_holds_def AList.update_conv' all_facts_upd)
qed

lemma applyLeLenOf_holds:
  "state_holds val len (applyLeLenOf v arr off s) \<longleftrightarrow>
     val v \<le> len arr + off \<and> state_holds val len (s\<lparr>lenRefs := AList.delete v (lenRefs s)\<rparr>)"
  by (auto simp: applyLeLenOf_def state_holds_def AList.update_conv' AList.delete_conv' all_facts_upd)

lemma exact_length_holds:
  "state_holds val len (s\<lparr>lengthExact := AList.update k c (lengthExact s)\<rparr>) \<longleftrightarrow>
     len k = c \<and> state_holds val len (s\<lparr>lengthExact := AList.delete k (lengthExact s)\<rparr>)"
  by (auto simp: state_holds_def AList.update_conv' AList.delete_conv' all_facts_upd)

text \<open>
  The state without the one fact whose place a constraint takes: the interval of the key whose value it fixes, the length
  bound of a key, or the exact length of a table. The other constraints replace nothing.
\<close>

fun without_replaced :: "(Path \<Rightarrow> PathKey) \<Rightarrow> NumericConstraint \<Rightarrow> State \<Rightarrow> State" where
  "without_replaced resolve (EqConst x c) s = s\<lparr>bounds := Some (AList.delete (resolve x) (facts (bounds s)))\<rparr>"
| "without_replaced resolve (LeLenOf x a off) s = s\<lparr>lenRefs := AList.delete (resolve x) (lenRefs s)\<rparr>"
| "without_replaced resolve (LenEqConst a c) s = s\<lparr>lengthExact := AList.delete (resolve a) (lengthExact s)\<rparr>"
| "without_replaced resolve c s = s"

lemma without_replaced_holds: "state_holds val len s \<Longrightarrow> state_holds val len (without_replaced resolve c s)"
  by (cases c) (auto simp: state_holds_def AList.delete_conv' all_facts_del)

lemma replacing_keeps:
  "state_holds val len s \<Longrightarrow> val v \<le> len arr + off \<Longrightarrow> state_holds val len (applyLeLenOf v arr off s)"
  "usable s \<Longrightarrow> state_holds val len s \<Longrightarrow> val v = c \<Longrightarrow> \<exists>s'. applyEqConst v c s = Some s' \<and> usable s' \<and> state_holds val len s'"
proof -
  show "state_holds val len s \<Longrightarrow> val v \<le> len arr + off \<Longrightarrow> state_holds val len (applyLeLenOf v arr off s)"
    by (auto simp: applyLeLenOf_def state_holds_def AList.update_conv' all_facts_upd all_facts_del)
  assume h: "usable s" "state_holds val len s" "val v = c"
  then have "\<not> unsat s" "state_holds val len (s\<lparr>bounds := Some (AList.delete v (facts (bounds s)))\<rparr>)"
    using without_bounds [of val len s v] by (auto simp: state_holds_def)
  then show "\<exists>s'. applyEqConst v c s = Some s' \<and> usable s' \<and> state_holds val len s'"
    using applyEqConst_holds [OF h(1), of v c val len] h(3) by blast
qed

text \<open>
  C39: Applying a numeric constraint to a state that is not known to be unsatisfiable, with paths that
  the resolver knows, never writes to a nil map. The result holds of exactly the assignments of 64-bit integers and of
  lengths that satisfy the constraint and the facts of the state, without the one fact that is replaced: a
  constraint that fixes a value takes the place of the interval of its key, one that fixes a length that of
  the known length, and a length bound that of the length bound of its key. So whatever satisfies the
  state and the constraint satisfies the result. Excluded is a second residue of the same
  key, for which the code declares the state unsatisfiable.
\<close>

theorem apply_constraint_exact:
  assumes "usable s" "\<not> unsat s" "\<And>k. is_int64 (val k)" "\<And>k. 0 \<le> len k"
    "\<And>p. p \<in> set (num_Paths c) \<Longrightarrow> resolve p \<noteq> []"
    "\<And>x m r. c = ModEq x m r \<Longrightarrow> \<not> residue_conflict s (resolve x) m r"
  shows "\<exists>s'. ApplyConstraintWithResolver c (Some resolve) s = Some s' \<and> usable s'
    \<and> (state_holds val len s' \<longleftrightarrow> num_holds resolve val len c \<and> state_holds val len (without_replaced resolve c s))
    \<and> (state_holds val len s \<and> num_holds resolve val len c \<longrightarrow> state_holds val len s')"
proof -
  have known: "\<not> (\<exists>p\<in>set (num_Paths c). resolve p = [])" using assms(5) by blast
  note rel = apply_relation_defs tighten_relation_holds tighten_relation_usable
  have "\<exists>s'. ApplyConstraintWithResolver c (Some resolve) s = Some s' \<and> usable s'
    \<and> (state_holds val len s' \<longleftrightarrow> num_holds resolve val len c \<and> state_holds val len (without_replaced resolve c s))"
  proof (cases c)
    case (EqConst x d)
    then show ?thesis using known applyEqConst_holds [OF assms(1,2), of "resolve x" d val len] assms(2) by auto
  next
    case (LeConst x d)
    then show ?thesis using known applyLeConst_holds [of s val "resolve x" d len, OF assms(1,2,3)] assms(2) by auto
  next
    case (GeConst x d)
    then show ?thesis using known applyGeConst_holds [of s val "resolve x" d len, OF assms(1,2,3)] assms(2) by auto
  next
    case (ModEq x m r)
    then show ?thesis using known applyModEq_holds [OF assms(1,2) assms(6) [OF ModEq], of val len] assms(2) by auto
  next
    case (LeLenOf x a off)
    then show ?thesis using known assms(1,2) applyLeLenOf_holds [where val = val and len = len and s = s and v = "resolve x" and arr = "resolve a" and off = off]
      by (auto simp: applyLeLenOf_def usable_def)
  next
    case (LenGeConst a d)
    then show ?thesis using known assms(1,2) applyLenGeConst_holds [of len val "resolve a" d s, OF assms(4)]
      by (auto simp: applyLenGeConst_def usable_def)
  next
    case (LenEqConst a d)
    then show ?thesis using known assms(1,2) exact_length_holds [where val = val and len = len and s = s and k = "resolve a" and c = d] by (auto simp: usable_def)
  qed (use known assms(1,2) in \<open>auto simp: rel\<close>)
  then show ?thesis using without_replaced_holds [of val len s resolve c] by blast
qed

theorem apply_constraint_exact_witness:
  "(let s = \<lparr>bounds = Some [(''i'', \<lparr>Lower = 1, Upper = 9\<rparr>)], modular = Some [], relations = [], lenRefs = [], lengthLower = [],
      lengthExact = [], unsat = False\<rparr>;
     s' = s\<lparr>bounds := Some [(''i'', \<lparr>Lower = 1, Upper = 5\<rparr>)]\<rparr> in
    ApplyConstraintWithResolver (LeConst (NewPath 1 ''i'') 5) (Some (\<lambda>_. ''i'')) s = Some s'
    \<and> state_holds (\<lambda>_. 4) (\<lambda>_. 0) s')"
proof -
  let ?s = "\<lparr>bounds = Some [(''i'', \<lparr>Lower = 1, Upper = 9\<rparr>)], modular = Some [], relations = [], lenRefs = [], lengthLower = [],
      lengthExact = [], unsat = False\<rparr>" and ?c = "LeConst (NewPath 1 ''i'') 5"
  have r: "ApplyConstraintWithResolver ?c (Some (\<lambda>_. ''i'')) ?s = Some (?s\<lparr>bounds := Some [(''i'', \<lparr>Lower = 1, Upper = 5\<rparr>)]\<rparr>)"
    by (simp add: applyLeConst_def set_bounds_def minInt64_def Let_def)
  have "state_holds (\<lambda>_. 4) (\<lambda>_. 0) ?s" by (simp add: state_holds_def all_facts_def)
  then show ?thesis
    using apply_constraint_exact [of ?s "\<lambda>_. 4" "\<lambda>_. 0" ?c "\<lambda>_. ''i''"] r
    by (simp add: usable_def is_int64_def Let_def)
qed

text \<open>The residue modulo 2 and the residue modulo 4 of one number are taken for a contradiction.\<close>

lemma residues_taken_for_conflict:
  "\<exists>s x val len s'. state_holds val len s \<and> num_holds path_Key val len (ModEq x 4 1)
     \<and> ApplyConstraintWithResolver (ModEq x 4 1) (Some path_Key) s = Some s' \<and> unsat s'"
proof -
  let ?x = "NewPath 1 ''i''"
  let ?s = "NewState\<lparr>modular := Some [(path_Key ?x, \<lparr>mr_Modulus = 2, mr_Residue = 1\<rparr>)]\<rparr>"
  have "path_Key ?x \<noteq> []" by code_simp
  moreover have "state_holds (\<lambda>_. 1) (\<lambda>_. 0) ?s" by (simp add: state_holds_def NewState_def all_facts_def)
  ultimately show ?thesis
    by (intro exI [of _ ?s] exI [of _ ?x] exI [of _ "\<lambda>_. 1"] exI [of _ "\<lambda>_. 0"] exI [of _ "?s\<lparr>unsat := True\<rparr>"])
      (simp add: applyModEq_def NewState_def)
qed

section \<open>Joining states\<close>

lemma join_facts_map:
  assumes "set ks = fst ` set a"
  shows "map_of (join_facts merge ks a b) k = Some z \<Longrightarrow> \<exists>x y. map_of a k = Some x \<and> map_of b k = Some y \<and> merge x y = Some z"
proof -
  assume "map_of (join_facts merge ks a b) k = Some z"
  then have "(k, z) \<in> set (join_facts merge ks a b)" by (rule map_of_SomeD)
  then show ?thesis
    by (auto simp: join_facts_def List.map_filter_def split: option.splits prod.splits)
qed

lemma join_facts_hold:
  assumes "set ks = fst ` set a" "all_facts P (map_of a) \<or> all_facts P (map_of b)"
    "\<And>k x y z. merge x y = Some z \<Longrightarrow> P k x \<or> P k y \<Longrightarrow> P k z"
  shows "all_facts P (map_of (join_facts merge ks a b))"
  unfolding all_facts_def
proof (intro allI impI)
  fix k z assume "map_of (join_facts merge ks a b) k = Some z"
  then obtain x y where "map_of a k = Some x" "map_of b k = Some y" "merge x y = Some z"
    using join_facts_map [OF assms(1)] by blast
  then show "P k z" using assms(2) assms(3) [of x y z k] by (auto dest: all_factsD)
qed

lemma set_sorted_keys [simp]: "set (SortedPathKeys m) = fst ` set m" "set (sortedRelationKeys r) = fst ` set r"
  by (simp_all add: SortedPathKeys_def sortedRelationKeys_def)

text \<open>Of the facts of both states the join keeps the weaker one, except for intervals.\<close>

definition same_bounds :: "State \<Rightarrow> State \<Rightarrow> bool" where
  "same_bounds a b \<longleftrightarrow>
     (\<forall>k i j. map_of (facts (bounds a)) k = Some i \<longrightarrow> map_of (facts (bounds b)) k = Some j \<longrightarrow> i = j)"

lemma join_bounds_hold:
  assumes "same_bounds a b" "all_facts (in_interval val) (map_of (facts (bounds a))) \<or> all_facts (in_interval val) (map_of (facts (bounds b)))"
    "(k, i) \<in> set (join_facts (\<lambda>x y. Some (intersectIntervals x y)) (SortedPathKeys (facts (bounds a))) (facts (bounds a)) (facts (bounds b)))"
  shows "in_interval val k i"
proof -
  obtain x y where "map_of (facts (bounds a)) k = Some x" "map_of (facts (bounds b)) k = Some y" "i = intersectIntervals x y"
    using assms(3) by (auto simp: join_facts_def List.map_filter_def split: option.splits prod.splits)
  moreover from this have "x = y" using assms(1) by (auto simp: same_bounds_def)
  ultimately show ?thesis using assms(2) by (auto simp: intersectIntervals_def maxInt64_def minInt64_def dest: all_factsD)
qed

text \<open>
  A join of two states holds of every assignment of which one of them holds, provided that the two
  agree on the intervals of the keys they both have: differences are weakened, residues, length
  bounds and exact lengths kept where equal. A state known to be unsatisfiable does not count.
\<close>

theorem join_sound:
  assumes "same_bounds a b" "state_holds val len a \<or> state_holds val len b"
  shows "opt_holds val len (Join (Some a) (Some b))"
proof (cases "unsat a \<or> unsat b")
  case True
  then show ?thesis
    using assms(2) state_Clone_holds [of val len "Some b"] state_Clone_holds [of val len "Some a"]
    by (auto simp: Join_def opt_holds_def state_holds_def)
next
  case False
  let ?merged = "join_facts (\<lambda>x y. Some (intersectIntervals x y)) (SortedPathKeys (facts (bounds a))) (facts (bounds a)) (facts (bounds b))"
  have some: "all_facts (in_interval val) (map_of (facts (bounds a))) \<or> all_facts (in_interval val) (map_of (facts (bounds b)))"
    "all_facts (has_residue val) (map_of (facts (modular a))) \<or> all_facts (has_residue val) (map_of (facts (modular b)))"
    "all_facts (diff_within val) (map_of (relations a)) \<or> all_facts (diff_within val) (map_of (relations b))"
    "all_facts (below_len val len) (map_of (lenRefs a)) \<or> all_facts (below_len val len) (map_of (lenRefs b))"
    "all_facts (\<lambda>k c. c \<le> len k) (map_of (lengthLower a)) \<or> all_facts (\<lambda>k c. c \<le> len k) (map_of (lengthLower b))"
    "all_facts (\<lambda>k c. len k = c) (map_of (lengthExact a)) \<or> all_facts (\<lambda>k c. len k = c) (map_of (lengthExact b))"
    using assms(2) unfolding state_holds_def by blast+
  have iv: "in_interval val k i" if "(k, i) \<in> set ?merged" for k i
    using join_bounds_hold [OF assms(1) some(1) that] .
  then have ne: "\<not> (\<exists>(_, i) \<in> set ?merged. Lower i > Upper i)" by fastforce
  have keep: "all_facts (in_interval val) (map_of (filter (\<lambda>(_, i). i \<noteq> unboundedInterval) ?merged))"
    unfolding all_facts_def using iv by (auto dest!: map_of_SomeD)
  have hold: "all_facts (has_residue val) (map_of (join_facts same (SortedPathKeys (facts (modular a))) (facts (modular a)) (facts (modular b))))"
    "all_facts (diff_within val) (map_of (join_facts (\<lambda>x y. Some (maxInt64 x y)) (sortedRelationKeys (relations a)) (relations a) (relations b)))"
    "all_facts (below_len val len) (map_of (join_facts same (SortedPathKeys (lenRefs a)) (lenRefs a) (lenRefs b)))"
    "all_facts (\<lambda>k c. c \<le> len k) (map_of (join_facts (\<lambda>x y. Some (min x y)) (map fst (lengthLower a)) (lengthLower a) (lengthLower b)))"
    "all_facts (\<lambda>k c. len k = c) (map_of (join_facts same (map fst (lengthExact a)) (lengthExact a) (lengthExact b)))"
    by (rule join_facts_hold; use some(2-6) in \<open>force simp: same_def maxInt64_def split: if_splits\<close>)+
  show ?thesis
    using False ne keep hold by (simp add: Join_def opt_holds_def state_holds_def Let_def)
qed

theorem join_sound_witness:
  "(let a = NewState\<lparr>bounds := Some [(''i'', \<lparr>Lower = 1, Upper = 9\<rparr>)], relations := [((''i'', ''n''), 0)]\<rparr>;
     b = NewState\<lparr>bounds := Some [(''i'', \<lparr>Lower = 1, Upper = 9\<rparr>)], relations := [((''i'', ''n''), 3)]\<rparr> in
    Join (Some a) (Some b) = Some b \<and> opt_holds (\<lambda>_. 4) (\<lambda>_. 0) (Join (Some a) (Some b)))"
proof -
  let ?a = "NewState\<lparr>bounds := Some [(''i'', \<lparr>Lower = 1, Upper = 9\<rparr>)], relations := [((''i'', ''n''), 0)]\<rparr>"
  let ?b = "NewState\<lparr>bounds := Some [(''i'', \<lparr>Lower = 1, Upper = 9\<rparr>)], relations := [((''i'', ''n''), 3)]\<rparr>"
  have j: "Join (Some ?a) (Some ?b) = Some ?b"
    by (simp add: Join_def NewState_def join_facts_def SortedPathKeys_def sortedRelationKeys_def List.map_filter_def
        intersectIntervals_def maxInt64_def minInt64_def unboundedInterval_def isTop_def Let_def)
  have "same_bounds ?a ?b" by (simp add: same_bounds_def)
  moreover have "state_holds (\<lambda>_. 4) (\<lambda>_. 0) ?a" by (simp add: state_holds_def NewState_def all_facts_def)
  ultimately have "opt_holds (\<lambda>_. 4) (\<lambda>_. 0) (Join (Some ?a) (Some ?b))" by (intro join_sound disjI1)
  with j show ?thesis unfolding Let_def by blast
qed

text \<open>
  Where the intervals differ the join intersects them, so that it loses assignments of both branches;
  disjoint intervals make the join unsatisfiable.
\<close>

lemma join_intersects_intervals:
  "\<exists>a b s val len. state_holds val len a \<and> Join (Some a) (Some b) = Some s \<and> \<not> state_holds val len s"
  "\<exists>a b val val' len. state_holds val len a \<and> state_holds val' len b \<and> Join (Some a) (Some b) = Some Bottom"
proof -
  let ?st = "\<lambda>l u. NewState\<lparr>bounds := Some [(''x'', \<lparr>Lower = l, Upper = u\<rparr>)]\<rparr>"
  have j: "Join (Some (?st 0 10)) (Some (?st 5 15)) = Some (?st 5 10)" "Join (Some (?st 0 5)) (Some (?st 10 15)) = Some Bottom"
    by (simp_all add: Join_def NewState_def join_facts_def SortedPathKeys_def sortedRelationKeys_def List.map_filter_def
        intersectIntervals_def maxInt64_def minInt64_def unboundedInterval_def isTop_def Let_def)
  have h: "state_holds (\<lambda>_. v) (\<lambda>_. 0) (?st l u) \<longleftrightarrow> l \<le> v \<and> v \<le> u" for v l u
    by (auto simp: state_holds_def NewState_def all_facts_def)
  show "\<exists>a b s val len. state_holds val len a \<and> Join (Some a) (Some b) = Some s \<and> \<not> state_holds val len s"
    using j(1) h [of 0 0 10] h [of 0 5 10]
    by (intro exI [of _ "?st 0 10"] exI [of _ "?st 5 15"] exI [of _ "?st 5 10"] exI [of _ "\<lambda>_. 0"]) simp
  show "\<exists>a b val val' len. state_holds val len a \<and> state_holds val' len b \<and> Join (Some a) (Some b) = Some Bottom"
    using j(2) h [of 0 0 5] h [of 10 10 15]
    by (intro exI [of _ "?st 0 5"] exI [of _ "?st 10 15"] exI [of _ "\<lambda>_. 0"] exI [of _ "\<lambda>_. 10"]) simp
qed

section \<open>Renaming and equality\<close>

lemma rekey_facts_map:
  assumes "map_of (rekey_facts f g ks m) k = Some v" "set ks = fst ` set m"
  shows "\<exists>k' v'. map_of m k' = Some v' \<and> k = f k' \<and> v = g v'"
proof -
  have "\<exists>k'\<in>set ks. k = f k' \<and> v = g (the (map_of m k'))"
    if "map_of (foldl (\<lambda>result k. AList.update (f k) (g (the (map_of m k))) result) r ks) k = Some v" "map_of r k = None" for r
  proof -
    have "map_of (foldl (\<lambda>result k. AList.update (f k) (g (the (map_of m k))) result) r ks) k = Some v \<Longrightarrow>
        map_of r k = Some v \<or> (\<exists>k'\<in>set ks. k = f k' \<and> v = g (the (map_of m k')))" for r
      by (induction ks arbitrary: r) (fastforce simp: AList.update_conv' split: if_splits)+
    then show ?thesis using that by (metis option.distinct(1))
  qed
  from this [of "[]"] obtain k' where k': "k' \<in> set ks" "k = f k'" "v = g (the (map_of m k'))"
    using assms(1) by (auto simp: rekey_facts_def)
  moreover have "map_of m k' \<noteq> None" using k'(1) assms(2) by (simp add: map_of_eq_None_iff)
  ultimately show ?thesis by (metis option.collapse)
qed

lemma rekey_facts_hold:
  assumes "all_facts P (map_of m)" "set ks = fst ` set m" "\<And>k v. P k v \<Longrightarrow> Q (f k) (g v)"
  shows "all_facts Q (map_of (rekey_facts f g ks m))"
  unfolding all_facts_def using rekey_facts_map [OF _ assms(2), of f g] assms(1,3) by (metis all_factsD)

text \<open>
  Renaming keeps a state true: if it holds of the assignment in which every key has the value of its new
  name, the renamed state holds, also where several keys get the same name.
\<close>

lemma rekey_sound:
  assumes "opt_holds (val \<circ> renamed remap) (len \<circ> renamed remap) s" "remap \<noteq> []"
  shows "opt_holds val len (Rekey remap s)"
proof (cases s)
  case (Some st)
  then have h: "state_holds (val \<circ> renamed remap) (len \<circ> renamed remap) st" using assms(1) by (simp add: opt_holds_def)
  then have st: "\<not> unsat st" "all_facts (in_interval (val \<circ> renamed remap)) (map_of (facts (bounds st)))"
    "all_facts (has_residue (val \<circ> renamed remap)) (map_of (facts (modular st)))"
    "all_facts (diff_within (val \<circ> renamed remap)) (map_of (relations st))"
    "all_facts (below_len (val \<circ> renamed remap) (len \<circ> renamed remap)) (map_of (lenRefs st))"
    "all_facts (\<lambda>k c. c \<le> (len \<circ> renamed remap) k) (map_of (lengthLower st))"
    "all_facts (\<lambda>k c. (len \<circ> renamed remap) k = c) (map_of (lengthExact st))"
    unfolding state_holds_def by blast+
  note hold = st(2-7) [THEN rekey_facts_hold]
  show ?thesis
    using Some assms(2) st(1) unfolding Rekey_def opt_holds_def state_holds_def
    by (simp add: Let_def del: comp_apply) (intro conjI hold; auto)
qed (simp add: Rekey_def opt_holds_def)

lemma same_entries_map:
  assumes "same_entries a b" "distinct (map fst a)" "distinct (map fst b)"
  shows "map_of a = map_of b"
proof -
  have "fst ` set a \<subseteq> fst ` set b"
  proof
    fix k assume "k \<in> fst ` set a"
    then have "map_of b k = map_of a k" "map_of a k \<noteq> None" using assms(1) by (auto simp: same_entries_def map_of_eq_None_iff)
    then show "k \<in> fst ` set b" by (metis map_of_eq_None_iff)
  qed
  moreover have "card (fst ` set a) = card (fst ` set b)"
    using assms by (metis same_entries_def distinct_card length_map list.set_map)
  ultimately have "fst ` set a = fst ` set b" by (simp add: card_subset_eq)
  then show ?thesis
    using assms(1) by (intro ext) (metis same_entries_def list.set_map map_of_eq_None_iff)
qed

definition distinct_keys :: "State \<Rightarrow> bool" where
  "distinct_keys s \<longleftrightarrow> distinct (map fst (facts (bounds s))) \<and> distinct (map fst (facts (modular s)))
   \<and> distinct (map fst (relations s)) \<and> distinct (map fst (lenRefs s)) \<and> distinct (map fst (lengthLower s))
   \<and> distinct (map fst (lengthExact s)) \<and> (\<forall>(_, c)\<in>set (lengthLower s). c \<noteq> 0)"

lemma state_Equals_holds:
  assumes "state_Equals (Some s) (Some t)" "distinct_keys s" "distinct_keys t"
  shows "state_holds val len s \<longleftrightarrow> state_holds val len t"
proof (cases "unsat s")
  case True
  then show ?thesis using assms(1) by (auto simp: state_Equals_def state_holds_def split: if_splits)
next
  case False
  then have e: "\<not> unsat t" "same_entries (facts (bounds s)) (facts (bounds t))" "same_entries (facts (modular s)) (facts (modular t))"
    "same_entries (relations s) (relations t)" "same_entries (lenRefs s) (lenRefs t)" "same_entries (lengthExact s) (lengthExact t)"
    "length (lengthLower s) = length (lengthLower t)"
    "\<And>k v. (k, v) \<in> set (lengthLower s) \<Longrightarrow> (case map_of (lengthLower t) k of None \<Rightarrow> 0 | Some x \<Rightarrow> x) = v"
    using assms(1) by (auto simp: state_Equals_def split: if_splits)
  have "map_of (lengthLower t) k = map_of (lengthLower s) k" if "k \<in> set (map fst (lengthLower s))" for k
  proof -
    from that obtain v where v: "(k, v) \<in> set (lengthLower s)" by auto
    then have "v \<noteq> 0" "map_of (lengthLower s) k = Some v" using assms(2) by (auto simp: distinct_keys_def)
    then show ?thesis using e(8) [OF v] by (auto split: option.splits)
  qed
  then have l: "same_entries (lengthLower s) (lengthLower t)" using e(7) by (simp add: same_entries_def)
  have "map_of (facts (bounds s)) = map_of (facts (bounds t))" "map_of (facts (modular s)) = map_of (facts (modular t))"
    "map_of (relations s) = map_of (relations t)" "map_of (lenRefs s) = map_of (lenRefs t)"
    "map_of (lengthLower s) = map_of (lengthLower t)" "map_of (lengthExact s) = map_of (lengthExact t)"
    using e(2-6) l assms(2,3) unfolding distinct_keys_def by (blast intro!: same_entries_map)+
  then show ?thesis using False e(1) by (simp add: state_holds_def)
qed

end
