(* ===== verification/BellmanFord.thy ===== *)
theory BellmanFord
  imports NumericProps
begin

text \<open>
  The satisfiability check of the difference constraints of a numeric state: rounds of relaxation, as many as there
  are variables, and a last look for a constraint that can still be relaxed. It is shown to decide whether the
  constraints have a solution, as long as no sum of weights leaves 64 bits.

  The proof compares the distances with the greatest solution that is nowhere positive: a round that
  does not reach it settles one more variable.
\<close>

section \<open>One round\<close>

abbreviation weight :: "(relationKey \<times> int) list \<Rightarrow> relationKey \<Rightarrow> int" where
  "weight rels k \<equiv> the (map_of rels k)"

definition solves :: "(relationKey \<times> int) list \<Rightarrow> (PathKey \<Rightarrow> int) \<Rightarrow> bool" where
  "solves rels f \<longleftrightarrow> (\<forall>k\<in>set (sortedRelationKeys rels). f (fst k) \<le> f (snd k) + weight rels k)"

definition small_weights :: "(relationKey \<times> int) list \<Rightarrow> int \<Rightarrow> bool" where
  "small_weights rels W \<longleftrightarrow> (\<forall>k\<in>set (sortedRelationKeys rels). \<bar>weight rels k\<bar> \<le> W)"

lemma solves_facts: "solves rels f \<longleftrightarrow> all_facts (diff_within f) (map_of rels)"
proof
  assume s: "solves rels f"
  show "all_facts (diff_within f) (map_of rels)"
    unfolding all_facts_def
  proof (intro allI impI)
    fix k c assume k: "map_of rels k = Some c"
    then have "k \<in> set (sortedRelationKeys rels)" by (force dest: map_of_SomeD)
    then show "diff_within f k c" using s k unfolding solves_def by force
  qed
next
  assume a: "all_facts (diff_within f) (map_of rels)"
  show "solves rels f"
    unfolding solves_def
  proof
    fix k assume "k \<in> set (sortedRelationKeys rels)"
    then obtain c where c: "map_of rels k = Some c" by (auto simp: map_of_eq_None_iff dest!: weak_map_of_SomeI)
    then show "f (fst k) \<le> f (snd k) + weight rels k" using all_factsD [OF a c] by simp
  qed
qed

text \<open>The bounds within which nothing overflows.\<close>

definition bounded :: "int \<Rightarrow> (PathKey \<Rightarrow> int) \<Rightarrow> bool" where
  "bounded L d \<longleftrightarrow> (\<forall>v. - L \<le> d v \<and> d v \<le> 0)"

lemma bounded_mono: "bounded L d \<Longrightarrow> 0 \<le> c \<Longrightarrow> bounded (L + c) d"
  unfolding bounded_def by (meson add_increasing2 neg_le_iff_le order.trans order_refl)

lemma sum_fits: "bounded L d \<Longrightarrow> \<bar>w\<bar> \<le> W \<Longrightarrow> L + W \<le> MaxInt64 \<Longrightarrow> wrap64 (d v + w) = d v + w"
  by (rule wrap64_id) (force simp: bounded_def is_int64_def dest: spec [of _ v])

lemma relax_edge_cases:
  assumes "bounded L d" "\<bar>weight rels k\<bar> \<le> W" "L + W \<le> MaxInt64" "relax_edge rels (d, c) k = (d', c')"
  shows "d' = d(fst k := min (d (fst k)) (d (snd k) + weight rels k))"
    and "c' \<longleftrightarrow> c \<or> d (snd k) + weight rels k < d (fst k)"
  using assms(4) sum_fits [OF assms(1-3), of "snd k"]
  by (auto simp: relax_edge_def Let_def min_def split: if_splits)

lemma relax_edge_bounded:
  assumes "bounded L d" "\<bar>weight rels k\<bar> \<le> W" "L + W \<le> MaxInt64" "relax_edge rels (d, c) k = (d', c')"
  shows "bounded (L + W) d'"
proof -
  have "0 \<le> W" using assms(2) by linarith
  moreover have "- L \<le> d v \<and> d v \<le> 0" for v using assms(1) by (simp add: bounded_def)
  ultimately show ?thesis
    unfolding bounded_def relax_edge_cases(1) [OF assms] using assms(2) by (auto simp: min_def) (smt (verit))+
qed

lemma round_step:
  assumes "small_weights rels W" "set ks \<subseteq> set (sortedRelationKeys rels)" "0 \<le> W"
    "bounded L d" "L + int (length ks) * W \<le> MaxInt64" "foldl (relax_edge rels) (d, c) ks = (d', c')"
  shows "bounded (L + int (length ks) * W) d' \<and> (\<forall>v. d' v \<le> d v)
    \<and> (\<forall>f. solves rels f \<longrightarrow> (\<forall>v. f v \<le> d v) \<longrightarrow> (\<forall>v. f v \<le> d' v))
    \<and> (\<forall>k\<in>set ks. d' (fst k) \<le> d (snd k) + weight rels k) \<and> (\<forall>v. v \<notin> fst ` set ks \<longrightarrow> d' v = d v)
    \<and> (\<not> c' \<longrightarrow> \<not> c \<and> d' = d \<and> (\<forall>k\<in>set ks. d (fst k) \<le> d (snd k) + weight rels k))"
  using assms(2,4-6)
proof (induction ks arbitrary: d c L)
  case (Cons k ks)
  obtain d1 c1 where e: "relax_edge rels (d, c) k = (d1, c1)" by fastforce
  have k: "k \<in> set (sortedRelationKeys rels)" and w: "\<bar>weight rels k\<bar> \<le> W"
    using Cons.prems(1) assms(1) by (auto simp: small_weights_def)
  have fits: "L + W \<le> MaxInt64" "L + W + int (length ks) * W \<le> MaxInt64"
    using Cons.prems(3) assms(3) by (simp_all add: algebra_simps) (smt (verit) mult_nonneg_nonneg of_nat_0_le_iff)
  note cs = relax_edge_cases [OF Cons.prems(2) w fits(1) e]
  have b: "bounded (L + W) d1" by (rule relax_edge_bounded [OF Cons.prems(2) w fits(1) e])
  have rest: "foldl (relax_edge rels) (d1, c1) ks = (d', c')" using Cons.prems(4) e by simp
  have IH: "bounded (L + W + int (length ks) * W) d'" "\<forall>v. d' v \<le> d1 v"
    "\<And>f. solves rels f \<Longrightarrow> \<forall>v. f v \<le> d1 v \<Longrightarrow> \<forall>v. f v \<le> d' v"
    "\<forall>k\<in>set ks. d' (fst k) \<le> d1 (snd k) + weight rels k" "\<forall>v. v \<notin> fst ` set ks \<longrightarrow> d' v = d1 v"
    "\<not> c' \<Longrightarrow> \<not> c1 \<and> d' = d1 \<and> (\<forall>k\<in>set ks. d1 (fst k) \<le> d1 (snd k) + weight rels k)"
    using Cons.IH [OF _ b fits(2) rest] Cons.prems(1) by simp_all
  have d1: "d1 v \<le> d v" "v \<noteq> fst k \<Longrightarrow> d1 v = d v" "d1 (fst k) \<le> d (snd k) + weight rels k" for v
    using cs(1) by auto
  have low: "\<forall>v. f v \<le> d1 v" if f: "solves rels f" "\<forall>v. f v \<le> d v" for f
  proof
    fix v
    have "f (fst k) \<le> f (snd k) + weight rels k" using f(1) k unfolding solves_def by blast
    also have "\<dots> \<le> d (snd k) + weight rels k" using f(2) by simp
    finally show "f v \<le> d1 v" using cs(1) f(2) by (cases "v = fst k") auto
  qed
  have each: "\<forall>k\<in>set (k # ks). d' (fst k) \<le> d (snd k) + weight rels k"
    using IH(2,4) d1(1,3) by (auto intro: order_trans)
  have unchanged: "\<not> c \<and> d' = d \<and> (\<forall>k\<in>set (k # ks). d (fst k) \<le> d (snd k) + weight rels k)" if "\<not> c'"
  proof -
    have "\<not> c1" "d' = d1" "\<forall>k\<in>set ks. d1 (fst k) \<le> d1 (snd k) + weight rels k" using IH(6) [OF that] by auto
    moreover have "\<not> c" "\<not> d (snd k) + weight rels k < d (fst k)" using calculation(1) cs(2) by auto
    moreover have "d1 = d" using cs(1) calculation(5) by (simp add: min_def fun_eq_iff)
    ultimately show ?thesis by auto
  qed
  have "bounded (L + int (length (k # ks)) * W) d'" using IH(1) by (simp add: algebra_simps)
  moreover have "\<forall>v. d' v \<le> d v" using IH(2) d1(1) by (meson order_trans)
  moreover have "\<forall>v. v \<notin> fst ` set (k # ks) \<longrightarrow> d' v = d v" using IH(5) d1(2) by simp
  ultimately show ?case using each low IH(3) unchanged by blast
qed simp

section \<open>The greatest solution\<close>

lemma greatest_int:
  fixes S :: "int set"
  assumes "x \<in> S" "\<And>y. y \<in> S \<Longrightarrow> y \<le> 0"
  shows "\<exists>m\<in>S. \<forall>y\<in>S. y \<le> m"
proof -
  obtain m where m: "m \<in> S" "\<And>y. y \<in> S \<Longrightarrow> nat (- m) \<le> nat (- y)"
    using ex_has_least_nat [of "\<lambda>y. y \<in> S" x "\<lambda>y. nat (- y)"] assms(1) by blast
  have "y \<le> m" if "y \<in> S" for y using m(2) [OF that] assms(2) [OF that] assms(2) [OF m(1)] by linarith
  then show ?thesis using m(1) by blast
qed

text \<open>Solutions that are nowhere positive, and zero outside of the variables.\<close>

definition candidate :: "(relationKey \<times> int) list \<Rightarrow> (PathKey \<Rightarrow> int) \<Rightarrow> bool" where
  "candidate rels f \<longleftrightarrow> solves rels f \<and> (\<forall>v. f v \<le> 0) \<and> (\<forall>v. v \<notin> set (relation_vars rels) \<longrightarrow> f v = 0)"

lemma set_relation_vars: "set (relation_vars rels) = fst ` set (sortedRelationKeys rels) \<union> snd ` set (sortedRelationKeys rels)"
  by (auto simp: relation_vars_def)

lemma candidate_exists:
  assumes "solves rels val"
  shows "\<exists>f. candidate rels f"
proof -
  let ?V = "set (relation_vars rels)" and ?f = "\<lambda>v. if v \<in> set (relation_vars rels) then val v - Max (val ` set (relation_vars rels)) else 0"
  have ends: "fst k \<in> ?V" "snd k \<in> ?V" if "k \<in> set (sortedRelationKeys rels)" for k
    using that unfolding set_relation_vars by blast+
  have "solves rels ?f" using assms ends unfolding solves_def by force
  moreover have "?f v \<le> 0" for v using Max_ge [of "val ` ?V" "val v"] by auto
  ultimately show ?thesis unfolding candidate_def by (intro exI [of _ ?f]) auto
qed

lemma greatest_candidate:
  assumes "solves rels val"
  shows "\<exists>g. candidate rels g \<and> (\<forall>f. candidate rels f \<longrightarrow> (\<forall>v. f v \<le> g v))"
proof -
  have "\<exists>m. (\<exists>f. candidate rels f \<and> f v = m) \<and> (\<forall>f. candidate rels f \<longrightarrow> f v \<le> m)" for v
  proof -
    let ?S = "{f v | f. candidate rels f}"
    obtain f where f: "candidate rels f" using candidate_exists [OF assms] by blast
    have "f v \<in> ?S" using f by blast
    moreover have "y \<le> 0" if "y \<in> ?S" for y using that by (auto simp: candidate_def)
    ultimately obtain m where "m \<in> ?S" "\<forall>y\<in>?S. y \<le> m" using greatest_int [of "f v" ?S] by blast
    then show ?thesis by blast
  qed
  then obtain g where g: "\<And>v. \<exists>f. candidate rels f \<and> f v = g v" "\<And>f v. candidate rels f \<Longrightarrow> f v \<le> g v" by metis
  have "solves rels g"
    unfolding solves_def
  proof
    fix k assume k: "k \<in> set (sortedRelationKeys rels)"
    obtain f where f: "candidate rels f" "f (fst k) = g (fst k)" using g(1) by blast
    then have "f (fst k) \<le> f (snd k) + weight rels k" using k by (auto simp: candidate_def solves_def)
    then show "g (fst k) \<le> g (snd k) + weight rels k" using f g(2) [OF f(1), of "snd k"] by linarith
  qed
  moreover have "g v \<le> 0" "v \<notin> set (relation_vars rels) \<Longrightarrow> g v = 0" for v
    using g(1) [of v] unfolding candidate_def by metis+
  ultimately show ?thesis using g(2) unfolding candidate_def by blast
qed

text \<open>A variable that is above the greatest solution, on a tight constraint from one that is not.\<close>

lemma unsettled_edge:
  assumes g: "candidate rels g" "\<forall>f v. candidate rels f \<longrightarrow> f v \<le> g v"
    and d: "\<And>v. g v \<le> d v" "\<And>v. d v \<le> 0" "d u \<noteq> g u"
  shows "\<exists>k\<in>set (sortedRelationKeys rels). g (fst k) < d (fst k) \<and> d (snd k) = g (snd k) \<and> g (fst k) = g (snd k) + weight rels k"
proof (rule ccontr)
  assume no: "\<not> ?thesis"
  let ?h = "\<lambda>v. if g v < d v then g v + 1 else g v"
  have "?h (fst k) \<le> ?h (snd k) + weight rels k" if k: "k \<in> set (sortedRelationKeys rels)" for k
  proof -
    have e: "g (fst k) \<le> g (snd k) + weight rels k" using g(1) k unfolding candidate_def solves_def by blast
    have "g (fst k) \<noteq> g (snd k) + weight rels k" if "g (fst k) < d (fst k)" "d (snd k) = g (snd k)" using no k that by blast
    then show ?thesis using e d(1) [of "snd k"] by auto
  qed
  moreover have "?h v \<le> 0" for v using d(2) [of v] g(1) by (auto simp: candidate_def)
  moreover have "?h v = 0" if "v \<notin> set (relation_vars rels)" for v
  proof -
    have "g v = 0" using g(1) that by (simp add: candidate_def)
    then show ?thesis using d(2) [of v] by auto
  qed
  ultimately have "candidate rels ?h" unfolding candidate_def solves_def by blast
  then have "?h u \<le> g u" using g(2) by blast
  then show False using d(1) [of u] d(3) by (auto split: if_splits)
qed

section \<open>All rounds\<close>

lemma round_settles:
  assumes g: "candidate rels g" "\<forall>f v. candidate rels f \<longrightarrow> f v \<le> g v"
    and d: "\<And>v. g v \<le> d v" "\<And>v. d v \<le> 0" "\<And>v. v \<notin> set (relation_vars rels) \<Longrightarrow> d v = 0"
    and d': "\<And>v. d' v \<le> d v" "\<And>v. g v \<le> d' v"
      "\<And>k. k \<in> set (sortedRelationKeys rels) \<Longrightarrow> d' (fst k) \<le> d (snd k) + weight rels k"
    and "{v. g v < d v} \<noteq> {}"
  shows "card {v. g v < d' v} < card {v. g v < d v}"
proof (rule psubset_card_mono)
  have "{v. g v < d v} \<subseteq> set (relation_vars rels)"
    using d(3) g(1) unfolding candidate_def by fastforce
  then show "finite {v. g v < d v}" using finite_subset by blast
  obtain u where "d u \<noteq> g u" using assms(9) by fastforce
  then obtain k where k: "k \<in> set (sortedRelationKeys rels)" "g (fst k) < d (fst k)" "d (snd k) = g (snd k)" "g (fst k) = g (snd k) + weight rels k"
    using unsettled_edge [of rels g d u, OF g] d(1,2) by blast
  then have "d' (fst k) \<le> g (fst k)" using d'(3) [OF k(1)] by simp
  then have "fst k \<notin> {v. g v < d' v}" "fst k \<in> {v. g v < d v}" using k(2) by simp_all
  moreover have "{v. g v < d' v} \<subseteq> {v. g v < d v}" using d'(1) by (auto intro: order.strict_trans2)
  ultimately show "{v. g v < d' v} \<subset> {v. g v < d v}" by blast
qed

lemma rounds_settle:
  assumes "small_weights rels W" "0 \<le> W" "bounded L d" "\<And>v. v \<notin> set (relation_vars rels) \<Longrightarrow> d v = 0"
    "L + int (n * length rels) * W \<le> MaxInt64"
  shows "bounded (L + int (n * length rels) * W) (relax_rounds rels n d)
    \<and> (\<forall>g. candidate rels g \<longrightarrow> (\<forall>f v. candidate rels f \<longrightarrow> f v \<le> g v) \<longrightarrow> (\<forall>v. g v \<le> d v) \<longrightarrow> card {v. g v < d v} \<le> n
        \<longrightarrow> solves rels (relax_rounds rels n d))"
  using assms(3-5)
proof (induction n arbitrary: L d)
  case 0
  have "solves rels d" if g: "candidate rels g" "\<forall>v. g v \<le> d v" "card {v. g v < d v} \<le> 0" for g
  proof -
    have "{v. g v < d v} \<subseteq> set (relation_vars rels)" using 0(2) g(1) unfolding candidate_def by fastforce
    then have "{v. g v < d v} = {}" using g(3) finite_subset [of "{v. g v < d v}"] by simp
    then have no: "\<not> g v < d v" for v by blast
    have "d v = g v" for v using no [of v] spec [OF g(2), of v] by linarith
    then have "d = g" by blast
    then show ?thesis using g(1) by (simp add: candidate_def)
  qed
  then show ?case using 0 by simp
next
  case (Suc n)
  let ?ks = "sortedRelationKeys rels"
  obtain d' c' where r: "foldl (relax_edge rels) (d, False) ?ks = (d', c')" by fastforce
  have len: "length ?ks = length rels" by (simp add: sortedRelationKeys_def)
  have fits: "L + int (length rels) * W \<le> MaxInt64" "L + int (length rels) * W + int (n * length rels) * W \<le> MaxInt64"
  proof -
    have "0 \<le> int (n * length rels) * W" using assms(2) by simp
    moreover have "int (Suc n * length rels) * W = int (length rels) * W + int (n * length rels) * W" by (simp add: algebra_simps)
    ultimately show "L + int (length rels) * W \<le> MaxInt64" "L + int (length rels) * W + int (n * length rels) * W \<le> MaxInt64"
      using Suc.prems(3) by linarith+
  qed
  note step = round_step [OF assms(1) subset_refl assms(2) Suc.prems(1) _ r, unfolded len, OF fits(1)]
  note b = step [THEN conjunct1] and step = step [THEN conjunct2]
  note dec = step [THEN conjunct1, THEN spec] and step = step [THEN conjunct2]
  note low = step [THEN conjunct1, THEN spec, THEN mp, THEN mp, THEN spec] and step = step [THEN conjunct2]
  note each = step [THEN conjunct1, THEN bspec] and step = step [THEN conjunct2]
  note others = step [THEN conjunct1, THEN spec, THEN mp] and stop = step [THEN conjunct2, THEN mp, THEN conjunct2]
  have out: "d' v = 0" if "v \<notin> set (relation_vars rels)" for v
    using others [of v] Suc.prems(2) [OF that] that unfolding set_relation_vars by simp
  have "bounded (L + int (length rels) * W + int (n * length rels) * W) (relax_rounds rels n d')
    \<and> (\<forall>g. candidate rels g \<longrightarrow> (\<forall>f v. candidate rels f \<longrightarrow> f v \<le> g v) \<longrightarrow> (\<forall>v. g v \<le> d' v) \<longrightarrow> card {v. g v < d' v} \<le> n
        \<longrightarrow> solves rels (relax_rounds rels n d'))"
    using out by (intro Suc.IH b fits(2))
  note IH = this
  show ?case
  proof (cases c')
    case True
    have res: "relax_rounds rels (Suc n) d = relax_rounds rels n d'" using r True by simp
    have keep: "g v \<le> d' v" if "candidate rels g" "\<forall>v. g v \<le> d v" for g v
      using low [of g v] that by (simp add: candidate_def)
    have fewer: "card {v. g v < d' v} \<le> n" if g: "candidate rels g" "\<forall>f v. candidate rels f \<longrightarrow> f v \<le> g v" "\<forall>v. g v \<le> d v"
      "card {v. g v < d v} \<le> Suc n" for g
    proof (cases "{v. g v < d v} = {}")
      case True
      then have "{v. g v < d' v} = {}" using dec by (auto intro: order.strict_trans2)
      then show ?thesis by simp
    next
      case False
      have "card {v. g v < d' v} < card {v. g v < d v}"
      proof (rule round_settles [OF g(1,2)])
        show "g v \<le> d v" for v using g(3) by blast
        show "d v \<le> 0" for v using Suc.prems(1) by (simp add: bounded_def)
        show "v \<notin> set (relation_vars rels) \<Longrightarrow> d v = 0" for v by (rule Suc.prems(2))
        show "d' v \<le> d v" for v by (rule dec)
        show "g v \<le> d' v" for v by (rule keep [OF g(1,3)])
        show "k \<in> set ?ks \<Longrightarrow> d' (fst k) \<le> d (snd k) + weight rels k" for k by (rule each)
      qed (rule False)
      then show ?thesis using g(4) by simp
    qed
    have "bounded (L + int (Suc n * length rels) * W) (relax_rounds rels n d')"
      using IH by (simp add: algebra_simps)
    moreover have "solves rels (relax_rounds rels n d')" if g: "candidate rels g" "\<forall>f v. candidate rels f \<longrightarrow> f v \<le> g v"
      "\<forall>v. g v \<le> d v" "card {v. g v < d v} \<le> Suc n" for g
    proof -
      have "\<forall>v. g v \<le> d' v" using keep [OF g(1,3)] by blast
      then show ?thesis using IH [THEN conjunct2, THEN spec, THEN mp, THEN mp, THEN mp, THEN mp, OF g(1,2) _ fewer [OF g]] by blast
    qed
    ultimately show ?thesis unfolding res by blast
  next
    case False
    have res: "relax_rounds rels (Suc n) d = d" using r False stop by simp
    have "solves rels d" using stop False unfolding solves_def by blast
    moreover have "bounded (L + int (Suc n * length rels) * W) d"
      using bounded_mono [OF Suc.prems(1)] mult_nonneg_nonneg [of "int (Suc n * length rels)" W] assms(2) by simp
    ultimately show ?thesis unfolding res by blast
  qed
qed

section \<open>The check\<close>

lemma check_decides:
  assumes "small_weights rels W" "0 \<le> W" "int (length (relation_vars rels) * length rels + 1) * W \<le> MaxInt64"
  shows "checkDifferenceConstraints rels \<longleftrightarrow> (\<exists>val. all_facts (diff_within val) (map_of rels))"
proof (cases "rels = []")
  case True
  then show ?thesis by (simp add: checkDifferenceConstraints_def)
next
  case False
  let ?n = "length (relation_vars rels)" and ?L = "int (length (relation_vars rels) * length rels) * W"
  define d where "d = relax_rounds rels ?n (\<lambda>_. 0)"
  have L: "?L + W \<le> MaxInt64" using assms(3) by (simp add: algebra_simps)
  have "bounded 0 (\<lambda>_. 0)" by (simp add: bounded_def)
  note all = rounds_settle [OF assms(1,2) this, of ?n]
  have b: "bounded ?L d" using all L assms(2) unfolding d_def by simp
  have check: "checkDifferenceConstraints rels \<longleftrightarrow> solves rels d"
  proof -
    have "wrap64 (d (snd k) + weight rels k) < d (fst k) \<longleftrightarrow> \<not> d (fst k) \<le> d (snd k) + weight rels k"
      if "k \<in> set (sortedRelationKeys rels)" for k
      using sum_fits [OF b _ L, of "weight rels k" "snd k"] assms(1) that by (auto simp: small_weights_def)
    then show ?thesis using False unfolding checkDifferenceConstraints_def solves_def d_def [symmetric] by (simp add: Let_def)
  qed
  have "solves rels d" if sol: "solves rels val" for val
  proof -
    obtain g where g: "candidate rels g" "\<forall>f. candidate rels f \<longrightarrow> (\<forall>v. f v \<le> g v)" using greatest_candidate [OF sol] by blast
    have "{v. g v < 0} \<subseteq> set (relation_vars rels)" using g(1) unfolding candidate_def by force
    then have "card {v. g v < 0} \<le> ?n" using card_mono [of "set (relation_vars rels)"] card_length le_trans by blast
    then show ?thesis using all L assms(2) g unfolding d_def by (simp add: candidate_def)
  qed
  then show ?thesis unfolding check solves_facts [symmetric] by blast
qed

text \<open>
  C40: The satisfiability check of a state that is not marked unsatisfiable says no exactly when no
  interval or no solution of the differences is left: it fails if and only if some interval is empty
  or the difference constraints have no solution in the integers, and then marks the state. The weights have to be small enough
  that the sum of as many of them as there are relaxations fits 64 bits.
\<close>

theorem satisfiability_decided:
  assumes "\<not> unsat s" "small_weights (relations s) W" "0 \<le> W"
    "int (length (relation_vars (relations s)) * length (relations s) + 1) * W \<le> MaxInt64"
    "CheckSatisfiability s = (ok, s')"
  shows "(ok \<longleftrightarrow> (\<forall>(_, b) \<in> set (facts (bounds s)). Lower b \<le> Upper b)
      \<and> (\<exists>val. all_facts (diff_within val) (map_of (relations s))))
    \<and> (if ok then s' = s else s' = s\<lparr>unsat := True\<rparr>) \<and> (\<not> ok \<longrightarrow> distinct (map fst (facts (bounds s))) \<longrightarrow> \<not> state_holds val len s)"
proof -
  have dec: "checkDifferenceConstraints (relations s) \<longleftrightarrow> (\<exists>val. all_facts (diff_within val) (map_of (relations s)))"
    by (rule check_decides [OF assms(2-4)])
  have nil: "checkDifferenceConstraints []" by (simp add: checkDifferenceConstraints_def)
  have ok: "ok \<longleftrightarrow> (\<forall>(_, b) \<in> set (facts (bounds s)). Lower b \<le> Upper b) \<and> checkDifferenceConstraints (relations s)"
    "if ok then s' = s else s' = s\<lparr>unsat := True\<rparr>"
    using assms(1,5) nil by (fastforce simp: CheckSatisfiability_def split: if_splits)+
  have "(\<forall>(_, b) \<in> set (facts (bounds s)). Lower b \<le> Upper b) \<and> (\<exists>val. all_facts (diff_within val) (map_of (relations s)))"
    if "state_holds val len s" "distinct (map fst (facts (bounds s)))"
  proof -
    have "Lower b \<le> Upper b" if "(k, b) \<in> set (facts (bounds s))" for k b
    proof -
      have "map_of (facts (bounds s)) k = Some b" using that \<open>distinct _\<close> by simp
      moreover have "all_facts (in_interval val) (map_of (facts (bounds s)))" using \<open>state_holds val len s\<close> by (simp add: state_holds_def)
      ultimately show ?thesis using all_factsD by fastforce
    qed
    then show ?thesis using that(1) by (auto simp: state_holds_def)
  qed
  then show ?thesis using ok dec by blast
qed

theorem satisfiability_decided_witness:
  "(let s = NewState\<lparr>relations := [((''x'', ''y''), - 1), ((''y'', ''x''), - 1)]\<rparr> in
     CheckSatisfiability s = (False, s\<lparr>unsat := True\<rparr>) \<and> \<not> state_holds (\<lambda>_. 0) (\<lambda>_. 0) s)"
proof -
  let ?s = "NewState\<lparr>relations := [((''x'', ''y''), - 1), ((''y'', ''x''), - 1)]\<rparr>"
  have c: "CheckSatisfiability ?s = (False, ?s\<lparr>unsat := True\<rparr>)" by code_simp
  have "small_weights (relations ?s) 1" by (simp add: small_weights_def)
  moreover have "length (relation_vars (relations ?s)) = 2" by code_simp
  ultimately show ?thesis
    using satisfiability_decided [OF _ _ _ _ c, of 1 "\<lambda>_. 0" "\<lambda>_. 0"] c by (simp add: NewState_def Let_def)
qed

end
