(* ===== verification/NumericTheory.thy ===== *)
theory NumericTheory
  imports Difference Modular BellmanFord
begin

text \<open>
  The bridge from the numeric state to the theory solvers (\<open>types/flow/numeric/theory.go\<close>) and the
  numeric domain of the flow solver (\<open>types/flow/numeric/domain.go\<close>), which applies every atom to both.
  The lemmas show that what the solvers are told is true in every assignment that the state
  allows, so that the bounds they infer are, and that the domain does not reject an atom that can hold.

  A query of the difference graph may compute its distances, so it returns the solver as well. A nil
  state is \<open>None\<close>; the result of an operation that would write to a nil map is \<open>None\<close>.
\<close>

section \<open>Model\<close>

record TheorySolver =
  ts_diff :: DifferenceGraph
  ts_mod :: ModularSolver

definition NewTheorySolver :: TheorySolver where
  "NewTheorySolver = \<lparr>ts_diff = NewDifferenceGraph, ts_mod = NewModularSolver\<rparr>"

definition ts_Clone :: "TheorySolver \<Rightarrow> TheorySolver" where
  "ts_Clone t = \<lparr>ts_diff = Difference.Clone (ts_diff t), ts_mod = CloneModular (ts_mod t)\<rparr>"

definition with_diff :: "(DifferenceGraph \<Rightarrow> DifferenceGraph) \<Rightarrow> TheorySolver \<Rightarrow> TheorySolver" where
  "with_diff f t = t\<lparr>ts_diff := f (ts_diff t)\<rparr>"

definition with_mod :: "(ModularSolver \<Rightarrow> ModularSolver) \<Rightarrow> TheorySolver \<Rightarrow> TheorySolver" where
  "with_mod f t = t\<lparr>ts_mod := f (ts_mod t)\<rparr>"

definition AddBounds :: "PathKey \<Rightarrow> int \<Rightarrow> int \<Rightarrow> TheorySolver \<Rightarrow> TheorySolver" where
  "AddBounds key lower upper t =
     (if lower = upper then with_mod (AddEquality key lower) (with_diff (AddConst key lower) t)
      else let
        t = (if upper < maxWeight then with_diff (AddUpperBound key upper) t else t);
        t = (if lower > - maxWeight then with_diff (AddLowerBound key lower) t else t)
      in with_mod (AddRange key lower upper) t)"

definition AddDifferenceConstraint :: "PathKey \<Rightarrow> PathKey \<Rightarrow> int \<Rightarrow> TheorySolver \<Rightarrow> TheorySolver" where
  "AddDifferenceConstraint x y c t = with_diff (AddLE x y c) t"

definition AddModular :: "PathKey \<Rightarrow> int \<Rightarrow> int \<Rightarrow> TheorySolver \<Rightarrow> TheorySolver" where
  "AddModular key modulus residue t = t"

definition load_bound :: "(PathKey \<times> Interval) list \<Rightarrow> TheorySolver \<Rightarrow> PathKey \<Rightarrow> TheorySolver" where
  "load_bound bs t key =
     (let interval = the (map_of bs key) in AddBounds key (Lower interval) (Upper interval) t)"

definition load_relation :: "TheorySolver \<Rightarrow> PathKey \<times> (PathKey \<times> int) list \<Rightarrow> TheorySolver" where
  "load_relation t row =
     (case row of (x, rels) \<Rightarrow>
        foldl (\<lambda>t y. with_diff (AddLE x y (the (map_of rels y))) t) t (SortedPathKeys rels))"

definition load_modular :: "(PathKey \<times> Interval) list \<Rightarrow> TheorySolver \<Rightarrow> PathKey \<Rightarrow> TheorySolver" where
  "load_modular bs t key =
     (case map_of bs key of
        None \<Rightarrow> t
      | Some interval \<Rightarrow> with_mod (AddRange key (Lower interval) (Upper interval)) t)"

definition LoadFromState :: "State option \<Rightarrow> TheorySolver \<Rightarrow> TheorySolver" where
  "LoadFromState s t =
     (case s of
        None \<Rightarrow> t
      | Some st \<Rightarrow>
          if unsat st then t
          else let
            bs = facts (bounds st);
            rels = Relations s;
            t = foldl (load_bound bs) t (SortedPathKeys bs);
            t = foldl load_relation t (map (\<lambda>x. (x, the (map_of rels x))) (SortedPathKeys rels))
          in foldl (load_modular bs) t (SortedPathKeys (facts (modular st))))"

definition ts_CheckSatisfiability :: "TheorySolver \<Rightarrow> bool \<times> TheorySolver" where
  "ts_CheckSatisfiability t = (case HasNegativeCycle (ts_diff t) of (neg, g) \<Rightarrow> (\<not> neg, t\<lparr>ts_diff := g\<rparr>))"

definition InferBounds :: "PathKey \<Rightarrow> TheorySolver \<Rightarrow> (int \<times> int) option \<times> TheorySolver" where
  "InferBounds key t =
     (case GetLowerBound key (ts_diff t) of (lower, g) \<Rightarrow>
      case GetUpperBound key g of (upper, g) \<Rightarrow>
        (case (lower, upper) of
           (None, None) \<Rightarrow> None
         | (Some l, Some u) \<Rightarrow> Some (l, u)
         | (Some l, None) \<Rightarrow> Some (l, maxWeight)
         | (None, Some u) \<Rightarrow> Some (- maxWeight, u), t\<lparr>ts_diff := g\<rparr>))"

definition ts_InferRelationalBound :: "PathKey \<Rightarrow> PathKey \<Rightarrow> TheorySolver \<Rightarrow> int option \<times> TheorySolver" where
  "ts_InferRelationalBound x y t = (case GetBound x y (ts_diff t) of (b, g) \<Rightarrow> (b, t\<lparr>ts_diff := g\<rparr>))"

definition CheckModularConsistency :: "TheorySolver \<Rightarrow> PathKey \<Rightarrow> int \<Rightarrow> int \<Rightarrow> bool" where
  "CheckModularConsistency t key modulus residue = IsConsistent (ts_mod t) key modulus residue"

definition CountModularInRange :: "TheorySolver \<Rightarrow> PathKey \<Rightarrow> int \<Rightarrow> int \<Rightarrow> int" where
  "CountModularInRange t key modulus residue = CountInRange (ts_mod t) key modulus residue"

fun AddConstraintWithResolver :: "NumericConstraint \<Rightarrow> (Path \<Rightarrow> PathKey) option \<Rightarrow> TheorySolver \<Rightarrow> TheorySolver" where
  "AddConstraintWithResolver nc resolver t =
     (case resolver of
        None \<Rightarrow> t
      | Some resolve \<Rightarrow>
          if \<exists>p\<in>set (num_Paths nc). resolve p = [] then t
          else case nc of
            Atoms.Le x y c \<Rightarrow> with_diff (AddLE (resolve x) (resolve y) c) t
          | Lt x y \<Rightarrow> with_diff (AddLT (resolve x) (resolve y)) t
          | Ge x y \<Rightarrow> with_diff (AddGE (resolve x) (resolve y)) t
          | Gt x y \<Rightarrow> with_diff (AddGT (resolve x) (resolve y)) t
          | Eq x y \<Rightarrow> with_diff (AddEQ (resolve x) (resolve y)) t
          | EqConst x c \<Rightarrow> with_mod (AddEquality (resolve x) c) (with_diff (AddConst (resolve x) c) t)
          | LeConst x c \<Rightarrow> with_diff (AddUpperBound (resolve x) c) t
          | GeConst x c \<Rightarrow> with_diff (AddLowerBound (resolve x) c) t
          | _ \<Rightarrow> t)"

definition ToTheorySolver :: "State option \<Rightarrow> TheorySolver" where
  "ToTheorySolver s = LoadFromState s NewTheorySolver"

text \<open>The keys of bounds and relations, and the loop that applies what is inferred for them.\<close>

definition tighten_keys :: "State \<Rightarrow> PathKey list" where
  "tighten_keys s =
     (let rels = Relations (Some s) in
      sort (remdups (SortedPathKeys (facts (bounds s))
        @ concat (map (\<lambda>x. x # SortedPathKeys (the (map_of rels x))) (SortedPathKeys rels)))))"

fun tighten_loop :: "(PathKey \<times> Interval) list \<Rightarrow> PathKey list \<Rightarrow> TheorySolver \<Rightarrow> State \<Rightarrow> State option" where
  "tighten_loop bs [] ts result = Some result"
| "tighten_loop bs (key # keys) ts result =
     (case InferBounds key ts of
        (None, ts) \<Rightarrow> tighten_loop bs keys ts result
      | (Some (lower, upper), ts) \<Rightarrow>
          (case map_of bs key of
             Some existing \<Rightarrow>
               let newLower = maxInt64 (Lower existing) lower; newUpper = minInt64 (Upper existing) upper in
               if newLower > newUpper then Some Bottom
               else if newLower \<noteq> Lower existing \<or> newUpper \<noteq> Upper existing then
                 Option.bind (applyGeConst key newLower result)
                   (\<lambda>r. Option.bind (applyLeConst key newUpper r) (tighten_loop bs keys ts))
               else tighten_loop bs keys ts result
           | None \<Rightarrow>
               if lower > MinInt64 \<or> upper < MaxInt64 then
                 Option.bind (if lower > MinInt64 then applyGeConst key lower result else Some result)
                   (\<lambda>r. Option.bind (if upper < MaxInt64 then applyLeConst key upper r else Some r) (tighten_loop bs keys ts))
               else tighten_loop bs keys ts result))"

definition TightenWithTheory :: "State option \<Rightarrow> State option option" where
  "TightenWithTheory s =
     (case s of
        None \<Rightarrow> Some None
      | Some st \<Rightarrow>
          if unsat st then Some s
          else case ts_CheckSatisfiability (ToTheorySolver s) of (ok, ts) \<Rightarrow>
            if \<not> ok then Some (Some Bottom)
            else map_option Some (tighten_loop (facts (bounds st)) (tighten_keys st) ts (the (state_Clone s))))"

definition BoundsForWithTheory :: "State option \<Rightarrow> PathKey \<Rightarrow> (int \<times> int) option" where
  "BoundsForWithTheory s key =
     (case s of
        None \<Rightarrow> None
      | Some st \<Rightarrow>
          (case bounds st of
             None \<Rightarrow> None
           | Some bs \<Rightarrow>
               let direct = (case map_of bs key of Some i \<Rightarrow> (Lower i, Upper i) | None \<Rightarrow> (MinInt64, MaxInt64));
                   tight = (if Relations s \<noteq> [] then
                     case fst (InferBounds key (ToTheorySolver s)) of
                       Some (l, u) \<Rightarrow> (maxInt64 (fst direct) l, minInt64 (snd direct) u)
                     | None \<Rightarrow> direct
                   else direct)
               in if fst tight > MinInt64 \<or> snd tight < MaxInt64 then Some tight else None))"

definition CountModularValues :: "State option \<Rightarrow> PathKey \<Rightarrow> int \<Rightarrow> int \<Rightarrow> int" where
  "CountModularValues s key modulus residue =
     (if s = None \<or> modulus \<le> 0 then - 1 else CountModularInRange (ToTheorySolver s) key modulus residue)"

definition InferRelationalBound :: "State option \<Rightarrow> PathKey \<Rightarrow> PathKey \<Rightarrow> int option" where
  "InferRelationalBound s x y =
     (if s = None \<or> Relations s = [] then None else fst (ts_InferRelationalBound x y (ToTheorySolver s)))"

subsection \<open>The domain\<close>

text \<open>The environment of the checker is handed on and not used; it is a type parameter.\<close>

record 'env Domain =
  d_state :: "State option"
  d_theory :: TheorySolver
  d_env :: 'env

definition NewDomain :: "'env \<Rightarrow> 'env Domain" where
  "NewDomain env = \<lparr>d_state = Some NewState, d_theory = NewTheorySolver, d_env = env\<rparr>"

definition apply_atom_state :: "Atom \<Rightarrow> State \<Rightarrow> State option" where
  "apply_atom_state a s =
     (let l = ALeft a; r = ARight a; x = TPath l; y = TPath r in
      case AKind a of
        AtomKindLt \<Rightarrow> Some (if IsVar l \<and> IsVar r then applyLt x y s else s)
      | AtomKindLe \<Rightarrow>
          if IsVar l \<and> IsConst r then applyLeConst x (TConst r) s
          else Some (if IsVar l \<and> IsLen r then applyLeLenOf x y 0 s
            else if IsVar l \<and> IsVar r then applyLe x y s else s)
      | AtomKindGe \<Rightarrow>
          if IsVar l \<and> IsConst r then applyGeConst x (TConst r) s
          else Some (if IsVar l \<and> IsVar r then applyGe x y s else s)
      | AtomKindGt \<Rightarrow> Some (if IsVar l \<and> IsVar r then applyGt x y s else s)
      | AtomKindEq \<Rightarrow>
          if IsVar l \<and> IsConst r then applyEqConst x (TConst r) s
          else Some (if IsVar l \<and> IsVar r then applyEq x y s else s)
      | AtomKindModEq \<Rightarrow> if IsVar l then applyModEq x (AMod a) (ARem a) s else Some s
      | _ \<Rightarrow> Some s)"

definition apply_atom_theory :: "Atom \<Rightarrow> TheorySolver \<Rightarrow> TheorySolver" where
  "apply_atom_theory a t =
     (let l = ALeft a; r = ARight a; x = TPath l; y = TPath r in
      case AKind a of
        AtomKindLt \<Rightarrow> if IsVar l \<and> IsVar r then AddDifferenceConstraint x y (- 1) t else t
      | AtomKindLe \<Rightarrow>
          if IsVar l \<and> IsConst r then AddBounds x (- maxWeight) (TConst r) t
          else if IsVar l \<and> IsLen r then t
          else if IsVar l \<and> IsVar r then AddDifferenceConstraint x y 0 t else t
      | AtomKindGe \<Rightarrow>
          if IsVar l \<and> IsConst r then AddBounds x (TConst r) maxWeight t
          else if IsVar l \<and> IsVar r then AddDifferenceConstraint y x 0 t else t
      | AtomKindGt \<Rightarrow> if IsVar l \<and> IsVar r then AddDifferenceConstraint y x (- 1) t else t
      | AtomKindEq \<Rightarrow>
          if IsVar l \<and> IsConst r then AddBounds x (TConst r) (TConst r) t
          else if IsVar l \<and> IsVar r then AddDifferenceConstraint y x 0 (AddDifferenceConstraint x y 0 t) else t
      | AtomKindModEq \<Rightarrow> if IsVar l then AddModular x (AMod a) (ARem a) t else t
      | _ \<Rightarrow> t)"

definition ApplyAtom :: "Atom \<Rightarrow> 'env Domain \<Rightarrow> (bool \<times> 'env Domain) option" where
  "ApplyAtom a d =
     (case d_state d of
        None \<Rightarrow> Some (False, d)
      | Some s \<Rightarrow>
          if unsat s then Some (False, d)
          else case apply_atom_state a s of
            None \<Rightarrow> None
          | Some s \<Rightarrow>
              (case ts_CheckSatisfiability (apply_atom_theory a (d_theory d)) of (ok, t) \<Rightarrow>
                 if \<not> ok then Some (False, d\<lparr>d_state := Some (SetUnsat s), d_theory := t\<rparr>)
                 else Some (\<not> unsat s, d\<lparr>d_state := Some s, d_theory := t\<rparr>)))"

definition domain_IsUnsat :: "'env Domain \<Rightarrow> bool" where
  "domain_IsUnsat d = (case d_state d of None \<Rightarrow> False | Some s \<Rightarrow> unsat s)"

definition domain_Clone :: "'env Domain \<Rightarrow> 'env Domain" where
  "domain_Clone d = \<lparr>d_state = state_Clone (d_state d), d_theory = ts_Clone (d_theory d), d_env = d_env d\<rparr>"

definition rebuilt :: "State option \<Rightarrow> 'env \<Rightarrow> 'env Domain" where
  "rebuilt s env = \<lparr>d_state = s,
     d_theory = (if s \<noteq> None \<and> \<not> IsUnsat s then LoadFromState s NewTheorySolver else NewTheorySolver), d_env = env\<rparr>"

definition domain_Join :: "'env Domain \<Rightarrow> 'env Domain \<Rightarrow> 'env Domain" where
  "domain_Join d other = rebuilt (Join (d_state d) (d_state other)) (d_env d)"

definition domain_TightenWithTheory :: "'env Domain \<Rightarrow> 'env Domain option" where
  "domain_TightenWithTheory d = map_option (\<lambda>s. rebuilt s (d_env d)) (TightenWithTheory (d_state d))"

section \<open>What the theory solvers are told\<close>

lemma foldl_keeps:
  "(\<And>t k. k \<in> set ks \<Longrightarrow> P t \<Longrightarrow> P (f t k)) \<Longrightarrow> P t \<Longrightarrow> P (foldl f t ks)"
  by (induction ks arbitrary: t) auto

text \<open>The difference graph is well formed and says only what is true of an assignment.\<close>

definition knows :: "(PathKey \<Rightarrow> int) \<Rightarrow> TheorySolver \<Rightarrow> bool" where
  "knows val t \<longleftrightarrow> graph_ok (ts_diff t) \<and> sat val (ts_diff t) \<and> consts_hold val (ts_diff t)"

text \<open>The assignments for which the weights of the graph are exact: the zero node has the value zero.\<close>

definition small_values :: "(PathKey \<Rightarrow> int) \<Rightarrow> bool" where
  "small_values val \<longleftrightarrow> val ''0'' = 0 \<and> (\<forall>k. \<bar>val k\<bar> \<le> maxWeight)"

lemma small_valuesD: "small_values val \<Longrightarrow> val ''0'' = 0" "small_values val \<Longrightarrow> val k \<le> maxWeight"
  "small_values val \<Longrightarrow> - maxWeight \<le> val k" "small_values val \<Longrightarrow> is_int64 (val k)"
proof -
  assume r: "small_values val"
  then have "\<bar>val k\<bar> \<le> maxWeight" by (simp add: small_values_def)
  then show "val k \<le> maxWeight" "- maxWeight \<le> val k" "is_int64 (val k)"
    by (auto simp: is_int64_def)
qed (simp add: small_values_def)

lemma knows_op:
  assumes "small_values val" "knows val t" "is_int64 (op_const x)" "op_holds val x"
  shows "knows val (with_diff (add_op x) t)"
  using assms small_valuesD(1) [OF assms(1)] by (simp add: knows_def with_diff_def add_op_ok add_op_sat add_op_consts)

lemma knows_mod [simp]: "knows val (with_mod f t) \<longleftrightarrow> knows val t"
  by (simp add: knows_def with_mod_def)

lemma knows_difference:
  assumes "small_values val" "knows val t" "is_int64 c" "val x - val y \<le> c"
  shows "knows val (AddDifferenceConstraint x y c t)"
  using knows_op [OF assms(1,2), of "LE x y c"] assms(3,4) by (simp add: AddDifferenceConstraint_def)

lemma knows_bounds:
  assumes "small_values val" "knows val t" "is_int64 l" "is_int64 u" "l \<le> val x" "val x \<le> u"
  shows "knows val (AddBounds x l u t)"
  using assms knows_op [OF assms(1), of _ "dl_op.Const x l"] knows_op [OF assms(1), of _ "dl_op.Upper x u"]
    knows_op [OF assms(1), of _ "dl_op.Lower x l"]
  by (auto simp: AddBounds_def Let_def)

lemma NewTheorySolver_knows: "knows val NewTheorySolver"
  by (simp add: knows_def NewTheorySolver_def new_graph_ok sat_def holds_def consts_hold_def new_graph)

lemma query_knows:
  assumes "knows val t" "solve (ts_diff t) = (b, g)"
  shows "knows val (t\<lparr>ts_diff := g\<rparr>)"
  using solve_spec [of "ts_diff t"] assms by (auto simp: knows_def sat_def consts_hold_def)

lemma check_knows:
  assumes "knows val t"
  shows "\<exists>t'. ts_CheckSatisfiability t = (True, t') \<and> knows val t'"
proof -
  obtain b g where s: "solve (ts_diff t) = (b, g)" by fastforce
  have "b" using solve_spec [of "ts_diff t"] consistent_sound(2) [of "ts_diff t" val] assms s by (auto simp: knows_def)
  then show ?thesis using query_knows [OF assms s] s by (simp add: ts_CheckSatisfiability_def HasNegativeCycle_def)
qed

lemma GetBound_graph: "snd (GetBound x y g) = snd (solve g)"
  by (simp add: GetBound_def Let_def split: prod.split option.split)

lemma bound_queries_graph:
  "snd (GetUpperBound x g) = g \<or> snd (GetUpperBound x g) = snd (solve g)"
  "snd (GetLowerBound x g) = g \<or> snd (GetLowerBound x g) = snd (solve g)"
  using GetBound_graph [of x "''0''" g] GetBound_graph [of "''0''" x g]
  by (auto simp: GetUpperBound_def GetLowerBound_def split: option.split prod.splits)

lemma queried_knows:
  assumes "knows val t" "g = ts_diff t \<or> g = snd (solve (ts_diff t))"
  shows "knows val (t\<lparr>ts_diff := g\<rparr>)"
  using assms query_knows [OF assms(1), of "fst (solve (ts_diff t))" g] by (auto simp: prod_eq_iff)

lemma InferBounds_sound:
  assumes "small_values val" "knows val t" "InferBounds key t = (b, t')"
  shows "knows val t'" "b = Some (l, u) \<Longrightarrow> l \<le> val key \<and> val key \<le> u"
proof -
  obtain lo g where lo: "GetLowerBound key (ts_diff t) = (lo, g)" by fastforce
  obtain up h where up: "GetUpperBound key g = (up, h)" by fastforce
  have g: "knows val (t\<lparr>ts_diff := g\<rparr>)"
    using queried_knows [OF assms(2), of g] bound_queries_graph(2) [of key "ts_diff t"] lo by simp
  have h: "knows val (t\<lparr>ts_diff := h\<rparr>)"
    using queried_knows [OF g, of h] bound_queries_graph(1) [of key g] up by simp
  then show "knows val t'" using assms(3) lo up by (simp add: InferBounds_def)
  have "lo = Some c \<Longrightarrow> c \<le> val key" for c
    using GetLowerBound_sound [of "ts_diff t" val key c] assms(2) small_valuesD(1) [OF assms(1)] lo by (simp add: knows_def)
  moreover have "up = Some c \<Longrightarrow> val key \<le> c" for c
    using GetUpperBound_sound [of g val key c] g small_valuesD(1) [OF assms(1)] up by (simp add: knows_def)
  ultimately show "b = Some (l, u) \<Longrightarrow> l \<le> val key \<and> val key \<le> u"
    using assms(3) lo up small_valuesD(2,3) [OF assms(1), of key] by (auto simp: InferBounds_def split: option.splits)
qed

section \<open>Loading a state\<close>

text \<open>The constants of a state are 64-bit integers.\<close>

definition int64_facts :: "State \<Rightarrow> bool" where
  "int64_facts s \<longleftrightarrow>
     all_facts (\<lambda>_ i. is_int64 (Lower i) \<and> is_int64 (Upper i)) (map_of (facts (bounds s)))
   \<and> all_facts (\<lambda>_ c. is_int64 c) (map_of (relations s))"

lemma keys_mapped: "k \<in> set (SortedPathKeys m) \<Longrightarrow> map_of m k = Some (the (map_of m k))"
  using weak_map_of_SomeI [of k _ m] by force

text \<open>The nested map of relations has the relations of the state, row by row.\<close>

lemma Relations_fact:
  assumes "map_of (Relations (Some s)) x = Some row" "map_of row y = Some c"
  shows "map_of (relations s) (x, y) = Some c"
proof -
  let ?P = "\<lambda>result. \<forall>x row y c. map_of result x = Some row \<longrightarrow> map_of row y = Some c \<longrightarrow> map_of (relations s) (x, y) = Some c"
  have "?P (Relations (Some s))"
    unfolding Relations_def option.case
  proof (rule foldl_keeps)
    fix result rel assume "rel \<in> set (sortedRelationKeys (relations s))" and P: "?P result"
    then have "map_of (relations s) (fst rel, snd rel) = Some (the (map_of (relations s) rel))"
      using weak_map_of_SomeI [of rel _ "relations s"] by force
    with P show "?P (let inner = (case map_of result (fst rel) of None \<Rightarrow> [] | Some m \<Rightarrow> m)
          in AList.update (fst rel) (AList.update (snd rel) (the (map_of (relations s) rel)) inner) result)"
      by (auto simp: Let_def AList.update_conv' split: option.split)
  qed simp
  with assms show ?thesis by blast
qed

lemma load_relation_knows:
  assumes "small_values val" "knows val t" "\<And>y c. map_of row y = Some c \<Longrightarrow> is_int64 c \<and> val x - val y \<le> c"
  shows "knows val (load_relation t (x, row))"
  unfolding load_relation_def prod.case
proof (rule foldl_keeps)
  fix t y assume "y \<in> set (SortedPathKeys row)" "knows val t"
  then show "knows val (with_diff (AddLE x y (the (map_of row y))) t)"
    using knows_difference [OF assms(1), of t "the (map_of row y)" x y] assms(3) [OF keys_mapped]
    by (simp add: AddDifferenceConstraint_def)
qed (rule assms(2))

text \<open>The solver a state is loaded into knows nothing that is false where the state holds.\<close>

lemma LoadFromState_knows:
  assumes "small_values val" "int64_facts s" "state_holds val len s" "knows val t"
  shows "knows val (LoadFromState (Some s) t)"
proof -
  let ?bs = "facts (bounds s)" and ?rels = "Relations (Some s)"
  have b: "knows val (foldl (load_bound ?bs) t (SortedPathKeys ?bs))"
  proof (rule foldl_keeps)
    fix t k assume k: "k \<in> set (SortedPathKeys ?bs)" and t: "knows val t"
    obtain i where i: "map_of ?bs k = Some i" using keys_mapped [OF k] by blast
    then have "is_int64 (Lower i)" "is_int64 (Upper i)" "in_interval val k i"
      using assms(2,3) by (auto simp: int64_facts_def state_holds_def dest: all_factsD)
    then show "knows val (load_bound ?bs t k)" using knows_bounds [OF assms(1) t] i by (simp add: load_bound_def)
  qed (rule assms(4))
  have r: "knows val (foldl load_relation t (map (\<lambda>x. (x, the (map_of ?rels x))) (SortedPathKeys ?rels)))" if "knows val t" for t
    using that
  proof (rule foldl_keeps [rotated])
    fix t xr assume xr: "xr \<in> set (map (\<lambda>x. (x, the (map_of ?rels x))) (SortedPathKeys ?rels))" and t: "knows val t"
    then obtain x row where x: "xr = (x, row)" "map_of ?rels x = Some row" using keys_mapped by fastforce
    have "is_int64 c \<and> val x - val y \<le> c" if "map_of row y = Some c" for y c
      using Relations_fact [OF x(2) that] assms(2,3) by (fastforce simp: int64_facts_def state_holds_def dest: all_factsD)
    then show "knows val (load_relation t xr)" using load_relation_knows [OF assms(1) t] x(1) by blast
  qed
  have m: "knows val (foldl (load_modular ?bs) t ks)" if "knows val t" for t ks
    by (rule foldl_keeps) (auto simp: load_modular_def that split: option.split)
  show ?thesis
    using assms(3) m [OF r [OF b]] by (simp add: LoadFromState_def Let_def state_holds_def)
qed

section \<open>Tightening\<close>

abbreviation has_maps :: "State \<Rightarrow> bool" where
  "has_maps s \<equiv> bounds s \<noteq> None \<and> modular s \<noteq> None"

lemma apply_bound_maps:
  "has_maps s \<Longrightarrow> \<exists>s'. applyGeConst v c s = Some s' \<and> has_maps s' \<and> (unsat s \<longrightarrow> unsat s')"
  "has_maps s \<Longrightarrow> \<exists>s'. applyLeConst v c s = Some s' \<and> has_maps s' \<and> (unsat s \<longrightarrow> unsat s')"
  by (auto simp: applyGeConst_def applyLeConst_def set_bounds_def Let_def split: option.split)

lemma tighten_bound:
  assumes "has_maps s"
  shows "\<exists>s'. applyGeConst v c s = Some s' \<and> has_maps s'
      \<and> (\<forall>val len. is_int64 (val v) \<longrightarrow> (state_holds val len s' \<longleftrightarrow> state_holds val len s \<and> c \<le> val v))"
    and "\<exists>s'. applyLeConst v c s = Some s' \<and> has_maps s'
      \<and> (\<forall>val len. is_int64 (val v) \<longrightarrow> (state_holds val len s' \<longleftrightarrow> state_holds val len s \<and> val v \<le> c))"
proof -
  have u: "usable s" using assms by (simp add: usable_def)
  have no: "\<not> state_holds val len t" if "unsat t" for val len t using that by (simp add: state_holds_def)
  obtain s1 where s1: "applyGeConst v c s = Some s1" "has_maps s1" "unsat s \<longrightarrow> unsat s1"
    using apply_bound_maps(1) [OF assms] by blast
  have "state_holds val len s1 \<longleftrightarrow> state_holds val len s \<and> c \<le> val v" if "is_int64 (val v)" for val len
    using applyGeConst_holds [OF u, of val v c len] that s1 no [of s val len] no [of s1 val len] by (cases "unsat s") auto
  with s1 show "\<exists>s'. applyGeConst v c s = Some s' \<and> has_maps s'
      \<and> (\<forall>val len. is_int64 (val v) \<longrightarrow> (state_holds val len s' \<longleftrightarrow> state_holds val len s \<and> c \<le> val v))" by blast
  obtain s2 where s2: "applyLeConst v c s = Some s2" "has_maps s2" "unsat s \<longrightarrow> unsat s2"
    using apply_bound_maps(2) [OF assms] by blast
  have "state_holds val len s2 \<longleftrightarrow> state_holds val len s \<and> val v \<le> c" if "is_int64 (val v)" for val len
    using applyLeConst_holds [OF u, of val v c len] that s2 no [of s val len] no [of s2 val len] by (cases "unsat s") auto
  with s2 show "\<exists>s'. applyLeConst v c s = Some s' \<and> has_maps s'
      \<and> (\<forall>val len. is_int64 (val v) \<longrightarrow> (state_holds val len s' \<longleftrightarrow> state_holds val len s \<and> val v \<le> c))" by blast
qed

lemma tighten_both:
  assumes "has_maps s"
  shows "\<exists>r1 r2. (if g then applyGeConst v l s else Some s) = Some r1 \<and> (if h then applyLeConst v u r1 else Some r1) = Some r2
    \<and> has_maps r2 \<and> (\<forall>val len. is_int64 (val v) \<longrightarrow> (state_holds val len r2 \<longleftrightarrow>
        state_holds val len s \<and> (g \<longrightarrow> l \<le> val v) \<and> (h \<longrightarrow> val v \<le> u)))"
proof -
  obtain r1 where r1: "(if g then applyGeConst v l s else Some s) = Some r1" "has_maps r1"
    "\<forall>val len. is_int64 (val v) \<longrightarrow> (state_holds val len r1 \<longleftrightarrow> state_holds val len s \<and> (g \<longrightarrow> l \<le> val v))"
    using tighten_bound(1) [OF assms, of v l] assms by (cases g) auto
  obtain r2 where r2: "(if h then applyLeConst v u r1 else Some r1) = Some r2" "has_maps r2"
    "\<forall>val len. is_int64 (val v) \<longrightarrow> (state_holds val len r2 \<longleftrightarrow> state_holds val len r1 \<and> (h \<longrightarrow> val v \<le> u))"
    using tighten_bound(2) [OF r1(2), of v u] r1(2) by (cases h) auto
  have "\<forall>val len. is_int64 (val v) \<longrightarrow> (state_holds val len r2 \<longleftrightarrow>
      state_holds val len s \<and> (g \<longrightarrow> l \<le> val v) \<and> (h \<longrightarrow> val v \<le> u))" using r1(3) r2(3) by blast
  with r1(1) r2(1,2) show ?thesis by blast
qed

text \<open>The loop only narrows, and keeps every assignment that the solver and the intervals allow.\<close>

definition narrows :: "(PathKey \<times> Interval) list \<Rightarrow> TheorySolver \<Rightarrow> State \<Rightarrow> State \<Rightarrow> bool" where
  "narrows bs ts s r \<longleftrightarrow> (\<forall>val len. small_values val \<longrightarrow>
      (state_holds val len r \<longrightarrow> state_holds val len s)
    \<and> (knows val ts \<and> all_facts (in_interval val) (map_of bs) \<and> state_holds val len s \<longrightarrow> state_holds val len r))"

lemma narrows_refl: "narrows bs ts s s"
  by (simp add: narrows_def)

lemma narrows_step:
  assumes "narrows bs ts s m" "narrows bs ts' m r" "\<And>val. small_values val \<Longrightarrow> knows val ts \<Longrightarrow> knows val ts'"
  shows "narrows bs ts s r"
  using assms unfolding narrows_def by blast

lemma tighten_loop_narrows:
  "has_maps s \<Longrightarrow> \<exists>r. tighten_loop bs keys ts s = Some r \<and> narrows bs ts s r \<and> usable r"
proof (induction keys arbitrary: ts s)
  case Nil
  then show ?case by (simp add: narrows_refl usable_def)
next
  case (Cons key keys)
  obtain b ts' where inf: "InferBounds key ts = (b, ts')" by fastforce
  have kn: "small_values val \<Longrightarrow> knows val ts \<Longrightarrow> knows val ts'" for val
    using InferBounds_sound(1) [OF _ _ inf] by blast
  have rest: "\<exists>r. tighten_loop bs keys ts' m = Some r \<and> narrows bs ts s r \<and> usable r"
    if "has_maps m" "narrows bs ts s m" for m
    using Cons.IH [OF that(1), of ts'] narrows_step [OF that(2) _ kn] by blast
  show ?case
  proof (cases b)
    case None
    then show ?thesis using inf rest [OF Cons.prems narrows_refl] by simp
  next
    case (Some lu)
    then obtain l u where b: "b = Some (l, u)" by (cases lu) auto
    have lu: "small_values val \<Longrightarrow> knows val ts \<Longrightarrow> l \<le> val key \<and> val key \<le> u" for val
      using InferBounds_sound(2) [OF _ _ inf b] by blast
    show ?thesis
    proof (cases "map_of bs key")
      case None
      obtain r1 r2 where r: "(if MinInt64 < l then applyGeConst key l s else Some s) = Some r1"
        "(if u < MaxInt64 then applyLeConst key u r1 else Some r1) = Some r2" "has_maps r2"
        "\<forall>val len. is_int64 (val key) \<longrightarrow> (state_holds val len r2 \<longleftrightarrow>
          state_holds val len s \<and> (MinInt64 < l \<longrightarrow> l \<le> val key) \<and> (u < MaxInt64 \<longrightarrow> val key \<le> u))"
        using tighten_both [OF Cons.prems, of "MinInt64 < l" key l "u < MaxInt64" u] by blast
      have "narrows bs ts s r2" unfolding narrows_def using r(4) lu small_valuesD(4) by blast
      from rest [OF r(3) this] rest [OF Cons.prems narrows_refl] show ?thesis
        using inf b None r(1,2) by (cases "MinInt64 < l \<or> u < MaxInt64") simp_all
    next
      case (Some i)
      let ?l = "maxInt64 (Lower i) l" and ?u = "minInt64 (Upper i) u"
      have i: "small_values val \<Longrightarrow> knows val ts \<Longrightarrow> all_facts (in_interval val) (map_of bs) \<Longrightarrow> ?l \<le> val key \<and> val key \<le> ?u" for val
        using lu [of val] all_factsD [of "in_interval val" "map_of bs" key i] Some by (auto simp: maxInt64_def minInt64_def)
      obtain r1 r2 where r: "applyGeConst key ?l s = Some r1" "applyLeConst key ?u r1 = Some r2" "has_maps r2"
        "\<forall>val len. is_int64 (val key) \<longrightarrow> (state_holds val len r2 \<longleftrightarrow> state_holds val len s \<and> ?l \<le> val key \<and> val key \<le> ?u)"
        using tighten_both [OF Cons.prems, of True key ?l True ?u] by auto
      have n: "narrows bs ts s r2" unfolding narrows_def using r(4) i small_valuesD(4) by blast
      have bot: "narrows bs ts s Bottom" "usable Bottom" if "?l > ?u"
        unfolding narrows_def using that i Bottom_holds by (fastforce simp: usable_def Bottom_def)+
      show ?thesis
        using inf b Some r(1,2) bot rest [OF r(3) n] rest [OF Cons.prems narrows_refl]
        by (simp add: Let_def)
    qed
  qed
qed

lemma tighten_exact_aux:
  assumes "int64_facts s"
  shows "\<exists>r. TightenWithTheory (Some s) = Some (Some r) \<and> (usable s \<longrightarrow> usable r)
    \<and> (\<forall>val len. small_values val \<longrightarrow> (state_holds val len r \<longleftrightarrow> state_holds val len s))"
proof (cases "unsat s")
  case True
  then show ?thesis by (simp add: TightenWithTheory_def)
next
  case False
  obtain ok ts where ts: "ts_CheckSatisfiability (ToTheorySolver (Some s)) = (ok, ts)" by fastforce
  have told: "ok \<and> knows val ts" if "small_values val" "state_holds val len s" for val len
    using check_knows [OF LoadFromState_knows [OF that(1) assms that(2) NewTheorySolver_knows]] ts by (simp add: ToTheorySolver_def)
  show ?thesis
  proof (cases ok)
    case False
    with told Bottom_holds \<open>\<not> unsat s\<close> ts show ?thesis by (auto simp: TightenWithTheory_def usable_def Bottom_def)
  next
    case True
    let ?s = "the (state_Clone (Some s))" and ?bs = "facts (bounds s)"
    have c: "has_maps ?s" "\<And>val len. state_holds val len ?s \<longleftrightarrow> state_holds val len s"
      using False by (simp_all add: state_Clone_def state_holds_def)
    obtain r where r: "tighten_loop ?bs (tighten_keys s) ts ?s = Some r" "narrows ?bs ts ?s r" "usable r"
      using tighten_loop_narrows [OF c(1)] by blast
    have "state_holds val len r \<longleftrightarrow> state_holds val len s" if "small_values val" for val len
    proof -
      have "all_facts (in_interval val) (map_of ?bs)" if "state_holds val len s" using that by (simp add: state_holds_def)
      then show ?thesis using r(2) told [OF that, of len] c(2) [of val len] that unfolding narrows_def by blast
    qed
    then show ?thesis using True False ts r(1,3) by (simp add: TightenWithTheory_def)
  qed
qed

text \<open>
  C11: Tightening a state with the theory solvers never writes to a nil map and returns a state. Of every
  assignment with values of at most 62 bits, with the value 0 for the zero node of the difference graph, it
  holds exactly when the state did: the bounds it adds follow from the differences, no fact is lost, and a
  state it declares unsatisfiable is so.
\<close>

theorem tighten_exact:
  assumes "int64_facts s"
  shows "\<exists>r. TightenWithTheory (Some s) = Some (Some r) \<and> (usable s \<longrightarrow> usable r)
    \<and> (\<forall>val len. small_values val \<longrightarrow> (state_holds val len r \<longleftrightarrow> state_holds val len s))"
  using assms by (rule tighten_exact_aux)

theorem tighten_exact_witness:
  "(let s = NewState\<lparr>bounds := Some [(''n'', \<lparr>Lower = 0, Upper = 9\<rparr>)], relations := [((''i'', ''n''), - 1)]\<rparr>;
     r = s\<lparr>bounds := Some [(''n'', \<lparr>Lower = 0, Upper = 9\<rparr>), (''i'', \<lparr>Lower = - maxWeight, Upper = 8\<rparr>)]\<rparr> in
    TightenWithTheory (Some s) = Some (Some r)
    \<and> state_holds (\<lambda>k. if k = ''n'' then 9 else 0) (\<lambda>_. 0) r)"
proof -
  let ?s = "NewState\<lparr>bounds := Some [(''n'', \<lparr>Lower = 0, Upper = 9\<rparr>)], relations := [((''i'', ''n''), - 1)]\<rparr>"
  let ?r = "?s\<lparr>bounds := Some [(''n'', \<lparr>Lower = 0, Upper = 9\<rparr>), (''i'', \<lparr>Lower = - maxWeight, Upper = 8\<rparr>)]\<rparr>"
  have r: "TightenWithTheory (Some ?s) = Some (Some ?r)" by code_simp
  have "int64_facts ?s" by (simp add: int64_facts_def all_facts_def NewState_def is_int64_def)
  moreover have "small_values (\<lambda>k. if k = ''n'' then 9 else 0)" by (simp add: small_values_def)
  moreover have "state_holds (\<lambda>k. if k = ''n'' then 9 else 0) (\<lambda>_. 0) ?s" by (simp add: state_holds_def all_facts_def NewState_def)
  ultimately have "state_holds (\<lambda>k. if k = ''n'' then 9 else 0) (\<lambda>_. 0) ?r"
    using tighten_exact [of ?s] r by auto
  with r show ?thesis unfolding Let_def by blast
qed

text \<open>The bounds that are reported for a key hold as well, and so do the differences.\<close>

lemma BoundsForWithTheory_sound:
  assumes "small_values val" "int64_facts s" "state_holds val len s" "BoundsForWithTheory (Some s) key = Some (l, u)"
  shows "l \<le> val key \<and> val key \<le> u"
proof -
  have "case map_of (facts (bounds s)) key of Some i \<Rightarrow> in_interval val key i | None \<Rightarrow> True"
    using assms(3) by (auto simp: state_holds_def dest: all_factsD split: option.split)
  moreover have "fst (InferBounds key (ToTheorySolver (Some s))) = Some (l', u') \<Longrightarrow> l' \<le> val key \<and> val key \<le> u'" for l' u'
    using InferBounds_sound(2) [OF assms(1) LoadFromState_knows [OF assms(1-3) NewTheorySolver_knows]]
    by (metis ToTheorySolver_def prod.collapse)
  ultimately show ?thesis
    using assms(4) small_valuesD(4) [OF assms(1), of key]
    by (auto simp: BoundsForWithTheory_def Let_def maxInt64_def minInt64_def is_int64_def split: option.splits if_splits)
qed

lemma InferRelationalBound_sound:
  assumes "small_values val" "int64_facts s" "state_holds val len s" "InferRelationalBound (Some s) x y = Some c"
  shows "val x - val y \<le> c"
  using GetBound_sound [of "ts_diff (ToTheorySolver (Some s))" val x y c] assms(4)
    LoadFromState_knows [OF assms(1-3) NewTheorySolver_knows]
  by (auto simp: InferRelationalBound_def ts_InferRelationalBound_def ToTheorySolver_def knows_def split: if_splits prod.splits)

section \<open>The domain\<close>

definition domain_holds :: "(PathKey \<Rightarrow> int) \<Rightarrow> (PathKey \<Rightarrow> int) \<Rightarrow> 'env Domain \<Rightarrow> bool" where
  "domain_holds val len d \<longleftrightarrow>
     (\<exists>s. d_state d = Some s \<and> usable s \<and> state_holds val len s) \<and> knows val (d_theory d)"







text \<open>Tightening a domain rebuilds the solvers from the tightened state and keeps what holds.\<close>

lemma domain_TightenWithTheory_holds:
  assumes "domain_holds val len d" "small_values val" "int64_facts (the (d_state d))"
  shows "\<exists>d' r. domain_TightenWithTheory d = Some d' \<and> d_state d' = Some r \<and> usable r \<and> state_holds val len r"
proof -
  obtain s where s: "d_state d = Some s" "usable s" "state_holds val len s" using assms(1) by (auto simp: domain_holds_def)
  moreover obtain r where r: "TightenWithTheory (Some s) = Some (Some r)" "usable s \<longrightarrow> usable r"
    "state_holds val len r \<longleftrightarrow> state_holds val len s"
    using tighten_exact_aux [of s] assms(2,3) s(1) by auto
  ultimately show ?thesis by (simp add: domain_TightenWithTheory_def rebuilt_def)
qed

text \<open>
  A join without common facts is the nil state, in which nothing is known; a domain with that state rejects
  every atom. Joined with a state that has facts, the nil state leaves them as they are.
\<close>

lemma nil_state_rejects:
  "\<exists>a b (d :: unit Domain). state_holds (\<lambda>_. 0) (\<lambda>_. 0) a \<and> state_holds (\<lambda>_. 0) (\<lambda>_. 0) b
     \<and> d = domain_Join (NewDomain ()\<lparr>d_state := Some a\<rparr>) (NewDomain ()\<lparr>d_state := Some b\<rparr>)
     \<and> d_state d = None \<and> (\<forall>atom. ApplyAtom atom d = Some (False, d))"
  "\<exists>s. \<not> state_holds val len s \<and> \<not> unsat s \<and> opt_holds val len None \<and> Join None (Some s) = Some s"
proof -
  let ?a = "NewState\<lparr>bounds := Some [(''x'', \<lparr>Lower = 0, Upper = 9\<rparr>)]\<rparr>"
  let ?d = "domain_Join (NewDomain ()\<lparr>d_state := Some ?a\<rparr>) (NewDomain ()\<lparr>d_state := Some NewState\<rparr>)"
  have "state_holds (\<lambda>_. 0) (\<lambda>_. 0) ?a" "state_holds (\<lambda>_. 0) (\<lambda>_. 0) NewState" by (simp_all add: state_holds_def all_facts_def NewState_def)
  moreover have d: "d_state ?d = None"
    by (simp add: domain_Join_def rebuilt_def Join_def NewState_def join_facts_def SortedPathKeys_def sortedRelationKeys_def
        List.map_filter_def isTop_def Let_def)
  moreover from d have "\<forall>atom. ApplyAtom atom ?d = Some (False, ?d)" by (simp add: ApplyAtom_def)
  ultimately show "\<exists>a b (d :: unit Domain). state_holds (\<lambda>_. 0) (\<lambda>_. 0) a \<and> state_holds (\<lambda>_. 0) (\<lambda>_. 0) b
     \<and> d = domain_Join (NewDomain ()\<lparr>d_state := Some a\<rparr>) (NewDomain ()\<lparr>d_state := Some b\<rparr>)
     \<and> d_state d = None \<and> (\<forall>atom. ApplyAtom atom d = Some (False, d))" by blast
  let ?s = "NewState\<lparr>bounds := Some [(''x'', \<lparr>Lower = val ''x'' + 1, Upper = val ''x'' + 1\<rparr>)]\<rparr>"
  have "\<not> state_holds val len ?s \<and> \<not> unsat ?s \<and> opt_holds val len None \<and> Join None (Some ?s) = Some ?s"
    by (simp add: state_holds_def all_facts_def NewState_def opt_holds_def Join_def state_Clone_def)
  then show "\<exists>s. \<not> state_holds val len s \<and> \<not> unsat s \<and> opt_holds val len None \<and> Join None (Some s) = Some s" by blast
qed

end
