(* ===== verification/Spec2Isabelle.thy ===== *)
theory Spec2Isabelle
  imports Prelude Opcode Integers Values Registry Hamt Bytecode Theory_Interface Difference Modular CallStack PatternVM TableProps FieldAccess DomProps CondCanon CondSubst Components Budget Exprs NumericTheory
begin

text \<open>
  \<^bold>\<open>go-lua: a Lua virtual machine and a flow-sensitive type checker\<close>

  The program has two halves. The runtime compiles Lua functions to 32-bit instructions and runs them:
  the instructions, the values, the register file, the stacks of call frames, the tables, the patterns
  of the string library and the files compiled functions are saved in. The checker analyses the flow
  of types through a function: it keeps facts in persistent maps, combines what branches tell in
  conditions over access paths, and decides arithmetic conditions with a numeric domain on top of small
  theory solvers. Both halves share the checked integer arithmetic, the hashing and the
  recursion guard of \<open>internal\<close>.

  \<^bold>\<open>Theories and source files\<close>

  \<^item> \<open>Prelude\<close>: Go's integers (\<open>wrap64\<close>, truncated division), collections of facts, lemmas on
    bits and lists.
  \<^item> \<open>Opcode\<close> (\<open>opcode.go\<close>): the opcode table and the packing of instruction fields. Fields read
    back as they were written, cut to their width, and every instruction is rebuilt from its fields.
  \<^item> \<open>Integers\<close> (\<open>internal/safemath.go\<close>, \<open>numeric_arithmetic.go\<close>, \<open>internal/hash.go\<close>,
    \<open>internal/recursion.go\<close>): checked operations are exact or report overflow, division is floor
    division, shifts are logical, and a guarded recursion is bounded.
  \<^item> \<open>Values\<close> (\<open>value.go\<close>, \<open>utils.go\<close>): the sum type of Lua values. A float is a rational, an
    infinity or a NaN; its conversions to integers are those of the code.
  \<^item> \<open>Registry\<close> (\<open>registry.go\<close>): the register file, a growable array with a top. Its operations are
    list operations on the registers below the top, and overflow is the error value. An array that
    cannot be allocated is an error value too.
  \<^item> \<open>Hamt\<close> (\<open>internal/hamt.go\<close>): the persistent trie. The locale of finite maps it implements is
    interpreted for every hash function; \<open>None\<close> stands for a panic, and is shown not to happen.
  \<^item> \<open>Bytecode\<close> (\<open>compiler/bytecode/bytecode.go\<close>, \<open>function.go\<close>): writer and reader as state
    passing functions that stop at the first error. Round trip, rejection of every strict prefix, and
    totality on arbitrary bytes.
  \<^item> \<open>Theory_Interface\<close>, \<open>Difference\<close>, \<open>Modular\<close> (\<open>types/constraint/theory\<close>): the interface of a
    theory solver as a locale, with the difference graph and the modular facts as its two instances.
    Sound for every input, complete for difference logic while no weight is clamped.
  \<^item> \<open>CallStack\<close> (\<open>state.go\<close>): the fixed and the growing stack of call frames. Both implement the
    locale of a frame stack, and give the same answers for every allowed sequence of calls.
  \<^item> \<open>PatternSyntax\<close>, \<open>PatternVM\<close> (\<open>pm/pm.go\<close>): the parser, the compiler to instructions, the
    backtracking machine, the search and the cache of compiled patterns. The reference is a function
    that lists, for a parsed pattern, the outcomes of backtracking in order (\<open>top_trace\<close>); running the
    compiled code gives the first of them.
  \<^item> \<open>Table\<close>, \<open>TableOrder\<close>, \<open>TableSlots\<close>, \<open>TableMap\<close>, \<open>TableNext\<close>, \<open>TableProps\<close> (\<open>table.go\<close>): the
    operations, and the layers of their proof: the iteration order, the hash part as a map from Lua
    keys, the table as one map from Lua keys, traversal, and the properties. The properties are about the
    tables that the operations build under keys other than nil and NaN (\<open>reachable\<close>), frozen or not.
  \<^item> \<open>FieldAccess\<close> (\<open>state.go\<close>): metatables, and the writes of the instructions and of the API, which follow
    \<open>__newindex\<close> from object to object in a store of tables. When they raise, what they change, and that they do
    not refuse the keys nil and NaN.
  \<^item> \<open>FlowGraph\<close> (\<open>types/cfg/cfg.go\<close>): control flow graphs, the interface \<open>Graph\<close> and the reverse
    post-order. Adjacency lists agree with the edges, and the depth-first search finds the reachable
    nodes with a predecessor of each before it.
  \<^item> \<open>Dominators\<close>, \<open>DomTree\<close>, \<open>DomProof\<close>, \<open>DomFrontier\<close>, \<open>DomProps\<close>
    (\<open>compiler/cfg/analysis/dominators.go\<close>): the iteration that finds immediate dominators, trees and
    their ancestors, the invariant with which it ends at the dominators, frontiers, and the properties.
    The locale \<open>flow_graph\<close> states what the analyses need of a graph; it is interpreted on the graphs of
    \<open>cfg.go\<close> and on their reversals.
  \<^item> \<open>Paths\<close> (\<open>types/constraint/path.go\<close>, \<open>path_helpers.go\<close>): access paths with their keys, hashes,
    order and placeholders. The key of a path identifies it, and indices read back from their names.
  \<^item> \<open>Constraints\<close> (\<open>types/constraint/constraint.go\<close>, \<open>path_visit.go\<close>, \<open>path_map.go\<close>,
    \<open>types/narrow/type_key.go\<close>, \<open>types/typ/literal.go\<close>): the eighteen narrowing constraints. What
    they need of types is the locale \<open>type_interface\<close>, interpreted on literal types.
  \<^item> \<open>Conditions\<close>, \<open>CondSemantics\<close>, \<open>CondProps\<close>, \<open>CondCanon\<close>, \<open>CondSubst\<close>
    (\<open>types/constraint/condition.go\<close>): conditions in disjunctive normal form. A world gives values to
    paths and answers to constraints; conjunction, disjunction and negation over-approximate
    and are exact within the limit on disjuncts, the conditions built satisfy their invariant, but for what
    \<open>FromConjunction\<close> wraps unchecked, canonical conjunctions are unique and lookups exact, also when hashes collide, and
    substitution is binding.
  \<^item> \<open>Components\<close> (\<open>internal/scc.go\<close>, \<open>compiler/check/returns/scc.go\<close>): Tarjan's algorithm for strongly
    connected components. It ends, and returns the components, each after those it depends on.
  \<^item> \<open>Exprs\<close> (\<open>types/constraint/expr.go\<close>, \<open>expr_compare.go\<close>): arithmetic expressions with checked
    evaluation. Simplification keeps values, substitution is evaluation in the changed environment.
  \<^item> \<open>Atoms\<close> (\<open>types/constraint/numeric.go\<close>, \<open>atom.go\<close>): numeric constraints, and atoms as the common form
    of constraints. The conversions keep the meaning and leave over what has no atom, equal atoms and constraints
    have equal hashes.
  \<^item> \<open>NumericState\<close>, \<open>NumericProps\<close>, \<open>BellmanFord\<close> (\<open>types/flow/numeric/state.go\<close>,
    \<open>types/constraint/sort.go\<close>): intervals, residues, differences and lengths as facts about assignments.
    Applying a constraint gives the assignments that satisfy it and the facts it does not replace, and the relaxation that looks for a negative
    cycle decides the differences.
  \<^item> \<open>NumericTheory\<close> (\<open>types/flow/numeric/theory.go\<close>, \<open>domain.go\<close>): the numeric state and the theory
    solvers together. What is inferred is implied, and no atom that can hold is rejected.
  \<^item> \<open>Budget\<close> (\<open>compiler/check/pipeline/budget.go\<close>): the number of rounds of the checker, from the
    nesting of functions and, through the components, from the longest chain of calls.

  \<^bold>\<open>Correspondence\<close>

  A Go struct is a record with its field names, an interface with a fixed set of variants a datatype,
  a method that changes its receiver returns the changed record. An index that Go would reject and a
  raised error are values of an option or sum type. Go's \<open>int\<close> is an integer with \<open>wrap64\<close> where it can
  overflow, unsigned integers are words. A nil slice or map is told apart from an empty one where the code
  does so. Where Go ranges over a map, the order is a parameter, and so is the order in which
  \<open>sort.Sort\<close> leaves what compares equal: it is assumed to permute, and for some properties to sort. The address of an object that
  an operation may allocate is a parameter too.

  \<^bold>\<open>Bounds and fuel\<close>

  The parser of patterns takes the number of bytes left as fuel, as every turn of its loop reads one.
  The machine has no fuel: it is a partial function whose termination is proved for compiled code,
  and the limit of \<open>MaxBacktracks\<close> is that of the code. Capture positions are shifted by one in a 32-bit
  word, so the properties about positions are for texts shorter than \<open>2^31\<close> bytes. The loop that moves elements from the hash part of a
  table to its array takes the size of the hash part as fuel, as every turn removes an entry. The list
  operations of tables are stated for arrays below \<open>MaxArrayIndex\<close> (a variable of \<open>config.go\<close> taken at its initial
  value, as is \<open>MaxTableGetLoop\<close>), beyond which reads no longer look
  into the array. The loops over dominators are partial functions too: that they return is part of their
  properties, by the sum of the numbers of all parents, which goes down with every change. So is the search
  for components, by the number of symbols not visited. The completeness of difference logic assumes that weights stay below \<open>maxWeight\<close>.
  The numeric domain reports \<open>maxWeight\<close> for a missing bound, so its properties are about assignments of values
  within \<open>maxWeight\<close>, and the relaxation of a state adds 64-bit integers, so its weights are
  assumed to be small enough for as many additions as it makes. A slice whose size Go refuses to make is an
  error value (\<open>SliceTooLarge\<close>, \<open>FindPanic\<close>); running out of memory below that is not modelled. A recursion guard counts
  in natural numbers, so a negative limit is not modelled either.

  \<^bold>\<open>Not modelled\<close>

  The instruction loop (\<open>vm.go\<close>), the code generator (\<open>compile.go\<close>), the rest of \<open>state.go\<close>
  (calls, reads through \<open>__index\<close>, coroutines), the generated parser, the type lattice and the checker built on it, the
  libraries that wrap Go packages, and the language server. Next in this order are the upvalues and calls
  of the runtime, then parts of the instruction loop.
\<close>

end
